(* ===== verification/Prelude.thy ===== *)
theory Prelude
  imports Complex_Main "HOL-Library.Word"
begin

unbundle bit_operations_syntax

text \<open>
  Shared vocabulary of the development: the outcome of a Rust call (a value, an error value
  or a panic), Rust's machine integers, Rust's truncating division, array indexing with the
  bounds check that Rust performs, and the generic facts about them that the component
  theories use.

  Signed integers (\<open>i8\<close>, \<open>i64\<close>, \<open>i128\<close>) are mathematical integers with the two's complement
  wrap written out (\<open>as_i64\<close>, \<open>as_i128\<close>), unsigned limbs are words
  (\<open>u64 = 64 word\<close>, \<open>u128 = 128 word\<close>) and the decimal scales (\<open>u8\<close>) are natural numbers with
  the wrap modulo 256 written out. The arithmetic is that of the release profile, which
  \<open>determin/Cargo.toml\<close> makes the required one: \<open>+\<close>, \<open>-\<close> and \<open>*\<close> wrap instead of panicking.
\<close>

named_theorems rust_simps "rewrite rules for the model of Rust's values and operations"
named_theorems bounds "range facts of machine integers"

subsection \<open>Outcomes\<close>

datatype ('a, 'e) outcome = Ok 'a | Err 'e | Panic

definition bind_ok :: "('a, 'e) outcome \<Rightarrow> ('a \<Rightarrow> ('b, 'e) outcome) \<Rightarrow> ('b, 'e) outcome" where
  "bind_ok m f = (case m of Ok x \<Rightarrow> f x | Err e \<Rightarrow> Err e | Panic \<Rightarrow> Panic)"

definition map_err :: "('e \<Rightarrow> 'f) \<Rightarrow> ('a, 'e) outcome \<Rightarrow> ('a, 'f) outcome" where
  "map_err g m = (case m of Ok x \<Rightarrow> Ok x | Err e \<Rightarrow> Err (g e) | Panic \<Rightarrow> Panic)"

definition at_index :: "'a list \<Rightarrow> nat \<Rightarrow> ('a, 'e) outcome" where
  "at_index xs i = (if i < length xs then Ok (xs ! i) else Panic)"

lemma bind_ok_simps [simp]:
  "bind_ok (Ok x) f = f x" "bind_ok (Err e) f = Err e" "bind_ok Panic f = Panic"
  by (simp_all add: bind_ok_def)

lemma bind_ok_eq_Ok [simp]: "bind_ok m f = Ok y \<longleftrightarrow> (\<exists>x. m = Ok x \<and> f x = Ok y)"
  by (cases m) auto

lemma map_err_simps [simp]:
  "map_err g (Ok x) = Ok x" "map_err g (Err e) = Err (g e)" "map_err g Panic = Panic"
  by (simp_all add: map_err_def)

lemma map_err_eq_Ok [simp]: "map_err g m = Ok y \<longleftrightarrow> m = Ok y"
  by (cases m) auto

lemma at_index_in [simp]: "i < length xs \<Longrightarrow> at_index xs i = Ok (xs ! i)"
  by (simp add: at_index_def)

subsection \<open>Machine integers\<close>

type_synonym u8 = "8 word"
type_synonym u64 = "64 word"
type_synonym u128 = "128 word"

abbreviation I64_MIN :: int where "I64_MIN \<equiv> - 9223372036854775808"
abbreviation I64_MAX :: int where "I64_MAX \<equiv> 9223372036854775807"
abbreviation I128_MIN :: int where "I128_MIN \<equiv> - 170141183460469231731687303715884105728"
abbreviation I128_MAX :: int where "I128_MAX \<equiv> 170141183460469231731687303715884105727"

definition i64_range :: "int \<Rightarrow> bool" where
  "i64_range x \<longleftrightarrow> I64_MIN \<le> x \<and> x \<le> I64_MAX"

definition i128_range :: "int \<Rightarrow> bool" where
  "i128_range x \<longleftrightarrow> I128_MIN \<le> x \<and> x \<le> I128_MAX"

definition as_i64 :: "int \<Rightarrow> int" where
  "as_i64 x = (x + 9223372036854775808) mod 18446744073709551616 - 9223372036854775808"

definition as_i128 :: "int \<Rightarrow> int" where
  "as_i128 x = (x + 170141183460469231731687303715884105728)
                 mod 340282366920938463463374607431768211456
               - 170141183460469231731687303715884105728"

lemma as_i64_id [simp]: "i64_range x \<Longrightarrow> as_i64 x = x"
  by (simp add: as_i64_def i64_range_def)

lemma as_i128_id [simp]: "i128_range x \<Longrightarrow> as_i128 x = x"
  by (simp add: as_i128_def i128_range_def)

lemma as_i64_range [simp]: "i64_range (as_i64 x)"
proof -
  have "0 \<le> (x + 9223372036854775808) mod 18446744073709551616"
    and "(x + 9223372036854775808) mod 18446744073709551616 < 18446744073709551616"
    by simp_all
  then show ?thesis by (simp add: as_i64_def i64_range_def)
qed

lemma as_i128_range [simp]: "i128_range (as_i128 x)"
proof -
  let ?m = "(x + 170141183460469231731687303715884105728)
              mod 340282366920938463463374607431768211456"
  have "0 \<le> ?m" and "?m < 340282366920938463463374607431768211456"
    by simp_all
  then show ?thesis by (simp add: as_i128_def i128_range_def)
qed

lemma i64_is_i128 [bounds]: "i64_range x \<Longrightarrow> i128_range x"
  by (simp add: i64_range_def i128_range_def)

text \<open>A product of an \<open>i64\<close> and a factor up to \<open>2 ^ 63\<close> in magnitude never leaves \<open>i128\<close>.\<close>

lemma i128_range_mult [bounds]:
  assumes "\<bar>x\<bar> \<le> 9223372036854775808" and "\<bar>y\<bar> \<le> 9223372036854775808"
  shows "i128_range (x * y)"
proof -
  have "\<bar>x * y\<bar> \<le> 9223372036854775808 * 9223372036854775808"
    unfolding abs_mult using assms by (intro mult_mono) auto
  then show ?thesis by (simp add: i128_range_def abs_le_iff)
qed

lemma i64_range_abs [bounds]: "i64_range x \<Longrightarrow> \<bar>x\<bar> \<le> 9223372036854775808"
  by (auto simp: i64_range_def)

subsection \<open>Rust's truncating division\<close>

definition rust_div :: "int \<Rightarrow> int \<Rightarrow> int" where
  "rust_div a b = sgn a * sgn b * (\<bar>a\<bar> div \<bar>b\<bar>)"

definition rust_rem :: "int \<Rightarrow> int \<Rightarrow> int" where
  "rust_rem a b = a - b * rust_div a b"

lemma rust_div_rem: "a = b * rust_div a b + rust_rem a b"
  by (simp add: rust_rem_def)

lemma rust_rem_eq: "rust_rem a b = sgn a * (\<bar>a\<bar> mod \<bar>b\<bar>)"
proof -
  have "a = sgn a * \<bar>a\<bar>" by (simp add: sgn_mult_abs)
  also have "\<bar>a\<bar> = \<bar>b\<bar> * (\<bar>a\<bar> div \<bar>b\<bar>) + \<bar>a\<bar> mod \<bar>b\<bar>" by simp
  finally have *: "a = sgn a * (\<bar>b\<bar> * (\<bar>a\<bar> div \<bar>b\<bar>)) + sgn a * (\<bar>a\<bar> mod \<bar>b\<bar>)"
    by (simp only: distrib_left)
  have "b * rust_div a b = sgn a * (\<bar>b\<bar> * (\<bar>a\<bar> div \<bar>b\<bar>))"
    by (simp add: rust_div_def abs_sgn mult_ac)
  with * show ?thesis by (simp add: rust_rem_def)
qed

lemma abs_rust_rem: "b \<noteq> 0 \<Longrightarrow> \<bar>rust_rem a b\<bar> < \<bar>b\<bar>"
proof -
  assume "b \<noteq> 0"
  have "\<bar>rust_rem a b\<bar> \<le> \<bar>a\<bar> mod \<bar>b\<bar>"
    using \<open>b \<noteq> 0\<close> by (auto simp: rust_rem_eq abs_mult abs_sgn_eq)
  also have "\<dots> < \<bar>b\<bar>" using \<open>b \<noteq> 0\<close> by simp
  finally show ?thesis .
qed

lemma rust_rem_0_iff_dvd: "rust_rem a b = 0 \<longleftrightarrow> b dvd a"
proof -
  have "rust_rem a b = 0 \<longleftrightarrow> \<bar>a\<bar> mod \<bar>b\<bar> = 0"
    by (auto simp: rust_rem_eq sgn_0_0)
  also have "\<dots> \<longleftrightarrow> b dvd a"
    by (simp add: mod_eq_0_iff_dvd)
  finally show ?thesis .
qed

lemma rust_div_dvd: "b dvd a \<Longrightarrow> b * rust_div a b = a"
  using rust_div_rem [of a b] by (simp add: rust_rem_0_iff_dvd [symmetric])

lemma rust_div_1 [simp]: "rust_div a 1 = a"
  by (simp add: rust_div_def sgn_mult_abs)

lemma rust_div_pos: "0 \<le> a \<Longrightarrow> 0 < b \<Longrightarrow> rust_div a b = a div b"
  by (cases "a = 0") (simp_all add: rust_div_def)

lemma rust_rem_pos: "0 \<le> a \<Longrightarrow> 0 < b \<Longrightarrow> rust_rem a b = a mod b"
  by (simp add: rust_rem_def rust_div_pos minus_mult_div_eq_mod)

lemma abs_rust_div: "b \<noteq> 0 \<Longrightarrow> \<bar>rust_div a b\<bar> = \<bar>a\<bar> div \<bar>b\<bar>"
  by (cases "a = 0") (simp_all add: rust_div_def abs_mult abs_sgn_eq pos_imp_zdiv_nonneg_iff)

lemma abs_rust_div_le: "\<bar>rust_div a b\<bar> \<le> \<bar>a\<bar>"
proof (cases "b = 0")
  case True
  then show ?thesis by (simp add: rust_div_def)
next
  case False
  then have "\<bar>a\<bar> div \<bar>b\<bar> \<le> \<bar>a\<bar> div 1"
    by (intro zdiv_mono2) auto
  with False show ?thesis
    by (auto simp: rust_div_def abs_mult abs_sgn_eq pos_imp_zdiv_nonneg_iff)
qed

end
