(* ===== verification/FixedPoint.thy ===== *)
theory FixedPoint
  imports Prelude
begin

text \<open>
  Decimal fixed-point numbers \<open>v / 10 ^ s\<close>, the mathematics that the two decimal types of
  the numeric substrate (\<open>Dqa\<close> and \<open>Decimal\<close>) and the canonical serializer share: the value
  of a pair, its canonical form, the contract of a loop that strips trailing zeros (a locale,
  interpreted on each of the three loops of the source), and the specification of
  round-half-to-even (banker's rounding).
\<close>

definition fp_val :: "int \<Rightarrow> nat \<Rightarrow> rat" where
  "fp_val v s = of_int v / 10 ^ s"

definition fp_canonical :: "int \<Rightarrow> nat \<Rightarrow> bool" where
  "fp_canonical v s \<longleftrightarrow> (if v = 0 then s = 0 else s = 0 \<or> \<not> 10 dvd v)"

lemma fp_val_eq_iff: "fp_val v s = fp_val w t \<longleftrightarrow> v * 10 ^ t = w * 10 ^ s"
proof -
  have "fp_val v s = fp_val w t \<longleftrightarrow> (of_int v :: rat) * 10 ^ t = of_int w * 10 ^ s"
    by (simp add: fp_val_def frac_eq_eq)
  also have "\<dots> \<longleftrightarrow> (of_int (v * 10 ^ t) :: rat) = of_int (w * 10 ^ s)"
    by simp
  finally show ?thesis by (simp only: of_int_eq_iff)
qed

lemma fp_val_less_iff: "fp_val v s < fp_val w t \<longleftrightarrow> v * 10 ^ t < w * 10 ^ s"
proof -
  have "fp_val v s < fp_val w t \<longleftrightarrow> (of_int v :: rat) * 10 ^ t < of_int w * 10 ^ s"
    by (simp add: fp_val_def divide_less_eq less_divide_eq mult.commute)
  also have "\<dots> \<longleftrightarrow> (of_int (v * 10 ^ t) :: rat) < of_int (w * 10 ^ s)"
    by simp
  finally show ?thesis by (simp only: of_int_less_iff)
qed

lemma fp_val_shift: "fp_val (v * 10 ^ k) (s + k) = fp_val v s"
  by (simp add: fp_val_eq_iff power_add)

lemma fp_val_add: "fp_val (v + w) s = fp_val v s + fp_val w s"
  by (simp add: fp_val_def add_divide_distrib)

lemma fp_val_diff: "fp_val (v - w) s = fp_val v s - fp_val w s"
  by (simp add: fp_val_def diff_divide_distrib)

lemma fp_val_mult: "fp_val (v * w) (s + t) = fp_val v s * fp_val w t"
  by (simp add: fp_val_def power_add)

lemma fp_val_0 [simp]: "fp_val 0 s = 0"
  by (simp add: fp_val_def)

lemma fp_val_scale0 [simp]: "fp_val v 0 = of_int v"
  by (simp add: fp_val_def)

text \<open>A canonical pair is determined by its value.\<close>

lemma fp_canonical_aux:
  assumes "fp_canonical w t" "v * 10 ^ t = w * 10 ^ s" "s < t"
  shows False
proof -
  from assms(3) obtain k where t: "t = s + Suc k"
    using less_imp_Suc_add by fastforce
  with assms(2) have "w = v * 10 ^ Suc k"
    by (simp add: power_add)
  with assms(1) t show False
    by (auto simp: fp_canonical_def split: if_splits)
qed

lemma fp_canonical_unique:
  assumes "fp_canonical v s" "fp_canonical w t" "fp_val v s = fp_val w t"
  shows "v = w \<and> s = t"
proof -
  from assms(3) have eq: "v * 10 ^ t = w * 10 ^ s"
    by (simp add: fp_val_eq_iff)
  have "\<not> s < t" using fp_canonical_aux [OF assms(2) eq] by blast
  moreover have "\<not> t < s" using fp_canonical_aux [OF assms(1) eq [symmetric]] by blast
  ultimately have "s = t" by simp
  with eq show ?thesis by simp
qed

subsection \<open>The contract of a trailing-zero stripping loop\<close>

locale zero_stripper =
  fixes strip :: "int \<Rightarrow> nat \<Rightarrow> int \<times> nat"
  assumes strip_step: "10 dvd v \<Longrightarrow> strip v (Suc s) = strip (rust_div v 10) s"
    and strip_stop: "s = 0 \<or> \<not> 10 dvd v \<Longrightarrow> strip v s = (v, s)"
begin

lemma strip_induct [case_names stop step]:
  assumes stop: "\<And>v s. s = 0 \<or> \<not> 10 dvd v \<Longrightarrow> P v s"
    and step: "\<And>v s. 10 dvd v \<Longrightarrow> P (rust_div v 10) s \<Longrightarrow> P v (Suc s)"
  shows "P v s"
proof (induction s arbitrary: v)
  case 0
  then show ?case by (simp add: stop)
next
  case (Suc s)
  then show ?case by (cases "10 dvd v") (auto intro: stop step)
qed

lemma strip_val: "strip v s = (w, t) \<Longrightarrow> fp_val w t = fp_val v s"
proof (induction v s rule: strip_induct)
  case (stop v s)
  then show ?case by (simp add: strip_stop)
next
  case (step v s)
  then have "fp_val w t = fp_val (rust_div v 10) s"
    by (simp add: strip_step)
  also have "\<dots> = fp_val v (Suc s)"
    using rust_div_dvd [OF step.hyps] by (simp add: fp_val_eq_iff mult_ac)
  finally show ?case .
qed

lemma strip_nonzero: "v \<noteq> 0 \<Longrightarrow> fst (strip v s) \<noteq> 0"
proof (induction v s rule: strip_induct)
  case (stop v s)
  then show ?case by (simp add: strip_stop)
next
  case (step v s)
  then have "rust_div v 10 \<noteq> 0" using rust_div_dvd [of 10 v] by auto
  with step show ?case by (simp add: strip_step)
qed

lemma strip_canonical: "v \<noteq> 0 \<Longrightarrow> strip v s = (w, t) \<Longrightarrow> fp_canonical w t"
proof (induction v s rule: strip_induct)
  case (stop v s)
  then show ?case by (auto simp: strip_stop fp_canonical_def)
next
  case (step v s)
  then have "rust_div v 10 \<noteq> 0" using rust_div_dvd [of 10 v] by auto
  with step show ?case by (simp add: strip_step)
qed

lemma strip_scale_le: "strip v s = (w, t) \<Longrightarrow> t \<le> s"
  by (induction v s rule: strip_induct) (fastforce simp: strip_stop strip_step)+

lemma strip_abs_le: "strip v s = (w, t) \<Longrightarrow> \<bar>w\<bar> \<le> \<bar>v\<bar>"
proof (induction v s rule: strip_induct)
  case (stop v s)
  then show ?case by (simp add: strip_stop)
next
  case (step v s)
  then have "\<bar>w\<bar> \<le> \<bar>rust_div v 10\<bar>" by (simp add: strip_step)
  then show ?case using abs_rust_div_le [of v 10] by linarith
qed

lemma strip_same_sign: "strip v s = (w, t) \<Longrightarrow> 0 \<le> v \<Longrightarrow> 0 \<le> w"
proof (induction v s rule: strip_induct)
  case (stop v s)
  then show ?case by (simp add: strip_stop)
next
  case (step v s)
  then show ?case by (simp add: strip_step rust_div_pos pos_imp_zdiv_nonneg_iff)
qed

lemma strip_nonpos: "strip v s = (w, t) \<Longrightarrow> v \<le> 0 \<Longrightarrow> w \<le> 0"
proof (rule ccontr)
  assume a: "strip v s = (w, t)" "v \<le> 0" "\<not> w \<le> 0"
  then have "0 < fp_val w t" and "fp_val v s \<le> 0"
    by (simp_all add: fp_val_def divide_le_0_iff)
  with strip_val [OF a(1)] show False by simp
qed

lemma strip_range:
  assumes "strip v s = (w, t)" "- b \<le> v" "v \<le> c" "0 \<le> b" "0 \<le> c"
  shows "- b \<le> w \<and> w \<le> c"
proof (cases "0 \<le> v")
  case True
  with assms strip_same_sign [OF assms(1)] strip_abs_le [OF assms(1)] show ?thesis by simp
next
  case False
  with assms strip_nonpos [OF assms(1)] strip_abs_le [OF assms(1)] show ?thesis by simp
qed

end

subsection \<open>Round half to even\<close>

text \<open>
  \<open>half_even n d r\<close>: the integer \<open>r\<close> is \<open>n / d\<close> rounded to the nearest integer, ties to the
  even neighbour. The relation is a function of \<open>n\<close> and \<open>d\<close>.
\<close>

definition half_even :: "int \<Rightarrow> int \<Rightarrow> int \<Rightarrow> bool" where
  "half_even n d r \<longleftrightarrow> d \<noteq> 0 \<and> 2 * \<bar>n - r * d\<bar> \<le> \<bar>d\<bar> \<and> (2 * \<bar>n - r * d\<bar> = \<bar>d\<bar> \<longrightarrow> even r)"

lemma half_even_unique:
  assumes "half_even n d r" "half_even n d r'"
  shows "r = r'"
proof (rule ccontr)
  assume ne: "r \<noteq> r'"
  have d: "d \<noteq> 0" and 1: "2 * \<bar>n - r * d\<bar> \<le> \<bar>d\<bar>" and 2: "2 * \<bar>n - r' * d\<bar> \<le> \<bar>d\<bar>"
    using assms by (auto simp: half_even_def)
  have "(r - r') * d = (n - r' * d) - (n - r * d)" by (simp add: algebra_simps)
  then have le: "\<bar>r - r'\<bar> * \<bar>d\<bar> \<le> \<bar>d\<bar>"
    using 1 2 abs_triangle_ineq4 [of "n - r' * d" "n - r * d"]
    by (simp flip: abs_mult)
  have "\<bar>r - r'\<bar> = 1"
  proof -
    have "\<bar>r - r'\<bar> \<le> 1" using le d by (simp add: mult_le_cancel_right1)
    with ne show ?thesis by simp
  qed
  moreover from this have "2 * \<bar>n - r * d\<bar> = \<bar>d\<bar> \<and> 2 * \<bar>n - r' * d\<bar> = \<bar>d\<bar>"
    using 1 2 \<open>(r - r') * d = (n - r' * d) - (n - r * d)\<close>
      abs_triangle_ineq4 [of "n - r' * d" "n - r * d"] abs_mult [of "r - r'" d] by simp
  then have "even r" "even r'" using assms by (auto simp: half_even_def)
  ultimately show False by presburger
qed

lemma half_even_exact: "d \<noteq> 0 \<Longrightarrow> half_even (r * d) d r"
  by (simp add: half_even_def)

lemma half_even_dist:
  assumes "half_even n d r"
  shows "\<bar>of_int n / of_int d - (of_int r :: rat)\<bar> \<le> 1 / 2"
proof -
  from assms have d: "d \<noteq> 0" and le: "2 * \<bar>n - r * d\<bar> \<le> \<bar>d\<bar>"
    by (auto simp: half_even_def)
  have "of_int n / of_int d - (of_int r :: rat) = of_int (n - r * d) / of_int d"
    using d by (simp add: field_simps)
  then have "\<bar>of_int n / of_int d - (of_int r :: rat)\<bar> = of_int \<bar>n - r * d\<bar> / of_int \<bar>d\<bar>"
    by (simp add: abs_divide)
  also have "\<dots> \<le> 1 / 2"
  proof -
    have "(of_int (2 * \<bar>n - r * d\<bar>) :: rat) \<le> of_int \<bar>d\<bar>"
      using le by (simp only: of_int_le_iff)
    with d show ?thesis by (simp add: divide_le_eq)
  qed
  finally show ?thesis .
qed

text \<open>
  The three-way test on the truncated quotient and remainder: keep the quotient below the
  half, step away from zero above it, go to the even neighbour at the tie.
\<close>

lemma half_even_of_trunc:
  assumes d: "d \<noteq> 0"
    and res: "r = (if 2 * \<bar>rust_rem n d\<bar> < \<bar>d\<bar> then rust_div n d
                  else if 2 * \<bar>rust_rem n d\<bar> > \<bar>d\<bar> then rust_div n d + sgn n * sgn d
                  else if even (rust_div n d) then rust_div n d
                  else rust_div n d + sgn n * sgn d)"
  shows "half_even n d r"
proof -
  let ?q = "rust_div n d" and ?m = "rust_rem n d"
  have n: "n - ?q * d = ?m" by (simp add: rust_rem_def mult.commute)
  show ?thesis
  proof (cases "2 * \<bar>?m\<bar> < \<bar>d\<bar> \<or> (2 * \<bar>?m\<bar> = \<bar>d\<bar> \<and> even ?q)")
    case True
    then have "r = ?q" using res by auto
    with True n d show ?thesis by (auto simp: half_even_def)
  next
    case False
    then have r: "r = ?q + sgn n * sgn d" and ge: "\<bar>d\<bar> \<le> 2 * \<bar>?m\<bar>" using res by auto
    have m: "?m = sgn n * \<bar>?m\<bar>"
      using d by (auto simp: rust_rem_eq abs_mult abs_sgn_eq sgn_0_0)
    have nz: "n \<noteq> 0" using ge m d by auto
    have "n - r * d = ?m - sgn n * (sgn d * d)"
      using n r by (simp add: algebra_simps)
    also have "\<dots> = sgn n * (\<bar>?m\<bar> - \<bar>d\<bar>)"
      using m by (simp add: algebra_simps abs_sgn)
    finally have "\<bar>n - r * d\<bar> = \<bar>d\<bar> - \<bar>?m\<bar>"
      using nz abs_rust_rem [OF d, of n] by (simp add: abs_mult abs_sgn_eq)
    moreover have "even r" if "2 * \<bar>?m\<bar> = \<bar>d\<bar>"
      using that False r nz d by (auto simp: sgn_if)
    ultimately show ?thesis using ge d by (auto simp: half_even_def)
  qed
qed

end
