(* ===== verification/Limbs.thy ===== *)
theory Limbs
  imports Prelude
begin

text \<open>
  Limb vectors of \<open>determin/src/bigint.rs\<close>: little-endian lists of \<open>u64\<close> digits in base
  \<open>2 ^ 64\<close>, with addition, subtraction, schoolbook multiplication and magnitude comparison,
  computed as the code computes them, with \<open>u128\<close> intermediates and explicit carries and
  borrows. Every routine is proved equal to the operation on natural numbers through the
  abstraction \<open>lval\<close>.
\<close>

type_synonym limbs = "u64 list"

abbreviation LB :: nat where "LB \<equiv> 18446744073709551616"

fun lval :: "limbs \<Rightarrow> nat" where
  "lval [] = 0"
| "lval (x # xs) = unat x + LB * lval xs"

subsection \<open>Operations\<close>

definition limb_get :: "limbs \<Rightarrow> nat \<Rightarrow> u64" where
  "limb_get xs i = (if i < length xs then xs ! i else 0)"

fun limb_add_loop :: "limbs \<Rightarrow> limbs \<Rightarrow> nat \<Rightarrow> nat \<Rightarrow> u128 \<Rightarrow> limbs" where
  "limb_add_loop a b i 0 carry = []"
| "limb_add_loop a b i (Suc n) carry =
     (let a_val = ucast (limb_get a i) :: u128;
          b_val = ucast (limb_get b i) :: u128;
          sum = a_val + b_val + carry in
      ucast sum # limb_add_loop a b (Suc i) n (drop_bit 64 sum))"

definition limb_add :: "limbs \<Rightarrow> limbs \<Rightarrow> limbs" where
  "limb_add a b = limb_add_loop a b 0 (max (length a) (length b) + 1) 0"

definition overflowing_sub :: "u64 \<Rightarrow> u64 \<Rightarrow> u64 \<times> bool" where
  "overflowing_sub x y = (x - y, x < y)"

fun limb_sub_loop :: "limbs \<Rightarrow> limbs \<Rightarrow> nat \<Rightarrow> nat \<Rightarrow> u64 \<Rightarrow> limbs \<times> u64" where
  "limb_sub_loop a b i 0 borrow = ([], borrow)"
| "limb_sub_loop a b i (Suc n) borrow =
     (let (d1, borrow1) = overflowing_sub (limb_get a i) (limb_get b i);
          (d2, borrow2) = overflowing_sub d1 borrow;
          (ds, out) = limb_sub_loop a b (Suc i) n (of_bool borrow1 OR of_bool borrow2) in
      (d2 # ds, out))"

definition limb_sub :: "limbs \<Rightarrow> limbs \<Rightarrow> limbs" where
  "limb_sub a b = fst (limb_sub_loop a b 0 (length a) 0)"

function propagate_carry :: "limbs \<Rightarrow> nat \<Rightarrow> u128 \<Rightarrow> (limbs, 'e) outcome" where
  "propagate_carry result k2 carry =
     (if carry = 0 then Ok result
      else if k2 < length result then
        (let s = ucast (result ! k2) + carry in
         propagate_carry (result[k2 := ucast s]) (Suc k2) (drop_bit 64 s))
      else Panic)"
  by pat_completeness auto
termination
  by (relation "measure (\<lambda>(result, k2, carry). length result - k2)") auto

declare propagate_carry.simps [simp del]

definition limb_mul_digit :: "u64 \<Rightarrow> u64 \<Rightarrow> nat \<Rightarrow> limbs \<Rightarrow> (limbs, 'e) outcome" where
  "limb_mul_digit ai bj k result =
     (let product = ucast ai * ucast bj :: u128;
          low = ucast product :: u64;
          high = ucast (drop_bit 64 product) :: u64 in
      bind_ok (at_index result k) (\<lambda>rk.
        let acc = ucast rk + ucast low :: u128;
            carry = drop_bit 64 acc + ucast high in
        propagate_carry (result[k := ucast acc]) (k + 1) carry))"

fun limb_mul_row :: "u64 \<Rightarrow> limbs \<Rightarrow> nat \<Rightarrow> limbs \<Rightarrow> (limbs, 'e) outcome" where
  "limb_mul_row ai [] k result = Ok result"
| "limb_mul_row ai (bj # bs) k result =
     bind_ok (limb_mul_digit ai bj k result) (\<lambda>r. limb_mul_row ai bs (Suc k) r)"

fun limb_mul_rows :: "limbs \<Rightarrow> limbs \<Rightarrow> nat \<Rightarrow> limbs \<Rightarrow> (limbs, 'e) outcome" where
  "limb_mul_rows [] b i result = Ok result"
| "limb_mul_rows (ai # as) b i result =
     bind_ok (limb_mul_row ai b i result) (\<lambda>r. limb_mul_rows as b (Suc i) r)"

definition limb_mul :: "limbs \<Rightarrow> limbs \<Rightarrow> (limbs, 'e) outcome" where
  "limb_mul a b = limb_mul_rows a b 0 (replicate (length a + length b) 0)"

fun magnitude_cmp_loop :: "limbs \<Rightarrow> limbs \<Rightarrow> nat \<Rightarrow> int" where
  "magnitude_cmp_loop a b 0 = 0"
| "magnitude_cmp_loop a b (Suc i) =
     (if a ! i > b ! i then 1 else if a ! i < b ! i then - 1 else magnitude_cmp_loop a b i)"

definition limb_magnitude_cmp :: "limbs \<Rightarrow> limbs \<Rightarrow> int" where
  "limb_magnitude_cmp a b =
     (if length a > length b then 1 else if length a < length b then - 1
      else magnitude_cmp_loop a b (length a))"

fun trim :: "limbs \<Rightarrow> limbs" where
  "trim xs = (if length xs > 1 \<and> last xs = 0 then trim (butlast xs) else xs)"

declare trim.simps [simp del]

subsection \<open>Words as numbers\<close>

lemma unat_u64_less [bounds]: "unat (x :: u64) < LB"
  using unsigned_less [of x, where ?'a = nat] by simp

lemma unat_u128_less [bounds]: "unat (x :: u128) < LB * LB"
  using unsigned_less [of x, where ?'a = nat] by simp

lemma unat_u64_up [simp]: "unat (ucast (x :: u64) :: u128) = unat x"
  using unat_u64_less [of x]
  by (simp add: unsigned_ucast_eq take_bit_eq_mod)

lemma unat_u128_down [simp]: "unat (ucast (s :: u128) :: u64) = unat s mod LB"
  by (simp add: unsigned_ucast_eq take_bit_eq_mod)

lemma unat_u128_shift [simp]: "unat (drop_bit 64 (s :: u128)) = unat s div LB"
  by (subst unat_drop_bit_eq) (simp add: drop_bit_eq_div)

lemma unat_u128_add: "unat x + unat y < LB * LB \<Longrightarrow> unat (x + y :: u128) = unat x + unat y"
  using unat_add_lem [of x y] by simp

lemma unat_u128_mult: "unat x * unat y < LB * LB \<Longrightarrow> unat (x * y :: u128) = unat x * unat y"
  using unat_mult_lem [of x y] by simp

lemma u64_product_less: "unat (x :: u64) * unat (y :: u64) + (LB - 1) + (LB - 1) < LB * LB"
proof -
  have "unat x \<le> LB - 1" "unat y \<le> LB - 1"
    using unat_u64_less [of x] unat_u64_less [of y] by linarith+
  then have "unat x * unat y \<le> (LB - 1) * (LB - 1)" by (intro mult_mono) auto
  then show ?thesis by simp
qed

subsection \<open>The value of a limb vector\<close>

lemma lval_append: "lval (xs @ ys) = lval xs + LB ^ length xs * lval ys"
  by (induction xs) (simp_all add: algebra_simps)

lemma lval_less: "lval xs < LB ^ length xs"
proof (induction xs)
  case Nil
  then show ?case by simp
next
  case (Cons x xs)
  have "unat x + LB * lval xs < LB + LB * lval xs" using unat_u64_less by simp
  also have "\<dots> = LB * Suc (lval xs)" by simp
  also have "\<dots> \<le> LB * LB ^ length xs" using Cons by (intro mult_le_mono2) simp
  finally show ?case by simp
qed

lemma lval_replicate_0 [simp]: "lval (replicate n 0) = 0"
  by (induction n) auto

lemma lval_drop: "lval (drop i xs) = unat (limb_get xs i) + LB * lval (drop (Suc i) xs)"
proof (cases "i < length xs")
  case True
  then have "drop i xs = xs ! i # drop (Suc i) xs" by (simp add: Cons_nth_drop_Suc)
  with True show ?thesis by (simp add: limb_get_def)
qed (simp add: limb_get_def)

lemma lval_update:
  "k < length r \<Longrightarrow> lval (r[k := v]) + LB ^ k * unat (r ! k) = lval r + LB ^ k * unat v"
proof (induction r arbitrary: k)
  case Nil
  then show ?case by simp
next
  case (Cons x r)
  show ?case
  proof (cases k)
    case 0
    then show ?thesis by simp
  next
    case (Suc j)
    with Cons have "lval (r[j := v]) + LB ^ j * unat (r ! j) = lval r + LB ^ j * unat v"
      by simp
    then have "LB * (lval (r[j := v]) + LB ^ j * unat (r ! j)) = LB * (lval r + LB ^ j * unat v)"
      by simp
    with Suc show ?thesis by (simp add: distrib_left mult.assoc)
  qed
qed

lemma lval_eq_iff: "length xs = length ys \<Longrightarrow> lval xs = lval ys \<longleftrightarrow> xs = ys"
proof (induction xs ys rule: list_induct2)
  case (Cons x xs y ys)
  show ?case
  proof
    assume eq: "lval (x # xs) = lval (y # ys)"
    have "unat x = lval (x # xs) mod LB" and "unat y = lval (y # ys) mod LB"
      using unat_u64_less by simp_all
    with eq have "x = y" by (metis word_unat_eq_iff)
    with eq Cons show "x # xs = y # ys" by simp
  qed simp
qed simp

subsection \<open>Addition and subtraction\<close>

lemma mod_step: "(s + LB * t) mod (LB * m) = s mod LB + LB * ((s div LB + t) mod (m :: nat))"
proof -
  have "s + LB * t = s mod LB + LB * (s div LB + t)"
    by (simp add: distrib_left flip: add.assoc)
  then show ?thesis by (simp add: mod_mult2_eq add.commute)
qed

lemma limb_add_loop_val:
  "unat carry \<le> 1 \<Longrightarrow>
   lval (limb_add_loop a b i n carry) = (lval (drop i a) + lval (drop i b) + unat carry) mod LB ^ n"
proof (induction n arbitrary: i carry)
  case 0
  then show ?case by simp
next
  case (Suc n)
  define s where "s = ucast (limb_get a i) + ucast (limb_get b i) + carry"
  have sv: "unat s = unat (limb_get a i) + unat (limb_get b i) + unat carry"
    using Suc.prems unat_u64_less [of "limb_get a i"] unat_u64_less [of "limb_get b i"]
    by (simp add: s_def unat_u128_add)
  then have "unat (drop_bit 64 s) \<le> 1"
    using Suc.prems unat_u64_less [of "limb_get a i"] unat_u64_less [of "limb_get b i"] by simp
  note IH = Suc.IH [OF this, of "Suc i"]
  have "lval (limb_add_loop a b i (Suc n) carry)
        = unat s mod LB + LB * lval (limb_add_loop a b (Suc i) n (drop_bit 64 s))"
    by (simp add: s_def Let_def)
  also have "\<dots> = unat s mod LB +
      LB * ((unat s div LB + (lval (drop (Suc i) a) + lval (drop (Suc i) b))) mod LB ^ n)"
    by (simp add: IH ac_simps)
  also have "\<dots> = (unat s + LB * (lval (drop (Suc i) a) + lval (drop (Suc i) b))) mod LB ^ Suc n"
    by (simp only: mod_step power_Suc)
  finally show ?case using sv lval_drop [of i a] lval_drop [of i b] by (simp add: algebra_simps)
qed

lemma length_limb_add_loop [simp]: "length (limb_add_loop a b i n carry) = n"
  by (induction n arbitrary: i carry) (simp_all add: Let_def)

lemma length_limb_add: "length (limb_add a b) = max (length a) (length b) + 1"
  by (simp add: limb_add_def del: limb_add_loop.simps)

lemma limb_add_val: "lval (limb_add a b) = lval a + lval b"
proof -
  let ?n = "max (length a) (length b)"
  have "lval a < LB ^ ?n" "lval b < LB ^ ?n"
    using lval_less [of a] lval_less [of b]
    by (auto intro: less_le_trans power_increasing)
  then have "lval a + lval b < LB ^ (?n + 1)" by simp
  then show ?thesis
    using limb_add_loop_val [of 0 a b 0 "?n + 1"]
    by (simp add: limb_add_def del: power_Suc limb_add_loop.simps)
qed

lemma of_bool_or_u64: "(of_bool p OR of_bool q :: u64) = of_bool (p \<or> q)"
  by (cases p; cases q) simp_all

text \<open>One digit of a subtraction with borrow.\<close>

lemma sub_digit:
  fixes x y w :: u64
  assumes w: "unat w \<le> 1"
    and d1: "overflowing_sub x y = (d1, b1)" and d2: "overflowing_sub d1 w = (d2, b2)"
  shows "int (unat d2) = int (unat x) - int (unat y) - int (unat w) + int LB * of_bool (b1 \<or> b2)"
proof -
  have e: "d1 = x - y" "b1 \<longleftrightarrow> x < y" "d2 = d1 - w" "b2 \<longleftrightarrow> d1 < w"
    using d1 d2 by (auto simp: overflowing_sub_def)
  have 1: "int (unat d1) = int (unat x) - int (unat y) + int LB * of_bool b1"
    using unat_u64_less [of x] unat_u64_less [of y]
    by (auto simp: e unat_sub_if' word_less_nat_alt of_nat_diff)
  have 2: "int (unat d2) = int (unat d1) - int (unat w) + int LB * of_bool b2"
    using unat_u64_less [of d1] unat_u64_less [of w]
    by (auto simp: e(3,4) unat_sub_if' word_less_nat_alt of_nat_diff)
  have "\<not> (b1 \<and> b2)"
  proof
    assume b: "b1 \<and> b2"
    then have "unat d1 = 0" using w by (simp add: e(4) word_less_nat_alt)
    with 1 b have "int (unat x) = int (unat y) - int LB" by simp
    with unat_u64_less [of y] show False by linarith
  qed
  with 1 2 show ?thesis by auto
qed

lemma limb_sub_loop_val:
  assumes "unat borrow \<le> 1" "limb_sub_loop a b i n borrow = (ds, out)"
  shows "length ds = n \<and> unat out \<le> 1 \<and>
    int (lval ds) + int LB ^ n * (int (lval (drop (i + n) a)) - int (lval (drop (i + n) b)) - int (unat out))
      = int (lval (drop i a)) - int (lval (drop i b)) - int (unat borrow)"
  using assms
proof (induction n arbitrary: i borrow ds out)
  case 0
  then show ?case by simp
next
  case (Suc n)
  obtain d1 b1 where d1: "overflowing_sub (limb_get a i) (limb_get b i) = (d1, b1)" by force
  obtain d2 b2 where d2: "overflowing_sub d1 borrow = (d2, b2)" by force
  obtain es where rec: "limb_sub_loop a b (Suc i) n (of_bool (b1 \<or> b2)) = (es, out)"
    and ds: "ds = d2 # es"
    using Suc.prems(2) by (auto simp: d1 d2 of_bool_or_u64 split: prod.splits)
  have "unat (of_bool (b1 \<or> b2) :: u64) \<le> 1" by simp
  from Suc.IH [OF this rec]
  have IH: "length es = n" "unat out \<le> 1"
    "int (lval es) + int LB ^ n *
       (int (lval (drop (Suc i + n) a)) - int (lval (drop (Suc i + n) b)) - int (unat out))
     = int (lval (drop (Suc i) a)) - int (lval (drop (Suc i) b)) - of_bool (b1 \<or> b2)"
    by auto
  have "int (lval ds) + int LB ^ Suc n *
          (int (lval (drop (Suc i + n) a)) - int (lval (drop (Suc i + n) b)) - int (unat out))
        = int (unat d2) + int LB * (int (lval (drop (Suc i) a)) - int (lval (drop (Suc i) b))
            - of_bool (b1 \<or> b2))"
    unfolding IH(3) [symmetric] by (simp add: ds algebra_simps)
  also have "\<dots> = int (lval (drop i a)) - int (lval (drop i b)) - int (unat borrow)"
    using sub_digit [OF Suc.prems(1) d1 d2] lval_drop [of i a] lval_drop [of i b]
    by (simp add: algebra_simps)
  finally show ?case using IH(1,2) ds by simp
qed

lemma limb_sub_val:
  assumes "lval b \<le> lval a" "length b \<le> length a"
  shows "lval (limb_sub a b) = lval a - lval b \<and> length (limb_sub a b) = length a"
proof -
  obtain ds out where e: "limb_sub_loop a b 0 (length a) 0 = (ds, out)" by force
  have l: "length ds = length a" and out: "unat out \<le> 1"
    and v: "int (lval ds) - int LB ^ length a * int (unat out) = int (lval a) - int (lval b)"
    using limb_sub_loop_val [OF _ e] assms(2) by auto
  have "unat out = 0"
  proof (rule ccontr)
    assume "unat out \<noteq> 0"
    with out have "unat out = 1" by simp
    with v have "int (lval ds) = int LB ^ length a + (int (lval a) - int (lval b))" by simp
    moreover have "int (lval ds) < int LB ^ length a"
      using lval_less [of ds] l by (metis of_nat_less_iff of_nat_power)
    ultimately show False using assms(1) by simp
  qed
  with v assms(1) have "lval ds = lval a - lval b" by simp
  with e l show ?thesis by (simp add: limb_sub_def)
qed

subsection \<open>Multiplication\<close>

text \<open>
  Carry propagation adds \<open>carry * LB ^ k\<close> to the vector; it runs off the end (and panics)
  only if the sum does not fit.
\<close>

lemma propagate_carry_val:
  assumes "unat carry < LB" "k \<le> length r" "lval r + LB ^ k * unat carry < LB ^ length r"
  shows "\<exists>r'. (propagate_carry r k carry :: (limbs, 'e) outcome) = Ok r' \<and> length r' = length r \<and>
    lval r' = lval r + LB ^ k * unat carry"
  using assms
proof (induction r k carry rule: propagate_carry.induct)
  case (1 r k carry)
  show ?case
  proof (cases "carry = 0")
    case True
    then show ?thesis by (intro exI [of _ r]) (simp add: propagate_carry.simps [of r k 0])
  next
    case nz: False
    have k: "k < length r"
    proof (rule ccontr)
      assume "\<not> k < length r"
      with "1.prems"(2) have "k = length r" by simp
      with "1.prems"(3) have lt: "lval r + LB ^ length r * unat carry < LB ^ length r"
        by (simp only:)
      have "1 \<le> unat carry" using nz unat_gt_0 [of carry] by linarith
      then have "LB ^ length r * 1 \<le> LB ^ length r * unat carry" by (rule mult_le_mono2)
      with lt show False by linarith
    qed
    define s where "s = ucast (r ! k) + carry"
    have sv: "unat s = unat (r ! k) + unat carry"
      using unat_u64_less [of "r ! k"] "1.prems"(1) by (simp add: s_def unat_u128_add)
    let ?r = "r[k := ucast s]"
    have upd: "lval ?r + LB ^ k * unat (r ! k) = lval r + LB ^ k * (unat s mod LB)"
      using lval_update [OF k, of "ucast s"] by simp
    have "LB ^ k * unat s = LB ^ k * (unat s mod LB) + LB ^ Suc k * (unat s div LB)"
    proof -
      have "LB ^ Suc k * (unat s div LB) = LB ^ k * (LB * (unat s div LB))" by simp
      then show ?thesis by (simp only: flip: distrib_left) simp
    qed
    with upd sv have tot: "lval ?r + LB ^ Suc k * unat (drop_bit 64 s) = lval r + LB ^ k * unat carry"
      by (simp add: distrib_left)
    have c: "unat (drop_bit 64 s) < LB"
      using sv unat_u64_less [of "r ! k"] "1.prems"(1) by simp
    have "\<exists>r'. (propagate_carry ?r (Suc k) (drop_bit 64 s) :: (limbs, 'e) outcome) = Ok r' \<and> length r' = length ?r \<and>
        lval r' = lval ?r + LB ^ Suc k * unat (drop_bit 64 s)"
      using "1.IH" [OF nz k s_def c] k tot "1.prems"(3) by simp
    with tot nz k show ?thesis
      by (auto simp: propagate_carry.simps [of r k carry] s_def Let_def)
  qed
qed

lemma limb_mul_digit_val:
  assumes k: "k < length r" and fit: "lval r + LB ^ k * (unat x * unat y) < LB ^ length r"
  shows "\<exists>r'. (limb_mul_digit x y k r :: (limbs, 'e) outcome) = Ok r' \<and> length r' = length r \<and>
    lval r' = lval r + LB ^ k * (unat x * unat y)"
proof -
  define p where "p = (ucast x * ucast y :: u128)"
  have pv: "unat p = unat x * unat y"
    using u64_product_less [of x y] by (simp add: p_def unat_u128_mult)
  have phi: "unat p div LB + 1 < LB"
    using u64_product_less [of x y] pv by simp
  define low high where "low = (ucast p :: u64)" and "high = (ucast (drop_bit 64 p) :: u64)"
  have lh: "unat low = unat p mod LB" "unat high = unat p div LB"
    using phi by (simp_all add: low_def high_def)
  define acc where "acc = (ucast (r ! k) + ucast low :: u128)"
  have av: "unat acc = unat (r ! k) + unat p mod LB"
    using unat_u64_less [of "r ! k"] lh by (simp add: acc_def unat_u128_add)
  define carry where "carry = drop_bit 64 acc + ucast high"
  have "unat acc div LB \<le> 1" using av unat_u64_less [of "r ! k"] by simp
  then have cv: "unat carry = unat acc div LB + unat p div LB" and c: "unat carry < LB"
    using lh phi by (simp_all add: carry_def unat_u128_add)
  let ?r = "r[k := ucast acc]"
  have upd: "lval ?r + LB ^ k * unat (r ! k) = lval r + LB ^ k * (unat acc mod LB)"
    using lval_update [OF k, of "ucast acc"] by simp
  have "LB ^ k * (unat acc mod LB) + LB ^ (k + 1) * unat carry
        = LB ^ k * ((unat acc mod LB + LB * (unat acc div LB)) + LB * (unat p div LB))"
    by (simp only: cv power_add power_one_right distrib_left mult.assoc add.assoc)
  also have "unat acc mod LB + LB * (unat acc div LB) = unat acc" by simp
  also have "unat acc + LB * (unat p div LB) = unat (r ! k) + unat p" by (simp add: av)
  finally have tot: "lval ?r + LB ^ (k + 1) * unat carry = lval r + LB ^ k * (unat x * unat y)"
    using upd pv by (simp add: distrib_left)
  have "\<exists>r'. (propagate_carry ?r (k + 1) carry :: (limbs, 'e) outcome) = Ok r' \<and> length r' = length ?r \<and>
      lval r' = lval ?r + LB ^ (k + 1) * unat carry"
    using k c fit tot by (intro propagate_carry_val) simp_all
  with tot k show ?thesis
    by (auto simp: limb_mul_digit_def Let_def p_def low_def high_def acc_def carry_def)
qed

lemma limb_mul_row_val:
  assumes "k + length bs \<le> length r" "lval r + LB ^ k * (unat x * lval bs) < LB ^ length r"
  shows "\<exists>r'. (limb_mul_row x bs k r :: (limbs, 'e) outcome) = Ok r' \<and> length r' = length r \<and>
    lval r' = lval r + LB ^ k * (unat x * lval bs)"
  using assms
proof (induction bs arbitrary: k r)
  case Nil
  then show ?case by simp
next
  case (Cons b bs)
  have eq: "LB ^ k * (unat x * lval (b # bs))
    = LB ^ k * (unat x * unat b) + LB ^ Suc k * (unat x * lval bs)"
    by (simp add: algebra_simps)
  obtain r1 where r1: "(limb_mul_digit x b k r :: (limbs, 'e) outcome) = Ok r1" "length r1 = length r"
    "lval r1 = lval r + LB ^ k * (unat x * unat b)"
    using limb_mul_digit_val [of k r x b] Cons.prems eq by auto
  obtain r2 where "(limb_mul_row x bs (Suc k) r1 :: (limbs, 'e) outcome) = Ok r2" "length r2 = length r1"
    "lval r2 = lval r1 + LB ^ Suc k * (unat x * lval bs)"
    using Cons.IH [of "Suc k" r1] Cons.prems eq r1 by (auto simp del: power_Suc)
  with r1 eq show ?case by (simp del: lval.simps)
qed

lemma limb_mul_rows_val:
  assumes "i + length as + length b \<le> length r"
    "lval r + LB ^ i * (lval as * lval b) < LB ^ length r"
  shows "\<exists>r'. (limb_mul_rows as b i r :: (limbs, 'e) outcome) = Ok r' \<and> length r' = length r \<and>
    lval r' = lval r + LB ^ i * (lval as * lval b)"
  using assms
proof (induction as arbitrary: i r)
  case Nil
  then show ?case by simp
next
  case (Cons x xs)
  have eq: "LB ^ i * (lval (x # xs) * lval b)
    = LB ^ i * (unat x * lval b) + LB ^ Suc i * (lval xs * lval b)"
    by (simp add: algebra_simps)
  obtain r1 where r1: "(limb_mul_row x b i r :: (limbs, 'e) outcome) = Ok r1" "length r1 = length r"
    "lval r1 = lval r + LB ^ i * (unat x * lval b)"
    using limb_mul_row_val [of i b r x] Cons.prems eq by auto
  obtain r2 where "(limb_mul_rows xs b (Suc i) r1 :: (limbs, 'e) outcome) = Ok r2" "length r2 = length r1"
    "lval r2 = lval r1 + LB ^ Suc i * (lval xs * lval b)"
    using Cons.IH [of "Suc i" r1] Cons.prems eq r1 by (auto simp del: power_Suc)
  with r1 eq show ?case by (simp del: lval.simps)
qed

lemma limb_mul_val:
  "\<exists>r. (limb_mul a b :: (limbs, 'e) outcome) = Ok r \<and> length r = length a + length b \<and> lval r = lval a * lval b"
proof -
  have "lval a * lval b < LB ^ (length a + length b)"
    using lval_less [of a] lval_less [of b] by (simp add: power_add mult_strict_mono)
  then show ?thesis
    using limb_mul_rows_val [of 0 a b "replicate (length a + length b) 0"]
    by (auto simp: limb_mul_def)
qed

subsection \<open>Comparison and trimming\<close>

definition normal :: "limbs \<Rightarrow> bool" where
  "normal xs \<longleftrightarrow> xs \<noteq> [] \<and> (length xs > 1 \<longrightarrow> last xs \<noteq> 0)"

lemma lval_snoc: "lval (xs @ [x]) = lval xs + LB ^ length xs * unat x"
  by (simp add: lval_append)

lemma magnitude_cmp_loop_val:
  "i \<le> length a \<Longrightarrow> i \<le> length b \<Longrightarrow>
   magnitude_cmp_loop a b i = sgn (int (lval (take i a)) - int (lval (take i b)))"
proof (induction i)
  case 0
  then show ?case by simp
next
  case (Suc i)
  let ?a = "lval (take i a)" and ?b = "lval (take i b)"
  have v: "lval (take (Suc i) a) = ?a + LB ^ i * unat (a ! i)"
    "lval (take (Suc i) b) = ?b + LB ^ i * unat (b ! i)"
    using Suc.prems by (simp_all add: take_Suc_conv_app_nth lval_snoc)
  have l: "?a < LB ^ i" "?b < LB ^ i"
    using lval_less [of "take i a"] lval_less [of "take i b"] Suc.prems by simp_all
  have less: "p + LB ^ i * x < q + LB ^ i * y" if "p < LB ^ i" "x < y" for p q x y :: nat
  proof -
    have "p + LB ^ i * x < LB ^ i + LB ^ i * x" using that by simp
    also have "\<dots> \<le> LB ^ i * y" using that mult_le_mono2 [of "Suc x" y "LB ^ i"] by simp
    finally show ?thesis by simp
  qed
  consider "a ! i > b ! i" | "a ! i < b ! i" | "a ! i = b ! i" by (metis linorder_neqE)
  then show ?case
  proof cases
    case 1
    then have "lval (take (Suc i) b) < lval (take (Suc i) a)"
      using less [OF l(2), of "unat (b ! i)" "unat (a ! i)" ?a] v by (simp add: word_less_nat_alt)
    with 1 show ?thesis by simp
  next
    case 2
    then have "lval (take (Suc i) a) < lval (take (Suc i) b)"
      using less [OF l(1), of "unat (a ! i)" "unat (b ! i)" ?b] v by (simp add: word_less_nat_alt)
    with 2 show ?thesis by auto
  next
    case 3
    then show ?thesis using Suc v by simp
  qed
qed

lemma normal_lval_ge: "normal xs \<Longrightarrow> length xs > 1 \<Longrightarrow> LB ^ (length xs - 1) \<le> lval xs"
proof -
  assume n: "normal xs" "length xs > 1"
  then have ne: "xs \<noteq> []" "last xs \<noteq> 0" by (auto simp: normal_def)
  then have "xs = butlast xs @ [last xs]" by simp
  then have "lval xs = lval (butlast xs) + LB ^ (length xs - 1) * unat (last xs)"
    by (metis lval_snoc length_butlast)
  moreover have "1 \<le> unat (last xs)" using ne unat_gt_0 [of "last xs"] by simp
  then have "LB ^ (length xs - 1) * 1 \<le> LB ^ (length xs - 1) * unat (last xs)"
    by (rule mult_le_mono2)
  ultimately show ?thesis by linarith
qed

lemma normal_length_less:
  "normal ys \<Longrightarrow> length xs < length ys \<Longrightarrow> xs \<noteq> [] \<Longrightarrow> lval xs < lval ys"
proof -
  assume a: "normal ys" "length xs < length ys" "xs \<noteq> []"
  then have l: "1 < length ys" by (cases xs) auto
  have "lval xs < LB ^ length xs" by (rule lval_less)
  also have "\<dots> \<le> LB ^ (length ys - 1)" using a(2) by (intro power_increasing) auto
  also have "\<dots> \<le> lval ys" by (rule normal_lval_ge [OF a(1) l])
  finally show ?thesis .
qed

lemma limb_magnitude_cmp_val:
  assumes "normal a" "normal b"
  shows "limb_magnitude_cmp a b = sgn (int (lval a) - int (lval b))"
  using normal_length_less [of b a] normal_length_less [of a b] assms
    magnitude_cmp_loop_val [of "length a" a b]
  by (auto simp: limb_magnitude_cmp_def normal_def)

lemma normal_unique: "normal a \<Longrightarrow> normal b \<Longrightarrow> lval a = lval b \<Longrightarrow> a = b"
  using normal_length_less [of b a] normal_length_less [of a b] lval_eq_iff [of a b]
  by (metis linorder_neqE_nat nat_less_le normal_def)

lemma trim_val [simp]: "lval (trim xs) = lval xs"
proof (induction xs rule: trim.induct)
  case (1 xs)
  show ?case
  proof (cases "length xs > 1 \<and> last xs = 0")
    case True
    then have "xs = butlast xs @ [0]" by (metis append_butlast_last_id list.size(3) not_one_less_zero)
    then have "lval xs = lval (butlast xs)" by (metis lval_snoc mult_0_right unat_0 add_0_right)
    with True "1" show ?thesis by (simp add: trim.simps [of xs])
  next
    case False
    then show ?thesis by (subst trim.simps) auto
  qed
qed

lemma trim_normal: "xs \<noteq> [] \<Longrightarrow> normal (trim xs)"
proof (induction xs rule: trim.induct)
  case (1 xs)
  show ?case
  proof (cases "length xs > 1 \<and> last xs = 0")
    case True
    then have "butlast xs \<noteq> []" by (metis length_butlast length_greater_0_conv zero_less_diff)
    with True "1" show ?thesis by (simp add: trim.simps [of xs])
  next
    case False
    with "1.prems" show ?thesis by (subst trim.simps) (auto simp: normal_def)
  qed
qed

lemma trim_id: "normal xs \<Longrightarrow> trim xs = xs"
  by (subst trim.simps) (auto simp: normal_def)

lemma trim_length_le: "length (trim xs) \<le> length xs"
proof (induction xs rule: trim.induct)
  case (1 xs)
  show ?case
  proof (cases "length xs > 1 \<and> last xs = 0")
    case True
    with "1" show ?thesis by (simp add: trim.simps [of xs])
  next
    case False
    then show ?thesis by (subst trim.simps) auto
  qed
qed

end
