(* ===== verification/LimbShift.thy ===== *)
theory LimbShift
  imports Limbs
begin

text \<open>
  The bit shifts of limb vectors in \<open>determin/src/bigint.rs\<close>: \<open>shl_limbs_n\<close> and \<open>shr_limbs_n\<close>,
  which normalise and denormalise the operands of the long division, and the loops of
  \<open>bigint_shl\<close> and \<open>bigint_shr\<close>. They work in place with \<open>|=\<close> on neighbouring limbs; the
  lemmas show that they multiply and divide the value of the vector by a power of two.

  A shift amount is masked to six bits, which is what \<open><<\<close> and \<open>>>\<close> do to a \<open>u64\<close> in the
  release profile.
\<close>

definition shl64 :: "u64 \<Rightarrow> nat \<Rightarrow> u64" where
  "shl64 x s = push_bit (s mod 64) x"

definition shr64 :: "u64 \<Rightarrow> nat \<Rightarrow> u64" where
  "shr64 x s = drop_bit (s mod 64) x"

fun bit_width :: "nat \<Rightarrow> nat" where
  "bit_width n = (if n = 0 then 0 else Suc (bit_width (n div 2)))"

declare bit_width.simps [simp del]

definition leading_zeros :: "u64 \<Rightarrow> nat" where
  "leading_zeros x = 64 - bit_width (unat x)"

subsection \<open>Operations\<close>

fun shl_limbs_loop :: "limbs \<Rightarrow> nat \<Rightarrow> nat \<Rightarrow> nat \<Rightarrow> limbs \<Rightarrow> limbs" where
  "shl_limbs_loop [] shift rshift i out = out"
| "shl_limbs_loop (v # vs) shift rshift i out =
     (let out1 = (if i < length out then out[i := out ! i OR shl64 v shift] else out);
          out2 = (if i + 1 < length out1
                  then out1[i + 1 := out1 ! (i + 1) OR shr64 v rshift] else out1) in
      shl_limbs_loop vs shift rshift (Suc i) out2)"

definition shl_limbs_n :: "limbs \<Rightarrow> nat \<Rightarrow> nat \<Rightarrow> limbs" where
  "shl_limbs_n limbs shift output_len =
     (if shift = 0 then
        (let copy_len = min (length limbs) output_len in
         take copy_len limbs @ replicate (output_len - copy_len) 0)
      else shl_limbs_loop limbs shift (64 - shift) 0 (replicate output_len 0))"

definition shr_limb_at :: "limbs \<Rightarrow> nat \<Rightarrow> nat \<Rightarrow> nat \<Rightarrow> u64" where
  "shr_limb_at limbs shift lshift i =
     (if i + 1 < length limbs then shr64 (limbs ! i) shift OR shl64 (limbs ! (i + 1)) lshift
      else shr64 (limbs ! i) shift)"

definition shr_limbs_n :: "limbs \<Rightarrow> nat \<Rightarrow> limbs" where
  "shr_limbs_n limbs shift =
     (if shift = 0 then trim limbs
      else let out = trim (map (shr_limb_at limbs shift (64 - shift)) [0..<length limbs]) in
        if out = [] then [0] else out)"

fun bigint_shl_loop :: "limbs \<Rightarrow> nat \<Rightarrow> nat \<Rightarrow> limbs \<Rightarrow> limbs" where
  "bigint_shl_loop [] bit_shift_rem k result = result"
| "bigint_shl_loop (limb # rest) bit_shift_rem k result =
     (let result1 = result[k := result ! k OR shl64 limb bit_shift_rem];
          result2 = (if bit_shift_rem > 0 \<and> k + 1 < length result1
                     then result1[k + 1 := shr64 limb (64 - bit_shift_rem)] else result1) in
      bigint_shl_loop rest bit_shift_rem (Suc k) result2)"

definition bigint_shl_limbs :: "limbs \<Rightarrow> nat \<Rightarrow> limbs" where
  "bigint_shl_limbs limbs bit_shift =
     (if bit_shift = 0 then limbs
      else let limb_shift = bit_shift div 64; bit_shift_rem = bit_shift mod 64 in
        bigint_shl_loop limbs bit_shift_rem limb_shift
          (replicate (length limbs + limb_shift + 1) 0))"

definition bigint_shr_limbs :: "limbs \<Rightarrow> nat \<Rightarrow> limbs" where
  "bigint_shr_limbs limbs shift =
     (let limb_shift = shift div 64; bit_shift_rem = shift mod 64 in
      map (\<lambda>i. if bit_shift_rem = 0 then limbs ! (i + limb_shift)
               else shr_limb_at limbs bit_shift_rem (64 - bit_shift_rem) (i + limb_shift))
        [0..<length limbs - limb_shift])"

subsection \<open>One limb\<close>

lemma LB_power: "LB = 2 ^ 64"
  by simp

lemma unat_shl64: "s < 64 \<Longrightarrow> unat (shl64 v s) = (2 ^ s * unat v) mod LB"
proof -
  assume "s < 64"
  then have "unat (shl64 v s) = take_bit 64 (push_bit s (unat v))"
    by (simp add: shl64_def unsigned_push_bit_eq)
  then show ?thesis by (simp add: take_bit_eq_mod push_bit_eq_mult mult.commute)
qed

lemma unat_shr64: "s < 64 \<Longrightarrow> unat (shr64 v s) = unat v div 2 ^ s"
proof -
  assume "s < 64"
  then have "unat (shr64 v s) = drop_bit s (unat v)"
    by (simp add: shr64_def unat_drop_bit_eq)
  then show ?thesis by (simp add: drop_bit_eq_div)
qed

lemma unat_or_shl64:
  assumes "unat x < 2 ^ s" "s < 64"
  shows "unat (x OR shl64 v s) = unat x + (2 ^ s * unat v) mod LB"
proof -
  have x: "take_bit s (unat x) = unat x"
    using assms(1) by (simp add: take_bit_nat_eq_self_iff)
  have dis: "\<not> (bit (unat x) n \<and> bit (take_bit 64 (push_bit s (unat v))) n)" for n
    using x by (metis bit_take_bit_iff bit_push_bit_iff linorder_not_le)
  have "unat (x OR shl64 v s) = unat x OR take_bit 64 (push_bit s (unat v))"
    using assms(2) by (simp add: shl64_def unsigned_or_eq unsigned_push_bit_eq)
  also have "\<dots> = unat x + take_bit 64 (push_bit s (unat v))"
    by (rule disjunctive_add_eq_or [symmetric]) (rule bit_eqI, use dis in \<open>simp add: bit_and_iff\<close>)
  finally show ?thesis by (simp add: take_bit_eq_mod push_bit_eq_mult mult.commute)
qed

lemma bit_width_bounds: "n \<noteq> 0 \<Longrightarrow> 2 ^ (bit_width n - 1) \<le> n \<and> n < 2 ^ bit_width n"
proof (induction n rule: bit_width.induct)
  case (1 n)
  show ?case
  proof (cases "n div 2 = 0")
    case True
    with 1 have "n = 1" by simp
    then show ?thesis by (simp add: bit_width.simps)
  next
    case False
    with 1 have IH: "2 ^ (bit_width (n div 2) - 1) \<le> n div 2" "n div 2 < 2 ^ bit_width (n div 2)" by auto
    have w: "bit_width n = Suc (bit_width (n div 2))" "bit_width (n div 2) > 0"
      using False "1.prems" by (simp_all add: bit_width.simps [of n] bit_width.simps [of "n div 2"])
    then have "2 ^ (bit_width n - 1) = 2 * 2 ^ (bit_width (n div 2) - 1)"
      by (cases "bit_width (n div 2)") simp_all
    also have "\<dots> \<le> n" using IH(1) by linarith
    finally have "2 ^ (bit_width n - 1) \<le> n" .
    moreover have "n < 2 * 2 ^ bit_width (n div 2)" using IH(2) by linarith
    ultimately show ?thesis by (simp add: w)
  qed
qed

lemma bit_width_le: "n < 2 ^ k \<Longrightarrow> bit_width n \<le> k"
proof (rule ccontr)
  assume a: "n < 2 ^ k" "\<not> bit_width n \<le> k"
  then have "n \<noteq> 0" by (metis bit_width.simps le0)
  then have "2 ^ (bit_width n - 1) \<le> n" using bit_width_bounds by simp
  moreover have "(2 :: nat) ^ k \<le> 2 ^ (bit_width n - 1)" using a(2) by (intro power_increasing) auto
  ultimately show False using a(1) by linarith
qed

lemma bit_width_u64: "bit_width (unat (x :: u64)) \<le> 64"
  using unat_u64_less [of x] by (intro bit_width_le) simp

lemma leading_zeros_shift:
  assumes "x \<noteq> 0"
  shows "leading_zeros x < 64" "unat x * 2 ^ leading_zeros x < LB"
proof -
  have nz: "unat x \<noteq> 0" using assms by (simp only: unat_eq_0 not_False_eq_True)
  then have "bit_width (unat x) > 0" by (simp add: bit_width.simps [of "unat x"])
  then show "leading_zeros x < 64" by (simp add: leading_zeros_def)
  have "unat x * 2 ^ leading_zeros x < 2 ^ bit_width (unat x) * 2 ^ leading_zeros x"
    using bit_width_bounds [OF nz] by simp
  also have "\<dots> = 2 ^ (bit_width (unat x) + leading_zeros x)" by (simp add: power_add)
  also have "\<dots> = LB" using bit_width_u64 [of x] by (simp add: leading_zeros_def)
  finally show "unat x * 2 ^ leading_zeros x < LB" .
qed

text \<open>
  A limb \<open>v\<close> shifted left by \<open>s\<close> splits into the part that stays in its limb and the part that
  moves into the next one.
\<close>

lemma shl_split:
  assumes "0 < s" "s < 64"
  shows "2 ^ s * unat (v :: u64) = (2 ^ s * unat v) mod LB + LB * (unat v div 2 ^ (64 - s))"
proof -
  have LB: "LB = 2 ^ s * 2 ^ (64 - s)" using assms by (simp flip: power_add)
  have "(2 ^ s * unat v) div LB = unat v div 2 ^ (64 - s)"
    unfolding LB by simp
  then show ?thesis by (metis mod_mult_div_eq)
qed

lemma shl_carry_less: "0 < s \<Longrightarrow> s < 64 \<Longrightarrow> unat (v :: u64) div 2 ^ (64 - s) < 2 ^ s"
proof -
  assume "0 < s" "s < 64"
  then have "(2 :: nat) ^ (64 - s) * 2 ^ s = LB" by (simp flip: power_add)
  then show ?thesis using unat_u64_less [of v] by (simp add: less_mult_imp_div_less mult.commute)
qed

subsection \<open>Left shift\<close>

lemma shl_limbs_loop_val:
  assumes "0 < s" "s < 64"
  shows "i + length vs \<le> length out \<Longrightarrow>
    (vs \<noteq> [] \<Longrightarrow> unat (out ! i) < 2 ^ s) \<Longrightarrow> (\<forall>j. i < j \<and> j < length out \<longrightarrow> out ! j = 0) \<Longrightarrow>
    lval out + LB ^ i * (2 ^ s * lval vs) < LB ^ length out \<Longrightarrow>
    lval (shl_limbs_loop vs s (64 - s) i out) = lval out + LB ^ i * (2 ^ s * lval vs) \<and>
    length (shl_limbs_loop vs s (64 - s) i out) = length out"
proof (induction vs arbitrary: i out)
  case Nil
  then show ?case by simp
next
  case (Cons v vs)
  let ?lo = "(2 ^ s * unat v) mod LB" and ?hi = "unat v div 2 ^ (64 - s)"
  have i: "i < length out" using Cons.prems(1) by simp
  define out1 where "out1 = out[i := out ! i OR shl64 v s]"
  define out2 where "out2 = (if i + 1 < length out1 then out1[i + 1 := out1 ! (i + 1) OR shr64 v (64 - s)] else out1)"
  have l: "length out1 = length out" "length out2 = length out" by (simp_all add: out1_def out2_def)
  have "unat (out ! i OR shl64 v s) = unat (out ! i) + ?lo"
    using Cons.prems(2) assms by (simp add: unat_or_shl64)
  then have v1: "lval out1 = lval out + LB ^ i * ?lo"
    using lval_update [OF i, of "out ! i OR shl64 v s"] by (simp add: out1_def distrib_left)
  have split: "LB ^ i * (2 ^ s * lval (v # vs)) = LB ^ i * ?lo + LB ^ Suc i * ?hi + LB ^ Suc i * (2 ^ s * lval vs)"
  proof -
    have "2 ^ s * lval (v # vs) = (2 ^ s * unat v) + LB * (2 ^ s * lval vs)" by (simp add: distrib_left)
    also have "2 ^ s * unat v = ?lo + LB * ?hi" by (rule shl_split [OF assms])
    finally show ?thesis by (simp only: power_Suc2 distrib_left mult.assoc)
  qed
  have v2: "lval out2 = lval out1 + LB ^ Suc i * ?hi"
  proof (cases "i + 1 < length out")
    case True
    then have z: "out1 ! (i + 1) = 0" using Cons.prems(3) by (simp add: out1_def)
    have h: "unat (shr64 v (64 - s)) = ?hi" using assms by (simp add: unat_shr64)
    have "lval out2 = lval (out1[i + 1 := shr64 v (64 - s)])" using True z l by (simp add: out2_def)
    moreover have "lval (out1[i + 1 := shr64 v (64 - s)]) + LB ^ (i + 1) * unat (out1 ! (i + 1)) = lval out1 + LB ^ (i + 1) * unat (shr64 v (64 - s))"
      using True l by (intro lval_update) simp
    ultimately show ?thesis using z h by simp
  next
    case False
    then have len: "length out = Suc i" using i by simp
    have "lval out + (LB ^ i * ?lo + LB ^ Suc i * ?hi + LB ^ Suc i * (2 ^ s * lval vs)) < LB ^ Suc i"
      using Cons.prems(4) unfolding split len .
    then have "LB ^ Suc i * ?hi < LB ^ Suc i" by (rule le_less_trans [rotated]) simp
    then have "?hi = 0" by (metis mult_le_mono2 nat_mult_1_right less_one linorder_not_le)
    then show ?thesis using False l by (simp add: out2_def)
  qed
  have tot: "lval out2 + LB ^ Suc i * (2 ^ s * lval vs) = lval out + LB ^ i * (2 ^ s * lval (v # vs))"
    using v1 v2 split by linarith
  have "unat (out2 ! Suc i) < 2 ^ s" if "vs \<noteq> []"
  proof -
    have k: "i + 1 < length out" using Cons.prems(1) that by (cases vs) auto
    then have "out1 ! (i + 1) = 0" using Cons.prems(3) by (simp add: out1_def)
    with k l have "out2 ! Suc i = shr64 v (64 - s)" by (simp add: out2_def)
    then show ?thesis using assms shl_carry_less [OF assms, of v] by (simp add: unat_shr64)
  qed
  moreover have "\<forall>j. Suc i < j \<and> j < length out2 \<longrightarrow> out2 ! j = 0"
    using Cons.prems(3) by (auto simp: out2_def out1_def nth_list_update)
  ultimately have "lval (shl_limbs_loop vs s (64 - s) (Suc i) out2) = lval out2 + LB ^ Suc i * (2 ^ s * lval vs) \<and>
    length (shl_limbs_loop vs s (64 - s) (Suc i) out2) = length out2"
    using Cons.prems(1,4) l tot by (intro Cons.IH) simp_all
  moreover have "shl_limbs_loop (v # vs) s (64 - s) i out = shl_limbs_loop vs s (64 - s) (Suc i) out2"
    using i by (simp add: Let_def out2_def out1_def)
  ultimately show ?case using tot l by metis
qed

lemma shl_limbs_n_val:
  assumes "s < 64" "length xs \<le> n" "2 ^ s * lval xs < LB ^ n"
  shows "lval (shl_limbs_n xs s n) = 2 ^ s * lval xs" "length (shl_limbs_n xs s n) = n"
proof -
  have "lval (shl_limbs_n xs s n) = 2 ^ s * lval xs \<and> length (shl_limbs_n xs s n) = n"
  proof (cases "s = 0")
    case True
    with assms(2) show ?thesis by (simp add: shl_limbs_n_def Let_def lval_append min_absorb1)
  next
    case False
    then show ?thesis
      using shl_limbs_loop_val [of s 0 xs "replicate n 0"] assms by (cases xs) (simp_all add: shl_limbs_n_def)
  qed
  then show "lval (shl_limbs_n xs s n) = 2 ^ s * lval xs" "length (shl_limbs_n xs s n) = n" by auto
qed

text \<open>
  The loop of \<open>bigint_shl_internal\<close> overwrites the next limb where \<open>shl_limbs_n\<close> ors into it. That
  limb is still zero, so the two loops agree; with a shift by whole limbs only, the loop copies.
\<close>

lemma bigint_shl_loop_eq:
  "0 < s \<Longrightarrow> k + length vs \<le> length out \<Longrightarrow> (\<forall>j. k < j \<and> j < length out \<longrightarrow> out ! j = 0) \<Longrightarrow>
   bigint_shl_loop vs s k out = shl_limbs_loop vs s (64 - s) k out"
proof (induction vs arbitrary: k out)
  case (Cons v vs)
  let ?o1 = "out[k := out ! k OR shl64 v s]"
  let ?o2 = "if k + 1 < length out then ?o1[k + 1 := shr64 v (64 - s)] else ?o1"
  have "bigint_shl_loop vs s (Suc k) ?o2 = shl_limbs_loop vs s (64 - s) (Suc k) ?o2"
    using Cons.prems by (intro Cons.IH) (auto simp: nth_list_update)
  moreover have "k + 1 < length out \<Longrightarrow> ?o1 ! (k + 1) = 0" using Cons.prems(3) by simp
  ultimately show ?case using Cons.prems by (simp add: Let_def)
qed simp

lemma bigint_shl_loop_copy:
  "k + length vs \<le> length out \<Longrightarrow> (\<forall>j. k \<le> j \<and> j < length out \<longrightarrow> out ! j = 0) \<Longrightarrow>
   lval (bigint_shl_loop vs 0 k out) = lval out + LB ^ k * lval vs \<and>
   length (bigint_shl_loop vs 0 k out) = length out"
proof (induction vs arbitrary: k out)
  case (Cons v vs)
  let ?o = "out[k := v]"
  have k: "k < length out" "out ! k = 0" using Cons.prems by simp_all
  then have "lval ?o = lval out + LB ^ k * unat v" using lval_update [OF k(1), of v] by simp
  moreover have "lval (bigint_shl_loop vs 0 (Suc k) ?o) = lval ?o + LB ^ Suc k * lval vs \<and>
      length (bigint_shl_loop vs 0 (Suc k) ?o) = length ?o"
    using Cons.prems by (intro Cons.IH) simp_all
  ultimately show ?case using k by (simp add: shl64_def algebra_simps)
qed simp

lemma bigint_shl_limbs_val: "lval (bigint_shl_limbs xs s) = 2 ^ s * lval xs"
proof (cases "s = 0")
  case False
  let ?q = "s div 64" and ?r = "s mod 64"
  define z where "z = replicate (length xs + ?q + 1) (0 :: u64)"
  have z: "length z = length xs + ?q + 1" "lval z = 0" "\<And>j. j < length z \<Longrightarrow> z ! j = 0"
    unfolding z_def by (simp_all only: length_replicate lval_replicate_0 nth_replicate)
  have eq: "bigint_shl_limbs xs s = bigint_shl_loop xs ?r ?q z"
    using False by (simp add: bigint_shl_limbs_def Let_def z_def)
  have "(2 :: nat) ^ s = 2 ^ (64 * ?q + ?r)" by simp
  also have "\<dots> = (2 ^ 64) ^ ?q * 2 ^ ?r" by (simp only: power_add power_mult)
  finally have p: "2 ^ s * lval xs = LB ^ ?q * (2 ^ ?r * lval xs)" by simp
  show ?thesis
  proof (cases "?r = 0")
    case True
    then show ?thesis using p eq z bigint_shl_loop_copy [of ?q xs z] by auto
  next
    case r: False
    have "(2 :: nat) ^ ?r < 2 ^ 64" by (intro power_strict_increasing) simp_all
    then have "2 ^ ?r * lval xs \<le> LB * lval xs" by (intro mult_le_mono1) simp
    also have "\<dots> < LB * LB ^ length xs" using lval_less [of xs] by simp
    finally have "LB ^ ?q * (2 ^ ?r * lval xs) < LB ^ ?q * (LB * LB ^ length xs)" by simp
    also have "\<dots> = LB ^ length z" by (simp add: z power_add)
    finally have "lval (shl_limbs_loop xs ?r (64 - ?r) ?q z) = LB ^ ?q * (2 ^ ?r * lval xs)"
      using shl_limbs_loop_val [of ?r ?q xs z] r z by simp
    moreover have "bigint_shl_loop xs ?r ?q z = shl_limbs_loop xs ?r (64 - ?r) ?q z"
      using r z by (intro bigint_shl_loop_eq) simp_all
    ultimately show ?thesis by (simp only: p eq)
  qed
qed (simp add: bigint_shl_limbs_def)

lemma length_bigint_shl_loop: "length (bigint_shl_loop vs r k out) = length out"
  by (induction vs arbitrary: k out) (simp_all add: Let_def)

lemma bigint_shl_limbs_nonempty: "xs \<noteq> [] \<Longrightarrow> bigint_shl_limbs xs s \<noteq> []"
  using length_bigint_shl_loop [of xs "s mod 64" "s div 64" "replicate (length xs + s div 64 + 1) 0"]
  by (auto simp: bigint_shl_limbs_def Let_def)

subsection \<open>Right shift\<close>

lemma unat_shr_limb_at:
  assumes "0 < s" "s < 64" "i < length xs"
  shows "unat (shr_limb_at xs s (64 - s) i) = unat (xs ! i) div 2 ^ s + (2 ^ (64 - s) * lval (drop (Suc i) xs)) mod LB"
proof -
  have m: "(2 ^ (64 - s) * lval (drop (Suc i) xs)) mod LB = (2 ^ (64 - s) * unat (limb_get xs (Suc i))) mod LB"
    by (subst lval_drop) (simp add: distrib_left mod_add_right_eq [symmetric] mult.left_commute [of _ LB])
  have lt: "unat (shr64 (xs ! i) s) < 2 ^ (64 - s)"
    using shl_carry_less [of "64 - s" "xs ! i"] assms by (simp add: unat_shr64)
  have "shr_limb_at xs s (64 - s) i = shr64 (xs ! i) s OR shl64 (limb_get xs (Suc i)) (64 - s)"
    using assms(3) by (simp add: shr_limb_at_def limb_get_def shl64_def)
  then show ?thesis using unat_or_shl64 [OF lt] assms m by (simp add: unat_shr64)
qed

lemma shr_step:
  assumes "0 < s" "s < 64"
  shows "(x + LB * r) div 2 ^ s = x div 2 ^ s + (2 ^ (64 - s) * r) mod LB + LB * (r div 2 ^ s)"
proof -
  have LB: "LB = 2 ^ s * 2 ^ (64 - s)" "LB = 2 ^ (64 - s) * 2 ^ s"
    using assms by (simp_all flip: power_add)
  have "(x + LB * r) div 2 ^ s = (x + 2 ^ s * (2 ^ (64 - s) * r)) div 2 ^ s"
    by (simp add: LB(1) mult.assoc)
  also have "\<dots> = x div 2 ^ s + 2 ^ (64 - s) * r" by simp
  also have "2 ^ (64 - s) * r = (2 ^ (64 - s) * r) mod LB + LB * ((2 ^ (64 - s) * r) div LB)" by simp
  also have "(2 ^ (64 - s) * r) div LB = r div 2 ^ s" by (subst LB(2)) simp
  finally show ?thesis by simp
qed

lemma shr_limbs_val:
  assumes "0 < s" "s < 64" "i + n = length xs"
  shows "lval (map (shr_limb_at xs s (64 - s)) [i..<i + n]) = lval (drop i xs) div 2 ^ s"
  using assms(3)
proof (induction n arbitrary: i)
  case 0
  then show ?case by simp
next
  case (Suc n)
  have "lval (map (shr_limb_at xs s (64 - s)) [i..<i + Suc n])
    = unat (shr_limb_at xs s (64 - s) i) + LB * (lval (drop (Suc i) xs) div 2 ^ s)"
    using Suc.IH [of "Suc i"] Suc.prems by (simp add: upt_rec [of i] del: upt_Suc)
  also have "\<dots> = (unat (xs ! i) + LB * lval (drop (Suc i) xs)) div 2 ^ s"
    unfolding shr_step [OF assms(1,2)] using unat_shr_limb_at [OF assms(1,2)] Suc.prems by simp
  finally show ?case using Suc.prems by (simp add: lval_drop [of i] limb_get_def del: upt_Suc)
qed

lemma shr_limbs_n_val:
  assumes "s < 64" "xs \<noteq> []"
  shows "lval (shr_limbs_n xs s) = lval xs div 2 ^ s \<and> normal (shr_limbs_n xs s)"
proof (cases "s = 0")
  case True
  then show ?thesis using trim_normal [OF assms(2)] by (simp add: shr_limbs_n_def)
next
  case False
  let ?m = "map (shr_limb_at xs s (64 - s)) [0..<length xs]"
  have "normal (trim ?m)" using assms(2) by (intro trim_normal) simp
  moreover from this have "trim ?m \<noteq> []" by (simp add: normal_def)
  ultimately show ?thesis
    using False assms shr_limbs_val [of s 0 "length xs" xs] by (simp add: shr_limbs_n_def Let_def)
qed

lemma lval_drop_div: "lval (drop k xs) = lval xs div LB ^ k"
proof (cases "k \<le> length xs")
  case True
  then have "lval xs = lval (take k xs) + LB ^ k * lval (drop k xs)"
    using lval_append [of "take k xs" "drop k xs"] by (simp add: min_absorb2)
  moreover have "lval (take k xs) < LB ^ k" using lval_less [of "take k xs"] True by (simp add: min_absorb2)
  ultimately show ?thesis by simp
next
  case False
  then have "lval xs < LB ^ k" using lval_less [of xs] by (elim less_le_trans) simp
  with False show ?thesis by simp
qed

lemma lval_take_mod: "lval (take k xs) = lval xs mod LB ^ k"
proof (cases "k \<le> length xs")
  case True
  then have "lval xs = lval (take k xs) + LB ^ k * lval (drop k xs)"
    using lval_append [of "take k xs" "drop k xs"] by (simp add: min_absorb2)
  moreover have "lval (take k xs) < LB ^ k" using lval_less [of "take k xs"] True by (simp add: min_absorb2)
  ultimately show ?thesis by simp
next
  case False
  then have "lval xs < LB ^ k" using lval_less [of xs] by (elim less_le_trans) simp
  with False show ?thesis by simp
qed

lemma bigint_shr_limbs_val:
  assumes "s div 64 < length xs"
  shows "lval (bigint_shr_limbs xs s) = lval xs div 2 ^ s"
    "length (bigint_shr_limbs xs s) = length xs - s div 64"
proof -
  let ?q = "s div 64" and ?r = "s mod 64"
  have "(2 :: nat) ^ s = 2 ^ (64 * ?q + ?r)" by simp
  also have "\<dots> = LB ^ ?q * 2 ^ ?r" by (simp only: power_add power_mult) simp
  finally have p: "lval xs div 2 ^ s = lval (drop ?q xs) div 2 ^ ?r"
    by (simp add: lval_drop_div div_mult2_eq)
  have upt: "map f [?q..<length xs] = map (\<lambda>i. f (i + ?q)) [0..<length xs - ?q]" for f :: "nat \<Rightarrow> u64"
  proof -
    have "[?q..<length xs] = map (\<lambda>i. i + ?q) [0..<length xs - ?q]"
      using assms by (simp add: map_add_upt)
    then show ?thesis by (simp only: map_map comp_def)
  qed
  show "lval (bigint_shr_limbs xs s) = lval xs div 2 ^ s"
  proof (cases "?r = 0")
    case True
    have "map (\<lambda>i. xs ! (i + ?q)) [0..<length xs - ?q] = drop ?q xs"
      by (rule nth_equalityI) (simp_all add: add.commute)
    with True p show ?thesis by (simp add: bigint_shr_limbs_def Let_def)
  next
    case False
    then have "lval (map (shr_limb_at xs ?r (64 - ?r)) [?q..<length xs]) = lval (drop ?q xs) div 2 ^ ?r"
      using shr_limbs_val [of ?r ?q "length xs - ?q" xs] assms by simp
    with False p show ?thesis by (simp add: bigint_shr_limbs_def Let_def upt)
  qed
qed (simp add: bigint_shr_limbs_def Let_def)

end
