(* ===== verification/KnuthD.thy ===== *)
theory KnuthD
  imports LimbShift
begin

text \<open>
  The two magnitude dividers of \<open>determin/src/bigint.rs\<close>: division by one limb
  (\<open>knuth_single_limb_div\<close>) and Knuth's Algorithm D (\<open>knuth_d\<close>), with the normalisation, the
  trial digit and its three-digit correction, the multiply-and-subtract pass and the add-back.
  All arithmetic is on 64 and 128 bit words as in the code; the theory shows that no
  intermediate value wraps where it must not and that both dividers compute \<open>div\<close> and \<open>mod\<close>.

  The locale \<open>magnitude_divider\<close> states what a divider promises to \<open>bigint_divmod\<close>; both are
  interpretations of it.
\<close>

subsection \<open>Operations\<close>

fun single_limb_loop :: "limbs \<Rightarrow> u64 \<Rightarrow> nat \<Rightarrow> u128 \<Rightarrow> limbs \<Rightarrow> (limbs \<times> u128, 'e) outcome" where
  "single_limb_loop dividend divisor 0 remainder result = Ok (result, remainder)"
| "single_limb_loop dividend divisor (Suc i) remainder result =
     (let current = push_bit 64 remainder OR ucast (dividend ! i) in
      if divisor = 0 then Panic
      else single_limb_loop dividend divisor i (current mod ucast divisor)
             (result[i := ucast (current div ucast divisor)]))"

definition knuth_single_limb_div :: "limbs \<Rightarrow> u64 \<Rightarrow> (limbs \<times> limbs, 'e) outcome" where
  "knuth_single_limb_div dividend divisor =
     bind_ok (single_limb_loop dividend divisor (length dividend) 0 (replicate (length dividend) 0))
       (\<lambda>(result, remainder).
          Ok (trim result, if remainder = 0 then [0] else [ucast remainder]))"

definition BASE :: u128 where
  "BASE = push_bit 64 1"

definition trial_digit :: "u128 \<Rightarrow> u128 \<Rightarrow> u128 \<Rightarrow> (u128, 'e) outcome" where
  "trial_digit u_top u_mid v_top =
     (if u_top = v_top then Ok (BASE - 1)
      else if v_top = 0 then Panic
      else Ok ((u_top * BASE + u_mid) div v_top))"

function refine_q_hat :: "u128 \<Rightarrow> u128 \<Rightarrow> u128 \<Rightarrow> u128 \<Rightarrow> u128 \<Rightarrow> u128 \<Rightarrow> u128" where
  "refine_q_hat u_top u_mid u_low v_top v_next q_hat =
     (let rhat = u_top * BASE + u_mid - q_hat * v_top in
      if rhat \<ge> BASE then q_hat
      else if q_hat * v_next > BASE * rhat + u_low
      then refine_q_hat u_top u_mid u_low v_top v_next (q_hat - 1)
      else q_hat)"
  by pat_completeness auto
termination
proof (relation "measure (\<lambda>(u_top, u_mid, u_low, v_top, v_next, q_hat). unat q_hat)", goal_cases)
  case (2 u_top u_mid u_low v_top v_next q_hat rhat)
  then have "q_hat \<noteq> 0" by auto
  then show ?case using unat_gt_0 [of q_hat] by (simp add: unat_minus_one)
qed simp

declare refine_q_hat.simps [simp del]

fun mul_pass :: "u128 \<Rightarrow> limbs \<Rightarrow> u128 \<Rightarrow> limbs" where
  "mul_pass q_hat [] mul_carry = [ucast mul_carry]"
| "mul_pass q_hat (v # vs) mul_carry =
     (let prod = q_hat * ucast v + mul_carry in
      ucast prod # mul_pass q_hat vs (drop_bit 64 prod))"

fun sub_pass :: "limbs \<Rightarrow> limbs \<Rightarrow> u64 \<Rightarrow> limbs \<times> u64" where
  "sub_pass (x # xs) (y # ys) sub_borrow =
     (let (d1, b1) = overflowing_sub x y;
          (d2, b2) = overflowing_sub d1 sub_borrow;
          (ds, out) = sub_pass xs ys (of_bool b1 OR of_bool b2) in
      (d2 # ds, out))"
| "sub_pass xs ys sub_borrow = ([], sub_borrow)"

fun add_pass :: "limbs \<Rightarrow> limbs \<Rightarrow> u128 \<Rightarrow> limbs" where
  "add_pass (x # xs) (v # vs) add_carry =
     (let s = ucast x + ucast v + add_carry in
      ucast s # add_pass xs vs (drop_bit 64 s))"
| "add_pass (x # xs) [] add_carry = (x + ucast add_carry) # xs"
| "add_pass [] vs add_carry = []"

definition knuth_step :: "limbs \<Rightarrow> nat \<Rightarrow> limbs \<Rightarrow> (limbs \<times> u64, 'e) outcome" where
  "knuth_step v j u =
     (let n = length v;
          u_top = ucast (u ! (j + n)); u_mid = ucast (u ! (j + n - 1));
          v_top = ucast (v ! (n - 1)); v_next = ucast (v ! (n - 2)) in
      bind_ok (trial_digit u_top u_mid v_top) (\<lambda>q_hat0.
        let u_low = (if j + n \<ge> 2 then ucast (u ! (j + n - 2)) else 0);
            q_hat1 = refine_q_hat u_top u_mid u_low v_top v_next q_hat0;
            window = take (n + 1) (drop j u);
            (w1, sub_borrow) = sub_pass window (mul_pass q_hat1 v 0) 0;
            (w2, q_hat) = (if sub_borrow \<noteq> 0 then (add_pass w1 v 0, q_hat1 - 1) else (w1, q_hat1)) in
        Ok (take j u @ w2 @ drop (j + n + 1) u, ucast q_hat)))"

fun knuth_loop :: "limbs \<Rightarrow> nat \<Rightarrow> limbs \<Rightarrow> limbs \<Rightarrow> (limbs \<times> limbs, 'e) outcome" where
  "knuth_loop v 0 u q = Ok (u, q)"
| "knuth_loop v (Suc j) u q =
     bind_ok (knuth_step v j u) (\<lambda>(u', digit). knuth_loop v j u' (q[j := digit]))"

definition knuth_d :: "limbs \<Rightarrow> limbs \<Rightarrow> (limbs \<times> limbs, 'e) outcome" where
  "knuth_d dividend divisor =
     (if length divisor < 2 \<or> length dividend < length divisor then Panic
      else
        let n = length divisor;
            m = length dividend - n;
            d_shift = leading_zeros (divisor ! (n - 1));
            v = shl_limbs_n divisor d_shift n;
            u = shl_limbs_n dividend d_shift (n + m + 1) in
        bind_ok (knuth_loop v (m + 1) u (replicate (m + 1) 0)) (\<lambda>(u', q).
          Ok (trim q, shr_limbs_n (take n u') d_shift)))"

subsection \<open>Division by one limb\<close>

lemma unat_push64_or:
  "unat r < LB \<Longrightarrow> unat (push_bit 64 r OR ucast (x :: u64) :: u128) = LB * unat r + unat x"
proof -
  assume r: "unat r < LB"
  have dis: "\<not> (bit (take_bit 128 (push_bit 64 (unat r))) n \<and> bit (unat x) n)" for n
  proof -
    have "take_bit 64 (unat x) = unat x"
      using unat_u64_less [of x] by (simp add: take_bit_nat_eq_self_iff)
    then show ?thesis by (metis bit_take_bit_iff bit_push_bit_iff linorder_not_le)
  qed
  have "unat (push_bit 64 r OR ucast x :: u128) = take_bit 128 (push_bit 64 (unat r)) OR unat x"
    by (simp add: unsigned_or_eq unsigned_push_bit_eq)
  also have "\<dots> = take_bit 128 (push_bit 64 (unat r)) + unat x"
    by (rule disjunctive_add_eq_or [symmetric]) (rule bit_eqI, use dis in \<open>simp add: bit_and_iff\<close>)
  also have "take_bit 128 (push_bit 64 (unat r)) = LB * unat r"
    using r by (simp add: take_bit_eq_mod push_bit_eq_mult)
  finally show ?thesis .
qed

lemma single_limb_loop_val:
  assumes "d \<noteq> 0"
  shows "i \<le> length xs \<Longrightarrow> length rs = length xs \<Longrightarrow> unat r < unat d \<Longrightarrow>
    lval (drop i xs) = lval (drop i rs) * unat d + unat r \<Longrightarrow>
    \<exists>rs' r'. (single_limb_loop xs d i r rs :: (limbs \<times> u128, 'e) outcome) = Ok (rs', r') \<and>
      length rs' = length xs \<and> unat r' < unat d \<and> lval xs = lval rs' * unat d + unat r'"
proof (induction i arbitrary: r rs)
  case 0
  then show ?case by simp
next
  case (Suc i)
  define c where "c = push_bit 64 r OR ucast (xs ! i)"
  have cv: "unat c = LB * unat r + unat (xs ! i)" using unat_push64_or [of r] Suc.prems(3) unat_u64_less [of d] by (simp add: c_def)
  let ?q = "ucast (c div ucast d) :: u64" and ?r = "c mod ucast d"
  have d: "0 < unat d" using assms by (simp add: unat_gt_0)
  have rv: "unat ?r = unat c mod unat d" by (simp add: unat_mod)
  have "unat c < LB * Suc (unat r)" using cv unat_u64_less [of "xs ! i"] by simp
  also have "\<dots> \<le> LB * unat d" using Suc.prems(3) by (intro mult_le_mono2) simp
  finally have "unat c div unat d < LB" using d by (simp add: less_mult_imp_div_less)
  then have qv: "unat ?q = unat c div unat d" by (simp add: unat_div)
  have "lval (drop i xs) = unat (xs ! i) + LB * lval (drop (Suc i) xs)"
    using Suc.prems(1) by (simp add: lval_drop [of i] limb_get_def)
  also have "\<dots> = LB * lval (drop (Suc i) rs) * unat d + unat c"
    using Suc.prems(4) cv by (simp add: algebra_simps)
  also have "unat c = unat c div unat d * unat d + unat c mod unat d" by simp
  also have "LB * lval (drop (Suc i) rs) * unat d + \<dots> = (unat ?q + LB * lval (drop (Suc i) rs)) * unat d + unat ?r"
    by (simp only: qv rv distrib_right add.assoc add.left_commute add.commute)
  also have "unat ?q + LB * lval (drop (Suc i) rs) = lval (drop i (rs[i := ?q]))"
    using Suc.prems(1,2) by (simp add: lval_drop [of i] limb_get_def)
  finally have "\<exists>rs' r'. (single_limb_loop xs d i ?r (rs[i := ?q]) :: (limbs \<times> u128, 'e) outcome) = Ok (rs', r') \<and>
      length rs' = length xs \<and> unat r' < unat d \<and> lval xs = lval rs' * unat d + unat r'"
    using Suc.prems(1,2) rv d by (intro Suc.IH) simp_all
  then show ?case using assms by (simp add: Let_def c_def)
qed

lemma knuth_single_limb_div_val:
  assumes "d \<noteq> 0" "xs \<noteq> []"
  shows "\<exists>q r. (knuth_single_limb_div xs d :: (limbs \<times> limbs, 'e) outcome) = Ok (q, r) \<and> normal q \<and> normal r \<and>
    lval q = lval xs div unat d \<and> lval r = lval xs mod unat d"
proof -
  let ?z = "replicate (length xs) (0 :: u64)"
  have "unat (0 :: u128) < unat d" using assms by (simp add: unat_gt_0)
  with single_limb_loop_val [OF assms(1), of "length xs" xs ?z 0] obtain q r where
    e: "(single_limb_loop xs d (length xs) 0 ?z :: (limbs \<times> u128, 'e) outcome) = Ok (q, r)"
    and l: "length q = length xs" and r: "unat r < unat d" and v: "lval xs = lval q * unat d + unat r"
    by auto
  have "lval (if r = 0 then [0] else [ucast r]) = unat r"
    using r unat_u64_less [of d] by simp
  moreover have "normal (if r = 0 then [0] else [ucast r])" by (simp add: normal_def)
  moreover have "normal (trim q)" using assms(2) l by (intro trim_normal) auto
  moreover have "lval xs div unat d = lval q" "lval xs mod unat d = unat r" using v r by simp_all
  ultimately show ?thesis using e by (simp add: knuth_single_limb_div_def)
qed

subsection \<open>The trial digit\<close>

lemma unat_BASE [simp]: "unat BASE = LB"
  by (simp add: BASE_def)

lemma unat_BASE_minus_1 [simp]: "unat (BASE - 1) = LB - 1"
  by (simp add: BASE_def)

lemma unat_two_digits:
  "unat a < LB \<Longrightarrow> unat b < LB \<Longrightarrow> unat (a * BASE + b) = unat a * LB + unat b"
proof -
  assume ab: "unat a < LB" "unat b < LB"
  then have "unat a * LB + unat b < LB * LB" by simp
  then show ?thesis by (simp add: unat_u128_add unat_u128_mult)
qed

text \<open>
  The correction loop never drops below the true digit, and where it stops the digit times
  the two leading divisor limbs does not exceed the three leading limbs of the remainder.
\<close>

lemma refine_q_hat_val:
  fixes u_top u_mid u_low v_top v_next q_hat :: u128
  assumes "unat u_top < LB" "unat u_mid < LB" "unat u_low < LB" "unat v_next < LB"
    and "q * (unat v_top * LB + unat v_next) \<le> (unat u_top * LB + unat u_mid) * LB + unat u_low"
    and "unat q_hat < LB" "unat q_hat * unat v_top \<le> unat u_top * LB + unat u_mid" "q \<le> unat q_hat"
    and "r = refine_q_hat u_top u_mid u_low v_top v_next q_hat"
  shows "q \<le> unat r \<and> unat r < LB \<and>
    unat r * (unat v_top * LB + unat v_next) \<le> (unat u_top * LB + unat u_mid) * LB + unat u_low"
  using assms
proof (induction u_top u_mid u_low v_top v_next q_hat arbitrary: r rule: refine_q_hat.induct)
  case (1 u_top u_mid u_low v_top v_next q_hat)
  let ?U = "unat u_top * LB + unat u_mid"
  define rhat where "rhat = u_top * BASE + u_mid - q_hat * v_top"
  have U: "unat (u_top * BASE + u_mid) = ?U" using "1.prems"(1,2) by (rule unat_two_digits)
  have "?U < LB * LB" using "1.prems"(1,2) by simp
  then have qv: "unat (q_hat * v_top) = unat q_hat * unat v_top"
    using "1.prems"(7) by (intro unat_u128_mult) linarith
  have rv: "unat rhat = ?U - unat q_hat * unat v_top"
    using "1.prems"(7) by (simp add: rhat_def unat_sub word_le_nat_alt U qv)
  then have sum: "unat q_hat * unat v_top + unat rhat = ?U" using "1.prems"(7) by simp
  have exit: "unat q_hat * (unat v_top * LB + unat v_next) \<le> ?U * LB + unat u_low"
    if "unat q_hat * unat v_next \<le> LB * unat rhat + unat u_low"
  proof -
    have "unat q_hat * (unat v_top * LB + unat v_next)
        = unat q_hat * unat v_top * LB + unat q_hat * unat v_next" by (simp add: distrib_left)
    also have "\<dots> \<le> unat q_hat * unat v_top * LB + (LB * unat rhat + unat u_low)" using that by simp
    also have "\<dots> = (unat q_hat * unat v_top + unat rhat) * LB + unat u_low" by simp
    finally show ?thesis unfolding sum .
  qed
  have pq: "unat q_hat * unat v_next < LB * LB" using "1.prems"(4,6) by (intro mult_strict_mono) simp_all
  show ?case
  proof (cases "rhat \<ge> BASE")
    case True
    then have "LB * LB \<le> LB * unat rhat" by (simp add: word_le_nat_alt)
    with pq have "unat q_hat * unat v_next \<le> LB * unat rhat + unat u_low" by linarith
    moreover have "r = q_hat"
      using "1.prems"(9) True by (simp add: refine_q_hat.simps [of u_top] rhat_def Let_def)
    ultimately show ?thesis using exit "1.prems"(6,8) by simp
  next
    case False
    then have rl: "unat rhat < LB" by (simp add: word_le_nat_alt)
    have test: "q_hat * v_next > BASE * rhat + u_low \<longleftrightarrow> LB * unat rhat + unat u_low < unat q_hat * unat v_next"
      using unat_two_digits [OF rl "1.prems"(3)] pq by (simp add: word_less_nat_alt unat_u128_mult mult.commute)
    show ?thesis
    proof (cases "q_hat * v_next > BASE * rhat + u_low")
      case False
      then have "r = q_hat"
        using "1.prems"(9) \<open>\<not> rhat \<ge> BASE\<close> by (simp add: refine_q_hat.simps [of u_top] rhat_def Let_def)
      with False test exit "1.prems"(6,8) show ?thesis by simp
    next
      case True
      then have nz: "0 < unat q_hat" using test by (cases "unat q_hat") auto
      then have dec: "unat (q_hat - 1) = unat q_hat - 1" using unat_minus_one [of q_hat] by fastforce
      have "?U * LB + unat u_low < unat q_hat * (unat v_top * LB + unat v_next)"
      proof -
        have "?U * LB + unat u_low = unat q_hat * unat v_top * LB + (LB * unat rhat + unat u_low)"
          unfolding sum [symmetric] by simp
        also have "\<dots> < unat q_hat * unat v_top * LB + unat q_hat * unat v_next" using True test by simp
        also have "\<dots> = unat q_hat * (unat v_top * LB + unat v_next)" by (simp add: distrib_left)
        finally show ?thesis .
      qed
      with "1.prems"(5) have "q * (unat v_top * LB + unat v_next) < unat q_hat * (unat v_top * LB + unat v_next)"
        by (rule le_less_trans)
      then have "q < unat q_hat" by (simp only: mult_less_cancel2)
      then have "q \<le> unat (q_hat - 1)" using dec by simp
      moreover have "unat (q_hat - 1) * unat v_top \<le> unat q_hat * unat v_top"
        unfolding dec by (intro mult_le_mono1) simp
      then have "unat (q_hat - 1) * unat v_top \<le> ?U" using "1.prems"(7) by (rule le_trans)
      moreover have "r = refine_q_hat u_top u_mid u_low v_top v_next (q_hat - 1)"
        using "1.prems"(9) True \<open>\<not> rhat \<ge> BASE\<close> by (simp add: refine_q_hat.simps [of u_top] rhat_def Let_def)
      ultimately show ?thesis
        using "1.IH" [OF rhat_def \<open>\<not> rhat \<ge> BASE\<close> True] "1.prems"(1-6) dec by simp
    qed
  qed
qed

text \<open>
  Knuth's bounds, for a remainder \<open>W = U * P + Wl\<close> and a divisor \<open>V = D * P + Vl\<close> of which only
  the leading parts \<open>U\<close> and \<open>D\<close> are inspected.
\<close>

lemma leading_digit_le:
  fixes W V U D P Wl Vl :: nat
  assumes "W = U * P + Wl" "Wl < P" "V = D * P + Vl"
  shows "(W div V) * D \<le> U"
proof -
  let ?q = "W div V"
  have "?q * D * P \<le> ?q * V" using assms(3) by (simp add: distrib_left)
  also have "\<dots> \<le> W" by (simp add: mult.commute)
  also have "\<dots> < Suc U * P" using assms(1,2) by simp
  finally have "?q * D < Suc U" by (simp only: mult_less_cancel2)
  then show ?thesis by simp
qed

lemma leading_digit_ge:
  fixes W V U D P Wl Vl :: nat
  assumes "W = U * P + Wl" "V = D * P + Vl" "Vl < P" "Q * D \<le> U" "Suc (W div V) \<le> D"
  shows "Q \<le> Suc (W div V)"
proof (rule ccontr)
  let ?q = "W div V"
  assume "\<not> Q \<le> Suc ?q"
  then have "(?q + 2) * D \<le> Q * D" by (intro mult_le_mono1) simp
  with assms(4) have "(?q + 2) * D * P \<le> U * P" by (intro mult_le_mono1) simp
  also have "\<dots> \<le> W" using assms(1) by simp
  also have "W < Suc ?q * V"
    using assms(2,3,5) dividend_less_div_times [of V W] by (cases V) (auto simp: mult.commute)
  also have "Suc ?q * V = Suc ?q * D * P + Suc ?q * Vl" using assms(2) by (simp only: distrib_left mult.assoc)
  also have "\<dots> \<le> Suc ?q * D * P + D * P"
    using assms(3,5) by (intro add_left_mono mult_le_mono) simp_all
  also have "\<dots> = (?q + 2) * D * P" by (simp add: algebra_simps)
  finally show False by simp
qed

subsection \<open>The passes\<close>

lemma mul_pass_val:
  "unat q < LB \<Longrightarrow> unat c < LB \<Longrightarrow>
   lval (mul_pass q vs c) = unat q * lval vs + unat c \<and> length (mul_pass q vs c) = length vs + 1"
proof (induction vs arbitrary: c)
  case Nil
  then show ?case by simp
next
  case (Cons v vs)
  define p where "p = q * ucast v + c"
  have "unat q * unat v \<le> (LB - 1) * (LB - 1)"
    using Cons.prems(1) unat_u64_less [of v] by (intro mult_le_mono) linarith+
  then have le: "unat q * unat v + unat c < LB * LB" using Cons.prems(2) by simp
  then have pv: "unat p = unat q * unat v + unat c"
    by (simp add: p_def unat_u128_add unat_u128_mult)
  have "unat (drop_bit 64 p) < LB" using le pv by (simp add: less_mult_imp_div_less)
  from Cons.IH [OF Cons.prems(1) this]
  have IH: "lval (mul_pass q vs (drop_bit 64 p)) = unat q * lval vs + unat p div LB"
    "length (mul_pass q vs (drop_bit 64 p)) = length vs + 1" by simp_all
  have "lval (mul_pass q (v # vs) c) = unat p mod LB + LB * (unat p div LB) + LB * (unat q * lval vs)"
    by (simp add: Let_def IH(1) flip: p_def)
  also have "unat p mod LB + LB * (unat p div LB) = unat p" by simp
  finally have "lval (mul_pass q (v # vs) c) = unat q * lval (v # vs) + unat c"
    by (simp only: pv lval.simps distrib_left add.assoc add.commute mult.left_commute)
  moreover have "length (mul_pass q (v # vs) c) = length (v # vs) + 1"
    using IH(2) by (simp add: Let_def p_def)
  ultimately show ?case by blast
qed

lemma sub_pass_val:
  "length xs = length ys \<Longrightarrow> unat w \<le> 1 \<Longrightarrow> sub_pass xs ys w = (ds, out) \<Longrightarrow>
   length ds = length xs \<and> unat out \<le> 1 \<and>
   int (lval ds) - int LB ^ length xs * int (unat out) = int (lval xs) - int (lval ys) - int (unat w)"
proof (induction xs ys arbitrary: w ds out rule: list_induct2)
  case Nil
  then show ?case by simp
next
  case (Cons x xs y ys)
  obtain d1 b1 where d1: "overflowing_sub x y = (d1, b1)" by force
  obtain d2 b2 where d2: "overflowing_sub d1 w = (d2, b2)" by force
  obtain es where rec: "sub_pass xs ys (of_bool (b1 \<or> b2)) = (es, out)" and ds: "ds = d2 # es"
    using Cons.prems(2) by (auto simp: d1 d2 of_bool_or_u64 split: prod.splits)
  have "unat (of_bool (b1 \<or> b2) :: u64) \<le> 1" by simp
  from Cons.IH [OF this rec] have IH: "length es = length xs" "unat out \<le> 1"
    "int (lval es) - int LB ^ length xs * int (unat out) = int (lval xs) - int (lval ys) - of_bool (b1 \<or> b2)"
    by auto
  have "int (lval ds) - int LB ^ length (x # xs) * int (unat out)
      = int (unat d2) + int LB * (int (lval es) - int LB ^ length xs * int (unat out))"
    by (simp add: ds algebra_simps)
  also have "\<dots> = int (lval (x # xs)) - int (lval (y # ys)) - int (unat w)"
    unfolding IH(3) using sub_digit [OF Cons.prems(1) d1 d2] by (simp add: algebra_simps)
  finally show ?case using IH ds by simp
qed

lemma add_pass_val:
  "length xs = length vs + 1 \<Longrightarrow> unat c \<le> 1 \<Longrightarrow>
   lval (add_pass xs vs c) = (lval xs + lval vs + unat c) mod LB ^ length xs \<and>
   length (add_pass xs vs c) = length xs"
proof (induction xs vs c rule: add_pass.induct)
  case (1 x xs v vs c)
  define s where "s = ucast x + ucast v + c"
  have sv: "unat s = unat x + unat v + unat c"
    using "1.prems"(2) unat_u64_less [of x] unat_u64_less [of v] by (simp add: s_def unat_u128_add)
  then have "unat (drop_bit 64 s) \<le> 1"
    using "1.prems"(2) unat_u64_less [of x] unat_u64_less [of v] by simp
  with "1.IH" [OF s_def] "1.prems"(1)
  have IH: "lval (add_pass xs vs (drop_bit 64 s)) = (unat s div LB + (lval xs + lval vs)) mod LB ^ length xs"
    "length (add_pass xs vs (drop_bit 64 s)) = length xs"
    by (simp_all add: add.commute)
  have "lval (add_pass (x # xs) (v # vs) c)
      = unat s mod LB + LB * ((unat s div LB + (lval xs + lval vs)) mod LB ^ length xs)"
    by (simp add: Let_def IH(1) flip: s_def)
  also have "\<dots> = (unat s + LB * (lval xs + lval vs)) mod LB ^ length (x # xs)"
    by (simp only: mod_step power_Suc length_Cons)
  also have "unat s + LB * (lval xs + lval vs) = lval (x # xs) + lval (v # vs) + unat c"
    by (simp add: sv)
  finally have "lval (add_pass (x # xs) (v # vs) c)
      = (lval (x # xs) + lval (v # vs) + unat c) mod LB ^ length (x # xs)" .
  moreover have "length (add_pass (x # xs) (v # vs) c) = length (x # xs)"
    using IH(2) by (simp add: Let_def s_def)
  ultimately show ?case by blast
next
  case (2 x xs c)
  have "unat (x + ucast c) = (unat x + unat c) mod LB"
    using "2.prems"(2) by (simp add: unat_word_ariths)
  with 2 show ?case by simp
qed simp

lemma lval_top2:
  assumes "2 \<le> n" "n = length v"
  obtains l where "lval v = (unat (v ! (n - 1)) * LB + unat (v ! (n - 2))) * LB ^ (n - 2) + l" "l < LB ^ (n - 2)"
proof -
  have s: "Suc (n - 2) = n - 1" "Suc (n - 1) = n" using assms by simp_all
  have "lval (drop (n - 2) v) = unat (v ! (n - 2)) + LB * lval (drop (n - 1) v)"
    using lval_drop [of "n - 2" v] assms s by (auto simp: limb_get_def)
  also have "lval (drop (n - 1) v) = unat (v ! (n - 1))"
    using lval_drop [of "n - 1" v] assms s(2) by (simp add: limb_get_def)
  finally have "lval (drop (n - 2) v) = unat (v ! (n - 1)) * LB + unat (v ! (n - 2))" by simp
  then have "lval v = (unat (v ! (n - 1)) * LB + unat (v ! (n - 2))) * LB ^ (n - 2) + lval (take (n - 2) v)"
    using div_mult_mod_eq [of "lval v" "LB ^ (n - 2)"] by (simp only: lval_drop_div lval_take_mod)
  then show ?thesis using that [of "lval (take (n - 2) v)"] by (simp add: lval_take_mod)
qed

lemma lval_top3:
  assumes "2 \<le> n" "length w = n + 1"
  obtains l where "lval w = ((unat (w ! n) * LB + unat (w ! (n - 1))) * LB + unat (w ! (n - 2))) * LB ^ (n - 2) + l"
    "l < LB ^ (n - 2)"
proof -
  have s: "Suc (n - 2) = n - 1" "Suc (n - 1) = n" using assms by simp_all
  have "lval (drop (n - 2) w) = unat (w ! (n - 2)) + LB * lval (drop (n - 1) w)"
    using lval_drop [of "n - 2" w] assms s by (auto simp: limb_get_def)
  also have "lval (drop (n - 1) w) = unat (w ! (n - 1)) + LB * lval (drop n w)"
    using lval_drop [of "n - 1" w] assms s(2) by (auto simp: limb_get_def)
  also have "lval (drop n w) = unat (w ! n)"
    using lval_drop [of n w] assms by (simp add: limb_get_def)
  finally have "lval (drop (n - 2) w) = (unat (w ! n) * LB + unat (w ! (n - 1))) * LB + unat (w ! (n - 2))" by simp
  then have "lval w = ((unat (w ! n) * LB + unat (w ! (n - 1))) * LB + unat (w ! (n - 2))) * LB ^ (n - 2)
      + lval (take (n - 2) w)"
    using div_mult_mod_eq [of "lval w" "LB ^ (n - 2)"] by (simp only: lval_drop_div lval_take_mod)
  then show ?thesis using that [of "lval (take (n - 2) w)"] by (simp add: lval_take_mod)
qed

lemma low_digits_less: "c < LB \<Longrightarrow> l < p \<Longrightarrow> c * p + l < LB * (p :: nat)"
proof -
  assume "c < LB" "l < p"
  then have "c * p + l < Suc c * p" by simp
  also have "\<dots> \<le> LB * p" using \<open>c < LB\<close> by (intro mult_le_mono1) simp
  finally show ?thesis .
qed

lemma top_digit_le:
  fixes P :: nat
  assumes "a * LB * P \<le> W" "W < LB * V" "V < Suc d * P"
  shows "a \<le> d"
proof -
  have "a * LB * P < LB * V" using assms(1,2) by simp
  also have "\<dots> \<le> LB * (Suc d * P)" using assms(3) by (intro mult_le_mono2) simp
  also have "\<dots> = Suc d * LB * P" by (simp only: mult.assoc mult.left_commute)
  finally have "a * LB < Suc d * LB" by (simp only: mult_less_cancel2)
  then show ?thesis by simp
qed

lemma trial_digit_val:
  fixes x y z :: u64
  assumes "z \<noteq> 0" "unat x \<le> unat z" "q * unat z \<le> unat x * LB + unat y" "q < LB"
  shows "\<exists>q0. (trial_digit (ucast x) (ucast y) (ucast z) :: (u128, 'e) outcome) = Ok q0 \<and>
    unat q0 < LB \<and> unat q0 * unat z \<le> unat x * LB + unat y \<and> q \<le> unat q0"
proof (cases "x = z")
  case True
  have "(LB - 1) * unat z \<le> unat z * LB + unat y" by (simp add: diff_mult_distrib)
  with True assms(4) show ?thesis by (intro exI [of _ "BASE - 1"]) (simp add: trial_digit_def)
next
  case False
  have "unat x \<noteq> unat z" using False word_unat_eq_iff by blast
  have ne: "ucast x \<noteq> (ucast z :: u128)" and nz: "(ucast z :: u128) \<noteq> 0"
    using unat_u64_up [of x] unat_u64_up [of z] False assms(1) by (metis word_unat_eq_iff unat_0)+
  let ?q = "(ucast x * BASE + ucast y) div ucast z :: u128"
  have v: "unat ?q = (unat x * LB + unat y) div unat z"
    using unat_two_digits [of "ucast x" "ucast y"] unat_u64_less [of x] unat_u64_less [of y]
    by (simp add: unat_div)
  have "unat x * LB + unat y < Suc (unat x) * LB" using unat_u64_less [of y] by simp
  also have "\<dots> \<le> unat z * LB" using assms(2) \<open>unat x \<noteq> unat z\<close> by (intro mult_le_mono1) simp
  finally have "unat ?q < LB" unfolding v by (simp add: less_mult_imp_div_less mult.commute)
  moreover have "unat ?q * unat z \<le> unat x * LB + unat y" unfolding v by simp
  moreover have "0 < unat z" using assms(1) unat_gt_0 [of z] by blast
  then have "q \<le> unat ?q" unfolding v using assms(3) by (simp add: less_eq_div_iff_mult_less_eq)
  ultimately show ?thesis using ne nz by (intro exI [of _ ?q]) (simp add: trial_digit_def)
qed

text \<open>
  The corrected trial digit of a window is the true digit or one more.
\<close>

lemma corrected_digit:
  fixes w v :: limbs
  assumes n: "2 \<le> n" "n = length v" and w: "length w = n + 1" and top: "v ! (n - 1) \<noteq> 0"
    and less: "lval w < LB * lval v"
  shows "\<exists>q0. (trial_digit (ucast (w ! n)) (ucast (w ! (n - 1))) (ucast (v ! (n - 1))) :: (u128, 'e) outcome) = Ok q0 \<and>
    (let q1 = refine_q_hat (ucast (w ! n)) (ucast (w ! (n - 1))) (ucast (w ! (n - 2))) (ucast (v ! (n - 1))) (ucast (v ! (n - 2))) q0
     in unat q1 < LB \<and> lval w div lval v \<le> unat q1 \<and> unat q1 \<le> Suc (lval w div lval v))"
proof -
  define a b c d e where "a = unat (w ! n)" and "b = unat (w ! (n - 1))" and "c = unat (w ! (n - 2))"
    and "d = unat (v ! (n - 1))" and "e = unat (v ! (n - 2))"
  note abbr = a_def [symmetric] b_def [symmetric] c_def [symmetric] d_def [symmetric] e_def [symmetric]
  let ?P = "LB ^ (n - 2)" and ?W = "lval w" and ?V = "lval v"
  let ?q = "?W div ?V"
  have lim: "a < LB" "b < LB" "c < LB" "d < LB" "e < LB"
    unfolding a_def b_def c_def d_def e_def by (rule unat_u64_less)+
  have d: "0 < d" using top unat_gt_0 [of "v ! (n - 1)"] d_def by blast
  obtain wl where W: "?W = ((a * LB + b) * LB + c) * ?P + wl" and wl: "wl < ?P"
    using lval_top3 [OF n(1) w] unfolding abbr by blast
  obtain vl where V: "?V = (d * LB + e) * ?P + vl" and vl: "vl < ?P"
    using lval_top2 [OF n] unfolding abbr by blast
  have q: "?q < LB" using less by (simp add: less_mult_imp_div_less)
  have W2: "?W = (a * LB + b) * (LB * ?P) + (c * ?P + wl)" unfolding W by (simp add: algebra_simps)
  have V2: "?V = d * (LB * ?P) + (e * ?P + vl)" unfolding V by (simp add: algebra_simps)
  have ad: "a \<le> d"
  proof (rule top_digit_le [OF _ less])
    show "a * LB * (LB * ?P) \<le> ?W" unfolding W2 by (simp add: distrib_right)
    show "?V < Suc d * (LB * ?P)" unfolding V2 using low_digits_less [OF lim(5) vl] by simp
  qed
  have q2: "?q * d \<le> a * LB + b"
    by (rule leading_digit_le [OF W2 low_digits_less [OF lim(3) wl] V2])
  have q3: "?q * (d * LB + e) \<le> (a * LB + b) * LB + c" by (rule leading_digit_le [OF W wl V])
  obtain q0 where q0: "(trial_digit (ucast (w ! n)) (ucast (w ! (n - 1))) (ucast (v ! (n - 1))) :: (u128, 'e) outcome) = Ok q0"
    and q0v: "unat q0 < LB" "unat q0 * d \<le> a * LB + b" "?q \<le> unat q0"
    using trial_digit_val [OF top, of "w ! n" ?q "w ! (n - 1)"] ad q2 q unfolding abbr by blast
  define q1 where "q1 = refine_q_hat (ucast (w ! n)) (ucast (w ! (n - 1))) (ucast (w ! (n - 2))) (ucast (v ! (n - 1))) (ucast (v ! (n - 2))) q0"
  have "?q \<le> unat q1 \<and> unat q1 < LB \<and> unat q1 * (d * LB + e) \<le> (a * LB + b) * LB + c"
    using refine_q_hat_val [OF _ _ _ _ _ q0v(1) _ q0v(3) q1_def] lim q3 q0v(2)
    unfolding unat_u64_up abbr by blast
  then have r: "?q \<le> unat q1" "unat q1 < LB" "unat q1 * (d * LB + e) \<le> (a * LB + b) * LB + c" by auto
  have "LB \<le> d * LB + e" using d by (cases d) auto
  then have "unat q1 \<le> Suc ?q" using leading_digit_ge [OF W V vl r(3)] q by linarith
  with r q0 q1_def show ?thesis by (auto simp: Let_def)
qed

text \<open>
  One iteration of the main loop: multiply, subtract and, on a borrow, add back.
\<close>

lemma window_update:
  assumes "lval (drop (Suc j) u) < lval v" "length w = length v + 1" "j + length v < length u"
    and w: "lval w + d * lval v = lval (take (length v + 1) (drop j u))" "lval w < lval v"
  defines "u' \<equiv> take j u @ w @ drop (j + length v + 1) u"
  shows "length u' = length u" "lval (drop j u') < lval v" "lval u = lval u' + LB ^ j * d * lval v"
proof -
  let ?n = "length v"
  have "lval (drop j u) < LB * lval v"
  proof -
    have "lval (drop j u) < LB + LB * lval (drop (Suc j) u)"
      using lval_drop [of j u] unat_u64_less [of "limb_get u j"] by simp
    also have "\<dots> = LB * Suc (lval (drop (Suc j) u))" by simp
    also have "\<dots> \<le> LB * lval v" using assms(1) by (intro mult_le_mono2) simp
    finally show ?thesis .
  qed
  also have "\<dots> \<le> LB * LB ^ ?n" using lval_less [of v] by (intro mult_le_mono2) simp
  finally have small: "lval (drop j u) < LB ^ (?n + 1)" by simp
  then have full: "lval (take (?n + 1) (drop j u)) = lval (drop j u)" by (simp add: lval_take_mod)
  have "lval (drop (j + ?n + 1) u) = lval (drop j u) div LB ^ (?n + 1)"
    using lval_drop_div [of "?n + 1" "drop j u"] by (simp add: add.commute add.left_commute)
  then have z: "lval (drop (j + ?n + 1) u) = 0" using small by simp
  show "length u' = length u" using assms(2,3) by (simp add: u'_def)
  have dr: "lval (drop j u') = lval w" using z assms(3) by (simp add: u'_def lval_append)
  then show "lval (drop j u') < lval v" using w(2) by simp
  have "lval u = lval (take j u) + LB ^ j * lval (drop j u)"
    using lval_append [of "take j u" "drop j u"] assms(3) by (simp add: min_absorb2)
  also have "lval (drop j u) = lval w + d * lval v" using w(1) full by simp
  also have "lval (take j u) + LB ^ j * \<dots> = lval u' + LB ^ j * d * lval v"
    using z assms(3) by (simp add: u'_def lval_append min_absorb2 distrib_left)
  finally show "lval u = lval u' + LB ^ j * d * lval v" .
qed

lemma subtract_window:
  assumes q: "lval w div lval v \<le> unat q1" "unat q1 \<le> Suc (lval w div lval v)" "unat q1 < LB"
    and l: "length w = length v + 1" and v: "0 < lval v"
    and sp: "sub_pass w (mul_pass q1 v 0) 0 = (w1, sb)"
    and r: "(w2, q2) = (if sb \<noteq> 0 then (add_pass w1 v 0, q1 - 1) else (w1, q1))"
  shows "length w2 = length w" "lval w2 = lval w mod lval v" "unat q2 = lval w div lval v"
proof -
  let ?q = "lval w div lval v" and ?n = "length w"
  have mp: "lval (mul_pass q1 v 0) = unat q1 * lval v" "length (mul_pass q1 v 0) = ?n"
    using mul_pass_val [OF q(3), of 0 v] l by simp_all
  have s: "length w1 = ?n" "unat sb \<le> 1"
    and eq: "int (lval w1) - int LB ^ ?n * int (unat sb) = int (lval w) - int (unat q1 * lval v)"
    using sub_pass_val [OF _ _ sp] mp by auto
  have w1: "lval w1 < LB ^ ?n" using lval_less [of w1] s(1) by simp
  have dm: "lval w = ?q * lval v + lval w mod lval v" by simp
  have "length w2 = ?n \<and> lval w2 = lval w mod lval v \<and> unat q2 = ?q"
  proof (cases "sb = 0")
    case True
    have le: "unat q1 * lval v \<le> lval w" using eq True by (simp flip: of_nat_mult)
    then have "unat q1 \<le> ?q" using v by (simp add: less_eq_div_iff_mult_less_eq)
    then have "unat q1 = ?q" using q(1) by simp
    moreover have "int (lval w1) = int (lval w) - int (unat q1 * lval v)" using eq True by simp
    then have "lval w1 = lval w - unat q1 * lval v" using le by linarith
    ultimately have "lval w1 = lval w mod lval v" by (simp add: minus_div_mult_eq_mod)
    then show ?thesis using True r s \<open>unat q1 = ?q\<close> by simp
  next
    case False
    then have "unat sb = 1" using s(2) unat_gt_0 [of sb] by linarith
    then have "int (lval w1 + unat q1 * lval v) = int (lval w + LB ^ ?n)" using eq by simp
    then have eq1: "lval w1 + unat q1 * lval v = lval w + LB ^ ?n" by (simp only: of_nat_eq_iff)
    then have "lval w < unat q1 * lval v" using w1 by linarith
    then have "unat q1 \<noteq> ?q" using div_times_less_eq_dividend [of "lval w" "lval v"] by fastforce
    then have q1: "unat q1 = Suc ?q" using q by simp
    have "lval w1 + lval v + ?q * lval v = lval w + LB ^ ?n" using eq1 q1 by simp
    then have "lval w1 + lval v = lval w mod lval v + LB ^ ?n" using dm by linarith
    moreover have "lval w mod lval v < LB ^ ?n"
      using lval_less [of w] mod_less_eq_dividend [of "lval w" "lval v"] by linarith
    ultimately have "(lval w1 + lval v) mod LB ^ ?n = lval w mod lval v" by simp
    then have "lval (add_pass w1 v 0) = lval w mod lval v" "length (add_pass w1 v 0) = ?n"
      using add_pass_val [of w1 v 0] s(1) l by simp_all
    moreover have "unat (q1 - 1) = ?q" using q1 unat_minus_one [of q1] by fastforce
    ultimately show ?thesis using False r by simp
  qed
  then show "length w2 = length w" "lval w2 = lval w mod lval v" "unat q2 = lval w div lval v" by auto
qed

lemma knuth_step_val:
  assumes n: "2 \<le> length v" and top: "v ! (length v - 1) \<noteq> 0" and j: "j + length v < length u"
    and inv: "lval (drop (Suc j) u) < lval v"
  shows "\<exists>u' d. (knuth_step v j u :: (limbs \<times> u64, 'e) outcome) = Ok (u', d) \<and> length u' = length u \<and>
    lval (drop j u') < lval v \<and> lval u = lval u' + LB ^ j * unat d * lval v"
proof -
  let ?n = "length v"
  define w where "w = take (?n + 1) (drop j u)"
  have l: "length w = ?n + 1" using j by (simp add: w_def)
  have nth: "u ! (j + ?n) = w ! ?n" "u ! (j + ?n - 1) = w ! (?n - 1)" "u ! (j + ?n - 2) = w ! (?n - 2)"
    using n j by (simp_all add: w_def)
  have v: "0 < lval v" using inv by simp
  have "lval w \<le> lval (drop j u)" by (simp add: w_def lval_take_mod)
  also have "\<dots> < LB * Suc (lval (drop (Suc j) u))"
    using lval_drop [of j u] unat_u64_less [of "limb_get u j"] by simp
  also have "\<dots> \<le> LB * lval v" using inv by (intro mult_le_mono2) simp
  finally have less: "lval w < LB * lval v" .
  obtain q0 q1 where q0: "(trial_digit (ucast (w ! ?n)) (ucast (w ! (?n - 1))) (ucast (v ! (?n - 1))) :: (u128, 'e) outcome) = Ok q0"
    and q1: "q1 = refine_q_hat (ucast (w ! ?n)) (ucast (w ! (?n - 1))) (ucast (w ! (?n - 2))) (ucast (v ! (?n - 1))) (ucast (v ! (?n - 2))) q0"
    and q: "lval w div lval v \<le> unat q1" "unat q1 \<le> Suc (lval w div lval v)" "unat q1 < LB"
    using corrected_digit [OF n refl l top less] by (metis (no_types, lifting))
  obtain w1 sb where sp: "sub_pass w (mul_pass q1 v 0) 0 = (w1, sb)" by force
  obtain w2 q2 where r: "(w2, q2) = (if sb \<noteq> 0 then (add_pass w1 v 0, q1 - 1) else (w1, q1))" by force
  note win = subtract_window [OF q l v sp r]
  have d: "unat (ucast q2 :: u64) = lval w div lval v"
    using win(3) less by (simp add: less_mult_imp_div_less)
  have "lval w2 + unat (ucast q2 :: u64) * lval v = lval (take (?n + 1) (drop j u))" "lval w2 < lval v"
    unfolding w_def [symmetric] d win(2) using v by simp_all
  note upd = window_update [OF inv _ j this]
  have "(knuth_step v j u :: (limbs \<times> u64, 'e) outcome) = Ok (take j u @ w2 @ drop (j + ?n + 1) u, ucast q2)"
  proof -
    have ge: "2 \<le> j + ?n" using n by simp
    show ?thesis
      by (simp only: knuth_step_def Let_def nth w_def [symmetric] q0 bind_ok_simps ge if_True
          q1 [symmetric] sp prod.case r [symmetric])
  qed
  then show ?thesis using upd win(1) l by auto
qed

text \<open>The digits found so far times the divisor, plus what is left, is the dividend.\<close>

lemma knuth_loop_val:
  assumes n: "2 \<le> length v" and top: "v ! (length v - 1) \<noteq> 0"
  shows "j + length v \<le> length u \<Longrightarrow> j \<le> length q \<Longrightarrow> lval (drop j u) < lval v \<Longrightarrow>
    (\<forall>i<j. q ! i = 0) \<Longrightarrow>
    \<exists>u' q'. (knuth_loop v j u q :: (limbs \<times> limbs, 'e) outcome) = Ok (u', q') \<and> length u' = length u \<and>
      length q' = length q \<and> lval u' < lval v \<and> lval u + lval q * lval v = lval u' + lval q' * lval v"
proof (induction j arbitrary: u q)
  case 0
  then show ?case by simp
next
  case (Suc j)
  have "j + length v < length u" using Suc.prems(1) by simp
  from knuth_step_val [OF n top this Suc.prems(3)] obtain u' d where
    st: "(knuth_step v j u :: (limbs \<times> u64, 'e) outcome) = Ok (u', d)" and l: "length u' = length u"
    and inv: "lval (drop j u') < lval v" and eq: "lval u = lval u' + LB ^ j * unat d * lval v" by blast
  have "lval (q[j := d]) = lval q + LB ^ j * unat d"
    using lval_update [of j q d] Suc.prems(2,4) by simp
  then have tot: "lval u + lval q * lval v = lval u' + lval (q[j := d]) * lval v"
    using eq by (simp add: distrib_right)
  have "\<exists>u'' q''. (knuth_loop v j u' (q[j := d]) :: (limbs \<times> limbs, 'e) outcome) = Ok (u'', q'') \<and>
      length u'' = length u' \<and> length q'' = length (q[j := d]) \<and> lval u'' < lval v \<and>
      lval u' + lval (q[j := d]) * lval v = lval u'' + lval q'' * lval v"
    using Suc.prems l inv by (intro Suc.IH) simp_all
  then show ?case using st tot l by auto
qed

lemma shifted_divisor_top:
  assumes "divisor \<noteq> []" "last divisor \<noteq> 0"
  defines "n \<equiv> length divisor" and "s \<equiv> leading_zeros (last divisor)"
  shows "2 ^ s * lval divisor < LB ^ n" "shl_limbs_n divisor s n ! (n - 1) \<noteq> 0"
proof -
  let ?t = "unat (last divisor)" and ?P = "LB ^ (n - 1)"
  have s: "s < 64" "?t * 2 ^ s < LB"
    using leading_zeros_shift [OF assms(2)] by (simp_all add: s_def)
  have P: "LB ^ n = LB * ?P" using assms(1) by (cases divisor) (simp_all add: n_def)
  have "lval divisor = lval (butlast divisor) + ?P * ?t"
    using lval_snoc [of "butlast divisor" "last divisor"] assms(1) by (simp add: n_def)
  moreover have low: "lval (butlast divisor) < ?P" using lval_less [of "butlast divisor"] by (simp add: n_def)
  ultimately have lt: "lval divisor < Suc ?t * ?P" and ge: "?t * ?P \<le> lval divisor" by simp_all
  have "Suc ?t * 2 ^ s \<le> LB"
  proof -
    have "LB = 2 ^ s * 2 ^ (64 - s)" using s(1) by (simp flip: power_add)
    then have "2 ^ s * ?t < 2 ^ s * 2 ^ (64 - s)" using s(2) by (simp add: mult.commute)
    then have "2 ^ s * Suc ?t \<le> 2 ^ s * 2 ^ (64 - s)" by (intro mult_le_mono2) simp
    then show ?thesis using \<open>LB = _\<close> by (simp only: mult.commute)
  qed
  have "2 ^ s * lval divisor < 2 ^ s * (Suc ?t * ?P)" using lt by simp
  also have "\<dots> = Suc ?t * 2 ^ s * ?P" by (simp only: mult.assoc mult.left_commute)
  also have "\<dots> \<le> LB * ?P" using \<open>Suc ?t * 2 ^ s \<le> LB\<close> by (intro mult_le_mono1)
  finally show fit: "2 ^ s * lval divisor < LB ^ n" unfolding P .
  let ?v = "shl_limbs_n divisor s n"
  have v: "lval ?v = 2 ^ s * lval divisor" "length ?v = n"
    using shl_limbs_n_val [OF s(1) _ fit] by (simp_all add: n_def)
  have "0 < ?t" using assms(2) unat_gt_0 by blast
  then have "?P \<le> lval divisor" using ge by (cases ?t) simp_all
  then have "?P \<le> lval ?v" unfolding v(1) by (simp add: le_trans)
  then have "0 < lval ?v div ?P" by (simp add: div_greater_zero_iff)
  moreover have "lval ?v div ?P = unat (?v ! (n - 1))"
  proof -
    have "n - 1 < length ?v" using v(2) assms(1) by (simp add: n_def)
    then have "lval (drop (n - 1) ?v) = unat (?v ! (n - 1))"
      using lval_drop [of "n - 1" ?v] v(2) by (simp add: limb_get_def)
    then show ?thesis by (simp add: lval_drop_div)
  qed
  ultimately show "?v ! (n - 1) \<noteq> 0" by auto
qed

lemma normalised_operands:
  assumes "2 \<le> length b" "length b \<le> length a" "last b \<noteq> 0"
  defines "n \<equiv> length b" and "s \<equiv> leading_zeros (last b)"
  defines "v \<equiv> shl_limbs_n b s n" and "u \<equiv> shl_limbs_n a s (length a + 1)"
  shows "s < 64" "length v = n" "v ! (n - 1) \<noteq> 0" "lval v = 2 ^ s * lval b"
    "length u = length a + 1" "lval u = 2 ^ s * lval a" "lval (drop (length a - n + 1) u) < lval v"
proof -
  let ?m = "length a - n"
  have b: "b \<noteq> []" using assms(1) by auto
  show s: "s < 64" using leading_zeros_shift [OF assms(3)] by (simp add: s_def)
  have fit: "2 ^ s * lval b < LB ^ n" and vt: "v ! (n - 1) \<noteq> 0"
    using shifted_divisor_top [OF b assms(3)] by (simp_all add: n_def s_def v_def)
  show "v ! (n - 1) \<noteq> 0" by (rule vt)
  show v: "length v = n" "lval v = 2 ^ s * lval b"
    using shl_limbs_n_val [OF s _ fit] by (simp_all add: n_def v_def)
  have "2 ^ s * lval a \<le> 2 ^ 64 * lval a" using s by (intro mult_le_mono1 power_increasing) simp_all
  also have "\<dots> < 2 ^ 64 * LB ^ length a" using lval_less [of a] by simp
  finally have fu: "2 ^ s * lval a < LB ^ (length a + 1)" by simp
  show u: "length u = length a + 1" "lval u = 2 ^ s * lval a"
    using shl_limbs_n_val [OF s _ fu] by (simp_all add: u_def)
  have bp: "LB ^ (n - 1) \<le> lval b" using normal_lval_ge [of b] b assms(1,3) by (simp add: normal_def n_def)
  have "length a = (?m + 1) + (n - 1)" using assms(1,2) by (simp add: n_def)
  then have "lval a < LB ^ ((?m + 1) + (n - 1))" using lval_less [of a] by (simp only:)
  then have "lval a < LB ^ (?m + 1) * LB ^ (n - 1)" by (simp only: power_add)
  also have "\<dots> \<le> LB ^ (?m + 1) * lval b" using bp by (rule mult_le_mono2)
  finally have "2 ^ s * lval a < 2 ^ s * (LB ^ (?m + 1) * lval b)" by simp
  then have "lval u < LB ^ (?m + 1) * lval v" by (simp add: u v mult.left_commute)
  then show "lval (drop (?m + 1) u) < lval v" by (simp add: lval_drop_div less_mult_imp_div_less mult.commute)
qed

lemma knuth_d_val:
  assumes n: "2 \<le> length b" "length b \<le> length a" and top: "last b \<noteq> 0"
  shows "\<exists>q r. (knuth_d a b :: (limbs \<times> limbs, 'e) outcome) = Ok (q, r) \<and> normal q \<and> normal r \<and>
    lval q = lval a div lval b \<and> lval r = lval a mod lval b"
proof -
  define n m where "n = length b" and "m = length a - length b"
  define s where "s = leading_zeros (last b)"
  define v u where "v = shl_limbs_n b s n" and "u = shl_limbs_n a s (length a + 1)"
  note op = normalised_operands [OF assms, folded n_def s_def, folded v_def u_def]
  have la: "length a = n + m" "2 \<le> n" using n by (simp_all add: n_def m_def)
  define z where "z = replicate (m + 1) (0 :: u64)"
  have z: "length z = m + 1" "lval z = 0" "\<And>i. i < m + 1 \<Longrightarrow> z ! i = 0"
    unfolding z_def by (simp_all only: length_replicate lval_replicate_0 nth_replicate)
  have "\<exists>u' q. (knuth_loop v (m + 1) u z :: (limbs \<times> limbs, 'e) outcome) = Ok (u', q) \<and> length u' = length u \<and>
      length q = length z \<and> lval u' < lval v \<and> lval u + lval z * lval v = lval u' + lval q * lval v"
    using op la z by (intro knuth_loop_val) simp_all
  then obtain u' q where lp: "(knuth_loop v (m + 1) u z :: (limbs \<times> limbs, 'e) outcome) = Ok (u', q)"
    and l: "length u' = n + m + 1" "length q = m + 1"
    and r: "lval u' < lval v" and eq: "lval u = lval u' + lval q * lval v"
    unfolding z(1,2) op(5) la(1) by fastforce
  have tk: "lval (take n u') = lval u'"
    using r lval_less [of v] op(2) by (simp add: lval_take_mod)
  have "lval u' = lval u mod lval v" "lval q = lval u div lval v" using eq r by simp_all
  then have "lval u' = 2 ^ s * (lval a mod lval b)" and q: "lval q = lval a div lval b"
    unfolding op(4,6) by (simp_all only: mult_mod_right) simp
  moreover have "take n u' \<noteq> []" using l la by auto
  ultimately have "lval (shr_limbs_n (take n u') s) = lval a mod lval b \<and> normal (shr_limbs_n (take n u') s)"
    using shr_limbs_n_val [OF op(1), of "take n u'"] tk by simp
  moreover have "normal (trim q)" using l(2) by (intro trim_normal) auto
  moreover have "(knuth_d a b :: (limbs \<times> limbs, 'e) outcome) = Ok (trim q, shr_limbs_n (take n u') s)"
  proof -
    have "b \<noteq> []" using n by auto
    then have "b ! (length b - 1) = last b" by (simp add: last_conv_nth)
    then show ?thesis
      using n lp by (simp add: knuth_d_def Let_def n_def m_def s_def v_def u_def z_def
          del: knuth_loop.simps replicate_Suc)
  qed
  ultimately show ?thesis using q by simp
qed

subsection \<open>The contract of a divider\<close>

definition signed :: "bool \<Rightarrow> limbs \<Rightarrow> int" where
  "signed s xs = (if s then - int (lval xs) else int (lval xs))"

text \<open>
  A divider returns normal quotient and remainder vectors for all operands it is called on.
  Putting the signs on them the way \<open>bigint_divmod\<close> does gives the truncated quotient and the
  remainder with the sign of the dividend.
\<close>

locale magnitude_divider =
  fixes divide :: "limbs \<Rightarrow> limbs \<Rightarrow> (limbs \<times> limbs, 'e) outcome"
    and admissible :: "limbs \<Rightarrow> limbs \<Rightarrow> bool"
  assumes divides: "admissible a b \<Longrightarrow> \<exists>q r. divide a b = Ok (q, r) \<and> normal q \<and> normal r \<and>
    lval q = lval a div lval b \<and> lval r = lval a mod lval b"
begin

lemma signed_division:
  assumes "admissible a b"
  shows "\<exists>q r. divide a b = Ok (q, r) \<and> normal q \<and> normal r \<and> lval q \<le> lval a \<and> lval r \<le> lval a \<and>
    signed (sa \<noteq> sb) q = rust_div (signed sa a) (signed sb b) \<and>
    signed sa r = rust_rem (signed sa a) (signed sb b)"
proof -
  obtain q r where d: "divide a b = Ok (q, r)" "normal q" "normal r"
    and q: "lval q = lval a div lval b" and r: "lval r = lval a mod lval b"
    using divides [OF assms] by auto
  have "signed (sa \<noteq> sb) q = rust_div (signed sa a) (signed sb b)"
    by (cases "lval a = 0"; cases "lval b = 0") (auto simp: signed_def rust_div_def q sgn_if zdiv_int)
  moreover have "signed sa r = rust_rem (signed sa a) (signed sb b)"
    by (cases "lval a = 0") (auto simp: signed_def rust_rem_eq r sgn_if zmod_int)
  ultimately show ?thesis using d q r by (intro exI [of _ q] exI [of _ r]) simp
qed

end

interpretation single_limb: magnitude_divider
  "\<lambda>a b. knuth_single_limb_div a (b ! 0)" "\<lambda>a b. a \<noteq> [] \<and> length b = 1 \<and> lval b \<noteq> 0"
proof unfold_locales
  fix a b :: limbs
  assume adm: "a \<noteq> [] \<and> length b = 1 \<and> lval b \<noteq> 0"
  then obtain x where b: "b = [x]" by (cases b) auto
  with adm have "x \<noteq> 0" by auto
  then show "\<exists>q r. knuth_single_limb_div a (b ! 0) = Ok (q, r) \<and> normal q \<and> normal r \<and>
      lval q = lval a div lval b \<and> lval r = lval a mod lval b"
    using knuth_single_limb_div_val [of x a] adm b by simp
qed

interpretation algorithm_d: magnitude_divider
  knuth_d "\<lambda>a b. 2 \<le> length b \<and> length b \<le> length a \<and> last b \<noteq> 0"
  by unfold_locales (use knuth_d_val in blast)

end
