(* ===== verification/BigIntDet.thy ===== *)
theory BigIntDet
  imports KnuthD
begin

text \<open>
  The signed big integers of \<open>determin/src/bigint.rs\<close>: the \<open>BigInt\<close> struct, its canonical form,
  comparison, the arithmetic entry points with their \<open>NonCanonicalInput\<close>, \<open>Overflow\<close> and
  \<open>DivisionByZero\<close> traps and the 4096 bit bound, the shifts, and the conversions from and to the
  primitive integers.

  The abstraction \<open>bi_val\<close> maps a \<open>BigInt\<close> to the integer it stands for. On canonical operands
  every operation is shown to return the canonical representation of the integer result
  exactly when the code's bound allows it, and the documented error otherwise.
\<close>

subsection \<open>Data\<close>

datatype BigIntError = Overflow | DivisionByZero | NonCanonicalInput | OutOfI128Range | OutOfRange | InvalidString

record bigint =
  bi_limbs :: limbs
  bi_sign :: bool

definition mk_bigint :: "limbs \<Rightarrow> bool \<Rightarrow> bigint" where
  "mk_bigint limbs sign = \<lparr>bi_limbs = limbs, bi_sign = sign\<rparr>"

definition MAX_BIGINT_BITS :: nat where
  "MAX_BIGINT_BITS = 4096"

definition is_zero :: "bigint \<Rightarrow> bool" where
  "is_zero b \<longleftrightarrow> bi_limbs b = [0] \<and> \<not> bi_sign b"

definition bi_zero :: bigint where
  "bi_zero = mk_bigint [0] False"

definition bi_canonicalize :: "bigint \<Rightarrow> bigint" where
  "bi_canonicalize b =
     (let limbs = trim (bi_limbs b) in
      mk_bigint limbs (if limbs = [0] then False else bi_sign b))"

definition is_canonical :: "bigint \<Rightarrow> bool" where
  "is_canonical b \<longleftrightarrow>
     (if length (bi_limbs b) > 1 \<and> last (bi_limbs b) = 0 then False
      else if bi_limbs b = [0] \<and> bi_sign b then False
      else True)"

definition bit_length :: "bigint \<Rightarrow> (nat, 'e) outcome" where
  "bit_length b =
     (if is_zero b then Ok 1
      else if bi_limbs b = [] then Panic
      else let limb_bits = 64 - leading_zeros (last (bi_limbs b));
               lower_limb_bits = (length (bi_limbs b) - 1) * 64 in
           Ok (lower_limb_bits + limb_bits))"

definition magnitude_cmp :: "bigint \<Rightarrow> bigint \<Rightarrow> int" where
  "magnitude_cmp a b = limb_magnitude_cmp (bi_limbs a) (bi_limbs b)"

definition bi_compare :: "bigint \<Rightarrow> bigint \<Rightarrow> int" where
  "bi_compare a b =
     (if bi_sign a \<noteq> bi_sign b then (if bi_sign a then - 1 else 1)
      else let mag_cmp = magnitude_cmp a b in if bi_sign a then - mag_cmp else mag_cmp)"

subsection \<open>Arithmetic\<close>

definition bigint_add :: "bigint \<Rightarrow> bigint \<Rightarrow> (bigint, BigIntError) outcome" where
  "bigint_add a b =
     (if \<not> is_canonical a \<or> \<not> is_canonical b then Err BigIntError.NonCanonicalInput
      else if bi_sign a = bi_sign b then
        (let result = bi_canonicalize (mk_bigint (limb_add (bi_limbs a) (bi_limbs b)) (bi_sign a)) in
         bind_ok (bit_length result) (\<lambda>bits.
           if bits > MAX_BIGINT_BITS then Err BigIntError.Overflow else Ok result))
      else
        (let cmp = magnitude_cmp a b in
         if cmp = 0 then Ok bi_zero
         else
           (let (result_limbs, result_sign) =
                  (if cmp > 0 then (limb_sub (bi_limbs a) (bi_limbs b), bi_sign a)
                   else (limb_sub (bi_limbs b) (bi_limbs a), bi_sign b)) in
            Ok (bi_canonicalize (mk_bigint result_limbs result_sign)))))"

definition bigint_sub :: "bigint \<Rightarrow> bigint \<Rightarrow> (bigint, BigIntError) outcome" where
  "bigint_sub a b = bigint_add a (mk_bigint (bi_limbs b) (\<not> bi_sign b))"

definition bigint_mul :: "bigint \<Rightarrow> bigint \<Rightarrow> (bigint, BigIntError) outcome" where
  "bigint_mul a b =
     (if \<not> is_canonical a \<or> \<not> is_canonical b then Err BigIntError.NonCanonicalInput
      else if is_zero a \<or> is_zero b then Ok bi_zero
      else bind_ok (bit_length a) (\<lambda>a_bits.
        if a_bits > MAX_BIGINT_BITS then Err BigIntError.Overflow
        else bind_ok (bit_length b) (\<lambda>b_bits.
          if b_bits > MAX_BIGINT_BITS then Err BigIntError.Overflow
          else bind_ok (limb_mul (bi_limbs a) (bi_limbs b)) (\<lambda>result_limbs.
            let result = bi_canonicalize (mk_bigint result_limbs (bi_sign a \<noteq> bi_sign b)) in
            bind_ok (bit_length result) (\<lambda>bits.
              if bits > MAX_BIGINT_BITS then Err BigIntError.Overflow else Ok result)))))"

definition bigint_divmod :: "bigint \<Rightarrow> bigint \<Rightarrow> (bigint \<times> bigint, BigIntError) outcome" where
  "bigint_divmod a b =
     (if \<not> is_canonical a \<or> \<not> is_canonical b then Err BigIntError.NonCanonicalInput
      else if is_zero b then Err BigIntError.DivisionByZero
      else bind_ok (bit_length a) (\<lambda>a_bits.
        if a_bits > MAX_BIGINT_BITS then Err BigIntError.Overflow
        else bind_ok (bit_length b) (\<lambda>b_bits.
          if b_bits > MAX_BIGINT_BITS then Err BigIntError.Overflow
          else if magnitude_cmp a b < 0 then Ok (bi_zero, a)
          else
            bind_ok (if length (bi_limbs b) = 1
                     then knuth_single_limb_div (bi_limbs a) (bi_limbs b ! 0)
                     else knuth_d (bi_limbs a) (bi_limbs b)) (\<lambda>(q_limbs, r_limbs).
              let q_sign = (bi_sign a \<noteq> bi_sign b);
                  r_sign = bi_sign a in
              Ok (bi_canonicalize (mk_bigint q_limbs q_sign),
                  bi_canonicalize (mk_bigint r_limbs r_sign))))))"

definition bigint_div :: "bigint \<Rightarrow> bigint \<Rightarrow> (bigint, BigIntError) outcome" where
  "bigint_div a b = bind_ok (bigint_divmod a b) (\<lambda>qr. Ok (fst qr))"

definition bigint_mod :: "bigint \<Rightarrow> bigint \<Rightarrow> (bigint, BigIntError) outcome" where
  "bigint_mod a b = bind_ok (bigint_divmod a b) (\<lambda>qr. Ok (snd qr))"

definition bigint_shl_internal :: "limbs \<Rightarrow> nat \<Rightarrow> bool \<Rightarrow> bigint" where
  "bigint_shl_internal limbs bit_shift sign = mk_bigint (bigint_shl_limbs limbs bit_shift) sign"

definition bigint_shl :: "bigint \<Rightarrow> nat \<Rightarrow> (bigint, BigIntError) outcome" where
  "bigint_shl a shift =
     (if \<not> is_canonical a then Err BigIntError.NonCanonicalInput
      else if shift = 0 then Ok a
      else bind_ok (bit_length a) (\<lambda>bits.
        if (bits + shift) mod 2 ^ 64 > MAX_BIGINT_BITS then Err BigIntError.Overflow
        else Ok (bi_canonicalize (bigint_shl_internal (bi_limbs a) shift (bi_sign a)))))"

definition bigint_shr :: "bigint \<Rightarrow> nat \<Rightarrow> (bigint, BigIntError) outcome" where
  "bigint_shr a shift =
     (if \<not> is_canonical a then Err BigIntError.NonCanonicalInput
      else if shift = 0 then Ok a
      else if is_zero a then Ok bi_zero
      else if shift div 64 \<ge> length (bi_limbs a) then Ok bi_zero
      else Ok (bi_canonicalize (mk_bigint (bigint_shr_limbs (bi_limbs a) shift) (bi_sign a))))"

subsection \<open>Conversions\<close>

definition bigint_from_i64 :: "int \<Rightarrow> bigint" where
  "bigint_from_i64 n =
     (if n = 0 then bi_zero
      else bi_canonicalize (mk_bigint [word_of_int \<bar>n\<bar>] (n < 0)))"

definition bigint_to_i64 :: "bigint \<Rightarrow> (int, BigIntError) outcome" where
  "bigint_to_i64 b =
     (if length (bi_limbs b) > 1 then Err BigIntError.OutOfRange
      else let mag = int (unat (limb_get (bi_limbs b) 0)) in
        if bi_sign b then
          (if mag > 9223372036854775808 then Err BigIntError.OutOfRange else Ok (as_i64 (- as_i64 mag)))
        else (if mag > 9223372036854775807 then Err BigIntError.OutOfRange else Ok (as_i64 mag)))"

definition two_limbs :: "u128 \<Rightarrow> limbs" where
  "two_limbs mag =
     (let lo = ucast mag; hi = ucast (drop_bit 64 mag) in if hi = 0 then [lo] else [lo, hi])"

definition bigint_from_i128 :: "int \<Rightarrow> bigint" where
  "bigint_from_i128 n =
     (if n = 0 then bi_zero
      else bi_canonicalize (mk_bigint (two_limbs (word_of_int \<bar>n\<bar>)) (n < 0)))"

definition two_limb_mag :: "limbs \<Rightarrow> u128" where
  "two_limb_mag limbs = push_bit 64 (ucast (limb_get limbs 1)) OR ucast (limb_get limbs 0)"

definition bigint_to_i128 :: "bigint \<Rightarrow> (int, BigIntError) outcome" where
  "bigint_to_i128 b =
     (if length (bi_limbs b) > 2 then Err BigIntError.OutOfI128Range
      else let mag = int (unat (two_limb_mag (bi_limbs b))) in
        if bi_sign b then
          (if mag > 170141183460469231731687303715884105728 then Err BigIntError.OutOfI128Range
           else Ok (as_i128 (- as_i128 mag)))
        else (if mag > 170141183460469231731687303715884105727 then Err BigIntError.OutOfI128Range
              else Ok (as_i128 mag)))"

definition bigint_from_u64 :: "u64 \<Rightarrow> bigint" where
  "bigint_from_u64 n = (if n = 0 then bi_zero else bi_canonicalize (mk_bigint [n] False))"

definition bigint_to_u64 :: "bigint \<Rightarrow> (u64, BigIntError) outcome" where
  "bigint_to_u64 b =
     (if bi_sign b then Err BigIntError.OutOfRange
      else if length (bi_limbs b) > 1 then Err BigIntError.OutOfRange
      else Ok (limb_get (bi_limbs b) 0))"

definition bigint_from_u128 :: "u128 \<Rightarrow> bigint" where
  "bigint_from_u128 n = (if n = 0 then bi_zero else bi_canonicalize (mk_bigint (two_limbs n) False))"

definition bigint_to_u128 :: "bigint \<Rightarrow> (u128, BigIntError) outcome" where
  "bigint_to_u128 b =
     (if bi_sign b then Err BigIntError.OutOfI128Range
      else if length (bi_limbs b) > 2 then Err BigIntError.OutOfI128Range
      else Ok (two_limb_mag (bi_limbs b)))"

subsection \<open>The integers a \<open>BigInt\<close> stands for\<close>

definition bi_ok :: "bigint \<Rightarrow> bool" where
  "bi_ok b \<longleftrightarrow> bi_limbs b \<noteq> [] \<and> is_canonical b"

definition bi_val :: "bigint \<Rightarrow> int" where
  "bi_val b = signed (bi_sign b) (bi_limbs b)"

definition fits :: "int \<Rightarrow> bool" where
  "fits x \<longleftrightarrow> \<bar>x\<bar> < 2 ^ 4096"

definition returns :: "(bigint, BigIntError) outcome \<Rightarrow> int \<Rightarrow> bool" where
  "returns m x \<longleftrightarrow> (case m of Ok c \<Rightarrow> bi_ok c \<and> bi_val c = x | _ \<Rightarrow> False)"

lemma returns_Ok [simp]: "returns (Ok c) x \<longleftrightarrow> bi_ok c \<and> bi_val c = x"
  by (simp add: returns_def)

lemma mk_bigint_simps [simp]: "bi_limbs (mk_bigint l s) = l" "bi_sign (mk_bigint l s) = s"
  by (simp_all add: mk_bigint_def)

lemma normal_lval_0: "normal l \<Longrightarrow> lval l = 0 \<longleftrightarrow> l = [0]"
  using normal_unique [of l "[0]"] by (auto simp: normal_def)

lemma bi_ok_iff: "bi_ok b \<longleftrightarrow> normal (bi_limbs b) \<and> (lval (bi_limbs b) = 0 \<longrightarrow> \<not> bi_sign b)"
proof -
  have "normal (bi_limbs b) \<Longrightarrow> lval (bi_limbs b) = 0 \<longleftrightarrow> bi_limbs b = [0]" by (rule normal_lval_0)
  then show ?thesis by (auto simp: bi_ok_def is_canonical_def normal_def)
qed

lemma bi_okD:
  assumes "bi_ok b"
  shows "normal (bi_limbs b)" "bi_limbs b \<noteq> []" "is_canonical b"
    "is_zero b \<longleftrightarrow> bi_val b = 0" "lval (bi_limbs b) = 0 \<longleftrightarrow> bi_val b = 0"
    "bi_sign b \<longleftrightarrow> bi_val b < 0" "int (lval (bi_limbs b)) = \<bar>bi_val b\<bar>"
proof -
  show n: "normal (bi_limbs b)" using assms by (simp add: bi_ok_iff)
  show "bi_limbs b \<noteq> []" "is_canonical b" using assms by (simp_all add: bi_ok_def)
  have s: "lval (bi_limbs b) = 0 \<longrightarrow> \<not> bi_sign b" using assms by (simp add: bi_ok_iff)
  show z: "lval (bi_limbs b) = 0 \<longleftrightarrow> bi_val b = 0" by (simp add: bi_val_def signed_def)
  show "is_zero b \<longleftrightarrow> bi_val b = 0" using normal_lval_0 [OF n] z s by (auto simp: is_zero_def)
  show "bi_sign b \<longleftrightarrow> bi_val b < 0" using s by (auto simp: bi_val_def signed_def)
  show "int (lval (bi_limbs b)) = \<bar>bi_val b\<bar>" by (simp add: bi_val_def signed_def)
qed

lemma bi_ok_unique: "bi_ok a \<Longrightarrow> bi_ok b \<Longrightarrow> bi_val a = bi_val b \<Longrightarrow> a = b"
proof -
  assume "bi_ok a" "bi_ok b" "bi_val a = bi_val b"
  then have "bi_sign a = bi_sign b" "lval (bi_limbs a) = lval (bi_limbs b)" "normal (bi_limbs a)" "normal (bi_limbs b)"
    using bi_okD [of a] bi_okD [of b] by auto
  then have "bi_limbs a = bi_limbs b" by (metis normal_unique)
  with \<open>bi_sign a = bi_sign b\<close> show ?thesis by simp
qed

lemma bi_zero_ok [simp]: "bi_ok bi_zero" "bi_val bi_zero = 0"
  by (simp_all add: bi_zero_def bi_ok_def is_canonical_def bi_val_def signed_def)

lemma bi_canonicalize_ok:
  assumes "l \<noteq> []"
  shows "bi_ok (bi_canonicalize (mk_bigint l s))" "bi_val (bi_canonicalize (mk_bigint l s)) = signed s l"
proof -
  have n: "normal (trim l)" by (rule trim_normal [OF assms])
  then show "bi_ok (bi_canonicalize (mk_bigint l s))"
    using normal_lval_0 [OF n] by (auto simp: bi_ok_iff bi_canonicalize_def Let_def)
  show "bi_val (bi_canonicalize (mk_bigint l s)) = signed s l"
    using normal_lval_0 [OF n] trim_val [of l] by (auto simp: bi_canonicalize_def bi_val_def signed_def Let_def)
qed

lemma bit_length_val:
  assumes "bi_ok b"
  shows "bit_length b = Ok (if bi_val b = 0 then 1 else bit_width (nat \<bar>bi_val b\<bar>))"
proof (cases "bi_val b = 0")
  case False
  let ?l = "bi_limbs b" and ?k = "length (bi_limbs b) - 1"
  note f = bi_okD [OF assms]
  let ?t = "unat (last ?l)"
  have v: "lval ?l = lval (butlast ?l) + LB ^ ?k * ?t" and low: "lval (butlast ?l) < LB ^ ?k"
    using lval_snoc [of "butlast ?l" "last ?l"] lval_less [of "butlast ?l"] f(2) by simp_all
  have t: "0 < ?t"
  proof (rule ccontr)
    assume "\<not> 0 < ?t"
    then have "last ?l = 0" using unat_gt_0 [of "last ?l"] by metis
    then have "length ?l = 1" using f(1,2) by (cases "length ?l") (auto simp: normal_def)
    then have "?l = [0]" using \<open>last ?l = 0\<close> by (cases ?l) auto
    then show False using f(5) False by simp
  qed
  have w: "2 ^ (bit_width ?t - 1) \<le> ?t" "?t < 2 ^ bit_width ?t" using bit_width_bounds [of ?t] t by auto
  have P: "LB ^ ?k = 2 ^ (64 * ?k)" by (simp add: power_mult)
  have wpos: "0 < bit_width ?t" using t by (simp add: bit_width.simps [of ?t])
  have "lval ?l < LB ^ ?k * Suc ?t" using v low by simp
  also have "\<dots> \<le> LB ^ ?k * 2 ^ bit_width ?t" using w(2) by (intro mult_le_mono2) simp
  also have "\<dots> = 2 ^ (?k * 64 + bit_width ?t)" by (simp only: P power_add mult.commute [of 64])
  finally have up: "bit_width (lval ?l) \<le> ?k * 64 + bit_width ?t" by (rule bit_width_le)
  have e: "?k * 64 + bit_width ?t - 1 = 64 * ?k + (bit_width ?t - 1)" using wpos by simp
  have "2 ^ (?k * 64 + bit_width ?t - 1) = LB ^ ?k * 2 ^ (bit_width ?t - 1)"
    by (simp only: e P power_add)
  also have "\<dots> \<le> LB ^ ?k * ?t" using w(1) by (rule mult_le_mono2)
  also have "\<dots> \<le> lval ?l" using v by simp
  also have "lval ?l < 2 ^ bit_width (lval ?l)" using bit_width_bounds [of "lval ?l"] f(5) False by simp
  finally have "?k * 64 + bit_width ?t - 1 < bit_width (lval ?l)" by simp
  with up have "bit_width (lval ?l) = ?k * 64 + bit_width ?t" by simp
  moreover have "nat \<bar>bi_val b\<bar> = lval ?l" using f(7) by simp
  moreover have "64 - leading_zeros (last ?l) = bit_width ?t"
    using bit_width_u64 [of "last ?l"] by (simp add: leading_zeros_def)
  ultimately show ?thesis using False f(2,4) by (simp add: bit_length_def Let_def)
qed (use assms bi_okD(4) in \<open>simp add: bit_length_def\<close>)

lemma bit_width_fits: "x \<noteq> 0 \<Longrightarrow> bit_width (nat \<bar>x\<bar>) \<le> k \<longleftrightarrow> \<bar>x\<bar> < 2 ^ k"
proof -
  assume "x \<noteq> 0"
  then have "nat \<bar>x\<bar> < 2 ^ bit_width (nat \<bar>x\<bar>)" using bit_width_bounds [of "nat \<bar>x\<bar>"] by simp
  then have "bit_width (nat \<bar>x\<bar>) \<le> k \<Longrightarrow> nat \<bar>x\<bar> < 2 ^ k"
    by (elim less_le_trans) (simp add: power_increasing)
  then have "bit_width (nat \<bar>x\<bar>) \<le> k \<longleftrightarrow> nat \<bar>x\<bar> < 2 ^ k" using bit_width_le by blast
  also have "\<dots> \<longleftrightarrow> \<bar>x\<bar> < 2 ^ k" by (simp add: nat_less_iff)
  finally show ?thesis .
qed

text \<open>The overflow guard of every operation: the bit length of a value exceeds 4096.\<close>

lemma bound_check:
  assumes "bi_ok r"
  shows "bind_ok (bit_length r) (\<lambda>bits. if bits > MAX_BIGINT_BITS then Err e else m)
    = (if fits (bi_val r) then m else Err e)"
proof (cases "bi_val r = 0")
  case True
  then show ?thesis by (simp add: bit_length_val [OF assms] MAX_BIGINT_BITS_def fits_def)
next
  case False
  then show ?thesis
    using bit_width_fits [OF False, of 4096]
    by (simp add: bit_length_val [OF assms] MAX_BIGINT_BITS_def fits_def linorder_not_le [symmetric] del: power_numeral)
qed

lemma magnitude_cmp_val:
  "bi_ok a \<Longrightarrow> bi_ok b \<Longrightarrow> magnitude_cmp a b = sgn (\<bar>bi_val a\<bar> - \<bar>bi_val b\<bar>)"
  using bi_okD(1,7) [of a] bi_okD(1,7) [of b] by (simp add: magnitude_cmp_def limb_magnitude_cmp_val)

lemma fits_le: "\<bar>x\<bar> \<le> \<bar>y\<bar> \<Longrightarrow> fits y \<Longrightarrow> fits x"
  by (simp add: fits_def)

text \<open>Subtraction of magnitudes, the larger first.\<close>

lemma signed_limb_sub:
  assumes "bi_ok a" "bi_ok b" "\<bar>bi_val b\<bar> < \<bar>bi_val a\<bar>"
  shows "bi_ok (bi_canonicalize (mk_bigint (limb_sub (bi_limbs a) (bi_limbs b)) s))"
    "bi_val (bi_canonicalize (mk_bigint (limb_sub (bi_limbs a) (bi_limbs b)) s))
       = (if s then \<bar>bi_val b\<bar> - \<bar>bi_val a\<bar> else \<bar>bi_val a\<bar> - \<bar>bi_val b\<bar>)"
proof -
  note f = bi_okD [OF assms(1)] bi_okD [OF assms(2)]
  have le: "lval (bi_limbs b) < lval (bi_limbs a)" using f(7,14) assms(3) by simp
  have "length (bi_limbs b) \<le> length (bi_limbs a)"
    using normal_length_less [OF f(8), of "bi_limbs a"] f(2) le by (meson linorder_not_le less_asym)
  with le have v: "lval (limb_sub (bi_limbs a) (bi_limbs b)) = lval (bi_limbs a) - lval (bi_limbs b)"
    and l: "length (limb_sub (bi_limbs a) (bi_limbs b)) = length (bi_limbs a)"
    using limb_sub_val [of "bi_limbs b" "bi_limbs a"] by simp_all
  have ne: "limb_sub (bi_limbs a) (bi_limbs b) \<noteq> []" using l f(2) by auto
  show "bi_ok (bi_canonicalize (mk_bigint (limb_sub (bi_limbs a) (bi_limbs b)) s))"
    by (rule bi_canonicalize_ok(1) [OF ne])
  show "bi_val (bi_canonicalize (mk_bigint (limb_sub (bi_limbs a) (bi_limbs b)) s))
       = (if s then \<bar>bi_val b\<bar> - \<bar>bi_val a\<bar> else \<bar>bi_val a\<bar> - \<bar>bi_val b\<bar>)"
    using le f(7,14) by (simp add: bi_canonicalize_ok(2) [OF ne] signed_def v of_nat_diff)
qed

lemma bi_compare_val:
  assumes "bi_ok a" "bi_ok b"
  shows "bi_compare a b = sgn (bi_val a - bi_val b)"
  using magnitude_cmp_val [OF assms] bi_okD(6) [OF assms(1)] bi_okD(6) [OF assms(2)]
  by (auto simp: bi_compare_def Let_def sgn_if)

lemma bigint_add_val:
  assumes ok: "bi_ok a" "bi_ok b"
  shows "if bi_sign a \<noteq> bi_sign b \<or> fits (bi_val a + bi_val b)
    then returns (bigint_add a b) (bi_val a + bi_val b)
    else bigint_add a b = Err BigIntError.Overflow"
proof (cases "bi_sign a = bi_sign b")
  case True
  let ?r = "bi_canonicalize (mk_bigint (limb_add (bi_limbs a) (bi_limbs b)) (bi_sign a))"
  have ne: "limb_add (bi_limbs a) (bi_limbs b) \<noteq> []"
    using length_limb_add [of "bi_limbs a" "bi_limbs b"] by auto
  have r: "bi_ok ?r" "bi_val ?r = bi_val a + bi_val b"
    using bi_canonicalize_ok [OF ne] True by (auto simp: signed_def limb_add_val bi_val_def)
  show ?thesis
    using True ok r by (simp add: bigint_add_def bi_okD(3) Let_def bound_check)
next
  case False
  note c = magnitude_cmp_val [OF ok] and f = bi_okD(3,6) [OF ok(1)] bi_okD(3,6) [OF ok(2)]
  consider "\<bar>bi_val a\<bar> = \<bar>bi_val b\<bar>" | "\<bar>bi_val b\<bar> < \<bar>bi_val a\<bar>" | "\<bar>bi_val a\<bar> < \<bar>bi_val b\<bar>" by linarith
  then show ?thesis
  proof cases
    case 1
    then have "bi_val a + bi_val b = 0" using False f by auto
    with 1 False f c show ?thesis by (simp add: bigint_add_def)
  next
    case 2
    then show ?thesis
      using False f c signed_limb_sub [OF ok 2, of "bi_sign a"] by (auto simp: bigint_add_def Let_def)
  next
    case 3
    then show ?thesis
      using False f c signed_limb_sub [OF ok(2,1) 3, of "bi_sign b"] by (auto simp: bigint_add_def Let_def)
  qed
qed

lemma bigint_sub_val:
  assumes ok: "bi_ok a" "bi_ok b" and nz: "bi_val b \<noteq> 0"
  shows "if bi_sign a = bi_sign b \<or> fits (bi_val a - bi_val b)
    then returns (bigint_sub a b) (bi_val a - bi_val b)
    else bigint_sub a b = Err BigIntError.Overflow"
proof -
  let ?n = "mk_bigint (bi_limbs b) (\<not> bi_sign b)"
  have "bi_ok ?n" using ok(2) nz bi_okD(5) [OF ok(2)] by (simp add: bi_ok_iff)
  moreover have "bi_val ?n = - bi_val b" by (simp add: bi_val_def signed_def)
  ultimately show ?thesis using bigint_add_val [OF ok(1), of ?n] by (auto simp: bigint_sub_def)
qed

lemma signed_mult: "lval l = lval x * lval y \<Longrightarrow> signed (sx \<noteq> sy) l = signed sx x * signed sy y"
  by (auto simp: signed_def)

lemma fits_mult: "x \<noteq> 0 \<Longrightarrow> y \<noteq> 0 \<Longrightarrow> fits (x * y) \<Longrightarrow> fits x \<and> fits y"
proof -
  assume nz: "x \<noteq> 0" "y \<noteq> 0" and f: "fits (x * y)"
  have "\<bar>x\<bar> * 1 \<le> \<bar>x\<bar> * \<bar>y\<bar>" "1 * \<bar>y\<bar> \<le> \<bar>x\<bar> * \<bar>y\<bar>"
    using nz by (intro mult_mono; simp)+
  then show ?thesis using f fits_le [of x "x * y"] fits_le [of y "x * y"] by (simp add: abs_mult)
qed

lemma bigint_mul_val:
  assumes ok: "bi_ok a" "bi_ok b"
  shows "if fits (bi_val a * bi_val b) then returns (bigint_mul a b) (bi_val a * bi_val b)
    else bigint_mul a b = Err BigIntError.Overflow"
proof (cases "bi_val a = 0 \<or> bi_val b = 0")
  case True
  then show ?thesis using ok by (auto simp: bigint_mul_def bi_okD(3,4) fits_def)
next
  case False
  obtain l where l: "(limb_mul (bi_limbs a) (bi_limbs b) :: (limbs, BigIntError) outcome) = Ok l"
    "length l = length (bi_limbs a) + length (bi_limbs b)" "lval l = lval (bi_limbs a) * lval (bi_limbs b)"
    using limb_mul_val [of "bi_limbs a" "bi_limbs b"] by blast
  let ?r = "bi_canonicalize (mk_bigint l (bi_sign a \<noteq> bi_sign b))"
  have ne: "l \<noteq> []" using l(2) bi_okD(2) [OF ok(1)] by auto
  have r: "bi_ok ?r" "bi_val ?r = bi_val a * bi_val b"
    unfolding bi_canonicalize_ok(2) [OF ne] signed_mult [OF l(3)] using bi_canonicalize_ok(1) [OF ne]
    by (simp_all add: bi_val_def)
  have "bigint_mul a b = (if fits (bi_val a) then if fits (bi_val b) then
      if fits (bi_val ?r) then Ok ?r else Err BigIntError.Overflow
      else Err BigIntError.Overflow else Err BigIntError.Overflow)"
    using False ok r(1) by (simp add: bigint_mul_def bi_okD(3,4) bound_check l(1) Let_def)
  then show ?thesis using r fits_mult [of "bi_val a" "bi_val b"] False by auto
qed

definition returns2 :: "(bigint \<times> bigint, BigIntError) outcome \<Rightarrow> int \<Rightarrow> int \<Rightarrow> bool" where
  "returns2 m x y \<longleftrightarrow>
     (case m of Ok (c, d) \<Rightarrow> bi_ok c \<and> bi_val c = x \<and> bi_ok d \<and> bi_val d = y | _ \<Rightarrow> False)"

text \<open>
  The two dividers are used through their contract only.
\<close>

lemma divider_choice:
  assumes ok: "bi_ok a" "bi_ok b" and nz: "bi_val b \<noteq> 0" and ge: "\<bar>bi_val b\<bar> \<le> \<bar>bi_val a\<bar>"
  shows "\<exists>q r. ((if length (bi_limbs b) = 1 then knuth_single_limb_div (bi_limbs a) (bi_limbs b ! 0)
      else knuth_d (bi_limbs a) (bi_limbs b)) :: (limbs \<times> limbs, BigIntError) outcome) = Ok (q, r) \<and>
    normal q \<and> normal r \<and> signed (bi_sign a \<noteq> bi_sign b) q = rust_div (bi_val a) (bi_val b) \<and>
    signed (bi_sign a) r = rust_rem (bi_val a) (bi_val b)"
proof (cases "length (bi_limbs b) = 1")
  case True
  then show ?thesis
    using single_limb.signed_division [of "bi_limbs a" "bi_limbs b" "bi_sign a" "bi_sign b"]
      bi_okD(2) [OF ok(1)] bi_okD(5) [OF ok(2)] nz
    by (auto simp: bi_val_def)
next
  case False
  note f = bi_okD [OF ok(1)] bi_okD [OF ok(2)]
  have "2 \<le> length (bi_limbs b)" using False f(9) by (cases "bi_limbs b") (auto simp: Suc_le_eq)
  moreover have "length (bi_limbs b) \<le> length (bi_limbs a)"
    using normal_length_less [OF f(8), of "bi_limbs a"] f(2,7,14) ge by linarith
  moreover have "last (bi_limbs b) \<noteq> 0" using f(8) calculation(1) by (auto simp: normal_def)
  ultimately show ?thesis
    using algorithm_d.signed_division [of "bi_limbs b" "bi_limbs a" "bi_sign a" "bi_sign b"] False
    by (auto simp: bi_val_def)
qed

lemma bigint_divmod_val:
  assumes ok: "bi_ok a" "bi_ok b"
  shows "if bi_val b = 0 then bigint_divmod a b = Err BigIntError.DivisionByZero
    else if \<not> fits (bi_val a) \<or> \<not> fits (bi_val b) then bigint_divmod a b = Err BigIntError.Overflow
    else returns2 (bigint_divmod a b) (rust_div (bi_val a) (bi_val b)) (rust_rem (bi_val a) (bi_val b))"
proof -
  note f = bi_okD(3,4) [OF ok(1)] bi_okD(3,4) [OF ok(2)] and c = magnitude_cmp_val [OF ok]
  consider (z) "bi_val b = 0" | (o) "bi_val b \<noteq> 0" "\<not> fits (bi_val a) \<or> \<not> fits (bi_val b)"
    | (lt) "bi_val b \<noteq> 0" "fits (bi_val a)" "fits (bi_val b)" "\<bar>bi_val a\<bar> < \<bar>bi_val b\<bar>"
    | (ge) "bi_val b \<noteq> 0" "fits (bi_val a)" "fits (bi_val b)" "\<bar>bi_val b\<bar> \<le> \<bar>bi_val a\<bar>"
    by linarith
  then show ?thesis
  proof cases
    case z
    then show ?thesis using f by (simp add: bigint_divmod_def)
  next
    case o
    then show ?thesis using f ok by (auto simp: bigint_divmod_def bound_check)
  next
    case lt
    then have "rust_div (bi_val a) (bi_val b) = 0" by (simp add: rust_div_def)
    moreover from this have "rust_rem (bi_val a) (bi_val b) = bi_val a" by (simp add: rust_rem_def)
    ultimately show ?thesis
      using lt f ok c by (simp add: bigint_divmod_def bound_check returns2_def)
  next
    case ge
    obtain q r where d: "((if length (bi_limbs b) = 1 then knuth_single_limb_div (bi_limbs a) (bi_limbs b ! 0)
      else knuth_d (bi_limbs a) (bi_limbs b)) :: (limbs \<times> limbs, BigIntError) outcome) = Ok (q, r)"
      and n: "normal q" "normal r"
      and v: "signed (bi_sign a \<noteq> bi_sign b) q = rust_div (bi_val a) (bi_val b)"
        "signed (bi_sign a) r = rust_rem (bi_val a) (bi_val b)"
      using divider_choice [OF ok ge(1,4)] by blast
    have "bigint_divmod a b = Ok (bi_canonicalize (mk_bigint q (bi_sign a \<noteq> bi_sign b)),
        bi_canonicalize (mk_bigint r (bi_sign a)))"
      using ge f ok c unfolding bigint_divmod_def d by (simp add: bound_check Let_def)
    then show ?thesis using ge n v bi_canonicalize_ok [of q] bi_canonicalize_ok [of r]
      by (simp add: returns2_def normal_def)
  qed
qed

lemma bigint_shr_val:
  assumes "bi_ok a"
  shows "returns (bigint_shr a s) (rust_div (bi_val a) (2 ^ s))"
proof -
  note f = bi_okD [OF assms]
  have v: "rust_div (bi_val a) (2 ^ s) = (if bi_sign a then - int (lval (bi_limbs a) div 2 ^ s) else int (lval (bi_limbs a) div 2 ^ s))"
    by (cases "lval (bi_limbs a) = 0") (auto simp: bi_val_def signed_def rust_div_def sgn_if zdiv_int)
  consider "s = 0" | "0 < s" "bi_val a = 0" | "0 < s" "bi_val a \<noteq> 0" "length (bi_limbs a) \<le> s div 64"
    | "0 < s" "bi_val a \<noteq> 0" "s div 64 < length (bi_limbs a)" by linarith
  then show ?thesis
  proof cases
    case 1
    then show ?thesis using assms f(3) by (simp add: bigint_shr_def)
  next
    case 2
    then show ?thesis using f by (simp add: bigint_shr_def rust_div_def)
  next
    case 3
    have "lval (bi_limbs a) < LB ^ (s div 64)" using lval_less [of "bi_limbs a"] 3(3) by (elim less_le_trans) simp
    also have "LB ^ (s div 64) = 2 ^ (64 * (s div 64))" by (simp add: power_mult)
    also have "\<dots> \<le> 2 ^ s" by (intro power_increasing) simp_all
    finally show ?thesis using 3 f v by (simp add: bigint_shr_def)
  next
    case 4
    have "bigint_shr_limbs (bi_limbs a) s \<noteq> []" using bigint_shr_limbs_val(2) [OF 4(3)] 4(3) by auto
    from bi_canonicalize_ok [OF this] show ?thesis
      using 4 f v by (simp add: bigint_shr_def signed_def bigint_shr_limbs_val(1))
  qed
qed

lemma shl_bound:
  assumes "x \<noteq> 0"
  shows "bit_width (nat \<bar>x\<bar>) + s \<le> k \<longleftrightarrow> \<bar>x * 2 ^ s\<bar> < 2 ^ k"
proof (cases "s \<le> k")
  case True
  have "bit_width (nat \<bar>x\<bar>) + s \<le> k \<longleftrightarrow> bit_width (nat \<bar>x\<bar>) \<le> k - s" using True by linarith
  also have "\<dots> \<longleftrightarrow> \<bar>x\<bar> < 2 ^ (k - s)" by (rule bit_width_fits [OF assms])
  also have "\<dots> \<longleftrightarrow> \<bar>x\<bar> * 2 ^ s < 2 ^ (k - s) * 2 ^ s" by simp
  also have "(2 :: int) ^ (k - s) * 2 ^ s = 2 ^ k" using True by (simp flip: power_add)
  finally show ?thesis by (simp add: abs_mult)
next
  case False
  have "(2 :: int) ^ k \<le> 2 ^ s" using False by (intro power_increasing) simp_all
  also have "1 * 2 ^ s \<le> \<bar>x\<bar> * 2 ^ s" using assms by (intro mult_right_mono) simp_all
  finally show ?thesis using False by (simp add: abs_mult)
qed

lemma bigint_shl_val:
  assumes "bi_ok a" "fits (bi_val a)" "s < 2 ^ 63"
  shows "if s = 0 \<or> (if bi_val a = 0 then s < 4096 else fits (bi_val a * 2 ^ s))
    then returns (bigint_shl a s) (bi_val a * 2 ^ s)
    else bigint_shl a s = Err BigIntError.Overflow"
proof (cases "s = 0")
  case True
  then show ?thesis using assms(1) bi_okD(3) by (simp add: bigint_shl_def)
next
  case False
  note f = bi_okD [OF assms(1)]
  define bits where "bits = (if bi_val a = 0 then 1 else bit_width (nat \<bar>bi_val a\<bar>))"
  have b: "bit_length a = Ok bits" by (simp add: bit_length_val [OF assms(1)] bits_def)
  have "bits \<le> 4096" using assms(2) bit_width_fits [of "bi_val a" 4096] by (auto simp: bits_def fits_def simp del: power_numeral)
  then have nw: "(bits + s) mod 2 ^ 64 = bits + s" using assms(3) by simp
  let ?r = "bi_canonicalize (bigint_shl_internal (bi_limbs a) s (bi_sign a))"
  have ne: "bigint_shl_limbs (bi_limbs a) s \<noteq> []"
    using bigint_shl_limbs_val [of "bi_limbs a" s] bigint_shl_limbs_nonempty f(2) by blast
  have r: "bi_ok ?r" "bi_val ?r = bi_val a * 2 ^ s"
    using bi_canonicalize_ok [OF ne] by (simp_all add: bigint_shl_internal_def signed_def bi_val_def bigint_shl_limbs_val)
  have e: "bigint_shl a s = (if bits + s > 4096 then Err BigIntError.Overflow else Ok ?r)"
    using False f(3) by (simp only: bigint_shl_def b nw bind_ok_simps MAX_BIGINT_BITS_def not_True_eq_False if_False)
  have "bits + s \<le> 4096 \<longleftrightarrow> (if bi_val a = 0 then s < 4096 else fits (bi_val a * 2 ^ s))"
    using shl_bound [of "bi_val a" s 4096] by (auto simp: bits_def fits_def simp del: power_numeral)
  then show ?thesis unfolding e using r False by auto
qed

subsection \<open>Conversions\<close>

lemma unat_two_limb_mag: "unat (two_limb_mag l) = unat (limb_get l 0) + LB * unat (limb_get l 1)"
proof -
  have lt: "unat (ucast (limb_get l 1) :: u128) < LB" using unat_u64_less [of "limb_get l 1"] by simp
  show ?thesis
    using unat_push64_or [OF lt, of "limb_get l 0"] by (simp add: two_limb_mag_def)
qed

lemma lval_two_limbs: "lval (two_limbs w) = unat w" "two_limbs w \<noteq> []"
proof -
  have hi: "unat (ucast (drop_bit 64 w) :: u64) = unat w div LB"
    using unat_u128_less [of w] by (simp add: less_mult_imp_div_less)
  have "(ucast (drop_bit 64 w) :: u64) = 0 \<Longrightarrow> unat w div LB = 0" using hi by (metis unat_0)
  then show "lval (two_limbs w) = unat w" using hi by (auto simp: two_limbs_def Let_def)
  show "two_limbs w \<noteq> []" by (simp add: two_limbs_def Let_def)
qed

lemma limbs_le_2: "l \<noteq> [] \<Longrightarrow> length l \<le> 2 \<Longrightarrow> lval l = unat (limb_get l 0) + LB * unat (limb_get l 1)"
  using lval_drop [of 0 l] lval_drop [of "Suc 0" l] by simp

lemma limbs_1: "length l \<le> 1 \<Longrightarrow> lval l = unat (limb_get l 0)"
  using lval_drop [of 0 l] by simp

lemma normal_length_le:
  assumes "normal l"
  shows "length l \<le> Suc n \<longleftrightarrow> lval l < LB ^ Suc n"
proof
  assume "length l \<le> Suc n"
  then show "lval l < LB ^ Suc n" using lval_less [of l] by (elim less_le_trans) (intro power_increasing; simp)
next
  assume lt: "lval l < LB ^ Suc n"
  show "length l \<le> Suc n"
  proof (rule ccontr)
    assume a: "\<not> length l \<le> Suc n"
    then have "LB ^ Suc n \<le> LB ^ (length l - 1)" by (intro power_increasing) simp_all
    also have "\<dots> \<le> lval l" using normal_lval_ge [OF assms] a by simp
    finally show False using lt by simp
  qed
qed

lemma normal_length_le2: "normal l \<Longrightarrow> length l \<le> 2 \<longleftrightarrow> lval l < LB * LB"
  using normal_length_le [of l "Suc 0"] by (simp only: numeral_2_eq_2 power_Suc power_0 mult_1_right)

lemma as_i64_negated: "0 \<le> m \<Longrightarrow> m \<le> 9223372036854775808 \<Longrightarrow> as_i64 (- as_i64 m) = - m"
proof (cases "m = 9223372036854775808")
  case True
  show ?thesis unfolding True by (simp add: as_i64_def)
next
  case False
  assume "0 \<le> m" "m \<le> 9223372036854775808"
  then have "i64_range m" "i64_range (- m)" using False by (simp_all add: i64_range_def)
  then show ?thesis by simp
qed

lemma as_i128_negated:
  "0 \<le> m \<Longrightarrow> m \<le> 170141183460469231731687303715884105728 \<Longrightarrow> as_i128 (- as_i128 m) = - m"
proof (cases "m = 170141183460469231731687303715884105728")
  case True
  show ?thesis unfolding True by (simp add: as_i128_def)
next
  case False
  assume "0 \<le> m" "m \<le> 170141183460469231731687303715884105728"
  then have "i128_range m" "i128_range (- m)" using False by (simp_all add: i128_range_def)
  then show ?thesis by simp
qed

lemma unat_word_of_int_u64: "0 \<le> m \<Longrightarrow> m < 2 ^ 64 \<Longrightarrow> int (unat (word_of_int m :: u64)) = m"
  by (simp add: uint_word_of_int)

lemma unat_word_of_int_u128: "0 \<le> m \<Longrightarrow> m < 2 ^ 128 \<Longrightarrow> int (unat (word_of_int m :: u128)) = m"
  by (simp add: uint_word_of_int)

lemma bigint_to_i64_val:
  "bi_ok b \<Longrightarrow> bigint_to_i64 b = (if i64_range (bi_val b) then Ok (bi_val b) else Err BigIntError.OutOfRange)"
proof -
  assume ok: "bi_ok b"
  note f = bi_okD [OF ok]
  show ?thesis
  proof (cases "length (bi_limbs b) \<le> 1")
    case False
    then have "\<not> lval (bi_limbs b) < LB ^ 1" using normal_length_le [OF f(1), of 0] by simp
    then have "\<not> i64_range (bi_val b)" using f(7) by (auto simp: i64_range_def)
    with False show ?thesis by (simp add: bigint_to_i64_def)
  next
    case True
    have m: "int (unat (limb_get (bi_limbs b) 0)) = \<bar>bi_val b\<bar>" using limbs_1 [OF True] f(7) by simp
    have s: "bi_sign b \<longleftrightarrow> bi_val b < 0" by (rule f(6))
    show ?thesis
    proof (cases "bi_val b < 0")
      case neg: True
      then show ?thesis using True as_i64_negated [of "\<bar>bi_val b\<bar>"]
        unfolding bigint_to_i64_def m s Let_def by (auto simp: i64_range_def)
    next
      case False
      then show ?thesis using True as_i64_id [of "bi_val b"]
        unfolding bigint_to_i64_def m s Let_def by (auto simp: i64_range_def)
    qed
  qed
qed

lemma bigint_to_i128_val:
  "bi_ok b \<Longrightarrow> bigint_to_i128 b = (if i128_range (bi_val b) then Ok (bi_val b) else Err BigIntError.OutOfI128Range)"
proof -
  assume ok: "bi_ok b"
  note f = bi_okD [OF ok]
  show ?thesis
  proof (cases "length (bi_limbs b) \<le> 2")
    case False
    then have "\<not> lval (bi_limbs b) < LB * LB" using normal_length_le2 [OF f(1)] by blast
    then have "\<not> i128_range (bi_val b)" using f(7) by (auto simp: i128_range_def)
    with False show ?thesis by (simp add: bigint_to_i128_def)
  next
    case True
    have m: "int (unat (two_limb_mag (bi_limbs b))) = \<bar>bi_val b\<bar>"
      using limbs_le_2 [OF f(2) True] f(7) unat_two_limb_mag [of "bi_limbs b"] by simp
    have s: "bi_sign b \<longleftrightarrow> bi_val b < 0" by (rule f(6))
    show ?thesis
    proof (cases "bi_val b < 0")
      case neg: True
      then show ?thesis using True as_i128_negated [of "\<bar>bi_val b\<bar>"]
        unfolding bigint_to_i128_def m s Let_def by (auto simp: i128_range_def)
    next
      case False
      then show ?thesis using True as_i128_id [of "bi_val b"]
        unfolding bigint_to_i128_def m s Let_def by (auto simp: i128_range_def)
    qed
  qed
qed

lemma bigint_from_i64_ok: "i64_range n \<Longrightarrow> bi_ok (bigint_from_i64 n) \<and> bi_val (bigint_from_i64 n) = n"
proof -
  assume "i64_range n"
  then have "int (unat (word_of_int \<bar>n\<bar> :: u64)) = \<bar>n\<bar>" by (intro unat_word_of_int_u64) (auto simp: i64_range_def)
  then have "signed (n < 0) [word_of_int \<bar>n\<bar>] = n" unfolding signed_def by (auto simp del: word_of_int_minus)
  then show ?thesis
    using bi_canonicalize_ok [of "[word_of_int \<bar>n\<bar>]" "n < 0"] by (simp add: bigint_from_i64_def)
qed

lemma bigint_from_i128_ok: "i128_range n \<Longrightarrow> bi_ok (bigint_from_i128 n) \<and> bi_val (bigint_from_i128 n) = n"
proof -
  assume "i128_range n"
  then have "int (unat (word_of_int \<bar>n\<bar> :: u128)) = \<bar>n\<bar>" by (intro unat_word_of_int_u128) (auto simp: i128_range_def)
  then have "int (lval (two_limbs (word_of_int \<bar>n\<bar>))) = \<bar>n\<bar>" by (simp only: lval_two_limbs(1))
  then have "signed (n < 0) (two_limbs (word_of_int \<bar>n\<bar>)) = n" unfolding signed_def by (simp only:) simp
  then show ?thesis
    using bi_canonicalize_ok [OF lval_two_limbs(2), of "word_of_int \<bar>n\<bar>" "n < 0"] by (simp add: bigint_from_i128_def)
qed

lemma bigint_u64_round_trip: "bi_ok (bigint_from_u64 w) \<and> bi_val (bigint_from_u64 w) = uint w \<and> bigint_to_u64 (bigint_from_u64 w) = Ok w"
proof (cases "w = 0")
  case True
  then show ?thesis by (simp add: bigint_from_u64_def bigint_to_u64_def bi_zero_def bi_val_def signed_def bi_ok_def is_canonical_def limb_get_def)
next
  case False
  have "trim [w] = [w]" by (simp add: trim_id normal_def)
  then have "bigint_from_u64 w = mk_bigint [w] False" using False by (simp add: bigint_from_u64_def bi_canonicalize_def)
  then show ?thesis by (simp add: bigint_to_u64_def bi_val_def signed_def bi_ok_def is_canonical_def limb_get_def)
qed

lemma bigint_u128_round_trip: "bi_ok (bigint_from_u128 w) \<and> bi_val (bigint_from_u128 w) = uint w \<and> bigint_to_u128 (bigint_from_u128 w) = Ok w"
proof -
  have v: "bi_ok (bigint_from_u128 w)" "bi_val (bigint_from_u128 w) = uint w"
    using bi_canonicalize_ok [OF lval_two_limbs(2), of w False] lval_two_limbs(1) [of w]
    by (auto simp: bigint_from_u128_def signed_def)
  note f = bi_okD [OF v(1)]
  have mag: "lval (bi_limbs (bigint_from_u128 w)) = unat w" using f(7) v(2) by (metis abs_of_nonneg nat_int unat_eq_nat_uint uint_nonnegative)
  then have l: "length (bi_limbs (bigint_from_u128 w)) \<le> 2"
    using normal_length_le2 [OF f(1)] unat_u128_less [of w] by (simp only:)
  have "two_limb_mag (bi_limbs (bigint_from_u128 w)) = w"
    using limbs_le_2 [OF f(2) l] unat_two_limb_mag mag by (metis word_unat_eq_iff)
  then show ?thesis using v f(6) l by (simp add: bigint_to_u128_def)
qed

subsection \<open>Properties\<close>

text \<open>Addition of two non-empty limb vectors. A non-canonical operand is rejected; a sum of
  operands of the same sign that needs more than 4096 bits is an \<open>Overflow\<close>; in every other case
  \<open>bigint_add\<close> returns the canonical representation of the exact sum.\<close>

theorem bigint_add_correct:
  assumes "bi_limbs a \<noteq> []" "bi_limbs b \<noteq> []"
  shows "if \<not> is_canonical a \<or> \<not> is_canonical b then bigint_add a b = Err BigIntError.NonCanonicalInput
    else if bi_sign a = bi_sign b \<and> \<not> fits (bi_val a + bi_val b)
    then bigint_add a b = Err BigIntError.Overflow
    else returns (bigint_add a b) (bi_val a + bi_val b)"
proof (cases "is_canonical a \<and> is_canonical b")
  case True
  then have "bi_ok a" "bi_ok b" using assms by (simp_all add: bi_ok_def)
  from bigint_add_val [OF this] True show ?thesis by auto
qed (simp add: bigint_add_def)

theorem bigint_add_witness:
  "returns (bigint_add (mk_bigint [18446744073709551615] False) (mk_bigint [1] False)) 18446744073709551616"
  using bigint_add_correct [of "mk_bigint [18446744073709551615] False" "mk_bigint [1] False"]
  by (simp add: is_canonical_def fits_def bi_val_def signed_def)

text \<open>Subtraction of a non-zero value from a value, both canonical, returns the canonical
  representation of the exact difference, or \<open>Overflow\<close> when the operands have different signs and
  the difference needs more than 4096 bits.\<close>

theorem bigint_sub_correct:
  assumes "bi_ok a" "bi_ok b" "bi_val b \<noteq> 0"
  shows "if bi_sign a \<noteq> bi_sign b \<and> \<not> fits (bi_val a - bi_val b)
    then bigint_sub a b = Err BigIntError.Overflow
    else returns (bigint_sub a b) (bi_val a - bi_val b)"
  using bigint_sub_val [OF assms] by auto

theorem bigint_sub_witness:
  "returns (bigint_sub (mk_bigint [0, 1] False) (mk_bigint [1] False)) 18446744073709551615"
  using bigint_sub_correct [of "mk_bigint [0, 1] False" "mk_bigint [1] False"]
  by (simp add: bi_ok_def is_canonical_def fits_def bi_val_def signed_def)

text \<open>Subtracting zero from a canonical value is always an error: the negation of zero that
  \<open>bigint_sub\<close> builds has the sign bit set, and \<open>bigint_add\<close> rejects it as non-canonical.\<close>

theorem bigint_sub_zero_rejected:
  "bi_val b = 0 \<Longrightarrow> bi_ok b \<Longrightarrow> bigint_sub a b = Err BigIntError.NonCanonicalInput"
  using normal_lval_0 [of "bi_limbs b"] bi_okD [of b]
  by (simp add: bigint_sub_def bigint_add_def is_canonical_def)

theorem bigint_sub_zero_witness:
  "bigint_sub (mk_bigint [5] False) bi_zero = Err BigIntError.NonCanonicalInput"
  by (rule bigint_sub_zero_rejected) simp_all

text \<open>C29: Multiplication of canonical values returns the canonical representation of the exact
  product when the product fits into 4096 bits, and \<open>Overflow\<close> otherwise. In particular the carry
  propagation of the schoolbook loop never runs off the result vector.\<close>

theorem bigint_mul_correct:
  assumes "bi_ok a" "bi_ok b"
  shows "if fits (bi_val a * bi_val b) then returns (bigint_mul a b) (bi_val a * bi_val b)
    else bigint_mul a b = Err BigIntError.Overflow"
  by (rule bigint_mul_val [OF assms])

theorem bigint_mul_witness:
  "returns (bigint_mul (mk_bigint [18446744073709551615] True) (mk_bigint [0, 3] False)) (- 1020847100762815390334783590074175979520)"
  using bigint_mul_correct [of "mk_bigint [18446744073709551615] True" "mk_bigint [0, 3] False"]
  by (simp add: bi_ok_def is_canonical_def fits_def bi_val_def signed_def)

text \<open>C1: Division of canonical values. A zero divisor is \<open>DivisionByZero\<close>, an operand of more than
  4096 bits is \<open>Overflow\<close>, and otherwise the result is the quotient truncated towards zero and the
  remainder with the sign of the dividend, both canonical: Algorithm D with its trial digits,
  correction and add-back, and the single limb path, compute exact integer division.\<close>

theorem bigint_divmod_correct:
  assumes "bi_ok a" "bi_ok b"
  shows "if bi_val b = 0 then bigint_divmod a b = Err BigIntError.DivisionByZero
    else if \<not> fits (bi_val a) \<or> \<not> fits (bi_val b) then bigint_divmod a b = Err BigIntError.Overflow
    else returns2 (bigint_divmod a b) (rust_div (bi_val a) (bi_val b)) (rust_rem (bi_val a) (bi_val b))"
  by (rule bigint_divmod_val [OF assms])

theorem bigint_divmod_witness:
  "returns2 (bigint_divmod (mk_bigint [3, 0, 7] True) (mk_bigint [5, 2] False))
     (- 64563604257983430647) (- 9223372036854775856)"
  using bigint_divmod_correct [of "mk_bigint [3, 0, 7] True" "mk_bigint [5, 2] False"]
  by (simp add: bi_ok_def is_canonical_def fits_def bi_val_def signed_def rust_div_def rust_rem_eq)

text \<open>A left shift by fewer than \<open>2 ^ 63\<close> bits of a canonical value within the bound multiplies it
  by a power of two, or is an \<open>Overflow\<close> when the product does not fit (zero counts as one bit
  long).\<close>

theorem bigint_shl_correct:
  assumes "bi_ok a" "fits (bi_val a)" "s < 2 ^ 63"
  shows "if s = 0 \<or> (if bi_val a = 0 then s < 4096 else fits (bi_val a * 2 ^ s))
    then returns (bigint_shl a s) (bi_val a * 2 ^ s)
    else bigint_shl a s = Err BigIntError.Overflow"
  by (rule bigint_shl_val [OF assms])

theorem bigint_shl_witness: "returns (bigint_shl (mk_bigint [5] True) 65) (- 184467440737095516160)"
  using bigint_shl_correct [of "mk_bigint [5] True" 65]
  by (simp add: bi_ok_def is_canonical_def fits_def bi_val_def signed_def)

text \<open>A right shift of a canonical value returns the quotient by a power of two truncated
  towards zero, for every shift amount.\<close>

theorem bigint_shr_correct:
  assumes "bi_ok a"
  shows "returns (bigint_shr a s) (rust_div (bi_val a) (2 ^ s))"
  by (rule bigint_shr_val [OF assms])

theorem bigint_shr_witness: "returns (bigint_shr (mk_bigint [5, 3] True) 1) (- 27670116110564327426)"
  using bigint_shr_correct [of "mk_bigint [5, 3] True" 1]
  by (simp add: bi_ok_def is_canonical_def bi_val_def signed_def rust_div_def)

text \<open>\<open>compare\<close> on canonical values is the order of the integers they stand for.\<close>

theorem bigint_compare_correct:
  assumes "bi_ok a" "bi_ok b"
  shows "bi_compare a b = sgn (bi_val a - bi_val b)"
  by (rule bi_compare_val [OF assms])

theorem bigint_compare_witness: "bi_compare (mk_bigint [5] True) (mk_bigint [0, 1] True) = 1"
  using bigint_compare_correct [of "mk_bigint [5] True" "mk_bigint [0, 1] True"]
  by (simp add: bi_ok_def is_canonical_def bi_val_def signed_def)

text \<open>The conversions to \<open>i64\<close> and \<open>i128\<close> of a canonical value return the value exactly when it is
  in the range of the target type and the range error otherwise, and the conversions from \<open>i64\<close>,
  \<open>i128\<close>, \<open>u64\<close> and \<open>u128\<close> give the canonical representation of the number, from which the
  unsigned number is recovered.\<close>

theorem bigint_primitive_conversions:
  assumes "bi_ok b" "i64_range n" "i128_range m"
  shows "bigint_to_i64 b = (if i64_range (bi_val b) then Ok (bi_val b) else Err BigIntError.OutOfRange) \<and>
    bigint_to_i128 b = (if i128_range (bi_val b) then Ok (bi_val b) else Err BigIntError.OutOfI128Range) \<and>
    bi_ok (bigint_from_i64 n) \<and> bi_val (bigint_from_i64 n) = n \<and>
    bi_ok (bigint_from_i128 m) \<and> bi_val (bigint_from_i128 m) = m \<and>
    bi_ok (bigint_from_u64 w) \<and> bi_val (bigint_from_u64 w) = uint w \<and>
    bigint_to_u64 (bigint_from_u64 w) = Ok w \<and>
    bi_ok (bigint_from_u128 x) \<and> bi_val (bigint_from_u128 x) = uint x \<and>
    bigint_to_u128 (bigint_from_u128 x) = Ok x"
  using assms by (simp only: bigint_to_i64_val bigint_to_i128_val bigint_from_i64_ok bigint_from_i128_ok
      bigint_u64_round_trip bigint_u128_round_trip simp_thms)

theorem bigint_conversions_witness:
  "bigint_to_i64 (mk_bigint [9223372036854775808] True) = Ok I64_MIN
   \<and> bi_val (bigint_from_i128 (- 18446744073709551621)) = - 18446744073709551621"
  using bigint_primitive_conversions [of "mk_bigint [9223372036854775808] True" 0 "- 18446744073709551621"]
  by (simp add: bi_ok_def is_canonical_def bi_val_def signed_def i64_range_def i128_range_def)

end
