(* ===== verification/Bytes.thy ===== *)
theory Bytes
  imports Prelude
begin

text \<open>
  Byte strings of machine integers: Rust's \<open>to_le_bytes\<close>, \<open>to_be_bytes\<close>, \<open>from_le_bytes\<close>,
  \<open>from_be_bytes\<close>, \<open>swap_bytes\<close> and \<open>to_be\<close>/\<open>from_be\<close> for a host of either byte order, with
  the round-trip facts every codec of the development rests on. The locale \<open>wire_codec\<close> is
  the contract of an encoder/decoder pair; the codecs of the component theories interpret it.
\<close>

fun le_bytes :: "nat \<Rightarrow> int \<Rightarrow> u8 list" where
  "le_bytes 0 x = []"
| "le_bytes (Suc n) x = word_of_int x # le_bytes n (x div 256)"

definition be_bytes :: "nat \<Rightarrow> int \<Rightarrow> u8 list" where
  "be_bytes n x = rev (le_bytes n x)"

definition ascii_bytes :: "string \<Rightarrow> u8 list" where
  "ascii_bytes s = map (\<lambda>c. of_nat (of_char c)) s"

fun of_le_bytes :: "u8 list \<Rightarrow> int" where
  "of_le_bytes [] = 0"
| "of_le_bytes (b # bs) = uint b + 256 * of_le_bytes bs"

definition of_be_bytes :: "u8 list \<Rightarrow> int" where
  "of_be_bytes bs = of_le_bytes (rev bs)"

datatype endian = LittleEndian | BigEndian

definition swap_bytes :: "nat \<Rightarrow> int \<Rightarrow> int" where
  "swap_bytes n x = of_le_bytes (be_bytes n x)"

definition i64_to_be :: "endian \<Rightarrow> int \<Rightarrow> int" where
  "i64_to_be host x = (case host of LittleEndian \<Rightarrow> as_i64 (swap_bytes 8 x) | BigEndian \<Rightarrow> x)"

definition i64_from_be :: "endian \<Rightarrow> int \<Rightarrow> int" where
  "i64_from_be host x = i64_to_be host x"

lemma length_le_bytes [simp]: "length (le_bytes n x) = n"
  by (induction n arbitrary: x) auto

lemma length_be_bytes [simp]: "length (be_bytes n x) = n"
  by (simp add: be_bytes_def)

lemma of_le_bytes_nonneg [simp]: "0 \<le> of_le_bytes bs"
  by (induction bs) auto

lemma of_le_bytes_less: "of_le_bytes bs < 256 ^ length bs"
proof (induction bs)
  case Nil
  then show ?case by simp
next
  case (Cons b bs)
  have "uint b < 256" using uint_bounded [of b] by simp
  with Cons show ?case by simp
qed

lemma of_le_le_bytes: "of_le_bytes (le_bytes n x) = x mod 256 ^ n"
proof (induction n arbitrary: x)
  case 0
  then show ?case by simp
next
  case (Suc n)
  have "of_le_bytes (le_bytes (Suc n) x) = x mod 256 + 256 * (x div 256 mod 256 ^ n)"
    by (simp add: Suc uint_word_of_int)
  also have "\<dots> = x mod (256 * 256 ^ n)"
    by (simp add: zmod_zmult2_eq add.commute)
  finally show ?case by simp
qed

lemma le_bytes_of_le_bytes: "le_bytes (length bs) (of_le_bytes bs) = bs"
proof (induction bs)
  case Nil
  then show ?case by simp
next
  case (Cons b bs)
  have "uint b < 256" and "0 \<le> uint b" using uint_bounded [of b] by simp_all
  then have "(uint b + 256 * of_le_bytes bs) div 256 = of_le_bytes bs" by simp
  moreover have "(word_of_int (uint b + 256 * of_le_bytes bs) :: u8) = b"
  proof -
    have "(word_of_int (uint b + 256 * of_le_bytes bs) :: u8)
          = word_of_int (uint b) + word_of_int 256 * word_of_int (of_le_bytes bs)"
      by (simp only: wi_hom_add wi_hom_mult)
    also have "(word_of_int 256 :: u8) = 0" by simp
    finally show ?thesis by simp
  qed
  ultimately show ?case using Cons by simp
qed

lemma of_be_be_bytes: "of_be_bytes (be_bytes n x) = x mod 256 ^ n"
  by (simp add: of_be_bytes_def be_bytes_def of_le_le_bytes)

lemma be_bytes_of_be_bytes: "be_bytes (length bs) (of_be_bytes bs) = bs"
  using le_bytes_of_le_bytes [of "rev bs"] by (simp add: be_bytes_def of_be_bytes_def)

lemma of_be_bytes_less: "of_be_bytes bs < 256 ^ length bs"
  using of_le_bytes_less [of "rev bs"] by (simp add: of_be_bytes_def)

lemma of_be_bytes_nonneg [simp]: "0 \<le> of_be_bytes bs"
  by (simp add: of_be_bytes_def)

lemma le_bytes_mod: "le_bytes n (x mod 256 ^ n) = le_bytes n x"
  using le_bytes_of_le_bytes [of "le_bytes n x"] by (simp add: of_le_le_bytes)

lemma le_bytes_eq_iff: "le_bytes n x = le_bytes n y \<longleftrightarrow> x mod 256 ^ n = y mod 256 ^ n"
  by (metis le_bytes_mod of_le_le_bytes)

lemma be_bytes_eq_iff: "be_bytes n x = be_bytes n y \<longleftrightarrow> x mod 256 ^ n = y mod 256 ^ n"
  by (simp add: be_bytes_def le_bytes_eq_iff)

lemma as_i64_mod: "as_i64 (x mod 18446744073709551616) = as_i64 x"
  by (simp add: as_i64_def mod_add_left_eq)

lemma as_i128_mod: "as_i128 (x mod 340282366920938463463374607431768211456) = as_i128 x"
  by (simp add: as_i128_def mod_add_left_eq)

lemma as_i64_mod_eq: "as_i64 x mod 18446744073709551616 = x mod 18446744073709551616"
proof -
  have "as_i64 x mod 18446744073709551616
        = ((x + 9223372036854775808) mod 18446744073709551616 - 9223372036854775808)
            mod 18446744073709551616"
    by (simp add: as_i64_def)
  also have "\<dots> = (x + 9223372036854775808 - 9223372036854775808) mod 18446744073709551616"
    by (rule mod_diff_left_eq)
  finally show ?thesis by simp
qed

lemma as_i128_mod_eq:
  "as_i128 x mod 340282366920938463463374607431768211456
   = x mod 340282366920938463463374607431768211456"
proof -
  let ?h = "170141183460469231731687303715884105728 :: int"
    and ?m = "340282366920938463463374607431768211456 :: int"
  have "as_i128 x mod ?m = ((x + ?h) mod ?m - ?h) mod ?m"
    by (simp add: as_i128_def)
  also have "\<dots> = (x + ?h - ?h) mod ?m"
    by (rule mod_diff_left_eq)
  finally show ?thesis by simp
qed

lemma i64_be_roundtrip: "i64_range x \<Longrightarrow> as_i64 (of_be_bytes (be_bytes 8 x)) = x"
  by (simp add: of_be_be_bytes as_i64_mod)

lemma i128_be_roundtrip: "i128_range x \<Longrightarrow> as_i128 (of_be_bytes (be_bytes 16 x)) = x"
  by (simp add: of_be_be_bytes as_i128_mod)

text \<open>Swapping bytes twice is the identity, on a host of either byte order.\<close>

lemma le_bytes_swap: "le_bytes n (swap_bytes n x) = be_bytes n x"
  using le_bytes_of_le_bytes [of "be_bytes n x"] by (simp add: swap_bytes_def)

lemma be_bytes_swap: "be_bytes n (swap_bytes n x) = le_bytes n x"
  by (simp add: be_bytes_def [of n "swap_bytes n x"] le_bytes_swap) (simp add: be_bytes_def)

lemma le_bytes_as_i64: "le_bytes 8 (as_i64 x) = le_bytes 8 x"
  by (simp only: le_bytes_eq_iff) (simp add: as_i64_mod_eq)

lemma be_bytes_as_i64: "be_bytes 8 (as_i64 x) = be_bytes 8 x"
  by (simp only: be_bytes_def le_bytes_as_i64)

lemma i64_to_be_bytes:
  "be_bytes 8 (i64_to_be host x) = (case host of LittleEndian \<Rightarrow> le_bytes 8 x | BigEndian \<Rightarrow> be_bytes 8 x)"
  by (simp add: i64_to_be_def be_bytes_as_i64 be_bytes_swap split: endian.split)

lemma i64_to_be_range: "i64_range x \<Longrightarrow> i64_range (i64_to_be host x)"
  by (simp add: i64_to_be_def split: endian.split)

lemma i64_from_be_to_be: "i64_range x \<Longrightarrow> i64_from_be host (i64_to_be host x) = x"
proof (cases host)
  case LittleEndian
  assume x: "i64_range x"
  have "swap_bytes 8 (as_i64 (swap_bytes 8 x)) = of_le_bytes (le_bytes 8 x)"
    by (simp only: swap_bytes_def [of 8 "as_i64 (swap_bytes 8 x)"] be_bytes_as_i64 be_bytes_swap)
  with LittleEndian x show ?thesis
    by (simp add: i64_from_be_def i64_to_be_def of_le_le_bytes as_i64_mod)
qed (simp add: i64_from_be_def i64_to_be_def)

subsection \<open>The contract of a codec\<close>

locale wire_codec =
  fixes encode :: "'a \<Rightarrow> u8 list"
    and decode :: "u8 list \<Rightarrow> ('a, 'e) outcome"
    and canonical :: "'a \<Rightarrow> bool"
  assumes decode_encode: "canonical x \<Longrightarrow> decode (encode x) = Ok x"
    and encode_decode: "decode bs = Ok x \<Longrightarrow> canonical x \<and> encode x = bs"
begin

lemma encode_inj: "canonical x \<Longrightarrow> canonical y \<Longrightarrow> encode x = encode y \<longleftrightarrow> x = y"
  using decode_encode by (metis outcome.inject(1))

lemma decode_iff: "decode bs = Ok x \<longleftrightarrow> canonical x \<and> encode x = bs"
  using decode_encode encode_decode by blast

lemma decode_inj: "decode bs = Ok x \<Longrightarrow> decode cs = Ok x \<Longrightarrow> bs = cs"
  using encode_decode by blast

end

end
