(* ===== verification/Numerals.thy ===== *)
theory Numerals
  imports Prelude
begin

text \<open>
  Numerals as character strings, the way Rust's formatting and parsing of unsigned integers
  produce and read them: \<open>to_string\<close>, \<open>{:x}\<close>, \<open>{:X}\<close>, zero padding to a width, \<open>parse\<close> and
  \<open>from_str_radix\<close>, together with the trimming of white space. A string is a list of code points
  below 256.
\<close>

subsection \<open>Characters\<close>

definition is_whitespace :: "char \<Rightarrow> bool" where
  "is_whitespace c \<longleftrightarrow> (let n = of_char c :: nat in 9 \<le> n \<and> n \<le> 13 \<or> n = 32 \<or> n = 133 \<or> n = 160)"

definition str_trim :: "string \<Rightarrow> string" where
  "str_trim s = rev (dropWhile is_whitespace (rev (dropWhile is_whitespace s)))"

definition is_ascii_digit :: "char \<Rightarrow> bool" where
  "is_ascii_digit c \<longleftrightarrow> (let n = of_char c :: nat in 48 \<le> n \<and> n \<le> 57)"

definition is_ascii_hexdigit :: "char \<Rightarrow> bool" where
  "is_ascii_hexdigit c \<longleftrightarrow>
     (let n = of_char c :: nat in 48 \<le> n \<and> n \<le> 57 \<or> 65 \<le> n \<and> n \<le> 70 \<or> 97 \<le> n \<and> n \<le> 102)"

definition digit_char :: "nat \<Rightarrow> nat \<Rightarrow> char" where
  "digit_char letter d = char_of (if d < 10 then 48 + d else letter + (d - 10))"

definition digit_value :: "char \<Rightarrow> nat" where
  "digit_value c =
     (let n = of_char c :: nat in if n \<le> 57 then n - 48 else if n \<le> 70 then n - 55 else n - 87)"

subsection \<open>Printing and parsing\<close>

fun num_string :: "nat \<Rightarrow> nat \<Rightarrow> nat \<Rightarrow> string" where
  "num_string b l n = (if b < 2 \<or> n < b then [digit_char l n] else num_string b l (n div b) @ [digit_char l (n mod b)])"

declare num_string.simps [simp del]

definition pad_string :: "nat \<Rightarrow> string \<Rightarrow> string" where
  "pad_string w s = replicate (w - length s) (CHR ''0'') @ s"

definition parse_radix :: "nat \<Rightarrow> string \<Rightarrow> nat" where
  "parse_radix b s = foldl (\<lambda>acc c. acc * b + digit_value c) 0 s"

definition parse_u64 :: "nat \<Rightarrow> string \<Rightarrow> (u64, 'e) outcome \<Rightarrow> (u64, 'e) outcome" where
  "parse_u64 b s failure = (if s = [] \<or> parse_radix b s \<ge> 2 ^ 64 then failure else Ok (of_nat (parse_radix b s)))"

subsection \<open>Fixed width digits\<close>

fun fixed :: "nat \<Rightarrow> nat \<Rightarrow> nat \<Rightarrow> nat \<Rightarrow> string" where
  "fixed b l 0 r = []"
| "fixed b l (Suc k) r = fixed b l k (r div b) @ [digit_char l (r mod b)]"

lemma length_fixed [simp]: "length (fixed b l k r) = k"
  by (induction k arbitrary: r) simp_all

lemma digit_char_0: "digit_char l 0 = CHR ''0''"
proof -
  have "of_char (CHR ''0'') = (48 :: nat)" by simp
  then show ?thesis by (metis add_0_right char_of_char digit_char_def zero_less_numeral)
qed

lemma fixed_0: "fixed b l k 0 = replicate k (CHR ''0'')"
proof (induction k)
  case (Suc k)
  have "replicate k c @ [c] = c # replicate k c" for c :: char by (simp add: replicate_append_same)
  with Suc show ?case by (simp add: digit_char_0)
qed simp

lemma num_string_split:
  assumes "2 \<le> b" "0 < q"
  shows "r < b ^ k \<Longrightarrow> num_string b l (q * b ^ k + r) = num_string b l q @ fixed b l k r"
proof (induction k arbitrary: r)
  case (Suc k)
  have lt: "r div b < b ^ k" using Suc.prems by (simp add: less_mult_imp_div_less mult.commute)
  have e: "q * b ^ Suc k + r = (q * b ^ k + r div b) * b + r mod b"
    by (simp only: distrib_right add.assoc div_mult_mod_eq) simp
  have "1 \<le> q * b ^ k" using assms by simp
  then have "1 * b \<le> (q * b ^ k + r div b) * b" by (intro mult_le_mono1 trans_le_add1)
  then have ge: "\<not> q * b ^ Suc k + r < b" unfolding e by linarith
  have "(q * b ^ Suc k + r) div b = q * b ^ k + r div b" "(q * b ^ Suc k + r) mod b = r mod b"
    unfolding e using assms by simp_all
  then show ?case using ge assms Suc.IH [OF lt] by (subst num_string.simps) simp
qed simp

lemma pad_num_string:
  assumes "2 \<le> b"
  shows "r < b ^ Suc k \<Longrightarrow> pad_string (Suc k) (num_string b l r) = fixed b l (Suc k) r"
proof (induction k arbitrary: r)
  case 0
  then show ?case by (simp add: pad_string_def num_string.simps [of b l r])
next
  case (Suc k)
  show ?case
  proof (cases "r < b")
    case True
    then show ?thesis
      by (simp add: pad_string_def num_string.simps [of b l r] fixed_0 del: fixed.simps) (simp add: fixed_0)
  next
    case False
    have "r div b < b ^ Suc k" using Suc.prems by (simp add: less_mult_imp_div_less mult.commute)
    then have IH: "pad_string (Suc k) (num_string b l (r div b)) = fixed b l (Suc k) (r div b)" by (rule Suc.IH)
    have "num_string b l r = num_string b l (r div b) @ [digit_char l (r mod b)]"
      using False assms by (subst num_string.simps) simp
    then have "pad_string (Suc (Suc k)) (num_string b l r) = pad_string (Suc k) (num_string b l (r div b)) @ [digit_char l (r mod b)]"
      by (simp add: pad_string_def)
    then show ?thesis using IH by (simp only: fixed.simps(2) [of b l "Suc k"])
  qed
qed

subsection \<open>Reading a numeral back\<close>

lemma parse_radix_append: "parse_radix b (s @ t) = parse_radix b s * b ^ length t + parse_radix b t"
proof -
  have "foldl (\<lambda>acc c. acc * b + digit_value c) a t = a * b ^ length t + parse_radix b t" for a
  proof (induction t rule: rev_induct)
    case (snoc c t)
    then have "foldl (\<lambda>acc c. acc * b + digit_value c) a (t @ [c]) = (a * b ^ length t + parse_radix b t) * b + digit_value c" by simp
    also have "\<dots> = a * b ^ length (t @ [c]) + (parse_radix b t * b + digit_value c)"
      by (simp add: distrib_right)
    finally show ?case by (simp add: parse_radix_def)
  qed (simp add: parse_radix_def)
  from this [of "parse_radix b s"] show ?thesis
    by (simp only: parse_radix_def [of b "s @ t"] foldl_append) (simp only: parse_radix_def [of b s])
qed

lemma parse_radix_simps [simp]: "parse_radix b [] = 0" "parse_radix b [c] = digit_value c"
  by (simp_all add: parse_radix_def)

lemma digit_value_char: "d < 16 \<Longrightarrow> l = 65 \<or> l = 97 \<Longrightarrow> digit_value (digit_char l d) = d"
  by (auto simp: digit_value_def digit_char_def Let_def)

lemma hexdigit_char: "d < 16 \<Longrightarrow> l = 65 \<or> l = 97 \<Longrightarrow> is_ascii_hexdigit (digit_char l d)"
  by (auto simp: is_ascii_hexdigit_def digit_char_def Let_def)

lemma digit_char_digit: "d < 10 \<Longrightarrow> is_ascii_digit (digit_char l d)"
  by (auto simp: is_ascii_digit_def digit_char_def Let_def)

lemma parse_num_string:
  assumes "2 \<le> b" "b \<le> 16" "l = 65 \<or> l = 97"
  shows "parse_radix b (num_string b l n) = n"
proof (induction n rule: less_induct)
  case (less n)
  show ?case
  proof (cases "n < b")
    case True
    then show ?thesis using assms digit_value_char [of n l] by (simp add: num_string.simps [of b l n])
  next
    case False
    have "n div b < n" using False assms by (intro div_less_dividend) simp_all
    moreover have "n mod b < 16" using assms mod_less_divisor [of b n] by linarith
    ultimately show ?thesis
      using False assms less digit_value_char [of "n mod b" l]
      by (simp add: num_string.simps [of b l n] parse_radix_append)
  qed
qed

lemma parse_fixed:
  assumes "2 \<le> b" "b \<le> 16" "l = 65 \<or> l = 97"
  shows "r < b ^ k \<Longrightarrow> parse_radix b (fixed b l k r) = r"
proof (induction k arbitrary: r)
  case (Suc k)
  have "r div b < b ^ k" using Suc.prems by (simp add: less_mult_imp_div_less mult.commute)
  moreover have "r mod b < 16" using assms mod_less_divisor [of b r] by linarith
  ultimately show ?case using Suc.IH digit_value_char [OF _ assms(3)] by (simp add: parse_radix_append)
qed simp

lemma num_string_nonempty [simp]: "num_string b l n \<noteq> []"
  by (simp add: num_string.simps [of b l n])

lemma num_string_chars:
  assumes "2 \<le> b" "\<And>d. d < b \<Longrightarrow> P (digit_char l d)"
  shows "list_all P (num_string b l n)"
proof (induction n rule: less_induct)
  case (less n)
  show ?case
  proof (cases "n < b")
    case False
    then have "n div b < n" using assms by (intro div_less_dividend) simp_all
    with less False assms show ?thesis by (simp add: num_string.simps [of b l n])
  qed (simp add: num_string.simps [of b l n] assms)
qed

lemma fixed_chars:
  assumes "2 \<le> b" "\<And>d. d < b \<Longrightarrow> P (digit_char l d)"
  shows "list_all P (fixed b l k n)"
  using assms by (induction k arbitrary: n) simp_all

lemma num_string_length:
  assumes "2 \<le> b"
  shows "n < b ^ Suc k \<Longrightarrow> length (num_string b l n) \<le> Suc k"
proof (induction k arbitrary: n)
  case (Suc k)
  then have "n div b < b ^ Suc k" by (simp add: less_mult_imp_div_less mult.commute)
  from Suc.IH [OF this] show ?case using assms by (simp add: num_string.simps [of b l n])
qed (simp add: num_string.simps [of b l])

text \<open>A string without white space at its ends is not changed by trimming.\<close>

lemma str_trim_id:
  assumes "list_all (\<lambda>c. \<not> is_whitespace c) s"
  shows "str_trim s = s"
proof -
  have "dropWhile is_whitespace t = t" if "list_all (\<lambda>c. \<not> is_whitespace c) t" for t
    using that by (cases t) simp_all
  from this [OF assms] this [of "rev s"] assms show ?thesis by (simp add: str_trim_def)
qed

lemma digit_not_whitespace: "is_ascii_hexdigit c \<Longrightarrow> \<not> is_whitespace c" "is_ascii_digit c \<Longrightarrow> \<not> is_whitespace c"
  by (auto simp: is_ascii_digit_def is_ascii_hexdigit_def is_whitespace_def Let_def)

end
