(* ===== verification/BigIntCodec.thy ===== *)
theory BigIntCodec
  imports BigIntDet Bytes Numerals
begin

text \<open>
  The external forms of \<open>BigInt\<close> in \<open>determin/src/bigint.rs\<close>: the wire encoding
  \<open>BigIntEncoding\<close> (an interpretation of \<open>wire_codec\<close>), the 16 byte two's complement form
  \<open>bigint_to_i128_bytes\<close>, and the decimal and hexadecimal strings of \<open>Display\<close>, \<open>LowerHex\<close>,
  \<open>UpperHex\<close> and \<open>FromStr\<close>.
\<close>

subsection \<open>Wire encoding\<close>

record bigint_encoding =
  enc_version :: u8
  enc_sign :: u8
  enc_num_limbs :: u8
  enc_limbs :: limbs

definition to_bytes :: "bigint_encoding \<Rightarrow> u8 list" where
  "to_bytes e =
     [enc_version e, enc_sign e, 0, 0, enc_num_limbs e, 0, 0, 0]
     @ concat (map (\<lambda>limb. le_bytes 8 (uint limb)) (enc_limbs e))"

definition bigint_serialize :: "bigint \<Rightarrow> bigint_encoding" where
  "bigint_serialize b =
     \<lparr>enc_version = 1, enc_sign = (if bi_sign b then 255 else 0),
      enc_num_limbs = of_nat (length (bi_limbs b)), enc_limbs = bi_limbs b\<rparr>"

fun read_limbs :: "nat \<Rightarrow> u8 list \<Rightarrow> limbs" where
  "read_limbs 0 data = []"
| "read_limbs (Suc n) data = word_of_int (of_le_bytes (take 8 data)) # read_limbs n (drop 8 data)"

definition bigint_deserialize :: "u8 list \<Rightarrow> (bigint, BigIntError) outcome" where
  "bigint_deserialize data =
     (if length data < 8 then Err BigIntError.NonCanonicalInput
      else if data ! 0 \<noteq> 1 then Err BigIntError.NonCanonicalInput
      else if data ! 1 \<noteq> 0 \<and> data ! 1 \<noteq> 255 then Err BigIntError.NonCanonicalInput
      else if data ! 2 \<noteq> 0 \<or> data ! 3 \<noteq> 0 then Err BigIntError.NonCanonicalInput
      else let num_limbs = unat (data ! 4) in
        if num_limbs = 0 \<or> num_limbs > 64 then Err BigIntError.NonCanonicalInput
        else if data ! 5 \<noteq> 0 \<or> data ! 6 \<noteq> 0 \<or> data ! 7 \<noteq> 0 then Err BigIntError.NonCanonicalInput
        else if length data \<noteq> 8 + num_limbs * 8 then Err BigIntError.NonCanonicalInput
        else let b = mk_bigint (read_limbs num_limbs (drop 8 data)) (data ! 1 = 255) in
          if \<not> is_canonical b then Err BigIntError.NonCanonicalInput else Ok b)"

definition bigint_to_i128_bytes :: "bigint \<Rightarrow> (u8 list, BigIntError) outcome" where
  "bigint_to_i128_bytes b =
     (let n = length (bi_limbs b); hi = limb_get (bi_limbs b) 1 in
      if n > 2 then Err BigIntError.OutOfI128Range
      else if n = 2 \<and> (if bi_sign b then hi > 0x8000000000000000 else hi \<ge> 0x8000000000000000)
      then Err BigIntError.OutOfI128Range
      else if is_zero b then Ok (replicate 16 0)
      else
        let magnitude = two_limb_mag (bi_limbs b);
            val = (if \<not> bi_sign b then magnitude else (NOT magnitude) + 1) in
        Ok (map (\<lambda>i. ucast (drop_bit (120 - i * 8) val AND 0xFF)) [0..<16]))"

subsection \<open>Decimal and hexadecimal strings\<close>

definition CHUNK_BASE :: u64 where
  "CHUNK_BASE = 10000000000000000000"

function decimal_chunks :: "bigint \<Rightarrow> (u64 list, BigIntError) outcome" where
  "decimal_chunks abs_val =
     (if is_zero abs_val then Ok []
      else case bigint_divmod abs_val (mk_bigint [CHUNK_BASE] False) of
        Ok (quot, rem) \<Rightarrow>
          bind_ok (if is_zero rem then Ok 0 else at_index (bi_limbs rem) 0) (\<lambda>limb.
            bind_ok (decimal_chunks quot) (\<lambda>chunks. Ok (limb # chunks)))
      | _ \<Rightarrow> Panic)"
  by pat_completeness auto
termination
proof (relation "measure (\<lambda>b. nat \<bar>bi_val b\<bar>)", goal_cases)
  case (2 a qr q r limb)
  have ok: "bi_ok a"
  proof -
    have "is_canonical a" using 2 by (auto simp: bigint_divmod_def split: if_splits)
    moreover have "bi_limbs a \<noteq> []"
      using 2 by (auto simp: bigint_divmod_def bit_length_def split: if_splits)
    ultimately show ?thesis by (simp add: bi_ok_def)
  qed
  let ?b = "mk_bigint [CHUNK_BASE] False"
  have b: "bi_ok ?b" "bi_val ?b = 10000000000000000000"
    by (simp_all add: bi_ok_def is_canonical_def CHUNK_BASE_def bi_val_def signed_def)
  have "bigint_divmod a ?b = Ok (q, r)" using 2 by simp
  then have "bi_val q = rust_div (bi_val a) 10000000000000000000"
    using bigint_divmod_val [OF ok b(1)] b(2) by (auto simp: returns2_def split: if_splits)
  then have "\<bar>bi_val q\<bar> = \<bar>bi_val a\<bar> div 10000000000000000000" by (simp add: abs_rust_div)
  moreover have "0 < \<bar>bi_val a\<bar>" using 2 bi_okD(4) [OF ok] by auto
  ultimately have "\<bar>bi_val q\<bar> < \<bar>bi_val a\<bar>" by (simp add: int_div_less_self)
  then show ?case by simp
qed simp

declare decimal_chunks.simps [simp del]

definition decimal_join :: "u64 list \<Rightarrow> string" where
  "decimal_join chunks =
     concat (map (\<lambda>(i, chunk). if i = 0 then num_string 10 97 (unat chunk)
                               else pad_string 19 (num_string 10 97 (unat chunk)))
                 (enumerate 0 (rev chunks)))"

definition to_decimal_string :: "bigint \<Rightarrow> (string, BigIntError) outcome" where
  "to_decimal_string b =
     (if is_zero b then Ok ''0''
      else bind_ok (decimal_chunks (mk_bigint (bi_limbs b) False)) (\<lambda>chunks. Ok (decimal_join chunks)))"

definition hex_limbs :: "nat \<Rightarrow> limbs \<Rightarrow> string" where
  "hex_limbs letter limbs =
     concat (map (\<lambda>(i, limb). if i = length limbs - 1 then num_string 16 letter (unat limb)
                              else pad_string 16 (num_string 16 letter (unat limb)))
                 (rev (enumerate 0 limbs)))"

definition to_hex_string :: "bigint \<Rightarrow> string" where
  "to_hex_string b = (if is_zero b then ''0'' else hex_limbs 97 (bi_limbs b))"

definition to_upper_hex_string :: "bigint \<Rightarrow> string" where
  "to_upper_hex_string b = (if is_zero b then ''0'' else hex_limbs 65 (bi_limbs b))"

definition bigint_display :: "bool \<Rightarrow> bigint \<Rightarrow> (string, BigIntError) outcome" where
  "bigint_display alternate b =
     (if is_zero b then Ok ''0''
      else if alternate then Ok (''0x'' @ to_hex_string b)
      else bind_ok (to_decimal_string b) (\<lambda>s. Ok (if bi_sign b then ''-'' @ s else s)))"

definition bigint_lower_hex :: "bool \<Rightarrow> bigint \<Rightarrow> string" where
  "bigint_lower_hex alternate b =
     (if is_zero b then ''0'' else if alternate then ''0x'' @ to_hex_string b else to_hex_string b)"

definition bigint_upper_hex :: "bool \<Rightarrow> bigint \<Rightarrow> string" where
  "bigint_upper_hex alternate b =
     (if is_zero b then ''0'' else if alternate then ''0x'' @ to_upper_hex_string b else to_upper_hex_string b)"

function decimal_parse_loop :: "string \<Rightarrow> nat \<Rightarrow> bigint \<Rightarrow> (bigint, BigIntError) outcome" where
  "decimal_parse_loop chars pos result =
     (if pos = 0 then Ok result
      else let start = pos - 19; chunk = take (pos - start) (drop start chars) in
        bind_ok (parse_u64 10 chunk (Err BigIntError.InvalidString)) (\<lambda>chunk_val.
          bind_ok (if pos > 19
                   then map_err (\<lambda>_. BigIntError.Overflow) (bigint_mul result (mk_bigint [CHUNK_BASE] False))
                   else Ok result) (\<lambda>result1.
            bind_ok (map_err (\<lambda>_. BigIntError.Overflow) (bigint_add result1 (mk_bigint [chunk_val] False)))
              (\<lambda>result2. decimal_parse_loop chars start result2))))"
  by pat_completeness auto
termination
  by (relation "measure (\<lambda>(chars, pos, result). pos)") auto

declare decimal_parse_loop.simps [simp del]

definition strip_sign :: "string \<Rightarrow> string \<times> bool" where
  "strip_sign s =
     (case s of [] \<Rightarrow> (s, False)
      | c # rest \<Rightarrow> if c = CHR ''-'' then (rest, True) else if c = CHR ''+'' then (rest, False) else (s, False))"

definition from_decimal_str :: "string \<Rightarrow> (bigint, BigIntError) outcome" where
  "from_decimal_str str =
     (let s0 = str_trim str in
      if s0 = [] then Err BigIntError.InvalidString
      else let (s, sign) = strip_sign s0 in
        if s = [] then Err BigIntError.InvalidString
        else if \<not> list_all is_ascii_digit s then Err BigIntError.InvalidString
        else bind_ok (decimal_parse_loop s (length s) bi_zero) (\<lambda>result.
          Ok (if sign then mk_bigint (bi_limbs result) True else result)))"

fun hex_parse_loop :: "nat \<Rightarrow> string \<Rightarrow> (limbs, BigIntError) outcome" where
  "hex_parse_loop 0 chars = Ok []"
| "hex_parse_loop (Suc n) chars =
     (if chars = [] then Ok []
      else bind_ok (parse_u64 16 (rev (take 16 chars)) (Err BigIntError.InvalidString)) (\<lambda>limb.
        bind_ok (hex_parse_loop n (drop 16 chars)) (\<lambda>limbs. Ok (limb # limbs))))"

definition from_hex_str :: "string \<Rightarrow> (bigint, BigIntError) outcome" where
  "from_hex_str str =
     (let s = str_trim str in
      if s = [] then Err BigIntError.InvalidString
      else if \<not> list_all is_ascii_hexdigit s then Err BigIntError.InvalidString
      else bind_ok (hex_parse_loop (length s) (rev s)) (\<lambda>limbs. Ok (mk_bigint (trim limbs) False)))"

definition bigint_from_str :: "string \<Rightarrow> (bigint, BigIntError) outcome" where
  "bigint_from_str str =
     (let s = str_trim str in
      if s = [] then Err BigIntError.InvalidString
      else if take 2 s = ''0x'' \<or> take 2 s = ''0X'' then from_hex_str (drop 2 s)
      else from_decimal_str s)"

subsection \<open>The wire encoding is a codec\<close>

lemma le_bytes_of_limb: "word_of_int (of_le_bytes (le_bytes 8 (uint (x :: u64)))) = x"
  using uint_bounded [of x] by (simp add: of_le_le_bytes)

lemma limb_of_le_bytes: "length d = 8 \<Longrightarrow> le_bytes 8 (uint (word_of_int (of_le_bytes d) :: u64)) = d"
  using of_le_bytes_less [of d] le_bytes_of_le_bytes [of d] by (simp add: uint_word_of_int)

lemma read_limbs_concat: "read_limbs (length l) (concat (map (\<lambda>limb. le_bytes 8 (uint limb)) l)) = l"
  by (induction l) (simp_all add: le_bytes_of_limb)

lemma concat_read_limbs:
  "length data = n * 8 \<Longrightarrow> concat (map (\<lambda>limb. le_bytes 8 (uint limb)) (read_limbs n data)) = data"
  by (induction n arbitrary: data) (simp_all add: limb_of_le_bytes)

lemma length_read_limbs [simp]: "length (read_limbs n data) = n"
  by (induction n arbitrary: data) simp_all

lemma split_header:
  assumes "8 \<le> length data"
  shows "data = [data ! 0, data ! 1, data ! 2, data ! 3, data ! 4, data ! 5, data ! 6, data ! 7] @ drop 8 data"
proof -
  have "take 8 data = map ((!) data) [0..<8]"
    using assms by (intro nth_equalityI) simp_all
  then have "take 8 data = [data ! 0, data ! 1, data ! 2, data ! 3, data ! 4, data ! 5, data ! 6, data ! 7]"
    by (simp add: upt_rec eval_nat_numeral)
  then show ?thesis by (metis append_take_drop_id)
qed

definition wire_ok :: "bigint \<Rightarrow> bool" where
  "wire_ok b \<longleftrightarrow> bi_ok b \<and> length (bi_limbs b) \<le> 64"

lemma bigint_decode_encode: "wire_ok b \<Longrightarrow> bigint_deserialize (to_bytes (bigint_serialize b)) = Ok b"
proof -
  assume w: "wire_ok b"
  then have l: "0 < length (bi_limbs b)" "length (bi_limbs b) \<le> 64" and c: "is_canonical b"
    by (auto simp: wire_ok_def bi_ok_def)
  have u: "unat (of_nat (length (bi_limbs b)) :: u8) = length (bi_limbs b)"
    using l(2) by (simp add: unat_of_nat)
  have len: "length (concat (map (\<lambda>limb. le_bytes 8 (uint limb)) (bi_limbs b))) = length (bi_limbs b) * 8"
    by (induction "bi_limbs b") (simp_all add: length_concat comp_def sum_list_triv)
  have e: "mk_bigint (bi_limbs b) (bi_sign b) = b" by (simp add: mk_bigint_def)
  show ?thesis
    using l c len e
    by (cases "bi_sign b")
      (auto split: if_splits simp: bigint_deserialize_def to_bytes_def bigint_serialize_def u read_limbs_concat Let_def is_canonical_def)
qed

lemma bigint_encode_decode:
  assumes "bigint_deserialize data = Ok b"
  shows "wire_ok b \<and> to_bytes (bigint_serialize b) = data"
proof -
  let ?n = "unat (data ! 4)"
  have h: "8 \<le> length data" "data ! 0 = 1" "data ! 1 = 0 \<or> data ! 1 = 255" "data ! 2 = 0" "data ! 3 = 0"
    "0 < ?n" "?n \<le> 64" "data ! 5 = 0" "data ! 6 = 0" "data ! 7 = 0" "length data = 8 + ?n * 8"
    and b: "b = mk_bigint (read_limbs ?n (drop 8 data)) (data ! 1 = 255)" "is_canonical b"
    using assms by (auto simp: bigint_deserialize_def Let_def split: if_splits)
  have "wire_ok b" using b h(6,7) by (auto simp: wire_ok_def bi_ok_def simp flip: length_0_conv)
  moreover have "to_bytes (bigint_serialize b) = [data ! 0, data ! 1, data ! 2, data ! 3, data ! 4, data ! 5, data ! 6, data ! 7] @ drop 8 data"
    using h concat_read_limbs [of "drop 8 data" ?n] by (auto simp: to_bytes_def bigint_serialize_def b(1))
  ultimately show ?thesis using split_header [OF h(1)] by simp
qed

interpretation bigint_wire: wire_codec "\<lambda>b. to_bytes (bigint_serialize b)" bigint_deserialize wire_ok
  by unfold_locales (use bigint_decode_encode bigint_encode_decode in blast)+

subsection \<open>Two's complement bytes\<close>

lemma nth_le_bytes: "i < n \<Longrightarrow> le_bytes n x ! i = word_of_int (x div 256 ^ i)"
proof (induction n arbitrary: x i)
  case (Suc n)
  then show ?case by (cases i) (simp_all add: zdiv_zmult2_eq)
qed simp

lemma word_byte: "ucast (drop_bit k (v :: u128) AND 0xFF) = (word_of_int (uint v div 2 ^ k) :: u8)"
proof -
  have "(0xFF :: u128) = mask 8" by (simp add: mask_eq_exp_minus_1)
  then have "ucast (drop_bit k v AND 0xFF) = (ucast (take_bit 8 (drop_bit k v)) :: u8)"
    by (simp only: take_bit_eq_mask)
  also have "\<dots> = ucast (drop_bit k v)" by (rule bit_word_eqI) (simp add: bit_simps)
  also have "\<dots> = word_of_int (uint (drop_bit k v))" by simp
  also have "uint (drop_bit k v) = uint v div 2 ^ k"
    using uint_bounded [of v] by (simp only: unsigned_drop_bit_eq) (simp add: drop_bit_eq_div take_bit_int_eq_self)
  finally show ?thesis .
qed

lemma word_be_bytes:
  "map (\<lambda>i. ucast (drop_bit (120 - i * 8) (v :: u128) AND 0xFF)) [0..<16] = be_bytes 16 (uint v)"
proof (rule nth_equalityI)
  fix i assume "i < length (map (\<lambda>i. ucast (drop_bit (120 - i * 8) v AND 0xFF) :: u8) [0..<16])"
  then have i: "i < 16" by simp
  have p: "(256 :: int) ^ (15 - i) = 2 ^ (120 - i * 8)"
  proof -
    have "(256 :: int) ^ (15 - i) = (2 ^ 8) ^ (15 - i)" by simp
    also have "\<dots> = 2 ^ (8 * (15 - i))" by (simp only: power_mult)
    also have "8 * (15 - i) = 120 - i * 8" using i by simp
    finally show ?thesis .
  qed
  have "be_bytes 16 (uint v) ! i = word_of_int (uint v div 256 ^ (15 - i))"
    using i nth_le_bytes [of "15 - i" 16 "uint v"] by (simp add: be_bytes_def rev_nth)
  then show "map (\<lambda>i. ucast (drop_bit (120 - i * 8) v AND 0xFF)) [0..<16] ! i = be_bytes 16 (uint v) ! i"
    using i by (simp add: word_byte p del: upt_Suc)
qed simp

lemma be_bytes_16_cong:
  "x mod 2 ^ 128 = y mod 2 ^ 128 \<Longrightarrow> be_bytes 16 x = be_bytes 16 y"
  by (simp add: be_bytes_eq_iff)

lemma i128_val_word:
  assumes "int (unat m) = \<bar>x\<bar>" "s \<longleftrightarrow> x < 0"
  shows "be_bytes 16 (uint (if \<not> s then m else NOT m + 1 :: u128)) = be_bytes 16 x"
proof (cases s)
  case True
  have neg: "NOT m + 1 = - m" by (simp add: not_eq_complement)
  have "uint (- m) mod 2 ^ 128 = (- uint m) mod 2 ^ 128" by (simp add: uint_word_ariths(4))
  also have "- uint m = x" using assms True by simp
  finally show ?thesis using True neg by (intro be_bytes_16_cong) simp
next
  case False
  then show ?thesis using assms by simp
qed

lemma i128_bound_iff:
  fixes x :: int and h l :: nat
  assumes "\<bar>x\<bar> = int l + 18446744073709551616 * int h" "l < LB" "n \<noteq> (2 :: nat) \<Longrightarrow> h = 0"
  shows "(n = 2 \<and> (if x < 0 then 9223372036854775808 < h else 9223372036854775808 \<le> h))
    \<longleftrightarrow> \<not> (- (2 ^ 127) - 2 ^ 64 < x \<and> x < 2 ^ 127)"
  using assms by (cases "x < 0"; cases "n = 2") auto

lemma bigint_to_i128_bytes_val:
  assumes "bi_ok b"
  shows "bigint_to_i128_bytes b =
    (if - (2 ^ 127) - 2 ^ 64 < bi_val b \<and> bi_val b < 2 ^ 127 then Ok (be_bytes 16 (bi_val b))
     else Err BigIntError.OutOfI128Range)"
proof (cases "length (bi_limbs b) \<le> 2")
  case False
  then have "\<not> lval (bi_limbs b) < LB * LB" using normal_length_le2 [OF bi_okD(1) [OF assms]] by blast
  then have "\<not> (- (2 ^ 127) - 2 ^ 64 < bi_val b \<and> bi_val b < 2 ^ 127)" using bi_okD(7) [OF assms] by auto
  with False show ?thesis by (simp add: bigint_to_i128_bytes_def Let_def)
next
  case True
  note f = bi_okD [OF assms]
  let ?hi = "limb_get (bi_limbs b) 1" and ?lo = "limb_get (bi_limbs b) 0"
  have v: "\<bar>bi_val b\<bar> = int (unat ?lo) + 18446744073709551616 * int (unat ?hi)"
    using limbs_le_2 [OF f(2) True] f(7) by simp
  have lo: "unat ?lo < LB" by (rule unat_u64_less)
  have h1: "?hi > 0x8000000000000000 \<longleftrightarrow> 9223372036854775808 < unat ?hi" by (simp add: word_less_nat_alt)
  have h2: "?hi \<ge> 0x8000000000000000 \<longleftrightarrow> 9223372036854775808 \<le> unat ?hi" by (simp add: word_le_nat_alt)
  have n2: "length (bi_limbs b) \<noteq> 2 \<Longrightarrow> unat ?hi = 0" using True by (simp add: limb_get_def)
  have r: "(length (bi_limbs b) = 2 \<and> (if bi_sign b then ?hi > 0x8000000000000000 else ?hi \<ge> 0x8000000000000000))
      \<longleftrightarrow> \<not> (- (2 ^ 127) - 2 ^ 64 < bi_val b \<and> bi_val b < 2 ^ 127)"
    unfolding h1 h2 f(6) by (rule i128_bound_iff [OF v lo n2])
  have m: "int (unat (two_limb_mag (bi_limbs b))) = \<bar>bi_val b\<bar>" using v by (simp add: unat_two_limb_mag)
  have z: "be_bytes 16 0 = replicate 16 0" by (simp add: be_bytes_def eval_nat_numeral)
  show ?thesis
    using True z f(4) i128_val_word [OF m f(6)]
    unfolding bigint_to_i128_bytes_def Let_def r word_be_bytes by auto
qed

subsection \<open>Decimal strings\<close>

lemma chunk_base_ok: "bi_ok (mk_bigint [CHUNK_BASE] False)" "bi_val (mk_bigint [CHUNK_BASE] False) = 10 ^ 19"
  by (simp_all add: bi_ok_def is_canonical_def CHUNK_BASE_def bi_val_def signed_def)

lemma single_limb_ok: "bi_ok (mk_bigint [w] False)" "bi_val (mk_bigint [w] False) = uint w"
  by (simp_all add: bi_ok_def is_canonical_def bi_val_def signed_def)

fun chunks_value :: "u64 list \<Rightarrow> nat" where
  "chunks_value [] = 0"
| "chunks_value (c # cs) = unat c + 10 ^ 19 * chunks_value cs"

lemma decimal_chunks_val:
  "bi_ok a \<Longrightarrow> 0 \<le> bi_val a \<Longrightarrow> fits (bi_val a) \<Longrightarrow>
   \<exists>cs. decimal_chunks a = Ok cs \<and> int (chunks_value cs) = bi_val a \<and>
     (\<forall>c\<in>set cs. unat c < 10 ^ 19) \<and> (cs \<noteq> [] \<longrightarrow> unat (last cs) \<noteq> 0)"
proof (induction a rule: decimal_chunks.induct)
  case (1 a)
  note f = bi_okD [OF "1.prems"(1)]
  show ?case
  proof (cases "bi_val a = 0")
    case True
    then show ?thesis using f by (simp add: decimal_chunks.simps [of a])
  next
    case nz: False
    have "fits (10 ^ 19)" by (simp add: fits_def)
    then have "returns2 (bigint_divmod a (mk_bigint [CHUNK_BASE] False)) (bi_val a div 10 ^ 19) (bi_val a mod 10 ^ 19)"
      using bigint_divmod_val [OF "1.prems"(1) chunk_base_ok(1)] "1.prems"(2,3) chunk_base_ok(2)
      by (simp add: rust_div_pos rust_rem_pos)
    then obtain q r where d: "bigint_divmod a (mk_bigint [CHUNK_BASE] False) = Ok (q, r)"
      and q: "bi_ok q" "bi_val q = bi_val a div 10 ^ 19" and r: "bi_ok r" "bi_val r = bi_val a mod 10 ^ 19"
      by (auto simp: returns2_def split: outcome.splits)
    have "\<bar>bi_val r\<bar> < 10 ^ 19" unfolding r(2) by simp
    then have rl: "lval (bi_limbs r) < 10 ^ 19" using bi_okD(7) [OF r(1)] by simp
    then have "lval (bi_limbs r) < LB ^ Suc 0" by simp
    then have l1: "length (bi_limbs r) \<le> Suc 0" using normal_length_le [OF bi_okD(1) [OF r(1)]] by blast
    define limb where "limb = limb_get (bi_limbs r) 0"
    have lv: "int (unat limb) = bi_val a mod 10 ^ 19"
      using limbs_1 [of "bi_limbs r"] l1 bi_okD(7) [OF r(1)] r(2) by (simp add: limb_def)
    have lim: "(if is_zero r then Ok 0 else at_index (bi_limbs r) 0 :: (u64, BigIntError) outcome) = Ok limb"
      using bi_okD(2) [OF r(1)] by (auto simp: is_zero_def limb_def limb_get_def)
    have z: "\<not> is_zero a" using f(4) nz by simp
    have "0 \<le> bi_val q" "fits (bi_val q)"
      using "1.prems"(2,3) fits_le [of "bi_val q" "bi_val a"] abs_rust_div_le [of "bi_val a" "10 ^ 19"]
      by (simp_all add: q(2) pos_imp_zdiv_nonneg_iff rust_div_pos)
    then obtain cs where cs: "decimal_chunks q = Ok cs" "int (chunks_value cs) = bi_val q"
      "\<forall>c\<in>set cs. unat c < 10 ^ 19" "cs \<noteq> [] \<longrightarrow> unat (last cs) \<noteq> 0"
      using "1.IH" [OF z d refl q(1)] by blast
    have dc: "decimal_chunks a = Ok (limb # cs)"
      using z d lim cs(1) by (simp add: decimal_chunks.simps [of a])
    have val: "int (chunks_value (limb # cs)) = bi_val a"
      using cs(2) lv by (simp add: q(2))
    have "int (unat limb) < 10 ^ 19" unfolding lv by simp
    then have "unat limb < 10 ^ 19" using of_nat_less_iff [of "unat limb" "10 ^ 19", where ?'a = int] by simp
    moreover have "unat limb \<noteq> 0" if "cs = []"
    proof
      assume "unat limb = 0"
      then have "chunks_value (limb # cs) = 0" using that by (simp only: chunks_value.simps)
      then show False using val nz by simp
    qed
    ultimately show ?thesis using dc val cs(3,4) by auto
  qed
qed

lemma decimal_join_Cons:
  "cs \<noteq> [] \<Longrightarrow> decimal_join (c # cs) = decimal_join cs @ pad_string 19 (num_string 10 97 (unat c))"
  by (simp add: decimal_join_def enumerate_append_eq)

lemma decimal_join_val:
  "cs \<noteq> [] \<Longrightarrow> \<forall>c\<in>set cs. unat c < 10 ^ 19 \<Longrightarrow> unat (last cs) \<noteq> 0 \<Longrightarrow>
   decimal_join cs = num_string 10 97 (chunks_value cs) \<and> 0 < chunks_value cs"
proof (induction cs)
  case (Cons c cs)
  show ?case
  proof (cases "cs = []")
    case True
    then show ?thesis using Cons.prems(3) by (simp add: decimal_join_def)
  next
    case False
    then have IH: "decimal_join cs = num_string 10 97 (chunks_value cs)" "0 < chunks_value cs"
      using Cons by auto
    have c: "unat c < 10 ^ 19" using Cons.prems(2) by simp
    have pad: "pad_string 19 (num_string 10 97 (unat c)) = fixed 10 97 19 (unat c)"
      using pad_num_string [of 10 "unat c" 18 97] c by (simp del: fixed.simps)
    have split: "num_string 10 97 (chunks_value cs * 10 ^ 19 + unat c) = num_string 10 97 (chunks_value cs) @ fixed 10 97 19 (unat c)"
      by (rule num_string_split [OF _ IH(2) c]) simp
    have "chunks_value (c # cs) = chunks_value cs * 10 ^ 19 + unat c" by simp
    then have "decimal_join (c # cs) = num_string 10 97 (chunks_value (c # cs))"
      by (simp only: decimal_join_Cons [OF False] IH(1) pad split)
    with IH(2) show ?thesis by simp
  qed
qed simp

lemma to_decimal_string_val:
  assumes "bi_ok b" "fits (bi_val b)"
  shows "to_decimal_string b = Ok (num_string 10 97 (nat \<bar>bi_val b\<bar>))"
proof (cases "bi_val b = 0")
  case True
  then show ?thesis using bi_okD(4) [OF assms(1)] digit_char_0 [of 97]
    by (simp add: to_decimal_string_def num_string.simps [of 10 97 0])
next
  case False
  let ?a = "mk_bigint (bi_limbs b) False"
  have a: "bi_ok ?a" "bi_val ?a = \<bar>bi_val b\<bar>"
    using assms(1) bi_okD(7) [OF assms(1)] by (simp_all add: bi_ok_iff bi_val_def signed_def)
  obtain cs where cs: "decimal_chunks ?a = Ok cs" "int (chunks_value cs) = \<bar>bi_val b\<bar>"
    "\<forall>c\<in>set cs. unat c < 10 ^ 19" "cs \<noteq> [] \<longrightarrow> unat (last cs) \<noteq> 0"
    using decimal_chunks_val [OF a(1)] assms(2) unfolding a(2) by (auto simp: fits_def)
  have "cs \<noteq> []" using cs(2) False by auto
  then have "decimal_join cs = num_string 10 97 (chunks_value cs)" using decimal_join_val cs(3,4) by blast
  moreover have "chunks_value cs = nat \<bar>bi_val b\<bar>" using cs(2) by simp
  ultimately show ?thesis using cs(1) False bi_okD(4) [OF assms(1)] by (simp add: to_decimal_string_def)
qed

lemma digits_value_less: "list_all is_ascii_digit s \<Longrightarrow> parse_radix 10 s < 10 ^ length s"
proof (induction s rule: rev_induct)
  case (snoc c s)
  have "digit_value c \<le> 9" using snoc.prems by (auto simp: digit_value_def is_ascii_digit_def Let_def)
  with snoc show ?case by (simp add: parse_radix_append)
qed simp

lemma parse_chunk:
  assumes "list_all is_ascii_digit s" "s \<noteq> []" "length s \<le> 19"
  obtains w where "(parse_u64 10 s f :: (u64, 'e) outcome) = Ok w" "uint w = int (parse_radix 10 s)"
proof -
  have "parse_radix 10 s < 10 ^ 19"
    using digits_value_less [OF assms(1)] power_increasing [OF assms(3), of "10 :: nat"] by simp
  then have "parse_radix 10 s < 2 ^ 64" by simp
  moreover from this have "uint (of_nat (parse_radix 10 s) :: u64) = int (parse_radix 10 s)"
    by (simp add: unsigned_of_nat take_bit_nat_eq_self)
  ultimately show ?thesis using assms(2) that by (simp add: parse_u64_def)
qed

lemma add_small:
  assumes "bi_ok r" "0 \<le> bi_val r" "bi_val r < 10 ^ 1000"
  obtains r' where "bigint_add r (mk_bigint [w] False) = Ok r'" "bi_ok r'" "bi_val r' = bi_val r + uint w"
proof -
  have "uint w < 2 ^ 64" using uint_bounded [of w] by simp
  then have "fits (bi_val r + uint w)" using assms(2,3) uint_nonnegative [of w] by (simp add: fits_def)
  moreover have "\<not> bi_sign r" using bi_okD(6) [OF assms(1)] assms(2) by simp
  ultimately have "returns (bigint_add r (mk_bigint [w] False)) (bi_val r + uint w)"
    using bigint_add_val [OF assms(1) single_limb_ok(1) [of w]] single_limb_ok(2) [of w] by (simp split: if_splits)
  then show ?thesis using that by (auto simp: returns_def split: outcome.splits)
qed

text \<open>Up to 19 digits the loop runs once and adds the value of the digits.\<close>

lemma decimal_parse_last:
  assumes "list_all is_ascii_digit (take n s)" "0 < n" "n \<le> 19" "n \<le> length s"
    and "bi_ok r" "0 \<le> bi_val r" "bi_val r < 10 ^ 1000"
  obtains r' where "decimal_parse_loop s n r = Ok r'" "bi_ok r'" "bi_val r' = bi_val r + int (parse_radix 10 (take n s))"
proof -
  have ne: "take n s \<noteq> []" "length (take n s) \<le> 19" using assms(2-4) by auto
  obtain w where w: "(parse_u64 10 (take n s) (Err BigIntError.InvalidString) :: (u64, BigIntError) outcome) = Ok w"
    "uint w = int (parse_radix 10 (take n s))" using parse_chunk [OF assms(1) ne] .
  obtain r' where r': "bigint_add r (mk_bigint [w] False) = Ok r'" "bi_ok r'" "bi_val r' = bi_val r + uint w"
    using add_small [OF assms(5-7)] .
  have "decimal_parse_loop s n r = decimal_parse_loop s 0 r'"
    using assms(2,3) w(1) r'(1) by (simp add: decimal_parse_loop.simps [of s n])
  also have "\<dots> = Ok r'" by (simp add: decimal_parse_loop.simps [of s 0])
  finally show ?thesis using that r' w(2) by simp
qed

lemma from_decimal_digits:
  assumes "list_all is_ascii_digit s" "s \<noteq> []"
  shows "str_trim s = s" "strip_sign s = (s, False)" "take 2 s \<noteq> ''0x''" "take 2 s \<noteq> ''0X''"
    "from_decimal_str s = decimal_parse_loop s (length s) bi_zero"
proof -
  show t: "str_trim s = s"
    using assms(1) digit_not_whitespace(2) by (intro str_trim_id) (auto simp: list_all_iff)
  obtain c r where s: "s = c # r" using assms(2) by (cases s) auto
  have "c \<noteq> CHR ''-''" "c \<noteq> CHR ''+''"
    using assms(1) s by (auto simp: is_ascii_digit_def)
  then show ss: "strip_sign s = (s, False)" by (simp add: s strip_sign_def)
  have "\<not> is_ascii_digit (CHR ''x'')" "\<not> is_ascii_digit (CHR ''X'')" by (simp_all add: is_ascii_digit_def)
  moreover have "list_all is_ascii_digit (take 2 s)" using assms(1) by (auto simp: list_all_iff dest: in_set_takeD)
  ultimately show "take 2 s \<noteq> ''0x''" "take 2 s \<noteq> ''0X''" by auto
  have "bind_ok m Ok = m" for m :: "(bigint, BigIntError) outcome" by (cases m) simp_all
  then show "from_decimal_str s = decimal_parse_loop s (length s) bi_zero"
    using assms by (simp add: from_decimal_str_def t ss)
qed

lemma num_string_digits: "list_all is_ascii_digit (num_string 10 97 n)"
  by (rule num_string_chars) (simp_all add: digit_char_digit)

lemma decimal_round_trip:
  assumes "bi_ok b" "\<bar>bi_val b\<bar> < 10 ^ 19"
  shows "\<exists>s. bigint_display False b = Ok s \<and> bigint_from_str s = Ok b"
proof -
  let ?s = "num_string 10 97 (nat \<bar>bi_val b\<bar>)"
  note d = from_decimal_digits [OF num_string_digits num_string_nonempty, of "nat \<bar>bi_val b\<bar>"]
  have "fits (bi_val b)" using assms(2) by (simp add: fits_def)
  then have ds: "to_decimal_string b = Ok ?s" by (rule to_decimal_string_val [OF assms(1)])
  have len: "length ?s \<le> 19" using num_string_length [of 10 "nat \<bar>bi_val b\<bar>" 18 97] assms(2) by simp
  obtain r where r: "decimal_parse_loop ?s (length ?s) bi_zero = Ok r" "bi_ok r" "bi_val r = \<bar>bi_val b\<bar>"
    using decimal_parse_last [of "length ?s" ?s bi_zero] len num_string_digits parse_num_string [of 10 97]
    by (auto simp: Suc_le_eq)
  show ?thesis
  proof (cases "bi_sign b")
    case False
    then have "r = b" using bi_ok_unique [OF r(2) assms(1)] r(3) bi_okD(6) [OF assms(1)] by simp
    moreover have "bigint_display False b = Ok ?s"
    proof (cases "is_zero b")
      case True
      then have "?s = ''0''"
        using bi_okD(4) [OF assms(1)] digit_char_0 [of 97] by (simp add: num_string.simps [of 10 97 0])
      with True show ?thesis by (simp add: bigint_display_def)
    qed (use False ds in \<open>simp add: bigint_display_def\<close>)
    ultimately show ?thesis using r(1) d by (simp add: bigint_from_str_def)
  next
    case True
    have neg: "bi_val b < 0" using bi_okD(6) [OF assms(1)] True by simp
    then have "bi_limbs r = bi_limbs b"
      using normal_unique [OF bi_okD(1) [OF r(2)] bi_okD(1) [OF assms(1)]] bi_okD(7) [OF r(2)] bi_okD(7) [OF assms(1)] r(3) by simp
    then have b: "mk_bigint (bi_limbs r) True = b" using True by (simp add: mk_bigint_def)
    have t: "str_trim (CHR ''-'' # ?s) = CHR ''-'' # ?s"
      using num_string_digits [of "nat \<bar>bi_val b\<bar>"] digit_not_whitespace(2)
      by (intro str_trim_id) (auto simp: list_all_iff is_whitespace_def)
    have "bigint_from_str (CHR ''-'' # ?s) = from_decimal_str (CHR ''-'' # ?s)"
      by (simp add: bigint_from_str_def t)
    also have "\<dots> = Ok b"
      using num_string_digits r(1) b by (simp add: from_decimal_str_def t strip_sign_def)
    finally show ?thesis using True ds neg bi_okD(4) [OF assms(1)] by (simp add: bigint_display_def)
  qed
qed

lemma decimal_parse_two_chunks:
  assumes "list_all is_ascii_digit (l @ r)" "l \<noteq> []" "length l \<le> 19" "length r = 19"
  obtains b where "bigint_from_str (l @ r) = Ok b" "bi_ok b" "bi_val b = int (parse_radix 10 l + parse_radix 10 r)"
proof -
  let ?s = "l @ r"
  have rd: "list_all is_ascii_digit r" "r \<noteq> []" "length r \<le> 19" using assms by auto
  obtain w where w: "(parse_u64 10 r (Err BigIntError.InvalidString) :: (u64, BigIntError) outcome) = Ok w"
    "uint w = int (parse_radix 10 r)" using parse_chunk [OF rd] .
  have m: "bigint_mul bi_zero (mk_bigint [CHUNK_BASE] False) = Ok bi_zero"
    using chunk_base_ok(1) bi_okD(3) [OF bi_zero_ok(1)] by (simp add: bigint_mul_def bi_okD(3) is_zero_def bi_zero_def)
  obtain b1 where b1: "bigint_add bi_zero (mk_bigint [w] False) = Ok b1" "bi_ok b1" "bi_val b1 = uint w"
    using add_small [of bi_zero w] by auto
  have st: "decimal_parse_loop ?s (length ?s) bi_zero = decimal_parse_loop ?s (length l) b1"
    using assms(2,4) w(1) m b1(1) by (simp add: decimal_parse_loop.simps [of ?s "length l + 19"])
  have "bi_val b1 < 10 ^ 1000" using digits_value_less [OF rd(1)] assms(4) b1(3) w(2) by simp
  note lt = this
  have tk: "take (length l) ?s = l" "length l \<le> length ?s" by simp_all
  have ld: "list_all is_ascii_digit (take (length l) ?s)" "0 < length l" "0 \<le> bi_val b1"
    using assms(1,2) b1(3) by (simp_all add: tk)
  obtain b where b: "decimal_parse_loop ?s (length l) b1 = Ok b" "bi_ok b" "bi_val b = bi_val b1 + int (parse_radix 10 l)"
    using decimal_parse_last [OF ld(1,2) assms(3) tk(2) b1(2) ld(3) lt] unfolding tk(1) by blast
  have ne: "?s \<noteq> []" using assms(2) by simp
  note d = from_decimal_digits [OF assms(1) ne]
  have "bigint_from_str ?s = Ok b"
    unfolding bigint_from_str_def Let_def d(1) using d(3,4) ne by (simp only: d(5) st b(1)) simp
  then show ?thesis using that b w(2) b1(3) by simp
qed

subsection \<open>Hexadecimal strings\<close>

lemma hex_limbs_Cons:
  assumes "xs \<noteq> []"
  shows "hex_limbs l (x # xs) = hex_limbs l xs @ pad_string 16 (num_string 16 l (unat x))"
proof -
  obtain k where "length xs = Suc k" using assms by (cases xs) simp_all
  then show ?thesis
    by (simp add: hex_limbs_def enumerate_Suc_eq rev_map comp_def case_prod_unfold cong: if_cong)
qed

lemma pad_hex: "pad_string 16 (num_string 16 l (unat (x :: u64))) = fixed 16 l 16 (unat x)"
  using pad_num_string [of 16 "unat x" 15 l] unat_u64_less [of x] by (simp del: fixed.simps)

lemma hex_limbs_chars: "xs \<noteq> [] \<Longrightarrow> l = 65 \<or> l = 97 \<Longrightarrow> list_all is_ascii_hexdigit (hex_limbs l xs) \<and> length xs \<le> length (hex_limbs l xs)"
proof (induction xs)
  case (Cons x xs)
  show ?case
  proof (cases "xs = []")
    case True
    have "list_all is_ascii_hexdigit (num_string 16 l (unat x))"
      using Cons.prems(2) by (intro num_string_chars hexdigit_char) simp_all
    moreover have "0 < length (num_string 16 l (unat x))" by simp
    ultimately show ?thesis using True by (simp add: hex_limbs_def Suc_le_eq del: length_greater_0_conv)
  next
    case False
    have "list_all is_ascii_hexdigit (fixed 16 l 16 (unat x))"
      using Cons.prems(2) by (intro fixed_chars hexdigit_char) simp_all
    with Cons False show ?thesis by (simp add: hex_limbs_Cons pad_hex del: fixed.simps)
  qed
qed simp

lemma parse_hex_limb:
  assumes "parse_radix 16 s = unat (x :: u64)" "s \<noteq> []"
  shows "(parse_u64 16 s f :: (u64, 'e) outcome) = Ok x"
  using assms unat_u64_less [of x] by (simp add: parse_u64_def)

lemma hex_parse_limbs:
  assumes "l = 65 \<or> l = 97"
  shows "xs \<noteq> [] \<Longrightarrow> length xs \<le> n \<Longrightarrow> hex_parse_loop n (rev (hex_limbs l xs)) = Ok xs"
proof (induction xs arbitrary: n)
  case (Cons x xs)
  then obtain m where n: "n = Suc m" "length xs \<le> m" by (cases n) auto
  have e: "hex_parse_loop m [] = Ok []" for m by (cases m) simp_all
  show ?case
  proof (cases "xs = []")
    case True
    let ?s = "num_string 16 l (unat x)"
    have "length ?s \<le> 16" using num_string_length [of 16 "unat x" 15 l] unat_u64_less [of x] by simp
    moreover have "(parse_u64 16 ?s (Err BigIntError.InvalidString) :: (u64, BigIntError) outcome) = Ok x"
      using assms by (intro parse_hex_limb parse_num_string) simp_all
    ultimately show ?thesis using True n e by (simp add: hex_limbs_def)
  next
    case False
    let ?f = "fixed 16 l 16 (unat x)"
    have p: "(parse_u64 16 ?f (Err BigIntError.InvalidString) :: (u64, BigIntError) outcome) = Ok x"
    proof (rule parse_hex_limb)
      show "parse_radix 16 ?f = unat x"
        using assms unat_u64_less [of x] by (intro parse_fixed) simp_all
      show "?f \<noteq> []" using length_fixed [of 16 l 16 "unat x"] by (metis list.size(3) zero_neq_numeral)
    qed
    define g where "g = rev ?f"
    have g: "length g = 16" "rev g = ?f" by (simp_all only: g_def length_rev length_fixed rev_rev_ident)
    have "rev (hex_limbs l (x # xs)) = g @ rev (hex_limbs l xs)"
      by (simp only: hex_limbs_Cons [OF False] pad_hex rev_append g_def)
    moreover have "hex_parse_loop m (rev (hex_limbs l xs)) = Ok xs" using Cons.IH False n(2) by simp
    moreover have "g \<noteq> []" using g(1) by auto
    ultimately show ?thesis using p n(1) g(1) by (simp flip: g(2))
  qed
qed simp

lemma hex_round_trip:
  assumes "bi_ok b" "\<not> is_zero b" "l = 65 \<or> l = 97"
  shows "bigint_from_str (''0x'' @ hex_limbs l (bi_limbs b)) = Ok (mk_bigint (bi_limbs b) False)"
proof -
  let ?h = "hex_limbs l (bi_limbs b)"
  have ne: "bi_limbs b \<noteq> []" by (rule bi_okD(2) [OF assms(1)])
  note c = hex_limbs_chars [OF ne assms(3)]
  have ws: "list_all (\<lambda>c. \<not> is_whitespace c) ?h"
    using c digit_not_whitespace(1) by (auto simp: list_all_iff)
  have t1: "str_trim ?h = ?h" using ws by (rule str_trim_id)
  have t2: "str_trim (''0x'' @ ?h) = ''0x'' @ ?h"
    using ws by (intro str_trim_id) (simp add: is_whitespace_def)
  have "?h \<noteq> []" using c ne by auto
  moreover have "hex_parse_loop (length ?h) (rev ?h) = Ok (bi_limbs b)"
    using hex_parse_limbs [OF assms(3) ne] c by simp
  moreover have "trim (bi_limbs b) = bi_limbs b" by (rule trim_id [OF bi_okD(1) [OF assms(1)]])
  ultimately show ?thesis using t1 t2 c by (simp add: bigint_from_str_def from_hex_str_def)
qed

subsection \<open>Properties\<close>

text \<open>C35: The wire format is canonical: \<open>deserialize\<close> accepts a byte string exactly when it is the
  serialization of a canonical value of at most 64 limbs, and returns that value. Every value
  has one encoding and no other byte string is accepted.\<close>

theorem bigint_wire_canonical:
  "bigint_deserialize data = Ok b \<longleftrightarrow> wire_ok b \<and> to_bytes (bigint_serialize b) = data"
  by (rule bigint_wire.decode_iff)

text \<open>The two's complement encoder on canonical values: it returns the 16 big-endian bytes of
  the value modulo \<open>2 ^ 128\<close>, and it accepts everything above \<open>- 2 ^ 127 - 2 ^ 64\<close> and below
  \<open>2 ^ 127\<close>. The negative bound is weaker than the \<open>i128\<close> range the code means to check.\<close>

theorem bigint_to_i128_bytes_correct:
  assumes "bi_ok b"
  shows "bigint_to_i128_bytes b =
    (if - (2 ^ 127) - 2 ^ 64 < bi_val b \<and> bi_val b < 2 ^ 127 then Ok (be_bytes 16 (bi_val b))
     else Err BigIntError.OutOfI128Range)"
  by (rule bigint_to_i128_bytes_val [OF assms])

theorem bigint_to_i128_bytes_witness:
  "bigint_to_i128_bytes (mk_bigint [1, 9223372036854775808] True) = Ok (be_bytes 16 (2 ^ 127 - 1))"
proof -
  let ?b = "mk_bigint [1, 9223372036854775808] True"
  have b: "bi_ok ?b" "bi_val ?b = - (2 ^ 127) - 1" by (simp_all add: bi_ok_def is_canonical_def bi_val_def signed_def)
  have "be_bytes 16 (- (2 ^ 127) - 1) = be_bytes 16 (2 ^ 127 - 1)" by (rule be_bytes_16_cong) simp
  then show ?thesis using bigint_to_i128_bytes_correct [OF b(1)] unfolding b(2) by simp
qed

text \<open>The decimal printer, which divides by \<open>10 ^ 19\<close> and pads the chunks, produces the decimal
  numeral of the magnitude, with a minus sign for negative values, for every canonical value
  within the bound; it does not panic.\<close>

theorem bigint_display_correct:
  assumes "bi_ok b" "fits (bi_val b)"
  shows "bigint_display False b =
    Ok ((if bi_val b < 0 then ''-'' else []) @ num_string 10 97 (nat \<bar>bi_val b\<bar>))"
proof (cases "is_zero b")
  case True
  then have "bi_val b = 0" using bi_okD(4) [OF assms(1)] by simp
  with True show ?thesis
    using digit_char_0 [of 97] by (simp add: bigint_display_def num_string.simps [of 10 97 0])
next
  case False
  then show ?thesis
    using to_decimal_string_val [OF assms] bi_okD(6) [OF assms(1)] by (simp add: bigint_display_def)
qed

theorem bigint_display_witness: "bigint_display False (mk_bigint [42] True) = Ok ''-42''"
proof -
  have "bi_ok (mk_bigint [42] True)" "bi_val (mk_bigint [42] True) = - 42"
    by (simp_all add: bi_ok_def is_canonical_def bi_val_def signed_def)
  moreover have "num_string 10 97 42 = ''42''"
    by (simp add: num_string.simps [of 10 97 42] num_string.simps [of 10 97 4] digit_char_def char_of_eq_iff)
  ultimately show ?thesis using bigint_display_correct [of "mk_bigint [42] True"] by (simp add: fits_def)
qed

text \<open>Printing a canonical value of at most 19 decimal digits and parsing the string gives the
  value back.\<close>

theorem bigint_decimal_round_trip:
  assumes "bi_ok b" "\<bar>bi_val b\<bar> < 10 ^ 19"
  shows "\<exists>s. bigint_display False b = Ok s \<and> bigint_from_str s = Ok b"
  by (rule decimal_round_trip [OF assms])

theorem bigint_decimal_round_trip_witness:
  "\<exists>s. bigint_display False (mk_bigint [42] True) = Ok s \<and> bigint_from_str s = Ok (mk_bigint [42] True)"
  by (rule bigint_decimal_round_trip) (simp_all add: bi_ok_def is_canonical_def bi_val_def signed_def)

text \<open>A decimal string of 20 to 38 digits is parsed to the sum of its leading part and of its
  last 19 digits, read as two numbers: the chunks are taken from the right, but the loop
  multiplies as if they came from the left, so no power of ten is ever applied.\<close>

theorem bigint_from_str_long:
  assumes "list_all is_ascii_digit (l @ r)" "l \<noteq> []" "length l \<le> 19" "length r = 19"
  shows "returns (bigint_from_str (l @ r)) (int (parse_radix 10 l + parse_radix 10 r))"
  using decimal_parse_two_chunks [OF assms] by (metis returns_Ok)

theorem bigint_from_str_long_witness: "returns (bigint_from_str ''10000000000000000000'') 1"
proof -
  have "parse_radix 10 ''1'' = 1" "parse_radix 10 ''0000000000000000000'' = 0"
    by (simp_all add: parse_radix_def digit_value_def)
  then show ?thesis
    using bigint_from_str_long [of "''1''" "''0000000000000000000''"] by (simp add: is_ascii_digit_def)
qed

text \<open>A non-zero canonical value printed in hexadecimal, lower or upper case, with the
  prefix, is parsed to its magnitude: all limbs are recovered and the sign is not, because the
  printers drop it.\<close>

theorem bigint_hex_round_trip:
  assumes "bi_ok b" "\<not> is_zero b"
  shows "bigint_from_str (bigint_lower_hex True b) = Ok (mk_bigint (bi_limbs b) False)
    \<and> bigint_from_str (bigint_upper_hex True b) = Ok (mk_bigint (bi_limbs b) False)
    \<and> (\<exists>s. bigint_display True b = Ok s \<and> bigint_from_str s = Ok (mk_bigint (bi_limbs b) False))"
  using hex_round_trip [OF assms, of 97] hex_round_trip [OF assms, of 65] assms(2)
  by (simp add: bigint_lower_hex_def bigint_upper_hex_def bigint_display_def to_hex_string_def to_upper_hex_string_def)

theorem bigint_hex_round_trip_witness:
  "bigint_from_str (bigint_lower_hex True (mk_bigint [5, 171] True)) = Ok (mk_bigint [5, 171] False)"
  using bigint_hex_round_trip [of "mk_bigint [5, 171] True"]
  by (simp add: bi_ok_def is_canonical_def is_zero_def)

end
