(* ===== verification/Dqa.thy ===== *)
theory Dqa
  imports FixedPoint Bytes
begin

text \<open>
  Deterministic Quant Arithmetic, \<open>determin/src/dqa.rs\<close>: a number \<open>value / 10 ^ scale\<close> with an
  \<open>i64\<close> value and a scale from 0 to 18. The theory models the constructor, the canonical form,
  the four arithmetic operations with their overflow checks and banker's rounding, comparison,
  negation, absolute value, coercion to a column scale and the 16-byte wire form, and proves
  that each operation returns the exact (or correctly rounded) result or the error the code
  documents, never panics on well-formed operands, and always returns the unique canonical
  representation of its result.
\<close>

subsection \<open>Data\<close>

definition MAX_SCALE :: nat where
  "MAX_SCALE = 18"

definition POW10 :: "int list" where
  "POW10 =
    [1,
     10,
     100,
     1000,
     10000,
     100000,
     1000000,
     10000000,
     100000000,
     1000000000,
     10000000000,
     100000000000,
     1000000000000,
     10000000000000,
     100000000000000,
     1000000000000000,
     10000000000000000,
     100000000000000000,
     1000000000000000000,
     10000000000000000000,
     100000000000000000000,
     1000000000000000000000,
     10000000000000000000000,
     100000000000000000000000,
     1000000000000000000000000,
     10000000000000000000000000,
     100000000000000000000000000,
     1000000000000000000000000000,
     10000000000000000000000000000,
     100000000000000000000000000000,
     1000000000000000000000000000000,
     10000000000000000000000000000000,
     100000000000000000000000000000000,
     1000000000000000000000000000000000,
     10000000000000000000000000000000000,
     100000000000000000000000000000000000,
     1000000000000000000000000000000000000]"

definition POW10_I64 :: "int list" where
  "POW10_I64 =
    [1,
     10,
     100,
     1000,
     10000,
     100000,
     1000000,
     10000000,
     100000000,
     1000000000,
     10000000000,
     100000000000,
     1000000000000,
     10000000000000,
     100000000000000,
     1000000000000000,
     10000000000000000,
     100000000000000000,
     1000000000000000000]"

datatype DqaError = Overflow | DivisionByZero | InvalidScale | InvalidInput | InvalidEncoding

record dqa =
  dqa_value :: int
  dqa_scale :: nat

definition mk_dqa :: "int \<Rightarrow> nat \<Rightarrow> dqa" where
  "mk_dqa v s = \<lparr>dqa_value = v, dqa_scale = s\<rparr>"

definition CANONICAL_ZERO :: dqa where
  "CANONICAL_ZERO = mk_dqa 0 0"

definition dqa_wf :: "dqa \<Rightarrow> bool" where
  "dqa_wf d \<longleftrightarrow> i64_range (dqa_value d) \<and> dqa_scale d \<le> MAX_SCALE"

definition dqa_val :: "dqa \<Rightarrow> rat" where
  "dqa_val d = fp_val (dqa_value d) (dqa_scale d)"

definition dqa_canonical :: "dqa \<Rightarrow> bool" where
  "dqa_canonical d \<longleftrightarrow> fp_canonical (dqa_value d) (dqa_scale d)"

subsection \<open>Operations\<close>

definition dqa_new :: "int \<Rightarrow> nat \<Rightarrow> (dqa, DqaError) outcome" where
  "dqa_new value scale =
     (if scale > MAX_SCALE then Err DqaError.InvalidScale else Ok (mk_dqa value scale))"

definition dqa_negate :: "dqa \<Rightarrow> (dqa, DqaError) outcome" where
  "dqa_negate a =
     (if dqa_value a = I64_MIN then Err DqaError.Overflow
      else Ok (mk_dqa (- dqa_value a) (dqa_scale a)))"

definition dqa_abs :: "dqa \<Rightarrow> (dqa, DqaError) outcome" where
  "dqa_abs a =
     (if dqa_value a = I64_MIN then Err DqaError.Overflow
      else Ok (mk_dqa \<bar>dqa_value a\<bar> (dqa_scale a)))"

definition sign :: "int \<Rightarrow> int" where
  "sign value = (if value > 0 then 1 else if value < 0 then - 1 else 0)"

fun canonicalize_loop :: "int \<Rightarrow> nat \<Rightarrow> int \<times> nat" where
  "canonicalize_loop value scale =
     (if rust_rem value 10 = 0 \<and> scale > 0
      then canonicalize_loop (rust_div value 10) (scale - 1)
      else (value, scale))"

declare canonicalize_loop.simps [simp del]

definition canonicalize :: "dqa \<Rightarrow> dqa" where
  "canonicalize d =
     (if dqa_value d = 0 then mk_dqa 0 0
      else case canonicalize_loop (dqa_value d) (dqa_scale d) of (v, s) \<Rightarrow> mk_dqa v s)"

definition align_scales :: "dqa \<Rightarrow> dqa \<Rightarrow> (int \<times> int \<times> nat, DqaError) outcome" where
  "align_scales a b =
     (let result_scale = max (dqa_scale a) (dqa_scale b) in
      if dqa_scale a = dqa_scale b then Ok (dqa_value a, dqa_value b, result_scale)
      else
        let diff = nat \<bar>int (dqa_scale a) - int (dqa_scale b)\<bar> in
        bind_ok (at_index POW10_I64 diff) (\<lambda>power.
          if dqa_scale a > dqa_scale b then
            let intermediate = as_i128 (dqa_value b * power) in
            if intermediate > I64_MAX \<or> intermediate < I64_MIN then Err DqaError.Overflow
            else Ok (dqa_value a, as_i64 intermediate, result_scale)
          else
            let intermediate = as_i128 (dqa_value a * power) in
            if intermediate > I64_MAX \<or> intermediate < I64_MIN then Err DqaError.Overflow
            else Ok (as_i64 intermediate, dqa_value b, result_scale)))"

definition round_half_even_with_remainder :: "int \<Rightarrow> int \<Rightarrow> int \<Rightarrow> int \<Rightarrow> int" where
  "round_half_even_with_remainder quot remainder divisor result_sign =
     (let double_rem = as_i128 (\<bar>remainder\<bar> * 2); abs_divisor = \<bar>divisor\<bar> in
      if double_rem < abs_divisor then quot
      else if double_rem > abs_divisor then as_i128 (quot + result_sign)
      else if rust_rem \<bar>quot\<bar> 2 = 0 then quot
      else as_i128 (quot + result_sign))"

definition dqa_add :: "dqa \<Rightarrow> dqa \<Rightarrow> (dqa, DqaError) outcome" where
  "dqa_add a b =
     bind_ok (align_scales a b) (\<lambda>(a_val, b_val, result_scale).
       let result_value = as_i128 (a_val + b_val) in
       if result_value > I64_MAX \<or> result_value < I64_MIN then Err DqaError.Overflow
       else Ok (canonicalize (mk_dqa (as_i64 result_value) result_scale)))"

definition dqa_sub :: "dqa \<Rightarrow> dqa \<Rightarrow> (dqa, DqaError) outcome" where
  "dqa_sub a b =
     bind_ok (align_scales a b) (\<lambda>(a_val, b_val, result_scale).
       let result_value = as_i128 (a_val - b_val) in
       if result_value > I64_MAX \<or> result_value < I64_MIN then Err DqaError.Overflow
       else Ok (canonicalize (mk_dqa (as_i64 result_value) result_scale)))"

definition dqa_mul :: "dqa \<Rightarrow> dqa \<Rightarrow> (dqa, DqaError) outcome" where
  "dqa_mul a b =
     (let intermediate = as_i128 (dqa_value a * dqa_value b);
          result_scale = (dqa_scale a + dqa_scale b) mod 256 in
      bind_ok
        (if result_scale > MAX_SCALE then
           bind_ok (at_index POW10 (result_scale - MAX_SCALE)) (\<lambda>p.
             let quot = rust_div intermediate p;
                 round_remainder = rust_rem intermediate p;
                 result_sign = sign (dqa_value a) * sign (dqa_value b) in
             Ok (round_half_even_with_remainder quot round_remainder p result_sign, MAX_SCALE))
         else Ok (intermediate, result_scale))
        (\<lambda>(intermediate, result_scale).
           if intermediate > I64_MAX \<or> intermediate < I64_MIN then Err DqaError.Overflow
           else Ok (canonicalize (mk_dqa (as_i64 intermediate) result_scale))))"

definition dqa_div :: "dqa \<Rightarrow> dqa \<Rightarrow> (dqa, DqaError) outcome" where
  "dqa_div a b =
     (if dqa_value b = 0 then Err DqaError.DivisionByZero
      else
        let target_scale = max (dqa_scale a) (dqa_scale b);
            power = ((target_scale + dqa_scale b) mod 256 + (256 - dqa_scale a)) mod 256 in
        bind_ok (at_index POW10 power) (\<lambda>p.
          if \<not> i128_range (dqa_value a * p) then Err DqaError.Overflow
          else
            let scaled = dqa_value a * p;
                quot = rust_div scaled (dqa_value b);
                remainder = rust_rem scaled (dqa_value b);
                result_sign = sign (dqa_value a) * sign (dqa_value b);
                abs_b = \<bar>dqa_value b\<bar>;
                result_value =
                  round_half_even_with_remainder quot remainder abs_b result_sign in
            if result_value > I64_MAX \<or> result_value < I64_MIN then Err DqaError.Overflow
            else Ok (canonicalize (mk_dqa (as_i64 result_value) target_scale))))"

definition dqa_cmp :: "dqa \<Rightarrow> dqa \<Rightarrow> (int, DqaError) outcome" where
  "dqa_cmp a b =
     (let a_canonical = canonicalize a; b_canonical = canonicalize b in
      if dqa_scale a_canonical = dqa_scale b_canonical then
        Ok (if dqa_value a_canonical < dqa_value b_canonical then - 1
            else if dqa_value a_canonical > dqa_value b_canonical then 1 else 0)
      else
        let diff = nat \<bar>int (dqa_scale a_canonical) - int (dqa_scale b_canonical)\<bar> in
        bind_ok (at_index POW10 diff) (\<lambda>scale_factor.
          let (compare_a, compare_b) =
                (if dqa_scale a_canonical > dqa_scale b_canonical
                 then (dqa_value a_canonical, as_i128 (dqa_value b_canonical * scale_factor))
                 else (as_i128 (dqa_value a_canonical * scale_factor), dqa_value b_canonical)) in
          Ok (if compare_a < compare_b then - 1 else if compare_a > compare_b then 1 else 0)))"

definition dqa_assign_to_column :: "dqa \<Rightarrow> nat \<Rightarrow> (dqa, DqaError) outcome" where
  "dqa_assign_to_column expr_result column_scale =
     (if dqa_scale expr_result > column_scale then
        bind_ok (at_index POW10 (dqa_scale expr_result - column_scale)) (\<lambda>divisor.
          let value_i128 = dqa_value expr_result;
              quot = rust_div value_i128 divisor;
              remainder = rust_rem value_i128 divisor;
              result_sign = sgn (dqa_value expr_result);
              result_value = round_half_even_with_remainder quot remainder divisor result_sign in
          if result_value > I64_MAX \<or> result_value < I64_MIN then Err DqaError.Overflow
          else Ok (mk_dqa (as_i64 result_value) column_scale))
      else if dqa_scale expr_result < column_scale then
        bind_ok (at_index POW10 (column_scale - dqa_scale expr_result)) (\<lambda>p.
          let intermediate = as_i128 (dqa_value expr_result * p) in
          if intermediate > I64_MAX \<or> intermediate < I64_MIN then Err DqaError.Overflow
          else Ok (mk_dqa (as_i64 intermediate) column_scale))
      else Ok expr_result)"

subsection \<open>The wire form\<close>

text \<open>
  \<open>DqaEncoding\<close> holds the value after \<open>to_be\<close>, so its value field depends on the byte order of
  the host; the byte writer then emits \<open>to_be_bytes\<close> of that field. A reader is the list of
  the bytes still to be read.
\<close>

record dqa_encoding =
  enc_value :: int
  enc_scale :: nat
  enc_reserved :: "u8 list"

datatype io_error = UnexpectedEof | InvalidData DqaError

definition from_dqa :: "endian \<Rightarrow> dqa \<Rightarrow> dqa_encoding" where
  "from_dqa host d =
     (let canonical = canonicalize d in
      \<lparr>enc_value = i64_to_be host (dqa_value canonical),
       enc_scale = dqa_scale canonical,
       enc_reserved = replicate 7 0\<rparr>)"

definition to_dqa :: "endian \<Rightarrow> dqa_encoding \<Rightarrow> (dqa, DqaError) outcome" where
  "to_dqa host e =
     (if enc_scale e > MAX_SCALE then Err DqaError.InvalidScale
      else if (\<exists>b \<in> set (enc_reserved e). b \<noteq> 0) then Err DqaError.InvalidEncoding
      else Ok (mk_dqa (i64_from_be host (enc_value e)) (enc_scale e)))"

definition encoding_serialize :: "dqa_encoding \<Rightarrow> u8 list" where
  "encoding_serialize e = be_bytes 8 (enc_value e) @ [of_nat (enc_scale e)] @ enc_reserved e"

definition encoding_deserialize :: "u8 list \<Rightarrow> (dqa_encoding \<times> u8 list, io_error) outcome" where
  "encoding_deserialize reader =
     (if length reader < 16 then Err UnexpectedEof
      else
        let buf = take 16 reader in
        Ok (\<lparr>enc_value = as_i64 (of_be_bytes (take 8 buf)),
             enc_scale = unat (buf ! 8),
             enc_reserved = drop 9 buf\<rparr>, drop 16 reader))"

definition dqa_serialize :: "endian \<Rightarrow> dqa \<Rightarrow> u8 list" where
  "dqa_serialize host d = encoding_serialize (from_dqa host d)"

definition dqa_deserialize :: "endian \<Rightarrow> u8 list \<Rightarrow> (dqa \<times> u8 list, io_error) outcome" where
  "dqa_deserialize host reader =
     bind_ok (encoding_deserialize reader) (\<lambda>(e, rest).
       bind_ok (map_err InvalidData (to_dqa host e)) (\<lambda>d. Ok (d, rest)))"

subsection \<open>Tables, canonical form and rounding\<close>

lemma POW10_eq: "POW10 = map (\<lambda>i. 10 ^ i) [0..<37]"
  by (simp add: POW10_def upt_rec)

lemma POW10_I64_eq: "POW10_I64 = map (\<lambda>i. 10 ^ i) [0..<19]"
  by (simp add: POW10_I64_def upt_rec)

lemma POW10_index [simp]: "k < 37 \<Longrightarrow> at_index POW10 k = Ok (10 ^ k)"
  by (simp add: at_index_def POW10_eq)

lemma POW10_I64_index [simp]: "k < 19 \<Longrightarrow> at_index POW10_I64 k = Ok (10 ^ k)"
  by (simp add: at_index_def POW10_I64_eq)

lemma pow10_le: "k \<le> n \<Longrightarrow> (10::int) ^ k \<le> 10 ^ n"
  by (simp add: power_increasing)

lemma mk_dqa_simps [simp]: "dqa_value (mk_dqa v s) = v" "dqa_scale (mk_dqa v s) = s"
  by (simp_all add: mk_dqa_def)

lemma mk_dqa_eq_iff [simp]: "mk_dqa v s = mk_dqa w t \<longleftrightarrow> v = w \<and> s = t"
  by (simp add: mk_dqa_def)

lemma sign_eq_sgn [simp]: "sign x = sgn x"
  by (simp add: sign_def)

interpretation dqa_strip: zero_stripper canonicalize_loop
  by unfold_locales
    (subst canonicalize_loop.simps, auto simp: rust_rem_0_iff_dvd)+

lemma canonicalize_val [simp]: "dqa_val (canonicalize d) = dqa_val d"
  by (auto simp: canonicalize_def dqa_val_def dest: dqa_strip.strip_val split: prod.split)

lemma canonicalize_canonical [simp]: "dqa_canonical (canonicalize d)"
  by (auto simp: canonicalize_def dqa_canonical_def dest: dqa_strip.strip_canonical
      split: prod.split) (simp add: fp_canonical_def)

lemma canonicalize_wf [simp]:
  assumes "dqa_wf d"
  shows "dqa_wf (canonicalize d)"
proof (cases "dqa_value d = 0")
  case True
  then show ?thesis by (simp add: canonicalize_def dqa_wf_def i64_range_def)
next
  case False
  obtain v s where vs: "canonicalize_loop (dqa_value d) (dqa_scale d) = (v, s)" by force
  have "I64_MIN \<le> v \<and> v \<le> I64_MAX"
    using dqa_strip.strip_range [OF vs, of "- I64_MIN" I64_MAX] assms
    by (simp add: dqa_wf_def i64_range_def)
  moreover have "s \<le> MAX_SCALE"
    using dqa_strip.strip_scale_le [OF vs] assms by (simp add: dqa_wf_def)
  ultimately show ?thesis using False vs by (simp add: canonicalize_def dqa_wf_def i64_range_def)
qed

lemma dqa_canonical_unique:
  "dqa_canonical c \<Longrightarrow> dqa_canonical d \<Longrightarrow> dqa_val c = dqa_val d \<Longrightarrow> c = d"
  using fp_canonical_unique [of "dqa_value c" "dqa_scale c" "dqa_value d" "dqa_scale d"]
  by (simp add: dqa_canonical_def dqa_val_def)

lemma canonicalize_eq_iff: "canonicalize c = canonicalize d \<longleftrightarrow> dqa_val c = dqa_val d"
  by (metis canonicalize_canonical canonicalize_val dqa_canonical_unique)

lemma canonicalize_id: "dqa_canonical d \<Longrightarrow> canonicalize d = d"
  by (simp add: dqa_canonical_unique)

text \<open>Returning the canonical form of a number is the same as returning that number.\<close>

lemma canonicalize_eq_canonical:
  "dqa_wf d \<Longrightarrow> c = canonicalize d \<longleftrightarrow> dqa_wf c \<and> dqa_canonical c \<and> dqa_val c = dqa_val d"
  by (metis canonicalize_canonical canonicalize_val canonicalize_wf dqa_canonical_unique)

lemma rhe_correct:
  assumes n: "i128_range n" and d: "d \<noteq> 0" "\<bar>d\<bar> < 10 ^ 37" and d': "\<bar>d'\<bar> = \<bar>d\<bar>"
    and s: "s = sgn n * sgn d"
  shows "half_even n d (round_half_even_with_remainder (rust_div n d) (rust_rem n d) d' s)"
proof -
  let ?q = "rust_div n d" and ?m = "rust_rem n d"
  have m: "\<bar>?m\<bar> < \<bar>d\<bar>" using d by (simp add: abs_rust_rem)
  then have dbl: "as_i128 (\<bar>?m\<bar> * 2) = 2 * \<bar>?m\<bar>"
    using d by (simp add: i128_range_def mult.commute)
  have step: "as_i128 (?q + s) = ?q + s" if "\<bar>d\<bar> \<le> 2 * \<bar>?m\<bar>"
  proof -
    have d2: "2 \<le> \<bar>d\<bar>" using that m by linarith
    have "\<bar>?q\<bar> = \<bar>n\<bar> div \<bar>d\<bar>"
      using d by (simp add: abs_rust_div)
    also have "\<dots> \<le> \<bar>n\<bar> div 2" using d2 by (intro zdiv_mono2) auto
    finally have "\<bar>?q\<bar> \<le> \<bar>n\<bar> div 2" .
    moreover have "\<bar>s\<bar> \<le> 1" using s by (simp add: abs_mult abs_sgn_eq)
    ultimately have "i128_range (?q + s)" using n by (auto simp: i128_range_def)
    then show ?thesis by simp
  qed
  have ev: "rust_rem \<bar>?q\<bar> 2 = 0 \<longleftrightarrow> even ?q" by (simp add: rust_rem_0_iff_dvd)
  show ?thesis
    by (rule half_even_of_trunc [OF d(1)])
      (use step in \<open>auto simp: round_half_even_with_remainder_def Let_def dbl d' s ev\<close>)
qed

subsection \<open>Functional behaviour\<close>

text \<open>The value of a number at a larger scale.\<close>

definition at_scale :: "dqa \<Rightarrow> nat \<Rightarrow> int" where
  "at_scale d s = dqa_value d * 10 ^ (s - dqa_scale d)"

lemma at_scale_val: "dqa_scale d \<le> s \<Longrightarrow> fp_val (at_scale d s) s = dqa_val d"
  using fp_val_shift [of "dqa_value d" "s - dqa_scale d" "dqa_scale d"]
  by (simp add: at_scale_def dqa_val_def)

lemma i64_test: "x > I64_MAX \<or> x < I64_MIN \<longleftrightarrow> \<not> i64_range x"
  by (auto simp: i64_range_def)

lemma i64_times_pow10 [bounds]:
  assumes "i64_range x" "k \<le> 18"
  shows "i128_range (x * 10 ^ k)"
proof (rule i128_range_mult)
  show "\<bar>x\<bar> \<le> 9223372036854775808" using assms(1) by (rule i64_range_abs)
  show "\<bar>10 ^ k :: int\<bar> \<le> 9223372036854775808" using pow10_le [OF assms(2)] by simp
qed

lemma align_scales_spec:
  assumes "dqa_wf a" "dqa_wf b"
  defines "s \<equiv> max (dqa_scale a) (dqa_scale b)"
  shows "align_scales a b =
    (if i64_range (at_scale a s) \<and> i64_range (at_scale b s)
     then Ok (at_scale a s, at_scale b s, s) else Err DqaError.Overflow)"
proof -
  have wf: "i64_range (dqa_value a)" "i64_range (dqa_value b)"
    "dqa_scale a \<le> 18" "dqa_scale b \<le> 18"
    using assms by (simp_all add: dqa_wf_def MAX_SCALE_def)
  consider (eq) "dqa_scale a = dqa_scale b" | (gt) "dqa_scale b < dqa_scale a"
    | (lt) "dqa_scale a < dqa_scale b" by linarith
  then show ?thesis
  proof cases
    case eq
    then show ?thesis using wf by (simp add: align_scales_def at_scale_def s_def)
  next
    case gt
    then have "nat \<bar>int (dqa_scale a) - int (dqa_scale b)\<bar> = dqa_scale a - dqa_scale b"
      and "max (dqa_scale a) (dqa_scale b) = dqa_scale a" by auto
    with gt wf i64_times_pow10 [OF wf(2), of "dqa_scale a - dqa_scale b"] show ?thesis
      by (auto simp: align_scales_def at_scale_def s_def Let_def i64_test)
  next
    case lt
    then have "nat \<bar>int (dqa_scale a) - int (dqa_scale b)\<bar> = dqa_scale b - dqa_scale a"
      and "max (dqa_scale a) (dqa_scale b) = dqa_scale b" by auto
    with lt wf i64_times_pow10 [OF wf(1), of "dqa_scale b - dqa_scale a"] show ?thesis
      by (auto simp: align_scales_def at_scale_def s_def Let_def i64_test)
  qed
qed

text \<open>
  The two operands of an addition at their common scale, and the exact condition under which
  addition and subtraction succeed: the aligned operands and the result are \<open>i64\<close> values.
\<close>

definition common_scale :: "dqa \<Rightarrow> dqa \<Rightarrow> nat" where
  "common_scale a b = max (dqa_scale a) (dqa_scale b)"

definition aligned_fits :: "dqa \<Rightarrow> dqa \<Rightarrow> bool" where
  "aligned_fits a b \<longleftrightarrow>
     i64_range (at_scale a (common_scale a b)) \<and> i64_range (at_scale b (common_scale a b))"

lemma common_scale_wf: "dqa_wf a \<Longrightarrow> dqa_wf b \<Longrightarrow> common_scale a b \<le> MAX_SCALE"
  by (simp add: common_scale_def dqa_wf_def)

lemma i64_sum_i128: "i64_range x \<Longrightarrow> i64_range y \<Longrightarrow> i128_range (x + y) \<and> i128_range (x - y)"
  by (auto simp: i64_range_def i128_range_def)

lemma dqa_add_spec:
  assumes "dqa_wf a" "dqa_wf b"
  shows "dqa_add a b =
    (let s = common_scale a b; r = at_scale a s + at_scale b s in
     if aligned_fits a b \<and> i64_range r then Ok (canonicalize (mk_dqa r s))
     else Err DqaError.Overflow)"
  using align_scales_spec [OF assms]
    i64_sum_i128 [of "at_scale a (common_scale a b)" "at_scale b (common_scale a b)"]
  by (auto simp: dqa_add_def common_scale_def aligned_fits_def Let_def i64_test)

lemma dqa_sub_spec:
  assumes "dqa_wf a" "dqa_wf b"
  shows "dqa_sub a b =
    (let s = common_scale a b; r = at_scale a s - at_scale b s in
     if aligned_fits a b \<and> i64_range r then Ok (canonicalize (mk_dqa r s))
     else Err DqaError.Overflow)"
  using align_scales_spec [OF assms]
    i64_sum_i128 [of "at_scale a (common_scale a b)" "at_scale b (common_scale a b)"]
  by (auto simp: dqa_sub_def common_scale_def aligned_fits_def Let_def i64_test)

lemma aligned_sum_val:
  "fp_val (at_scale a (common_scale a b) + at_scale b (common_scale a b)) (common_scale a b)
     = dqa_val a + dqa_val b"
  "fp_val (at_scale a (common_scale a b) - at_scale b (common_scale a b)) (common_scale a b)
     = dqa_val a - dqa_val b"
  by (simp_all add: fp_val_add fp_val_diff at_scale_val common_scale_def)

lemma canonical_result_iff:
  assumes "i64_range r" "s \<le> MAX_SCALE"
  shows "canonicalize (mk_dqa r s) = c \<longleftrightarrow>
    dqa_wf c \<and> dqa_canonical c \<and> dqa_val c = fp_val r s"
  using canonicalize_eq_canonical [of "mk_dqa r s" c] assms
  by (auto simp: dqa_wf_def dqa_val_def)

text \<open>Addition is exact. On well-formed operands it returns the unique canonical,
  well-formed number whose value is the sum of the two values, exactly when the operands
  brought to the larger scale and their sum are all \<open>i64\<close> values; otherwise it returns
  \<open>Overflow\<close>; it never panics and returns no other error.\<close>

theorem dqa_add_correct:
  assumes "dqa_wf a" "dqa_wf b"
  shows "(dqa_add a b = Ok c \<longleftrightarrow>
            aligned_fits a b \<and>
            i64_range (at_scale a (common_scale a b) + at_scale b (common_scale a b)) \<and>
            dqa_wf c \<and> dqa_canonical c \<and> dqa_val c = dqa_val a + dqa_val b)
       \<and> (dqa_add a b = Err e \<longleftrightarrow> e = DqaError.Overflow \<and>
            \<not> (aligned_fits a b \<and>
               i64_range (at_scale a (common_scale a b) + at_scale b (common_scale a b))))
       \<and> dqa_add a b \<noteq> Panic"
  using dqa_add_spec [OF assms] canonical_result_iff [OF _ common_scale_wf [OF assms]]
  by (auto simp: Let_def aligned_sum_val)

theorem dqa_add_correct_witness:
  "dqa_wf (mk_dqa 15 1) \<and> dqa_wf (mk_dqa 250 2) \<and>
   dqa_add (mk_dqa 15 1) (mk_dqa 250 2) = Ok (mk_dqa 4 0)"
proof -
  have wf: "dqa_wf (mk_dqa 15 1)" "dqa_wf (mk_dqa 250 2)"
    by (simp_all add: dqa_wf_def i64_range_def MAX_SCALE_def)
  show ?thesis
    using dqa_add_correct [OF wf, of "mk_dqa 4 0"] wf
    by (simp add: aligned_fits_def common_scale_def at_scale_def i64_range_def dqa_wf_def
        MAX_SCALE_def dqa_canonical_def fp_canonical_def dqa_val_def fp_val_def)
qed

text \<open>Subtraction is exact, under the same exact success condition as addition; its
  only error is \<open>Overflow\<close>.\<close>

theorem dqa_sub_correct:
  assumes "dqa_wf a" "dqa_wf b"
  shows "(dqa_sub a b = Ok c \<longleftrightarrow>
            aligned_fits a b \<and>
            i64_range (at_scale a (common_scale a b) - at_scale b (common_scale a b)) \<and>
            dqa_wf c \<and> dqa_canonical c \<and> dqa_val c = dqa_val a - dqa_val b)
       \<and> (dqa_sub a b = Err e \<longleftrightarrow> e = DqaError.Overflow \<and>
            \<not> (aligned_fits a b \<and>
               i64_range (at_scale a (common_scale a b) - at_scale b (common_scale a b))))
       \<and> dqa_sub a b \<noteq> Panic"
  using dqa_sub_spec [OF assms] canonical_result_iff [OF _ common_scale_wf [OF assms]]
  by (auto simp: Let_def aligned_sum_val)

theorem dqa_sub_correct_witness:
  "dqa_wf (mk_dqa 15 1) \<and> dqa_wf (mk_dqa 250 2) \<and>
   dqa_sub (mk_dqa 15 1) (mk_dqa 250 2) = Ok (mk_dqa (- 1) 0)"
proof -
  have wf: "dqa_wf (mk_dqa 15 1)" "dqa_wf (mk_dqa 250 2)"
    by (simp_all add: dqa_wf_def i64_range_def MAX_SCALE_def)
  show ?thesis
    using dqa_sub_correct [OF wf, of "mk_dqa (- 1) 0"] wf
    by (simp add: aligned_fits_def common_scale_def at_scale_def i64_range_def dqa_wf_def
        MAX_SCALE_def dqa_canonical_def fp_canonical_def dqa_val_def fp_val_def)
qed

subsection \<open>Multiplication and division\<close>

lemma half_even_one [simp]: "half_even n 1 r \<longleftrightarrow> r = n"
proof -
  have "2 * \<bar>n - r\<bar> \<le> 1 \<longleftrightarrow> r = n" by arith
  then show ?thesis by (auto simp: half_even_def)
qed

lemma half_even_fun:
  "half_even n d m \<Longrightarrow> half_even n d r \<longleftrightarrow> r = m"
  using half_even_unique by blast

text \<open>
  The scale of a product, and the integer that represents it there: the exact product,
  rounded half to even from scale \<open>dqa_scale a + dqa_scale b\<close> down to \<open>MAX_SCALE\<close> when it has
  more than 18 decimals.
\<close>

definition mul_scale :: "dqa \<Rightarrow> dqa \<Rightarrow> nat" where
  "mul_scale a b = min MAX_SCALE (dqa_scale a + dqa_scale b)"

definition is_product :: "dqa \<Rightarrow> dqa \<Rightarrow> int \<Rightarrow> bool" where
  "is_product a b m \<longleftrightarrow>
     half_even (dqa_value a * dqa_value b) (10 ^ (dqa_scale a + dqa_scale b - mul_scale a b)) m"

lemma dqa_mul_spec:
  assumes "dqa_wf a" "dqa_wf b"
  shows "\<exists>m. is_product a b m \<and>
    dqa_mul a b = (if i64_range m then Ok (canonicalize (mk_dqa m (mul_scale a b)))
                   else Err DqaError.Overflow)"
proof -
  have wf: "i64_range (dqa_value a)" "i64_range (dqa_value b)"
    "dqa_scale a \<le> 18" "dqa_scale b \<le> 18"
    using assms by (simp_all add: dqa_wf_def MAX_SCALE_def)
  let ?n = "dqa_value a * dqa_value b" and ?t = "dqa_scale a + dqa_scale b"
  have n: "i128_range ?n"
    using wf by (intro i128_range_mult i64_range_abs)
  show ?thesis
  proof (cases "?t > MAX_SCALE")
    case False
    then have "is_product a b ?n" and "mul_scale a b = ?t"
      by (auto simp: is_product_def mul_scale_def min_def)
    with False n show ?thesis
      by (intro exI [of _ ?n]) (auto simp: dqa_mul_def Let_def i64_test MAX_SCALE_def)
  next
    case True
    let ?k = "?t - MAX_SCALE"
    let ?m = "round_half_even_with_remainder (rust_div ?n (10 ^ ?k)) (rust_rem ?n (10 ^ ?k))
                (10 ^ ?k) (sgn (dqa_value a) * sgn (dqa_value b))"
    have k: "?k \<le> 18" using wf by (simp add: MAX_SCALE_def)
    have "half_even ?n (10 ^ ?k) ?m"
      using pow10_le [OF k] by (intro rhe_correct [OF n]) (auto simp: sgn_mult)
    moreover have "mul_scale a b = MAX_SCALE" using True by (simp add: mul_scale_def)
    ultimately show ?thesis using True k n wf
      by (intro exI [of _ ?m]) (auto simp: is_product_def dqa_mul_def Let_def i64_test MAX_SCALE_def)
  qed
qed

lemma mul_scale_le: "mul_scale a b \<le> MAX_SCALE"
  by (simp add: mul_scale_def)

text \<open>Multiplication is correctly rounded. On well-formed operands the result has the
  value \<open>m / 10 ^ mul_scale\<close>, where \<open>m\<close> is the exact product (when the scales add up to at most
  18) or the exact product rounded half to even at 18 decimals, in canonical form; the error
  is \<open>Overflow\<close>, exactly when that \<open>m\<close> is not an \<open>i64\<close> value, and there is no panic.\<close>

theorem dqa_mul_correct:
  assumes "dqa_wf a" "dqa_wf b"
  shows "(dqa_mul a b = Ok c \<longleftrightarrow>
            (\<exists>m. is_product a b m \<and> i64_range m \<and> dqa_wf c \<and> dqa_canonical c \<and>
                 dqa_val c = fp_val m (mul_scale a b)))
       \<and> (dqa_mul a b = Err e \<longleftrightarrow>
            e = DqaError.Overflow \<and> (\<exists>m. is_product a b m \<and> \<not> i64_range m))
       \<and> dqa_mul a b \<noteq> Panic"
proof -
  obtain m where m: "is_product a b m"
    and eq: "dqa_mul a b = (if i64_range m then Ok (canonicalize (mk_dqa m (mul_scale a b)))
                            else Err DqaError.Overflow)"
    using dqa_mul_spec [OF assms] by blast
  have "is_product a b m' \<longleftrightarrow> m' = m" for m'
    using m half_even_fun by (simp add: is_product_def)
  then show ?thesis
    using eq canonical_result_iff [OF _ mul_scale_le, of m a b c] by auto
qed

theorem dqa_mul_correct_witness:
  "dqa_wf (mk_dqa 5 10) \<and> dqa_wf (mk_dqa 3 9) \<and>
   is_product (mk_dqa 5 10) (mk_dqa 3 9) 2 \<and>
   dqa_mul (mk_dqa 5 10) (mk_dqa 3 9) = Ok (mk_dqa 2 18)"
proof -
  have wf: "dqa_wf (mk_dqa 5 10)" "dqa_wf (mk_dqa 3 9)"
    by (simp_all add: dqa_wf_def i64_range_def MAX_SCALE_def)
  have p: "is_product (mk_dqa 5 10) (mk_dqa 3 9) 2"
    by (simp add: is_product_def mul_scale_def MAX_SCALE_def half_even_def)
  have "dqa_mul (mk_dqa 5 10) (mk_dqa 3 9) = Ok (mk_dqa 2 18)"
    by (rule dqa_mul_correct [OF wf, THEN conjunct1, THEN iffD2])
      (intro exI [of _ 2] conjI p, simp_all add: mul_scale_def i64_range_def dqa_wf_def
        MAX_SCALE_def dqa_canonical_def fp_canonical_def dqa_val_def)
  with wf p show ?thesis by simp
qed

definition is_quotient :: "dqa \<Rightarrow> dqa \<Rightarrow> int \<Rightarrow> bool" where
  "is_quotient a b m \<longleftrightarrow>
     half_even (dqa_value a * 10 ^ (common_scale a b + dqa_scale b - dqa_scale a)) (dqa_value b) m"

lemma half_even_large:
  assumes "half_even n d m" "\<not> i128_range n" "i64_range d"
  shows "\<not> i64_range m"
proof
  assume "i64_range m"
  have d: "\<bar>d\<bar> \<le> 9223372036854775808" using assms(3) by (rule i64_range_abs)
  have md: "\<bar>m * d\<bar> \<le> 9223372036854775808 * 9223372036854775808"
    unfolding abs_mult using d i64_range_abs [OF \<open>i64_range m\<close>] by (intro mult_mono) auto
  have "2 * \<bar>n - m * d\<bar> \<le> \<bar>d\<bar>" using assms(1) by (simp add: half_even_def)
  with d have "\<bar>n - m * d\<bar> \<le> 9223372036854775808" by simp
  from add_mono [OF this md]
  have "\<bar>n\<bar> \<le> 9223372036854775808 + 9223372036854775808 * 9223372036854775808"
    using abs_triangle_ineq [of "n - m * d" "m * d"] by simp
  with assms(2) show False by (auto simp: i128_range_def)
qed

lemma half_even_total: "d \<noteq> 0 \<Longrightarrow> \<exists>m. half_even n d m"
  using half_even_of_trunc by blast

lemma is_quotient_unique: "is_quotient a b m \<Longrightarrow> is_quotient a b m' \<longleftrightarrow> m' = m"
  unfolding is_quotient_def by (rule half_even_fun)

lemma dqa_div_spec:
  assumes "dqa_wf a" "dqa_wf b" "dqa_value b \<noteq> 0"
  shows "\<exists>m. is_quotient a b m \<and>
    dqa_div a b = (if i64_range m then Ok (canonicalize (mk_dqa m (common_scale a b)))
                   else Err DqaError.Overflow)"
proof -
  have wf: "i64_range (dqa_value a)" "i64_range (dqa_value b)"
    "dqa_scale a \<le> 18" "dqa_scale b \<le> 18"
    using assms by (simp_all add: dqa_wf_def MAX_SCALE_def)
  define k where "k = common_scale a b + dqa_scale b - dqa_scale a"
  have k: "((max (dqa_scale a) (dqa_scale b) + dqa_scale b) mod 256 + (256 - dqa_scale a)) mod 256 = k"
    "k < 37"
  proof -
    have "max (dqa_scale a) (dqa_scale b) + dqa_scale b < 256"
      and "max (dqa_scale a) (dqa_scale b) + dqa_scale b + (256 - dqa_scale a) = k + 256"
      and "k < 37" using wf by (auto simp: k_def common_scale_def)
    then show "((max (dqa_scale a) (dqa_scale b) + dqa_scale b) mod 256 + (256 - dqa_scale a)) mod 256 = k"
      "k < 37" by simp_all
  qed
  let ?n = "dqa_value a * 10 ^ k"
  show ?thesis
  proof (cases "i128_range ?n")
    case True
    let ?m = "round_half_even_with_remainder (rust_div ?n (dqa_value b)) (rust_rem ?n (dqa_value b))
                \<bar>dqa_value b\<bar> (sgn (dqa_value a) * sgn (dqa_value b))"
    have "half_even ?n (dqa_value b) ?m"
      using wf i64_range_abs [OF wf(2)] assms(3)
      by (intro rhe_correct [OF True]) (auto simp: sgn_mult)
    with True k assms(3) show ?thesis
      by (intro exI [of _ ?m])
        (auto simp: is_quotient_def dqa_div_def Let_def i64_test common_scale_def k_def)
  next
    case False
    obtain m where m: "is_quotient a b m"
      using half_even_total [OF assms(3)] by (auto simp: is_quotient_def)
    then have "\<not> i64_range m"
      using half_even_large [OF _ False wf(2)] by (simp add: is_quotient_def k_def)
    with m False k assms(3) show ?thesis
      by (intro exI [of _ m]) (auto simp: dqa_div_def Let_def)
  qed
qed

text \<open>C28: Division is correctly rounded. On well-formed operands a zero divisor gives
  \<open>DivisionByZero\<close>; otherwise the result is, in canonical form, the exact quotient rounded half
  to even at the larger of the two scales, and \<open>Overflow\<close> is returned exactly when that
  rounded quotient is not an \<open>i64\<close> value (the \<open>i128\<close> overflow check on the scaled dividend
  never rejects a representable quotient). There is no panic.\<close>

theorem dqa_div_correct:
  assumes "dqa_wf a" "dqa_wf b"
  shows "(dqa_div a b = Ok c \<longleftrightarrow> dqa_value b \<noteq> 0 \<and>
            (\<exists>m. is_quotient a b m \<and> i64_range m \<and> dqa_wf c \<and> dqa_canonical c \<and>
                 dqa_val c = fp_val m (common_scale a b)))
       \<and> (dqa_div a b = Err e \<longleftrightarrow>
            (e = DqaError.DivisionByZero \<and> dqa_value b = 0) \<or>
            (e = DqaError.Overflow \<and> dqa_value b \<noteq> 0 \<and>
             (\<exists>m. is_quotient a b m \<and> \<not> i64_range m)))
       \<and> dqa_div a b \<noteq> Panic"
proof (cases "dqa_value b = 0")
  case True
  then show ?thesis by (auto simp: dqa_div_def)
next
  case False
  obtain m where m: "is_quotient a b m"
    and eq: "dqa_div a b = (if i64_range m then Ok (canonicalize (mk_dqa m (common_scale a b)))
                            else Err DqaError.Overflow)"
    using dqa_div_spec [OF assms False] by blast
  show ?thesis
    using False eq is_quotient_unique [OF m] canonical_result_iff [OF _ common_scale_wf [OF assms], of m c]
    by auto
qed

theorem dqa_div_correct_witness:
  "dqa_wf (mk_dqa 1 0) \<and> dqa_wf (mk_dqa 8 2) \<and> is_quotient (mk_dqa 1 0) (mk_dqa 8 2) 1250 \<and>
   dqa_div (mk_dqa 1 0) (mk_dqa 8 2) = Ok (mk_dqa 125 1)"
proof -
  have wf: "dqa_wf (mk_dqa 1 0)" "dqa_wf (mk_dqa 8 2)"
    by (simp_all add: dqa_wf_def i64_range_def MAX_SCALE_def)
  have q: "is_quotient (mk_dqa 1 0) (mk_dqa 8 2) 1250"
    by (simp add: is_quotient_def common_scale_def half_even_def)
  have "dqa_div (mk_dqa 1 0) (mk_dqa 8 2) = Ok (mk_dqa 125 1)"
    by (rule dqa_div_correct [OF wf, THEN conjunct1, THEN iffD2])
      (intro exI [of _ 1250] conjI q, simp_all add: common_scale_def i64_range_def dqa_wf_def
        MAX_SCALE_def dqa_canonical_def fp_canonical_def dqa_val_def fp_val_def)
  with wf q show ?thesis by simp
qed

subsection \<open>Comparison and column coercion\<close>

lemma fp_val_cmp_le:
  assumes "s \<le> t"
  shows "fp_val v s < fp_val w t \<longleftrightarrow> v * 10 ^ (t - s) < w"
    and "fp_val w t < fp_val v s \<longleftrightarrow> w < v * 10 ^ (t - s)"
proof -
  have "fp_val v s = fp_val (v * 10 ^ (t - s)) t"
    using fp_val_shift [of v "t - s" s] assms by simp
  then show "fp_val v s < fp_val w t \<longleftrightarrow> v * 10 ^ (t - s) < w"
    and "fp_val w t < fp_val v s \<longleftrightarrow> w < v * 10 ^ (t - s)"
    by (simp_all add: fp_val_less_iff)
qed

definition compare_rat :: "rat \<Rightarrow> rat \<Rightarrow> int" where
  "compare_rat x y = (if x < y then - 1 else if y < x then 1 else 0)"

lemma dqa_cmp_canonical:
  assumes "dqa_wf c" "dqa_wf d" "canonicalize a = c" "canonicalize b = d"
  shows "dqa_cmp a b = Ok (compare_rat (dqa_val c) (dqa_val d))"
proof -
  have wf: "i64_range (dqa_value c)" "i64_range (dqa_value d)"
    "dqa_scale c \<le> 18" "dqa_scale d \<le> 18"
    using assms by (simp_all add: dqa_wf_def MAX_SCALE_def)
  consider (eq) "dqa_scale c = dqa_scale d" | (gt) "dqa_scale d < dqa_scale c"
    | (lt) "dqa_scale c < dqa_scale d" by linarith
  then show ?thesis
  proof cases
    case eq
    then show ?thesis
      by (auto simp: dqa_cmp_def assms(3,4) compare_rat_def dqa_val_def fp_val_less_iff)
  next
    case gt
    then have "nat \<bar>int (dqa_scale c) - int (dqa_scale d)\<bar> = dqa_scale c - dqa_scale d" by auto
    with gt wf i64_times_pow10 [OF wf(2), of "dqa_scale c - dqa_scale d"]
      fp_val_cmp_le [of "dqa_scale d" "dqa_scale c"] show ?thesis
      by (auto simp: dqa_cmp_def assms(3,4) compare_rat_def dqa_val_def Let_def)
  next
    case lt
    then have "nat \<bar>int (dqa_scale c) - int (dqa_scale d)\<bar> = dqa_scale d - dqa_scale c" by auto
    with lt wf i64_times_pow10 [OF wf(1), of "dqa_scale d - dqa_scale c"]
      fp_val_cmp_le [of "dqa_scale c" "dqa_scale d"] show ?thesis
      by (auto simp: dqa_cmp_def assms(3,4) compare_rat_def dqa_val_def Let_def)
  qed
qed

text \<open>Comparison decides the order of the values: on well-formed operands it returns
  -1, 0 or 1 as the value of the first is below, equal to or above the value of the second,
  whatever the two scales, with no error and no panic.\<close>

theorem dqa_cmp_correct:
  assumes "dqa_wf a" "dqa_wf b"
  shows "dqa_cmp a b = Ok (compare_rat (dqa_val a) (dqa_val b))"
  using dqa_cmp_canonical [OF _ _ refl refl, of a b] assms by simp

theorem dqa_cmp_correct_witness:
  "dqa_wf (mk_dqa 100 2) \<and> dqa_wf (mk_dqa 1 0) \<and>
   dqa_cmp (mk_dqa 100 2) (mk_dqa 1 0) = Ok 0"
proof -
  have wf: "dqa_wf (mk_dqa 100 2)" "dqa_wf (mk_dqa 1 0)"
    by (simp_all add: dqa_wf_def i64_range_def MAX_SCALE_def)
  show ?thesis using wf dqa_cmp_correct [OF wf]
    by (simp add: compare_rat_def dqa_val_def fp_val_def)
qed

text \<open>Coercion to a column. For a well-formed value and a column scale of at most 18 the
  result carries exactly the column scale and the value rounded half to even there (padding
  with zeros is exact); the only error is \<open>Overflow\<close>, exactly when the rounded or padded
  value is not an \<open>i64\<close>.\<close>

theorem dqa_assign_to_column_correct:
  assumes wf: "dqa_wf d" and t: "t \<le> MAX_SCALE"
  shows "\<exists>m. half_even (dqa_value d * 10 ^ t) (10 ^ dqa_scale d) m \<and>
    dqa_assign_to_column d t =
      (if i64_range m then Ok (mk_dqa m t) else Err DqaError.Overflow)"
proof -
  have wf': "i64_range (dqa_value d)" "dqa_scale d \<le> 18" "t \<le> 18"
    using wf t by (simp_all add: dqa_wf_def MAX_SCALE_def)
  consider (eq) "dqa_scale d = t" | (gt) "t < dqa_scale d" | (lt) "dqa_scale d < t" by linarith
  then show ?thesis
  proof cases
    case eq
    have "half_even (dqa_value d * 10 ^ t) (10 ^ dqa_scale d) (dqa_value d)"
      using eq half_even_exact [of "10 ^ t"] by simp
    moreover have "mk_dqa (dqa_value d) t = d" using eq by (simp add: mk_dqa_def)
    ultimately show ?thesis using eq wf'
      by (intro exI [of _ "dqa_value d"]) (simp add: dqa_assign_to_column_def)
  next
    case gt
    let ?k = "dqa_scale d - t"
    let ?m = "round_half_even_with_remainder (rust_div (dqa_value d) (10 ^ ?k))
                (rust_rem (dqa_value d) (10 ^ ?k)) (10 ^ ?k) (sgn (dqa_value d))"
    have k: "?k \<le> 18" using wf' by simp
    have he: "half_even (dqa_value d) (10 ^ ?k) ?m"
      using pow10_le [OF k] wf' by (intro rhe_correct) (auto simp: bounds)
    have "half_even (dqa_value d * 10 ^ t) (10 ^ ?k * 10 ^ t) ?m"
    proof -
      have "dqa_value d * 10 ^ t - ?m * (10 ^ ?k * 10 ^ t) = (dqa_value d - ?m * 10 ^ ?k) * 10 ^ t"
        by (simp add: algebra_simps)
      with he show ?thesis by (simp add: half_even_def abs_mult)
    qed
    then have "half_even (dqa_value d * 10 ^ t) (10 ^ dqa_scale d) ?m"
      using gt by (simp flip: power_add)
    then show ?thesis using gt k
      by (intro exI [of _ ?m]) (auto simp: dqa_assign_to_column_def Let_def i64_test)
  next
    case lt
    let ?m = "dqa_value d * 10 ^ (t - dqa_scale d)"
    have "half_even (?m * 10 ^ dqa_scale d) (10 ^ dqa_scale d) ?m" by (simp add: half_even_exact)
    then have "half_even (dqa_value d * 10 ^ t) (10 ^ dqa_scale d) ?m"
      using lt by (simp add: mult.assoc flip: power_add)
    with lt wf' i64_times_pow10 [OF wf'(1), of "t - dqa_scale d"] show ?thesis
      by (intro exI [of _ ?m]) (auto simp: dqa_assign_to_column_def Let_def i64_test)
  qed
qed

theorem dqa_assign_to_column_witness:
  "dqa_wf (mk_dqa 12345 3) \<and> dqa_assign_to_column (mk_dqa 12345 3) 2 = Ok (mk_dqa 1234 2)"
proof -
  have wf: "dqa_wf (mk_dqa 12345 3)" and t: "2 \<le> MAX_SCALE"
    by (simp_all add: dqa_wf_def i64_range_def MAX_SCALE_def)
  obtain m where m: "half_even (12345 * 10 ^ 2) (10 ^ 3) m"
    and eq: "dqa_assign_to_column (mk_dqa 12345 3) 2 =
              (if i64_range m then Ok (mk_dqa m 2) else Err DqaError.Overflow)"
    using dqa_assign_to_column_correct [OF wf t] by auto
  have "half_even (12345 * 10 ^ 2) (10 ^ 3) 1234" by (simp add: half_even_def)
  with m have "m = 1234" by (rule half_even_unique)
  with eq wf show ?thesis by (simp add: i64_range_def)
qed

subsection \<open>The wire form\<close>

lemma length_serialize [simp]: "length (dqa_serialize host d) = 16"
  by (simp add: dqa_serialize_def encoding_serialize_def from_dqa_def Let_def)

lemma dqa_serialize_eq:
  "dqa_serialize host d =
     (case host of LittleEndian \<Rightarrow> le_bytes 8 (dqa_value (canonicalize d))
                 | BigEndian \<Rightarrow> be_bytes 8 (dqa_value (canonicalize d)))
     @ of_nat (dqa_scale (canonicalize d)) # replicate 7 0"
  by (simp add: dqa_serialize_def encoding_serialize_def from_dqa_def Let_def i64_to_be_bytes)

lemma encoding_deserialize_serialize:
  assumes "i64_range (enc_value e)" "enc_scale e < 256" "length (enc_reserved e) = 7"
  shows "encoding_deserialize (encoding_serialize e @ rest) = Ok (e, rest)"
proof -
  let ?v = "be_bytes 8 (enc_value e)" and ?s = "of_nat (enc_scale e) :: u8"
  have bs: "encoding_serialize e = ?v @ ?s # enc_reserved e"
    by (simp add: encoding_serialize_def)
  have l: "length (encoding_serialize e) = 16" using assms by (simp add: bs)
  have s: "unat ?s = enc_scale e" using assms(2) by (simp add: unat_of_nat)
  have "(?v @ ?s # enc_reserved e) ! 8 = ?s" by (simp add: nth_append)
  moreover have "take 8 (?v @ ?s # enc_reserved e) = ?v" by simp
  moreover have "drop 9 (?v @ ?s # enc_reserved e) = enc_reserved e" by simp
  ultimately show ?thesis
    using l assms s by (simp add: encoding_deserialize_def bs Let_def i64_be_roundtrip)
qed

text \<open>The wire form is canonical and lossless. On a host of either byte order, reading
  back what was written (followed by anything) returns the canonical form of the number and
  the rest of the input, and two well-formed numbers have the same wire bytes exactly when
  they have the same value, whatever representation they came in.\<close>

theorem dqa_wire_canonical:
  assumes "dqa_wf a" "dqa_wf b"
  shows "dqa_deserialize host (dqa_serialize host a @ rest) = Ok (canonicalize a, rest)
       \<and> (dqa_serialize host a = dqa_serialize host b \<longleftrightarrow> dqa_val a = dqa_val b)"
proof -
  have rt: "dqa_deserialize host (dqa_serialize host d @ r) = Ok (canonicalize d, r)"
    if d: "dqa_wf d" for d r
  proof -
    let ?c = "canonicalize d"
    have wf: "i64_range (dqa_value ?c)" "dqa_scale ?c \<le> 18"
      using canonicalize_wf [OF d] by (simp_all add: dqa_wf_def MAX_SCALE_def)
    have "encoding_deserialize (encoding_serialize (from_dqa host d) @ r) = Ok (from_dqa host d, r)"
      using wf by (intro encoding_deserialize_serialize)
        (simp_all add: from_dqa_def Let_def i64_to_be_range)
    moreover have "to_dqa host (from_dqa host d) = Ok ?c"
      using wf by (simp add: to_dqa_def from_dqa_def Let_def i64_from_be_to_be MAX_SCALE_def mk_dqa_def)
    ultimately show ?thesis by (simp add: dqa_deserialize_def dqa_serialize_def)
  qed
  have "dqa_serialize host a = dqa_serialize host b \<longleftrightarrow> canonicalize a = canonicalize b"
  proof
    assume "dqa_serialize host a = dqa_serialize host b"
    with rt [OF assms(1), of "[]"] rt [OF assms(2), of "[]"]
    show "canonicalize a = canonicalize b" by simp
  qed (simp add: dqa_serialize_eq split: endian.split)
  with rt [OF assms(1)] show ?thesis by (simp add: canonicalize_eq_iff)
qed

theorem dqa_wire_canonical_witness:
  "dqa_wf (mk_dqa 100 2) \<and> dqa_wf (mk_dqa 1 0) \<and>
   dqa_serialize LittleEndian (mk_dqa 100 2) = dqa_serialize LittleEndian (mk_dqa 1 0)"
proof -
  have wf: "dqa_wf (mk_dqa 100 2)" "dqa_wf (mk_dqa 1 0)"
    by (simp_all add: dqa_wf_def i64_range_def MAX_SCALE_def)
  show ?thesis using wf dqa_wire_canonical [OF wf, of LittleEndian "[]"]
    by (simp add: dqa_val_def fp_val_def)
qed

text \<open>The wire form depends on the byte order of the host. The value bytes are emitted
  least significant byte first on a little-endian host and most significant byte first on a
  big-endian one, because the value is swapped once by \<open>to_be\<close> and again by \<open>to_be_bytes\<close>; the
  two hosts agree only on values whose eight bytes read the same both ways, and disagree on 1.
  (The comments promise big-endian bytes everywhere.)\<close>

theorem dqa_wire_host_dependent:
  "take 8 (dqa_serialize LittleEndian d) = rev (take 8 (dqa_serialize BigEndian d))
   \<and> take 8 (dqa_serialize BigEndian d) = be_bytes 8 (dqa_value (canonicalize d))
   \<and> dqa_serialize LittleEndian (mk_dqa 1 0) \<noteq> dqa_serialize BigEndian (mk_dqa 1 0)"
proof -
  have 1: "canonicalize (mk_dqa 1 0) = mk_dqa 1 0"
    by (rule canonicalize_id) (simp add: dqa_canonical_def fp_canonical_def)
  have "(be_bytes 8 1 :: u8 list) \<noteq> le_bytes 8 1"
    by (simp add: be_bytes_def numeral_eq_Suc)
  then show ?thesis by (simp add: dqa_serialize_eq 1) (simp add: be_bytes_def)
qed

end
