(* ===== verification/DecimalDet.thy ===== *)
theory DecimalDet
  imports FixedPoint BigIntCodec Dqa
begin

text \<open>
  The \<open>Decimal\<close> type of \<open>determin/src/decimal.rs\<close> (an \<open>i128\<close> mantissa with a decimal scale of 0 to
  36): construction and canonical form, the 24 byte wire format, division, rounding, the
  conversions from and to the other numeric types, and the string form. The operations that
  compute with the \<open>num-bigint\<close> crate are in \<open>DecimalBig\<close>, the variants on the crate's own
  big integers in \<open>DecimalInternal\<close>.
\<close>

subsection \<open>Data\<close>

definition MAX_DECIMAL_SCALE :: nat where
  "MAX_DECIMAL_SCALE = 36"

definition MAX_DECIMAL_MANTISSA :: int where
  "MAX_DECIMAL_MANTISSA = 10 ^ 36 - 1"

definition DEC_POW10 :: "int list" where
  "DEC_POW10 =
    [1,
     10,
     100,
     1000,
     10000,
     100000,
     1000000,
     10000000,
     100000000,
     1000000000,
     10000000000,
     100000000000,
     1000000000000,
     10000000000000,
     100000000000000,
     1000000000000000,
     10000000000000000,
     100000000000000000,
     1000000000000000000,
     10000000000000000000,
     100000000000000000000,
     1000000000000000000000,
     10000000000000000000000,
     100000000000000000000000,
     1000000000000000000000000,
     10000000000000000000000000,
     100000000000000000000000000,
     1000000000000000000000000000,
     10000000000000000000000000000,
     100000000000000000000000000000,
     1000000000000000000000000000000,
     10000000000000000000000000000000,
     100000000000000000000000000000000,
     1000000000000000000000000000000000,
     10000000000000000000000000000000000,
     100000000000000000000000000000000000,
     1000000000000000000000000000000000000]"

definition SQRT_ITERATIONS :: nat where
  "SQRT_ITERATIONS = 40"

definition PRECISION_CAP :: nat where
  "PRECISION_CAP = 6"

datatype DecimalError = Overflow | DivisionByZero | InvalidScale | NonCanonical | ConversionLoss | ParseError

datatype RoundingMode = RoundHalfEven | RoundDown | RoundUp

record decimal =
  dec_mantissa :: int
  dec_scale :: nat

definition mk_decimal :: "int \<Rightarrow> nat \<Rightarrow> decimal" where
  "mk_decimal m s = \<lparr>dec_mantissa = m, dec_scale = s\<rparr>"

definition i128_abs :: "int \<Rightarrow> int" where
  "i128_abs x = as_i128 \<bar>x\<bar>"

fun dec_canonicalize_loop :: "int \<Rightarrow> nat \<Rightarrow> int \<times> nat" where
  "dec_canonicalize_loop mantissa scale =
     (if scale > 0 \<and> rust_rem mantissa 10 = 0
      then dec_canonicalize_loop (rust_div mantissa 10) (scale - 1) else (mantissa, scale))"

declare dec_canonicalize_loop.simps [simp del]

definition dec_canonicalize :: "decimal \<Rightarrow> decimal" where
  "dec_canonicalize d =
     (if dec_mantissa d = 0 then mk_decimal 0 0
      else let (mantissa, scale) = dec_canonicalize_loop (dec_mantissa d) (dec_scale d) in mk_decimal mantissa scale)"

definition decimal_new :: "int \<Rightarrow> nat \<Rightarrow> (decimal, DecimalError) outcome" where
  "decimal_new mantissa scale =
     (if scale > MAX_DECIMAL_SCALE then Err DecimalError.InvalidScale
      else let d = dec_canonicalize (mk_decimal mantissa scale) in
        if i128_abs (dec_mantissa d) > MAX_DECIMAL_MANTISSA then Err DecimalError.Overflow else Ok d)"

definition decimal_validate :: "decimal \<Rightarrow> (unit, DecimalError) outcome" where
  "decimal_validate d =
     (if dec_scale d > MAX_DECIMAL_SCALE then Err DecimalError.InvalidScale
      else if i128_abs (dec_mantissa d) > MAX_DECIMAL_MANTISSA then Err DecimalError.Overflow
      else Ok ())"

subsection \<open>The configuration hash\<close>

definition decimal_config_buffer :: "u8 list" where
  "decimal_config_buffer =
     concat (map (be_bytes 16) DEC_POW10) @ ascii_bytes ''RoundHalfEven'' @ ascii_bytes ''RoundHalfEven''
     @ [of_nat MAX_DECIMAL_SCALE] @ ascii_bytes ''TRAP'' @ [of_nat SQRT_ITERATIONS] @ [of_nat PRECISION_CAP]"

definition compute_decimal_config_hash :: "(u8 list \<Rightarrow> u8 list) \<Rightarrow> u8 list" where
  "compute_decimal_config_hash sha256 = sha256 decimal_config_buffer"

definition DECIMAL_ARITHMETIC_CONFIG_HASH :: "u8 list" where
  "DECIMAL_ARITHMETIC_CONFIG_HASH =
    [0xb0, 0x71, 0xfa, 0x37, 0xd6, 0x2a, 0x50, 0x31, 0x8f, 0xde, 0x35, 0xfa, 0x50, 0x64, 0x46, 0x4d,
     0xb4, 0x9c, 0x2f, 0xaa, 0xf0, 0x3a, 0x5e, 0x2a, 0x58, 0xc2, 0x09, 0x25, 0x1f, 0x40, 0x0a, 0x14]"

definition verify_decimal_config_hash :: "(u8 list \<Rightarrow> u8 list) \<Rightarrow> bool" where
  "verify_decimal_config_hash sha256 \<longleftrightarrow> compute_decimal_config_hash sha256 = DECIMAL_ARITHMETIC_CONFIG_HASH"

subsection \<open>Wire format\<close>

definition decimal_to_bytes :: "decimal \<Rightarrow> u8 list" where
  "decimal_to_bytes d = [1, 0, 0, 0, of_nat (dec_scale d), 0, 0, 0] @ be_bytes 16 (dec_mantissa d)"

function count_trailing_zeros :: "int \<Rightarrow> nat" where
  "count_trailing_zeros temp =
     (if temp \<noteq> 0 \<and> rust_rem temp 10 = 0 then Suc (count_trailing_zeros (rust_div temp 10)) else 0)"
  by pat_completeness auto
termination
proof (relation "measure (\<lambda>temp. nat \<bar>temp\<bar>)", goal_cases)
  case (2 temp)
  then have "\<bar>rust_div temp 10\<bar> < \<bar>temp\<bar>" by (simp add: abs_rust_div int_div_less_self)
  then show ?case by simp
qed simp

declare count_trailing_zeros.simps [simp del]

definition decimal_from_bytes :: "u8 list \<Rightarrow> (decimal, DecimalError) outcome" where
  "decimal_from_bytes bytes =
     (if bytes ! 0 \<noteq> 1 then Err DecimalError.NonCanonical
      else if bytes ! 1 \<noteq> 0 \<or> take 2 (drop 2 bytes) \<noteq> [0, 0] \<or> take 3 (drop 5 bytes) \<noteq> [0, 0, 0]
      then Err DecimalError.NonCanonical
      else
        let scale = unat (bytes ! 4);
            mantissa = as_i128 (of_be_bytes (drop 8 bytes)) in
        if scale > MAX_DECIMAL_SCALE then Err DecimalError.InvalidScale
        else if mantissa = 0 \<and> scale \<noteq> 0 then Err DecimalError.NonCanonical
        else
          let abs_mantissa = i128_abs mantissa in
          if abs_mantissa \<noteq> 0 \<and> count_trailing_zeros abs_mantissa \<ge> scale
          then Err DecimalError.NonCanonical
          else decimal_new mantissa scale)"

subsection \<open>Division\<close>

definition scale_down_half_even :: "int \<Rightarrow> nat \<Rightarrow> (int, DecimalError) outcome" where
  "scale_down_half_even abs_a scale_reduction =
     bind_ok (at_index DEC_POW10 scale_reduction) (\<lambda>divisor.
       let quot = rust_div abs_a divisor;
           remainder = rust_rem abs_a divisor;
           half = rust_div divisor 2 in
       Ok (if remainder > half \<or> (remainder = half \<and> rust_rem quot 2 \<noteq> 0) then as_i128 (quot + 1) else quot))"

definition round_quotient :: "int \<Rightarrow> int \<Rightarrow> int" where
  "round_quotient magnitude abs_b =
     (let quot = rust_div magnitude abs_b;
          remainder = rust_rem magnitude abs_b;
          half = rust_div abs_b 2 in
      if remainder < half then quot
      else if remainder > half then as_i128 (quot + 1)
      else if rust_rem quot 2 = 0 then quot
      else as_i128 (quot + 1))"

definition scaled_product :: "int \<Rightarrow> int \<Rightarrow> (int, DecimalError) outcome" where
  "scaled_product x y =
     bind_ok (map_err (\<lambda>_. DecimalError.Overflow) (bigint_mul (bigint_from_i128 x) (bigint_from_i128 y)))
       (\<lambda>scaled. map_err (\<lambda>_. DecimalError.Overflow) (bigint_to_i128 scaled))"

definition decimal_div :: "decimal \<Rightarrow> decimal \<Rightarrow> nat \<Rightarrow> (decimal, DecimalError) outcome" where
  "decimal_div a b t =
     (if dec_mantissa b = 0 then Err DecimalError.DivisionByZero
      else
        let raw_scale = (max (dec_scale a) (dec_scale b) + 6) mod 256;
            target_scale = min raw_scale MAX_DECIMAL_SCALE;
            result_sign = ((dec_mantissa a < 0) \<noteq> (dec_mantissa b < 0));
            abs_a = i128_abs (dec_mantissa a);
            abs_b = i128_abs (dec_mantissa b);
            scale_diff = int target_scale - int (dec_scale a) + int (dec_scale b) in
        bind_ok
          (if scale_diff > 0 then
             bind_ok (at_index DEC_POW10 (nat scale_diff)) (\<lambda>pow10. scaled_product pow10 abs_a)
           else if scale_diff < 0 then scale_down_half_even abs_a (nat (- scale_diff))
           else Ok abs_a)
          (\<lambda>scaled_dividend.
             let result = round_quotient (i128_abs scaled_dividend) abs_b;
                 signed_result = (if result_sign then as_i128 (- result) else result) in
             decimal_new signed_result target_scale))"

definition i128_saturating_mul :: "int \<Rightarrow> int \<Rightarrow> int" where
  "i128_saturating_mul x y = max I128_MIN (min I128_MAX (x * y))"

definition decimal_div_raw :: "int \<Rightarrow> nat \<Rightarrow> int \<Rightarrow> nat \<Rightarrow> (decimal, DecimalError) outcome" where
  "decimal_div_raw a_mantissa a_scale b_mantissa b_scale =
     (if b_mantissa = 0 then Err DecimalError.DivisionByZero
      else
        let raw_scale = (max a_scale b_scale + 6) mod 256;
            target_scale = min raw_scale MAX_DECIMAL_SCALE;
            result_sign = ((a_mantissa < 0) \<noteq> (b_mantissa < 0));
            abs_a = i128_abs a_mantissa;
            abs_b = i128_abs b_mantissa;
            scale_diff = int target_scale - int a_scale + int b_scale in
        bind_ok
          (if scale_diff > 0 then
             bind_ok (at_index DEC_POW10 (nat scale_diff)) (\<lambda>pow10. Ok (i128_saturating_mul abs_a pow10))
           else if scale_diff < 0 then scale_down_half_even abs_a (nat (- scale_diff))
           else Ok abs_a)
          (\<lambda>scaled_dividend.
             let result = round_quotient scaled_dividend abs_b;
                 signed_result = (if result_sign then as_i128 (- result) else result) in
             decimal_new signed_result target_scale))"

subsection \<open>Rounding\<close>

definition decimal_round :: "decimal \<Rightarrow> nat \<Rightarrow> RoundingMode \<Rightarrow> (decimal, DecimalError) outcome" where
  "decimal_round d target_scale mode =
     (if target_scale \<ge> dec_scale d then Ok d
      else
        bind_ok (at_index DEC_POW10 (dec_scale d - target_scale)) (\<lambda>divisor.
          let q = rust_div (dec_mantissa d) divisor;
              r = rust_rem (dec_mantissa d) divisor;
              result =
                (case mode of
                   RoundHalfEven \<Rightarrow>
                     (let abs_r = i128_abs r; half = rust_div divisor 2 in
                      if abs_r < half then q
                      else if abs_r > half then as_i128 (q + sgn (dec_mantissa d))
                      else if rust_rem q 2 = 0 then q
                      else as_i128 (q + sgn (dec_mantissa d)))
                 | RoundDown \<Rightarrow> q
                 | RoundUp \<Rightarrow>
                     (if r > 0 \<and> dec_mantissa d > 0 then as_i128 (q + 1)
                      else if r < 0 \<and> dec_mantissa d < 0 then as_i128 (q - 1)
                      else q)) in
          decimal_new result target_scale))"

subsection \<open>Conversions\<close>

definition decimal_to_dqa :: "decimal \<Rightarrow> (dqa, DecimalError) outcome" where
  "decimal_to_dqa d =
     (if dec_scale d > MAX_SCALE then Err DecimalError.ConversionLoss
      else if dec_mantissa d > I64_MAX \<or> dec_mantissa d < I64_MIN then Err DecimalError.Overflow
      else map_err (\<lambda>_. DecimalError.Overflow) (dqa_new (as_i64 (dec_mantissa d)) (dec_scale d)))"

definition dqa_to_decimal :: "dqa \<Rightarrow> (decimal, DecimalError) outcome" where
  "dqa_to_decimal q = decimal_new (dqa_value q) (dqa_scale q)"

definition decimal_to_bigint :: "decimal \<Rightarrow> (int, DecimalError) outcome" where
  "decimal_to_bigint d =
     (if dec_scale d = 0 then Ok (dec_mantissa d)
      else bind_ok (at_index DEC_POW10 (dec_scale d)) (\<lambda>divisor. Ok (rust_div (dec_mantissa d) divisor)))"

definition bigint_to_decimal :: "int \<Rightarrow> (decimal, DecimalError) outcome" where
  "bigint_to_decimal value = decimal_new value 0"

subsection \<open>Strings\<close>

definition int_string :: "int \<Rightarrow> string" where
  "int_string x = (if x < 0 then [CHR ''-''] else []) @ num_string 10 97 (nat \<bar>x\<bar>)"

definition trim_end_zeros :: "string \<Rightarrow> string" where
  "trim_end_zeros s = rev (dropWhile (\<lambda>c. c = CHR ''0'') (rev s))"

definition decimal_to_string :: "decimal \<Rightarrow> (string, DecimalError) outcome" where
  "decimal_to_string d =
     (let mantissa = dec_mantissa d; scale = dec_scale d in
      if mantissa = 0 then Ok ''0''
      else
        let abs_mantissa = i128_abs mantissa;
            sign = (if mantissa < 0 then [CHR ''-''] else []);
            mantissa_str = int_string abs_mantissa;
            len = length mantissa_str;
            result =
              (if scale = 0 then sign @ mantissa_str
               else if len > scale then
                 (let int_part = take (len - scale) mantissa_str;
                      frac_trimmed = trim_end_zeros (drop (len - scale) mantissa_str) in
                  if frac_trimmed = [] then sign @ int_part
                  else sign @ int_part @ [CHR ''.''] @ frac_trimmed)
               else
                 (let frac_part = replicate (scale - len) (CHR ''0'') @ mantissa_str;
                      frac_trimmed = trim_end_zeros frac_part in
                  sign @ ''0'' @ [CHR ''.''] @ frac_trimmed)) in
        if length result > 256 then Err DecimalError.ConversionLoss else Ok result)"

definition decimal_display :: "decimal \<Rightarrow> (string, DecimalError) outcome" where
  "decimal_display d =
     (case decimal_to_string d of
        Ok s \<Rightarrow> Ok s
      | Err DecimalError.ConversionLoss \<Rightarrow> Ok ''<decimal:length-trap>''
      | Err _ \<Rightarrow> Ok ''<decimal:error>''
      | Panic \<Rightarrow> Panic)"

fun split_dots :: "string \<Rightarrow> string list" where
  "split_dots [] = [[]]"
| "split_dots (c # s) =
     (if c = CHR ''.'' then [] # split_dots s
      else case split_dots s of [] \<Rightarrow> [[c]] | p # ps \<Rightarrow> (c # p) # ps)"

definition parse_i128 :: "string \<Rightarrow> (int, DecimalError) outcome" where
  "parse_i128 s =
     (if s = [] \<or> int (parse_radix 10 s) > I128_MAX then Err DecimalError.ParseError
      else Ok (int (parse_radix 10 s)))"

definition decimal_from_str :: "string \<Rightarrow> (decimal, DecimalError) outcome" where
  "decimal_from_str s =
     (let trimmed = str_trim s in
      if trimmed = [] then Err DecimalError.ParseError
      else if list_ex is_whitespace trimmed then Err DecimalError.ParseError
      else
        let (sign, body) =
              (if hd trimmed = CHR ''+'' then (1, tl trimmed)
               else if hd trimmed = CHR ''-'' then (- 1, tl trimmed)
               else (1, trimmed)) in
        if body = [] then Err DecimalError.ParseError
        else
          let parts = split_dots body;
              int_part = hd parts;
              frac_part = (if length parts > 1 then parts ! 1 else []) in
          if length parts > 2 then Err DecimalError.ParseError
          else if int_part = [] then Err DecimalError.ParseError
          else if CHR ''e'' \<in> set int_part \<or> CHR ''E'' \<in> set int_part
            \<or> CHR ''e'' \<in> set frac_part \<or> CHR ''E'' \<in> set frac_part then Err DecimalError.ParseError
          else if \<not> list_all is_ascii_digit int_part \<or> \<not> list_all is_ascii_digit frac_part
          then Err DecimalError.ParseError
          else if length frac_part > MAX_DECIMAL_SCALE then Err DecimalError.InvalidScale
          else bind_ok (parse_i128 (int_part @ frac_part)) (\<lambda>mantissa_abs.
            decimal_new (sign * mantissa_abs) (length frac_part)))"

subsection \<open>Canonical form\<close>

definition dec_val :: "decimal \<Rightarrow> rat" where
  "dec_val d = fp_val (dec_mantissa d) (dec_scale d)"

definition dec_ok :: "decimal \<Rightarrow> bool" where
  "dec_ok d \<longleftrightarrow> dec_scale d \<le> 36 \<and> \<bar>dec_mantissa d\<bar> \<le> MAX_DECIMAL_MANTISSA \<and>
     fp_canonical (dec_mantissa d) (dec_scale d)"

lemma mk_decimal_simps [simp]: "dec_mantissa (mk_decimal m s) = m" "dec_scale (mk_decimal m s) = s"
  by (simp_all add: mk_decimal_def)

lemma length_DEC_POW10: "length DEC_POW10 = 37"
  by (simp add: DEC_POW10_def)

lemma DEC_POW10_nth: "i \<le> 36 \<Longrightarrow> DEC_POW10 ! i = 10 ^ i"
proof -
  assume "i \<le> 36"
  moreover have "map ((!) DEC_POW10) [0..<37] = map (\<lambda>i. 10 ^ i) [0..<37]"
    by (simp add: DEC_POW10_def upt_rec)
  ultimately show ?thesis by (simp add: list_eq_iff_nth_eq del: upt_Suc)
qed

lemma at_DEC_POW10 [simp]: "at_index DEC_POW10 i = (if i \<le> 36 then Ok (10 ^ i) else Panic)"
  by (simp add: at_index_def length_DEC_POW10 DEC_POW10_nth)

interpretation dec_strip: zero_stripper dec_canonicalize_loop
proof
  fix v s
  show "10 dvd v \<Longrightarrow> dec_canonicalize_loop v (Suc s) = dec_canonicalize_loop (rust_div v 10) s"
    by (simp add: dec_canonicalize_loop.simps [of v "Suc s"] rust_rem_0_iff_dvd)
  show "s = 0 \<or> \<not> 10 dvd v \<Longrightarrow> dec_canonicalize_loop v s = (v, s)"
    by (auto simp: dec_canonicalize_loop.simps [of v s] rust_rem_0_iff_dvd)
qed

lemma dec_canonicalize_val:
  assumes "d' = dec_canonicalize d"
  shows "dec_val d' = dec_val d" "fp_canonical (dec_mantissa d') (dec_scale d')" "dec_scale d' \<le> dec_scale d"
    "\<bar>dec_mantissa d'\<bar> \<le> \<bar>dec_mantissa d\<bar>"
proof -
  obtain w t where st: "dec_canonicalize_loop (dec_mantissa d) (dec_scale d) = (w, t)" by force
  have e: "d' = (if dec_mantissa d = 0 then mk_decimal 0 0 else mk_decimal w t)"
    by (simp add: assms dec_canonicalize_def st)
  show "dec_val d' = dec_val d" using dec_strip.strip_val [OF st] by (simp add: e dec_val_def)
  show "fp_canonical (dec_mantissa d') (dec_scale d')"
    using dec_strip.strip_canonical [OF _ st] by (simp add: e fp_canonical_def)
  show "dec_scale d' \<le> dec_scale d" using dec_strip.strip_scale_le [OF st] by (simp add: e)
  show "\<bar>dec_mantissa d'\<bar> \<le> \<bar>dec_mantissa d\<bar>" using dec_strip.strip_abs_le [OF st] by (simp add: e)
qed

lemma dec_ok_unique: "dec_ok d \<Longrightarrow> dec_ok e \<Longrightarrow> dec_val d = dec_val e \<Longrightarrow> d = e"
proof -
  assume "dec_ok d" "dec_ok e" "dec_val d = dec_val e"
  then have "dec_mantissa d = dec_mantissa e \<and> dec_scale d = dec_scale e"
    unfolding dec_ok_def dec_val_def using fp_canonical_unique by blast
  then show ?thesis by simp
qed

lemma i128_abs_small: "\<bar>x\<bar> \<le> I128_MAX \<Longrightarrow> i128_abs x = \<bar>x\<bar>"
  by (simp add: i128_abs_def i128_range_def)

lemma i128_range_small: "\<bar>x\<bar> \<le> I128_MAX \<Longrightarrow> i128_range x"
  by (simp add: i128_range_def abs_le_iff)

lemma MAX_mantissa_less: "MAX_DECIMAL_MANTISSA \<le> I128_MAX"
  by (simp add: MAX_DECIMAL_MANTISSA_def)

text \<open>
  The constructor returns the canonical representation of its argument when there is one,
  and \<open>Overflow\<close> otherwise.
\<close>

lemma decimal_new_iff:
  assumes "\<bar>m\<bar> \<le> I128_MAX" "s \<le> 36"
  shows "decimal_new m s = Ok d \<longleftrightarrow> dec_ok d \<and> dec_val d = fp_val m s"
    and "(\<nexists>d. dec_ok d \<and> dec_val d = fp_val m s) \<Longrightarrow> decimal_new m s = Err DecimalError.Overflow"
proof -
  define c where "c = dec_canonicalize (mk_decimal m s)"
  note f = dec_canonicalize_val [OF c_def]
  have "i128_abs (dec_mantissa c) = \<bar>dec_mantissa c\<bar>" using f(4) assms(1) by (intro i128_abs_small) simp
  then have e: "decimal_new m s = (if \<bar>dec_mantissa c\<bar> > MAX_DECIMAL_MANTISSA then Err DecimalError.Overflow else Ok c)"
    using assms(2) by (simp add: decimal_new_def MAX_DECIMAL_SCALE_def Let_def flip: c_def)
  have v: "dec_val c = fp_val m s" using f(1) by (simp add: dec_val_def)
  have ok: "dec_ok c \<longleftrightarrow> \<bar>dec_mantissa c\<bar> \<le> MAX_DECIMAL_MANTISSA" using f(2,3) assms(2) by (auto simp: dec_ok_def)
  have u: "dec_ok d \<Longrightarrow> dec_val d = fp_val m s \<Longrightarrow> d = c" for d
  proof -
    assume a: "dec_ok d" "dec_val d = fp_val m s"
    then have "dec_mantissa d = dec_mantissa c \<and> dec_scale d = dec_scale c"
      using fp_canonical_unique [of "dec_mantissa d" "dec_scale d"] f(2) v unfolding dec_ok_def dec_val_def by metis
    then show ?thesis by simp
  qed
  show "decimal_new m s = Ok d \<longleftrightarrow> dec_ok d \<and> dec_val d = fp_val m s"
  proof (cases "dec_ok c")
    case True
    then have "decimal_new m s = Ok c" using e ok by simp
    then show ?thesis using u [of d] v True by auto
  next
    case False
    then have "decimal_new m s \<noteq> Ok d" using e ok by simp
    then show ?thesis using u [of d] False by auto
  qed
  assume "\<nexists>d. dec_ok d \<and> dec_val d = fp_val m s"
  then show "decimal_new m s = Err DecimalError.Overflow" using e v ok by auto
qed

lemma decimal_new_ok:
  assumes "\<bar>m\<bar> \<le> MAX_DECIMAL_MANTISSA" "s \<le> 36"
  shows "\<exists>d. decimal_new m s = Ok d \<and> dec_ok d \<and> dec_val d = fp_val m s"
proof -
  define c where "c = dec_canonicalize (mk_decimal m s)"
  note f = dec_canonicalize_val [OF c_def]
  have "dec_ok c" "dec_val c = fp_val m s" using f assms by (auto simp: dec_ok_def dec_val_def)
  then show ?thesis using decimal_new_iff(1) [of m s c] assms MAX_mantissa_less by auto
qed

lemma decimal_new_canonical: "dec_ok d \<Longrightarrow> decimal_new (dec_mantissa d) (dec_scale d) = Ok d"
  using decimal_new_iff(1) [of "dec_mantissa d" "dec_scale d" d] MAX_mantissa_less
  by (auto simp: dec_ok_def dec_val_def)

subsection \<open>Wire format\<close>

lemma dec_ok_range: "dec_ok d \<Longrightarrow> i128_range (dec_mantissa d)" "dec_ok d \<Longrightarrow> i128_abs (dec_mantissa d) = \<bar>dec_mantissa d\<bar>"
  using MAX_mantissa_less by (auto simp: dec_ok_def i128_range_def i128_abs_small)

lemma count_trailing_zeros_0: "\<not> 10 dvd m \<Longrightarrow> count_trailing_zeros m = 0"
  by (simp add: count_trailing_zeros.simps [of m] rust_rem_0_iff_dvd)

lemma decimal_from_bytes_fields:
  assumes "s \<le> 36" "i128_range m"
  shows "decimal_from_bytes (decimal_to_bytes (mk_decimal m s)) =
    (if m = 0 \<and> s \<noteq> 0 \<or> m \<noteq> 0 \<and> count_trailing_zeros (i128_abs m) \<ge> s
     then Err DecimalError.NonCanonical else decimal_new m s)"
proof -
  have "i128_abs m = 0 \<longleftrightarrow> m = 0"
    using assms(2) by (cases "m = I128_MIN") (auto simp: i128_abs_def as_i128_def i128_range_def)
  moreover have "unat (of_nat s :: u8) = s" using assms(1) by (simp add: unat_of_nat)
  moreover have "as_i128 (of_be_bytes (be_bytes 16 m)) = m" using assms(2) by (rule i128_be_roundtrip)
  ultimately show ?thesis
    using assms(1) by (auto simp: decimal_from_bytes_def decimal_to_bytes_def Let_def MAX_DECIMAL_SCALE_def)
qed

lemma decimal_bytes_round_trip:
  assumes "dec_ok d"
  shows "decimal_from_bytes (decimal_to_bytes d) =
    (if dec_scale d = 0 \<and> dec_mantissa d \<noteq> 0 then Err DecimalError.NonCanonical else Ok d)"
proof -
  let ?m = "dec_mantissa d" and ?s = "dec_scale d"
  have d: "mk_decimal ?m ?s = d" by (simp add: mk_decimal_def)
  have s: "?s \<le> 36" and c: "fp_canonical ?m ?s" using assms by (auto simp: dec_ok_def)
  have "?m = 0 \<longrightarrow> ?s = 0" using c by (simp add: fp_canonical_def)
  moreover have "0 < ?s \<Longrightarrow> ?m \<noteq> 0 \<Longrightarrow> count_trailing_zeros (i128_abs ?m) = 0"
    using c dec_ok_range(2) [OF assms] by (intro count_trailing_zeros_0) (auto simp: fp_canonical_def)
  ultimately show ?thesis
    using decimal_from_bytes_fields [OF s dec_ok_range(1) [OF assms]] decimal_new_canonical [OF assms]
    unfolding d by (cases "dec_scale d = 0") auto
qed

subsection \<open>Rounding\<close>

lemma rust_rem_2: "rust_rem q 2 = 0 \<longleftrightarrow> even q"
  by (simp add: rust_rem_0_iff_dvd)

lemma half_pow10: "rust_div (10 ^ Suc k) 2 = 5 * 10 ^ k"
  by (simp add: rust_div_pos)

text \<open>The half-even branch of \<open>decimal_round\<close> is banker's rounding.\<close>

lemma round_half_even_branch:
  assumes "\<bar>m\<bar> \<le> MAX_DECIMAL_MANTISSA" "0 < k"
  defines "q \<equiv> rust_div m (10 ^ k)" and "r \<equiv> rust_rem m (10 ^ k)"
  shows "half_even m (10 ^ k) (if i128_abs r < rust_div (10 ^ k) 2 then q
      else if i128_abs r > rust_div (10 ^ k) 2 then as_i128 (q + sgn m)
      else if rust_rem q 2 = 0 then q else as_i128 (q + sgn m))"
proof -
  obtain j where k: "k = Suc j" using assms(2) by (cases k) auto
  have h: "2 * rust_div (10 ^ k) 2 = 10 ^ k" unfolding k half_pow10 by simp
  have q: "\<bar>q\<bar> \<le> MAX_DECIMAL_MANTISSA" using abs_rust_div_le [of m "10 ^ k"] assms(1) by (simp add: q_def)
  have "\<bar>r\<bar> \<le> \<bar>m\<bar>"
    using rust_rem_eq [of m "10 ^ k"] by (auto simp: r_def abs_mult abs_sgn_eq zmod_le_nonneg_dividend)
  then have r: "i128_abs r = \<bar>r\<bar>" using assms(1) MAX_mantissa_less by (intro i128_abs_small) simp
  have "\<bar>sgn m\<bar> \<le> 1" by (simp add: sgn_if)
  then have "\<bar>q + sgn m\<bar> \<le> MAX_DECIMAL_MANTISSA + 1" using abs_triangle_ineq [of q "sgn m"] q by linarith
  then have w: "as_i128 (q + sgn m) = q + sgn m"
    by (intro as_i128_id i128_range_small) (simp add: MAX_DECIMAL_MANTISSA_def)
  show ?thesis
    by (rule half_even_of_trunc) (use h in \<open>auto simp: r w rust_rem_2 r_def [symmetric] q_def [symmetric]\<close>)
qed

definition rounded :: "RoundingMode \<Rightarrow> int \<Rightarrow> int \<Rightarrow> int \<Rightarrow> bool" where
  "rounded mode n d r \<longleftrightarrow>
     (case mode of
        RoundHalfEven \<Rightarrow> half_even n d r
      | RoundDown \<Rightarrow> r = rust_div n d
      | RoundUp \<Rightarrow> r = (if d dvd n then rust_div n d else rust_div n d + sgn n))"

lemma half_even_abs_le: "half_even n d r \<Longrightarrow> \<bar>d\<bar> \<ge> 2 \<Longrightarrow> \<bar>r\<bar> \<le> \<bar>n\<bar>"
proof -
  assume h: "half_even n d r" "\<bar>d\<bar> \<ge> 2"
  have "\<bar>r\<bar> * \<bar>d\<bar> \<le> \<bar>n\<bar> + \<bar>n - r * d\<bar>"
    using abs_triangle_ineq4 [of n "n - r * d"] by (simp add: abs_mult)
  then have le: "2 * (\<bar>r\<bar> * \<bar>d\<bar>) \<le> 2 * \<bar>n\<bar> + \<bar>d\<bar>" using h by (auto simp: half_even_def)
  show ?thesis
  proof (rule ccontr)
    assume "\<not> \<bar>r\<bar> \<le> \<bar>n\<bar>"
    then have "(\<bar>n\<bar> + 1) * \<bar>d\<bar> \<le> \<bar>r\<bar> * \<bar>d\<bar>" by (intro mult_right_mono) simp_all
    then have "2 * \<bar>n\<bar> * \<bar>d\<bar> + \<bar>d\<bar> \<le> 2 * \<bar>n\<bar>" using le by (simp add: algebra_simps)
    moreover have "2 * \<bar>n\<bar> * 1 \<le> 2 * \<bar>n\<bar> * \<bar>d\<bar>" using h(2) by (intro mult_left_mono) simp_all
    ultimately show False using h(2) by linarith
  qed
qed

lemma away_abs_le:
  assumes "0 < k"
  shows "\<bar>rust_div m (10 ^ k) + sgn m\<bar> \<le> \<bar>m\<bar>"
proof (cases "m = 0")
  case False
  have "(10 :: int) ^ 1 \<le> 10 ^ k" using assms by (intro power_increasing) simp_all
  then have "\<bar>m\<bar> div 10 ^ k \<le> \<bar>m\<bar> div 10" by (intro zdiv_mono2) simp_all
  then have "\<bar>rust_div m (10 ^ k)\<bar> \<le> \<bar>m\<bar> div 10" by (simp add: abs_rust_div)
  moreover have "\<bar>m\<bar> div 10 + 1 \<le> \<bar>m\<bar>" using False by simp
  moreover have "\<bar>sgn m\<bar> \<le> 1" by (simp add: sgn_if)
  ultimately show ?thesis using abs_triangle_ineq [of "rust_div m (10 ^ k)" "sgn m"] by linarith
qed (simp add: rust_div_def)

lemma decimal_round_val:
  assumes "dec_ok d" "t < dec_scale d"
  shows "\<exists>e r. decimal_round d t mode = Ok e \<and> dec_ok e \<and> dec_val e = fp_val r t \<and>
    rounded mode (dec_mantissa d) (10 ^ (dec_scale d - t)) r"
proof -
  let ?m = "dec_mantissa d" and ?k = "dec_scale d - t"
  let ?q = "rust_div ?m (10 ^ ?k)" and ?r = "rust_rem ?m (10 ^ ?k)"
  have k: "0 < ?k" "?k \<le> 36" and t: "t \<le> 36" using assms by (auto simp: dec_ok_def)
  have m: "\<bar>?m\<bar> \<le> MAX_DECIMAL_MANTISSA" using assms(1) by (simp add: dec_ok_def)
  have "(10 :: int) ^ 1 \<le> 10 ^ ?k" using k(1) by (intro power_increasing) simp_all
  then have p: "2 \<le> \<bar>10 ^ ?k :: int\<bar>" by simp
  define res where "res = (case mode of
      RoundHalfEven \<Rightarrow> (if i128_abs ?r < rust_div (10 ^ ?k) 2 then ?q
        else if i128_abs ?r > rust_div (10 ^ ?k) 2 then as_i128 (?q + sgn ?m)
        else if rust_rem ?q 2 = 0 then ?q else as_i128 (?q + sgn ?m))
    | RoundDown \<Rightarrow> ?q
    | RoundUp \<Rightarrow> (if ?r > 0 \<and> ?m > 0 then as_i128 (?q + 1) else if ?r < 0 \<and> ?m < 0 then as_i128 (?q - 1) else ?q))"
  have e: "decimal_round d t mode = decimal_new res t"
    using assms(2) k(2) by (simp add: decimal_round_def res_def Let_def split: RoundingMode.split)
  have w: "as_i128 (?q + sgn ?m) = ?q + sgn ?m"
    using away_abs_le [OF k(1), of ?m] m MAX_mantissa_less by (intro as_i128_id i128_range_small) linarith
  have up: "(if ?r > 0 \<and> ?m > 0 then as_i128 (?q + 1) else if ?r < 0 \<and> ?m < 0 then as_i128 (?q - 1) else ?q)
      = (if 10 ^ ?k dvd ?m then ?q else ?q + sgn ?m)"
  proof -
    obtain z where "?r = sgn ?m * z" "0 \<le> z"
      using rust_rem_eq [of ?m "10 ^ ?k"] that [of "\<bar>?m\<bar> mod 10 ^ ?k"] by simp
    then have "?r > 0 \<and> ?m > 0 \<longleftrightarrow> ?r \<noteq> 0 \<and> ?m > 0" "?r < 0 \<and> ?m < 0 \<longleftrightarrow> ?r \<noteq> 0 \<and> ?m < 0"
      by (auto simp: sgn_if)
    moreover have "?r \<noteq> 0 \<longleftrightarrow> \<not> 10 ^ ?k dvd ?m" by (simp add: rust_rem_0_iff_dvd)
    ultimately show ?thesis using w by (auto simp: sgn_if)
  qed
  have "rounded mode ?m (10 ^ ?k) res"
  proof (cases mode)
    case RoundHalfEven
    then show ?thesis using round_half_even_branch [OF m k(1)] by (simp only: rounded_def res_def RoundingMode.case)
  next
    case RoundUp
    then show ?thesis using up by (simp only: rounded_def res_def RoundingMode.case)
  qed (simp only: rounded_def res_def RoundingMode.case)
  moreover from this have "\<bar>res\<bar> \<le> \<bar>?m\<bar>"
    using half_even_abs_le [OF _ p] away_abs_le [OF k(1), of ?m] abs_rust_div_le [of ?m "10 ^ ?k"]
    by (cases mode) (auto simp: rounded_def split: if_splits)
  ultimately show ?thesis using e decimal_new_ok [of res t] m t by auto
qed

subsection \<open>Division\<close>

lemma scaled_product_val:
  assumes "i128_range x" "i128_range y"
  shows "scaled_product x y = (if i128_range (x * y) then Ok (x * y) else Err DecimalError.Overflow)"
proof -
  note a = bigint_from_i128_ok [OF assms(1)] and b = bigint_from_i128_ok [OF assms(2)]
  have "\<bar>x * y\<bar> \<le> 2 ^ 127 * 2 ^ 127"
    unfolding abs_mult using assms by (intro mult_mono) (auto simp: i128_range_def)
  then have "fits (x * y)" by (simp add: fits_def)
  then have "returns (bigint_mul (bigint_from_i128 x) (bigint_from_i128 y)) (x * y)"
    using bigint_mul_val [of "bigint_from_i128 x" "bigint_from_i128 y"] a b by simp
  then obtain c where "bigint_mul (bigint_from_i128 x) (bigint_from_i128 y) = Ok c" "bi_ok c" "bi_val c = x * y"
    by (auto simp: returns_def split: outcome.splits)
  then show ?thesis using bigint_to_i128_val [of c] by (simp add: scaled_product_def)
qed

text \<open>
  The rounding of a quotient of magnitudes is banker's rounding, except that an odd divisor
  has no exact half: there the remainder just below the half is taken for a tie.
\<close>

definition false_tie :: "int \<Rightarrow> int \<Rightarrow> bool" where
  "false_tie n d \<longleftrightarrow> 2 * (n mod d) + 1 = d \<and> odd (n div d)"

lemma round_quotient_val:
  assumes "0 \<le> n" "0 < d" "n div d < I128_MAX"
  shows "if false_tie n d then round_quotient n d = n div d + 1 else half_even n d (round_quotient n d)"
proof -
  let ?q = "n div d" and ?r = "n mod d"
  have w: "as_i128 (?q + 1) = ?q + 1"
    using assms by (intro as_i128_id i128_range_small) (simp add: pos_imp_zdiv_nonneg_iff)
  have e: "round_quotient n d = (if ?r < d div 2 then ?q else if ?r > d div 2 then ?q + 1
      else if even ?q then ?q else ?q + 1)"
    using assms by (simp add: round_quotient_def rust_div_pos rust_rem_pos w rust_rem_2 [of ?q])
  show ?thesis
  proof (cases "false_tie n d")
    case True
    then have "?r = d div 2" "odd ?q" by (auto simp: false_tie_def)
    with True show ?thesis by (simp add: e)
  next
    case False
    have f: "n - ?q * d = ?r" "0 \<le> ?r" "?r < d" using assms by (simp_all add: minus_div_mult_eq_mod)
    then have f1: "\<bar>n - ?q * d\<bar> = ?r" and f2: "\<bar>n - (?q + 1) * d\<bar> = d - ?r" by (simp_all add: distrib_right)
    have tie: "2 * (d div 2) = d \<or> 2 * (d div 2) + 1 = d" by presburger
    have down: "half_even n d ?q" if "2 * ?r < d \<or> 2 * ?r = d \<and> even ?q"
      using that assms(2) unfolding half_even_def f1 by auto
    have up: "half_even n d (?q + 1)" if "2 * ?r > d \<or> 2 * ?r = d \<and> odd ?q"
      using that assms(2) unfolding half_even_def f2 by auto
    consider "?r < d div 2" | "?r > d div 2" | "?r = d div 2" "even ?q" | "?r = d div 2" "odd ?q" by linarith
    then have "half_even n d (round_quotient n d)"
    proof cases
      case 1
      then have "2 * ?r < d" by linarith
      with 1 down show ?thesis by (simp add: e)
    next
      case 2
      then have "2 * ?r > d" by linarith
      with 2 up show ?thesis by (simp add: e)
    next
      case 3
      then have "2 * ?r < d \<or> 2 * ?r = d" using tie by linarith
      with 3 down show ?thesis by (auto simp: e)
    next
      case 4
      then have "2 * ?r = d" using tie False unfolding false_tie_def by metis
      with 4 up show ?thesis by (simp add: e)
    qed
    with False show ?thesis by simp
  qed
qed

lemma half_even_signs:
  assumes "half_even \<bar>n\<bar> \<bar>d\<bar> r"
  shows "half_even n d (if (n < 0) \<noteq> (d < 0) then - r else r)"
  using assms by (auto simp: half_even_def abs_if split: if_splits)

definition div_scale :: "decimal \<Rightarrow> decimal \<Rightarrow> nat" where
  "div_scale a b = min (max (dec_scale a) (dec_scale b) + 6) 36"

definition div_shift :: "decimal \<Rightarrow> decimal \<Rightarrow> nat" where
  "div_shift a b = div_scale a b - dec_scale a + dec_scale b"

lemma decimal_div_cases:
  assumes "dec_ok a" "dec_ok b" "dec_mantissa b \<noteq> 0"
  defines "n \<equiv> \<bar>dec_mantissa a\<bar> * 10 ^ div_shift a b" and "d \<equiv> \<bar>dec_mantissa b\<bar>"
  shows "decimal_div a b t =
    (if div_shift a b > 36 then Panic
     else if n > I128_MAX then Err DecimalError.Overflow
     else decimal_new
       (if (dec_mantissa a < 0) \<noteq> (dec_mantissa b < 0) then as_i128 (- round_quotient n d) else round_quotient n d)
       (div_scale a b))"
proof -
  let ?a = "\<bar>dec_mantissa a\<bar>" and ?k = "div_shift a b"
  have sc: "dec_scale a \<le> 36" "dec_scale b \<le> 36" using assms(1,2) by (auto simp: dec_ok_def)
  then have T: "min ((max (dec_scale a) (dec_scale b) + 6) mod 256) MAX_DECIMAL_SCALE = div_scale a b"
    by (simp add: div_scale_def MAX_DECIMAL_SCALE_def)
  have "dec_scale a \<le> div_scale a b" using sc by (simp add: div_scale_def)
  then have diff: "int (div_scale a b) - int (dec_scale a) + int (dec_scale b) = int ?k" by (simp add: div_shift_def)
  note ab = dec_ok_range(2) [OF assms(1)] dec_ok_range(2) [OF assms(2)]
  have a: "?a \<le> MAX_DECIMAL_MANTISSA" "i128_range ?a"
    using assms(1) MAX_mantissa_less by (auto simp: dec_ok_def i128_range_def)
  have p: "?k \<le> 36 \<Longrightarrow> i128_range (10 ^ ?k)"
    using power_increasing [of ?k 36 "10 :: int"] by (intro i128_range_small) simp
  have n0: "0 \<le> n" by (simp add: n_def)
  then have nr: "i128_range n \<longleftrightarrow> \<not> n > I128_MAX" unfolding i128_range_def by linarith
  have sp: "?k \<le> 36 \<Longrightarrow> scaled_product (10 ^ ?k) ?a = (if n > I128_MAX then Err DecimalError.Overflow else Ok n)"
    using scaled_product_val [OF p a(2)] nr by (simp add: n_def mult.commute)
  have z: "?k = 0 \<Longrightarrow> n = ?a \<and> \<not> n > I128_MAX" using a(1) MAX_mantissa_less by (simp add: n_def)
  have abs_n: "\<not> n > I128_MAX \<Longrightarrow> i128_abs n = n" using n0 by (subst i128_abs_small) simp_all
  have "decimal_div a b t = bind_ok
      (if ?k > 0 then bind_ok (at_index DEC_POW10 ?k) (\<lambda>pow10. scaled_product pow10 ?a) else Ok ?a)
      (\<lambda>sd. let result = round_quotient (i128_abs sd) d in
         decimal_new (if (dec_mantissa a < 0) \<noteq> (dec_mantissa b < 0) then as_i128 (- result) else result) (div_scale a b))"
    unfolding decimal_div_def Let_def T diff ab d_def using assms(3) by simp
  then show ?thesis using sp z abs_n by (cases "?k = 0") (auto simp: Let_def)
qed

lemma decimal_div_val:
  assumes "dec_ok a" "dec_ok b" "dec_mantissa b \<noteq> 0" "div_shift a b \<le> 36"
  defines "n \<equiv> dec_mantissa a * 10 ^ div_shift a b" and "d \<equiv> dec_mantissa b"
  assumes "\<bar>n\<bar> < I128_MAX" "\<not> false_tie \<bar>n\<bar> \<bar>d\<bar>"
  shows "\<exists>r. half_even n d r \<and> decimal_div a b t = decimal_new r (div_scale a b)"
proof -
  have abs_n: "\<bar>n\<bar> = \<bar>dec_mantissa a\<bar> * 10 ^ div_shift a b" by (simp add: n_def abs_mult)
  let ?r = "round_quotient \<bar>n\<bar> \<bar>d\<bar>"
  have "\<bar>n\<bar> div \<bar>d\<bar> \<le> \<bar>n\<bar>" using assms(3) abs_rust_div_le [of n d] abs_rust_div [of d n] by (simp add: d_def)
  then have h: "half_even \<bar>n\<bar> \<bar>d\<bar> ?r"
    using round_quotient_val [of "\<bar>n\<bar>" "\<bar>d\<bar>"] assms(3,7,8) by (simp add: d_def)
  have "\<bar>?r\<bar> \<le> I128_MAX"
  proof (cases "\<bar>d\<bar> = 1")
    case True
    then have "?r = \<bar>n\<bar>" using h half_even_exact [of 1 "\<bar>n\<bar>"] half_even_unique [of "\<bar>n\<bar>" 1 ?r] by simp
    then show ?thesis using assms(7) by simp
  next
    case False
    then have "2 \<le> \<bar>\<bar>d\<bar>\<bar>" using assms(3) by (simp add: d_def)
    then show ?thesis using half_even_abs_le [OF h] assms(7) by simp
  qed
  then have w: "as_i128 (- ?r) = - ?r" by (intro as_i128_id i128_range_small) simp
  have neg: "n < 0 \<longleftrightarrow> dec_mantissa a < 0" by (simp add: n_def mult_less_0_iff)
  have "decimal_div a b t = decimal_new (if (n < 0) \<noteq> (d < 0) then - ?r else ?r) (div_scale a b)"
    using decimal_div_cases [OF assms(1-3), of t, folded d_def] assms(4,7) w
    unfolding abs_n [symmetric] neg by simp
  then show ?thesis using half_even_signs [OF h] by blast
qed

subsection \<open>Strings\<close>

lemma split_dots_simple: "CHR ''.'' \<notin> set i \<Longrightarrow> split_dots i = [i]"
  by (induction i) auto

lemma split_dots_two: "CHR ''.'' \<notin> set i \<Longrightarrow> split_dots (i @ CHR ''.'' # f) = i # split_dots f"
  by (induction i) auto

lemma digit_facts:
  assumes "list_all is_ascii_digit s"
  shows "CHR ''.'' \<notin> set s" "CHR ''e'' \<notin> set s" "CHR ''E'' \<notin> set s" "CHR ''+'' \<notin> set s" "CHR ''-'' \<notin> set s"
    "list_all (\<lambda>c. \<not> is_whitespace c) s"
proof -
  have "\<not> is_ascii_digit (CHR ''.'')" "\<not> is_ascii_digit (CHR ''e'')" "\<not> is_ascii_digit (CHR ''E'')"
    "\<not> is_ascii_digit (CHR ''+'')" "\<not> is_ascii_digit (CHR ''-'')"
    by (simp_all add: is_ascii_digit_def)
  then show "CHR ''.'' \<notin> set s" "CHR ''e'' \<notin> set s" "CHR ''E'' \<notin> set s" "CHR ''+'' \<notin> set s" "CHR ''-'' \<notin> set s"
    using assms by (auto simp: list_all_iff)
  show "list_all (\<lambda>c. \<not> is_whitespace c) s" using assms digit_not_whitespace(2) by (auto simp: list_all_iff)
qed

text \<open>What the parser makes of an optional minus sign, digits, and an optional fraction.\<close>

lemma decimal_from_str_parts:
  assumes i: "list_all is_ascii_digit i" "i \<noteq> []" and f: "list_all is_ascii_digit f" "length f \<le> 36"
    and r: "int (parse_radix 10 (i @ f)) \<le> I128_MAX"
  shows "decimal_from_str ((if neg then [CHR ''-''] else []) @ i @ (if f = [] then [] else CHR ''.'' # f)) =
    decimal_new ((if neg then - 1 else 1) * int (parse_radix 10 (i @ f))) (length f)"
proof -
  let ?b = "i @ (if f = [] then [] else CHR ''.'' # f)" and ?g = "if neg then [CHR ''-''] else []"
  note fi = digit_facts [OF i(1)] and ff = digit_facts [OF f(1)]
  have ws: "list_all (\<lambda>c. \<not> is_whitespace c) (?g @ ?b)"
    using fi(6) ff(6) by (auto simp: is_whitespace_def)
  then have t: "str_trim (?g @ ?b) = ?g @ ?b" and nw: "\<not> list_ex is_whitespace (?g @ ?b)"
    by (simp_all add: str_trim_id list_all_iff list_ex_iff)
  obtain c i' where ci: "i = c # i'" using i(2) by (cases i) auto
  have c: "c \<noteq> CHR ''+''" "c \<noteq> CHR ''-''" using fi(4,5) ci by auto
  have sp: "split_dots ?b = (if f = [] then [i] else [i, f])"
    using split_dots_simple [OF fi(1)] split_dots_simple [OF ff(1)] split_dots_two [OF fi(1)] by simp
  have hd: "(if hd (?g @ ?b) = CHR ''+'' then (1 :: int, tl (?g @ ?b)) else if hd (?g @ ?b) = CHR ''-'' then (- 1, tl (?g @ ?b))
      else (1, ?g @ ?b)) = (if neg then - 1 else 1, ?b)" using c ci by simp
  have "parse_i128 (i @ f) = Ok (int (parse_radix 10 (i @ f)))" using i(2) r by (simp add: parse_i128_def)
  moreover have "?g @ ?b \<noteq> []" "?b \<noteq> []" using i(2) by simp_all
  ultimately show ?thesis
    using i f fi(2,3) ff(2,3) nw
    unfolding decimal_from_str_def Let_def t hd prod.case sp
    by (cases "f = []") (simp_all add: MAX_DECIMAL_SCALE_def)
qed

lemma num_string_last:
  assumes "n mod 10 \<noteq> 0"
  shows "last (num_string 10 97 n) \<noteq> CHR ''0''"
proof -
  have "last (num_string 10 97 n) = digit_char 97 (n mod 10)" by (subst num_string.simps) simp
  moreover have "digit_value (digit_char 97 (n mod 10)) = n mod 10" by (rule digit_value_char) simp_all
  moreover have "digit_value (CHR ''0'') = 0" by (simp add: digit_value_def)
  ultimately show ?thesis using assms by metis
qed

lemma trim_end_zeros_id: "s \<noteq> [] \<Longrightarrow> last s \<noteq> CHR ''0'' \<Longrightarrow> trim_end_zeros s = s"
  by (cases s rule: rev_cases) (simp_all add: trim_end_zeros_def)

lemma parse_leading_zeros: "parse_radix 10 (replicate k (CHR ''0'') @ s) = parse_radix 10 s"
proof -
  have "parse_radix 10 (replicate k (CHR ''0'')) = 0"
    by (induction k) (simp_all add: parse_radix_append [of 10 "[c]" for c, simplified] digit_value_def)
  then show ?thesis by (simp add: parse_radix_append)
qed

lemma list_all_zeros: "list_all is_ascii_digit (replicate k (CHR ''0''))"
  by (auto simp: list_all_iff is_ascii_digit_def)

text \<open>The printed form of a canonical decimal: the integer digits, and the fraction if there is one.\<close>

lemma decimal_to_string_parts:
  assumes "dec_ok d" "dec_mantissa d \<noteq> 0"
  obtains i f where "decimal_to_string d = Ok ((if dec_mantissa d < 0 then [CHR ''-''] else []) @ i @ (if f = [] then [] else CHR ''.'' # f))"
    "list_all is_ascii_digit i" "i \<noteq> []" "list_all is_ascii_digit f" "length f = dec_scale d"
    "int (parse_radix 10 (i @ f)) = \<bar>dec_mantissa d\<bar>"
proof -
  let ?n = "nat \<bar>dec_mantissa d\<bar>" and ?s = "dec_scale d"
  define N where "N = num_string 10 97 ?n"
  define g where "g = (if dec_mantissa d < 0 then [CHR ''-''] else [])"
  have g1: "length g \<le> 1" by (simp add: g_def)
  have Nne: "N \<noteq> []" by (simp add: N_def)
  have sc: "?s \<le> 36" and can: "fp_canonical (dec_mantissa d) ?s" using assms(1) by (auto simp: dec_ok_def)
  have "?n < 10 ^ Suc 35" using assms(1) by (auto simp: dec_ok_def MAX_DECIMAL_MANTISSA_def)
  then have len: "length N \<le> 36" using num_string_length [of 10 ?n 35 97] unfolding N_def by simp
  have dg: "list_all is_ascii_digit N" unfolding N_def by (rule num_string_digits)
  have val: "int (parse_radix 10 N) = \<bar>dec_mantissa d\<bar>" using parse_num_string [of 10 97 ?n] unfolding N_def by simp
  have str: "int_string (i128_abs (dec_mantissa d)) = N"
    using dec_ok_range(2) [OF assms(1)] unfolding N_def by (simp add: int_string_def)
  have last: "0 < ?s \<Longrightarrow> last N \<noteq> CHR ''0''"
    unfolding N_def
  proof (rule num_string_last)
    assume "0 < ?s"
    then have "\<not> 10 dvd dec_mantissa d" using can assms(2) by (simp add: fp_canonical_def)
    then have "\<not> 10 dvd ?n" by (simp add: nat_abs_dvd_iff [symmetric] int_dvd_int_iff flip: int_dvd_int_iff)
    then show "?n mod 10 \<noteq> 0" by (simp add: mod_eq_0_iff_dvd)
  qed
  consider "?s = 0" | "0 < ?s" "?s < length N" | "0 < ?s" "length N \<le> ?s" by linarith
  then show ?thesis
  proof cases
    case 1
    then have "decimal_to_string d = Ok (g @ N)"
      using assms(2) len g1 unfolding decimal_to_string_def Let_def str g_def [symmetric] by simp
    then show ?thesis using that [of N "[]", folded g_def] 1 dg val Nne by simp
  next
    case 2
    let ?i = "take (length N - ?s) N" and ?f = "drop (length N - ?s) N"
    have "?f \<noteq> []" "last ?f \<noteq> CHR ''0''" using 2 last by simp_all
    then have t: "trim_end_zeros ?f = ?f" by (rule trim_end_zeros_id)
    have "decimal_to_string d = Ok (g @ ?i @ CHR ''.'' # ?f)"
      using 2 assms(2) t len g1 \<open>?f \<noteq> []\<close> unfolding decimal_to_string_def Let_def str g_def [symmetric] by simp
    moreover have "list_all is_ascii_digit ?i" "list_all is_ascii_digit ?f"
      using dg by (auto simp: list_all_iff dest: in_set_takeD in_set_dropD)
    moreover have "?i @ ?f = N" by simp
    ultimately show ?thesis
      using that [of ?i ?f, folded g_def] 2 val Nne \<open>?f \<noteq> []\<close> by simp
  next
    case 3
    let ?f = "replicate (?s - length N) (CHR ''0'') @ N"
    have ne: "?f \<noteq> []" "last ?f \<noteq> CHR ''0''" using 3 last Nne by simp_all
    then have t: "trim_end_zeros ?f = ?f" by (rule trim_end_zeros_id)
    have "decimal_to_string d = Ok (g @ ''0'' @ CHR ''.'' # ?f)"
      using 3 assms(2) t len g1 sc unfolding decimal_to_string_def Let_def str g_def [symmetric] by simp
    moreover have "parse_radix 10 (''0'' @ ?f) = parse_radix 10 N"
      using parse_leading_zeros [of "Suc (?s - length N)" N] by simp
    ultimately show ?thesis
      using that [of "''0''" ?f, folded g_def] 3 val ne dg list_all_zeros by (simp add: is_ascii_digit_def)
  qed
qed

lemma decimal_string_inverse:
  assumes "dec_ok d"
  shows "\<exists>s. decimal_to_string d = Ok s \<and> decimal_from_str s = Ok d"
proof (cases "dec_mantissa d = 0")
  case True
  then have z: "dec_scale d = 0" using assms by (simp add: dec_ok_def fp_canonical_def)
  have "decimal_from_str ''0'' = decimal_new 0 0"
    using decimal_from_str_parts [of "''0''" "[]" False] by (simp add: is_ascii_digit_def digit_value_def)
  also have "\<dots> = Ok d" using decimal_new_canonical [OF assms] True z by simp
  finally show ?thesis using True by (simp add: decimal_to_string_def)
next
  case False
  obtain i f where s: "decimal_to_string d = Ok ((if dec_mantissa d < 0 then [CHR ''-''] else []) @ i @ (if f = [] then [] else CHR ''.'' # f))"
    and i: "list_all is_ascii_digit i" "i \<noteq> []" and f: "list_all is_ascii_digit f" "length f = dec_scale d"
    and v: "int (parse_radix 10 (i @ f)) = \<bar>dec_mantissa d\<bar>"
    using decimal_to_string_parts [OF assms False] .
  have "int (parse_radix 10 (i @ f)) \<le> I128_MAX" "length f \<le> 36"
    using assms MAX_mantissa_less f(2) unfolding v by (auto simp: dec_ok_def)
  from decimal_from_str_parts [OF i f(1) this(2,1), of "dec_mantissa d < 0"]
  show ?thesis using s decimal_new_canonical [OF assms] v f(2) by auto
qed

subsection \<open>Properties\<close>

text \<open>For a scale of at most 36 and every mantissa but the least \<open>i128\<close>, \<open>Decimal::new\<close> returns a
  value exactly when the number has a canonical representation within 36 digits, and then
  returns that representation; otherwise the result is \<open>Overflow\<close>, or \<open>InvalidScale\<close> for a larger
  scale.\<close>

theorem decimal_new_correct:
  assumes "i128_range m" "m \<noteq> I128_MIN"
  shows "if s > 36 then decimal_new m s = Err DecimalError.InvalidScale
    else if \<exists>d. dec_ok d \<and> dec_val d = fp_val m s
    then (\<exists>d. decimal_new m s = Ok d \<and> dec_ok d \<and> dec_val d = fp_val m s)
    else decimal_new m s = Err DecimalError.Overflow"
proof (cases "s > 36")
  case False
  have "\<bar>m\<bar> \<le> I128_MAX" using assms by (auto simp: i128_range_def)
  with False show ?thesis using decimal_new_iff [of m s] by auto
qed (simp add: decimal_new_def MAX_DECIMAL_SCALE_def)

theorem decimal_new_witness:
  "\<exists>d. decimal_new 1500 3 = Ok d \<and> dec_ok d \<and> dec_val d = fp_val 1500 3"
proof -
  have "dec_ok (mk_decimal 15 1)" "dec_val (mk_decimal 15 1) = fp_val 1500 3"
    by (simp_all add: dec_ok_def MAX_DECIMAL_MANTISSA_def fp_canonical_def dec_val_def fp_val_eq_iff)
  then have "\<exists>d. dec_ok d \<and> dec_val d = fp_val 1500 3" by blast
  then show ?thesis using decimal_new_correct [of 1500 3] by (simp add: i128_range_def)
qed

text \<open>\<open>Decimal::new\<close> accepts the least \<open>i128\<close>, although it is outside the documented mantissa
  range: its \<open>abs\<close> wraps to a negative number, which passes the range check.\<close>

theorem decimal_new_min_accepted:
  "decimal_new I128_MIN 0 = Ok (mk_decimal I128_MIN 0) \<and> \<not> dec_ok (mk_decimal I128_MIN 0)"
proof -
  have "dec_canonicalize_loop I128_MIN 0 = (I128_MIN, 0)" by (rule dec_strip.strip_stop) simp
  moreover have "i128_abs I128_MIN = I128_MIN" by (simp add: i128_abs_def as_i128_def)
  ultimately show ?thesis
    by (simp add: decimal_new_def dec_canonicalize_def MAX_DECIMAL_SCALE_def MAX_DECIMAL_MANTISSA_def dec_ok_def)
qed

text \<open>C36: Serializing a canonical decimal and reading the bytes back gives the decimal when it has a
  fractional part or is zero, and \<open>NonCanonical\<close> for every other integer: the reader compares the
  number of trailing zeros with the scale the wrong way round.\<close>

theorem decimal_wire_round_trip:
  assumes "dec_ok d"
  shows "decimal_from_bytes (decimal_to_bytes d) =
    (if dec_scale d = 0 \<and> dec_mantissa d \<noteq> 0 then Err DecimalError.NonCanonical else Ok d)"
  by (rule decimal_bytes_round_trip [OF assms])

theorem decimal_wire_round_trip_witness:
  "decimal_from_bytes (decimal_to_bytes (mk_decimal 1 0)) = Err DecimalError.NonCanonical"
  using decimal_wire_round_trip [of "mk_decimal 1 0"]
  by (simp add: dec_ok_def MAX_DECIMAL_MANTISSA_def fp_canonical_def)

text \<open>The reader accepts non-canonical byte strings: the encodings of 0.10 and of 0.1 are
  different byte strings, and both decode to 0.1.\<close>

theorem decimal_wire_not_injective:
  "decimal_to_bytes (mk_decimal 10 2) \<noteq> decimal_to_bytes (mk_decimal 1 1)
   \<and> decimal_from_bytes (decimal_to_bytes (mk_decimal 10 2)) = Ok (mk_decimal 1 1)
   \<and> decimal_from_bytes (decimal_to_bytes (mk_decimal 1 1)) = Ok (mk_decimal 1 1)"
proof -
  have ok: "dec_ok (mk_decimal 1 1)" by (simp add: dec_ok_def MAX_DECIMAL_MANTISSA_def fp_canonical_def)
  have "dec_val (mk_decimal 1 1) = fp_val 10 2" by (simp add: dec_val_def fp_val_eq_iff)
  then have n: "decimal_new 10 2 = Ok (mk_decimal 1 1)" using decimal_new_iff(1) [of 10 2] ok by simp
  have "count_trailing_zeros 10 = 1"
    by (simp add: count_trailing_zeros.simps [of 10] rust_rem_pos rust_div_pos count_trailing_zeros.simps [of 1])
  then have "decimal_from_bytes (decimal_to_bytes (mk_decimal 10 2)) = Ok (mk_decimal 1 1)"
    using decimal_from_bytes_fields [of 2 10] n by (simp add: i128_range_def i128_abs_small)
  moreover have "decimal_from_bytes (decimal_to_bytes (mk_decimal 1 1)) = Ok (mk_decimal 1 1)"
    using decimal_bytes_round_trip [OF ok] by simp
  ultimately show ?thesis by (simp add: decimal_to_bytes_def)
qed

text \<open>Rounding a canonical decimal to fewer places returns the canonical representation of the
  mantissa rounded to the nearest (ties to even), truncated, or rounded away from zero,
  according to the mode; to as many or more places it returns the decimal unchanged.\<close>

theorem decimal_round_correct:
  assumes "dec_ok d"
  shows "if t < dec_scale d
    then \<exists>e r. decimal_round d t mode = Ok e \<and> dec_ok e \<and> dec_val e = fp_val r t \<and>
      rounded mode (dec_mantissa d) (10 ^ (dec_scale d - t)) r
    else decimal_round d t mode = Ok d"
  using decimal_round_val [OF assms] by (simp add: decimal_round_def)

theorem decimal_round_witness:
  "\<exists>e r. decimal_round (mk_decimal 25 1) 0 RoundHalfEven = Ok e \<and> dec_ok e \<and> dec_val e = fp_val r 0 \<and>
     rounded RoundHalfEven 25 (10 ^ 1) r"
  using decimal_round_correct [of "mk_decimal 25 1" 0 RoundHalfEven]
  by (simp add: dec_ok_def MAX_DECIMAL_MANTISSA_def fp_canonical_def)

text \<open>Division of canonical decimals, when the scaled dividend fits into an \<open>i128\<close> and the
  remainder is not the one just below half of an odd divisor: the result is the quotient
  rounded half to even at the result scale, put through the constructor.\<close>

theorem decimal_div_correct:
  assumes "dec_ok a" "dec_ok b" "dec_mantissa b \<noteq> 0" "div_shift a b \<le> 36"
    and "\<bar>dec_mantissa a * 10 ^ div_shift a b\<bar> < I128_MAX"
    and "\<not> false_tie \<bar>dec_mantissa a * 10 ^ div_shift a b\<bar> \<bar>dec_mantissa b\<bar>"
  shows "\<exists>r. half_even (dec_mantissa a * 10 ^ div_shift a b) (dec_mantissa b) r \<and>
    decimal_div a b t = decimal_new r (div_scale a b)"
  by (rule decimal_div_val [OF assms])

theorem decimal_div_witness:
  "\<exists>r. half_even (- 1000000) 8 r \<and> decimal_div (mk_decimal (- 1) 0) (mk_decimal 8 0) 0 = decimal_new r 6"
  using decimal_div_correct [of "mk_decimal (- 1) 0" "mk_decimal 8 0" 0]
  by (simp add: dec_ok_def MAX_DECIMAL_MANTISSA_def fp_canonical_def div_shift_def div_scale_def false_tie_def)

text \<open>With an odd divisor the code takes the remainder just below one half for a tie and rounds
  an odd quotient up: ten divided by three is 3.333334, and the nearest value is 3.333333.\<close>

theorem decimal_div_false_tie:
  "decimal_div (mk_decimal 10 0) (mk_decimal 3 0) 6 = decimal_new 3333334 6 \<and> half_even (10 * 10 ^ 6) 3 3333333"
proof -
  have ok: "dec_ok (mk_decimal 10 0)" "dec_ok (mk_decimal 3 0)"
    by (simp_all add: dec_ok_def MAX_DECIMAL_MANTISSA_def fp_canonical_def)
  have "round_quotient 10000000 3 = 3333334"
    using round_quotient_val [of 10000000 3] by (simp add: false_tie_def)
  then show ?thesis
    using decimal_div_cases [OF ok, of 6] by (simp add: div_shift_def div_scale_def half_even_def)
qed

text \<open>Division panics, by indexing the table of powers of ten out of bounds, whenever the
  divisor has so many more decimal places than the dividend that the dividend would have to be
  scaled by more than \<open>10 ^ 36\<close>.\<close>

theorem decimal_div_panics:
  assumes "dec_ok a" "dec_ok b" "dec_mantissa b \<noteq> 0" "div_shift a b > 36"
  shows "decimal_div a b t = Panic"
  using decimal_div_cases [OF assms(1-3)] assms(4) by simp

theorem decimal_div_panics_witness: "decimal_div (mk_decimal 1 0) (mk_decimal 1 16) 0 = Panic"
  by (rule decimal_div_panics)
    (simp_all add: dec_ok_def MAX_DECIMAL_MANTISSA_def fp_canonical_def div_shift_def div_scale_def)

text \<open>Printing a canonical decimal and parsing the string gives the decimal back, for every
  mantissa and scale; the length trap is never taken.\<close>

theorem decimal_string_round_trip:
  assumes "dec_ok d"
  shows "\<exists>s. decimal_to_string d = Ok s \<and> decimal_from_str s = Ok d"
  by (rule decimal_string_inverse [OF assms])

theorem decimal_string_round_trip_witness:
  "\<exists>s. decimal_to_string (mk_decimal (- 105) 4) = Ok s \<and> decimal_from_str s = Ok (mk_decimal (- 105) 4)"
  by (rule decimal_string_round_trip) (simp add: dec_ok_def MAX_DECIMAL_MANTISSA_def fp_canonical_def)

text \<open>Converting a canonical \<open>Dqa\<close> to \<open>Decimal\<close> keeps its value and never fails, and converting
  back gives the same \<open>Dqa\<close>.\<close>

theorem dqa_decimal_round_trip:
  assumes "dqa_wf q" "dqa_canonical q"
  shows "\<exists>d. dqa_to_decimal q = Ok d \<and> dec_ok d \<and> dec_val d = dqa_val q \<and> decimal_to_dqa d = Ok q"
proof -
  have q: "i64_range (dqa_value q)" "dqa_scale q \<le> 18"
    using assms(1) by (auto simp: dqa_wf_def MAX_SCALE_def)
  let ?d = "mk_decimal (dqa_value q) (dqa_scale q)"
  have ok: "dec_ok ?d"
    using q assms(2) by (auto simp: dec_ok_def MAX_DECIMAL_MANTISSA_def i64_range_def dqa_canonical_def)
  have "dqa_to_decimal q = Ok ?d" using decimal_new_canonical [OF ok] by (simp add: dqa_to_decimal_def)
  moreover have "decimal_to_dqa ?d = Ok q"
    using q by (simp add: decimal_to_dqa_def MAX_SCALE_def dqa_new_def mk_dqa_def i64_range_def)
  ultimately show ?thesis using ok by (simp add: dec_val_def dqa_val_def)
qed

theorem dqa_decimal_round_trip_witness:
  "\<exists>d. dqa_to_decimal (mk_dqa 15 1) = Ok d \<and> dec_ok d \<and> dec_val d = dqa_val (mk_dqa 15 1) \<and> decimal_to_dqa d = Ok (mk_dqa 15 1)"
  by (rule dqa_decimal_round_trip) (simp_all add: dqa_wf_def i64_range_def MAX_SCALE_def dqa_canonical_def fp_canonical_def)

end
