(* ===== verification/IntSqrt.thy ===== *)
theory IntSqrt
  imports Prelude
begin

text \<open>
  The Newton iteration for integer square roots that \<open>decimal_sqrt\<close> and
  \<open>decimal_sqrt_internal\<close> run for a fixed number of rounds, as a function on integers, and the
  proof that the rounds suffice: the distance of the iterate to \<open>s + 1\<close>, where \<open>s\<close> is the root
  rounded down, is squared and divided by \<open>2 (s + 1)\<close> in every round.
\<close>

definition is_isqrt :: "int \<Rightarrow> int \<Rightarrow> bool" where
  "is_isqrt n s \<longleftrightarrow> 0 \<le> s \<and> s * s \<le> n \<and> n < (s + 1) * (s + 1)"

definition newton_step :: "int \<Rightarrow> int \<Rightarrow> int" where
  "newton_step n x = (x + n div x) div 2"

lemma is_isqrt_unique: "is_isqrt n s \<Longrightarrow> is_isqrt n t \<Longrightarrow> s = t"
proof -
  have "s \<le> t" if "is_isqrt n s" "is_isqrt n t" for s t
  proof (rule ccontr)
    assume "\<not> s \<le> t"
    then have "(t + 1) * (t + 1) \<le> s * s" using that by (intro mult_mono) (auto simp: is_isqrt_def)
    then show False using that by (auto simp: is_isqrt_def)
  qed
  then show "is_isqrt n s \<Longrightarrow> is_isqrt n t \<Longrightarrow> s = t" by (simp add: order_antisym)
qed

lemma is_isqrt_exists: "0 \<le> n \<Longrightarrow> \<exists>s. is_isqrt n s"
proof (induction n rule: int_ge_induct)
  case base
  show ?case by (rule exI [of _ 0]) (simp add: is_isqrt_def)
next
  case (step n)
  then obtain s where s: "is_isqrt n s" by blast
  show ?case
  proof (cases "n + 1 < (s + 1) * (s + 1)")
    case True
    then show ?thesis using s by (intro exI [of _ s]) (simp add: is_isqrt_def)
  next
    case False
    then have "n + 1 = (s + 1) * (s + 1)" using s by (simp add: is_isqrt_def)
    then show ?thesis using s by (intro exI [of _ "s + 1"]) (simp add: is_isqrt_def algebra_simps)
  qed
qed

lemma newton_step_lower:
  assumes "is_isqrt n s" "0 < x"
  shows "s \<le> newton_step n x"
proof -
  have "2 * s * x \<le> s * s + x * x" using zero_le_square [of "s - x"] by (simp add: algebra_simps)
  then have "(2 * s - x) * x \<le> n" using assms(1) by (simp add: is_isqrt_def algebra_simps)
  then have "(2 * s - x) * x div x \<le> n div x" using assms(2) by (rule zdiv_mono1)
  then have "2 * s - x \<le> n div x" using assms(2) by simp
  then show ?thesis by (simp add: newton_step_def)
qed

lemma newton_step_error:
  assumes "is_isqrt n s" "0 \<le> e" "x = s + 1 + e"
  shows "2 * (s + 1) * (newton_step n x - (s + 1)) \<le> e * e"
proof -
  let ?y = "newton_step n x"
  have x: "0 < x" using assms by (simp add: is_isqrt_def)
  have "x * (n div x) \<le> n" using mult_div_mod_eq [of x n] pos_mod_sign [OF x, of n] by linarith
  also have "n < (s + 1) * (s + 1)" using assms(1) by (simp add: is_isqrt_def)
  finally have "x * (n div x) < (x - e) * (x - e)" by (simp add: assms(3))
  moreover have "2 * ?y \<le> x + n div x" by (simp add: newton_step_def)
  then have "x * (2 * ?y) \<le> x * (x + n div x)" using x by simp
  ultimately have "x * (2 * ?y) < x * x + (x - e) * (x - e)" by (simp add: algebra_simps)
  then have d: "2 * x * (?y - (s + 1)) < e * e" using assms(3) by (simp add: algebra_simps)
  show ?thesis
  proof (cases "0 \<le> ?y - (s + 1)")
    case True
    then have "2 * (s + 1) * (?y - (s + 1)) \<le> 2 * x * (?y - (s + 1))"
      using assms by (intro mult_right_mono) simp_all
    then show ?thesis using d by linarith
  next
    case False
    then have "2 * (s + 1) * (?y - (s + 1)) \<le> 0"
      using assms(1) by (intro mult_nonneg_nonpos) (simp_all add: is_isqrt_def)
    then show ?thesis using zero_le_square [of e] by linarith
  qed
qed

lemma newton_step_near:
  assumes "is_isqrt n s" "s \<le> x" "x \<le> s + 1" "0 < x"
  shows "s \<le> newton_step n x \<and> newton_step n x \<le> s + 1"
proof (cases "x = s + 1")
  case True
  then have "2 * (s + 1) * (newton_step n x - (s + 1)) \<le> 0"
    using newton_step_error [OF assms(1), of 0 x] by simp
  then have "newton_step n x \<le> s + 1" using assms(1) by (simp add: is_isqrt_def mult_le_0_iff)
  then show ?thesis using newton_step_lower [OF assms(1,4)] by simp
next
  case False
  then have x: "x = s" using assms by simp
  have "n \<le> (s + 2) * s" using assms(1) by (simp add: is_isqrt_def algebra_simps)
  then have "n div s \<le> (s + 2) * s div s" using assms(4) x by (intro zdiv_mono1) simp_all
  then have "n div s \<le> s + 2" using assms(4) x by simp
  then have "newton_step n x \<le> s + 1" by (simp add: newton_step_def x)
  then show ?thesis using newton_step_lower [OF assms(1,4)] by simp
qed

text \<open>Bounded iteration: after \<open>k\<close> rounds the error times \<open>2 ^ (2 ^ k - 1)\<close> is at most \<open>s + 1\<close>.\<close>

lemma newton_above: "is_isqrt n s \<Longrightarrow> 0 < s \<Longrightarrow> s \<le> x \<Longrightarrow> s \<le> (newton_step n ^^ k) x"
  by (induction k) (auto intro: newton_step_lower)

lemma newton_quadratic:
  assumes s: "is_isqrt n s" "0 < s" and x: "s \<le> x" "x \<le> 2 * (s + 1)"
  shows "2 ^ (2 ^ k - 1) * ((newton_step n ^^ k) x - (s + 1)) \<le> s + 1"
proof (induction k)
  case 0
  then show ?case using x by simp
next
  case (Suc k)
  define y where "y = (newton_step n ^^ k) x"
  define M where "M = (2 :: int) ^ (2 ^ k - 1)"
  define e where "e = y - (s + 1)"
  define f where "f = newton_step n y - (s + 1)"
  have M: "0 < M" and IH: "M * e \<le> s + 1" using Suc by (simp_all add: M_def e_def y_def)
  have "(2 :: nat) ^ Suc k - 1 = Suc ((2 ^ k - 1) + (2 ^ k - 1))"
    using one_le_power [of "2 :: nat" k, OF one_le_numeral] unfolding power_Suc by linarith
  then have M2: "2 ^ (2 ^ Suc k - 1) = 2 * (M * M)" by (simp only: M_def power_add power_Suc)
  have "2 * (M * M) * f \<le> s + 1"
  proof (cases "0 \<le> e")
    case True
    then have "2 * (s + 1) * f \<le> e * e"
      unfolding f_def by (intro newton_step_error [OF s(1)]) (simp_all add: e_def)
    then have "(M * M) * (2 * (s + 1) * f) \<le> (M * M) * (e * e)" by (intro mult_left_mono) simp_all
    also have "\<dots> = (M * e) * (M * e)" by simp
    also have "\<dots> \<le> (s + 1) * (s + 1)" using IH True M s(2) by (intro mult_mono) simp_all
    finally have "(s + 1) * (2 * (M * M) * f) \<le> (s + 1) * (s + 1)" by (simp add: algebra_simps)
    then show ?thesis using s(2) by (simp only: mult_le_cancel_left_pos)
  next
    case False
    then have "s \<le> y" "y \<le> s + 1" using newton_above [OF s x(1), of k] by (simp_all add: e_def y_def)
    then have "f \<le> 0" using newton_step_near [OF s(1), of y] s(2) by (simp add: f_def)
    then have "2 * (M * M) * f \<le> 0" using M by (intro mult_nonneg_nonpos) simp_all
    then show ?thesis using s(2) by linarith
  qed
  then show ?case by (simp only: M2 f_def y_def funpow.simps comp_apply)
qed

text \<open>
  Forty rounds are enough: eight already reach \<open>s\<close> or \<open>s + 1\<close> for every argument below \<open>2 ^ 508\<close>,
  and the iteration then stays there.
\<close>

lemma newton_converges:
  assumes s: "is_isqrt n s" "0 < s" and x: "s \<le> x" "x \<le> 2 * (s + 1)" and n: "n < 2 ^ 508" and k: "8 \<le> k"
  shows "s \<le> (newton_step n ^^ k) x \<and> (newton_step n ^^ k) x \<le> s + 1"
  using k
proof (induction k rule: nat_induct_at_least)
  case base
  have "s < 2 ^ 254"
  proof (rule ccontr)
    assume "\<not> s < 2 ^ 254"
    then have "(2 ^ 254 :: int) * 2 ^ 254 \<le> s * s" by (intro mult_mono) simp_all
    then show False using n s(1) by (simp add: is_isqrt_def flip: power_add)
  qed
  moreover have "2 ^ 255 * ((newton_step n ^^ 8) x - (s + 1)) \<le> s + 1"
    using newton_quadratic [OF s x, of 8] by simp
  ultimately have "2 ^ 255 * ((newton_step n ^^ 8) x - (s + 1)) < 2 ^ 255" by simp
  then have "(newton_step n ^^ 8) x \<le> s + 1" by simp
  then show ?case using newton_above [OF s x(1)] by blast
next
  case (Suc k)
  then show ?case using newton_step_near [OF s(1), of "(newton_step n ^^ k) x"] s(2) by simp
qed

lemma newton_start:
  assumes s: "is_isqrt n s" and n: "2 ^ (b - 1) \<le> n" "n < 2 ^ b" and b: "0 < b"
  shows "s \<le> 2 ^ ((b + 1) div 2) \<and> 2 ^ ((b + 1) div 2) \<le> 2 * (s + 1)"
proof
  define c where "c = (b + 1) div 2"
  have c: "b \<le> 2 * c" "2 * c \<le> b + 1" by (simp_all add: c_def)
  have sq: "(2 ^ c :: int) * 2 ^ c = 2 ^ (2 * c)" by (simp add: mult_2 power_add)
  show "s \<le> 2 ^ ((b + 1) div 2)"
  proof (rule ccontr)
    assume "\<not> s \<le> 2 ^ ((b + 1) div 2)"
    then have "(2 ^ c :: int) * 2 ^ c \<le> s * s"
      using s by (intro mult_mono) (simp_all add: c_def is_isqrt_def)
    then have "2 ^ (2 * c) \<le> n" using s by (simp add: sq is_isqrt_def)
    moreover have "(2 :: int) ^ b \<le> 2 ^ (2 * c)" using c by (intro power_increasing) simp_all
    ultimately show False using n by linarith
  qed
  show "2 ^ ((b + 1) div 2) \<le> 2 * (s + 1)"
  proof (rule ccontr)
    assume "\<not> 2 ^ ((b + 1) div 2) \<le> 2 * (s + 1)"
    then have "(2 * (s + 1)) * (2 * (s + 1)) \<le> (2 ^ c :: int) * 2 ^ c"
      using s by (intro mult_mono) (simp_all add: c_def is_isqrt_def)
    then have "4 * ((s + 1) * (s + 1)) \<le> 2 ^ (2 * c)" by (simp add: sq algebra_simps)
    also have "\<dots> \<le> 2 ^ (b + 1)" using c by (intro power_increasing) simp_all
    also have "\<dots> = 4 * 2 ^ (b - 1)" using b by (cases b) simp_all
    finally show False using n(1) s by (simp add: is_isqrt_def)
  qed
qed

lemma newton_sqrt:
  assumes n: "0 < n" "n < 2 ^ 508" and b: "2 ^ (b - 1) \<le> n" "n < 2 ^ b" and k: "8 \<le> k"
    and x: "x = (newton_step n ^^ k) (2 ^ ((b + 1) div 2))"
  shows "is_isqrt n (if x * x > n then x - 1 else x)" "0 < x"
proof -
  obtain s where s: "is_isqrt n s" using is_isqrt_exists [of n] n by auto
  have pos: "0 < s" using s n(1) by (cases "s = 0") (auto simp: is_isqrt_def)
  have "0 < b" using n(1) b(2) by (cases b) simp_all
  note start = newton_start [OF s b this]
  have c: "s \<le> x" "x \<le> s + 1" using newton_converges [OF s pos _ _ n(2) k] start by (simp_all add: x)
  show "0 < x" using c pos by simp
  have "x = s \<or> x = s + 1" using c by linarith
  then show "is_isqrt n (if x * x > n then x - 1 else x)"
    using s by (auto simp: is_isqrt_def)
qed

end
