(* ===== verification/DecimalBig.thy ===== *)
theory DecimalBig
  imports DecimalDet IntSqrt
begin

text \<open>
  The decimal operations of \<open>determin/src/decimal.rs\<close> that go through the third-party crate
  \<open>num-bigint\<close>: addition, subtraction, multiplication, comparison and square root. The crate's
  operations are a parameter, the record \<open>num_ops\<close>; what the code relies on (they compute on
  unbounded integers, division truncates, \<open>bits\<close> is the bit length) is the predicate \<open>num_laws\<close>,
  and \<open>int_ops\<close> shows that it can hold.
\<close>

subsection \<open>The parameter\<close>

record 'b num_ops =
  nb_from :: "int \<Rightarrow> 'b"
  nb_to_i128 :: "'b \<Rightarrow> int option"
  nb_checked_add :: "'b \<Rightarrow> 'b \<Rightarrow> 'b option"
  nb_checked_sub :: "'b \<Rightarrow> 'b \<Rightarrow> 'b option"
  nb_checked_mul :: "'b \<Rightarrow> 'b \<Rightarrow> 'b option"
  nb_add :: "'b \<Rightarrow> 'b \<Rightarrow> 'b"
  nb_sub :: "'b \<Rightarrow> 'b \<Rightarrow> 'b"
  nb_mul :: "'b \<Rightarrow> 'b \<Rightarrow> 'b"
  nb_div :: "'b \<Rightarrow> 'b \<Rightarrow> 'b"
  nb_rem :: "'b \<Rightarrow> 'b \<Rightarrow> 'b"
  nb_neg :: "'b \<Rightarrow> 'b"
  nb_abs :: "'b \<Rightarrow> 'b"
  nb_lt :: "'b \<Rightarrow> 'b \<Rightarrow> bool"
  nb_eq :: "'b \<Rightarrow> 'b \<Rightarrow> bool"
  nb_is_zero :: "'b \<Rightarrow> bool"
  nb_bits :: "'b \<Rightarrow> nat"
  nb_shl :: "'b \<Rightarrow> nat \<Rightarrow> 'b"
  nb_shr :: "'b \<Rightarrow> nat \<Rightarrow> 'b"

definition num_laws :: "'b num_ops \<Rightarrow> ('b \<Rightarrow> int) \<Rightarrow> bool" where
  "num_laws N v \<longleftrightarrow>
     (\<forall>i. v (nb_from N i) = i) \<and>
     (\<forall>x. nb_to_i128 N x = (if i128_range (v x) then Some (v x) else None)) \<and>
     (\<forall>x y. \<exists>z. nb_checked_add N x y = Some z \<and> v z = v x + v y) \<and>
     (\<forall>x y. \<exists>z. nb_checked_sub N x y = Some z \<and> v z = v x - v y) \<and>
     (\<forall>x y. \<exists>z. nb_checked_mul N x y = Some z \<and> v z = v x * v y) \<and>
     (\<forall>x y. v (nb_add N x y) = v x + v y) \<and>
     (\<forall>x y. v (nb_sub N x y) = v x - v y) \<and>
     (\<forall>x y. v (nb_mul N x y) = v x * v y) \<and>
     (\<forall>x y. v y \<noteq> 0 \<longrightarrow> v (nb_div N x y) = rust_div (v x) (v y)) \<and>
     (\<forall>x y. v y \<noteq> 0 \<longrightarrow> v (nb_rem N x y) = rust_rem (v x) (v y)) \<and>
     (\<forall>x. v (nb_neg N x) = - v x) \<and>
     (\<forall>x. v (nb_abs N x) = \<bar>v x\<bar>) \<and>
     (\<forall>x y. nb_lt N x y \<longleftrightarrow> v x < v y) \<and>
     (\<forall>x y. nb_eq N x y \<longleftrightarrow> v x = v y) \<and>
     (\<forall>x. nb_is_zero N x \<longleftrightarrow> v x = 0) \<and>
     (\<forall>x. v x \<noteq> 0 \<longrightarrow> 2 ^ (nb_bits N x - 1) \<le> \<bar>v x\<bar> \<and> \<bar>v x\<bar> < 2 ^ nb_bits N x) \<and>
     (\<forall>x k. v (nb_shl N x k) = v x * 2 ^ k) \<and>
     (\<forall>x k. v (nb_shr N x k) = v x div 2 ^ k)"

definition int_ops :: "int num_ops" where
  "int_ops =
     \<lparr>nb_from = id, nb_to_i128 = (\<lambda>x. if i128_range x then Some x else None),
      nb_checked_add = (\<lambda>x y. Some (x + y)), nb_checked_sub = (\<lambda>x y. Some (x - y)),
      nb_checked_mul = (\<lambda>x y. Some (x * y)),
      nb_add = (+), nb_sub = (-), nb_mul = (*), nb_div = rust_div, nb_rem = rust_rem,
      nb_neg = uminus, nb_abs = abs, nb_lt = (<), nb_eq = (=), nb_is_zero = (\<lambda>x. x = 0), nb_bits = (\<lambda>x. bit_width (nat \<bar>x\<bar>)),
      nb_shl = (\<lambda>x k. x * 2 ^ k), nb_shr = (\<lambda>x k. x div 2 ^ k)\<rparr>"

definition ok_or :: "'a option \<Rightarrow> 'e \<Rightarrow> ('a, 'e) outcome" where
  "ok_or x e = (case x of None \<Rightarrow> Err e | Some y \<Rightarrow> Ok y)"

subsection \<open>Addition and subtraction\<close>

definition align_mantissa :: "'b num_ops \<Rightarrow> int \<Rightarrow> nat \<Rightarrow> ('b, DecimalError) outcome" where
  "align_mantissa N mantissa diff =
     (if diff > 0 then
        bind_ok (at_index DEC_POW10 diff) (\<lambda>pow10.
          ok_or (nb_checked_mul N (nb_from N mantissa) (nb_from N pow10)) DecimalError.Overflow)
      else Ok (nb_from N mantissa))"

definition range_checked :: "'b num_ops \<Rightarrow> 'b \<Rightarrow> nat \<Rightarrow> (decimal, DecimalError) outcome" where
  "range_checked N x scale =
     (let max_big = nb_from N MAX_DECIMAL_MANTISSA; neg_max_big = nb_neg N max_big in
      if nb_lt N max_big x \<or> nb_lt N x neg_max_big then Err DecimalError.Overflow
      else bind_ok (ok_or (nb_to_i128 N x) DecimalError.Overflow) (\<lambda>m. decimal_new m scale))"

definition decimal_add :: "'b num_ops \<Rightarrow> decimal \<Rightarrow> decimal \<Rightarrow> (decimal, DecimalError) outcome" where
  "decimal_add N a b =
     (let target_scale = max (dec_scale a) (dec_scale b);
          diff_a = target_scale - dec_scale a;
          diff_b = target_scale - dec_scale b in
      bind_ok (align_mantissa N (dec_mantissa a) diff_a) (\<lambda>a_val.
        bind_ok (align_mantissa N (dec_mantissa b) diff_b) (\<lambda>b_val.
          bind_ok (ok_or (nb_checked_add N a_val b_val) DecimalError.Overflow) (\<lambda>sum_big.
            range_checked N sum_big target_scale))))"

definition decimal_sub :: "'b num_ops \<Rightarrow> decimal \<Rightarrow> decimal \<Rightarrow> (decimal, DecimalError) outcome" where
  "decimal_sub N a b =
     (let target_scale = max (dec_scale a) (dec_scale b);
          diff_a = target_scale - dec_scale a;
          diff_b = target_scale - dec_scale b in
      bind_ok (align_mantissa N (dec_mantissa a) diff_a) (\<lambda>a_val.
        bind_ok (align_mantissa N (dec_mantissa b) diff_b) (\<lambda>b_val.
          bind_ok (ok_or (nb_checked_sub N a_val b_val) DecimalError.Overflow) (\<lambda>diff_big.
            range_checked N diff_big target_scale))))"

subsection \<open>Multiplication\<close>

definition round_product :: "'b num_ops \<Rightarrow> 'b \<Rightarrow> 'b \<Rightarrow> 'b \<Rightarrow> 'b" where
  "round_product N product_big remainder divisor =
     (let zero = nb_from N 0; one = nb_from N 1;
          abs_remainder = nb_abs N remainder;
          half = nb_div N divisor (nb_from N 2);
          away = (if \<not> nb_lt N product_big zero then nb_add N product_big one else nb_sub N product_big one) in
      if nb_lt N half abs_remainder then away
      else if nb_eq N abs_remainder half \<and> \<not> nb_is_zero N product_big then
        (if \<not> nb_eq N (nb_rem N product_big (nb_from N 2)) zero then away else product_big)
      else product_big)"

definition decimal_mul :: "'b num_ops \<Rightarrow> decimal \<Rightarrow> decimal \<Rightarrow> (decimal, DecimalError) outcome" where
  "decimal_mul N a b =
     (let raw_scale = (dec_scale a + dec_scale b) mod 256 in
      if raw_scale > MAX_DECIMAL_SCALE then
        (let scale_reduction = raw_scale - MAX_DECIMAL_SCALE in
         bind_ok (ok_or (nb_checked_mul N (nb_from N (dec_mantissa a)) (nb_from N (dec_mantissa b))) DecimalError.Overflow)
           (\<lambda>intermediate.
              bind_ok (at_index DEC_POW10 scale_reduction) (\<lambda>pow10.
                let divisor = nb_from N pow10;
                    product_big = nb_div N intermediate divisor;
                    remainder = nb_rem N intermediate divisor in
                range_checked N (round_product N product_big remainder divisor) MAX_DECIMAL_SCALE)))
      else
        bind_ok (ok_or (nb_checked_mul N (nb_from N (dec_mantissa a)) (nb_from N (dec_mantissa b))) DecimalError.Overflow)
          (\<lambda>intermediate.
             if nb_lt N (nb_from N MAX_DECIMAL_MANTISSA) (nb_abs N intermediate) then Err DecimalError.Overflow
             else bind_ok (ok_or (nb_to_i128 N intermediate) DecimalError.Overflow) (\<lambda>prod. decimal_new prod raw_scale)))"

subsection \<open>Square root\<close>

fun newton_loop :: "'b num_ops \<Rightarrow> 'b \<Rightarrow> nat \<Rightarrow> 'b \<Rightarrow> 'b" where
  "newton_loop N scaled_n 0 x = x"
| "newton_loop N scaled_n (Suc k) x =
     (if nb_is_zero N x then x
      else newton_loop N scaled_n k (nb_shr N (nb_add N x (nb_div N scaled_n x)) 1))"

definition sqrt_scaled :: "'b num_ops \<Rightarrow> int \<Rightarrow> int \<Rightarrow> ('b, DecimalError) outcome" where
  "sqrt_scaled N mantissa scale_factor =
     (if scale_factor > 36 then
        bind_ok (at_index DEC_POW10 (nat (scale_factor - 36))) (\<lambda>lo.
          bind_ok (at_index DEC_POW10 36) (\<lambda>hi.
            bind_ok (ok_or (nb_checked_mul N (nb_from N mantissa) (nb_from N lo)) DecimalError.Overflow) (\<lambda>partial.
              ok_or (nb_checked_mul N partial (nb_from N hi)) DecimalError.Overflow)))
      else if scale_factor \<ge> 0 then
        bind_ok (at_index DEC_POW10 (nat scale_factor)) (\<lambda>pow10.
          ok_or (nb_checked_mul N (nb_from N mantissa) (nb_from N pow10)) DecimalError.Overflow)
      else Err DecimalError.Overflow)"

definition decimal_sqrt :: "'b num_ops \<Rightarrow> decimal \<Rightarrow> (decimal, DecimalError) outcome" where
  "decimal_sqrt N a =
     (if dec_mantissa a < 0 then Err DecimalError.InvalidScale
      else if dec_mantissa a = 0 then decimal_new 0 0
      else
        let p = min (dec_scale a + 6) MAX_DECIMAL_SCALE;
            scale_factor = 2 * int p - int (dec_scale a) in
        bind_ok (sqrt_scaled N (dec_mantissa a) scale_factor) (\<lambda>scaled_n.
          let bit_len = nb_bits N scaled_n;
              x0 = nb_shl N (nb_from N 1) ((bit_len + 1) div 2);
              x1 = newton_loop N scaled_n 40 x0;
              x = (if nb_lt N scaled_n (nb_mul N x1 x1) then nb_sub N x1 (nb_from N 1) else x1) in
          if nb_lt N (nb_from N MAX_DECIMAL_MANTISSA) x then Err DecimalError.Overflow
          else bind_ok (ok_or (nb_to_i128 N x) DecimalError.Overflow) (\<lambda>mantissa. decimal_new mantissa p)))"

subsection \<open>Comparison\<close>

definition decimal_cmp :: "'b num_ops \<Rightarrow> decimal \<Rightarrow> decimal \<Rightarrow> (int, DecimalError) outcome" where
  "decimal_cmp N a b =
     (if dec_scale a = dec_scale b then
        Ok (if dec_mantissa a < dec_mantissa b then - 1 else if dec_mantissa a > dec_mantissa b then 1 else 0)
      else
        let max_scale = max (dec_scale a) (dec_scale b);
            diff_a = max_scale - dec_scale a;
            diff_b = max_scale - dec_scale b in
        bind_ok (at_index DEC_POW10 diff_a) (\<lambda>pa.
          bind_ok (at_index DEC_POW10 diff_b) (\<lambda>pb.
            let compare_a = nb_mul N (nb_from N (dec_mantissa a)) (nb_from N pa);
                compare_b = nb_mul N (nb_from N (dec_mantissa b)) (nb_from N pb) in
            Ok (if nb_lt N compare_a compare_b then - 1
                else if nb_lt N compare_b compare_a then 1 else 0))))"

subsection \<open>The laws\<close>

lemma int_ops_laws: "num_laws int_ops id"
proof -
  have "2 ^ (bit_width (nat \<bar>x\<bar>) - 1) \<le> \<bar>x\<bar> \<and> \<bar>x\<bar> < 2 ^ bit_width (nat \<bar>x\<bar>)" if "x \<noteq> 0" for x :: int
  proof -
    have "int (2 ^ (bit_width (nat \<bar>x\<bar>) - 1)) \<le> int (nat \<bar>x\<bar>) \<and> int (nat \<bar>x\<bar>) < int (2 ^ bit_width (nat \<bar>x\<bar>))"
      using bit_width_bounds [of "nat \<bar>x\<bar>"] that by (simp only: of_nat_le_iff of_nat_less_iff zero_less_abs_iff nat_0_iff)
    then show ?thesis by simp
  qed
  then show ?thesis by (simp add: num_laws_def int_ops_def)
qed

lemma num_lawsD:
  assumes "num_laws N v"
  shows "v (nb_from N i) = i"
    and "nb_to_i128 N x = (if i128_range (v x) then Some (v x) else None)"
    and "\<exists>z. nb_checked_add N x y = Some z \<and> v z = v x + v y"
    and "\<exists>z. nb_checked_sub N x y = Some z \<and> v z = v x - v y"
    and "\<exists>z. nb_checked_mul N x y = Some z \<and> v z = v x * v y"
    and "v (nb_add N x y) = v x + v y" "v (nb_sub N x y) = v x - v y" "v (nb_mul N x y) = v x * v y"
    and "v y \<noteq> 0 \<Longrightarrow> v (nb_div N x y) = rust_div (v x) (v y)"
    and "v y \<noteq> 0 \<Longrightarrow> v (nb_rem N x y) = rust_rem (v x) (v y)"
    and "v (nb_neg N x) = - v x" "v (nb_abs N x) = \<bar>v x\<bar>"
    and "nb_lt N x y \<longleftrightarrow> v x < v y" "nb_eq N x y \<longleftrightarrow> v x = v y" "nb_is_zero N x \<longleftrightarrow> v x = 0"
    and "v x \<noteq> 0 \<Longrightarrow> 2 ^ (nb_bits N x - 1) \<le> \<bar>v x\<bar>" "v x \<noteq> 0 \<Longrightarrow> \<bar>v x\<bar> < 2 ^ nb_bits N x"
    and "v (nb_shl N x k) = v x * 2 ^ k" "v (nb_shr N x k) = v x div 2 ^ k"
  using assms unfolding num_laws_def by simp_all

lemma ok_or_simps [simp]: "ok_or (Some x) e = Ok x" "ok_or None e = Err e"
  by (simp_all add: ok_or_def)

lemma max_mantissa_pos: "0 < MAX_DECIMAL_MANTISSA"
  by (simp add: MAX_DECIMAL_MANTISSA_def)

text \<open>The reference: the mantissa in range gives the constructor's result, any other \<open>Overflow\<close>.\<close>

definition checked_decimal :: "int \<Rightarrow> nat \<Rightarrow> (decimal, DecimalError) outcome" where
  "checked_decimal m s = (if \<bar>m\<bar> > MAX_DECIMAL_MANTISSA then Err DecimalError.Overflow else decimal_new m s)"

lemma checked_decimal_ok:
  assumes "\<bar>m\<bar> \<le> MAX_DECIMAL_MANTISSA" "s \<le> 36"
  shows "\<exists>d. checked_decimal m s = Ok d \<and> dec_ok d \<and> dec_val d = fp_val m s"
  using decimal_new_ok [OF assms] assms(1) by (simp add: checked_decimal_def)

lemma mantissa_i128: "\<bar>m\<bar> \<le> MAX_DECIMAL_MANTISSA \<Longrightarrow> i128_range m"
  using MAX_mantissa_less by (intro i128_range_small) linarith

lemma range_checked_val:
  assumes "num_laws N v"
  shows "range_checked N x s = checked_decimal (v x) s"
proof (cases "\<bar>v x\<bar> \<le> MAX_DECIMAL_MANTISSA")
  case True
  then have "\<not> MAX_DECIMAL_MANTISSA < v x" "\<not> v x < - MAX_DECIMAL_MANTISSA" by linarith+
  then show ?thesis
    using True mantissa_i128 [OF True] by (simp add: range_checked_def checked_decimal_def num_lawsD [OF assms])
next
  case False
  then have "MAX_DECIMAL_MANTISSA < v x \<or> v x < - MAX_DECIMAL_MANTISSA" by linarith
  then show ?thesis using False by (simp add: range_checked_def checked_decimal_def num_lawsD [OF assms])
qed

lemma align_mantissa_val:
  assumes "num_laws N v" "diff \<le> 36"
  obtains x where "align_mantissa N m diff = Ok x" "v x = m * 10 ^ diff"
proof (cases "diff = 0")
  case True
  then show ?thesis using that num_lawsD(1) [OF assms(1)] by (simp add: align_mantissa_def)
next
  case False
  obtain z where "nb_checked_mul N (nb_from N m) (nb_from N (10 ^ diff)) = Some z" "v z = m * 10 ^ diff"
    using num_lawsD(5) [OF assms(1)] num_lawsD(1) [OF assms(1)] by metis
  then show ?thesis using that [of z] False assms(2) by (simp add: align_mantissa_def)
qed

definition aligned :: "decimal \<Rightarrow> decimal \<Rightarrow> int" where
  "aligned a b = dec_mantissa a * 10 ^ (max (dec_scale a) (dec_scale b) - dec_scale a)"

lemma aligned_val: "fp_val (aligned a b) (max (dec_scale a) (dec_scale b)) = dec_val a"
  using fp_val_shift [of "dec_mantissa a" "max (dec_scale a) (dec_scale b) - dec_scale a" "dec_scale a"]
  by (simp add: aligned_def dec_val_def)

lemma decimal_add_val:
  assumes "num_laws N v" "dec_ok a" "dec_ok b"
  shows "decimal_add N a b = checked_decimal (aligned a b + aligned b a) (max (dec_scale a) (dec_scale b))"
proof -
  let ?t = "max (dec_scale a) (dec_scale b)"
  have s: "?t - dec_scale a \<le> 36" "?t - dec_scale b \<le> 36" using assms by (auto simp: dec_ok_def)
  obtain x where x: "align_mantissa N (dec_mantissa a) (?t - dec_scale a) = Ok x" "v x = aligned a b"
    using align_mantissa_val [OF assms(1) s(1)] by (metis aligned_def)
  obtain y where y: "align_mantissa N (dec_mantissa b) (?t - dec_scale b) = Ok y" "v y = aligned b a"
    using align_mantissa_val [OF assms(1) s(2)] by (metis aligned_def max.commute)
  obtain z where z: "nb_checked_add N x y = Some z" "v z = v x + v y" using num_lawsD(3) [OF assms(1)] by blast
  show ?thesis by (simp add: decimal_add_def Let_def x y z range_checked_val [OF assms(1)])
qed

lemma decimal_sub_val:
  assumes "num_laws N v" "dec_ok a" "dec_ok b"
  shows "decimal_sub N a b = checked_decimal (aligned a b - aligned b a) (max (dec_scale a) (dec_scale b))"
proof -
  let ?t = "max (dec_scale a) (dec_scale b)"
  have s: "?t - dec_scale a \<le> 36" "?t - dec_scale b \<le> 36" using assms by (auto simp: dec_ok_def)
  obtain x where x: "align_mantissa N (dec_mantissa a) (?t - dec_scale a) = Ok x" "v x = aligned a b"
    using align_mantissa_val [OF assms(1) s(1)] by (metis aligned_def)
  obtain y where y: "align_mantissa N (dec_mantissa b) (?t - dec_scale b) = Ok y" "v y = aligned b a"
    using align_mantissa_val [OF assms(1) s(2)] by (metis aligned_def max.commute)
  obtain z where z: "nb_checked_sub N x y = Some z" "v z = v x - v y" using num_lawsD(4) [OF assms(1)] by blast
  show ?thesis by (simp add: decimal_sub_def Let_def x y z range_checked_val [OF assms(1)])
qed

lemma aligned_less_iff:
  "aligned a b < aligned b a \<longleftrightarrow> dec_val a < dec_val b"
  using fp_val_less_iff [of "aligned a b" "max (dec_scale a) (dec_scale b)" "aligned b a" "max (dec_scale a) (dec_scale b)"]
    aligned_val [of a b] aligned_val [of b a] by (simp add: max.commute)

lemma decimal_cmp_val:
  assumes "num_laws N v" "dec_ok a" "dec_ok b"
  shows "decimal_cmp N a b = Ok (if dec_val a < dec_val b then - 1 else if dec_val b < dec_val a then 1 else 0)"
proof (cases "dec_scale a = dec_scale b")
  case True
  then have "dec_mantissa a < dec_mantissa b \<longleftrightarrow> dec_val a < dec_val b" "dec_mantissa b < dec_mantissa a \<longleftrightarrow> dec_val b < dec_val a"
    by (simp_all add: dec_val_def fp_val_less_iff)
  then show ?thesis using True by (simp add: decimal_cmp_def)
next
  case False
  let ?t = "max (dec_scale a) (dec_scale b)"
  have s: "?t - dec_scale a \<le> 36" "?t - dec_scale b \<le> 36" using assms by (auto simp: dec_ok_def)
  show ?thesis
    using False s aligned_less_iff [of a b] aligned_less_iff [of b a]
    by (simp add: decimal_cmp_def Let_def num_lawsD [OF assms(1)] aligned_def max.commute)
qed

subsection \<open>Multiplication\<close>

text \<open>
  The number whose half-even rounding the multiplication delivers: the product, except that the
  sign of a product below one unit of the last place is lost.
\<close>

definition mul_numerator :: "decimal \<Rightarrow> decimal \<Rightarrow> int" where
  "mul_numerator a b =
     (let product = dec_mantissa a * dec_mantissa b in
      if \<bar>product\<bar> < 10 ^ (dec_scale a + dec_scale b - 36) then \<bar>product\<bar> else product)"

lemma round_product_val:
  assumes "num_laws N v" "0 < k" "v d = 10 ^ k" "v q = rust_div n (10 ^ k)" "v m = rust_rem n (10 ^ k)"
  shows "half_even (if \<bar>n\<bar> < 10 ^ k then \<bar>n\<bar> else n) (10 ^ k) (v (round_product N q m d))"
proof (rule half_even_of_trunc)
  let ?d = "10 ^ k :: int"
  define n' where "n' = (if \<bar>n\<bar> < ?d then \<bar>n\<bar> else n)"
  obtain j where k: "k = Suc j" using assms(2) by (cases k) auto
  have h: "2 * rust_div ?d 2 = ?d" unfolding k half_pow10 by simp
  define h' where "h' = rust_div ?d 2"
  have aq: "\<bar>v q\<bar> = \<bar>n\<bar> div ?d" by (simp add: assms(4) abs_rust_div)
  have q0: "v q = 0 \<longleftrightarrow> \<bar>n\<bar> < ?d"
  proof -
    have "v q = 0 \<longleftrightarrow> \<bar>n\<bar> div ?d = 0" using aq by linarith
    also have "\<dots> \<longleftrightarrow> \<bar>n\<bar> < ?d" by (auto simp: zdiv_eq_0_iff)
    finally show ?thesis .
  qed
  have "v q = sgn n * (\<bar>n\<bar> div ?d)" by (simp add: assms(4) rust_div_def)
  then have sg: "sgn (v q) = sgn n" if "v q \<noteq> 0" using that aq by (auto simp: sgn_if zero_less_mult_iff split: if_splits)
  have q: "rust_div n' ?d = v q" using q0 by (auto simp: n'_def assms(4) rust_div_pos)
  have m: "\<bar>rust_rem n' ?d\<bar> = \<bar>v m\<bar>" by (simp add: n'_def assms(5) rust_rem_eq abs_mult abs_sgn_eq)
  have away: "v q + (if v q \<ge> 0 then 1 else - 1) = v q + sgn n' * sgn ?d" if "n \<noteq> 0"
    using q0 sg that by (auto simp: n'_def sgn_if split: if_splits)
  have nz: "n \<noteq> 0" if "v m \<noteq> 0" using that by (auto simp: assms(5) rust_rem_def rust_div_def)
  have "v (round_product N q m d) =
     (if h' < \<bar>v m\<bar> then v q + (if v q \<ge> 0 then 1 else - 1)
      else if \<bar>v m\<bar> = h' \<and> v q \<noteq> 0 then (if odd (v q) then v q + (if v q \<ge> 0 then 1 else - 1) else v q)
      else v q)"
    by (simp add: round_product_def Let_def num_lawsD [OF assms(1)] assms(3) rust_rem_2 h'_def)
  moreover have "0 < 2 * h'" unfolding h'_def h by simp
  then have "v m \<noteq> 0" if "h' \<le> \<bar>v m\<bar>" using that by auto
  ultimately show "v (round_product N q m d) =
      (if 2 * \<bar>rust_rem n' ?d\<bar> < \<bar>?d\<bar> then rust_div n' ?d
       else if 2 * \<bar>rust_rem n' ?d\<bar> > \<bar>?d\<bar> then rust_div n' ?d + sgn n' * sgn ?d
       else if even (rust_div n' ?d) then rust_div n' ?d
       else rust_div n' ?d + sgn n' * sgn ?d)"
    unfolding q m using away nz h [folded h'_def] by (auto simp: not_less)
qed simp

lemma decimal_mul_exact:
  assumes "num_laws N v" "dec_ok a" "dec_ok b" "dec_scale a + dec_scale b \<le> 36"
  shows "decimal_mul N a b = checked_decimal (dec_mantissa a * dec_mantissa b) (dec_scale a + dec_scale b)"
proof -
  let ?P = "dec_mantissa a * dec_mantissa b"
  obtain z where z: "nb_checked_mul N (nb_from N (dec_mantissa a)) (nb_from N (dec_mantissa b)) = Some z" "v z = ?P"
    using num_lawsD(1,5) [OF assms(1)] by metis
  have "(dec_scale a + dec_scale b) mod 256 = dec_scale a + dec_scale b" using assms(4) by simp
  then show ?thesis
    using assms(4) mantissa_i128 [of ?P]
    by (simp add: decimal_mul_def Let_def z MAX_DECIMAL_SCALE_def num_lawsD [OF assms(1)] checked_decimal_def not_less)
qed

lemma decimal_mul_rounded:
  assumes "num_laws N v" "dec_ok a" "dec_ok b" "36 < dec_scale a + dec_scale b"
  shows "\<exists>r. half_even (mul_numerator a b) (10 ^ (dec_scale a + dec_scale b - 36)) r \<and>
    decimal_mul N a b = checked_decimal r 36"
proof -
  let ?P = "dec_mantissa a * dec_mantissa b" and ?k = "dec_scale a + dec_scale b - 36"
  obtain z where z: "nb_checked_mul N (nb_from N (dec_mantissa a)) (nb_from N (dec_mantissa b)) = Some z" "v z = ?P"
    using num_lawsD(1,5) [OF assms(1)] by metis
  let ?d = "nb_from N (10 ^ ?k)"
  let ?x = "round_product N (nb_div N z ?d) (nb_rem N z ?d) ?d"
  have k: "0 < ?k" "?k \<le> 36" and r: "(dec_scale a + dec_scale b) mod 256 = dec_scale a + dec_scale b"
    using assms by (auto simp: dec_ok_def)
  have "half_even (mul_numerator a b) (10 ^ ?k) (v ?x)"
    unfolding mul_numerator_def Let_def
    by (rule round_product_val [OF assms(1) k(1)]) (simp_all add: num_lawsD [OF assms(1)] z)
  moreover have "decimal_mul N a b = checked_decimal (v ?x) 36"
    using assms(4) k by (simp add: decimal_mul_def Let_def z r MAX_DECIMAL_SCALE_def range_checked_val [OF assms(1)])
  ultimately show ?thesis by blast
qed

subsection \<open>Square root\<close>

lemma newton_loop_val:
  assumes "num_laws N v" "is_isqrt (v n) s" "0 < s"
  shows "0 < v x \<Longrightarrow> v (newton_loop N n k x) = (newton_step (v n) ^^ k) (v x)"
proof (induction k arbitrary: x)
  case (Suc k)
  let ?y = "nb_shr N (nb_add N x (nb_div N n x)) 1"
  have "0 \<le> s * s" by simp
  then have "0 \<le> v n" using assms(2) unfolding is_isqrt_def by linarith
  then have y: "v ?y = newton_step (v n) (v x)"
    using Suc.prems by (simp add: num_lawsD [OF assms(1)] newton_step_def rust_div_pos)
  have "s \<le> newton_step (v n) (v x)" by (rule newton_step_lower [OF assms(2) Suc.prems])
  then have "0 < v ?y" using y assms(3) by simp
  then have "v (newton_loop N n k ?y) = (newton_step (v n) ^^ k) (v ?y)" by (rule Suc.IH)
  then show ?case using Suc.prems y by (simp add: num_lawsD [OF assms(1)] funpow_swap1)
qed simp

definition sqrt_scale :: "decimal \<Rightarrow> nat" where
  "sqrt_scale a = min (dec_scale a + 6) 36"

definition sqrt_radicand :: "decimal \<Rightarrow> int" where
  "sqrt_radicand a = dec_mantissa a * 10 ^ (2 * sqrt_scale a - dec_scale a)"

lemma sqrt_scale_bounds: "dec_ok a \<Longrightarrow> sqrt_scale a \<le> 36" "dec_ok a \<Longrightarrow> dec_scale a \<le> sqrt_scale a"
  by (auto simp: sqrt_scale_def dec_ok_def)

lemma sqrt_radicand_bounds:
  assumes "dec_ok a" "0 < dec_mantissa a"
  shows "0 < sqrt_radicand a" "sqrt_radicand a < 2 ^ 508"
proof -
  have "2 * sqrt_scale a - dec_scale a \<le> 72" using sqrt_scale_bounds(1) [OF assms(1)] by linarith
  then have "dec_mantissa a * 10 ^ (2 * sqrt_scale a - dec_scale a) \<le> 10 ^ 36 * (10 :: int) ^ 72"
    using assms by (intro mult_mono power_increasing) (auto simp: dec_ok_def MAX_DECIMAL_MANTISSA_def)
  also have "\<dots> < 2 ^ 508" by simp
  finally show "sqrt_radicand a < 2 ^ 508" by (simp add: sqrt_radicand_def)
  show "0 < sqrt_radicand a" using assms(2) by (simp add: sqrt_radicand_def)
qed

lemma sqrt_scaled_val:
  assumes "num_laws N v" "dec_ok a"
  obtains n where "sqrt_scaled N (dec_mantissa a) (2 * int (sqrt_scale a) - int (dec_scale a)) = Ok n"
    "v n = sqrt_radicand a"
proof -
  let ?f = "2 * int (sqrt_scale a) - int (dec_scale a)"
  have f: "0 \<le> ?f" "nat ?f = 2 * sqrt_scale a - dec_scale a" "?f \<le> 72"
    using sqrt_scale_bounds [OF assms(2)] by auto
  show ?thesis
  proof (cases "?f > 36")
    case True
    let ?lo = "10 ^ nat (?f - 36) :: int"
    obtain y where y: "nb_checked_mul N (nb_from N (dec_mantissa a)) (nb_from N ?lo) = Some y" "v y = dec_mantissa a * ?lo"
      using num_lawsD(1,5) [OF assms(1)] by metis
    obtain z where z: "nb_checked_mul N y (nb_from N (10 ^ 36)) = Some z" "v z = v y * 10 ^ 36"
      using num_lawsD(1,5) [OF assms(1)] by metis
    have "2 * sqrt_scale a - dec_scale a = nat (?f - 36) + 36" using True f by simp
    then have "v z = sqrt_radicand a" by (simp only: z y sqrt_radicand_def power_add mult.assoc)
    moreover have "sqrt_scaled N (dec_mantissa a) ?f = Ok z"
      using True f y(1) z(1) by (simp add: sqrt_scaled_def del: nat_diff_distrib')
    ultimately show ?thesis using that by blast
  next
    case False
    obtain z where z: "nb_checked_mul N (nb_from N (dec_mantissa a)) (nb_from N (10 ^ nat ?f)) = Some z"
      "v z = dec_mantissa a * 10 ^ nat ?f"
      using num_lawsD(1,5) [OF assms(1)] by metis
    then show ?thesis using that [of z] False f by (simp add: sqrt_scaled_def sqrt_radicand_def)
  qed
qed

lemma decimal_sqrt_val:
  assumes "num_laws N v" "dec_ok a" "0 < dec_mantissa a"
  shows "\<exists>x. is_isqrt (sqrt_radicand a) x \<and> decimal_sqrt N a = checked_decimal x (sqrt_scale a)"
proof -
  obtain n where n: "sqrt_scaled N (dec_mantissa a) (2 * int (sqrt_scale a) - int (dec_scale a)) = Ok n"
    "v n = sqrt_radicand a" using sqrt_scaled_val [OF assms(1,2)] .
  note b = sqrt_radicand_bounds [OF assms(2,3)]
  define x0 where "x0 = nb_shl N (nb_from N 1) ((nb_bits N n + 1) div 2)"
  define x1 where "x1 = newton_loop N n 40 x0"
  define x where "x = (if nb_lt N n (nb_mul N x1 x1) then nb_sub N x1 (nb_from N 1) else x1)"
  obtain s where s: "is_isqrt (v n) s" using is_isqrt_exists [of "v n"] b n(2) by auto
  have s0: "0 < s" using s b n(2) by (cases "s = 0") (auto simp: is_isqrt_def)
  have bits: "2 ^ (nb_bits N n - 1) \<le> v n" "v n < 2 ^ nb_bits N n"
    using num_lawsD(16,17) [OF assms(1), of n] b n(2) by auto
  have x1: "v x1 = (newton_step (v n) ^^ 40) (2 ^ ((nb_bits N n + 1) div 2))"
    unfolding x1_def
    by (subst newton_loop_val [OF assms(1) s s0]) (simp_all add: x0_def num_lawsD [OF assms(1)])
  have vx: "v x = (if v x1 * v x1 > v n then v x1 - 1 else v x1)" by (simp add: x_def num_lawsD [OF assms(1)])
  have isq: "is_isqrt (sqrt_radicand a) (v x)"
    using newton_sqrt(1) [OF _ _ bits _ x1] b n(2) by (simp add: vx)
  then have "0 \<le> v x" by (simp add: is_isqrt_def)
  moreover have "decimal_sqrt N a =
      (if nb_lt N (nb_from N MAX_DECIMAL_MANTISSA) x then Err DecimalError.Overflow
       else bind_ok (ok_or (nb_to_i128 N x) DecimalError.Overflow) (\<lambda>mantissa. decimal_new mantissa (sqrt_scale a)))"
    using assms(3) n(1) unfolding x_def x1_def x0_def sqrt_scale_def
    by (simp add: decimal_sqrt_def Let_def MAX_DECIMAL_SCALE_def)
  ultimately have "decimal_sqrt N a = checked_decimal (v x) (sqrt_scale a)"
    using mantissa_i128 [of "v x"] by (simp add: checked_decimal_def num_lawsD(1,2,13) [OF assms(1)])
  then show ?thesis using isq by blast
qed

lemma sqrt_val_bounds:
  assumes "dec_ok a" "is_isqrt (sqrt_radicand a) x"
  shows "fp_val x (sqrt_scale a) * fp_val x (sqrt_scale a) \<le> dec_val a"
    and "dec_val a < fp_val (x + 1) (sqrt_scale a) * fp_val (x + 1) (sqrt_scale a)"
proof -
  let ?p = "sqrt_scale a"
  have "2 * ?p = dec_scale a + (2 * ?p - dec_scale a)" using sqrt_scale_bounds [OF assms(1)] by simp
  then have r: "fp_val (sqrt_radicand a) (?p + ?p) = dec_val a"
    unfolding sqrt_radicand_def dec_val_def by (metis fp_val_shift mult_2)
  show "fp_val x ?p * fp_val x ?p \<le> dec_val a"
    using assms(2) fp_val_less_iff [of "sqrt_radicand a" "?p + ?p" "x * x" "?p + ?p"]
    by (simp add: r is_isqrt_def not_less [symmetric] flip: fp_val_mult)
  show "dec_val a < fp_val (x + 1) ?p * fp_val (x + 1) ?p"
    using assms(2) fp_val_less_iff [of "sqrt_radicand a" "?p + ?p" "(x + 1) * (x + 1)" "?p + ?p"]
    by (simp add: r is_isqrt_def flip: fp_val_mult)
qed

subsection \<open>Correctness\<close>

text \<open>
  What an operation delivers for the exact result \<open>m / 10 ^ s\<close>: its canonical representation when
  the mantissa at that scale is in range, and \<open>Overflow\<close> otherwise.
\<close>

definition delivers :: "(decimal, DecimalError) outcome \<Rightarrow> int \<Rightarrow> nat \<Rightarrow> bool" where
  "delivers r m s \<longleftrightarrow>
     (if \<bar>m\<bar> \<le> MAX_DECIMAL_MANTISSA then \<exists>d. r = Ok d \<and> dec_ok d \<and> dec_val d = fp_val m s
      else r = Err DecimalError.Overflow)"

lemma checked_decimal_delivers: "s \<le> 36 \<Longrightarrow> delivers (checked_decimal m s) m s"
  using checked_decimal_ok [of m s] by (simp add: delivers_def checked_decimal_def)

lemma delivers_unique: "delivers r m s \<Longrightarrow> delivers r' m s \<Longrightarrow> r = r'"
  using dec_ok_unique by (auto simp: delivers_def split: if_splits)

text \<open>\<open>decimal_add\<close> and \<open>decimal_sub\<close> on canonical decimals deliver the exact sum and difference
  at the larger of the two scales: the canonical decimal with that value when the aligned mantissa
  is in range, and \<open>Overflow\<close> otherwise; they never panic.\<close>

theorem decimal_add_sub_correct:
  assumes "num_laws N v" "dec_ok a" "dec_ok b"
  shows "delivers (decimal_add N a b) (aligned a b + aligned b a) (max (dec_scale a) (dec_scale b))
    \<and> delivers (decimal_sub N a b) (aligned a b - aligned b a) (max (dec_scale a) (dec_scale b))
    \<and> fp_val (aligned a b + aligned b a) (max (dec_scale a) (dec_scale b)) = dec_val a + dec_val b
    \<and> fp_val (aligned a b - aligned b a) (max (dec_scale a) (dec_scale b)) = dec_val a - dec_val b"
proof -
  have s: "max (dec_scale a) (dec_scale b) \<le> 36" using assms by (simp add: dec_ok_def)
  show ?thesis
    using checked_decimal_delivers [OF s] aligned_val [of a b] aligned_val [of b a]
    by (simp add: decimal_add_val [OF assms] decimal_sub_val [OF assms] fp_val_add fp_val_diff max.commute)
qed

theorem decimal_add_sub_witness:
  "delivers (decimal_add int_ops (mk_decimal 15 1) (mk_decimal (- 225) 2)) (- 75) 2
    \<and> delivers (decimal_sub int_ops (mk_decimal 15 1) (mk_decimal (- 225) 2)) 375 2"
proof -
  have ok: "dec_ok (mk_decimal 15 1)" "dec_ok (mk_decimal (- 225) 2)"
    by (simp_all add: dec_ok_def MAX_DECIMAL_MANTISSA_def fp_canonical_def)
  show ?thesis
    using decimal_add_sub_correct [OF int_ops_laws ok] by (simp add: aligned_def numeral_2_eq_2)
qed

text \<open>C31: \<open>decimal_mul\<close> on canonical decimals delivers the exact product when the scales add up to at
  most 36, and otherwise its half-even rounding to 36 places, except that a product smaller than one
  unit of the last place is rounded as if it were positive.\<close>

theorem decimal_mul_correct:
  assumes "num_laws N v" "dec_ok a" "dec_ok b"
  shows "if dec_scale a + dec_scale b \<le> 36
    then delivers (decimal_mul N a b) (dec_mantissa a * dec_mantissa b) (dec_scale a + dec_scale b)
      \<and> fp_val (dec_mantissa a * dec_mantissa b) (dec_scale a + dec_scale b) = dec_val a * dec_val b
    else \<exists>r. half_even (mul_numerator a b) (10 ^ (dec_scale a + dec_scale b - 36)) r
      \<and> delivers (decimal_mul N a b) r 36"
proof (cases "dec_scale a + dec_scale b \<le> 36")
  case True
  then show ?thesis
    using decimal_mul_exact [OF assms True] checked_decimal_delivers [OF True] by (simp add: dec_val_def fp_val_mult)
next
  case False
  then show ?thesis using decimal_mul_rounded [OF assms] checked_decimal_delivers [of 36] by fastforce
qed

theorem decimal_mul_witness:
  "\<exists>r. half_even 25 10 r \<and> delivers (decimal_mul int_ops (mk_decimal 5 19) (mk_decimal 5 18)) r 36"
proof -
  have ok: "dec_ok (mk_decimal 5 19)" "dec_ok (mk_decimal 5 18)"
    by (simp_all add: dec_ok_def MAX_DECIMAL_MANTISSA_def fp_canonical_def)
  show ?thesis
    using decimal_mul_correct [OF int_ops_laws ok] by (simp add: mul_numerator_def)
qed

text \<open>The sign of a tiny product is lost: \<open>-6e-19\<close> times \<open>1e-18\<close> is \<open>-6e-37\<close>, whose rounding to
  36 places is \<open>-1e-36\<close>, but \<open>decimal_mul\<close> returns \<open>+1e-36\<close>.\<close>

theorem decimal_mul_loses_sign:
  assumes "num_laws N v"
  shows "decimal_mul N (mk_decimal (- 6) 19) (mk_decimal 1 18) = Ok (mk_decimal 1 36)
    \<and> half_even (- 6) 10 (- 1)"
proof -
  let ?a = "mk_decimal (- 6) 19" and ?b = "mk_decimal 1 18"
  have ok: "dec_ok ?a" "dec_ok ?b" "dec_ok (mk_decimal 1 36)"
    by (simp_all add: dec_ok_def MAX_DECIMAL_MANTISSA_def fp_canonical_def)
  obtain r where r: "half_even 6 10 r" "decimal_mul N ?a ?b = checked_decimal r 36"
    using decimal_mul_rounded [OF assms ok(1,2)] by (auto simp: mul_numerator_def)
  have "half_even 6 10 1" by (simp add: half_even_def)
  then have "r = 1" using r(1) half_even_unique by blast
  moreover have "checked_decimal 1 36 = Ok (mk_decimal 1 36)"
    using decimal_new_canonical [OF ok(3)] by (simp add: checked_decimal_def MAX_DECIMAL_MANTISSA_def)
  ultimately show ?thesis using r(2) by (simp add: half_even_def)
qed

theorem decimal_mul_loses_sign_witness:
  "decimal_mul int_ops (mk_decimal (- 6) 19) (mk_decimal 1 18) = Ok (mk_decimal 1 36)"
  using decimal_mul_loses_sign [OF int_ops_laws] by blast

text \<open>C7: \<open>decimal_sqrt\<close> of a positive canonical decimal: forty Newton rounds suffice, and the result
  is the root rounded down at scale \<open>min (scale + 6, 36)\<close>, or \<open>Overflow\<close> when that mantissa is out
  of range.\<close>

theorem decimal_sqrt_correct:
  assumes "num_laws N v" "dec_ok a" "0 < dec_mantissa a"
  shows "\<exists>x. delivers (decimal_sqrt N a) x (sqrt_scale a)
    \<and> fp_val x (sqrt_scale a) * fp_val x (sqrt_scale a) \<le> dec_val a
    \<and> dec_val a < fp_val (x + 1) (sqrt_scale a) * fp_val (x + 1) (sqrt_scale a)"
proof -
  obtain x where x: "is_isqrt (sqrt_radicand a) x" "decimal_sqrt N a = checked_decimal x (sqrt_scale a)"
    using decimal_sqrt_val [OF assms] by blast
  then show ?thesis
    using checked_decimal_delivers [OF sqrt_scale_bounds(1) [OF assms(2)]] sqrt_val_bounds [OF assms(2) x(1)] by auto
qed

theorem decimal_sqrt_witness:
  "\<exists>x. delivers (decimal_sqrt int_ops (mk_decimal 2 0)) x 6
    \<and> fp_val x 6 * fp_val x 6 \<le> 2 \<and> 2 < fp_val (x + 1) 6 * fp_val (x + 1) 6"
proof -
  have ok: "dec_ok (mk_decimal 2 0)" by (simp add: dec_ok_def MAX_DECIMAL_MANTISSA_def fp_canonical_def)
  show ?thesis
    using decimal_sqrt_correct [OF int_ops_laws ok] by (simp add: sqrt_scale_def dec_val_def)
qed

text \<open>\<open>decimal_cmp\<close> on canonical decimals is the order of the values, and equality of the values is
  equality of the representations.\<close>

theorem decimal_cmp_correct:
  assumes "num_laws N v" "dec_ok a" "dec_ok b"
  shows "decimal_cmp N a b = Ok (if a = b then 0 else if dec_val a < dec_val b then - 1 else 1)"
  using decimal_cmp_val [OF assms] dec_ok_unique [OF assms(2,3)] by auto

theorem decimal_cmp_witness: "decimal_cmp int_ops (mk_decimal 15 1) (mk_decimal 149 2) = Ok 1"
proof -
  have ok: "dec_ok (mk_decimal 15 1)" "dec_ok (mk_decimal 149 2)"
    by (simp_all add: dec_ok_def MAX_DECIMAL_MANTISSA_def fp_canonical_def)
  show ?thesis
    using decimal_cmp_correct [OF int_ops_laws ok] by (simp add: dec_val_def fp_val_less_iff mk_decimal_def)
qed

end
