(* ===== verification/DecimalInternal.thy ===== *)
theory DecimalInternal
  imports DecimalBig
begin

text \<open>
  The second implementation of the decimal operations, \<open>determin/src/decimal_internal.rs\<close>, which
  computes with the crate's own \<open>BigInt\<close> (\<open>BigIntDet\<close>) and is chosen by the feature
  \<open>use-internal-bigint\<close>. The theory relates it to the operations of \<open>DecimalBig\<close>: where the two
  agree, and the three inputs where they do not.
\<close>

subsection \<open>Helpers\<close>

definition i128_to_bigint :: "int \<Rightarrow> bigint" where
  "i128_to_bigint n = bigint_from_i128 n"

definition bigint_to_mantissa :: "bigint \<Rightarrow> (int, DecimalError) outcome" where
  "bigint_to_mantissa b = map_err (\<lambda>_. DecimalError.Overflow) (bigint_to_i128 b)"

definition bigint_in_range :: "bigint \<Rightarrow> bool" where
  "bigint_in_range b =
     (let max_bigint = i128_to_bigint MAX_DECIMAL_MANTISSA;
          min_bigint = i128_to_bigint (- MAX_DECIMAL_MANTISSA) in
      bi_compare b max_bigint \<le> 0 \<and> bi_compare b min_bigint \<ge> 0)"

definition or_overflow :: "('a, BigIntError) outcome \<Rightarrow> ('a, DecimalError) outcome" where
  "or_overflow m = map_err (\<lambda>_. DecimalError.Overflow) m"

definition scale_mantissa :: "int \<Rightarrow> nat \<Rightarrow> (bigint, DecimalError) outcome" where
  "scale_mantissa mantissa diff =
     (if diff = 0 then Ok (i128_to_bigint mantissa)
      else bind_ok (at_index DEC_POW10 diff) (\<lambda>pow10.
        or_overflow (bigint_mul (i128_to_bigint mantissa) (i128_to_bigint pow10))))"

definition range_checked_internal :: "bigint \<Rightarrow> nat \<Rightarrow> (decimal, DecimalError) outcome" where
  "range_checked_internal x scale =
     (if \<not> bigint_in_range x then Err DecimalError.Overflow
      else bind_ok (bigint_to_mantissa x) (\<lambda>m. decimal_new m scale))"

subsection \<open>Operations\<close>

definition decimal_add_internal :: "decimal \<Rightarrow> decimal \<Rightarrow> (decimal, DecimalError) outcome" where
  "decimal_add_internal a b =
     (let target_scale = max (dec_scale a) (dec_scale b);
          diff_a = target_scale - dec_scale a;
          diff_b = target_scale - dec_scale b in
      bind_ok (scale_mantissa (dec_mantissa a) diff_a) (\<lambda>a_val.
        bind_ok (scale_mantissa (dec_mantissa b) diff_b) (\<lambda>b_val.
          bind_ok (or_overflow (bigint_add a_val b_val)) (\<lambda>sum.
            range_checked_internal sum target_scale))))"

definition decimal_sub_internal :: "decimal \<Rightarrow> decimal \<Rightarrow> (decimal, DecimalError) outcome" where
  "decimal_sub_internal a b =
     (let target_scale = max (dec_scale a) (dec_scale b);
          diff_a = target_scale - dec_scale a;
          diff_b = target_scale - dec_scale b in
      bind_ok (scale_mantissa (dec_mantissa a) diff_a) (\<lambda>a_val.
        bind_ok (scale_mantissa (dec_mantissa b) diff_b) (\<lambda>b_val.
          bind_ok (or_overflow (bigint_sub a_val b_val)) (\<lambda>diff.
            range_checked_internal diff target_scale))))"

definition round_internal :: "bigint \<Rightarrow> bigint \<Rightarrow> int \<Rightarrow> (bigint, DecimalError) outcome" where
  "round_internal quot remainder pow10 =
     bind_ok (if bi_sign remainder then or_overflow (bigint_sub bi_zero remainder) else Ok remainder) (\<lambda>abs_rem.
       let half = i128_to_bigint (rust_div pow10 2);
           cmp = bi_compare abs_rem half in
       bind_ok (if cmp > 0 then Ok True
                else if cmp = 0 then
                  bind_ok (or_overflow (bigint_divmod quot (i128_to_bigint 2))) (\<lambda>(q, _). Ok (\<not> is_zero q))
                else Ok False) (\<lambda>away.
         if away then
           (if bi_sign quot then or_overflow (bigint_sub quot (i128_to_bigint 1))
            else or_overflow (bigint_add quot (i128_to_bigint 1)))
         else Ok quot))"

definition decimal_mul_internal :: "decimal \<Rightarrow> decimal \<Rightarrow> (decimal, DecimalError) outcome" where
  "decimal_mul_internal a b =
     (let raw_scale = (dec_scale a + dec_scale b) mod 256 in
      bind_ok (or_overflow (bigint_mul (i128_to_bigint (dec_mantissa a)) (i128_to_bigint (dec_mantissa b)))) (\<lambda>product.
        if raw_scale > MAX_DECIMAL_SCALE then
          bind_ok (at_index DEC_POW10 (raw_scale - MAX_DECIMAL_SCALE)) (\<lambda>pow10.
            bind_ok (or_overflow (bigint_divmod product (i128_to_bigint pow10))) (\<lambda>(quot, remainder).
              bind_ok (round_internal quot remainder pow10) (\<lambda>product'.
                range_checked_internal product' MAX_DECIMAL_SCALE)))
        else range_checked_internal product raw_scale))"

definition decimal_div_internal :: "decimal \<Rightarrow> decimal \<Rightarrow> nat \<Rightarrow> (decimal, DecimalError) outcome" where
  "decimal_div_internal a b t =
     (if dec_mantissa b = 0 then Err DecimalError.DivisionByZero
      else
        let raw_scale = (max (dec_scale a) (dec_scale b) + 6) mod 256;
            target_scale = min raw_scale MAX_DECIMAL_SCALE;
            result_sign = ((dec_mantissa a < 0) \<noteq> (dec_mantissa b < 0));
            abs_a = i128_abs (dec_mantissa a);
            abs_b = i128_abs (dec_mantissa b);
            scale_diff = int target_scale - int (dec_scale a) + int (dec_scale b) in
        bind_ok
          (if scale_diff > 0 then
             bind_ok (at_index DEC_POW10 (nat scale_diff)) (\<lambda>pow10.
               bind_ok (or_overflow (bigint_mul (i128_to_bigint pow10) (i128_to_bigint abs_a))) bigint_to_mantissa)
           else if scale_diff < 0 then
             bind_ok (at_index DEC_POW10 (nat (- scale_diff))) (\<lambda>divisor.
               let quot = rust_div abs_a divisor;
                   remainder = rust_rem abs_a divisor;
                   half = rust_div divisor 2 in
               Ok (if remainder > half \<or> (remainder = half \<and> rust_rem quot 2 \<noteq> 0) then as_i128 (quot + 1) else quot))
           else Ok abs_a)
          (\<lambda>scaled_dividend.
             let magnitude = i128_abs scaled_dividend;
                 quot = rust_div magnitude abs_b;
                 remainder = rust_rem magnitude abs_b;
                 half = rust_div abs_b 2;
                 result = (if remainder < half then quot
                           else if remainder > half then as_i128 (quot + 1)
                           else if rust_rem quot 2 = 0 then quot
                           else as_i128 (quot + 1)) in
             decimal_new (if result_sign then as_i128 (- result) else result) target_scale))"

fun newton_internal :: "bigint \<Rightarrow> nat \<Rightarrow> bigint \<Rightarrow> (bigint, DecimalError) outcome" where
  "newton_internal scaled_n 0 x = Ok x"
| "newton_internal scaled_n (Suc k) x =
     (if is_zero x then Ok x
      else bind_ok (or_overflow (bigint_divmod scaled_n x)) (\<lambda>(n_over_x, _).
        bind_ok (or_overflow (bigint_add x n_over_x)) (\<lambda>sum.
          bind_ok (or_overflow (bigint_div sum (i128_to_bigint 2))) (\<lambda>x'. newton_internal scaled_n k x'))))"

definition sqrt_scaled_internal :: "int \<Rightarrow> int \<Rightarrow> (bigint, DecimalError) outcome" where
  "sqrt_scaled_internal mantissa scale_factor =
     (if scale_factor > 36 then
        bind_ok (at_index DEC_POW10 (nat (scale_factor - 36))) (\<lambda>lo.
          bind_ok (at_index DEC_POW10 36) (\<lambda>hi.
            bind_ok (or_overflow (bigint_mul (i128_to_bigint mantissa) (i128_to_bigint lo))) (\<lambda>partial.
              or_overflow (bigint_mul partial (i128_to_bigint hi)))))
      else if scale_factor \<ge> 0 then
        bind_ok (at_index DEC_POW10 (nat scale_factor)) (\<lambda>pow10.
          or_overflow (bigint_mul (i128_to_bigint mantissa) (i128_to_bigint pow10)))
      else Err DecimalError.Overflow)"

definition decimal_sqrt_internal :: "decimal \<Rightarrow> (decimal, DecimalError) outcome" where
  "decimal_sqrt_internal a =
     (if dec_mantissa a < 0 then Err DecimalError.InvalidScale
      else if dec_mantissa a = 0 then decimal_new 0 0
      else
        let p = min (dec_scale a + 6) MAX_DECIMAL_SCALE;
            scale_factor = 2 * int p - int (dec_scale a) in
        bind_ok (sqrt_scaled_internal (dec_mantissa a) scale_factor) (\<lambda>scaled_n.
          bind_ok (bit_length scaled_n) (\<lambda>bit_len.
            bind_ok (or_overflow (bigint_shl (i128_to_bigint 1) ((bit_len + 1) div 2))) (\<lambda>x0.
              bind_ok (newton_internal scaled_n 40 x0) (\<lambda>x1.
                bind_ok (or_overflow (bigint_mul x1 x1)) (\<lambda>x_sq.
                  bind_ok (if bi_compare x_sq scaled_n > 0 then or_overflow (bigint_sub x1 (i128_to_bigint 1)) else Ok x1)
                    (\<lambda>x. range_checked_internal x p)))))))"

definition decimal_round_internal :: "decimal \<Rightarrow> nat \<Rightarrow> RoundingMode \<Rightarrow> (decimal, DecimalError) outcome" where
  "decimal_round_internal d target_scale mode =
     (if target_scale \<ge> dec_scale d then Ok d
      else
        bind_ok (at_index DEC_POW10 (dec_scale d - target_scale)) (\<lambda>divisor.
          let q = rust_div (dec_mantissa d) divisor;
              r = rust_rem (dec_mantissa d) divisor in
          decimal_new
            (case mode of
               RoundHalfEven \<Rightarrow>
                 (let abs_r = i128_abs r; half = rust_div divisor 2 in
                  if abs_r < half then q
                  else if abs_r > half then as_i128 (q + sgn (dec_mantissa d))
                  else if rust_rem q 2 = 0 then q
                  else as_i128 (q + sgn (dec_mantissa d)))
             | RoundDown \<Rightarrow> q
             | RoundUp \<Rightarrow>
                 (if r > 0 \<and> dec_mantissa d > 0 then as_i128 (q + 1)
                  else if r < 0 \<and> dec_mantissa d < 0 then as_i128 (q - 1)
                  else q))
            target_scale))"

definition scaled_or_max :: "int \<Rightarrow> nat \<Rightarrow> (bigint, DecimalError) outcome" where
  "scaled_or_max mantissa diff =
     (case scale_mantissa mantissa (diff mod 256) of
        Ok x \<Rightarrow> Ok x
      | Err _ \<Rightarrow> Ok (i128_to_bigint I128_MAX)
      | Panic \<Rightarrow> Panic)"

definition decimal_cmp_internal :: "decimal \<Rightarrow> decimal \<Rightarrow> (int, DecimalError) outcome" where
  "decimal_cmp_internal a b =
     (if dec_scale a = dec_scale b then
        Ok (if dec_mantissa a < dec_mantissa b then - 1 else if dec_mantissa a > dec_mantissa b then 1 else 0)
      else
        let max_scale = max (dec_scale a) (dec_scale b);
            diff_a = max_scale - dec_scale a;
            diff_b = max_scale - dec_scale b in
        bind_ok (scaled_or_max (dec_mantissa a) diff_a) (\<lambda>a_big.
          bind_ok (scaled_or_max (dec_mantissa b) diff_b) (\<lambda>b_big.
            case bigint_sub a_big b_big of
              Ok diff \<Rightarrow> Ok (if bi_compare diff bi_zero < 0 then - 1 else if bi_compare diff bi_zero > 0 then 1 else 0)
            | Err _ \<Rightarrow> Ok (if dec_mantissa a \<ge> dec_mantissa b then 1 else - 1)
            | Panic \<Rightarrow> Panic)))"

subsection \<open>Helpers on values\<close>

lemma returns_Ok_obtain:
  assumes "returns m x"
  obtains c where "m = Ok c" "bi_ok c" "bi_val c = x"
  using assms by (cases m) (auto simp: returns_def)

lemma or_overflow_simps [simp]:
  "or_overflow (Ok x) = Ok x" "or_overflow (Err e) = Err DecimalError.Overflow" "or_overflow Panic = Panic"
  by (simp_all add: or_overflow_def)

lemma i128_to_bigint_ok: "i128_range n \<Longrightarrow> bi_ok (i128_to_bigint n)" "i128_range n \<Longrightarrow> bi_val (i128_to_bigint n) = n"
  using bigint_from_i128_ok by (simp_all add: i128_to_bigint_def)

lemma small_i128: "i128_range 0" "i128_range 1" "i128_range 2" "i128_range MAX_DECIMAL_MANTISSA" "i128_range (- MAX_DECIMAL_MANTISSA)"
  by (simp_all add: i128_range_def MAX_DECIMAL_MANTISSA_def)

lemma pow10_i128: "k \<le> 36 \<Longrightarrow> i128_range (10 ^ k)"
proof -
  assume "k \<le> 36"
  then have "(10 :: int) ^ k \<le> 10 ^ 36" by (intro power_increasing) simp_all
  then show ?thesis by (intro i128_range_small) simp
qed

lemmas small_bigint = i128_to_bigint_ok [OF small_i128(2)] i128_to_bigint_ok [OF small_i128(3)]

lemma fits_small: "\<bar>x\<bar> \<le> 2 ^ 1100 \<Longrightarrow> fits x"
  unfolding fits_def by (rule le_less_trans, assumption, rule power_strict_increasing) simp_all

lemma fits_i128_mult: "i128_range x \<Longrightarrow> i128_range y \<Longrightarrow> fits (x * y)"
proof -
  assume "i128_range x" "i128_range y"
  then have "\<bar>x\<bar> * \<bar>y\<bar> \<le> 2 ^ 127 * 2 ^ 127" by (intro mult_mono) (auto simp: i128_range_def)
  then show ?thesis by (intro fits_small) (simp add: abs_mult)
qed

lemma internal_mul:
  assumes "bi_ok a" "bi_ok b" "fits (bi_val a * bi_val b)"
  obtains c where "bigint_mul a b = Ok c" "bi_ok c" "bi_val c = bi_val a * bi_val b"
  using bigint_mul_val [OF assms(1,2)] assms(3) that returns_Ok_obtain by metis

lemma range_checked_internal_val:
  assumes "bi_ok x"
  shows "range_checked_internal x s = checked_decimal (bi_val x) s"
proof -
  note m = i128_to_bigint_ok [OF small_i128(4)] i128_to_bigint_ok [OF small_i128(5)]
  have r: "bigint_in_range x \<longleftrightarrow> \<bar>bi_val x\<bar> \<le> MAX_DECIMAL_MANTISSA"
    by (auto simp: bigint_in_range_def Let_def bi_compare_val [OF assms m(1)] bi_compare_val [OF assms m(3)] m(2,4) sgn_if)
  show ?thesis
    using mantissa_i128 [of "bi_val x"]
    by (auto simp: range_checked_internal_def checked_decimal_def r bigint_to_mantissa_def bigint_to_i128_val [OF assms])
qed

lemma scale_mantissa_val:
  assumes "\<bar>m\<bar> \<le> MAX_DECIMAL_MANTISSA" "diff \<le> 36"
  obtains x where "scale_mantissa m diff = Ok x" "bi_ok x" "bi_val x = m * 10 ^ diff"
proof (cases "diff = 0")
  case True
  then show ?thesis
    using that i128_to_bigint_ok [OF mantissa_i128 [OF assms(1)]] by (simp add: scale_mantissa_def)
next
  case False
  note m = i128_to_bigint_ok [OF mantissa_i128 [OF assms(1)]] and p = i128_to_bigint_ok [OF pow10_i128 [OF assms(2)]]
  have "fits (bi_val (i128_to_bigint m) * bi_val (i128_to_bigint (10 ^ diff)))"
    using fits_i128_mult [OF mantissa_i128 [OF assms(1)] pow10_i128 [OF assms(2)]] by (simp add: m p)
  then obtain c where "bigint_mul (i128_to_bigint m) (i128_to_bigint (10 ^ diff)) = Ok c" "bi_ok c" "bi_val c = m * 10 ^ diff"
    using internal_mul [OF m(1) p(1)] m p by metis
  then show ?thesis using that [of c] False assms(2) by (simp add: scale_mantissa_def)
qed

lemma aligned_small:
  assumes "dec_ok a" "dec_ok b"
  shows "\<bar>aligned a b\<bar> \<le> 2 ^ 256"
proof -
  have "\<bar>dec_mantissa a\<bar> * 10 ^ (max (dec_scale a) (dec_scale b) - dec_scale a) \<le> 10 ^ 36 * 10 ^ 36"
    using assms by (intro mult_mono power_increasing) (auto simp: dec_ok_def MAX_DECIMAL_MANTISSA_def)
  then show ?thesis by (simp add: aligned_def abs_mult)
qed

lemma aligned_pair:
  assumes "dec_ok a" "dec_ok b"
  obtains x y where "scale_mantissa (dec_mantissa a) (max (dec_scale a) (dec_scale b) - dec_scale a) = Ok x"
    "bi_ok x" "bi_val x = aligned a b"
    "scale_mantissa (dec_mantissa b) (max (dec_scale a) (dec_scale b) - dec_scale b) = Ok y"
    "bi_ok y" "bi_val y = aligned b a" "fits (aligned a b + aligned b a)" "fits (aligned a b - aligned b a)"
proof -
  let ?t = "max (dec_scale a) (dec_scale b)"
  have s: "?t - dec_scale a \<le> 36" "?t - dec_scale b \<le> 36"
    and m: "\<bar>dec_mantissa a\<bar> \<le> MAX_DECIMAL_MANTISSA" "\<bar>dec_mantissa b\<bar> \<le> MAX_DECIMAL_MANTISSA"
    using assms by (auto simp: dec_ok_def)
  obtain x where x: "scale_mantissa (dec_mantissa a) (?t - dec_scale a) = Ok x" "bi_ok x" "bi_val x = aligned a b"
    using scale_mantissa_val [OF m(1) s(1)] by (metis aligned_def)
  obtain y where y: "scale_mantissa (dec_mantissa b) (?t - dec_scale b) = Ok y" "bi_ok y" "bi_val y = aligned b a"
    using scale_mantissa_val [OF m(2) s(2)] by (metis aligned_def max.commute)
  have l: "\<bar>aligned a b\<bar> + \<bar>aligned b a\<bar> \<le> 2 ^ 257" using aligned_small [OF assms] aligned_small [OF assms(2,1)] by simp
  have "(2 :: int) ^ 257 \<le> 2 ^ 1100" by (intro power_increasing) simp_all
  with l have "\<bar>aligned a b + aligned b a\<bar> \<le> 2 ^ 1100" "\<bar>aligned a b - aligned b a\<bar> \<le> 2 ^ 1100" by linarith+
  then show ?thesis using that x y fits_small by blast
qed

subsection \<open>Addition, subtraction, comparison\<close>

lemma decimal_add_internal_val:
  assumes "dec_ok a" "dec_ok b"
  shows "decimal_add_internal a b = checked_decimal (aligned a b + aligned b a) (max (dec_scale a) (dec_scale b))"
proof -
  obtain x y where x: "scale_mantissa (dec_mantissa a) (max (dec_scale a) (dec_scale b) - dec_scale a) = Ok x"
      "bi_ok x" "bi_val x = aligned a b"
    and y: "scale_mantissa (dec_mantissa b) (max (dec_scale a) (dec_scale b) - dec_scale b) = Ok y"
      "bi_ok y" "bi_val y = aligned b a" and f: "fits (aligned a b + aligned b a)"
    using aligned_pair [OF assms] .
  obtain z where "bigint_add x y = Ok z" "bi_ok z" "bi_val z = aligned a b + aligned b a"
    using bigint_add_val [OF x(2) y(2)] f x(3) y(3) by (auto elim: returns_Ok_obtain)
  then show ?thesis by (simp add: decimal_add_internal_def Let_def x(1) y(1) range_checked_internal_val)
qed

lemma aligned_eq_0: "aligned a b = 0 \<longleftrightarrow> dec_mantissa a = 0"
  by (simp add: aligned_def)

lemma bigint_sub_zero_err: "bi_ok a \<Longrightarrow> bi_ok b \<Longrightarrow> bi_val b = 0 \<Longrightarrow> bigint_sub a b = Err BigIntError.NonCanonicalInput"
proof -
  assume a: "bi_ok a" "bi_ok b" "bi_val b = 0"
  then have "is_zero b" "\<not> bi_sign b" using bi_okD(4,6) [OF a(2)] by simp_all
  then have "\<not> is_canonical (mk_bigint (bi_limbs b) (\<not> bi_sign b))"
    by (simp add: is_canonical_def is_zero_def)
  then show ?thesis using bi_okD(3) [OF a(1)] by (simp add: bigint_sub_def bigint_add_def)
qed

lemma decimal_sub_internal_val:
  assumes "dec_ok a" "dec_ok b"
  shows "decimal_sub_internal a b =
    (if dec_mantissa b = 0 then Err DecimalError.Overflow
     else checked_decimal (aligned a b - aligned b a) (max (dec_scale a) (dec_scale b)))"
proof -
  obtain x y where x: "scale_mantissa (dec_mantissa a) (max (dec_scale a) (dec_scale b) - dec_scale a) = Ok x"
      "bi_ok x" "bi_val x = aligned a b"
    and y: "scale_mantissa (dec_mantissa b) (max (dec_scale a) (dec_scale b) - dec_scale b) = Ok y"
      "bi_ok y" "bi_val y = aligned b a" and f: "fits (aligned a b - aligned b a)"
    using aligned_pair [OF assms] .
  note e = decimal_sub_internal_def Let_def x(1) y(1) range_checked_internal_val
  show ?thesis
  proof (cases "dec_mantissa b = 0")
    case True
    then have "bi_val y = 0" using y(3) aligned_eq_0 [of b a] by simp
    then show ?thesis using True y(1) bigint_sub_zero_err [OF x(2) y(2)] by (simp add: e)
  next
    case False
    then have "bi_val y \<noteq> 0" using y(3) aligned_eq_0 [of b a] by simp
    then obtain z where "bigint_sub x y = Ok z" "bi_ok z" "bi_val z = aligned a b - aligned b a"
      using bigint_sub_val [OF x(2) y(2)] f x(3) y(3) by (auto elim: returns_Ok_obtain)
    then show ?thesis using False by (simp add: e)
  qed
qed

lemma decimal_cmp_internal_val:
  assumes "dec_ok a" "dec_ok b"
  shows "decimal_cmp_internal a b = Ok (if dec_val a < dec_val b then - 1 else if dec_val b < dec_val a then 1 else 0)"
proof (cases "dec_scale a = dec_scale b")
  case True
  then have "dec_mantissa a < dec_mantissa b \<longleftrightarrow> dec_val a < dec_val b" "dec_mantissa b < dec_mantissa a \<longleftrightarrow> dec_val b < dec_val a"
    by (simp_all add: dec_val_def fp_val_less_iff)
  then show ?thesis using True by (simp add: decimal_cmp_internal_def)
next
  case False
  let ?t = "max (dec_scale a) (dec_scale b)"
  obtain x y where x: "scale_mantissa (dec_mantissa a) (?t - dec_scale a) = Ok x" "bi_ok x" "bi_val x = aligned a b"
    and y: "scale_mantissa (dec_mantissa b) (?t - dec_scale b) = Ok y" "bi_ok y" "bi_val y = aligned b a"
    and f: "fits (aligned a b - aligned b a)"
    using aligned_pair [OF assms] .
  have "?t - dec_scale a < 256" "?t - dec_scale b < 256" using assms by (auto simp: dec_ok_def)
  then have s: "scaled_or_max (dec_mantissa a) (?t - dec_scale a) = Ok x" "scaled_or_max (dec_mantissa b) (?t - dec_scale b) = Ok y"
    using x(1) y(1) by (simp_all add: scaled_or_max_def)
  note less = aligned_less_iff [of a b] aligned_less_iff [of b a]
  show ?thesis
  proof (cases "dec_mantissa b = 0")
    case True
    then have "dec_scale b = 0" using assms(2) by (simp add: dec_ok_def fp_canonical_def)
    then have nz: "dec_mantissa a \<noteq> 0" using False assms(1) by (auto simp: dec_ok_def fp_canonical_def)
    have "bi_val y = 0" using y(3) True by (simp add: aligned_def)
    then have "bigint_sub x y = Err BigIntError.NonCanonicalInput" by (rule bigint_sub_zero_err [OF x(2) y(2)])
    then have "decimal_cmp_internal a b = Ok (if dec_mantissa a \<ge> 0 then 1 else - 1)"
      using False True s(2) by (simp add: decimal_cmp_internal_def Let_def s(1))
    moreover have "dec_val b = 0" "dec_val a < 0 \<longleftrightarrow> dec_mantissa a < 0" "0 < dec_val a \<longleftrightarrow> 0 < dec_mantissa a"
      using True by (simp_all add: dec_val_def fp_val_def divide_less_0_iff zero_less_divide_iff)
    ultimately show ?thesis using nz by auto
  next
    case nz: False
    then have "bi_val y \<noteq> 0" using y(3) aligned_eq_0 [of b a] by simp
    then obtain z where z: "bigint_sub x y = Ok z" "bi_ok z" "bi_val z = aligned a b - aligned b a"
      using bigint_sub_val [OF x(2) y(2)] f x(3) y(3) by (auto elim: returns_Ok_obtain)
    have "bi_compare z bi_zero = sgn (aligned a b - aligned b a)"
      using bi_compare_val [OF z(2), of bi_zero] z(3) by simp
    then show ?thesis
      using False less z(1) by (auto simp: decimal_cmp_internal_def Let_def s sgn_if)
  qed
qed

subsection \<open>Multiplication\<close>

text \<open>
  The rounding step of the internal multiplication: away from zero above the half, and at the tie
  whenever half of the quotient is not zero, instead of when the quotient is odd.
\<close>

definition internal_rounding :: "int \<Rightarrow> int \<Rightarrow> int" where
  "internal_rounding n d =
     (let q = rust_div n d; m = \<bar>rust_rem n d\<bar> in
      if 2 * m > d \<or> (2 * m = d \<and> 2 \<le> \<bar>q\<bar>) then q + (if q < 0 then - 1 else 1) else q)"

lemma round_internal_val:
  assumes ok: "bi_ok q" "bi_ok r" and k: "0 < k" "k \<le> 36"
    and v: "bi_val q = rust_div n (10 ^ k)" "bi_val r = rust_rem n (10 ^ k)" and n: "\<bar>n\<bar> \<le> 2 ^ 256"
  obtains c where "round_internal q r (10 ^ k) = Ok c" "bi_ok c" "bi_val c = internal_rounding n (10 ^ k)"
proof -
  let ?d = "10 ^ k :: int"
  obtain j where j: "k = Suc j" using k by (cases k) auto
  have h: "2 * rust_div ?d 2 = ?d" unfolding j half_pow10 by simp
  define hf where "hf = rust_div ?d 2"
  have hr: "i128_range hf"
    using pow10_i128 [OF k(2)] h by (auto simp: hf_def i128_range_def)
  have qb: "\<bar>bi_val q\<bar> \<le> 2 ^ 256" using abs_rust_div_le [of n ?d] n v(1) by linarith
  have rb: "\<bar>bi_val r\<bar> \<le> 2 ^ 256" using abs_rust_rem [of ?d n] pow10_i128 [OF k(2)] v(2) by (simp add: i128_range_def)
  have fr: "fits (- bi_val r)" and fq: "fits (bi_val q)" "fits (bi_val q - 1)" "fits (bi_val q + 1)"
  proof -
    have "(2 :: int) ^ 257 \<le> 2 ^ 1100" by (intro power_increasing) simp_all
    then have "\<bar>x\<bar> \<le> 2 ^ 256 + 1 \<Longrightarrow> fits x" for x by (intro fits_small) (simp add: order_trans)
    then show "fits (- bi_val r)" "fits (bi_val q)" "fits (bi_val q - 1)" "fits (bi_val q + 1)" using qb rb by auto
  qed
  obtain w where w: "(if bi_sign r then or_overflow (bigint_sub bi_zero r) else Ok r) = Ok w" "bi_ok w" "bi_val w = \<bar>bi_val r\<bar>"
  proof (cases "bi_sign r")
    case True
    then have neg: "bi_val r < 0" using bi_okD(6) [OF ok(2)] by simp
    then obtain z where "bigint_sub bi_zero r = Ok z" "bi_ok z" "bi_val z = - bi_val r"
      using bigint_sub_val [OF _ ok(2), of bi_zero] fr by (auto elim: returns_Ok_obtain)
    then show ?thesis using that [of z] True neg by simp
  next
    case False
    then show ?thesis using that [of r] bi_okD(6) [OF ok(2)] ok(2) by simp
  qed
  have c: "bi_compare w (i128_to_bigint hf) = sgn (\<bar>bi_val r\<bar> - hf)"
    using bi_compare_val [OF w(2) i128_to_bigint_ok(1) [OF hr]] i128_to_bigint_ok(2) [OF hr] w(3) by simp
  obtain t u where t: "bigint_divmod q (i128_to_bigint 2) = Ok (t, u)" "bi_ok t" "bi_val t = rust_div (bi_val q) 2"
    using bigint_divmod_val [OF ok(1) small_bigint(3)] fq(1) small_bigint(4)
    by (auto simp: returns2_def fits_def split: outcome.splits)
  have iz: "is_zero t \<longleftrightarrow> \<bar>bi_val q\<bar> < 2"
  proof -
    have "is_zero t \<longleftrightarrow> \<bar>rust_div (bi_val q) 2\<bar> = 0" using bi_okD(4) [OF t(2)] t(3) by simp
    also have "\<dots> \<longleftrightarrow> \<bar>bi_val q\<bar> < 2" unfolding abs_rust_div [of 2, simplified] by linarith
    finally show ?thesis .
  qed
  define away where "away = (2 * \<bar>bi_val r\<bar> > ?d \<or> (2 * \<bar>bi_val r\<bar> = ?d \<and> 2 \<le> \<bar>bi_val q\<bar>))"
  have a: "bind_ok (if bi_compare w (i128_to_bigint hf) > 0 then Ok True
      else if bi_compare w (i128_to_bigint hf) = 0 then
        bind_ok (or_overflow (bigint_divmod q (i128_to_bigint 2))) (\<lambda>(q, _). Ok (\<not> is_zero q))
      else Ok False) f = f away" for f :: "bool \<Rightarrow> (bigint, DecimalError) outcome"
  proof -
    consider "2 * \<bar>bi_val r\<bar> > ?d" | "2 * \<bar>bi_val r\<bar> = ?d" | "2 * \<bar>bi_val r\<bar> < ?d" by linarith
    then show ?thesis
      using h [folded hf_def] by cases (auto simp: c t(1) iz away_def sgn_if not_less)
  qed
  have e: "round_internal q r ?d = (if away then
      (if bi_sign q then or_overflow (bigint_sub q (i128_to_bigint 1)) else or_overflow (bigint_add q (i128_to_bigint 1)))
      else Ok q)"
    unfolding round_internal_def w(1) Let_def bind_ok_simps hf_def [symmetric] a ..
  obtain p where p: "bigint_sub q (i128_to_bigint 1) = Ok p" "bi_ok p" "bi_val p = bi_val q - 1"
    using bigint_sub_val [OF ok(1) small_bigint(1)] small_bigint(2) fq by (auto elim: returns_Ok_obtain)
  obtain s where s: "bigint_add q (i128_to_bigint 1) = Ok s" "bi_ok s" "bi_val s = bi_val q + 1"
    using bigint_add_val [OF ok(1) small_bigint(1)] small_bigint(2) fq by (auto elim: returns_Ok_obtain)
  have "bi_sign q \<longleftrightarrow> bi_val q < 0" using bi_okD(6) [OF ok(1)] by simp
  then show ?thesis
    using that [of "if away then if bi_val q < 0 then p else s else q"] p s ok(1)
    unfolding e internal_rounding_def Let_def v [symmetric] away_def [symmetric] by auto
qed

lemma decimal_mul_internal_val:
  assumes "dec_ok a" "dec_ok b"
  shows "decimal_mul_internal a b =
    (if dec_scale a + dec_scale b \<le> 36 then checked_decimal (dec_mantissa a * dec_mantissa b) (dec_scale a + dec_scale b)
     else checked_decimal (internal_rounding (dec_mantissa a * dec_mantissa b) (10 ^ (dec_scale a + dec_scale b - 36))) 36)"
proof -
  let ?P = "dec_mantissa a * dec_mantissa b" and ?k = "dec_scale a + dec_scale b - 36"
  have ma: "i128_range (dec_mantissa a)" "i128_range (dec_mantissa b)" using assms dec_ok_range by auto
  have "\<bar>dec_mantissa a\<bar> * \<bar>dec_mantissa b\<bar> \<le> 10 ^ 36 * 10 ^ 36"
    using assms by (intro mult_mono) (auto simp: dec_ok_def MAX_DECIMAL_MANTISSA_def)
  then have pb: "\<bar>?P\<bar> \<le> 2 ^ 256" by (simp add: abs_mult)
  obtain z where z: "bigint_mul (i128_to_bigint (dec_mantissa a)) (i128_to_bigint (dec_mantissa b)) = Ok z" "bi_ok z" "bi_val z = ?P"
    using internal_mul [OF i128_to_bigint_ok(1) [OF ma(1)] i128_to_bigint_ok(1) [OF ma(2)]] fits_i128_mult [OF ma]
    by (metis i128_to_bigint_ok(2) ma)
  have m: "(dec_scale a + dec_scale b) mod 256 = dec_scale a + dec_scale b" using assms by (auto simp: dec_ok_def)
  show ?thesis
  proof (cases "dec_scale a + dec_scale b \<le> 36")
    case True
    then show ?thesis
      by (simp add: decimal_mul_internal_def Let_def m z(1) MAX_DECIMAL_SCALE_def range_checked_internal_val [OF z(2)] z(3))
  next
    case False
    then have k: "0 < ?k" "?k \<le> 36" using assms by (auto simp: dec_ok_def)
    note p = i128_to_bigint_ok [OF pow10_i128 [OF k(2)]]
    have "fits ?P" "fits (10 ^ ?k)"
      using fits_i128_mult [OF ma] fits_i128_mult [OF pow10_i128 [OF k(2)] small_i128(2)] by simp_all
    then obtain q r where d: "bigint_divmod z (i128_to_bigint (10 ^ ?k)) = Ok (q, r)" "bi_ok q" "bi_ok r"
      "bi_val q = rust_div ?P (10 ^ ?k)" "bi_val r = rust_rem ?P (10 ^ ?k)"
      using bigint_divmod_val [OF z(2) p(1)] unfolding z(3) p(2)
      by (auto simp: returns2_def split: outcome.splits)
    obtain c where c: "round_internal q r (10 ^ ?k) = Ok c" "bi_ok c" "bi_val c = internal_rounding ?P (10 ^ ?k)"
      using round_internal_val [OF d(2,3) k d(4,5) pb] .
    show ?thesis
      using False k by (simp add: decimal_mul_internal_def Let_def m z(1) MAX_DECIMAL_SCALE_def d(1) c(1)
          range_checked_internal_val [OF c(2)] c(3))
  qed
qed

subsection \<open>Square root\<close>

lemma internal_halving:
  assumes "bi_ok y" "fits (bi_val y)" "0 \<le> bi_val y"
  obtains z where "bigint_div y (i128_to_bigint 2) = Ok z" "bi_ok z" "bi_val z = bi_val y div 2"
proof -
  have "fits (bi_val (i128_to_bigint 2))" by (simp add: small_bigint fits_def)
  then have "returns2 (bigint_divmod y (i128_to_bigint 2)) (rust_div (bi_val y) 2) (rust_rem (bi_val y) 2)"
    using bigint_divmod_val [OF assms(1) small_bigint(3)] assms(2) by (simp add: small_bigint)
  then show ?thesis
    using that rust_div_pos [OF assms(3), of 2] by (auto simp: bigint_div_def returns2_def split: outcome.splits)
qed

lemma fits_below: "0 \<le> x \<Longrightarrow> x \<le> 2 ^ 512 \<Longrightarrow> fits x"
  using power_increasing [of 512 1100 "2 :: int"] by (intro fits_small) simp

lemma newton_internal_val:
  assumes n: "bi_ok n" "0 < bi_val n" "bi_val n < 2 ^ 508" and s: "is_isqrt (bi_val n) s" "0 < s"
  shows "bi_ok x \<Longrightarrow> 0 < bi_val x \<Longrightarrow> bi_val x \<le> 2 ^ 510 \<Longrightarrow>
    \<exists>y. newton_internal n k x = Ok y \<and> bi_ok y \<and> bi_val y = (newton_step (bi_val n) ^^ k) (bi_val x)
      \<and> bi_val y \<le> 2 ^ 510"
proof (induction k arbitrary: x)
  case (Suc k)
  let ?n = "bi_val n" and ?x = "bi_val x"
  have dv: "0 \<le> ?n div ?x" "?n div ?x \<le> ?n" using n(2) Suc.prems(2) by (simp_all add: pos_imp_zdiv_nonneg_iff int_div_le_self)
  have b: "?n \<le> 2 ^ 512" "?x \<le> 2 ^ 512" "?x + ?n div ?x \<le> 2 ^ 511" "(2 :: int) ^ 511 \<le> 2 ^ 512"
    using n(3) Suc.prems(3) dv by simp_all
  have f: "fits ?n" "fits ?x" "fits (?x + ?n div ?x)" "fits (?n div ?x)"
    using b dv n(2) Suc.prems(2) by (auto intro!: fits_below)
  obtain q r where q: "bigint_divmod n x = Ok (q, r)" "bi_ok q" "bi_val q = ?n div ?x"
    using bigint_divmod_val [OF n(1) Suc.prems(1)] f Suc.prems(2) rust_div_pos [of ?n ?x] n(2)
    by (auto simp: returns2_def split: outcome.splits)
  obtain a where a: "bigint_add x q = Ok a" "bi_ok a" "bi_val a = ?x + ?n div ?x"
    using bigint_add_val [OF Suc.prems(1) q(2)] f q(3) by (auto elim: returns_Ok_obtain)
  obtain z where z: "bigint_div a (i128_to_bigint 2) = Ok z" "bi_ok z" "bi_val z = newton_step ?n ?x"
    using internal_halving [OF a(2)] f(3) a(3) dv Suc.prems(2) by (auto simp: newton_step_def)
  have "s \<le> bi_val z" using newton_step_lower [OF s(1) Suc.prems(2)] z(3) by simp
  then have "0 < bi_val z" using s(2) by simp
  moreover have "bi_val z \<le> 2 ^ 510" using b(3) z(3) by (simp add: newton_step_def)
  ultimately obtain y where "newton_internal n k z = Ok y" "bi_ok y"
    "bi_val y = (newton_step ?n ^^ k) (bi_val z)" "bi_val y \<le> 2 ^ 510"
    using Suc.IH [OF z(2)] by blast
  moreover have "\<not> is_zero x" using bi_okD(4) [OF Suc.prems(1)] Suc.prems(2) by simp
  ultimately show ?case using q(1) a(1) z by (simp add: funpow_swap1)
qed simp

lemma sqrt_scaled_internal_val:
  assumes "dec_ok a"
  obtains n where "sqrt_scaled_internal (dec_mantissa a) (2 * int (sqrt_scale a) - int (dec_scale a)) = Ok n"
    "bi_ok n" "bi_val n = sqrt_radicand a"
proof -
  let ?f = "2 * int (sqrt_scale a) - int (dec_scale a)"
  have f: "0 \<le> ?f" "nat ?f = 2 * sqrt_scale a - dec_scale a" "?f \<le> 72"
    using sqrt_scale_bounds [OF assms] by auto
  have m: "i128_range (dec_mantissa a)" using dec_ok_range(1) [OF assms] .
  show ?thesis
  proof (cases "?f > 36")
    case True
    let ?j = "nat (?f - 36)"
    have j: "?j \<le> 36" using True f by simp
    obtain y where y: "bigint_mul (i128_to_bigint (dec_mantissa a)) (i128_to_bigint (10 ^ ?j)) = Ok y" "bi_ok y"
      "bi_val y = dec_mantissa a * 10 ^ ?j"
      using internal_mul [OF i128_to_bigint_ok(1) [OF m] i128_to_bigint_ok(1) [OF pow10_i128 [OF j]]]
        fits_i128_mult [OF m pow10_i128 [OF j]] i128_to_bigint_ok(2) [OF m] i128_to_bigint_ok(2) [OF pow10_i128 [OF j]] by metis
    have p36: "i128_range (10 ^ 36)" by (rule pow10_i128) simp
    have "2 * sqrt_scale a - dec_scale a = ?j + 36" using True f by simp
    then have r: "bi_val y * 10 ^ 36 = sqrt_radicand a" by (simp only: y sqrt_radicand_def power_add mult.assoc)
    have "2 * sqrt_scale a - dec_scale a \<le> 72" using f by simp
    then have p72: "(10 :: int) ^ (2 * sqrt_scale a - dec_scale a) \<le> 10 ^ 72" by (rule power_increasing) simp
    have "\<bar>dec_mantissa a\<bar> \<le> 10 ^ 36" using assms by (simp add: dec_ok_def MAX_DECIMAL_MANTISSA_def)
    then have "\<bar>sqrt_radicand a\<bar> \<le> 10 ^ 36 * 10 ^ 72"
      unfolding sqrt_radicand_def abs_mult power_abs abs_numeral by (rule mult_mono [OF _ p72]) simp_all
    then have "fits (sqrt_radicand a)" by (simp add: fits_def)
    then obtain z where z: "bigint_mul y (i128_to_bigint (10 ^ 36)) = Ok z" "bi_ok z" "bi_val z = sqrt_radicand a"
      using internal_mul [OF y(2) i128_to_bigint_ok(1) [OF p36]] i128_to_bigint_ok(2) [OF p36] r by metis
    have "sqrt_scaled_internal (dec_mantissa a) ?f = Ok z"
      using True f y(1) z(1) j by (simp add: sqrt_scaled_internal_def del: nat_diff_distrib')
    then show ?thesis using that z by blast
  next
    case False
    have j: "nat ?f \<le> 36" using False by simp
    obtain y where y: "bigint_mul (i128_to_bigint (dec_mantissa a)) (i128_to_bigint (10 ^ nat ?f)) = Ok y" "bi_ok y"
      "bi_val y = dec_mantissa a * 10 ^ nat ?f"
      using internal_mul [OF i128_to_bigint_ok(1) [OF m] i128_to_bigint_ok(1) [OF pow10_i128 [OF j]]]
        fits_i128_mult [OF m pow10_i128 [OF j]] i128_to_bigint_ok(2) [OF m] i128_to_bigint_ok(2) [OF pow10_i128 [OF j]] by metis
    then show ?thesis using that [of y] False f by (simp add: sqrt_scaled_internal_def sqrt_radicand_def)
  qed
qed

lemma decimal_sqrt_internal_val:
  assumes "dec_ok a" "0 < dec_mantissa a"
  shows "\<exists>x. is_isqrt (sqrt_radicand a) x \<and> decimal_sqrt_internal a = checked_decimal x (sqrt_scale a)"
proof -
  obtain n where n: "sqrt_scaled_internal (dec_mantissa a) (2 * int (sqrt_scale a) - int (dec_scale a)) = Ok n"
    "bi_ok n" "bi_val n = sqrt_radicand a" using sqrt_scaled_internal_val [OF assms(1)] .
  note b = sqrt_radicand_bounds [OF assms, folded n(3)]
  define w where "w = bit_width (nat \<bar>bi_val n\<bar>)"
  define h where "h = (w + 1) div 2"
  have "\<bar>bi_val n\<bar> = int (nat \<bar>bi_val n\<bar>)" by simp
  then have bits: "2 ^ (w - 1) \<le> bi_val n" "bi_val n < 2 ^ w"
    using bit_width_bounds [of "nat \<bar>bi_val n\<bar>"] b(1) unfolding w_def by (simp_all add: le_nat_iff nat_less_iff)
  have bl: "(bit_length n :: (nat, DecimalError) outcome) = Ok w" using bit_length_val [OF n(2)] b(1) by (simp add: w_def)
  have w: "w \<le> 508" using bit_width_fits [of "bi_val n" 508] b by (simp add: w_def del: power_numeral)
  then have h: "h \<le> 254" "h < 2 ^ 63" by (simp_all add: h_def)
  then have p: "(2 :: int) ^ h \<le> 2 ^ 254" by (intro power_increasing) simp_all
  obtain s where s: "is_isqrt (bi_val n) s" using is_isqrt_exists [of "bi_val n"] b by auto
  have s0: "0 < s" using s b by (cases "s = 0") (auto simp: is_isqrt_def)
  have "fits 1" "fits (2 ^ h)" using p by (auto intro!: fits_below order_trans [OF p])
  then obtain x0 where x0: "bigint_shl (i128_to_bigint 1) h = Ok x0" "bi_ok x0" "bi_val x0 = 2 ^ h"
    using bigint_shl_val [OF small_bigint(1) _ h(2)] small_bigint(2) by (auto elim: returns_Ok_obtain)
  have "bi_val x0 \<le> 2 ^ 510" using p x0(3) by simp
  then obtain x1 where x1: "newton_internal n 40 x0 = Ok x1" "bi_ok x1"
    "bi_val x1 = (newton_step (bi_val n) ^^ 40) (2 ^ h)" "bi_val x1 \<le> 2 ^ 510"
    using newton_internal_val [OF n(2) b s s0 x0(2), of 40] x0(3) by auto
  note r = newton_sqrt [OF b bits _ x1(3) [unfolded h_def]]
  have pos: "0 < bi_val x1" using r(2) by simp
  have "bi_val x1 * bi_val x1 \<le> 2 ^ 510 * 2 ^ 510" using pos x1(4) by (intro mult_mono) simp_all
  also have "\<dots> = 2 ^ 1020" by (simp only: power_add [symmetric]) simp
  also have "(2 :: int) ^ 1020 \<le> 2 ^ 1100" by (intro power_increasing) simp_all
  finally have "fits (bi_val x1 * bi_val x1)" by (intro fits_small) (simp add: abs_mult)
  then obtain q where q: "bigint_mul x1 x1 = Ok q" "bi_ok q" "bi_val q = bi_val x1 * bi_val x1"
    using internal_mul [OF x1(2) x1(2)] by blast
  have "fits (bi_val x1 - 1)" using pos x1(4) by (intro fits_below) auto
  then obtain m where m: "bigint_sub x1 (i128_to_bigint 1) = Ok m" "bi_ok m" "bi_val m = bi_val x1 - 1"
    using bigint_sub_val [OF x1(2) small_bigint(1)] small_bigint(2) by (auto elim: returns_Ok_obtain)
  define x where "x = (if bi_val x1 * bi_val x1 > bi_val n then m else x1)"
  have cmp: "bi_compare q n > 0 \<longleftrightarrow> bi_val x1 * bi_val x1 > bi_val n"
    using bi_compare_val [OF q(2) n(2)] by (simp add: q(3) sgn_if)
  have x: "bi_ok x" "bi_val x = (if bi_val x1 * bi_val x1 > bi_val n then bi_val x1 - 1 else bi_val x1)"
    using m x1(2) by (auto simp: x_def)
  have "decimal_sqrt_internal a = range_checked_internal x (sqrt_scale a)"
    using assms(2) n(1) unfolding sqrt_scale_def
    by (simp add: decimal_sqrt_internal_def Let_def MAX_DECIMAL_SCALE_def bl x0(1) [unfolded h_def Suc_eq_plus1 [symmetric]] x1(1) q(1) cmp m(1) x_def)
  then have "decimal_sqrt_internal a = checked_decimal (bi_val x) (sqrt_scale a)"
    by (simp add: range_checked_internal_val [OF x(1)])
  then show ?thesis using r(1) x(2) n(3) by auto
qed

subsection \<open>The two implementations\<close>

lemma decimal_sqrt_internal_eq:
  assumes "num_laws N v" "dec_ok a"
  shows "decimal_sqrt_internal a = decimal_sqrt N a"
proof -
  consider "dec_mantissa a < 0" | "dec_mantissa a = 0" | "0 < dec_mantissa a" by linarith
  then show ?thesis
  proof cases
    case 3
    obtain x where x: "is_isqrt (sqrt_radicand a) x" "decimal_sqrt N a = checked_decimal x (sqrt_scale a)"
      using decimal_sqrt_val [OF assms 3] by blast
    obtain y where y: "is_isqrt (sqrt_radicand a) y" "decimal_sqrt_internal a = checked_decimal y (sqrt_scale a)"
      using decimal_sqrt_internal_val [OF assms(2) 3] by blast
    show ?thesis using x y is_isqrt_unique [OF x(1) y(1)] by simp
  qed (simp_all add: decimal_sqrt_def decimal_sqrt_internal_def)
qed

lemma decimal_div_internal_eq: "decimal_div_internal a b t = decimal_div a b t"
proof -
  have m: "bigint_to_mantissa = (\<lambda>b. map_err (\<lambda>_. DecimalError.Overflow) (bigint_to_i128 b))"
    by (rule ext) (simp add: bigint_to_mantissa_def)
  show ?thesis
    unfolding decimal_div_internal_def decimal_div_def scaled_product_def scale_down_half_even_def round_quotient_def
      or_overflow_def i128_to_bigint_def Let_def m by (rule refl)
qed

lemma decimal_round_internal_eq: "decimal_round_internal d t mode = decimal_round d t mode"
  unfolding decimal_round_internal_def decimal_round_def Let_def by (rule refl)



text \<open>Subtracting zero fails in the implementation on the crate's own big integers: for every
  canonical decimal \<open>a\<close>, \<open>decimal_sub_internal a 0\<close> is \<open>Overflow\<close>, while \<open>decimal_sub\<close> returns \<open>a\<close>.\<close>

theorem decimal_sub_internal_zero:
  assumes "num_laws N v" "dec_ok a"
  shows "decimal_sub_internal a (mk_decimal 0 0) = Err DecimalError.Overflow
    \<and> decimal_sub N a (mk_decimal 0 0) = Ok a"
proof -
  let ?z = "mk_decimal 0 0"
  have z: "dec_ok ?z" by (simp add: dec_ok_def MAX_DECIMAL_MANTISSA_def fp_canonical_def)
  have "decimal_sub N a ?z = checked_decimal (dec_mantissa a) (dec_scale a)"
    by (simp add: decimal_sub_val [OF assms z] aligned_def)
  also have "\<dots> = Ok a"
    using assms(2) decimal_new_canonical [OF assms(2)] by (simp add: checked_decimal_def dec_ok_def not_less)
  finally show ?thesis by (simp add: decimal_sub_internal_val [OF assms(2) z])
qed

theorem decimal_sub_internal_zero_witness:
  "decimal_sub_internal (mk_decimal 5 0) (mk_decimal 0 0) = Err DecimalError.Overflow
    \<and> decimal_sub int_ops (mk_decimal 5 0) (mk_decimal 0 0) = Ok (mk_decimal 5 0)"
proof -
  have ok: "dec_ok (mk_decimal 5 0)" by (simp add: dec_ok_def MAX_DECIMAL_MANTISSA_def fp_canonical_def)
  show ?thesis by (rule decimal_sub_internal_zero [OF int_ops_laws ok])
qed

text \<open>
  The quotients at which the internal multiplication breaks the tie differently: one, and every
  even number other than zero.
\<close>

definition wrong_tie :: "decimal \<Rightarrow> decimal \<Rightarrow> bool" where
  "wrong_tie a b \<longleftrightarrow>
     (let n = dec_mantissa a * dec_mantissa b; k = dec_scale a + dec_scale b - 36; q = rust_div n (10 ^ k) in
      36 < dec_scale a + dec_scale b \<and> 2 * \<bar>rust_rem n (10 ^ k)\<bar> = 10 ^ k \<and> (\<bar>q\<bar> = 1 \<or> q \<noteq> 0 \<and> even q))"

lemma internal_rounding_half_even:
  assumes "0 < k" and nt: "\<not> (2 * \<bar>rust_rem n (10 ^ k)\<bar> = 10 ^ k \<and>
      (\<bar>rust_div n (10 ^ k)\<bar> = 1 \<or> rust_div n (10 ^ k) \<noteq> 0 \<and> even (rust_div n (10 ^ k))))"
  shows "half_even (if \<bar>n\<bar> < 10 ^ k then \<bar>n\<bar> else n) (10 ^ k) (internal_rounding n (10 ^ k))"
proof -
  let ?d = "10 ^ k :: int" and ?q = "rust_div n (10 ^ k)" and ?m = "rust_rem n (10 ^ k)"
  let ?N = "round_product int_ops ?q ?m ?d"
  obtain j where k: "k = Suc j" using assms(1) by (cases k) auto
  have h: "2 * rust_div ?d 2 = ?d" unfolding k half_pow10 by simp
  have "?N = internal_rounding n ?d"
    using nt h by (auto simp: round_product_def int_ops_def internal_rounding_def Let_def rust_rem_2)
  then show ?thesis
    using round_product_val [OF int_ops_laws assms(1), of ?d ?q n ?m] by simp
qed

text \<open>The two multiplications agree on canonical operands except at ties whose quotient is one or
  even: there the internal one tests whether half of the quotient is zero, not whether the quotient
  is odd, and \<open>2.5\<close> units of the last place become 3 instead of 2.\<close>

theorem decimal_mul_internal_equivalent:
  assumes "num_laws N v"
  shows "(dec_ok a \<and> dec_ok b \<and> \<not> wrong_tie a b \<longrightarrow> decimal_mul_internal a b = decimal_mul N a b)
    \<and> decimal_mul_internal (mk_decimal 5 19) (mk_decimal 5 18) = Ok (mk_decimal 3 36)
    \<and> decimal_mul N (mk_decimal 5 19) (mk_decimal 5 18) = Ok (mk_decimal 2 36)"
proof (intro conjI impI)
  assume a: "dec_ok a \<and> dec_ok b \<and> \<not> wrong_tie a b"
  let ?P = "dec_mantissa a * dec_mantissa b" and ?k = "dec_scale a + dec_scale b - 36"
  show "decimal_mul_internal a b = decimal_mul N a b"
  proof (cases "dec_scale a + dec_scale b \<le> 36")
    case True
    then show ?thesis using a decimal_mul_exact [OF assms] decimal_mul_internal_val [of a b] by simp
  next
    case False
    obtain r where r: "half_even (mul_numerator a b) (10 ^ ?k) r" "decimal_mul N a b = checked_decimal r 36"
      using decimal_mul_rounded [OF assms, of a b] a False by auto
    have "half_even (mul_numerator a b) (10 ^ ?k) (internal_rounding ?P (10 ^ ?k))"
      unfolding mul_numerator_def Let_def
      by (rule internal_rounding_half_even) (use a False in \<open>auto simp: wrong_tie_def Let_def\<close>)
    then have "r = internal_rounding ?P (10 ^ ?k)" using half_even_unique r(1) by blast
    then show ?thesis using False a r(2) decimal_mul_internal_val [of a b] by simp
  qed
next
  have ok: "dec_ok (mk_decimal 5 19)" "dec_ok (mk_decimal 5 18)" "dec_ok (mk_decimal 3 36)" "dec_ok (mk_decimal 2 36)"
    by (simp_all add: dec_ok_def MAX_DECIMAL_MANTISSA_def fp_canonical_def)
  have new: "checked_decimal 3 36 = Ok (mk_decimal 3 36)" "checked_decimal 2 36 = Ok (mk_decimal 2 36)"
    using decimal_new_canonical [OF ok(3)] decimal_new_canonical [OF ok(4)]
    by (simp_all add: checked_decimal_def MAX_DECIMAL_MANTISSA_def)
  have "internal_rounding 25 10 = 3" by (simp add: internal_rounding_def rust_rem_def rust_div_def)
  then show "decimal_mul_internal (mk_decimal 5 19) (mk_decimal 5 18) = Ok (mk_decimal 3 36)"
    using decimal_mul_internal_val [OF ok(1,2)] new by simp
  obtain r where r: "half_even 25 10 r" "decimal_mul N (mk_decimal 5 19) (mk_decimal 5 18) = checked_decimal r 36"
    using decimal_mul_rounded [OF assms ok(1,2)] by (auto simp: mul_numerator_def)
  have "half_even 25 10 2" by (simp add: half_even_def)
  then have "r = 2" using r(1) half_even_unique by blast
  then show "decimal_mul N (mk_decimal 5 19) (mk_decimal 5 18) = Ok (mk_decimal 2 36)" using r(2) new by simp
qed

theorem decimal_mul_internal_witness:
  "decimal_mul_internal (mk_decimal 25 1) (mk_decimal (- 3) 0) = decimal_mul int_ops (mk_decimal 25 1) (mk_decimal (- 3) 0)"
proof -
  have "dec_ok (mk_decimal 25 1)" "dec_ok (mk_decimal (- 3) 0)" "\<not> wrong_tie (mk_decimal 25 1) (mk_decimal (- 3) 0)"
    by (simp_all add: dec_ok_def MAX_DECIMAL_MANTISSA_def fp_canonical_def wrong_tie_def)
  then show ?thesis using decimal_mul_internal_equivalent [OF int_ops_laws] by blast
qed

end
