(* ===== verification/Wide.thy ===== *)
theory Wide
  imports LimbShift
begin

unbundle bit_operations_syntax

text \<open>
  The 128 and 256 bit helpers of \<open>determin/src/arithmetic.rs\<close> on which the floating point type
  \<open>Dfp\<close> computes: shifts of a \<open>u128\<close> as the release profile executes them (the amount is taken
  modulo 128), counts of leading and trailing zeros, the two-word integer \<open>U256\<close> with its shifts
  and subtraction, the full product of two \<open>u128\<close> and the comparison of a square with a 384 bit
  number. Every helper is related to the natural number it stands for.
\<close>

abbreviation WB :: nat where "WB \<equiv> 340282366920938463463374607431768211456"

definition shl128 :: "u128 \<Rightarrow> nat \<Rightarrow> u128" where
  "shl128 x n = push_bit (n mod 128) x"

definition shr128 :: "u128 \<Rightarrow> nat \<Rightarrow> u128" where
  "shr128 x n = drop_bit (n mod 128) x"

definition lz128 :: "u128 \<Rightarrow> nat" where
  "lz128 x = 128 - bit_width (unat x)"

fun tz_nat :: "nat \<Rightarrow> nat" where
  "tz_nat n = (if n = 0 \<or> odd n then 0 else Suc (tz_nat (n div 2)))"

declare tz_nat.simps [simp del]

definition tz128 :: "u128 \<Rightarrow> nat" where
  "tz128 x = (if x = 0 then 128 else tz_nat (unat x))"

definition overflowing_add128 :: "u128 \<Rightarrow> u128 \<Rightarrow> u128 \<times> bool" where
  "overflowing_add128 x y = (x + y, WB \<le> unat x + unat y)"

subsection \<open>Operations of the source\<close>

record u256 =
  u_hi :: u128
  u_lo :: u128

definition mk_u256 :: "u128 \<Rightarrow> u128 \<Rightarrow> u256" where
  "mk_u256 hi lo = \<lparr>u_hi = hi, u_lo = lo\<rparr>"

definition u256_new :: "u128 \<Rightarrow> u256" where
  "u256_new lo = mk_u256 0 lo"

definition u256_leading_zeros :: "u256 \<Rightarrow> nat" where
  "u256_leading_zeros x =
     (if u_hi x \<noteq> 0 then lz128 (u_hi x)
      else if u_lo x \<noteq> 0 then 128 + lz128 (u_lo x)
      else 256)"

definition u256_sub :: "u256 \<Rightarrow> u256 \<Rightarrow> u256" where
  "u256_sub x y =
     (if u_lo y > u_lo x then mk_u256 (u_hi x - u_hi y - 1) (u_lo x - u_lo y)
      else mk_u256 (u_hi x - u_hi y) (u_lo x - u_lo y))"

definition u256_shr :: "u256 \<Rightarrow> nat \<Rightarrow> u256" where
  "u256_shr x shift =
     (if shift = 0 then x
      else if shift \<ge> 256 then u256_new 0
      else if shift \<ge> 128 then mk_u256 0 (shr128 (u_hi x) (shift - 128))
      else mk_u256 (shr128 (u_hi x) shift) (shr128 (u_lo x) shift OR shl128 (u_hi x) (128 - shift)))"

definition u256_shl :: "u256 \<Rightarrow> nat \<Rightarrow> u256" where
  "u256_shl x n =
     (if n = 0 then x
      else if n \<ge> 256 then u256_new 0
      else if n \<ge> 128 then
        (let surviving_lo_bits = 256 - n in
         if surviving_lo_bits = 0 then u256_new 0
         else let surviving_lo = u_lo x AND (shl128 1 surviving_lo_bits - 1);
                  shift_in_hi = n - 128 in
              mk_u256 (shl128 surviving_lo shift_in_hi) 0)
      else mk_u256 (shl128 (u_hi x) n OR shr128 (u_lo x) (128 - n)) (shl128 (u_lo x) n))"

definition mul_u128_to_u256 :: "u128 \<Rightarrow> u128 \<Rightarrow> u128 \<times> u128" where
  "mul_u128_to_u256 a b =
     (let a_lo = ucast (a AND 18446744073709551615) :: u64;
          a_hi = ucast (shr128 a 64) :: u64;
          b_lo = ucast (b AND 18446744073709551615) :: u64;
          b_hi = ucast (shr128 b 64) :: u64;
          pp_lo_lo = ucast a_lo * ucast b_lo :: u128;
          pp_lo_hi = ucast a_lo * ucast b_hi :: u128;
          pp_hi_lo = ucast a_hi * ucast b_lo :: u128;
          pp_hi_hi = ucast a_hi * ucast b_hi :: u128;
          mid = pp_hi_lo + pp_lo_hi;
          has_carry = mid < pp_hi_lo;
          hi = pp_hi_hi + (if has_carry then shl128 1 64 else 0) + shr128 mid 64;
          lo = shl128 mid 64 + pp_lo_lo in
      (hi, lo))"

definition u128_shl_to_u256 :: "u128 \<Rightarrow> nat \<Rightarrow> u128 \<times> u128" where
  "u128_shl_to_u256 val n =
     (if n = 0 then (0, val)
      else if n \<ge> 256 then (0, 0)
      else if n \<ge> 128 then (shl128 val (n - 128), 0)
      else (shr128 val (128 - n), shl128 (val AND (shl128 1 (128 - n) - 1)) n))"

definition set_bit_u256 :: "u128 \<Rightarrow> u128 \<Rightarrow> nat \<Rightarrow> u128 \<times> u128" where
  "set_bit_u256 hi lo b =
     (if b \<ge> 128 then (hi OR shl128 1 (b - 128), lo) else (hi, lo OR shl128 1 b))"

definition u256_sq_le_u384 :: "u128 \<Rightarrow> u128 \<Rightarrow> u128 \<Rightarrow> u128 \<Rightarrow> bool" where
  "u256_sq_le_u384 c_hi c_lo s_top s_mid =
     (let (lo2, lo1) = mul_u128_to_u256 c_lo c_lo;
          (cross2, cross1) = mul_u128_to_u256 c_hi c_lo;
          cross_d1 = shl128 cross1 1;
          carry1 = shr128 cross1 127;
          cross_d2 = shl128 cross2 1 OR carry1;
          cross_d_carry = shr128 cross2 127;
          (hi2, hi1) = mul_u128_to_u256 c_hi c_hi;
          q0 = lo1;
          (q1, carry_q1) = overflowing_add128 lo2 cross_d1;
          q1_carry = of_bool carry_q1 :: u128;
          (q2a, c2a) = overflowing_add128 cross_d2 hi1;
          (q2b, c2b) = overflowing_add128 q2a cross_d_carry;
          (q2, c2c) = overflowing_add128 q2b q1_carry;
          q2_carry = of_bool c2a + of_bool c2b + of_bool c2c :: u128;
          q3 = hi2 + q2_carry in
      if q3 \<noteq> 0 then False
      else if q2 < s_top then True
      else if q2 > s_top then False
      else if q1 < s_mid then True
      else if q1 > s_mid then False
      else q0 = 0)"

subsection \<open>Words as numbers\<close>

lemma WB_power: "WB = 2 ^ 128"
  by simp

lemma pow2_split: "n \<le> m \<Longrightarrow> (2 :: nat) ^ n * 2 ^ (m - n) = 2 ^ m"
  by (simp flip: power_add)

lemma unat_WB_less [bounds]: "unat (x :: u128) < WB"
  using unat_u128_less [of x] by simp

lemma unat_u128_eq_mod: "unat (x + y :: u128) = (unat x + unat y) mod WB"
  by (simp add: unat_word_ariths)

lemma unat_shl128: "n < 128 \<Longrightarrow> unat (shl128 x n) = (2 ^ n * unat x) mod WB"
proof -
  assume "n < 128"
  then have "unat (shl128 x n) = take_bit 128 (push_bit n (unat x))"
    by (simp add: shl128_def unsigned_push_bit_eq)
  then show ?thesis by (simp add: take_bit_eq_mod push_bit_eq_mult mult.commute)
qed

lemma unat_shr128: "n < 128 \<Longrightarrow> unat (shr128 x n) = unat x div 2 ^ n"
  by (simp add: shr128_def unat_drop_bit_eq) (simp add: drop_bit_eq_div)

lemma unat_shl128_1: "n < 128 \<Longrightarrow> unat (shl128 1 n) = 2 ^ n"
proof -
  assume n: "n < 128"
  then have "(2 :: nat) ^ n < 2 ^ 128" by (intro power_strict_increasing) simp_all
  then show ?thesis using n by (simp add: unat_shl128)
qed

lemma unat_and_mask128: "n < 128 \<Longrightarrow> unat (x AND (shl128 1 n - 1)) = unat x mod 2 ^ n"
proof -
  assume n: "n < 128"
  then have "shl128 1 n - 1 = (mask n :: u128)"
    by (simp add: shl128_def mask_eq_exp_minus_1 push_bit_eq_mult)
  then have "x AND (shl128 1 n - 1) = take_bit n x" by (simp add: take_bit_eq_mask)
  then show ?thesis using n by (simp add: unsigned_take_bit_eq) (simp add: take_bit_eq_mod)
qed

lemma unat_or_disjoint:
  fixes x y :: "'a :: len word"
  assumes "unat x < 2 ^ s" "2 ^ s dvd unat y"
  shows "unat (x OR y) = unat x + unat y" "unat (y OR x) = unat y + unat x"
proof -
  have x: "take_bit s (unat x) = unat x" using assms(1) by (simp add: take_bit_nat_eq_self_iff)
  obtain k where y: "unat y = push_bit s k" using assms(2) by (auto simp: push_bit_eq_mult mult.commute elim: dvdE)
  have "\<not> (bit (unat x) n \<and> bit (unat y) n)" for n
    using x y by (metis bit_take_bit_iff bit_push_bit_iff linorder_not_le)
  then have "unat x AND unat y = 0" by (intro bit_eqI) (simp add: bit_and_iff)
  then have "unat x OR unat y = unat x + unat y" by (rule disjunctive_add_eq_or [symmetric])
  then show "unat (x OR y) = unat x + unat y" "unat (y OR x) = unat y + unat x"
    by (simp_all add: unsigned_or_eq or.commute add.commute)
qed

lemma bit_width_0 [simp]: "bit_width 0 = 0"
  by (simp add: bit_width.simps)

lemma bit_width_u128: "bit_width (unat (x :: u128)) \<le> 128"
  using unat_WB_less [of x] by (intro bit_width_le) simp

lemma bit_width_unique:
  assumes "2 ^ k \<le> n" "n < 2 ^ Suc k"
  shows "bit_width n = Suc k"
proof (rule antisym)
  show "bit_width n \<le> Suc k" using assms(2) by (rule bit_width_le)
  have "n \<noteq> 0" using assms(1) by (cases "n = 0") simp_all
  then have "(2 :: nat) ^ k < 2 ^ bit_width n" using bit_width_bounds [of n] assms(1) by linarith
  then show "Suc k \<le> bit_width n" by (simp add: Suc_le_eq)
qed

lemma bit_width_half: "bit_width (n div 2) = bit_width n - 1"
  by (subst (2) bit_width.simps) (simp add: bit_width_0)

lemma bit_width_div: "bit_width (n div 2 ^ k) = bit_width n - k"
proof (induction k)
  case (Suc k)
  then show ?case using bit_width_half [of "n div 2 ^ k"] by (simp add: power_Suc2 div_mult2_eq del: power_Suc)
qed simp

lemma unat_of_nat_div: "n < WB \<Longrightarrow> unat (of_nat (n div 2 ^ k) :: u128) = n div 2 ^ k"
proof -
  assume "n < WB"
  then have "n div 2 ^ k < WB" using div_le_dividend [of n "2 ^ k"] by linarith
  then show ?thesis by (simp add: unat_of_nat)
qed

lemma tz_nat_0 [simp]: "tz_nat 0 = 0" and tz_nat_odd [simp]: "odd n \<Longrightarrow> tz_nat n = 0"
  by (simp_all add: tz_nat.simps)

lemma tz_nat_split: "n \<noteq> 0 \<Longrightarrow> odd (n div 2 ^ tz_nat n) \<and> 2 ^ tz_nat n * (n div 2 ^ tz_nat n) = n"
proof (induction n rule: tz_nat.induct)
  case (1 n)
  show ?case
  proof (cases "odd n")
    case False
    then have "odd (n div 2 div 2 ^ tz_nat (n div 2))"
      and m: "2 ^ tz_nat (n div 2) * (n div 2 div 2 ^ tz_nat (n div 2)) = n div 2"
      using 1 by (auto elim!: evenE)
    moreover have "tz_nat n = Suc (tz_nat (n div 2))" using False 1(2) by (simp add: tz_nat.simps [of n])
    moreover have "n = 2 * (n div 2)" using False by simp
    ultimately show ?thesis by (simp add: div_mult2_eq mult.assoc)
  qed simp
qed

lemma tz_nat_double: "n \<noteq> 0 \<Longrightarrow> tz_nat (2 ^ k * n) = k + tz_nat n"
proof (induction k)
  case (Suc k)
  have "tz_nat (2 ^ Suc k * n) = Suc (tz_nat (2 ^ Suc k * n div 2))"
    using Suc(2) by (subst tz_nat.simps) simp
  then show ?case using Suc by (simp add: mult.assoc)
qed simp

lemma tz_nat_less: "n \<noteq> 0 \<Longrightarrow> n < 2 ^ k \<Longrightarrow> tz_nat n < k"
proof (rule ccontr)
  assume n: "n \<noteq> 0" "n < 2 ^ k" "\<not> tz_nat n < k"
  have "(2 :: nat) ^ k \<le> 2 ^ tz_nat n" using n(3) by (intro power_increasing) simp_all
  also have "\<dots> \<le> n" using tz_nat_split [OF n(1)] n(1) by (metis dvd_imp_le dvd_triv_left gr0I)
  finally show False using n(2) by simp
qed

lemma tz128_less: "x \<noteq> 0 \<Longrightarrow> tz128 x < 128"
  using tz_nat_less [of "unat x" 128] unat_WB_less [of x] by (simp add: tz128_def unat_eq_0)

subsection \<open>The helpers as arithmetic\<close>

definition u256_val :: "u256 \<Rightarrow> nat" where
  "u256_val x = unat (u_hi x) * WB + unat (u_lo x)"

lemma u256_val_mk [simp]: "u256_val (mk_u256 hi lo) = unat hi * WB + unat lo"
  by (simp add: u256_val_def mk_u256_def)

lemma mk_u256_sel [simp]: "u_hi (mk_u256 hi lo) = hi" "u_lo (mk_u256 hi lo) = lo"
  by (simp_all add: mk_u256_def)

lemma u256_val_new [simp]: "u256_val (u256_new lo) = unat lo"
  by (simp add: u256_new_def)

lemma u256_sub_val:
  assumes "u256_val y \<le> u256_val x"
  shows "u256_val (u256_sub x y) = u256_val x - u256_val y"
proof (cases "u_lo y > u_lo x")
  case True
  then have lo: "unat (u_lo x) < unat (u_lo y)" by (simp add: word_less_nat_alt)
  then have hi: "unat (u_hi y) < unat (u_hi x)"
    using assms unat_WB_less [of "u_lo x"] by (simp add: u256_val_def)
  have "unat (u_lo x - u_lo y) = WB + unat (u_lo x) - unat (u_lo y)"
    using lo unat_WB_less [of "u_lo y"] by (simp add: unat_sub_if_size word_size)
  moreover have "unat (u_hi x - u_hi y - 1) = unat (u_hi x) - unat (u_hi y) - 1"
  proof -
    have d: "unat (u_hi x - u_hi y) = unat (u_hi x) - unat (u_hi y)"
      using hi by (simp add: unat_sub_if_size)
    then show ?thesis using hi by (simp add: unat_sub_if_size [of _ 1])
  qed
  moreover have "unat (u_hi x) = (unat (u_hi x) - unat (u_hi y) - 1) + unat (u_hi y) + 1" using hi by simp
  ultimately show ?thesis
    using True lo unat_WB_less [of "u_lo y"] by (simp add: u256_sub_def u256_val_def algebra_simps)
next
  case False
  then have lo: "unat (u_lo y) \<le> unat (u_lo x)" by (simp add: word_less_nat_alt)
  then have hi: "unat (u_hi y) \<le> unat (u_hi x)"
    using assms unat_WB_less [of "u_lo x"] unat_WB_less [of "u_lo y"] by (simp add: u256_val_def)
  have "unat (u_lo x - u_lo y) = unat (u_lo x) - unat (u_lo y)"
    and "unat (u_hi x - u_hi y) = unat (u_hi x) - unat (u_hi y)"
    using lo hi by (simp_all add: unat_sub_if_size)
  then show ?thesis
    using False lo hi by (simp add: u256_sub_def u256_val_def diff_mult_distrib)
qed

lemma scale_split: "(p :: nat) * h = (q * p) * (h div q) + p * (h mod q)"
proof -
  have "p * h = p * (q * (h div q) + h mod q)" by simp
  then show ?thesis by (simp only: distrib_left mult_ac)
qed

lemma u256_shr_val:
  assumes "n < 256"
  shows "u256_val (u256_shr x n) = u256_val x div 2 ^ n"
proof -
  consider "n = 0" | "0 < n" "n < 128" | "128 \<le> n" by linarith
  then show ?thesis
  proof cases
    case 2
    have p: "(2 :: nat) ^ n * 2 ^ (128 - n) = WB" using 2 by (simp flip: power_add)
    have c: "(2 ^ (128 - n) * unat (u_hi x)) mod WB = 2 ^ (128 - n) * (unat (u_hi x) mod 2 ^ n)"
      using p by (metis mult.commute mult_mod_right)
    have "unat (shr128 (u_lo x) n OR shl128 (u_hi x) (128 - n))
      = unat (u_lo x) div 2 ^ n + 2 ^ (128 - n) * (unat (u_hi x) mod 2 ^ n)"
    proof (subst unat_or_disjoint(1) [of _ "128 - n"])
      show "unat (shr128 (u_lo x) n) < 2 ^ (128 - n)"
        using 2 unat_WB_less [of "u_lo x"] p by (simp add: unat_shr128 less_mult_imp_div_less mult.commute)
    qed (use 2 c in \<open>simp_all add: unat_shr128 unat_shl128\<close>)
    moreover have "u256_val x div 2 ^ n = 2 ^ (128 - n) * unat (u_hi x) + unat (u_lo x) div 2 ^ n"
    proof -
      have "u256_val x = 2 ^ n * (2 ^ (128 - n) * unat (u_hi x)) + unat (u_lo x)"
        unfolding u256_val_def p [symmetric] by simp
      then show ?thesis by simp
    qed
    moreover have "2 ^ (128 - n) * unat (u_hi x)
      = WB * (unat (u_hi x) div 2 ^ n) + 2 ^ (128 - n) * (unat (u_hi x) mod 2 ^ n)"
      unfolding p [symmetric] by (rule scale_split)
    ultimately show ?thesis using 2 by (simp add: u256_shr_def unat_shr128)
  next
    case 3
    have "(2 :: nat) ^ n = WB * 2 ^ (n - 128)" using pow2_split [OF 3] by simp
    then have "u256_val x div 2 ^ n = unat (u_hi x) div 2 ^ (n - 128)"
      using unat_WB_less [of "u_lo x"] by (simp add: u256_val_def div_mult2_eq)
    then show ?thesis using 3 assms by (simp add: u256_shr_def unat_shr128)
  qed (simp add: u256_shr_def)
qed

lemma u256_shl_val:
  assumes "unat lo * 2 ^ n < WB * WB" "n < 256" "n \<noteq> 128"
  shows "u256_val (u256_shl (u256_new lo) n) = unat lo * 2 ^ n"
proof -
  consider "n = 0" | "0 < n" "n < 128" | "128 < n" using assms(3) by linarith
  then show ?thesis
  proof cases
    case 2
    have p: "(2 :: nat) ^ n * 2 ^ (128 - n) = WB" using 2 by (simp flip: power_add)
    have "unat lo * 2 ^ n = WB * (unat lo div 2 ^ (128 - n)) + (2 ^ n * unat lo) mod WB"
      unfolding p [symmetric] mult_mod_right [symmetric] using scale_split [of "2 ^ n" "unat lo" "2 ^ (128 - n)"]
      by (simp only: mult_ac)
    then show ?thesis
      using 2 by (simp add: u256_shl_def u256_new_def shl128_def [of 0] unat_shl128 unat_shr128)
  next
    case 3
    have p: "WB * 2 ^ (n - 128) = 2 ^ n" "(2 :: nat) ^ (256 - n) * 2 ^ n = WB * WB"
      using 3 assms(2) pow2_split [of 128 n] pow2_split [of n 256] by (simp_all add: mult.commute)
    then have "unat lo < 2 ^ (256 - n)" using assms(1) by (metis mult_less_cancel2)
    then have m: "unat (lo AND (shl128 1 (256 - n) - 1)) = unat lo"
      using 3 by (subst unat_and_mask128) simp_all
    have "unat lo * 2 ^ (n - 128) < WB"
      using assms(1) unfolding p(1) [symmetric] by simp
    then have "unat (shl128 (lo AND (shl128 1 (256 - n) - 1)) (n - 128)) = unat lo * 2 ^ (n - 128)"
      using 3 assms(2) m by (simp add: unat_shl128 mult.commute)
    then show ?thesis
      using 3 assms(2) p(1) by (simp add: u256_shl_def u256_new_def Let_def)
  qed (simp add: u256_shl_def)
qed

text \<open>
  A shift by exactly 128 loses the operand: the mask \<open>(1 << 128) - 1\<close> is computed with the shift
  amount reduced to 0.
\<close>

lemma u256_shl_128: "u256_shl (u256_new lo) 128 = u256_new 0"
  by (simp add: u256_shl_def u256_new_def shl128_def Let_def)


subsection \<open>The full product\<close>

text \<open>
  \<open>mul_u128_to_u256\<close> adds the low product to the shifted middle products without passing on the
  carry of that addition, so its result is one \<open>2 ^ 128\<close> short whenever the addition overflows.
\<close>

definition mul_lost_carry :: "nat \<Rightarrow> nat \<Rightarrow> bool" where
  "mul_lost_carry a b \<longleftrightarrow>
     WB \<le> (a div LB * (b mod LB) + a mod LB * (b div LB)) mod LB * LB + a mod LB * (b mod LB)"

definition mul_pair :: "nat \<Rightarrow> nat \<Rightarrow> nat" where
  "mul_pair a b = a * b - (if mul_lost_carry a b then WB else 0)"

lemma unat_and_mask64: "unat (a AND 18446744073709551615 :: u128) = unat a mod LB"
proof -
  have "a AND 18446744073709551615 = take_bit 64 a"
    by (simp add: take_bit_eq_mask mask_eq_exp_minus_1)
  then show ?thesis by (simp only: unsigned_take_bit_eq) (simp add: take_bit_eq_mod)
qed

lemma unat_and_low64: "unat (ucast (a AND 18446744073709551615 :: u128) :: u64) = unat a mod LB"
  by (simp add: unat_and_mask64)

lemma unat_high64: "unat (ucast (shr128 a 64) :: u64) = unat a div LB"
  using unat_WB_less [of a] by (simp add: unat_shr128 less_mult_imp_div_less)

lemma unat_u64_mult: "unat (ucast (x :: u64) * ucast (y :: u64) :: u128) = unat x * unat y"
  using u64_product_less [of x y] by (subst unat_u128_mult) simp_all

lemma LB_mult_le: "x < LB \<Longrightarrow> y < LB \<Longrightarrow> x * y \<le> (LB - 1) * (LB - 1)"
  by (intro mult_mono) simp_all

lemma mul_columns:
  fixes a1 a0 b1 b0 mid c :: nat
  assumes "a1 < LB" "a0 < LB" "b1 < LB" "b0 < LB"
    and "a1 * b0 + a0 * b1 = c * WB + mid" "mid < WB" "c \<le> 1"
  shows "a1 * b1 + c * LB + mid div LB < WB"
    and "(a1 * LB + a0) * (b1 * LB + b0)
         = WB * (a1 * b1 + c * LB + mid div LB) + (mid mod LB * LB + a0 * b0)"
proof -
  note le = LB_mult_le [OF assms(1,3)] LB_mult_le [OF assms(1,4)] LB_mult_le [OF assms(2,3)]
  have "c * LB + mid div LB \<le> 2 * LB - 4"
  proof (cases "c = 0")
    case True
    have "mid div LB < LB" using assms(6) by (intro less_mult_imp_div_less) simp
    then show ?thesis using True by simp
  next
    case False
    then have "mid \<le> (LB - 4) * LB + 2" using assms(5,7) le by simp
    then have "mid div LB \<le> ((LB - 4) * LB + 2) div LB" by (rule div_le_mono)
    then show ?thesis using assms(7) by simp
  qed
  then show "a1 * b1 + c * LB + mid div LB < WB" using le by simp
  have "(a1 * LB + a0) * (b1 * LB + b0) = WB * (a1 * b1) + LB * (a1 * b0 + a0 * b1) + a0 * b0"
    by (simp add: algebra_simps)
  also have "LB * (a1 * b0 + a0 * b1) = WB * (c * LB) + LB * mid" unfolding assms(5) by simp
  also have "LB * mid = WB * (mid div LB) + mid mod LB * LB"
    using scale_split [of LB mid LB] by (simp add: mult.commute)
  finally show "(a1 * LB + a0) * (b1 * LB + b0)
      = WB * (a1 * b1 + c * LB + mid div LB) + (mid mod LB * LB + a0 * b0)"
    by (simp add: algebra_simps)
qed

lemma mul_u128_to_u256_val:
  assumes "mul_u128_to_u256 a b = (hi, lo)"
  shows "unat hi * WB + unat lo = mul_pair (unat a) (unat b)"
proof -
  define a1 a0 b1 b0 where d: "a1 = unat a div LB" "a0 = unat a mod LB" "b1 = unat b div LB" "b0 = unat b mod LB"
  define mid :: u128 where "mid = ucast (ucast (shr128 a 64) :: u64) * ucast (ucast (b AND 18446744073709551615) :: u64)
    + ucast (ucast (a AND 18446744073709551615) :: u64) * ucast (ucast (shr128 b 64) :: u64)"
  define c where "c = (a1 * b0 + a0 * b1) div WB"
  have r: "a1 < LB" "a0 < LB" "b1 < LB" "b0 < LB"
    using unat_WB_less [of a] unat_WB_less [of b] by (simp_all add: d less_mult_imp_div_less)
  have mid: "unat mid = (a1 * b0 + a0 * b1) mod WB"
    by (simp only: mid_def unat_u128_eq_mod unat_u64_mult unat_and_low64 unat_high64 d)
  then have split: "a1 * b0 + a0 * b1 = c * WB + unat mid" by (simp add: c_def)
  have hl: "unat (ucast (ucast (shr128 a 64) :: u64) * ucast (ucast (b AND 18446744073709551615) :: u64) :: u128) = a1 * b0"
    by (simp only: unat_u64_mult unat_and_low64 unat_high64 d)
  have le: "a1 * b0 \<le> (LB - 1) * (LB - 1)" "a0 * b1 \<le> (LB - 1) * (LB - 1)"
    using r LB_mult_le by blast+
  have c1: "c \<le> 1" using le split by simp
  have carry: "unat mid < a1 * b0 \<longleftrightarrow> c = 1" using split c1 le by (cases "c = 0") simp_all
  note col = mul_columns [OF r split unat_WB_less c1]
  have hi: "unat hi = a1 * b1 + c * LB + unat mid div LB"
  proof -
    have "hi = ucast (ucast (shr128 a 64) :: u64) * ucast (ucast (shr128 b 64) :: u64)
      + (if unat mid < a1 * b0 then shl128 1 64 else 0) + shr128 mid 64"
      using assms by (simp add: mul_u128_to_u256_def Let_def mid_def [symmetric] word_less_nat_alt hl)
    moreover have "unat (if unat mid < a1 * b0 then shl128 1 64 else 0) = c * LB"
      using c1 by (simp add: carry unat_shl128_1)
    ultimately have "unat hi = (a1 * b1 + c * LB + unat mid div LB) mod WB"
      using r by (simp add: unat_u128_eq_mod unat_u64_mult unat_shr128 mod_add_left_eq flip: d)
    then show ?thesis using col(1) by simp
  qed
  have lo: "unat lo = (unat mid mod LB * LB + a0 * b0) mod WB"
  proof -
    have "lo = shl128 mid 64 + ucast (ucast (a AND 18446744073709551615) :: u64) * ucast (ucast (b AND 18446744073709551615) :: u64)"
      using assms by (simp add: mul_u128_to_u256_def Let_def mid_def [symmetric])
    moreover have "LB * unat mid mod WB = unat mid mod LB * LB"
      using mult_mod_right [of LB "unat mid" LB] by (simp add: mult.commute)
    ultimately show ?thesis
      by (simp add: unat_u128_eq_mod unat_u64_mult unat_and_mask64 d unat_shl128)
  qed
  have ab: "unat a * unat b = WB * unat hi + (unat mid mod LB * LB + a0 * b0)"
    using col(2) by (simp add: hi) (simp add: d div_mult_mod_eq)
  have m: "(a1 * b0 + a0 * b1) mod LB = unat mid mod LB"
    unfolding mid by (rule mod_mod_cancel [symmetric]) simp
  have "unat mid mod LB * LB \<le> (LB - 1) * LB" by simp
  then have lt: "unat mid mod LB * LB + a0 * b0 < 2 * WB" using LB_mult_le [OF r(2,4)] by simp
  show ?thesis
  proof (cases "WB \<le> unat mid mod LB * LB + a0 * b0")
    case True
    then have "unat lo = unat mid mod LB * LB + a0 * b0 - WB"
      using lt by (simp add: lo le_mod_geq)
    then show ?thesis
      using True m by (simp add: mul_pair_def mul_lost_carry_def ab mult.commute [of WB]) (simp add: d)
  next
    case False
    then have "unat lo = unat mid mod LB * LB + a0 * b0" by (simp add: lo)
    then show ?thesis
      using False m by (simp add: mul_pair_def mul_lost_carry_def ab mult.commute [of WB]) (simp add: d)
  qed
qed

lemma mul_pair_small: "a < LB \<Longrightarrow> b < LB \<Longrightarrow> mul_pair a b = a * b"
  using LB_mult_le [of a b] by (simp add: mul_pair_def mul_lost_carry_def)

lemma mul_pair_aligned: "LB dvd b \<Longrightarrow> mul_pair a b = a * b"
proof -
  assume "LB dvd b"
  then have "b mod LB = 0" by simp
  moreover have "(a mod LB * (b div LB)) mod LB * LB \<le> (LB - 1) * LB" by simp
  ultimately show ?thesis by (simp add: mul_pair_def mul_lost_carry_def)
qed


subsection \<open>Comparing a square\<close>

text \<open>Adding three words with their carries, and comparing two four-word numbers from the top.\<close>

lemma overflowing_add128_val:
  assumes "overflowing_add128 x y = (s, c)"
  shows "unat s + WB * of_bool c = unat x + unat y"
proof (cases "WB \<le> unat x + unat y")
  case True
  have "unat x + unat y < 2 * WB" using unat_WB_less [of x] unat_WB_less [of y] by linarith
  then show ?thesis using True assms by (auto simp: overflowing_add128_def unat_u128_eq_mod le_mod_geq)
next
  case False
  then show ?thesis using assms by (auto simp: overflowing_add128_def unat_u128_eq_mod)
qed

lemma double_pair:
  assumes "d1 = shl128 x1 1" "d2 = shl128 x2 1 OR shr128 x1 127" "d3 = shr128 x2 127"
  shows "unat d3 * (WB * WB) + unat d2 * WB + unat d1 = 2 * (unat x2 * WB + unat x1)"
proof -
  define H :: nat where "H = 170141183460469231731687303715884105728"
  have h: "WB = 2 * H" "(2 :: nat) ^ 127 = H" by (simp_all add: H_def)
  have lt: "unat x1 < 2 * H" "unat x2 < 2 * H" using unat_WB_less [of x1] unat_WB_less [of x2] by (simp_all only: h)
  have s1: "unat x1 = H * (unat x1 div H) + unat x1 mod H" "unat x2 = H * (unat x2 div H) + unat x2 mod H" by simp_all
  have m: "2 * unat x mod WB = 2 * (unat x mod H)" for x :: u128 unfolding h(1) by (rule mult_mod_right [symmetric])
  have d1: "unat d1 = 2 * (unat x1 mod H)" using m [of x1] by (simp add: assms(1) unat_shl128)
  have d3: "unat d3 = unat x2 div H" by (simp add: assms(3) unat_shr128 h(2) del: power_numeral)
  have c: "unat (shr128 x1 127) = unat x1 div H" by (simp add: unat_shr128 h(2) del: power_numeral)
  moreover have "unat x1 div H < 2" using lt(1) by (simp add: less_mult_imp_div_less mult.commute)
  ultimately have "unat d2 = unat (shl128 x2 1) + unat x1 div H"
    unfolding assms(2) c [symmetric] by (intro unat_or_disjoint(2) [of _ 1]) (simp_all add: unat_shl128 m)
  then have d2: "unat d2 = 2 * (unat x2 mod H) + unat x1 div H" using m [of x2] by (simp add: unat_shl128)
  have alg: "q2 * (2 * H * (2 * H)) + (2 * r2 + q1) * (2 * H) + 2 * r1
      = 2 * ((H * q2 + r2) * (2 * H) + (H * q1 + r1))" for q1 q2 r1 r2
    by (simp add: algebra_simps)
  show ?thesis unfolding d1 d2 d3 h(1) using alg [of "unat x2 div H" "unat x2 mod H" "unat x1 div H" "unat x1 mod H"]
    by (simp only: s1 [symmetric])
qed

lemma lex_le_four:
  fixes q0 q1 q2 q3 t m :: nat
  assumes "q0 < WB" "q1 < WB" "q2 < WB" "t < WB" "m < WB"
  shows "q0 + q1 * WB + q2 * (WB * WB) + q3 * (WB * (WB * WB)) \<le> t * (WB * WB) + m * WB \<longleftrightarrow>
    (if q3 \<noteq> 0 then False else if q2 < t then True else if q2 > t then False
     else if q1 < m then True else if q1 > m then False else q0 = 0)"
proof -
  consider "q3 \<noteq> 0" | "q3 = 0" "q2 < t" | "q3 = 0" "q2 > t" | "q3 = 0" "q2 = t" by linarith
  then show ?thesis
  proof cases
    case 1
    then have "1 * (WB * (WB * WB)) \<le> q3 * (WB * (WB * WB))" by (intro mult_right_mono) simp_all
    then show ?thesis using 1 assms by simp
  next
    case 2
    then have "(q2 + 1) * (WB * WB) \<le> t * (WB * WB)" by (intro mult_right_mono) simp_all
    then show ?thesis using 2 assms by simp
  next
    case 3
    then have "(t + 1) * (WB * WB) \<le> q2 * (WB * WB)" by (intro mult_right_mono) simp_all
    then show ?thesis using 3 assms by simp
  next
    case 4
    then show ?thesis using assms by auto
  qed
qed

text \<open>
  The comparison is that of the exact square when the partial products are exact and the doubled
  cross product stays below \<open>2 ^ 256\<close> (its carry is added one word too low). The bits that decide
  the result of \<open>dfp_sqrt\<close> are of this kind.
\<close>

lemma u256_sq_le_u384_val:
  fixes c_hi c_lo s_top s_mid :: u128
  defines "c \<equiv> unat c_hi * WB + unat c_lo"
  assumes "mul_pair (unat c_lo) (unat c_lo) = unat c_lo * unat c_lo"
    and "mul_pair (unat c_hi) (unat c_lo) = unat c_hi * unat c_lo"
    and "mul_pair (unat c_hi) (unat c_hi) = unat c_hi * unat c_hi"
    and small: "2 * (unat c_hi * unat c_lo) < WB * WB"
  shows "u256_sq_le_u384 c_hi c_lo s_top s_mid \<longleftrightarrow> c * c \<le> unat s_top * (WB * WB) + unat s_mid * WB"
proof -
  obtain lo2 lo1 where lo: "mul_u128_to_u256 c_lo c_lo = (lo2, lo1)" by fastforce
  obtain x2 x1 where x: "mul_u128_to_u256 c_hi c_lo = (x2, x1)" by fastforce
  obtain hi2 hi1 where hi: "mul_u128_to_u256 c_hi c_hi = (hi2, hi1)" by fastforce
  define d1 d2 d3 where d: "d1 = shl128 x1 1" "d2 = shl128 x2 1 OR shr128 x1 127" "d3 = shr128 x2 127"
  obtain q1 k1 where q1: "overflowing_add128 lo2 d1 = (q1, k1)" by fastforce
  obtain qa ka where qa: "overflowing_add128 d2 hi1 = (qa, ka)" by fastforce
  obtain qb kb where qb: "overflowing_add128 qa d3 = (qb, kb)" by fastforce
  obtain q2 kc where q2: "overflowing_add128 qb (of_bool k1) = (q2, kc)" by fastforce
  define k :: u128 where "k = of_bool ka + of_bool kb + of_bool kc"
  have k: "unat k = of_bool ka + of_bool kb + of_bool kc"
    unfolding k_def by (cases ka; cases kb; cases kc) simp_all
  have k1: "unat (of_bool k1 :: u128) = of_bool k1" by (cases k1) simp_all
  note eqs = mul_u128_to_u256_val [OF lo] mul_u128_to_u256_val [OF x] mul_u128_to_u256_val [OF hi]
  note adds = overflowing_add128_val [OF q1] overflowing_add128_val [OF qa]
    overflowing_add128_val [OF qb] overflowing_add128_val [OF q2]
  have d3: "unat d3 = 0"
  proof (rule ccontr)
    assume "unat d3 \<noteq> 0"
    then have "1 * (WB * WB) \<le> unat d3 * (WB * WB)" by (intro mult_right_mono) simp_all
    then show False using double_pair [OF d] eqs(2) assms(3) small by simp
  qed
  let ?A = "unat hi2 + unat k" and ?W = WB
  have "c * c = unat c_hi * unat c_hi * (WB * WB) + 2 * (unat c_hi * unat c_lo) * WB + unat c_lo * unat c_lo"
    by (simp add: c_def algebra_simps)
  also have "\<dots> = (unat hi2 * WB + unat hi1) * (WB * WB)
    + (unat d3 * (WB * WB) + unat d2 * WB + unat d1) * WB + (unat lo2 * WB + unat lo1)"
    using eqs assms(2-4) double_pair [OF d] by simp
  also have "\<dots> = unat lo1 + (unat lo2 + unat d1) * WB + (unat d2 + unat hi1 + unat d3) * (WB * WB)
    + unat hi2 * (WB * (WB * WB))"
    by (simp add: d3)
  also have "unat lo2 + unat d1 = unat q1 + WB * of_bool k1" using adds(1) by simp
  also have "unat d2 + unat hi1 + unat d3 = unat qb + WB * of_bool kb + WB * of_bool ka" using adds(2,3) by simp
  finally have "c * c = unat lo1 + unat q1 * WB + (unat qb + of_bool k1) * (WB * WB)
    + (unat hi2 + of_bool ka + of_bool kb) * (WB * (WB * WB))" by (simp add: algebra_simps)
  also have "unat qb + of_bool k1 = unat q2 + WB * of_bool kc" using adds(4) k1 by simp
  finally have sq: "c * c = unat lo1 + unat q1 * WB + unat q2 * (WB * WB) + ?A * (WB * (WB * WB))"
    unfolding k by (simp add: algebra_simps)
  have "c < WB * WB" using unat_WB_less [of c_hi] unat_WB_less [of c_lo] by (simp add: c_def)
  then have "c * c < WB * (WB * (WB * WB))" using mult_strict_mono [of c "WB * WB" c "WB * WB"] by simp
  then have "?A * (WB * (WB * WB)) < WB * (WB * (WB * WB))" using sq by linarith
  then have "?A < WB" by simp
  then have q3: "unat (hi2 + k) = ?A" by (simp add: unat_u128_eq_mod)
  have "u256_sq_le_u384 c_hi c_lo s_top s_mid \<longleftrightarrow>
    (if hi2 + k \<noteq> 0 then False else if q2 < s_top then True else if q2 > s_top then False
     else if q1 < s_mid then True else if q1 > s_mid then False else lo1 = 0)"
    by (simp only: u256_sq_le_u384_def lo x hi q1 [unfolded d] qa [unfolded d] qb [unfolded d] q2 Let_def
        prod.case k_def)
  also have "\<dots> \<longleftrightarrow> c * c \<le> unat s_top * (WB * WB) + unat s_mid * WB"
    unfolding sq using lex_le_four [of "unat lo1" "unat q1" "unat q2" "unat s_top" "unat s_mid" ?A]
    by (simp add: unat_WB_less word_less_nat_alt unat_eq_0 [symmetric] q3 del: unat_eq_0)
  finally show ?thesis .
qed

end
