(* ===== verification/Dfp.thy ===== *)
theory Dfp
  imports Wide Bytes "HOL-Library.Product_Lexorder"
begin

unbundle bit_operations_syntax

text \<open>
  The floating point type \<open>Dfp\<close> of \<open>determin/src/lib.rs\<close> with its normalization, constructors,
  conversions from and to \<open>i64\<close> and \<open>f64\<close> (an \<open>f64\<close> is its bit pattern, a \<open>u64\<close>) and its 24 byte
  encoding, and the comparisons of \<open>determin/src/dfp_compare.rs\<close> and \<open>determin/src/dcmp.rs\<close>.
  The locale \<open>ord_contract\<close> is the contract of Rust's \<open>Ord::cmp\<close>; \<open>min\<close>, \<open>max\<close> and \<open>clamp\<close> rest on it.
\<close>

subsection \<open>32 bit exponents\<close>

abbreviation I32_MIN :: int where "I32_MIN \<equiv> - 2147483648"
abbreviation I32_MAX :: int where "I32_MAX \<equiv> 2147483647"

definition i32_range :: "int \<Rightarrow> bool" where
  "i32_range x \<longleftrightarrow> I32_MIN \<le> x \<and> x \<le> I32_MAX"

definition as_i32 :: "int \<Rightarrow> int" where
  "as_i32 x = (x + 2147483648) mod 4294967296 - 2147483648"

definition sat_i32 :: "int \<Rightarrow> int" where
  "sat_i32 x = max I32_MIN (min I32_MAX x)"

lemma as_i32_id [simp]: "i32_range x \<Longrightarrow> as_i32 x = x"
  by (simp add: as_i32_def i32_range_def)

lemma sat_i32_id [simp]: "i32_range x \<Longrightarrow> sat_i32 x = x"
  by (simp add: sat_i32_def i32_range_def)

lemma sat_i32_range [simp]: "i32_range (sat_i32 x)"
  by (simp add: sat_i32_def i32_range_def)

subsection \<open>The type and its constructors\<close>

datatype DfpClass = Normal | Infinity | NaN | Zero

record dfp =
  dfp_mantissa :: u128
  dfp_exponent :: int
  dfp_class :: DfpClass
  dfp_sign :: bool

definition mk_dfp :: "u128 \<Rightarrow> int \<Rightarrow> DfpClass \<Rightarrow> bool \<Rightarrow> dfp" where
  "mk_dfp m e c s = \<lparr>dfp_mantissa = m, dfp_exponent = e, dfp_class = c, dfp_sign = s\<rparr>"

definition DFP_MAX_EXPONENT :: int where "DFP_MAX_EXPONENT = 1023"
definition DFP_MIN_EXPONENT :: int where "DFP_MIN_EXPONENT = - 1074"

definition DFP_MAX_MANTISSA :: u128 where
  "DFP_MAX_MANTISSA = shl128 1 113 - 1"

definition DFP_MAX :: dfp where "DFP_MAX = mk_dfp DFP_MAX_MANTISSA DFP_MAX_EXPONENT Normal False"
definition DFP_MIN :: dfp where "DFP_MIN = mk_dfp DFP_MAX_MANTISSA DFP_MAX_EXPONENT Normal True"

definition dfp_nan :: dfp where "dfp_nan = mk_dfp 0 0 NaN False"
definition dfp_zero :: dfp where "dfp_zero = mk_dfp 0 0 Zero False"
definition dfp_neg_zero :: dfp where "dfp_neg_zero = mk_dfp 0 0 Zero True"
definition dfp_infinity :: dfp where "dfp_infinity = mk_dfp 0 0 Infinity False"
definition dfp_neg_infinity :: dfp where "dfp_neg_infinity = mk_dfp 0 0 Infinity True"

definition dfp_normalize :: "dfp \<Rightarrow> dfp" where
  "dfp_normalize d =
     (if dfp_class d \<noteq> Normal then d
      else if dfp_mantissa d = 0 then d\<lparr>dfp_class := Zero\<rparr>
      else let trailing_zeros = tz128 (dfp_mantissa d) in
        if trailing_zeros > 0 then
          d\<lparr>dfp_mantissa := shr128 (dfp_mantissa d) trailing_zeros,
            dfp_exponent := sat_i32 (dfp_exponent d + int trailing_zeros)\<rparr>
        else d)"

definition dfp_new :: "u128 \<Rightarrow> int \<Rightarrow> DfpClass \<Rightarrow> bool \<Rightarrow> dfp" where
  "dfp_new mantissa exponent cls sign =
     (let d = mk_dfp mantissa exponent cls sign in
      if dfp_class d = Normal then dfp_normalize d else d)"

definition dfp_from_signed :: "int \<Rightarrow> int \<Rightarrow> dfp" where
  "dfp_from_signed mantissa exponent =
     (if mantissa = 0 then dfp_zero
      else dfp_normalize (mk_dfp (word_of_int \<bar>mantissa\<bar>) exponent Normal (mantissa < 0)))"

definition dfp_from_i64 :: "int \<Rightarrow> dfp" where
  "dfp_from_i64 val =
     (if val = 0 then dfp_zero
      else if val = I64_MIN then dfp_normalize (mk_dfp (shl128 1 63) 0 Normal True)
      else let sign = val < 0; abs_val = word_of_int \<bar>val\<bar> :: u64 in
        dfp_normalize (mk_dfp (ucast abs_val) 0 Normal sign))"

subsection \<open>Conversion from and to \<open>f64\<close>\<close>

definition dfp_from_f64 :: "u64 \<Rightarrow> dfp" where
  "dfp_from_f64 bits =
     (let sign = shr64 bits 63 \<noteq> 0;
          exp = shr64 bits 52 AND 2047;
          mantissa = bits AND 4503599627370495 in
      if exp = 2047 then
        (if mantissa \<noteq> 0 then dfp_nan else if sign then dfp_neg_infinity else dfp_infinity)
      else if exp = 0 then
        (if mantissa = 0 then (if sign then dfp_neg_zero else dfp_zero)
         else dfp_normalize (mk_dfp (ucast mantissa) (- 1074) Normal sign))
      else
        (let mantissa_with_implicit = ucast mantissa OR shl128 1 52;
             exponent = int (unat exp) - 1075 in
         dfp_normalize (mk_dfp mantissa_with_implicit exponent Normal sign)))"

definition F64_SIGN_BIT :: u64 where "F64_SIGN_BIT = 9223372036854775808"
definition F64_KEEP_MASK :: u64 where "F64_KEEP_MASK = 4503599627370495"
definition F64_EXP_MASK :: u64 where "F64_EXP_MASK = 9218868437227405312"

definition f64_kept :: "u128 \<Rightarrow> int \<Rightarrow> u64 \<times> u64" where
  "f64_kept mantissa msb =
     (if msb \<ge> 52 then
        (let shift = nat (msb - 52);
             kept = ucast (shr128 mantissa shift) :: u64;
             round_bit = shift \<ge> 1 \<and> shr128 mantissa (shift - 1) AND 1 \<noteq> 0;
             sticky = shift \<ge> 2 \<and> mantissa AND (shl128 1 (shift - 1) - 1) \<noteq> 0;
             lsb = kept AND 1 in
         if round_bit \<and> (sticky \<or> lsb = 1) then
           (let r = kept + 1 in
            if r > 9007199254740991 then (0, 1) else (r AND F64_KEEP_MASK, 0))
         else (kept AND F64_KEEP_MASK, 0))
      else (shl64 (ucast mantissa) (nat (52 - msb)) AND F64_KEEP_MASK, 0))"

definition u128_to_f64_bits :: "u128 \<Rightarrow> int \<Rightarrow> bool \<Rightarrow> u64" where
  "u128_to_f64_bits mantissa exponent sign =
     (if mantissa = 0 then (if sign then F64_SIGN_BIT else 0)
      else let msb = 127 - int (lz128 mantissa);
               total_exp = as_i32 (msb + exponent);
               biased_exp = as_i32 (total_exp + 1023) in
        if biased_exp \<ge> 2047 then
          (if sign then F64_SIGN_BIT OR F64_EXP_MASK else F64_EXP_MASK)
        else if biased_exp > 0 then
          (let (kept, exp_increment) = f64_kept mantissa msb;
               final_biased = word_of_int biased_exp + exp_increment;
               exp_bits = shl64 final_biased 52 AND F64_EXP_MASK in
           if sign then F64_SIGN_BIT OR exp_bits OR kept else exp_bits OR kept)
        else let shift_left = as_i32 (1074 + total_exp) in
          if shift_left < 0 then (if sign then F64_SIGN_BIT else 0)
          else let m = shl64 (ucast mantissa) (nat shift_left) AND F64_KEEP_MASK in
            if sign then F64_SIGN_BIT OR m else m)"

definition dfp_to_f64 :: "dfp \<Rightarrow> u64" where
  "dfp_to_f64 d = (case dfp_class d of
       Zero \<Rightarrow> if dfp_sign d then F64_SIGN_BIT else 0
     | Infinity \<Rightarrow> if dfp_sign d then F64_SIGN_BIT OR F64_EXP_MASK else F64_EXP_MASK
     | NaN \<Rightarrow> 9221120237041090560
     | Normal \<Rightarrow> u128_to_f64_bits (dfp_mantissa d) (dfp_exponent d) (dfp_sign d))"

subsection \<open>The 24 byte encoding\<close>

type_synonym u32 = "32 word"

record dfp_encoding =
  enc_mantissa :: u128
  enc_exponent :: int
  enc_class_sign :: u32

fun class_code :: "DfpClass \<Rightarrow> u32" where
  "class_code Normal = 0"
| "class_code Infinity = 1"
| "class_code NaN = 2"
| "class_code Zero = 3"

definition from_dfp :: "dfp \<Rightarrow> dfp_encoding" where
  "from_dfp d =
     (let class_sign = push_bit 24 (class_code (dfp_class d)) OR push_bit 16 (of_bool (dfp_sign d)) in
      \<lparr>enc_mantissa = dfp_mantissa d, enc_exponent = dfp_exponent d, enc_class_sign = class_sign\<rparr>)"

definition to_dfp :: "dfp_encoding \<Rightarrow> dfp" where
  "to_dfp enc =
     (let cls = drop_bit 24 (enc_class_sign enc) AND 255;
          sign = drop_bit 16 (enc_class_sign enc) AND 1 in
      mk_dfp (enc_mantissa enc) (enc_exponent enc)
        (if cls = 0 then Normal else if cls = 1 then Infinity else if cls = 2 then NaN
         else if cls = 3 then Zero else NaN)
        (sign \<noteq> 0))"

definition dfp_to_bytes :: "dfp_encoding \<Rightarrow> u8 list" where
  "dfp_to_bytes enc =
     be_bytes 16 (uint (enc_mantissa enc)) @ be_bytes 4 (enc_exponent enc) @ be_bytes 4 (uint (enc_class_sign enc))"

definition dfp_from_bytes :: "u8 list \<Rightarrow> dfp_encoding" where
  "dfp_from_bytes bytes =
     \<lparr>enc_mantissa = word_of_int (of_be_bytes (take 16 bytes)),
      enc_exponent = as_i32 (of_be_bytes (take 4 (drop 16 bytes))),
      enc_class_sign = word_of_int (of_be_bytes (take 4 (drop 20 bytes)))\<rparr>"

subsection \<open>Comparison\<close>

datatype ordering = Less | Equal | Greater

definition cmp_of :: "'a :: linorder \<Rightarrow> 'a \<Rightarrow> ordering" where
  "cmp_of x y = (if x < y then Less else if x = y then Equal else Greater)"

definition ord_then :: "ordering \<Rightarrow> ordering \<Rightarrow> ordering" where
  "ord_then x y = (if x = Equal then y else x)"

fun class_rank :: "DfpClass \<Rightarrow> nat" where
  "class_rank NaN = 3"
| "class_rank Infinity = 2"
| "class_rank Normal = 1"
| "class_rank Zero = 0"

definition dfp_total_cmp :: "dfp \<Rightarrow> dfp \<Rightarrow> ordering" where
  "dfp_total_cmp a b =
     (let r_self = class_rank (dfp_class a); r_other = class_rank (dfp_class b) in
      if r_self \<noteq> r_other then cmp_of r_self r_other
      else case dfp_class a of
        NaN \<Rightarrow> Equal
      | Zero \<Rightarrow> cmp_of (dfp_sign b) (dfp_sign a)
      | Infinity \<Rightarrow> cmp_of (dfp_sign b) (dfp_sign a)
      | Normal \<Rightarrow>
          if dfp_sign a \<noteq> dfp_sign b then (if dfp_sign a then Less else Greater)
          else let exp_cmp = if dfp_sign a then cmp_of (dfp_exponent b) (dfp_exponent a)
                             else cmp_of (dfp_exponent a) (dfp_exponent b);
                   mant_cmp = if dfp_sign a then cmp_of (dfp_mantissa b) (dfp_mantissa a)
                              else cmp_of (dfp_mantissa a) (dfp_mantissa b) in
               ord_then exp_cmp mant_cmp)"

definition dfp_abs :: "dfp \<Rightarrow> dfp" where
  "dfp_abs d = (if dfp_sign d then d\<lparr>dfp_sign := False\<rparr> else d)"

definition is_nan :: "dfp \<Rightarrow> bool" where "is_nan d \<longleftrightarrow> dfp_class d = NaN"
definition is_infinite :: "dfp \<Rightarrow> bool" where "is_infinite d \<longleftrightarrow> dfp_class d = Infinity"
definition dfp_is_zero :: "dfp \<Rightarrow> bool" where "dfp_is_zero d \<longleftrightarrow> dfp_class d = Zero"

definition is_finite :: "dfp \<Rightarrow> bool" where
  "is_finite d \<longleftrightarrow> \<not> is_nan d \<and> \<not> is_infinite d"

definition dfp_neg :: "dfp \<Rightarrow> dfp" where
  "dfp_neg d = (if is_nan d then dfp_nan else d\<lparr>dfp_sign := \<not> dfp_sign d\<rparr>)"

definition is_structurally_canonical :: "dfp \<Rightarrow> bool" where
  "is_structurally_canonical d =
     (if is_nan d \<or> is_infinite d then False
      else case dfp_class d of
        Zero \<Rightarrow> True
      | Normal \<Rightarrow> dfp_mantissa d \<noteq> 0 \<and> dfp_exponent d \<ge> DFP_MIN_EXPONENT \<and> dfp_exponent d \<le> DFP_MAX_EXPONENT
      | _ \<Rightarrow> False)"

definition dfp_eq_ieee754 :: "dfp \<Rightarrow> dfp \<Rightarrow> bool" where
  "dfp_eq_ieee754 a b =
     (if dfp_class a \<noteq> dfp_class b then False
      else case dfp_class a of
        NaN \<Rightarrow> True
      | Zero \<Rightarrow> True
      | Infinity \<Rightarrow> dfp_sign a = dfp_sign b
      | Normal \<Rightarrow> dfp_mantissa a = dfp_mantissa b \<and> dfp_exponent a = dfp_exponent b \<and> dfp_sign a = dfp_sign b)"

definition dfp_eq :: "dfp \<Rightarrow> dfp \<Rightarrow> bool" where
  "dfp_eq a b =
     (if dfp_class a \<noteq> dfp_class b then False
      else case dfp_class a of
        Normal \<Rightarrow> dfp_mantissa a = dfp_mantissa b \<and> dfp_exponent a = dfp_exponent b \<and> dfp_sign a = dfp_sign b
      | Zero \<Rightarrow> True
      | Infinity \<Rightarrow> dfp_sign a = dfp_sign b
      | NaN \<Rightarrow> True)"

datatype hash_write = HashClass DfpClass | HashU128 u128 | HashI32 int | HashBool bool

definition dfp_hash :: "dfp \<Rightarrow> hash_write list" where
  "dfp_hash d = (case dfp_class d of
       Normal \<Rightarrow> [HashClass Normal, HashU128 (dfp_mantissa d), HashI32 (dfp_exponent d), HashBool (dfp_sign d)]
     | Infinity \<Rightarrow> [HashClass Infinity, HashBool (dfp_sign d)]
     | c \<Rightarrow> [HashClass c])"

definition dfp_min :: "dfp \<Rightarrow> dfp \<Rightarrow> dfp" where
  "dfp_min a b = (case dfp_total_cmp a b of Greater \<Rightarrow> b | _ \<Rightarrow> a)"

definition dfp_max :: "dfp \<Rightarrow> dfp \<Rightarrow> dfp" where
  "dfp_max a b = (case dfp_total_cmp a b of Less \<Rightarrow> b | _ \<Rightarrow> a)"

definition dfp_clamp :: "dfp \<Rightarrow> dfp \<Rightarrow> dfp \<Rightarrow> dfp" where
  "dfp_clamp d lo hi =
     (if is_nan d then lo
      else if dfp_total_cmp lo hi = Greater then lo
      else let below_lo = dfp_total_cmp d lo = Less; above_hi = dfp_total_cmp d hi = Greater in
        if below_lo then lo else if above_hi then hi else d)"

definition dfp_partial_cmp :: "dfp \<Rightarrow> dfp \<Rightarrow> ordering option" where
  "dfp_partial_cmp a b = (if is_nan a \<or> is_nan b then None else Some (dfp_total_cmp a b))"

definition dfp_lt :: "dfp \<Rightarrow> dfp \<Rightarrow> bool" where
  "dfp_lt a b \<longleftrightarrow> dfp_partial_cmp a b = Some Less"

definition dfp_le :: "dfp \<Rightarrow> dfp \<Rightarrow> bool" where
  "dfp_le a b \<longleftrightarrow> dfp_partial_cmp a b = Some Less \<or> dfp_partial_cmp a b = Some Equal"

definition dfp_gt :: "dfp \<Rightarrow> dfp \<Rightarrow> bool" where
  "dfp_gt a b \<longleftrightarrow> dfp_partial_cmp a b = Some Greater"

definition dfp_ge :: "dfp \<Rightarrow> dfp \<Rightarrow> bool" where
  "dfp_ge a b \<longleftrightarrow> dfp_partial_cmp a b = Some Greater \<or> dfp_partial_cmp a b = Some Equal"


subsection \<open>The contract of a total comparison\<close>

locale ord_contract =
  fixes cmp :: "'a \<Rightarrow> 'a \<Rightarrow> ordering"
  assumes cmp_refl: "cmp a a = Equal"
    and cmp_swap: "cmp b a = Less \<longleftrightarrow> cmp a b = Greater"
    and cmp_trans: "cmp a b \<noteq> Greater \<Longrightarrow> cmp b c \<noteq> Greater \<Longrightarrow> cmp a c \<noteq> Greater"
begin

lemma smaller_is_least:
  defines "least a b \<equiv> case cmp a b of Greater \<Rightarrow> b | _ \<Rightarrow> a"
  shows "cmp (least a b) a \<noteq> Greater" "cmp (least a b) b \<noteq> Greater"
  using cmp_refl cmp_swap by (auto simp: least_def split: ordering.split) (metis ordering.distinct)+

lemma larger_is_greatest:
  defines "greatest a b \<equiv> case cmp a b of Less \<Rightarrow> b | _ \<Rightarrow> a"
  shows "cmp a (greatest a b) \<noteq> Greater" "cmp b (greatest a b) \<noteq> Greater"
  using cmp_refl cmp_swap by (auto simp: greatest_def split: ordering.split) (metis ordering.distinct)+

lemma clamped_between:
  assumes "cmp lo hi \<noteq> Greater"
    and "r = (if cmp d lo = Less then lo else if cmp d hi = Greater then hi else d)"
  shows "cmp lo r \<noteq> Greater" "cmp r hi \<noteq> Greater"
  using assms cmp_refl cmp_swap [of d lo] cmp_swap [of lo d] by auto

end

text \<open>The comparison orders values by a lexicographic key.\<close>

definition total_key :: "dfp \<Rightarrow> nat \<times> nat \<times> int \<times> int" where
  "total_key d = (class_rank (dfp_class d), case dfp_class d of
       NaN \<Rightarrow> (0, 0, 0)
     | Normal \<Rightarrow> (if dfp_sign d then (0, - dfp_exponent d, - uint (dfp_mantissa d))
                 else (1, dfp_exponent d, uint (dfp_mantissa d)))
     | _ \<Rightarrow> (of_bool (\<not> dfp_sign d), 0, 0))"

lemma class_rank_eq [simp]: "class_rank c = class_rank c' \<longleftrightarrow> c = c'"
  by (cases c; cases c') simp_all

lemma dfp_total_cmp_key: "dfp_total_cmp a b = cmp_of (total_key a) (total_key b)"
proof (cases "dfp_class a = dfp_class b")
  case False
  then show ?thesis by (auto simp: dfp_total_cmp_def total_key_def cmp_of_def less_prod_def Let_def)
next
  case True
  then show ?thesis
    by (cases "dfp_class b")
      (auto simp: dfp_total_cmp_def total_key_def cmp_of_def ord_then_def less_prod_def Let_def
        word_less_def word_eq_iff_unsigned [where 'a = int])
qed

lemma cmp_of_contract: "ord_contract (\<lambda>a b. cmp_of (f a) (f b))"
  by unfold_locales (auto simp: cmp_of_def split: if_splits)

interpretation dfp_ord: ord_contract dfp_total_cmp
  using cmp_of_contract [of total_key] by (simp only: dfp_total_cmp_key [abs_def])

lemma dfp_total_cmp_Equal: "dfp_total_cmp a b = Equal \<longleftrightarrow> total_key a = total_key b"
  by (simp add: dfp_total_cmp_key cmp_of_def)

lemma dfp_eq_key: "dfp_eq a b \<longleftrightarrow> (dfp_class a = Zero \<and> dfp_class b = Zero) \<or> total_key a = total_key b"
  by (cases "dfp_class a"; cases "dfp_class b") (auto simp: dfp_eq_def total_key_def word_eq_iff_unsigned [where 'a = int])

subsection \<open>Values and canonical forms\<close>

declare of_nat_unat [simp del]

lemma word_of_unat [simp]: "(of_nat (unat w) :: 'a :: len word) = w"
  by (simp add: of_nat_unat)

definition dfp_real :: "dfp \<Rightarrow> real" where
  "dfp_real d = (if dfp_sign d then - 1 else 1) * real (unat (dfp_mantissa d)) * 2 powi dfp_exponent d"

definition norm_dfp :: "bool \<Rightarrow> nat \<Rightarrow> int \<Rightarrow> dfp" where
  "norm_dfp s n e =
     (if n = 0 then (if s then dfp_neg_zero else dfp_zero)
      else mk_dfp (of_nat (n div 2 ^ tz_nat n)) (e + int (tz_nat n)) Normal s)"

definition dfp_ok :: "dfp \<Rightarrow> bool" where
  "dfp_ok d = (case dfp_class d of
       Normal \<Rightarrow> odd (unat (dfp_mantissa d)) \<and> unat (dfp_mantissa d) < 2 ^ 113
                \<and> I32_MIN \<le> dfp_exponent d \<and> dfp_exponent d \<le> DFP_MAX_EXPONENT
     | Zero \<Rightarrow> dfp_mantissa d = 0 \<and> dfp_exponent d = 0
     | NaN \<Rightarrow> d = dfp_nan
     | Infinity \<Rightarrow> False)"

lemma mk_dfp_sel [simp]:
  "dfp_mantissa (mk_dfp m e c s) = m" "dfp_exponent (mk_dfp m e c s) = e"
  "dfp_class (mk_dfp m e c s) = c" "dfp_sign (mk_dfp m e c s) = s"
  "(mk_dfp m e c s)\<lparr>dfp_sign := s'\<rparr> = mk_dfp m e c s'"
  "(mk_dfp m e c s)\<lparr>dfp_class := c'\<rparr> = mk_dfp m e c' s"
  "(mk_dfp m e c s)\<lparr>dfp_mantissa := m', dfp_exponent := e'\<rparr> = mk_dfp m' e' c s"
  by (simp_all add: mk_dfp_def)

lemma mk_dfp_eq [simp]: "mk_dfp m e c s = mk_dfp m' e' c' s' \<longleftrightarrow> m = m' \<and> e = e' \<and> c = c' \<and> s = s'"
  by (auto simp: mk_dfp_def)

lemma dfp_collapse: "mk_dfp (dfp_mantissa d) (dfp_exponent d) (dfp_class d) (dfp_sign d) = d"
  by (simp add: mk_dfp_def)

lemmas dfp_constants = dfp_nan_def dfp_zero_def dfp_neg_zero_def dfp_infinity_def dfp_neg_infinity_def
  DFP_MAX_def DFP_MIN_def

lemma dfp_normalize_mk:
  assumes "m \<noteq> 0" "i32_range (e + int (tz_nat (unat m)))"
  shows "dfp_normalize (mk_dfp m e Normal s) = norm_dfp s (unat m) e"
proof -
  have nz: "unat m \<noteq> 0" using assms(1) by (simp add: unat_eq_0)
  have tz: "tz128 m = tz_nat (unat m)" using assms(1) by (simp add: tz128_def)
  then have "unat (shr128 m (tz128 m)) = unat m div 2 ^ tz_nat (unat m)"
    using tz128_less [OF assms(1)] by (simp add: unat_shr128)
  then have "shr128 m (tz128 m) = of_nat (unat m div 2 ^ tz_nat (unat m))" by (metis of_nat_unat ucast_id)
  then show ?thesis using assms nz tz by (simp add: dfp_normalize_def norm_dfp_def Let_def)
qed

lemma power_int_shift: "(2 :: real) powi (e + int k) = 2 powi e * 2 ^ k"
  by (simp add: power_int_add)

lemma dfp_real_norm: "n < WB \<Longrightarrow> dfp_real (norm_dfp s n e) = (if s then - 1 else 1) * real n * 2 powi e"
proof (cases "n = 0")
  case False
  assume n: "n < WB"
  have "unat (of_nat (n div 2 ^ tz_nat n) :: u128) = n div 2 ^ tz_nat n" using n by (rule unat_of_nat_div)
  moreover have "real n = 2 ^ tz_nat n * real (n div 2 ^ tz_nat n)"
    using tz_nat_split [OF False] by (metis of_nat_mult of_nat_numeral of_nat_power)
  ultimately show ?thesis
    using False by (simp add: norm_dfp_def dfp_real_def power_int_shift)
qed (simp add: norm_dfp_def dfp_real_def dfp_constants)

lemma norm_dfp_odd: "odd (unat (m :: u128)) \<Longrightarrow> norm_dfp s (unat m) e = mk_dfp m e Normal s"
  by (auto simp: norm_dfp_def)

lemma norm_dfp_ok:
  assumes "n < 2 ^ 113" "I32_MIN \<le> e" "e + int (tz_nat n) \<le> DFP_MAX_EXPONENT"
  shows "dfp_ok (norm_dfp s n e)"
proof (cases "n = 0")
  case False
  have "n div 2 ^ tz_nat n \<le> n" by simp
  then have lt: "n div 2 ^ tz_nat n < 2 ^ 113" using assms(1) by linarith
  then have "unat (of_nat (n div 2 ^ tz_nat n) :: u128) = n div 2 ^ tz_nat n"
    using assms(1) by (intro unat_of_nat_div) simp
  then show ?thesis using lt assms tz_nat_split [OF False] False by (simp add: dfp_ok_def norm_dfp_def)
qed (simp add: dfp_ok_def norm_dfp_def dfp_constants)

text \<open>The canonical form is unique: finite values with equal magnitudes and signs are equal.\<close>

lemma odd_scale_unique:
  fixes m n :: nat
  assumes "odd m" "odd n" "real m * 2 powi d = real n * 2 powi e"
  shows "m = n \<and> d = e"
proof -
  have "m = n \<and> d = e" if "d \<le> e" "odd m" "odd n" "real m * 2 powi d = real n * 2 powi e" for m n :: nat and d e
  proof -
    define k where "k = nat (e - d)"
    then have "e = d + int k" using that(1) by simp
    then have "real m = real n * 2 ^ k" using that(4) by (simp add: power_int_shift)
    then have "m = n * 2 ^ k" by (metis of_nat_eq_iff of_nat_mult of_nat_numeral of_nat_power)
    then have "k = 0" using that(2) by (cases k) simp_all
    then show ?thesis using \<open>m = n * 2 ^ k\<close> \<open>e = d + int k\<close> by simp
  qed
  from this [of d e m n] this [of e d n m] assms show ?thesis by (cases "d \<le> e") auto
qed

subsection \<open>Conversions\<close>

lemma unat_of_abs_i64: "i64_range v \<Longrightarrow> unat (word_of_int \<bar>v\<bar> :: u64) = nat \<bar>v\<bar>"
  by (auto simp: i64_range_def unat_eq_nat_uint uint_word_of_int)

lemma dfp_from_i64_norm:
  assumes "i64_range v"
  shows "dfp_from_i64 v = norm_dfp (v < 0) (nat \<bar>v\<bar>) 0"
proof -
  have tz: "i32_range (0 + int (tz_nat (unat (m :: u128))))" if "m \<noteq> 0" for m
    using tz128_less [OF that] that by (simp add: tz128_def i32_range_def)
  show ?thesis
  proof (cases "v = 0 \<or> v = I64_MIN")
    case True
    moreover have "unat (shl128 1 63) = 9223372036854775808" by (simp add: unat_shl128_1)
    moreover from this have "shl128 1 63 \<noteq> 0" by (metis unat_0 zero_neq_numeral)
    ultimately show ?thesis
      using dfp_normalize_mk [OF _ tz, of "shl128 1 63" True]
      by (auto simp: dfp_from_i64_def norm_dfp_def [of _ 0])
  next
    case False
    let ?w = "ucast (word_of_int \<bar>v\<bar> :: u64) :: u128"
    have u: "unat ?w = nat \<bar>v\<bar>" using unat_of_abs_i64 [OF assms] by simp
    then have "unat ?w \<noteq> 0" using False by simp
    then have "?w \<noteq> 0" by (metis unat_0)
    then show ?thesis
      using False u dfp_normalize_mk [OF _ tz, of ?w "v < 0"] by (simp add: dfp_from_i64_def Let_def)
  qed
qed

abbreviation f64_negative :: "u64 \<Rightarrow> bool" where "f64_negative b \<equiv> 9223372036854775808 \<le> unat b"
abbreviation f64_exp_field :: "u64 \<Rightarrow> nat" where "f64_exp_field b \<equiv> unat b div 4503599627370496 mod 2048"
abbreviation f64_frac_field :: "u64 \<Rightarrow> nat" where "f64_frac_field b \<equiv> unat b mod 4503599627370496"

lemma unat_and_frac: "unat (b AND 4503599627370495 :: u64) = f64_frac_field b"
proof -
  have "b AND 4503599627370495 = take_bit 52 b" by (simp add: take_bit_eq_mask mask_eq_exp_minus_1)
  then show ?thesis by (simp only: unsigned_take_bit_eq) (simp add: take_bit_eq_mod)
qed

lemma unat_exp_field: "unat (shr64 b 52 AND 2047) = f64_exp_field b"
proof -
  have "shr64 b 52 AND 2047 = take_bit 11 (shr64 b 52)" by (simp add: take_bit_eq_mask mask_eq_exp_minus_1)
  then show ?thesis by (simp only: unsigned_take_bit_eq) (simp add: take_bit_eq_mod unat_shr64)
qed

lemma f64_negative_bit: "shr64 b 63 \<noteq> 0 \<longleftrightarrow> f64_negative b"
proof -
  have "shr64 b 63 = 0 \<longleftrightarrow> unat (shr64 b 63) = 0" by (simp only: unat_eq_0)
  also have "unat (shr64 b 63) = unat b div 9223372036854775808" by (simp add: unat_shr64)
  finally show ?thesis by (simp add: div_eq_0_iff not_less)
qed

lemma f64_fields:
  "unat b = of_bool (f64_negative b) * 9223372036854775808 + f64_exp_field b * 4503599627370496 + f64_frac_field b"
proof -
  have "unat b div 4503599627370496 = unat b div 4503599627370496 div 2048 * 2048 + f64_exp_field b" by simp
  moreover have "unat b div 4503599627370496 div 2048 = of_bool (f64_negative b)"
  proof -
    have "unat b div 4503599627370496 div 2048 = unat b div 9223372036854775808"
      by (simp flip: div_mult2_eq)
    also have "\<dots> = of_bool (f64_negative b)"
      using unat_u64_less [of b] by (cases "f64_negative b") (simp_all add: div_eq_0_iff le_div_geq)
    finally show ?thesis .
  qed
  ultimately have "unat b div 4503599627370496 = of_bool (f64_negative b) * 2048 + f64_exp_field b" by simp
  then have "unat b = (of_bool (f64_negative b) * 2048 + f64_exp_field b) * 4503599627370496 + f64_frac_field b"
    using div_mult_mod_eq [of "unat b" 4503599627370496] by metis
  then show ?thesis by (simp only: distrib_right mult.assoc mult_numeral_1)
qed

text \<open>The significand of a normal or subnormal \<open>f64\<close> and the power of two it is scaled with.\<close>

definition f64_significand :: "u64 \<Rightarrow> nat" where
  "f64_significand b = (if f64_exp_field b = 0 then f64_frac_field b else f64_frac_field b + 4503599627370496)"

definition f64_scale :: "u64 \<Rightarrow> int" where
  "f64_scale b = (if f64_exp_field b = 0 then - 1074 else int (f64_exp_field b) - 1075)"

lemma tz_u128_i32: "(m :: u128) \<noteq> 0 \<Longrightarrow> - 1000000 \<le> e \<Longrightarrow> e \<le> 1000000 \<Longrightarrow> i32_range (e + int (tz_nat (unat m)))"
  using tz128_less [of m] by (simp add: tz128_def i32_range_def)

lemma dfp_from_f64_norm:
  assumes "f64_exp_field b \<noteq> 2047"
  shows "dfp_from_f64 b = norm_dfp (f64_negative b) (f64_significand b) (f64_scale b)"
proof -
  let ?m = "ucast (b AND 4503599627370495) :: u128"
  have m: "unat ?m = f64_frac_field b" by (simp add: unat_and_frac)
  have e: "shr64 b 52 AND 2047 \<noteq> 2047" "shr64 b 52 AND 2047 = 0 \<longleftrightarrow> f64_exp_field b = 0"
    using assms unat_exp_field [of b] by (auto simp: unat_eq_0 [symmetric])
  have z: "b AND 4503599627370495 = 0 \<longleftrightarrow> f64_frac_field b = 0"
    by (simp add: unat_eq_0 [symmetric] unat_and_frac)
  show ?thesis
  proof (cases "f64_exp_field b = 0")
    case True
    have "?m \<noteq> 0" if "f64_frac_field b \<noteq> 0" using that m by (metis unat_0)
    then show ?thesis
      using e z True m dfp_normalize_mk [of ?m "- 1074" "f64_negative b", OF _ tz_u128_i32]
      by (auto simp: dfp_from_f64_def f64_negative_bit f64_significand_def f64_scale_def norm_dfp_def [of _ 0] Let_def)
  next
    case False
    let ?w = "?m OR shl128 1 52"
    have w: "unat ?w = f64_significand b"
      using False by (subst unat_or_disjoint(1) [of _ 52]) (simp_all add: unat_and_frac unat_shl128_1 f64_significand_def)
    then have "?w \<noteq> 0" using False by (auto simp: f64_significand_def)
    then have "i32_range (int (f64_exp_field b) - 1075 + int (tz_nat (unat ?w)))" by (rule tz_u128_i32) simp_all
    with \<open>?w \<noteq> 0\<close> have "dfp_normalize (mk_dfp ?w (int (f64_exp_field b) - 1075) Normal (f64_negative b))
      = norm_dfp (f64_negative b) (f64_significand b) (f64_scale b)"
      using False w by (simp add: dfp_normalize_mk f64_scale_def)
    then show ?thesis
      using e False by (simp add: dfp_from_f64_def f64_negative_bit unat_exp_field Let_def)
  qed
qed

lemma f64_exp_bits:
  assumes "E < 2048"
  shows "unat (shl64 (of_nat E) 52 AND F64_EXP_MASK) = E * 4503599627370496"
proof -
  have E: "unat (of_nat E :: u64) = E" using assms by (simp add: unat_of_nat)
  have "(of_nat E :: u64) AND 2047 = take_bit 11 (of_nat E)" by (simp add: take_bit_eq_mask mask_eq_exp_minus_1)
  also have "\<dots> = of_nat E"
    using assms by (intro unsigned_word_eqI [where 'a = nat])
      (simp only: unsigned_take_bit_eq E, simp add: take_bit_nat_eq_self)
  finally have a: "(of_nat E :: u64) AND 2047 = of_nat E" .
  have "F64_EXP_MASK = push_bit 52 2047" by (simp add: F64_EXP_MASK_def)
  then have "shl64 (of_nat E) 52 AND F64_EXP_MASK = shl64 (of_nat E) 52"
    using push_bit_and [of 52 "of_nat E :: u64" 2047] a by (simp add: shl64_def)
  then show ?thesis using assms E by (simp add: unat_shl64)
qed

lemma f64_assemble:
  assumes "unat e = E * 4503599627370496" "E < 2048" "unat k < 4503599627370496"
  shows "unat (if s then F64_SIGN_BIT OR e OR k else e OR k) = of_bool s * 9223372036854775808 + unat e + unat k"
proof -
  have ek: "unat (e OR k) = unat e + unat k" using assms by (intro unat_or_disjoint(2) [of _ 52]) simp_all
  moreover have "unat (F64_SIGN_BIT OR (e OR k)) = unat F64_SIGN_BIT + unat (e OR k)"
    using assms ek by (intro unat_or_disjoint(2) [of _ 63]) (simp_all add: F64_SIGN_BIT_def)
  ultimately show ?thesis by (simp add: or.assoc F64_SIGN_BIT_def)
qed

lemma unat_keep_mask: "unat (x AND F64_KEEP_MASK) = unat x mod 4503599627370496"
  by (simp add: F64_KEEP_MASK_def unat_and_frac)

lemma u128_to_f64_bits_exact:
  assumes n: "4503599627370496 \<le> n" "n < 9007199254740992" and E: "0 < E" "E < 2047"
  defines "t \<equiv> tz_nat n"
  shows "unat (u128_to_f64_bits (of_nat (n div 2 ^ t)) (int E - 1075 + int t) s)
    = of_bool s * 9223372036854775808 + E * 4503599627370496 + (n - 4503599627370496)"
proof -
  define m :: u128 where "m = of_nat (n div 2 ^ t)"
  have nt: "2 ^ t * (n div 2 ^ t) = n" "t < 53"
    using n tz_nat_split [of n] tz_nat_less [of n 53] by (simp_all add: t_def)
  have m: "unat m = n div 2 ^ t" unfolding m_def using n(2) by (intro unat_of_nat_div) simp
  have "bit_width n = 53" using bit_width_unique [of 52 n] n by simp
  then have w: "bit_width (unat m) = 53 - t" by (simp add: m bit_width_div)
  then have msb: "127 - int (lz128 m) = 52 - int t" using nt(2) by (simp add: lz128_def)
  have nz: "m \<noteq> 0" using w nt(2) by auto
  have kept: "f64_kept m (52 - int t) = (of_nat (n - 4503599627370496), 0)"
  proof (cases "t = 0")
    case True
    have "unat (ucast (shr128 m 0) AND F64_KEEP_MASK :: u64) = n - 4503599627370496"
      using n True m by (simp add: unat_keep_mask unat_shr128 le_mod_geq)
    then show ?thesis using True by (simp add: f64_kept_def Let_def word_unat_eq_iff unat_of_nat) (use n in simp)
  next
    case False
    have "unat (shl64 (ucast m) t AND F64_KEEP_MASK) = n - 4503599627370496"
      using n nt m by (simp add: unat_keep_mask unat_shl64 le_mod_geq mod_mult_right_eq)
    then show ?thesis using False by (simp add: f64_kept_def Let_def word_unat_eq_iff unat_of_nat) (use n in simp)
  qed
  have "as_i32 (52 - int t + (int E - 1075 + int t)) = int E - 1023"
    and "as_i32 (int E - 1023 + 1023) = int E" using E by (simp_all add: as_i32_def)
  moreover define e k where "e = shl64 (of_nat E) 52 AND F64_EXP_MASK" and "k = (of_nat (n - 4503599627370496) :: u64)"
  ultimately have "u128_to_f64_bits m (int E - 1075 + int t) s = (if s then F64_SIGN_BIT OR e OR k else e OR k)"
    using nz E kept by (simp add: u128_to_f64_bits_def msb Let_def flip: k_def e_def)
  moreover have "unat k = n - 4503599627370496" unfolding k_def using n by (subst unat_of_nat) simp
  moreover have "unat e = E * 4503599627370496" unfolding e_def using E by (intro f64_exp_bits) simp
  ultimately show ?thesis using n E f64_assemble [of e E k s] by (simp flip: m_def)
qed

lemma norm_dfp_to_f64:
  assumes "4503599627370496 \<le> n" "n < 9007199254740992" "0 < E" "E < 2047"
  shows "unat (dfp_to_f64 (norm_dfp s n (int E - 1075)))
    = of_bool s * 9223372036854775808 + E * 4503599627370496 + (n - 4503599627370496)"
  using u128_to_f64_bits_exact [OF assms, of s] assms by (simp add: dfp_to_f64_def norm_dfp_def)

subsection \<open>The encoding\<close>

lemma class_sign_fields:
  defines "cs c s \<equiv> push_bit 24 (class_code c) OR push_bit 16 (of_bool s)"
  shows "drop_bit 24 (cs c s) AND 255 = class_code c" "drop_bit 16 (cs c s) AND 1 = of_bool s"
  by (cases c; cases s; simp add: cs_def)+

lemma to_dfp_from_dfp: "to_dfp (from_dfp d) = d"
  using class_sign_fields [of "dfp_class d" "dfp_sign d"]
  by (cases "dfp_class d") (auto simp: to_dfp_def from_dfp_def mk_dfp_def Let_def)

lemma as_i32_mod: "as_i32 (x mod 4294967296) = as_i32 x"
  by (simp add: as_i32_def mod_add_left_eq)

lemma dfp_from_to_bytes:
  assumes "i32_range (enc_exponent e)"
  shows "dfp_from_bytes (dfp_to_bytes e) = e"
proof -
  have "uint (enc_mantissa e) mod 256 ^ 16 = uint (enc_mantissa e)"
    and "uint (enc_class_sign e) mod 256 ^ 4 = uint (enc_class_sign e)"
    using uint_bounded [of "enc_mantissa e"] uint_bounded [of "enc_class_sign e"] by simp_all
  then show ?thesis
    using assms by (simp add: dfp_from_bytes_def dfp_to_bytes_def of_be_be_bytes as_i32_mod)
qed

lemma dfp_decode_encode:
  assumes "i32_range (dfp_exponent d)"
  shows "to_dfp (dfp_from_bytes (dfp_to_bytes (from_dfp d))) = d"
proof -
  have "enc_exponent (from_dfp d) = dfp_exponent d" by (simp add: from_dfp_def Let_def)
  then show ?thesis using dfp_from_to_bytes [of "from_dfp d"] assms by (simp add: to_dfp_from_dfp)
qed

lemma dfp_bytes_inj:
  "i32_range (dfp_exponent x) \<Longrightarrow> i32_range (dfp_exponent y) \<Longrightarrow>
   dfp_to_bytes (from_dfp x) = dfp_to_bytes (from_dfp y) \<Longrightarrow> x = y"
  using dfp_decode_encode by metis

subsection \<open>Properties\<close>

lemma f64_significand_less: "f64_significand b < 9007199254740992"
proof -
  have "f64_frac_field b < 4503599627370496" by simp
  then show ?thesis by (auto simp: f64_significand_def intro: less_trans)
qed

lemma f64_scale_bounds: "f64_exp_field b \<noteq> 2047 \<Longrightarrow> - 1074 \<le> f64_scale b \<and> f64_scale b \<le> 971"
proof -
  assume "f64_exp_field b \<noteq> 2047"
  moreover have "f64_exp_field b < 2048" by simp
  ultimately show ?thesis by (cases "f64_exp_field b = 0") (simp_all add: f64_scale_def)
qed

lemma dfp_from_f64_ok: "f64_exp_field b \<noteq> 2047 \<Longrightarrow> dfp_ok (dfp_from_f64 b)"
proof -
  assume b: "f64_exp_field b \<noteq> 2047"
  have "tz_nat (f64_significand b) \<le> 52"
    using tz_nat_less [of "f64_significand b" 53] f64_significand_less [of b]
    by (cases "f64_significand b = 0") simp_all
  then show ?thesis
    using f64_significand_less [of b] f64_scale_bounds [OF b]
    by (auto simp: dfp_from_f64_norm [OF b] DFP_MAX_EXPONENT_def intro!: norm_dfp_ok)
qed

lemma dfp_from_f64_special:
  assumes "f64_exp_field b = 2047"
  shows "dfp_from_f64 b = (if f64_frac_field b \<noteq> 0 then dfp_nan
    else if f64_negative b then dfp_neg_infinity else dfp_infinity)"
proof -
  have "shr64 b 52 AND 2047 = 2047"
    using assms unat_exp_field [of b] by (intro unsigned_word_eqI [where 'a = nat]) simp
  moreover have "b AND 4503599627370495 = 0 \<longleftrightarrow> f64_frac_field b = 0"
    by (simp add: unat_eq_0 [symmetric] unat_and_frac)
  ultimately show ?thesis by (simp add: dfp_from_f64_def f64_negative_bit Let_def)
qed

text \<open>\<open>from_i64\<close> and \<open>from_f64\<close> are exact: the canonical value equals the integer, respectively the
  number that the bit pattern of a finite \<open>f64\<close> stands for; NaN and the infinities keep their class.\<close>

theorem dfp_conversions_exact:
  "(i64_range v \<longrightarrow> dfp_ok (dfp_from_i64 v) \<and> dfp_real (dfp_from_i64 v) = of_int v)
   \<and> (f64_exp_field b \<noteq> 2047 \<longrightarrow>
      dfp_ok (dfp_from_f64 b) \<and>
      dfp_real (dfp_from_f64 b) = (if f64_negative b then - 1 else 1) * real (f64_significand b) * 2 powi f64_scale b)
   \<and> (f64_exp_field b = 2047 \<longrightarrow>
      dfp_from_f64 b = (if f64_frac_field b \<noteq> 0 then dfp_nan
        else if f64_negative b then dfp_neg_infinity else dfp_infinity))"
proof (intro conjI impI)
  assume v: "i64_range v"
  then have n: "nat \<bar>v\<bar> \<le> 9223372036854775808" by (auto simp: i64_range_def)
  then have "tz_nat (nat \<bar>v\<bar>) < 64"
    using tz_nat_less [of "nat \<bar>v\<bar>" 64] by (cases "nat \<bar>v\<bar> = 0") simp_all
  then show "dfp_ok (dfp_from_i64 v)"
    using n by (auto simp: dfp_from_i64_norm [OF v] DFP_MAX_EXPONENT_def intro!: norm_dfp_ok)
  show "dfp_real (dfp_from_i64 v) = of_int v"
    using n by (simp add: dfp_from_i64_norm [OF v] dfp_real_norm)
next
  assume b: "f64_exp_field b \<noteq> 2047"
  then show "dfp_ok (dfp_from_f64 b)" by (rule dfp_from_f64_ok)
  show "dfp_real (dfp_from_f64 b) = (if f64_negative b then - 1 else 1) * real (f64_significand b) * 2 powi f64_scale b"
    using f64_significand_less [of b] by (simp add: dfp_from_f64_norm [OF b] dfp_real_norm)
qed (rule dfp_from_f64_special)

theorem dfp_conversions_exact_witness:
  "dfp_ok (dfp_from_i64 (- 12)) \<and> dfp_real (dfp_from_i64 (- 12)) = - 12
   \<and> dfp_real (dfp_from_f64 13830554455654793216) = - (4503599627370496 * (1 / 2) ^ 52)
   \<and> dfp_from_f64 18442240474082181120 = dfp_neg_infinity"
  using dfp_conversions_exact [of "- 12" 13830554455654793216] dfp_conversions_exact [of 0 18442240474082181120]
  by (simp add: i64_range_def f64_significand_def f64_scale_def power_int_def)

text \<open>A finite \<open>f64\<close> outside the subnormal range, a zero or an infinity comes back unchanged from
  the conversion to \<open>Dfp\<close> and back.\<close>

theorem dfp_f64_round_trip:
  assumes "0 < f64_exp_field b \<or> f64_frac_field b = 0" "f64_exp_field b = 2047 \<Longrightarrow> f64_frac_field b = 0"
  shows "dfp_to_f64 (dfp_from_f64 b) = b"
proof -
  have u: "unat b = of_bool (f64_negative b) * 9223372036854775808 + f64_exp_field b * 4503599627370496 + f64_frac_field b"
    by (rule f64_fields)
  have lt: "f64_frac_field b < 4503599627370496" "f64_exp_field b < 2048" by simp_all
  consider "f64_exp_field b = 2047" "f64_frac_field b = 0" | "f64_exp_field b = 0" "f64_frac_field b = 0"
    | "0 < f64_exp_field b" "f64_exp_field b < 2047" using assms lt by linarith
  then show ?thesis
  proof cases
    case 1
    then have "unat (dfp_to_f64 (dfp_from_f64 b)) = unat b"
      using u dfp_from_f64_special [OF 1(1)]
      by (cases "f64_negative b") (simp_all add: dfp_to_f64_def dfp_constants F64_SIGN_BIT_def F64_EXP_MASK_def)
    then show ?thesis by (rule unsigned_word_eqI)
  next
    case 2
    then have "unat (dfp_to_f64 (dfp_from_f64 b)) = unat b"
      using u dfp_from_f64_norm [of b]
      by (cases "f64_negative b") (simp_all add: dfp_to_f64_def dfp_constants F64_SIGN_BIT_def norm_dfp_def f64_significand_def)
    then show ?thesis by (rule unsigned_word_eqI)
  next
    case 3
    then have "unat (dfp_to_f64 (dfp_from_f64 b)) = unat b"
      using u dfp_from_f64_norm [of b] f64_significand_less [of b]
        norm_dfp_to_f64 [of "f64_significand b" "f64_exp_field b" "f64_negative b"]
      by (simp add: f64_scale_def f64_significand_def)
    then show ?thesis by (rule unsigned_word_eqI)
  qed
qed

theorem dfp_f64_round_trip_witness: "dfp_to_f64 (dfp_from_f64 4607182418800017408) = 4607182418800017408"
  using dfp_f64_round_trip [of 4607182418800017408] by simp

text \<open>A subnormal \<open>f64\<close> does not come back: the shift of \<open>u128_to_f64_bits\<close> counts the bits of the
  mantissa twice, so that three times the smallest positive \<open>f64\<close> returns as six times it.\<close>

theorem dfp_subnormal_doubled:
  "dfp_from_f64 3 = mk_dfp 3 (- 1074) Normal False \<and> dfp_to_f64 (dfp_from_f64 3) = 6"
proof -
  have "dfp_from_f64 3 = mk_dfp 3 (- 1074) Normal False"
    using dfp_from_f64_norm [of 3] by (simp add: f64_significand_def f64_scale_def norm_dfp_def)
  moreover have "lz128 3 = 126" by (simp add: lz128_def bit_width.simps)
  ultimately show ?thesis
    by (simp add: dfp_to_f64_def u128_to_f64_bits_def as_i32_def shl64_def F64_KEEP_MASK_def Let_def)
qed

text \<open>The 24 byte encoding is 24 bytes long, decodes to the value it was made from, keeps apart
  everything that differs in a field, and an unknown class tag decodes as NaN.\<close>

theorem dfp_encoding_round_trip:
  "length (dfp_to_bytes (from_dfp d)) = 24
   \<and> (i32_range (dfp_exponent d) \<longrightarrow> to_dfp (dfp_from_bytes (dfp_to_bytes (from_dfp d))) = d)
   \<and> (i32_range (dfp_exponent d) \<and> i32_range (dfp_exponent d') \<longrightarrow>
       dfp_to_bytes (from_dfp d) = dfp_to_bytes (from_dfp d') \<longrightarrow> d = d')
   \<and> (unat (drop_bit 24 (enc_class_sign e)) \<ge> 4 \<longrightarrow> dfp_class (to_dfp e) = NaN)"
proof (intro conjI impI)
  show "i32_range (dfp_exponent d) \<Longrightarrow> to_dfp (dfp_from_bytes (dfp_to_bytes (from_dfp d))) = d" by (rule dfp_decode_encode)
  show "d = d'" if "i32_range (dfp_exponent d) \<and> i32_range (dfp_exponent d')"
    and "dfp_to_bytes (from_dfp d) = dfp_to_bytes (from_dfp d')" using dfp_bytes_inj that by blast
  show "dfp_class (to_dfp e) = NaN" if "unat (drop_bit 24 (enc_class_sign e)) \<ge> 4"
  proof -
    have "unat (drop_bit 24 (enc_class_sign e)) < 256"
      using unsigned_less [of "enc_class_sign e", where ?'a = nat]
      by (simp only: unat_drop_bit_eq) (simp add: drop_bit_eq_div less_mult_imp_div_less)
    moreover have "x AND 255 = take_bit 8 x" for x :: nat by (simp add: take_bit_eq_mask mask_eq_exp_minus_1)
    ultimately have "drop_bit 24 (enc_class_sign e) AND 255 = drop_bit 24 (enc_class_sign e)"
      by (simp add: word_eq_iff_unsigned [where 'a = nat] unsigned_and_eq take_bit_nat_eq_self)
    then show ?thesis using that by (auto simp: to_dfp_def Let_def)
  qed
qed (simp add: dfp_to_bytes_def)

theorem dfp_encoding_round_trip_witness:
  "to_dfp (dfp_from_bytes (dfp_to_bytes (from_dfp (mk_dfp 5 (- 7) Normal True)))) = mk_dfp 5 (- 7) Normal True
   \<and> dfp_class (to_dfp \<lparr>enc_mantissa = 1, enc_exponent = 0, enc_class_sign = 67108864\<rparr>) = NaN"
  using dfp_encoding_round_trip [of "mk_dfp 5 (- 7) Normal True" "mk_dfp 5 (- 7) Normal True"
      "\<lparr>enc_mantissa = 1, enc_exponent = 0, enc_class_sign = 67108864\<rparr>"]
  by (simp add: i32_range_def)

lemma dfp_operators:
  "dfp_lt a b \<longleftrightarrow> \<not> is_nan a \<and> \<not> is_nan b \<and> dfp_total_cmp a b = Less"
  "dfp_gt a b \<longleftrightarrow> \<not> is_nan a \<and> \<not> is_nan b \<and> dfp_total_cmp b a = Less"
  "dfp_le a b \<longleftrightarrow> \<not> is_nan a \<and> \<not> is_nan b \<and> dfp_total_cmp a b \<noteq> Greater"
  "dfp_ge a b \<longleftrightarrow> \<not> is_nan a \<and> \<not> is_nan b \<and> dfp_total_cmp b a \<noteq> Greater"
  using dfp_ord.cmp_swap [of a b] dfp_ord.cmp_swap [of b a]
  by (cases "dfp_total_cmp a b"; cases "dfp_total_cmp b a";
      auto simp: dfp_lt_def dfp_le_def dfp_gt_def dfp_ge_def dfp_partial_cmp_def)+

text \<open>C38: The order of \<open>Dfp\<close> is a total preorder that keeps Rust's contract of \<open>Ord\<close>. \<open>min\<close> and \<open>max\<close> return the
  operand that is least and greatest, \<open>clamp\<close> returns the value or a bound, stays between ordered bounds and
  leaves values between them alone. The operators \<open><\<close>, \<open><=\<close>, \<open>>\<close> and \<open>>=\<close> are those of the order: all are
  false when an operand is NaN; otherwise they are what the comparison says, and exactly one of \<open>a < b\<close> and
  \<open>a >= b\<close> holds. Equality and \<open>Hash\<close> agree, and \<open>eq_ieee754\<close> is the same equality.\<close>

theorem dfp_order_contract:
  "(dfp_total_cmp b a = Less \<longleftrightarrow> dfp_total_cmp a b = Greater)
   \<and> (dfp_total_cmp a b \<noteq> Greater \<and> dfp_total_cmp b c \<noteq> Greater \<longrightarrow> dfp_total_cmp a c \<noteq> Greater)
   \<and> dfp_total_cmp (dfp_min a b) a \<noteq> Greater \<and> dfp_total_cmp (dfp_min a b) b \<noteq> Greater
   \<and> dfp_total_cmp a (dfp_max a b) \<noteq> Greater \<and> dfp_total_cmp b (dfp_max a b) \<noteq> Greater
   \<and> dfp_min a b \<in> {a, b} \<and> dfp_max a b \<in> {a, b}
   \<and> (dfp_total_cmp lo hi \<noteq> Greater \<longrightarrow> dfp_clamp d lo hi \<in> {d, lo, hi} \<and>
       dfp_total_cmp lo (dfp_clamp d lo hi) \<noteq> Greater \<and> dfp_total_cmp (dfp_clamp d lo hi) hi \<noteq> Greater)
   \<and> (\<not> is_nan d \<and> dfp_total_cmp lo d \<noteq> Greater \<and> dfp_total_cmp d hi \<noteq> Greater \<longrightarrow> dfp_clamp d lo hi = d)
   \<and> (dfp_eq a b \<longleftrightarrow> dfp_hash a = dfp_hash b) \<and> dfp_eq_ieee754 a b = dfp_eq a b
   \<and> (dfp_lt a b \<longleftrightarrow> \<not> is_nan a \<and> \<not> is_nan b \<and> dfp_total_cmp a b = Less)
   \<and> (dfp_le a b \<longleftrightarrow> \<not> is_nan a \<and> \<not> is_nan b \<and> dfp_total_cmp a b \<noteq> Greater)
   \<and> (dfp_gt a b \<longleftrightarrow> dfp_lt b a) \<and> (dfp_ge a b \<longleftrightarrow> dfp_le b a)
   \<and> (\<not> is_nan a \<and> \<not> is_nan b \<longrightarrow> (dfp_lt a b \<longleftrightarrow> \<not> dfp_ge a b) \<and> (dfp_gt a b \<longleftrightarrow> \<not> dfp_le a b))"
proof (intro conjI impI)
  show "dfp_total_cmp a c \<noteq> Greater" if "dfp_total_cmp a b \<noteq> Greater \<and> dfp_total_cmp b c \<noteq> Greater"
    using that dfp_ord.cmp_trans by blast
  assume lh: "dfp_total_cmp lo hi \<noteq> Greater"
  have "dfp_clamp d lo hi = lo \<or> dfp_clamp d lo hi
    = (if dfp_total_cmp d lo = Less then lo else if dfp_total_cmp d hi = Greater then hi else d)"
    using lh by (simp add: dfp_clamp_def Let_def)
  then show "dfp_total_cmp lo (dfp_clamp d lo hi) \<noteq> Greater" "dfp_total_cmp (dfp_clamp d lo hi) hi \<noteq> Greater"
    using dfp_ord.clamped_between [OF lh] lh dfp_ord.cmp_refl by (metis ordering.distinct)+
  show "dfp_clamp d lo hi \<in> {d, lo, hi}" by (simp add: dfp_clamp_def Let_def)
next
  assume d: "\<not> is_nan d \<and> dfp_total_cmp lo d \<noteq> Greater \<and> dfp_total_cmp d hi \<noteq> Greater"
  then have "dfp_total_cmp lo hi \<noteq> Greater" using dfp_ord.cmp_trans by blast
  then show "dfp_clamp d lo hi = d"
    using d dfp_ord.cmp_swap [of d lo] by (auto simp: dfp_clamp_def Let_def)
qed (auto simp: dfp_min_def dfp_max_def dfp_ord.cmp_swap dfp_ord.smaller_is_least dfp_ord.larger_is_greatest
    dfp_eq_def dfp_hash_def dfp_eq_ieee754_def dfp_operators split: DfpClass.splits ordering.splits if_splits)

theorem dfp_order_contract_witness:
  "let n = (\<lambda>m. mk_dfp m 0 Normal False) in
   dfp_clamp (n 3) (n 1) (n 5) = n 3 \<and> dfp_clamp (n 3) (n 5) (n 7) \<in> {n 3, n 5, n 7}
   \<and> dfp_lt (n 1) (n 3) \<and> dfp_le (n 1) (n 3) \<and> \<not> dfp_ge (n 1) (n 3) \<and> dfp_gt (n 3) (n 1)"
proof -
  let ?n = "\<lambda>m. mk_dfp m 0 Normal False"
  have c: "dfp_total_cmp (?n x) (?n y) = cmp_of (uint x) (uint y)" "\<not> is_nan (?n x)" for x y
    by (auto simp: dfp_total_cmp_def is_nan_def cmp_of_def ord_then_def word_less_def
      word_eq_iff_unsigned [where 'a = int])
  show ?thesis
    using dfp_order_contract [of "?n 3" "?n 1" "?n 1" "?n 1" "?n 5" "?n 3"] dfp_order_contract [of "?n 1" "?n 3" "?n 1" "?n 5" "?n 7" "?n 3"]
    by (simp add: c cmp_of_def Let_def)
qed

text \<open>The order is not that of the numbers. It compares exponents before mantissas although the odd
  mantissas differ in length, so 3 counts as less than 2; it ranks every nonzero number above zero, so
  0 counts as less than -1; and the two zeros are equal for \<open>==\<close> but not for \<open>cmp\<close>.\<close>

theorem dfp_order_not_numeric:
  "dfp_lt (dfp_from_i64 3) (dfp_from_i64 2) \<and> dfp_lt (dfp_from_i64 0) (dfp_from_i64 (- 1))
   \<and> dfp_eq dfp_zero dfp_neg_zero \<and> dfp_total_cmp dfp_zero dfp_neg_zero = Greater"
proof -
  have "dfp_from_i64 3 = mk_dfp 3 0 Normal False" "dfp_from_i64 2 = mk_dfp 1 1 Normal False"
    "dfp_from_i64 (- 1) = mk_dfp 1 0 Normal True"
    by (simp_all add: dfp_from_i64_norm i64_range_def norm_dfp_def tz_nat.simps [of 2])
  moreover have "dfp_from_i64 0 = dfp_zero" by (simp add: dfp_from_i64_def)
  ultimately show ?thesis
    by (simp add: dfp_lt_def dfp_partial_cmp_def is_nan_def dfp_total_cmp_def cmp_of_def ord_then_def
        dfp_eq_def dfp_constants)
qed

text \<open>Between positive numbers whose mantissas have the same length the order is that of the numbers.\<close>

lemma dfp_order_same_width:
  assumes "dfp_class a = Normal" "dfp_class b = Normal" "\<not> dfp_sign a" "\<not> dfp_sign b"
    and "bit_width (unat (dfp_mantissa a)) = bit_width (unat (dfp_mantissa b))"
    and "dfp_exponent a < dfp_exponent b" "dfp_mantissa b \<noteq> 0"
  shows "dfp_real a < dfp_real b" "dfp_total_cmp a b = Less"
proof -
  let ?w = "bit_width (unat (dfp_mantissa b))"
  have nz: "unat (dfp_mantissa b) \<noteq> 0" using assms(7) by (simp add: unat_eq_0)
  then have "unat (dfp_mantissa a) \<noteq> 0" using assms(5) bit_width_bounds [of "unat (dfp_mantissa b)"]
    by (metis bit_width_0 less_one nz power_0)
  then have a: "unat (dfp_mantissa a) < 2 ^ ?w" using bit_width_bounds [of "unat (dfp_mantissa a)"] assms(5) by simp
  have "?w \<noteq> 0" using bit_width_bounds [OF nz] nz by (metis less_one power_0)
  then have "2 ^ ?w = (2 :: nat) * 2 ^ (?w - 1)" by (cases ?w) simp_all
  then have "2 ^ ?w \<le> 2 * unat (dfp_mantissa b)" using bit_width_bounds [OF nz] by simp
  then have "real (unat (dfp_mantissa a)) < 2 * real (unat (dfp_mantissa b))" using a by linarith
  then have "real (unat (dfp_mantissa a)) * 2 powi dfp_exponent a
    < real (unat (dfp_mantissa b)) * (2 * 2 powi dfp_exponent a)" by simp
  also have "(2 :: real) * 2 powi dfp_exponent a \<le> 2 powi dfp_exponent b"
    using power_int_increasing [of "dfp_exponent a + 1" "dfp_exponent b" "2 :: real"] assms(6)
    by (simp add: power_int_add)
  then have "real (unat (dfp_mantissa b)) * (2 * 2 powi dfp_exponent a) \<le> real (unat (dfp_mantissa b)) * 2 powi dfp_exponent b"
    by (intro mult_left_mono) simp_all
  finally show "dfp_real a < dfp_real b" using assms(3,4) by (simp add: dfp_real_def)
  show "dfp_total_cmp a b = Less" using assms by (simp add: dfp_total_cmp_def cmp_of_def ord_then_def)
qed

end
