(* ===== verification/Dcs.thy ===== *)
theory Dcs
  imports Dqa BigIntCodec Dfp
begin

text \<open>
  Deterministic canonical serialization, \<open>determin/src/dcs.rs\<close>: the primitive serializers, strings
  and byte strings with a length prefix, options, enums, structs, vectors and matrices. The trait
  \<open>DcsSerializable\<close> is the locale \<open>dcs_serializable\<close>: on the values of the type that are
  canonical its bytes are a uniquely decodable code, and then vectors and matrices of such values
  are serialized injectively. The types of fixed width reach it through the sublocale
  \<open>dcs_fixed\<close>.
\<close>

subsection \<open>Primitives\<close>

definition DCS_MAX_LENGTH :: nat where
  "DCS_MAX_LENGTH = 2 ^ 20"

datatype DcsError = InvalidBool | InvalidScale | NonCanonical | Overflow | InvalidUtf8 | LengthOverflow
  | UnknownField | TrailingData

definition unwrap :: "('a, 'e) outcome \<Rightarrow> ('a, DcsError) outcome" where
  "unwrap m = (case m of Ok x \<Rightarrow> Ok x | _ \<Rightarrow> Panic)"

definition dcs_serialize_u8 :: "u8 \<Rightarrow> u8 list" where
  "dcs_serialize_u8 val = [val]"

definition dcs_serialize_u32 :: "nat \<Rightarrow> u8 list" where
  "dcs_serialize_u32 val = be_bytes 4 (int val)"

definition dcs_serialize_u64 :: "nat \<Rightarrow> u8 list" where
  "dcs_serialize_u64 val = be_bytes 8 (int val)"

definition dcs_serialize_i64 :: "int \<Rightarrow> u8 list" where
  "dcs_serialize_i64 val = be_bytes 8 val"

definition dcs_serialize_i128 :: "int \<Rightarrow> u8 list" where
  "dcs_serialize_i128 val = be_bytes 16 val"

definition dcs_serialize_bool :: "bool \<Rightarrow> u8 list" where
  "dcs_serialize_bool val = (if val then [1] else [0])"

definition dcs_deserialize_bool :: "u8 list \<Rightarrow> (bool, DcsError) outcome" where
  "dcs_deserialize_bool data =
     (case data of
        [] \<Rightarrow> Err DcsError.InvalidBool
      | b # _ \<Rightarrow> if b = 0 then Ok False else if b = 1 then Ok True else Err DcsError.InvalidBool)"

definition dcs_serialize_trap :: "u8 list" where
  "dcs_serialize_trap = [255]"

definition u32_try_from :: "nat \<Rightarrow> (nat, unit) outcome" where
  "u32_try_from n = (if n < 2 ^ 32 then Ok n else Err ())"

subsection \<open>Strings, options, enums, structs\<close>

definition dcs_serialize_bytes :: "u8 list \<Rightarrow> (u8 list, DcsError) outcome" where
  "dcs_serialize_bytes data =
     (let len = length data in
      if len > DCS_MAX_LENGTH then Err DcsError.LengthOverflow
      else bind_ok (unwrap (u32_try_from len)) (\<lambda>n. Ok (be_bytes 4 (int n) @ data)))"

definition dcs_serialize_string :: "u8 list \<Rightarrow> (u8 list, DcsError) outcome" where
  "dcs_serialize_string utf8_bytes =
     (let len = length utf8_bytes in
      if len > DCS_MAX_LENGTH then Err DcsError.LengthOverflow
      else bind_ok (unwrap (u32_try_from len)) (\<lambda>n. Ok (be_bytes 4 (int n) @ utf8_bytes)))"

definition dcs_serialize_option_none :: "u8 list" where
  "dcs_serialize_option_none = [0]"

definition dcs_serialize_option_some :: "u8 list \<Rightarrow> u8 list" where
  "dcs_serialize_option_some payload = 1 # payload"

definition dcs_serialize_enum :: "u8 \<Rightarrow> u8 list \<Rightarrow> u8 list" where
  "dcs_serialize_enum tag payload = tag # payload"

definition dcs_serialize_struct :: "(nat \<times> u8 list) list \<Rightarrow> u8 list" where
  "dcs_serialize_struct flds = concat (map (\<lambda>(field_id, val). dcs_serialize_u32 field_id @ val) flds)"

fun struct_loop :: "u8 list \<Rightarrow> nat \<Rightarrow> nat list \<Rightarrow> (nat, DcsError) outcome" where
  "struct_loop data offset [] = Ok offset"
| "struct_loop data offset (field_id # flds) =
     (if offset + 4 > length data then Err DcsError.TrailingData
      else if of_be_bytes (take 4 (drop offset data)) \<noteq> int field_id then Err DcsError.UnknownField
      else struct_loop data (offset + 4) flds)"

definition dcs_deserialize_struct :: "u8 list \<Rightarrow> nat list \<Rightarrow> ((nat \<times> u8 list) list, DcsError) outcome" where
  "dcs_deserialize_struct data expected_fields =
     bind_ok (struct_loop data 0 expected_fields) (\<lambda>offset.
       if offset \<noteq> length data then Err DcsError.TrailingData else Ok [])"

subsection \<open>Serializable types\<close>

definition u8_dcs_serialize :: "u8 \<Rightarrow> (u8 list, DcsError) outcome" where
  "u8_dcs_serialize x = Ok (dcs_serialize_u8 x)"

definition u32_dcs_serialize :: "nat \<Rightarrow> (u8 list, DcsError) outcome" where
  "u32_dcs_serialize x = Ok (dcs_serialize_u32 x)"

definition i128_dcs_serialize :: "int \<Rightarrow> (u8 list, DcsError) outcome" where
  "i128_dcs_serialize x = Ok (dcs_serialize_i128 x)"

definition bool_dcs_serialize :: "bool \<Rightarrow> (u8 list, DcsError) outcome" where
  "bool_dcs_serialize x = Ok (dcs_serialize_bool x)"

fun dcs_strip_loop :: "int \<Rightarrow> nat \<Rightarrow> int \<times> nat" where
  "dcs_strip_loop val scale =
     (if rust_rem val 10 = 0 \<and> scale > 0 then dcs_strip_loop (rust_div val 10) (scale - 1) else (val, scale))"

declare dcs_strip_loop.simps [simp del]

definition dqa_dcs_serialize :: "dqa \<Rightarrow> (u8 list, DcsError) outcome" where
  "dqa_dcs_serialize d =
     bind_ok
       (if dqa_value d = 0 then unwrap (dqa_new 0 0)
        else let (val, scale) = dcs_strip_loop (dqa_value d) (dqa_scale d) in unwrap (dqa_new val scale))
       (\<lambda>canonical. Ok (be_bytes 8 (dqa_value canonical) @ [of_nat (dqa_scale canonical)] @ replicate 7 0))"

definition dfp_dcs_serialize :: "dfp \<Rightarrow> (u8 list, DcsError) outcome" where
  "dfp_dcs_serialize d = Ok (dfp_to_bytes (from_dfp d))"

definition bigint_dcs_serialize :: "bigint \<Rightarrow> (u8 list, DcsError) outcome" where
  "bigint_dcs_serialize b = Ok (to_bytes (bigint_serialize b))"

subsection \<open>Vectors and matrices\<close>

fun dcs_elements :: "('a \<Rightarrow> (u8 list, DcsError) outcome) \<Rightarrow> 'a list \<Rightarrow> (u8 list, DcsError) outcome" where
  "dcs_elements ser [] = Ok []"
| "dcs_elements ser (x # xs) =
     bind_ok (ser x) (\<lambda>bs. bind_ok (dcs_elements ser xs) (\<lambda>cs. Ok (bs @ cs)))"

definition dcs_serialize_dvec :: "('a \<Rightarrow> (u8 list, DcsError) outcome) \<Rightarrow> 'a list \<Rightarrow> (u8 list, DcsError) outcome" where
  "dcs_serialize_dvec ser elements =
     bind_ok (unwrap (u32_try_from (length elements))) (\<lambda>n.
       bind_ok (dcs_elements ser elements) (\<lambda>bs. Ok (dcs_serialize_u32 n @ bs)))"

definition dcs_serialize_dmat ::
    "('a \<Rightarrow> (u8 list, DcsError) outcome) \<Rightarrow> nat \<Rightarrow> nat \<Rightarrow> 'a list \<Rightarrow> (u8 list, DcsError) outcome" where
  "dcs_serialize_dmat ser rows cols elements =
     bind_ok (unwrap (u32_try_from rows)) (\<lambda>r.
       bind_ok (unwrap (u32_try_from cols)) (\<lambda>c.
         bind_ok (dcs_elements ser elements) (\<lambda>bs. Ok (dcs_serialize_u32 r @ dcs_serialize_u32 c @ bs))))"

subsection \<open>The contract of a serializable type\<close>

lemma unwrap_simps [simp]: "unwrap (Ok x) = Ok x" "unwrap (Err e) = Panic" "unwrap Panic = Panic"
  by (simp_all add: unwrap_def)

lemma serialize_u32_inj: "a < 2 ^ 32 \<Longrightarrow> b < 2 ^ 32 \<Longrightarrow> dcs_serialize_u32 a = dcs_serialize_u32 b \<longleftrightarrow> a = b"
  by (auto simp: dcs_serialize_u32_def be_bytes_eq_iff simp flip: zmod_int of_nat_power)

lemma length_serialize_u32 [simp]: "length (dcs_serialize_u32 a) = 4"
  by (simp add: dcs_serialize_u32_def)

locale dcs_serializable =
  fixes ser :: "'a \<Rightarrow> (u8 list, DcsError) outcome" and ok :: "'a \<Rightarrow> bool"
  assumes ser_total: "ok x \<Longrightarrow> \<exists>bs. ser x = Ok bs \<and> bs \<noteq> []"
    and ser_prefix_free: "ok x \<Longrightarrow> ok y \<Longrightarrow> ser x = Ok b \<Longrightarrow> ser y = Ok c \<Longrightarrow> b @ r = c @ s \<Longrightarrow> x = y"
begin

lemma elements_total: "list_all ok xs \<Longrightarrow> \<exists>bs. dcs_elements ser xs = Ok bs"
  using ser_total by (induction xs) fastforce+

lemma elements_inj:
  "list_all ok xs \<Longrightarrow> list_all ok ys \<Longrightarrow> dcs_elements ser xs = Ok b \<Longrightarrow> dcs_elements ser ys = Ok b \<Longrightarrow> xs = ys"
proof (induction xs arbitrary: ys b)
  case Nil
  then show ?case using ser_total by (cases ys) fastforce+
next
  case (Cons x xs)
  obtain b1 b2 where b: "ser x = Ok b1" "dcs_elements ser xs = Ok b2" "b = b1 @ b2" using Cons.prems(3) by auto
  have ne: "b1 \<noteq> []" using ser_total [of x] Cons.prems(1) b(1) by auto
  then obtain y ys' where y: "ys = y # ys'" using Cons.prems(4) b(3) by (cases ys) auto
  then obtain c1 c2 where c: "ser y = Ok c1" "dcs_elements ser ys' = Ok c2" "b = c1 @ c2" using Cons.prems(4) by auto
  have "x = y" using ser_prefix_free [OF _ _ b(1) c(1), of b2 c2] Cons.prems(1,2) y b(3) c(3) by simp
  moreover from this have "b2 = c2" using b c by simp
  ultimately show ?case using Cons.IH [of ys' b2] Cons.prems(1,2) b(2) c(2) y by simp
qed

lemma dvec_inj:
  assumes "list_all ok xs" "list_all ok ys"
    and "dcs_serialize_dvec ser xs = Ok b" "dcs_serialize_dvec ser ys = Ok b"
  shows "xs = ys"
proof -
  obtain m c where c: "dcs_elements ser xs = Ok c" "b = dcs_serialize_u32 m @ c"
    using assms(3) by (auto simp: dcs_serialize_dvec_def)
  obtain n d where d: "dcs_elements ser ys = Ok d" "b = dcs_serialize_u32 n @ d"
    using assms(4) by (auto simp: dcs_serialize_dvec_def)
  have "c = d" using c(2) d(2) by simp
  then show ?thesis using elements_inj [OF assms(1,2)] c(1) d(1) by simp
qed

lemma dvec_total: "list_all ok xs \<Longrightarrow> length xs < 2 ^ 32 \<Longrightarrow> \<exists>b. dcs_serialize_dvec ser xs = Ok b"
  using elements_total [of xs] by (auto simp: dcs_serialize_dvec_def u32_try_from_def)

lemma dmat_inj:
  assumes "list_all ok xs" "list_all ok ys"
    and "dcs_serialize_dmat ser r c xs = Ok b" "dcs_serialize_dmat ser r' c' ys = Ok b"
  shows "r = r' \<and> c = c' \<and> xs = ys"
proof -
  obtain e where e: "dcs_elements ser xs = Ok e" "b = dcs_serialize_u32 r @ dcs_serialize_u32 c @ e" "r < 2 ^ 32" "c < 2 ^ 32"
    using assms(3) by (auto simp: dcs_serialize_dmat_def u32_try_from_def split: if_splits)
  obtain f where f: "dcs_elements ser ys = Ok f" "b = dcs_serialize_u32 r' @ dcs_serialize_u32 c' @ f" "r' < 2 ^ 32" "c' < 2 ^ 32"
    using assms(4) by (auto simp: dcs_serialize_dmat_def u32_try_from_def split: if_splits)
  have "dcs_serialize_u32 r = dcs_serialize_u32 r'" "dcs_serialize_u32 c = dcs_serialize_u32 c'" "e = f"
    using e(2) f(2) by simp_all
  then show ?thesis
    using serialize_u32_inj [OF e(3) f(3)] serialize_u32_inj [OF e(4) f(4)] elements_inj [OF assms(1,2)] e(1) f(1) by simp
qed

end

locale dcs_fixed =
  fixes ser :: "'a \<Rightarrow> (u8 list, DcsError) outcome" and ok :: "'a \<Rightarrow> bool" and width :: nat
  assumes width_pos: "0 < width"
    and fixed_total: "ok x \<Longrightarrow> \<exists>bs. ser x = Ok bs \<and> length bs = width"
    and fixed_inj: "ok x \<Longrightarrow> ok y \<Longrightarrow> ser x = ser y \<Longrightarrow> x = y"

sublocale dcs_fixed \<subseteq> dcs_serializable
proof
  show "\<exists>bs. ser x = Ok bs \<and> bs \<noteq> []" if "ok x" for x using fixed_total [OF that] width_pos by auto
  fix x y b c r s
  assume a: "ok x" "ok y" "ser x = Ok b" "ser y = Ok c" "b @ r = c @ s"
  then have "length b = width" "length c = width" using fixed_total by fastforce+
  then have "b = c" using a(5) by simp
  then show "x = y" using fixed_inj [OF a(1,2)] a(3,4) by simp
qed

subsection \<open>The instances\<close>

interpretation u8_ser: dcs_fixed u8_dcs_serialize "\<lambda>_. True" 1
  by unfold_locales (simp_all add: u8_dcs_serialize_def dcs_serialize_u8_def)

interpretation u32_ser: dcs_fixed u32_dcs_serialize "\<lambda>x. x < 2 ^ 32" 4
  by unfold_locales (simp_all add: u32_dcs_serialize_def serialize_u32_inj del: power_numeral)

interpretation bool_ser: dcs_fixed bool_dcs_serialize "\<lambda>_. True" 1
  by unfold_locales (auto simp: bool_dcs_serialize_def dcs_serialize_bool_def split: if_splits)

interpretation i128_ser: dcs_fixed i128_dcs_serialize i128_range 16
proof
  show "\<exists>bs. i128_dcs_serialize x = Ok bs \<and> length bs = 16" for x
    by (simp add: i128_dcs_serialize_def dcs_serialize_i128_def)
  fix x y assume "i128_range x" "i128_range y" "i128_dcs_serialize x = i128_dcs_serialize y"
  then show "x = y"
    unfolding i128_dcs_serialize_def dcs_serialize_i128_def by (metis i128_be_roundtrip outcome.inject(1))
qed simp

interpretation dcs_strip: zero_stripper dcs_strip_loop
  by unfold_locales (subst dcs_strip_loop.simps, auto simp: rust_rem_0_iff_dvd)+

text \<open>The inlined canonicalization is that of the \<open>dqa\<close> module.\<close>

lemma dqa_dcs_val:
  assumes "dqa_wf d"
  shows "dqa_dcs_serialize d = Ok (be_bytes 8 (dqa_value (canonicalize d)) @ of_nat (dqa_scale (canonicalize d)) # replicate 7 0)"
proof (cases "dqa_value d = 0")
  case True
  then show ?thesis by (simp add: dqa_dcs_serialize_def dqa_new_def MAX_SCALE_def canonicalize_def mk_dqa_def)
next
  case False
  obtain v s where vs: "dcs_strip_loop (dqa_value d) (dqa_scale d) = (v, s)" by force
  have "s \<le> MAX_SCALE" using dcs_strip.strip_scale_le [OF vs] assms by (simp add: dqa_wf_def)
  then have n: "dqa_new v s = Ok (mk_dqa v s)" by (simp add: dqa_new_def)
  have "dqa_canonical (mk_dqa v s)" "dqa_val (mk_dqa v s) = dqa_val d"
    using dcs_strip.strip_canonical [OF False vs] dcs_strip.strip_val [OF vs] by (simp_all add: dqa_canonical_def dqa_val_def mk_dqa_def)
  then have "canonicalize d = mk_dqa v s" using canonicalize_eq_iff canonicalize_id by metis
  then show ?thesis using False by (simp add: dqa_dcs_serialize_def vs n)
qed

lemma dqa_scale_u8: "dqa_wf d \<Longrightarrow> unat (of_nat (dqa_scale d) :: u8) = dqa_scale d"
  by (simp add: dqa_wf_def MAX_SCALE_def unat_of_nat)

lemma dqa_dcs_eq_iff:
  assumes "dqa_wf a" "dqa_wf b"
  shows "dqa_dcs_serialize a = dqa_dcs_serialize b \<longleftrightarrow> dqa_val a = dqa_val b"
proof -
  let ?a = "canonicalize a" and ?b = "canonicalize b"
  have w: "dqa_wf ?a" "dqa_wf ?b" using assms by simp_all
  then have r: "i64_range (dqa_value ?a)" "i64_range (dqa_value ?b)" by (simp_all add: dqa_wf_def)
  have "dqa_dcs_serialize a = dqa_dcs_serialize b \<longleftrightarrow> be_bytes 8 (dqa_value ?a) = be_bytes 8 (dqa_value ?b)
      \<and> (of_nat (dqa_scale ?a) :: u8) = of_nat (dqa_scale ?b)"
    by (simp add: dqa_dcs_val assms)
  also have "\<dots> \<longleftrightarrow> dqa_value ?a = dqa_value ?b \<and> dqa_scale ?a = dqa_scale ?b"
    using i64_be_roundtrip r dqa_scale_u8 [OF w(1)] dqa_scale_u8 [OF w(2)] by metis
  also have "\<dots> \<longleftrightarrow> ?a = ?b" by auto
  finally show ?thesis by (simp add: canonicalize_eq_iff)
qed

interpretation dqa_ser: dcs_fixed dqa_dcs_serialize "\<lambda>d. dqa_wf d \<and> dqa_canonical d" 16
proof
  show "\<exists>bs. dqa_dcs_serialize x = Ok bs \<and> length bs = 16" if "dqa_wf x \<and> dqa_canonical x" for x
    using that by (simp add: dqa_dcs_val)
  show "x = y" if "dqa_wf x \<and> dqa_canonical x" "dqa_wf y \<and> dqa_canonical y" "dqa_dcs_serialize x = dqa_dcs_serialize y" for x y
    using that dqa_dcs_eq_iff [of x y] canonicalize_eq_iff canonicalize_id by metis
qed simp

interpretation dfp_ser: dcs_fixed dfp_dcs_serialize "\<lambda>d. i32_range (dfp_exponent d)" 24
proof
  show "\<exists>bs. dfp_dcs_serialize x = Ok bs \<and> length bs = 24" for x
    by (simp add: dfp_dcs_serialize_def dfp_to_bytes_def)
  show "x = y" if "i32_range (dfp_exponent x)" "i32_range (dfp_exponent y)" "dfp_dcs_serialize x = dfp_dcs_serialize y" for x y
    using that dfp_bytes_inj by (simp add: dfp_dcs_serialize_def)
qed simp

lemma bigint_bytes_length: "length (to_bytes (bigint_serialize b)) = 8 + 8 * length (bi_limbs b)"
  by (simp add: to_bytes_def bigint_serialize_def length_concat comp_def sum_list_triv)

lemma bigint_bytes_count: "to_bytes (bigint_serialize b) ! 4 = of_nat (length (bi_limbs b))"
  by (simp add: to_bytes_def bigint_serialize_def)

interpretation bigint_ser: dcs_serializable bigint_dcs_serialize wire_ok
proof
  show "\<exists>bs. bigint_dcs_serialize x = Ok bs \<and> bs \<noteq> []" for x
    using bigint_bytes_length [of x] by (auto simp: bigint_dcs_serialize_def)
  fix x y b c r s
  assume a: "wire_ok x" "wire_ok y" "bigint_dcs_serialize x = Ok b" "bigint_dcs_serialize y = Ok c" "b @ r = c @ s"
  have l: "length b = 8 + 8 * length (bi_limbs x)" "length c = 8 + 8 * length (bi_limbs y)"
    using a(3,4) bigint_bytes_length by (auto simp: bigint_dcs_serialize_def)
  have "b ! 4 = (b @ r) ! 4" "c ! 4 = (c @ s) ! 4" using l by (simp_all add: nth_append)
  then have "b ! 4 = c ! 4" using a(5) by simp
  then have "(of_nat (length (bi_limbs x)) :: u8) = of_nat (length (bi_limbs y))"
    using a(3,4) bigint_bytes_count by (auto simp: bigint_dcs_serialize_def)
  then have "length (bi_limbs x) = length (bi_limbs y)"
    using a(1,2) by (simp add: wire_ok_def word_of_nat_eq_iff take_bit_nat_def)
  then have "b = c" using a(5) l by simp
  then show "x = y" using a bigint_wire.encode_inj [of x y] by (simp add: bigint_dcs_serialize_def)
qed

subsection \<open>Structs\<close>

lemma struct_loop_val:
  assumes "list_all (\<lambda>i. i < 2 ^ 32) ids"
  shows "struct_loop data offset ids = Ok n \<longleftrightarrow>
    n = offset + 4 * length ids \<and> take (4 * length ids) (drop offset data) = concat (map dcs_serialize_u32 ids)"
  using assms
proof (induction ids arbitrary: offset)
  case (Cons i ids)
  let ?d = "drop offset data"
  let ?c = "concat (map dcs_serialize_u32 ids)"
  have ih: "struct_loop data (offset + 4) ids = Ok n \<longleftrightarrow>
      n = offset + 4 * length (i # ids) \<and> take (4 * length ids) (drop 4 ?d) = ?c"
    using Cons.IH [of "offset + 4"] Cons.prems by (simp add: ac_simps)
  show ?case
  proof (cases "offset + 4 \<le> length data")
    case True
    then have l: "length (take 4 ?d) = 4" by simp
    have "int i mod 256 ^ 4 = int i" using Cons.prems by simp
    then have e: "of_be_bytes (take 4 ?d) = int i \<longleftrightarrow> take 4 ?d = dcs_serialize_u32 i"
      using be_bytes_of_be_bytes [of "take 4 ?d"] of_be_be_bytes [of 4 "int i"] l by (auto simp: dcs_serialize_u32_def)
    have "take (4 * length (i # ids)) ?d = take 4 ?d @ take (4 * length ids) (drop 4 ?d)"
      by (simp add: take_add)
    then have "take (4 * length (i # ids)) ?d = dcs_serialize_u32 i @ ?c \<longleftrightarrow>
        take 4 ?d = dcs_serialize_u32 i \<and> take (4 * length ids) (drop 4 ?d) = ?c"
      using l by (simp only: append_eq_append_conv length_serialize_u32) simp
    then show ?thesis using True e ih by (auto simp del: take_append)
  next
    case False
    then have "length (take (4 * length (i # ids)) ?d) < 4" by simp
    then have "take (4 * length (i # ids)) ?d \<noteq> dcs_serialize_u32 i @ ?c"
      by (metis length_append length_serialize_u32 not_add_less1)
    then show ?thesis using False by simp
  qed
qed auto

lemma length_ids: "length (concat (map dcs_serialize_u32 ids)) = 4 * length ids"
  by (induction ids) simp_all

lemma struct_decode_val:
  assumes "list_all (\<lambda>i. i < 2 ^ 32) ids"
  shows "dcs_deserialize_struct data ids = Ok r \<longleftrightarrow> r = [] \<and> data = concat (map dcs_serialize_u32 ids)"
proof
  assume "dcs_deserialize_struct data ids = Ok r"
  then obtain n where "struct_loop data 0 ids = Ok n" "n = length data" "r = []"
    by (auto simp: dcs_deserialize_struct_def split: if_splits)
  then show "r = [] \<and> data = concat (map dcs_serialize_u32 ids)"
    using struct_loop_val [OF assms, of data 0 n] by (metis add_0 drop0 order_refl take_all)
next
  assume "r = [] \<and> data = concat (map dcs_serialize_u32 ids)"
  then show "dcs_deserialize_struct data ids = Ok r"
    using struct_loop_val [OF assms, of data 0 "length data"] length_ids [of ids]
    by (auto simp: dcs_deserialize_struct_def)
qed

lemma length_struct: "length (dcs_serialize_struct fs) = 4 * length fs + length (concat (map snd fs))"
  unfolding dcs_serialize_struct_def by (induction fs) auto

lemma struct_no_values: "concat (map snd fs) = [] \<Longrightarrow> dcs_serialize_struct fs = concat (map dcs_serialize_u32 (map fst fs))"
  unfolding dcs_serialize_struct_def by (induction fs) auto

subsection \<open>Properties\<close>

text \<open>C30: The canonical serialization of \<open>Dqa\<close> always succeeds on well-formed values, has 16 bytes, and is
  the same for two values exactly when they are the same number, however they are scaled.\<close>

theorem dcs_dqa_canonical:
  assumes "dqa_wf a" "dqa_wf b"
  shows "(\<exists>bs. dqa_dcs_serialize a = Ok bs \<and> length bs = 16)
    \<and> (dqa_dcs_serialize a = dqa_dcs_serialize b \<longleftrightarrow> dqa_val a = dqa_val b)"
  using dqa_dcs_val [OF assms(1)] dqa_dcs_eq_iff [OF assms] by simp

theorem dcs_dqa_canonical_witness: "dqa_dcs_serialize (mk_dqa 150 2) = dqa_dcs_serialize (mk_dqa 15 1)"
proof -
  have "dqa_wf (mk_dqa 150 2)" "dqa_wf (mk_dqa 15 1)" by (simp_all add: dqa_wf_def mk_dqa_def MAX_SCALE_def i64_range_def)
  then show ?thesis using dcs_dqa_canonical by (simp add: dqa_val_def mk_dqa_def fp_val_eq_iff)
qed

text \<open>Vectors and matrices are serialized injectively: vectors of canonical \<open>Dqa\<close> values and of
  canonical big integers with fewer than \<open>2 ^ 32\<close> elements have a serialization, two such vectors
  with the same bytes are equal, and two matrices with the same bytes have the same dimensions and
  the same elements.\<close>

theorem dcs_collections_injective:
  assumes "list_all (\<lambda>d. dqa_wf d \<and> dqa_canonical d) ds" "list_all (\<lambda>d. dqa_wf d \<and> dqa_canonical d) ds'"
    and "list_all wire_ok bs" "list_all wire_ok bs'" "length ds < 2 ^ 32" "length bs < 2 ^ 32"
  shows "(\<exists>x. dcs_serialize_dvec dqa_dcs_serialize ds = Ok x) \<and> (\<exists>x. dcs_serialize_dvec bigint_dcs_serialize bs = Ok x)
    \<and> (dcs_serialize_dvec dqa_dcs_serialize ds = dcs_serialize_dvec dqa_dcs_serialize ds' \<longrightarrow> ds = ds')
    \<and> (dcs_serialize_dvec bigint_dcs_serialize bs = dcs_serialize_dvec bigint_dcs_serialize bs' \<longrightarrow> bs = bs')
    \<and> (\<forall>x. dcs_serialize_dmat dqa_dcs_serialize r c ds = Ok x \<and> dcs_serialize_dmat dqa_dcs_serialize r' c' ds' = Ok x
        \<longrightarrow> r = r' \<and> c = c' \<and> ds = ds')"
proof -
  obtain x where x: "dcs_serialize_dvec dqa_dcs_serialize ds = Ok x" using dqa_ser.dvec_total [OF assms(1,5)] by blast
  obtain y where y: "dcs_serialize_dvec bigint_dcs_serialize bs = Ok y" using bigint_ser.dvec_total [OF assms(3,6)] by blast
  show ?thesis
    using x y dqa_ser.dvec_inj [OF assms(1,2)] bigint_ser.dvec_inj [OF assms(3,4)] dqa_ser.dmat_inj [OF assms(1,2)] by auto
qed

theorem dcs_collections_witness:
  "(\<exists>x. dcs_serialize_dvec dqa_dcs_serialize [mk_dqa 15 1] = Ok x)
    \<and> (\<exists>x. dcs_serialize_dvec bigint_dcs_serialize [mk_bigint [7] True] = Ok x)"
proof -
  have "list_all (\<lambda>d. dqa_wf d \<and> dqa_canonical d) [mk_dqa 15 1]" "list_all wire_ok [mk_bigint [7] True]"
    by (simp_all add: dqa_wf_def mk_dqa_def MAX_SCALE_def i64_range_def dqa_canonical_def fp_canonical_def wire_ok_def bi_ok_def
        is_canonical_def)
  then show ?thesis using dcs_collections_injective [of "[mk_dqa 15 1]" "[]" "[mk_bigint [7] True]" "[]"] by simp
qed

text \<open>\<open>dcs_deserialize_struct\<close> never delivers a field: it accepts exactly the bare concatenation of the
  field identifiers and then returns the empty list, so a struct that carries any value bytes is
  rejected when it is read back.\<close>

theorem dcs_struct_not_recovered:
  assumes "list_all (\<lambda>(i, _). i < 2 ^ 32) fs"
  shows "(concat (map snd fs) = [] \<longrightarrow> dcs_deserialize_struct (dcs_serialize_struct fs) (map fst fs) = Ok [])
    \<and> (concat (map snd fs) \<noteq> [] \<longrightarrow> (\<nexists>r. dcs_deserialize_struct (dcs_serialize_struct fs) (map fst fs) = Ok r))"
proof -
  have ids: "list_all (\<lambda>i. i < 2 ^ 32) (map fst fs)" using assms by (induction fs) auto
  note v = struct_decode_val [OF ids, of "dcs_serialize_struct fs"]
  show ?thesis
  proof (cases "concat (map snd fs) = []")
    case True
    then show ?thesis using v struct_no_values by simp
  next
    case False
    then have "length (dcs_serialize_struct fs) \<noteq> 4 * length (map fst fs)" using length_struct [of fs] by auto
    then have "dcs_serialize_struct fs \<noteq> concat (map dcs_serialize_u32 (map fst fs))" using length_ids [of "map fst fs"] by metis
    then show ?thesis using v False by simp
  qed
qed

theorem dcs_struct_witness:
  "\<nexists>r. dcs_deserialize_struct (dcs_serialize_struct [(1, [5])]) [1] = Ok r"
  using dcs_struct_not_recovered [of "[(1, [5])]"] by simp

text \<open>Byte strings and UTF-8 strings up to \<open>2 ^ 20\<close> bytes are serialized as their length in four
  big-endian bytes followed by the bytes, from which they can be read back; longer ones give
  \<open>LengthOverflow\<close>; booleans are read back from their byte, and every other byte is rejected.\<close>

theorem dcs_strings_and_bools:
  "dcs_serialize_bytes data = (if length data \<le> 2 ^ 20 then Ok (be_bytes 4 (int (length data)) @ data) else Err DcsError.LengthOverflow)
    \<and> dcs_serialize_string data = dcs_serialize_bytes data
    \<and> (\<forall>bs. dcs_serialize_bytes data = Ok bs \<longrightarrow> of_be_bytes (take 4 bs) = int (length data) \<and> drop 4 bs = data)
    \<and> dcs_deserialize_bool (dcs_serialize_bool x @ rest) = Ok x
    \<and> (\<forall>b y. dcs_deserialize_bool (b # rest) = Ok y \<longrightarrow> [b] = dcs_serialize_bool y)"
proof -
  have e: "dcs_serialize_bytes data = (if length data \<le> 2 ^ 20 then Ok (be_bytes 4 (int (length data)) @ data) else Err DcsError.LengthOverflow)"
    by (auto simp: dcs_serialize_bytes_def DCS_MAX_LENGTH_def u32_try_from_def)
  moreover have "dcs_serialize_string data = dcs_serialize_bytes data" by (simp add: dcs_serialize_string_def dcs_serialize_bytes_def)
  moreover have "of_be_bytes (take 4 bs) = int (length data) \<and> drop 4 bs = data" if "dcs_serialize_bytes data = Ok bs" for bs
    using that e by (auto simp: of_be_be_bytes split: if_splits)
  ultimately show ?thesis
    by (simp add: dcs_deserialize_bool_def dcs_serialize_bool_def)
qed

end
