(* ===== verification/BTree.thy ===== *)
theory BTree
  imports Prelude "HOL-Library.Product_Lexorder" "HOL-Library.Multiset"
begin

text \<open>
  Rust's \<open>BTreeMap\<close> as the sorted list of its entries, and \<open>std::cmp::Reverse\<close>. The locale
  \<open>ordered_map\<close> is the contract the order books and registries rely on: the entries come out in
  key order, and insertion and removal update the partial map they stand for. What the clients
  need (the first entry is the least, an insertion under a fresh key adds one entry) is proved in
  the locale, and the interpretation on the sorted lists provides it.
\<close>

subsection \<open>Reversed keys\<close>

datatype 'a reverse = Reverse (unreverse: 'a)

instantiation reverse :: (linorder) linorder
begin

definition less_eq_reverse :: "'a reverse \<Rightarrow> 'a reverse \<Rightarrow> bool" where
  "less_eq_reverse x y \<longleftrightarrow> unreverse y \<le> unreverse x"

definition less_reverse :: "'a reverse \<Rightarrow> 'a reverse \<Rightarrow> bool" where
  "less_reverse x y \<longleftrightarrow> unreverse y < unreverse x"

instance
  by standard (auto simp: less_eq_reverse_def less_reverse_def intro: reverse.expand)

end

lemma Reverse_le_iff [simp]: "Reverse x \<le> Reverse y \<longleftrightarrow> y \<le> x" "Reverse x < Reverse y \<longleftrightarrow> y < x"
  by (simp_all add: less_eq_reverse_def less_reverse_def)

subsection \<open>The contract\<close>

lemma distinct_keys_mset:
  assumes "distinct (map fst xs)" "distinct (map fst ys)" "map_of xs = map_of ys"
  shows "mset xs = mset ys"
proof -
  have "set xs = set ys"
    using assms by (metis map_of_eq_Some_iff subrelI subset_antisym)
  then show ?thesis
    using assms(1,2) by (simp add: distinct_map set_eq_iff_mset_eq_distinct)
qed

locale ordered_map =
  fixes invar :: "'m \<Rightarrow> bool"
    and entries :: "'m \<Rightarrow> ('k :: linorder \<times> 'v) list"
    and insert :: "'k \<Rightarrow> 'v \<Rightarrow> 'm \<Rightarrow> 'm"
    and remove :: "'k \<Rightarrow> 'm \<Rightarrow> 'm"
  assumes key_order: "invar m \<Longrightarrow> sorted_wrt (<) (map fst (entries m))"
    and invar_insert: "invar m \<Longrightarrow> invar (insert k v m)"
    and invar_remove: "invar m \<Longrightarrow> invar (remove k m)"
    and map_insert: "invar m \<Longrightarrow> map_of (entries (insert k v m)) = (map_of (entries m))(k \<mapsto> v)"
    and map_remove: "invar m \<Longrightarrow> map_of (entries (remove k m)) = (map_of (entries m))(k := None)"
begin

lemma keys_distinct: "invar m \<Longrightarrow> distinct (map fst (entries m))"
  using key_order strict_sorted_iff by blast

lemma first_least: "invar m \<Longrightarrow> entries m = e # es \<Longrightarrow> e' \<in> set (entries m) \<Longrightarrow> e' = e \<or> fst e < fst e'"
  using key_order [of m] by auto

lemma insert_fresh:
  assumes "invar m" "k \<notin> fst ` set (entries m)"
  shows "mset (entries (insert k v m)) = add_mset (k, v) (mset (entries m))"
proof -
  have "mset (entries (insert k v m)) = mset ((k, v) # entries m)"
    by (rule distinct_keys_mset)
      (use assms keys_distinct invar_insert map_insert in \<open>simp_all add: keys_distinct invar_insert\<close>)
  then show ?thesis by simp
qed

lemma remove_entry:
  assumes "invar m" "(k, v) \<in> set (entries m)"
  shows "mset (entries m) = add_mset (k, v) (mset (entries (remove k m)))"
proof -
  have "map_of (entries m) k = Some v" using assms keys_distinct by simp
  then have "map_of ((k, v) # entries (remove k m)) = map_of (entries m)"
    by (simp add: map_remove [OF assms(1)] fun_upd_idem_iff)
  moreover have "k \<notin> fst ` set (entries (remove k m))"
    using map_of_eq_None_iff [of "entries (remove k m)" k] by (simp add: map_remove [OF assms(1)])
  ultimately have "mset ((k, v) # entries (remove k m)) = mset (entries m)"
    by (intro distinct_keys_mset) (simp_all add: keys_distinct assms(1) invar_remove)
  then show ?thesis by simp
qed

lemma remove_subset: "invar m \<Longrightarrow> set (entries (remove k m)) \<subseteq> set (entries m)"
proof
  fix e assume m: "invar m" and e: "e \<in> set (entries (remove k m))"
  then have "map_of (entries (remove k m)) (fst e) = Some (snd e)"
    using keys_distinct [OF invar_remove [OF m]] by simp
  then have "map_of (entries m) (fst e) = Some (snd e)" by (simp add: map_remove [OF m] split: if_splits)
  then show "e \<in> set (entries m)" using map_of_SomeD by fastforce
qed

end

subsection \<open>Sorted association lists\<close>

type_synonym ('k, 'v) btree = "('k \<times> 'v) list"

fun bt_insert :: "'k :: linorder \<Rightarrow> 'v \<Rightarrow> ('k, 'v) btree \<Rightarrow> ('k, 'v) btree" where
  "bt_insert k v [] = [(k, v)]"
| "bt_insert k v (e # m) =
     (if k < fst e then (k, v) # e # m
      else if k = fst e then (k, v) # m
      else e # bt_insert k v m)"

definition bt_remove :: "'k :: linorder \<Rightarrow> ('k, 'v) btree \<Rightarrow> ('k, 'v) btree" where
  "bt_remove k m = filter (\<lambda>e. fst e \<noteq> k) m"

definition bt_get :: "('k, 'v) btree \<Rightarrow> 'k \<Rightarrow> 'v option" where
  "bt_get m k = map_of m k"

definition bt_ok :: "('k :: linorder, 'v) btree \<Rightarrow> bool" where
  "bt_ok m \<longleftrightarrow> sorted_wrt (<) (map fst m)"

lemma bt_insert_keys: "fst ` set (bt_insert k v m) = Set.insert k (fst ` set m)"
  by (induction m) auto

lemma bt_insert_ok: "bt_ok m \<Longrightarrow> bt_ok (bt_insert k v m)"
  unfolding bt_ok_def
proof (induction m)
  case (Cons e m)
  then show ?case
    using bt_insert_keys [of k v m] by (auto simp flip: image_iff)
qed simp

lemma bt_insert_map: "bt_ok m \<Longrightarrow> map_of (bt_insert k v m) = (map_of m)(k \<mapsto> v)"
  unfolding bt_ok_def by (induction m) (auto simp: fun_upd_twist)

lemma bt_remove_map: "map_of (bt_remove k m) = (map_of m)(k := None)"
  unfolding bt_remove_def by (induction m) (auto simp: fun_eq_iff)

lemma bt_remove_ok: "bt_ok m \<Longrightarrow> bt_ok (bt_remove k m)"
  unfolding bt_ok_def bt_remove_def by (induction m) (auto simp: sorted_wrt_append)

interpretation btree: ordered_map bt_ok "\<lambda>m. m" bt_insert bt_remove
proof
  show "bt_ok m \<Longrightarrow> sorted_wrt (<) (map fst m)" for m :: "('k :: linorder, 'v) btree" by (simp add: bt_ok_def)
qed (auto simp: bt_insert_ok bt_remove_ok bt_insert_map bt_remove_map)

lemma bt_ok_Nil [simp]: "bt_ok []"
  by (simp add: bt_ok_def)

end
