(* ===== verification/OrderBook.thy ===== *)
theory OrderBook
  imports BTree Bytes
begin

text \<open>
  The order book of the quota marketplace (\<open>crates/quota-router-core/src/marketplace/orderbook.rs\<close>)
  and the task market built on it (\<open>task_market/orders.rs\<close>). The book is two \<open>BTreeMap\<close>s (\<open>BTree\<close>)
  keyed by price and a sequence number; the hash function of the order identifiers is a
  parameter. Prices and quantities are natural numbers (they are only compared and subtracted below
  their minimum), the sequence counter wraps at 64 bits.
\<close>

subsection \<open>Data\<close>

datatype Side = Bid | Ask

record 'spec order =
  ord_id :: "u8 list"
  spec :: 'spec
  price :: nat
  qty :: nat
  owner :: string
  ts_unix :: nat

record 'spec match_pair =
  mp_bid :: "'spec order"
  mp_ask :: "'spec order"
  mp_price :: nat
  mp_qty :: nat

record 'spec order_book =
  bids :: "(nat reverse \<times> nat, 'spec order) btree"
  asks :: "(nat \<times> nat, 'spec order) btree"
  next_seq :: nat

definition empty_book :: "'spec order_book" where
  "empty_book = \<lparr>bids = [], asks = [], next_seq = 0\<rparr>"

definition order_id :: "(u8 list \<Rightarrow> u8 list) \<Rightarrow> nat \<Rightarrow> nat \<Rightarrow> u8 list \<Rightarrow> nat \<Rightarrow> Side \<Rightarrow> u8 list" where
  "order_id blake3 p q own ts side =
     blake3 (le_bytes 16 (int p) @ le_bytes 8 (int q) @ own @ le_bytes 8 (int ts)
       @ [case side of Bid \<Rightarrow> 0 | Ask \<Rightarrow> 1])"

definition bump_seq :: "nat \<Rightarrow> nat" where
  "bump_seq s = (s + 1) mod 2 ^ 64"

subsection \<open>Operations\<close>

definition place_bid :: "(u8 list \<Rightarrow> u8 list) \<Rightarrow> 'spec \<Rightarrow> nat \<Rightarrow> nat \<Rightarrow> string \<Rightarrow> nat \<Rightarrow> 'spec order_book
    \<Rightarrow> u8 list \<times> 'spec order_book" where
  "place_bid blake3 sp p q own ts b =
     (let i = order_id blake3 p q (ascii_bytes own) ts Bid;
          sq = next_seq b;
          ord = \<lparr>ord_id = i, spec = sp, price = p, qty = q, owner = own, ts_unix = ts\<rparr> in
      (i, b\<lparr>next_seq := bump_seq sq, bids := bt_insert (Reverse p, sq) ord (bids b)\<rparr>))"

definition place_ask :: "(u8 list \<Rightarrow> u8 list) \<Rightarrow> 'spec \<Rightarrow> nat \<Rightarrow> nat \<Rightarrow> string \<Rightarrow> nat \<Rightarrow> 'spec order_book
    \<Rightarrow> u8 list \<times> 'spec order_book" where
  "place_ask blake3 sp p q own ts b =
     (let i = order_id blake3 p q (ascii_bytes own) ts Ask;
          sq = next_seq b;
          ord = \<lparr>ord_id = i, spec = sp, price = p, qty = q, owner = own, ts_unix = ts\<rparr> in
      (i, b\<lparr>next_seq := bump_seq sq, asks := bt_insert (p, sq) ord (asks b)\<rparr>))"

definition first_value :: "('k \<times> 'v) list \<Rightarrow> 'v option" where
  "first_value m = (case m of [] \<Rightarrow> None | e # _ \<Rightarrow> Some (snd e))"

definition best_bid :: "'spec order_book \<Rightarrow> 'spec order option" where
  "best_bid b = first_value (bids b)"

definition best_ask :: "'spec order_book \<Rightarrow> 'spec order option" where
  "best_ask b = first_value (asks b)"

definition rest_bid :: "'spec order \<Rightarrow> nat \<Rightarrow> 'spec order_book \<Rightarrow> 'spec order_book" where
  "rest_bid bid residual b =
     (if residual > 0 then
        b\<lparr>next_seq := bump_seq (next_seq b),
          bids := bt_insert (Reverse (price bid), next_seq b) (bid\<lparr>qty := residual\<rparr>) (bids b)\<rparr>
      else b)"

definition rest_ask :: "'spec order \<Rightarrow> nat \<Rightarrow> 'spec order_book \<Rightarrow> 'spec order_book" where
  "rest_ask ask residual b =
     (if residual > 0 then
        b\<lparr>next_seq := bump_seq (next_seq b),
          asks := bt_insert (price ask, next_seq b) (ask\<lparr>qty := residual\<rparr>) (asks b)\<rparr>
      else b)"

definition match_top :: "'spec order_book \<Rightarrow> ('spec match_pair option \<times> 'spec order_book, unit) outcome" where
  "match_top b =
     (case (best_bid b, best_ask b) of
        (Some bid, Some ask) \<Rightarrow>
          if price bid < price ask then Ok (None, b)
          else
            (case (find (\<lambda>e. fst (fst e) = Reverse (price bid) \<and> ord_id (snd e) = ord_id bid) (bids b),
                   find (\<lambda>e. fst (fst e) = price ask \<and> ord_id (snd e) = ord_id ask) (asks b)) of
               (Some be, Some ae) \<Rightarrow>
                 (let b1 = b\<lparr>bids := bt_remove (fst be) (bids b), asks := bt_remove (fst ae) (asks b)\<rparr>;
                      q = min (qty bid) (qty ask);
                      b2 = rest_bid bid (qty bid - q) b1;
                      b3 = rest_ask ask (qty ask - q) b2 in
                  Ok (Some \<lparr>mp_bid = bid, mp_ask = ask, mp_price = price ask, mp_qty = q\<rparr>, b3))
             | _ \<Rightarrow> Panic)
      | _ \<Rightarrow> Ok (None, b))"

definition best_ask_matching :: "('spec \<Rightarrow> bool) \<Rightarrow> 'spec order_book \<Rightarrow> 'spec order option" where
  "best_ask_matching spec_pred b = find (\<lambda>ord. spec_pred (spec ord)) (map snd (asks b))"

definition asks_matching :: "('spec \<Rightarrow> bool) \<Rightarrow> 'spec order_book \<Rightarrow> 'spec order list" where
  "asks_matching spec_pred b = filter (\<lambda>ord. spec_pred (spec ord)) (map snd (asks b))"

definition bid_count :: "'spec order_book \<Rightarrow> nat" where
  "bid_count b = length (bids b)"

definition ask_count :: "'spec order_book \<Rightarrow> nat" where
  "ask_count b = length (asks b)"

definition book_is_empty :: "'spec order_book \<Rightarrow> bool" where
  "book_is_empty b \<longleftrightarrow> bids b = [] \<and> asks b = []"

subsection \<open>The task market\<close>

datatype TaskType = Inference | Embedding | FineTune | Eval

record task_spec =
  task_type :: TaskType
  model :: string
  max_price :: nat
  deadline_unix :: nat
  quantity :: nat

definition is_inference :: "task_spec \<Rightarrow> bool" where
  "is_inference t \<longleftrightarrow> task_type t = Inference"

definition place_buy :: "(u8 list \<Rightarrow> u8 list) \<Rightarrow> task_spec \<Rightarrow> nat \<Rightarrow> nat \<Rightarrow> string \<Rightarrow> nat \<Rightarrow> task_spec order_book
    \<Rightarrow> u8 list \<times> task_spec order_book" where
  "place_buy blake3 sp p q own ts book = place_bid blake3 sp p q own ts book"

definition place_sell :: "(u8 list \<Rightarrow> u8 list) \<Rightarrow> task_spec \<Rightarrow> nat \<Rightarrow> nat \<Rightarrow> string \<Rightarrow> nat \<Rightarrow> task_spec order_book
    \<Rightarrow> u8 list \<times> task_spec order_book" where
  "place_sell blake3 sp p q own ts book = place_ask blake3 sp p q own ts book"

definition task_match_top :: "task_spec order_book \<Rightarrow> (task_spec match_pair option \<times> task_spec order_book, unit) outcome" where
  "task_match_top book = match_top book"

definition task_best_ask_matching :: "(task_spec \<Rightarrow> bool) \<Rightarrow> task_spec order_book \<Rightarrow> task_spec match_pair option" where
  "task_best_ask_matching spec_pred book =
     (case best_ask_matching spec_pred book of
        None \<Rightarrow> None
      | Some ord \<Rightarrow> Some \<lparr>mp_bid = ord, mp_ask = ord, mp_price = price ord, mp_qty = qty ord\<rparr>)"

subsection \<open>The invariant\<close>

text \<open>
  Every resting order is filed under its own price and under a sequence number that was drawn
  before, and the counter has not wrapped.
\<close>

definition book_ok :: "'spec order_book \<Rightarrow> bool" where
  "book_ok b \<longleftrightarrow> bt_ok (bids b) \<and> bt_ok (asks b) \<and> next_seq b < 2 ^ 64 \<and>
     (\<forall>((p, s), ord) \<in> set (bids b). p = Reverse (price ord) \<and> s < next_seq b) \<and>
     (\<forall>((p, s), ord) \<in> set (asks b). p = price ord \<and> s < next_seq b)"

definition bid_orders :: "'spec order_book \<Rightarrow> 'spec order multiset" where
  "bid_orders b = image_mset snd (mset (bids b))"

definition ask_orders :: "'spec order_book \<Rightarrow> 'spec order multiset" where
  "ask_orders b = image_mset snd (mset (asks b))"

definition total_qty :: "'spec order multiset \<Rightarrow> nat" where
  "total_qty M = sum_mset (image_mset qty M)"

lemma bump_seq_small: "s + 1 < 2 ^ 64 \<Longrightarrow> bump_seq s = s + 1"
  by (simp add: bump_seq_def)

lemma empty_book_ok: "book_ok empty_book"
  by (simp add: book_ok_def empty_book_def)

lemma book_okD:
  assumes "book_ok b"
  shows "bt_ok (bids b)" "bt_ok (asks b)"
    and "((p, s), ord) \<in> set (bids b) \<Longrightarrow> p = Reverse (price ord) \<and> s < next_seq b"
    and "((p', s'), ord') \<in> set (asks b) \<Longrightarrow> p' = price ord' \<and> s' < next_seq b"
  using assms by (auto simp: book_ok_def)

lemma fresh_bid: "book_ok b \<Longrightarrow> (p, next_seq b) \<notin> fst ` set (bids b)"
  using book_okD(3) by fastforce

lemma fresh_ask: "book_ok b \<Longrightarrow> (p, next_seq b) \<notin> fst ` set (asks b)"
  using book_okD(4) by fastforce

lemma insert_bid_ok:
  assumes "book_ok b" "next_seq b + 1 < 2 ^ 64"
  shows "book_ok (b\<lparr>next_seq := bump_seq (next_seq b), bids := bt_insert (Reverse (price ord), next_seq b) ord (bids b)\<rparr>)"
    and "mset (bt_insert (Reverse (price ord), next_seq b) ord (bids b)) = add_mset ((Reverse (price ord), next_seq b), ord) (mset (bids b))"
proof -
  show m: "mset (bt_insert (Reverse (price ord), next_seq b) ord (bids b)) = add_mset ((Reverse (price ord), next_seq b), ord) (mset (bids b))"
    by (rule btree.insert_fresh [OF book_okD(1) [OF assms(1)] fresh_bid [OF assms(1)]])
  have s: "set (bt_insert (Reverse (price ord), next_seq b) ord (bids b)) = insert ((Reverse (price ord), next_seq b), ord) (set (bids b))"
    using arg_cong [OF m, of set_mset] by simp
  show "book_ok (b\<lparr>next_seq := bump_seq (next_seq b), bids := bt_insert (Reverse (price ord), next_seq b) ord (bids b)\<rparr>)"
    using assms by (fastforce simp: book_ok_def s bump_seq_small bt_insert_ok)
qed

lemma insert_ask_ok:
  assumes "book_ok b" "next_seq b + 1 < 2 ^ 64"
  shows "book_ok (b\<lparr>next_seq := bump_seq (next_seq b), asks := bt_insert (price ord, next_seq b) ord (asks b)\<rparr>)"
    and "mset (bt_insert (price ord, next_seq b) ord (asks b)) = add_mset ((price ord, next_seq b), ord) (mset (asks b))"
proof -
  show m: "mset (bt_insert (price ord, next_seq b) ord (asks b)) = add_mset ((price ord, next_seq b), ord) (mset (asks b))"
    by (rule btree.insert_fresh [OF book_okD(2) [OF assms(1)] fresh_ask [OF assms(1)]])
  have s: "set (bt_insert (price ord, next_seq b) ord (asks b)) = insert ((price ord, next_seq b), ord) (set (asks b))"
    using arg_cong [OF m, of set_mset] by simp
  show "book_ok (b\<lparr>next_seq := bump_seq (next_seq b), asks := bt_insert (price ord, next_seq b) ord (asks b)\<rparr>)"
    using assms by (fastforce simp: book_ok_def s bump_seq_small bt_insert_ok)
qed

definition residual_orders :: "'spec order \<Rightarrow> nat \<Rightarrow> 'spec order multiset" where
  "residual_orders ord r = (if r > 0 then {#ord\<lparr>qty := r\<rparr>#} else {#})"

lemma residual_orders_simps [simp]:
  "total_qty (residual_orders ord r) = r" "size (residual_orders ord r) = (if r > 0 then 1 else 0)"
  by (simp_all add: residual_orders_def total_qty_def)

lemma rest_bid_ok:
  assumes "book_ok b" "next_seq b + 1 < 2 ^ 64"
  shows "book_ok (rest_bid ord r b)" "next_seq (rest_bid ord r b) \<le> next_seq b + 1"
    and "ask_orders (rest_bid ord r b) = ask_orders b"
    and "bid_orders (rest_bid ord r b) = bid_orders b + residual_orders ord r"
  using insert_bid_ok [OF assms, of "ord\<lparr>qty := r\<rparr>"] assms
  by (auto simp: rest_bid_def bump_seq_small bid_orders_def ask_orders_def residual_orders_def)

lemma rest_ask_ok:
  assumes "book_ok b" "next_seq b + 1 < 2 ^ 64"
  shows "book_ok (rest_ask ord r b)" "next_seq (rest_ask ord r b) \<le> next_seq b + 1"
    and "bid_orders (rest_ask ord r b) = bid_orders b"
    and "ask_orders (rest_ask ord r b) = ask_orders b + residual_orders ord r"
  using insert_ask_ok [OF assms, of "ord\<lparr>qty := r\<rparr>"] assms
  by (auto simp: rest_ask_def bump_seq_small bid_orders_def ask_orders_def residual_orders_def)

lemma counts: "bid_count b = size (bid_orders b)" "ask_count b = size (ask_orders b)"
  by (simp_all add: bid_count_def ask_count_def bid_orders_def ask_orders_def)

lemma best_bid_iff: "best_bid b = Some ord \<longleftrightarrow> (\<exists>k es. bids b = (k, ord) # es)"
  by (auto simp: best_bid_def first_value_def split: list.splits)

lemma best_ask_iff: "best_ask b = Some ord \<longleftrightarrow> (\<exists>k es. asks b = (k, ord) # es)"
  by (auto simp: best_ask_def first_value_def split: list.splits)

subsection \<open>Matching\<close>

lemma remove_first: "bt_ok ((k, v) # es) \<Longrightarrow> bt_remove k ((k, v) # es) = es"
  by (auto simp: bt_ok_def bt_remove_def filter_id_conv)

lemma drop_tops_ok:
  assumes "book_ok b" "bids b = eb # bs" "asks b = ea # rs"
  shows "book_ok (b\<lparr>bids := bs, asks := rs\<rparr>)"
  using assms by (auto simp: book_ok_def bt_ok_def)

lemma match_top_cross:
  assumes ok: "book_ok b" and top: "bids b = (kb, bid) # bs" "asks b = (ka, ask) # rs" and cross: "price ask \<le> price bid"
  shows "match_top b = Ok (Some \<lparr>mp_bid = bid, mp_ask = ask, mp_price = price ask, mp_qty = min (qty bid) (qty ask)\<rparr>,
    rest_ask ask (qty ask - min (qty bid) (qty ask))
      (rest_bid bid (qty bid - min (qty bid) (qty ask)) (b\<lparr>bids := bs, asks := rs\<rparr>)))"
proof -
  have "fst kb = Reverse (price bid)" "fst ka = price ask"
    using book_okD(3) [OF ok, of "fst kb" "snd kb" bid] book_okD(4) [OF ok, of "fst ka" "snd ka" ask] top by auto
  moreover have "bt_remove kb (bids b) = bs" "bt_remove ka (asks b) = rs"
    using book_okD(1,2) [OF ok] top remove_first by metis+
  ultimately show ?thesis
    using cross top by (simp add: match_top_def best_bid_def best_ask_def first_value_def Let_def not_less [symmetric])
qed

lemma match_top_none:
  "best_bid b = None \<Longrightarrow> match_top b = Ok (None, b)" "best_ask b = None \<Longrightarrow> match_top b = Ok (None, b)"
  "best_bid b = Some bid \<Longrightarrow> best_ask b = Some ask \<Longrightarrow> price bid < price ask \<Longrightarrow> match_top b = Ok (None, b)"
  by (auto simp: match_top_def split: option.split)

lemma match_top_step:
  assumes ok: "book_ok b" "next_seq b + 2 < 2 ^ 64" and best: "best_bid b = Some bid" "best_ask b = Some ask"
    and cross: "price ask \<le> price bid"
  defines "q \<equiv> min (qty bid) (qty ask)"
  obtains b' where "match_top b = Ok (Some \<lparr>mp_bid = bid, mp_ask = ask, mp_price = price ask, mp_qty = q\<rparr>, b')"
    "book_ok b'" "next_seq b' \<le> next_seq b + 2"
    "add_mset bid (bid_orders b') = bid_orders b + residual_orders bid (qty bid - q)"
    "add_mset ask (ask_orders b') = ask_orders b + residual_orders ask (qty ask - q)"
proof -
  obtain kb bs ka rs where top: "bids b = (kb, bid) # bs" "asks b = (ka, ask) # rs"
    using best by (auto simp: best_bid_iff best_ask_iff)
  let ?b1 = "b\<lparr>bids := bs, asks := rs\<rparr>"
  let ?b2 = "rest_bid bid (qty bid - q) ?b1"
  let ?b3 = "rest_ask ask (qty ask - q) ?b2"
  have o1: "bid_orders b = add_mset bid (bid_orders ?b1)" "ask_orders b = add_mset ask (ask_orders ?b1)"
    using top by (simp_all add: bid_orders_def ask_orders_def)
  have s1: "next_seq ?b1 + 1 < 2 ^ 64" using ok(2) by simp
  note r2 = rest_bid_ok [OF drop_tops_ok [OF ok(1) top] s1, of bid "qty bid - q"]
  have s2: "next_seq ?b2 + 1 < 2 ^ 64" using r2(2) ok(2) by simp
  note r3 = rest_ask_ok [OF r2(1) s2, of ask "qty ask - q"]
  show ?thesis
  proof (rule that [of ?b3])
    show "match_top b = Ok (Some \<lparr>mp_bid = bid, mp_ask = ask, mp_price = price ask, mp_qty = q\<rparr>, ?b3)"
      unfolding q_def by (rule match_top_cross [OF ok(1) top cross])
    show "next_seq ?b3 \<le> next_seq b + 2" using r2(2) r3(2) by simp
    show "add_mset bid (bid_orders ?b3) = bid_orders b + residual_orders bid (qty bid - q)"
      by (simp only: r3(3) r2(4) o1) simp
    show "add_mset ask (ask_orders ?b3) = ask_orders b + residual_orders ask (qty ask - q)"
      by (simp only: r3(4) r2(3) o1) simp
  qed (rule r3(1))
qed

lemma total_qty_add [simp]: "total_qty (add_mset ord M) = qty ord + total_qty M" "total_qty (M + M') = total_qty M + total_qty M'"
  by (simp_all add: total_qty_def)

text \<open>A match moves the same quantity out of both sides and removes at least one order.\<close>

lemma match_effect:
  assumes "add_mset bid B' = B + residual_orders bid (qty bid - q)" "add_mset ask A' = A + residual_orders ask (qty ask - q)"
    "q = min (qty bid) (qty ask)"
  shows "total_qty B = total_qty B' + q" "total_qty A = total_qty A' + q" "size B' + size A' < size B + size A"
proof -
  have "qty bid + total_qty B' = total_qty B + (qty bid - q)" "qty ask + total_qty A' = total_qty A + (qty ask - q)"
    using arg_cong [OF assms(1), of total_qty] arg_cong [OF assms(2), of total_qty] by simp_all
  then show "total_qty B = total_qty B' + q" "total_qty A = total_qty A' + q" using assms(3) by linarith+
  have "Suc (size B') = size B + (if qty bid > q then 1 else 0)" "Suc (size A') = size A + (if qty ask > q then 1 else 0)"
    using arg_cong [OF assms(1), of size] arg_cong [OF assms(2), of size] by simp_all
  then show "size B' + size A' < size B + size A" using assms(3) by (auto split: if_splits)
qed

subsection \<open>Runs\<close>

inductive market_step :: "(u8 list \<Rightarrow> u8 list) \<Rightarrow> task_spec order_book \<Rightarrow> task_spec order_book \<Rightarrow> bool" for blake3 where
  buy: "place_buy blake3 sp p q own ts b = (i, b') \<Longrightarrow> market_step blake3 b b'"
| sell: "place_sell blake3 sp p q own ts b = (i, b') \<Longrightarrow> market_step blake3 b b'"
| matching: "task_match_top b = Ok (r, b') \<Longrightarrow> market_step blake3 b b'"

inductive market_run :: "(u8 list \<Rightarrow> u8 list) \<Rightarrow> nat \<Rightarrow> task_spec order_book \<Rightarrow> bool" for blake3 where
  start: "market_run blake3 0 empty_book"
| step: "market_run blake3 n b \<Longrightarrow> market_step blake3 b b' \<Longrightarrow> market_run blake3 (Suc n) b'"

inductive match_run :: "'spec order_book \<Rightarrow> nat \<Rightarrow> 'spec order_book \<Rightarrow> bool" where
  finish: "match_run b 0 b"
| more: "match_top b = Ok (Some m, b') \<Longrightarrow> match_run b' n b'' \<Longrightarrow> match_run b (Suc n) b''"

inductive_cases match_run_SucE: "match_run b (Suc n) b'"

lemma place_bid_ok:
  assumes "book_ok b" "next_seq b + 1 < 2 ^ 64" "place_bid blake3 sp p q own ts b = (i, b')"
  shows "book_ok b'" "next_seq b' = next_seq b + 1" "ask_orders b' = ask_orders b"
    and "bid_orders b' = add_mset \<lparr>ord_id = i, spec = sp, price = p, qty = q, owner = own, ts_unix = ts\<rparr> (bid_orders b)"
  using insert_bid_ok [OF assms(1,2), of "\<lparr>ord_id = i, spec = sp, price = p, qty = q, owner = own, ts_unix = ts\<rparr>"] assms(2,3)
  by (auto simp: place_bid_def Let_def bump_seq_small bid_orders_def ask_orders_def)

lemma place_ask_ok:
  assumes "book_ok b" "next_seq b + 1 < 2 ^ 64" "place_ask blake3 sp p q own ts b = (i, b')"
  shows "book_ok b'" "next_seq b' = next_seq b + 1" "bid_orders b' = bid_orders b"
    and "ask_orders b' = add_mset \<lparr>ord_id = i, spec = sp, price = p, qty = q, owner = own, ts_unix = ts\<rparr> (ask_orders b)"
  using insert_ask_ok [OF assms(1,2), of "\<lparr>ord_id = i, spec = sp, price = p, qty = q, owner = own, ts_unix = ts\<rparr>"] assms(2,3)
  by (auto simp: place_ask_def Let_def bump_seq_small bid_orders_def ask_orders_def)

lemma match_top_ok:
  assumes "book_ok b" "next_seq b + 2 < 2 ^ 64"
  obtains r b' where "match_top b = Ok (r, b')" "book_ok b'" "next_seq b' \<le> next_seq b + 2"
proof -
  consider "best_bid b = None \<or> best_ask b = None"
    | bid ask where "best_bid b = Some bid" "best_ask b = Some ask" "price bid < price ask"
    | bid ask where "best_bid b = Some bid" "best_ask b = Some ask" "price ask \<le> price bid"
    by (metis not_less option.exhaust)
  then show ?thesis
  proof cases
    case 1
    then show ?thesis using that match_top_none(1,2) assms(1) by (metis le_add1)
  next
    case 2
    then show ?thesis using that match_top_none(3) assms(1) by (metis le_add1)
  next
    case 3
    then show ?thesis using that match_top_step [OF assms] by metis
  qed
qed

lemma market_run_ok:
  "market_run blake3 n b \<Longrightarrow> n < 2 ^ 62 \<Longrightarrow> book_ok b \<and> next_seq b \<le> 2 * n"
proof (induction rule: market_run.induct)
  case start
  then show ?case by (simp add: empty_book_ok) (simp add: empty_book_def)
next
  case (step n b b')
  then have ok: "book_ok b" and s: "next_seq b \<le> 2 * n" "next_seq b + 1 < 2 ^ 64" "next_seq b + 2 < 2 ^ 64" by auto
  obtain r c where m: "match_top b = Ok (r, c)" "book_ok c" "next_seq c \<le> next_seq b + 2"
    using match_top_ok [OF ok s(3)] by metis
  from step.hyps(2) show ?case
  proof (cases rule: market_step.cases)
    case buy
    then show ?thesis using place_bid_ok(1,2) [OF ok s(2)] s(1) unfolding place_buy_def by force
  next
    case sell
    then show ?thesis using place_ask_ok(1,2) [OF ok s(2)] s(1) unfolding place_sell_def by force
  next
    case matching
    then show ?thesis using m s(1) by (simp add: task_match_top_def)
  qed
qed

subsection \<open>Repeated matching\<close>

definition uncrossed :: "'spec order_book \<Rightarrow> bool" where
  "uncrossed b \<longleftrightarrow>
     (case (best_bid b, best_ask b) of (Some bid, Some ask) \<Rightarrow> price bid < price ask | _ \<Rightarrow> True)"

lemma uncrossed_iff: "uncrossed b \<longleftrightarrow> \<not> (\<exists>bid ask. best_bid b = Some bid \<and> best_ask b = Some ask \<and> price ask \<le> price bid)"
  by (auto simp: uncrossed_def not_less split: option.splits)

lemma match_top_uncrossed: "uncrossed b \<Longrightarrow> match_top b = Ok (None, b)"
  unfolding uncrossed_def using match_top_none by (auto split: option.splits)

lemma match_step_measure:
  assumes "book_ok b" "next_seq b + 2 * (bid_count b + ask_count b) < 2 ^ 64" "\<not> uncrossed b"
  obtains m b' where "match_top b = Ok (Some m, b')" "book_ok b'"
    "next_seq b' + 2 * (bid_count b' + ask_count b') < 2 ^ 64" "bid_count b' + ask_count b' < bid_count b + ask_count b"
    "total_qty (bid_orders b) = total_qty (bid_orders b') + mp_qty m" "total_qty (ask_orders b) = total_qty (ask_orders b') + mp_qty m"
proof -
  obtain bid ask where best: "best_bid b = Some bid" "best_ask b = Some ask" and cross: "price ask \<le> price bid"
    using assms(3) by (auto simp: uncrossed_iff)
  then have "bid_count b > 0" "ask_count b > 0" by (auto simp: best_bid_iff best_ask_iff bid_count_def ask_count_def)
  then have "next_seq b + 2 < 2 ^ 64" using assms(2) by simp
  then obtain b' where b': "match_top b = Ok (Some \<lparr>mp_bid = bid, mp_ask = ask, mp_price = price ask, mp_qty = min (qty bid) (qty ask)\<rparr>, b')"
    "book_ok b'" "next_seq b' \<le> next_seq b + 2"
    "add_mset bid (bid_orders b') = bid_orders b + residual_orders bid (qty bid - min (qty bid) (qty ask))"
    "add_mset ask (ask_orders b') = ask_orders b + residual_orders ask (qty ask - min (qty bid) (qty ask))"
    using match_top_step [OF assms(1) _ best cross] by metis
  have lt: "bid_count b' + ask_count b' < bid_count b + ask_count b"
    unfolding counts by (rule match_effect(3) [OF b'(4,5) refl])
  then have "next_seq b' + 2 * (bid_count b' + ask_count b') < 2 ^ 64" using b'(3) assms(2) by simp
  moreover have "total_qty (bid_orders b) = total_qty (bid_orders b') + min (qty bid) (qty ask)"
      "total_qty (ask_orders b) = total_qty (ask_orders b') + min (qty bid) (qty ask)"
    using match_effect(1,2) [OF b'(4,5) refl] by simp_all
  ultimately show ?thesis using that [OF b'(1,2)] lt by simp
qed

lemma match_run_bound:
  assumes "match_run b n b'" "book_ok b" "next_seq b + 2 * (bid_count b + ask_count b) < 2 ^ 64"
  shows "n + bid_count b' + ask_count b' \<le> bid_count b + ask_count b \<and> book_ok b'
    \<and> (\<exists>executed. total_qty (bid_orders b) = total_qty (bid_orders b') + executed
        \<and> total_qty (ask_orders b) = total_qty (ask_orders b') + executed)"
  using assms
proof (induction rule: match_run.induct)
  case (more b m b' n b'')
  then have "\<not> uncrossed b" using match_top_uncrossed [of b] by (metis Pair_inject option.distinct(1) outcome.inject(1))
  then obtain m' c where c: "match_top b = Ok (Some m', c)" "book_ok c"
    "next_seq c + 2 * (bid_count c + ask_count c) < 2 ^ 64" "bid_count c + ask_count c < bid_count b + ask_count b"
    "total_qty (bid_orders b) = total_qty (bid_orders c) + mp_qty m'" "total_qty (ask_orders b) = total_qty (ask_orders c) + mp_qty m'"
    using match_step_measure [OF more.prems] by metis
  then have "c = b'" using more.hyps(1) by simp
  then obtain x where "n + bid_count b'' + ask_count b'' \<le> bid_count c + ask_count c" "book_ok b''"
      "total_qty (bid_orders c) = total_qty (bid_orders b'') + x" "total_qty (ask_orders c) = total_qty (ask_orders b'') + x"
    using more.IH c by auto
  then show ?case using c by (intro conjI exI [of _ "x + mp_qty m'"]) simp_all
qed simp

lemma match_run_exists:
  "book_ok b \<Longrightarrow> next_seq b + 2 * (bid_count b + ask_count b) < 2 ^ 64 \<Longrightarrow> \<exists>n b'. match_run b n b' \<and> uncrossed b'"
proof (induction "bid_count b + ask_count b" arbitrary: b rule: less_induct)
  case less
  show ?case
  proof (cases "uncrossed b")
    case True
    then show ?thesis using match_run.finish by blast
  next
    case False
    then obtain m c where "match_top b = Ok (Some m, c)" "book_ok c"
      "next_seq c + 2 * (bid_count c + ask_count c) < 2 ^ 64" "bid_count c + ask_count c < bid_count b + ask_count b"
      using match_step_measure [OF less.prems] by metis
    then show ?thesis using less.hyps [of c] match_run.more by blast
  qed
qed

subsection \<open>Priority\<close>

lemma best_bid_first:
  assumes ok: "book_ok b" and best: "best_bid b = Some best"
  obtains s where "((Reverse (price best), s), best) \<in> set (bids b)"
    "\<And>p s' ord. ((p, s'), ord) \<in> set (bids b) \<Longrightarrow> price ord < price best \<or> price ord = price best \<and> s \<le> s'"
proof -
  obtain k es where e: "bids b = (k, best) # es" using best by (auto simp: best_bid_iff)
  have k: "fst k = Reverse (price best)" using book_okD(3) [OF ok, of "fst k" "snd k" best] e by simp
  show ?thesis
  proof (rule that [of "snd k"])
    show "((Reverse (price best), snd k), best) \<in> set (bids b)" using e k by (cases k) simp
    fix p s' ord assume a: "((p, s'), ord) \<in> set (bids b)"
    then have "p = Reverse (price ord)" using book_okD(3) [OF ok] by blast
    moreover have "((p, s'), ord) = (k, best) \<or> k < (p, s')"
      using btree.first_least [OF book_okD(1) [OF ok] e a] by simp
    ultimately show "price ord < price best \<or> price ord = price best \<and> snd k \<le> s'"
      using k by (cases k) auto
  qed
qed

lemma best_ask_first:
  assumes ok: "book_ok b" and best: "best_ask b = Some best"
  obtains s where "((price best, s), best) \<in> set (asks b)"
    "\<And>p s' ord. ((p, s'), ord) \<in> set (asks b) \<Longrightarrow> price best < price ord \<or> price ord = price best \<and> s \<le> s'"
proof -
  obtain k es where e: "asks b = (k, best) # es" using best by (auto simp: best_ask_iff)
  have k: "fst k = price best" using book_okD(4) [OF ok, of "fst k" "snd k" best] e by simp
  show ?thesis
  proof (rule that [of "snd k"])
    show "((price best, snd k), best) \<in> set (asks b)" using e k by (cases k) simp
    fix p s' ord assume a: "((p, s'), ord) \<in> set (asks b)"
    then have "p = price ord" using book_okD(4) [OF ok] by blast
    moreover have "((p, s'), ord) = (k, best) \<or> k < (p, s')"
      using btree.first_least [OF book_okD(2) [OF ok] e a] by simp
    ultimately show "price best < price ord \<or> price ord = price best \<and> snd k \<le> s'"
      using k by (cases k) auto
  qed
qed

definition bid_priority :: "'spec order_book \<Rightarrow> 'spec order \<Rightarrow> bool" where
  "bid_priority b best \<longleftrightarrow> (\<exists>s. ((Reverse (price best), s), best) \<in> set (bids b)
     \<and> (\<forall>p s' ord. ((p, s'), ord) \<in> set (bids b) \<longrightarrow> price ord < price best \<or> price ord = price best \<and> s \<le> s'))"

definition ask_priority :: "'spec order_book \<Rightarrow> 'spec order \<Rightarrow> bool" where
  "ask_priority b best \<longleftrightarrow> (\<exists>s. ((price best, s), best) \<in> set (asks b)
     \<and> (\<forall>p s' ord. ((p, s'), ord) \<in> set (asks b) \<longrightarrow> price best < price ord \<or> price ord = price best \<and> s \<le> s'))"

lemma best_priority:
  assumes "book_ok b"
  shows "best_bid b = Some bid \<Longrightarrow> bid_priority b bid" "best_ask b = Some ask \<Longrightarrow> ask_priority b ask"
proof -
  show "bid_priority b bid" if "best_bid b = Some bid"
    unfolding bid_priority_def by (rule best_bid_first [OF assms that]) (intro exI conjI allI impI)
  show "ask_priority b ask" if "best_ask b = Some ask"
    unfolding ask_priority_def by (rule best_ask_first [OF assms that]) (intro exI conjI allI impI)
qed

subsection \<open>Properties\<close>

text \<open>C2: Functional behaviour of \<open>match_top\<close> on a well-formed book, which never panics. If the best bid
  and the best ask cross, the pair executes at the price of the ask for the smaller of the two
  quantities, the two orders have price-time priority on their sides, all other orders stay, only a
  positive residual of the two stays in the book, and the book is well-formed again. Otherwise
  nothing changes.\<close>

theorem match_top_correct:
  assumes "book_ok b" "next_seq b + 2 < 2 ^ 64"
  shows "case (best_bid b, best_ask b) of
      (Some bid, Some ask) \<Rightarrow>
        if price ask \<le> price bid then
          \<exists>b'. match_top b = Ok (Some \<lparr>mp_bid = bid, mp_ask = ask, mp_price = price ask, mp_qty = min (qty bid) (qty ask)\<rparr>, b')
            \<and> book_ok b' \<and> bid_priority b bid \<and> ask_priority b ask
            \<and> add_mset bid (bid_orders b') = bid_orders b + residual_orders bid (qty bid - qty ask)
            \<and> add_mset ask (ask_orders b') = ask_orders b + residual_orders ask (qty ask - qty bid)
        else match_top b = Ok (None, b)
    | _ \<Rightarrow> match_top b = Ok (None, b)"
proof -
  have r: "qty x - min (qty x) (qty y) = qty x - qty y" "qty y - min (qty x) (qty y) = qty y - qty x" for x y :: "'a order" by simp_all
  show ?thesis
  proof (cases "uncrossed b")
    case True
    then show ?thesis
      using match_top_uncrossed [OF True] by (auto simp: uncrossed_def split: option.split)
  next
    case False
    then obtain bid ask where best: "best_bid b = Some bid" "best_ask b = Some ask" and cross: "price ask \<le> price bid"
      by (auto simp: uncrossed_iff)
    then show ?thesis
      using match_top_step [OF assms best cross] best_priority [OF assms(1)] unfolding r by (simp, metis)
  qed
qed

theorem match_top_witness:
  "let b = snd (place_ask (\<lambda>m. m) () 7 3 ''s'' 1 (snd (place_bid (\<lambda>m. m) () 9 5 ''b'' 0 empty_book)))
   in \<exists>bid ask b'. match_top b = Ok (Some \<lparr>mp_bid = bid, mp_ask = ask, mp_price = 7, mp_qty = 3\<rparr>, b')
     \<and> ask_orders b' = {#} \<and> total_qty (bid_orders b') = 2"
proof -
  define b where "b = snd (place_ask (\<lambda>m. m) () 7 3 ''s'' 1 (snd (place_bid (\<lambda>m. m) () 9 5 ''b'' 0 empty_book)))"
  obtain bid ask where e: "bids b = [((Reverse 9, 0), bid)]" "asks b = [((7, 1), ask)]" "next_seq b = 2"
    "price bid = 9" "qty bid = 5" "price ask = 7" "qty ask = 3"
    by (simp add: b_def place_ask_def place_bid_def Let_def empty_book_def bump_seq_def)
  then have ok: "book_ok b" "next_seq b + 2 < 2 ^ 64" by (simp_all add: book_ok_def bt_ok_def)
  have best: "best_bid b = Some bid" "best_ask b = Some ask" using e by (simp_all add: best_bid_iff best_ask_iff)
  have "bid_orders b = {#bid#}" "ask_orders b = {#ask#}" using e by (simp_all add: bid_orders_def ask_orders_def)
  then obtain b' where "match_top b = Ok (Some \<lparr>mp_bid = bid, mp_ask = ask, mp_price = 7, mp_qty = 3\<rparr>, b')"
    "ask_orders b' = {#}" "total_qty (bid_orders b') = 2"
    using match_top_correct [OF ok] e(4-7) by (auto simp: best residual_orders_def total_qty_def)
  then show ?thesis unfolding Let_def b_def [symmetric] by blast
qed

text \<open>C32: Conservation and progress, for a well-formed book whose sequence counter stays below \<open>2 ^ 64\<close> when two
  numbers are used for every order: a successful \<open>match_top\<close> takes exactly the executed quantity out of
  both sides. Repeated matching uses up at least one order with every match, so it stops after at most as
  many matches as there are orders, takes the same quantity out of both sides, and does reach a book that
  no longer crosses.\<close>

theorem matching_terminates:
  assumes "book_ok b" "next_seq b + 2 * (bid_count b + ask_count b) < 2 ^ 64"
  shows "(\<forall>n b'. match_run b n b' \<longrightarrow> n + bid_count b' + ask_count b' \<le> bid_count b + ask_count b
        \<and> (\<exists>executed. total_qty (bid_orders b) = total_qty (bid_orders b') + executed
            \<and> total_qty (ask_orders b) = total_qty (ask_orders b') + executed))
    \<and> (\<exists>n b'. match_run b n b' \<and> book_ok b' \<and> uncrossed b')
    \<and> (\<forall>m b'. match_top b = Ok (Some m, b') \<longrightarrow>
        total_qty (bid_orders b) = total_qty (bid_orders b') + mp_qty m
        \<and> total_qty (ask_orders b) = total_qty (ask_orders b') + mp_qty m)"
proof (intro conjI allI impI)
  fix n b' assume run: "match_run b n b'"
  show "n + bid_count b' + ask_count b' \<le> bid_count b + ask_count b" using match_run_bound [OF run assms] by simp
  show "\<exists>executed. total_qty (bid_orders b) = total_qty (bid_orders b') + executed
      \<and> total_qty (ask_orders b) = total_qty (ask_orders b') + executed"
    using match_run_bound [OF run assms] by blast
next
  obtain n b' where "match_run b n b'" "uncrossed b'" using match_run_exists [OF assms] by blast
  then show "\<exists>n b'. match_run b n b' \<and> book_ok b' \<and> uncrossed b'" using match_run_bound [OF _ assms] by blast
next
  fix m b' assume m: "match_top b = Ok (Some m, b')"
  then have "\<not> uncrossed b" using match_top_uncrossed [of b] by auto
  then obtain bid ask where best: "best_bid b = Some bid" "best_ask b = Some ask" and cross: "price ask \<le> price bid"
    by (auto simp: uncrossed_iff)
  then have "bid_count b > 0" by (auto simp: best_bid_iff bid_count_def)
  then have s: "next_seq b + 2 < 2 ^ 64" using assms(2) best by (auto simp: best_ask_iff ask_count_def)
  show "total_qty (bid_orders b) = total_qty (bid_orders b') + mp_qty m"
    using match_top_step [OF assms(1) s best cross] m match_effect(1) by (metis Pair_inject match_pair.select_convs(4) option.inject outcome.inject(1))
  show "total_qty (ask_orders b) = total_qty (ask_orders b') + mp_qty m"
    using match_top_step [OF assms(1) s best cross] m match_effect(2) by (metis Pair_inject match_pair.select_convs(4) option.inject outcome.inject(1))
qed

theorem matching_terminates_witness:
  "let b = snd (place_ask (\<lambda>m. m) () 8 4 ''t'' 3 (snd (place_ask (\<lambda>m. m) () 7 3 ''s'' 2
       (snd (place_bid (\<lambda>m. m) () 8 4 ''c'' 1 (snd (place_bid (\<lambda>m. m) () 9 5 ''b'' 0 empty_book)))))))
   in \<exists>n b' executed. match_run b n b' \<and> 0 < n \<and> n \<le> 4 \<and> book_ok b' \<and> uncrossed b'
     \<and> 9 = total_qty (bid_orders b') + executed \<and> 7 = total_qty (ask_orders b') + executed
     \<and> (\<exists>m b1. match_top b = Ok (Some m, b1) \<and> mp_qty m = 3 \<and> total_qty (bid_orders b1) = 6 \<and> total_qty (ask_orders b1) = 4)"
proof -
  define b where "b = snd (place_ask (\<lambda>m. m) () 8 4 ''t'' 3 (snd (place_ask (\<lambda>m. m) () 7 3 ''s'' 2
       (snd (place_bid (\<lambda>m. m) () 8 4 ''c'' 1 (snd (place_bid (\<lambda>m. m) () 9 5 ''b'' 0 empty_book)))))))"
  obtain p q r s where e: "bids b = [((Reverse 9, 0), p), ((Reverse 8, 1), q)]" "asks b = [((7, 2), r), ((8, 3), s)]" "next_seq b = 4"
    "price p = 9" "qty p = 5" "price q = 8" "qty q = 4" "price r = 7" "qty r = 3" "price s = 8" "qty s = 4"
    by (simp add: b_def place_ask_def place_bid_def Let_def empty_book_def bump_seq_def)
  then have ok: "book_ok b" "next_seq b + 2 * (bid_count b + ask_count b) < 2 ^ 64" and cnt: "bid_count b + ask_count b = 4"
    by (simp_all add: book_ok_def bt_ok_def bid_count_def ask_count_def)
  have best: "best_bid b = Some p" "best_ask b = Some r" using e by (simp_all add: best_bid_iff best_ask_iff)
  then have crossed: "\<not> uncrossed b" using e by (simp add: uncrossed_def)
  have tot: "total_qty (bid_orders b) = 9" "total_qty (ask_orders b) = 7"
    using e by (simp_all add: bid_orders_def ask_orders_def total_qty_def)
  note all = matching_terminates [OF ok, unfolded cnt tot]
  obtain n b' where run: "match_run b n b'" "book_ok b'" "uncrossed b'" using all by blast
  then have "n \<noteq> 0" using crossed by (auto elim: match_run.cases)
  moreover obtain x where "n \<le> 4" "9 = total_qty (bid_orders b') + x" "7 = total_qty (ask_orders b') + x"
    using all run(1) by (metis add_leD1)
  moreover obtain m b1 where m: "match_top b = Ok (Some m, b1)" "mp_qty m = 3"
  proof (rule match_top_step [OF ok(1) _ best])
    fix c assume "match_top b = Ok (Some \<lparr>mp_bid = p, mp_ask = r, mp_price = price r, mp_qty = min (qty p) (qty r)\<rparr>, c)"
    then show thesis using that e by simp
  qed (use e in simp_all)
  then have "total_qty (bid_orders b1) = 6" "total_qty (ask_orders b1) = 4" using all by fastforce+
  ultimately show ?thesis unfolding Let_def b_def [symmetric] using run m by blast
qed

text \<open>C34: Every book the task market reaches from the empty one by fewer than \<open>2 ^ 62\<close> buy orders, sell
  orders and matches is well-formed, and matching its top orders never panics.\<close>

theorem market_invariant:
  assumes "market_run blake3 n b" "n < 2 ^ 62"
  shows "book_ok b \<and> task_match_top b \<noteq> Panic"
proof -
  have "book_ok b" "next_seq b \<le> 2 * n" using market_run_ok [OF assms] by auto
  moreover from this have "next_seq b + 2 < 2 ^ 64" using assms(2) by simp
  ultimately show ?thesis using match_top_ok [of b] unfolding task_match_top_def by (metis outcome.distinct(3))
qed

theorem market_invariant_witness:
  "book_ok (snd (place_sell (\<lambda>m. m) \<lparr>task_type = Eval, model = ''m'', max_price = 1, deadline_unix = 0, quantity = 1\<rparr> 4 1 ''w'' 0 empty_book))"
proof -
  have "market_run (\<lambda>m. m) (Suc 0) (snd (place_sell (\<lambda>m. m) \<lparr>task_type = Eval, model = ''m'', max_price = 1, deadline_unix = 0, quantity = 1\<rparr> 4 1 ''w'' 0 empty_book))"
    by (rule market_run.step [OF market_run.start], rule market_step.sell, rule surjective_pairing)
  then show ?thesis using market_invariant by fastforce
qed

text \<open>A partly filled order loses its place: of two bids at the same price, the earlier one matched
  against a smaller ask is filed again under a new sequence number, and the later bid is the best
  bid afterwards.\<close>

theorem residual_loses_time_priority:
  "let b = snd (place_ask h () 7 3 ''s'' 2 (snd (place_bid h () 7 4 ''late'' 1 (snd (place_bid h () 7 5 ''early'' 0 empty_book)))))
   in map_option owner (best_bid b) = Some ''early''
     \<and> (case match_top b of Ok (Some m, b') \<Rightarrow> owner (mp_bid m) = ''early'' \<and> map_option owner (best_bid b') = Some ''late''
        \<and> image_mset qty (bid_orders b') = {#4, 2#} | _ \<Rightarrow> False)"
  by (simp add: place_ask_def place_bid_def Let_def empty_book_def bump_seq_def best_bid_def best_ask_def first_value_def
      match_top_def bt_remove_def rest_bid_def rest_ask_def bid_orders_def)

text \<open>The order identifier does not cover the payload: two orders of one owner at the same price,
  quantity and second have the same identifier whatever their specifications are.\<close>

theorem order_id_ignores_spec:
  "fst (place_bid blake3 sp p q own ts b) = fst (place_bid blake3 sp' p q own ts b')
    \<and> fst (place_ask blake3 sp p q own ts b) = fst (place_ask blake3 sp' p q own ts b')"
  by (simp add: place_bid_def place_ask_def Let_def)

end
