(* ===== verification/Escrow.thy ===== *)
theory Escrow
  imports BTree Dqa "HOL-Library.List_Lexorder"
begin

text \<open>
  The escrow state machine of the marketplace (\<open>marketplace/escrow.rs\<close>), the task escrow that wraps
  it (\<open>task_market/escrow.rs\<close>) and the registry of disputes (\<open>task_market/dispute.rs\<close>). A method
  that takes \<open>&mut self\<close> returns its result and the new state. The locale \<open>escrow_machine\<close> is the
  contract of an implementation of the escrow life cycle; both escrows interpret it.
\<close>

subsection \<open>Data\<close>

datatype EscrowState = Pending | Locked | Settled | Disputed | Slashed

datatype Party = Buyer string | Seller string | Arbitrator string

datatype RequiredRole = RBuyer | RSeller | RArbitrator

datatype EscrowError =
    LockFromInvalid EscrowState
  | SettleFromInvalid EscrowState
  | DisputeFromInvalid EscrowState
  | ResolveFromInvalid EscrowState
  | UnauthorizedCaller string string string

record escrow =
  esc_id :: "u8 list"
  buyer :: string
  seller :: string
  arbitrator :: string
  amount_micro_octo_w :: dqa
  esc_state :: EscrowState

type_synonym ('s, 'e) handler = "'s \<Rightarrow> (EscrowState, 'e) outcome \<times> 's"

fun party_identity :: "Party \<Rightarrow> string" where
  "party_identity (Buyer s) = s"
| "party_identity (Seller s) = s"
| "party_identity (Arbitrator s) = s"

fun party_role :: "Party \<Rightarrow> string" where
  "party_role (Buyer _) = ''buyer''"
| "party_role (Seller _) = ''seller''"
| "party_role (Arbitrator _) = ''arbitrator''"

fun role_as_str :: "RequiredRole \<Rightarrow> string" where
  "role_as_str RBuyer = ''buyer''"
| "role_as_str RSeller = ''seller''"
| "role_as_str RArbitrator = ''arbitrator''"

definition escrow_new :: "u8 list \<Rightarrow> string \<Rightarrow> string \<Rightarrow> dqa \<Rightarrow> escrow" where
  "escrow_new i b s amt =
     \<lparr>esc_id = i, buyer = b, seller = s, arbitrator = [], amount_micro_octo_w = amt, esc_state = Pending\<rparr>"

definition with_arbitrator :: "u8 list \<Rightarrow> string \<Rightarrow> string \<Rightarrow> string \<Rightarrow> dqa \<Rightarrow> escrow" where
  "with_arbitrator i b s arb amt =
     \<lparr>esc_id = i, buyer = b, seller = s, arbitrator = arb, amount_micro_octo_w = amt, esc_state = Pending\<rparr>"

subsection \<open>Transitions\<close>

fun role_matches :: "RequiredRole \<Rightarrow> Party \<Rightarrow> bool" where
  "role_matches RBuyer (Buyer _) = True"
| "role_matches RSeller (Seller _) = True"
| "role_matches RArbitrator (Arbitrator _) = True"
| "role_matches _ _ = False"

fun stored_party :: "escrow \<Rightarrow> RequiredRole \<Rightarrow> string" where
  "stored_party e RBuyer = buyer e"
| "stored_party e RSeller = seller e"
| "stored_party e RArbitrator = arbitrator e"

definition check_caller :: "escrow \<Rightarrow> Party \<Rightarrow> RequiredRole \<Rightarrow> (unit, EscrowError) outcome" where
  "check_caller e caller required =
     (if \<not> role_matches required caller then
        Err (UnauthorizedCaller (role_as_str required) (party_role caller) (party_identity caller))
      else let stored = stored_party e required in
        if stored = [] \<or> party_identity caller \<noteq> stored then
          Err (UnauthorizedCaller (role_as_str required) (party_role caller) (party_identity caller))
        else Ok ())"

definition lock :: "Party \<Rightarrow> (escrow, EscrowError) handler" where
  "lock caller e =
     (case check_caller e caller RBuyer of
        Ok _ \<Rightarrow>
          if esc_state e \<noteq> Pending then (Err (LockFromInvalid (esc_state e)), e)
          else (Ok Locked, e\<lparr>esc_state := Locked\<rparr>)
      | Err x \<Rightarrow> (Err x, e)
      | Panic \<Rightarrow> (Panic, e))"

definition settle :: "Party \<Rightarrow> (escrow, EscrowError) handler" where
  "settle caller e =
     (case check_caller e caller RSeller of
        Ok _ \<Rightarrow>
          if esc_state e \<noteq> Locked then (Err (SettleFromInvalid (esc_state e)), e)
          else (Ok Settled, e\<lparr>esc_state := Settled\<rparr>)
      | Err x \<Rightarrow> (Err x, e)
      | Panic \<Rightarrow> (Panic, e))"

definition dispute :: "Party \<Rightarrow> (escrow, EscrowError) handler" where
  "dispute caller e =
     (case check_caller e caller RBuyer of
        Ok _ \<Rightarrow>
          if esc_state e \<noteq> Locked then (Err (DisputeFromInvalid (esc_state e)), e)
          else (Ok Disputed, e\<lparr>esc_state := Disputed\<rparr>)
      | Err x \<Rightarrow> (Err x, e)
      | Panic \<Rightarrow> (Panic, e))"

definition resolve_valid :: "Party \<Rightarrow> (escrow, EscrowError) handler" where
  "resolve_valid caller e =
     (case check_caller e caller RArbitrator of
        Ok _ \<Rightarrow>
          if esc_state e \<noteq> Disputed then (Err (ResolveFromInvalid (esc_state e)), e)
          else (Ok Slashed, e\<lparr>esc_state := Slashed\<rparr>)
      | Err x \<Rightarrow> (Err x, e)
      | Panic \<Rightarrow> (Panic, e))"

definition resolve_invalid :: "Party \<Rightarrow> (escrow, EscrowError) handler" where
  "resolve_invalid caller e =
     (case check_caller e caller RArbitrator of
        Ok _ \<Rightarrow>
          if esc_state e \<noteq> Disputed then (Err (ResolveFromInvalid (esc_state e)), e)
          else (Ok Settled, e\<lparr>esc_state := Settled\<rparr>)
      | Err x \<Rightarrow> (Err x, e)
      | Panic \<Rightarrow> (Panic, e))"

definition is_terminal :: "escrow \<Rightarrow> bool" where
  "is_terminal e \<longleftrightarrow> esc_state e = Settled \<or> esc_state e = Slashed"

subsection \<open>The task escrow\<close>

record task_escrow =
  te_base :: escrow
  te_task_id :: "u8 list"
  te_request_id :: "u8 list"

definition task_escrow_new :: "u8 list \<Rightarrow> u8 list \<Rightarrow> u8 list \<Rightarrow> string \<Rightarrow> string \<Rightarrow> dqa \<Rightarrow> task_escrow" where
  "task_escrow_new i task request b s amt =
     \<lparr>te_base = escrow_new i b s amt, te_task_id = task, te_request_id = request\<rparr>"

definition task_escrow_with_arbitrator ::
    "u8 list \<Rightarrow> u8 list \<Rightarrow> u8 list \<Rightarrow> string \<Rightarrow> string \<Rightarrow> string \<Rightarrow> dqa \<Rightarrow> task_escrow" where
  "task_escrow_with_arbitrator i task request b s arb amt =
     \<lparr>te_base = with_arbitrator i b s arb amt, te_task_id = task, te_request_id = request\<rparr>"

datatype TaskEscrowError = TaskEscrowFailed EscrowError

definition on_base :: "(escrow, EscrowError) handler \<Rightarrow> (task_escrow, TaskEscrowError) handler" where
  "on_base f t = (let (r, e) = f (te_base t) in (map_err TaskEscrowFailed r, t\<lparr>te_base := e\<rparr>))"

definition task_lock :: "Party \<Rightarrow> (task_escrow, TaskEscrowError) handler" where
  "task_lock caller = on_base (lock caller)"

definition task_settle :: "Party \<Rightarrow> (task_escrow, TaskEscrowError) handler" where
  "task_settle caller = on_base (settle caller)"

definition task_dispute :: "Party \<Rightarrow> (task_escrow, TaskEscrowError) handler" where
  "task_dispute caller = on_base (dispute caller)"

definition task_resolve_valid :: "Party \<Rightarrow> (task_escrow, TaskEscrowError) handler" where
  "task_resolve_valid caller = on_base (resolve_valid caller)"

definition task_resolve_invalid :: "Party \<Rightarrow> (task_escrow, TaskEscrowError) handler" where
  "task_resolve_invalid caller = on_base (resolve_invalid caller)"

subsection \<open>Calls\<close>

datatype escrow_op = OpLock | OpSettle | OpDispute | OpResolveValid | OpResolveInvalid

fun escrow_call :: "escrow_op \<times> Party \<Rightarrow> (escrow, EscrowError) handler" where
  "escrow_call (OpLock, p) = lock p"
| "escrow_call (OpSettle, p) = settle p"
| "escrow_call (OpDispute, p) = dispute p"
| "escrow_call (OpResolveValid, p) = resolve_valid p"
| "escrow_call (OpResolveInvalid, p) = resolve_invalid p"

fun task_escrow_call :: "escrow_op \<times> Party \<Rightarrow> (task_escrow, TaskEscrowError) handler" where
  "task_escrow_call (OpLock, p) = task_lock p"
| "task_escrow_call (OpSettle, p) = task_settle p"
| "task_escrow_call (OpDispute, p) = task_dispute p"
| "task_escrow_call (OpResolveValid, p) = task_resolve_valid p"
| "task_escrow_call (OpResolveInvalid, p) = task_resolve_invalid p"

text \<open>The state after a sequence of calls, and the operations of the sequence that succeeded.\<close>

fun run_calls :: "('c \<Rightarrow> ('s, 'e) handler) \<Rightarrow> 'c list \<Rightarrow> 's \<Rightarrow> 's" where
  "run_calls call [] s = s"
| "run_calls call (c # cs) s = run_calls call cs (snd (call c s))"

fun accepted :: "(escrow_op \<times> Party \<Rightarrow> ('s, 'e) handler) \<Rightarrow> (escrow_op \<times> Party) list \<Rightarrow> 's \<Rightarrow> escrow_op list" where
  "accepted call [] s = []"
| "accepted call (c # cs) s =
     (let (r, s') = call c s in
      case r of Ok _ \<Rightarrow> fst c # accepted call cs s' | _ \<Rightarrow> accepted call cs s')"

subsection \<open>The life cycle\<close>

fun op_role :: "escrow_op \<Rightarrow> RequiredRole" where
  "op_role OpLock = RBuyer"
| "op_role OpSettle = RSeller"
| "op_role OpDispute = RBuyer"
| "op_role OpResolveValid = RArbitrator"
| "op_role OpResolveInvalid = RArbitrator"

fun edge :: "EscrowState \<Rightarrow> escrow_op \<Rightarrow> EscrowState option" where
  "edge Pending OpLock = Some Locked"
| "edge Locked OpSettle = Some Settled"
| "edge Locked OpDispute = Some Disputed"
| "edge Disputed OpResolveValid = Some Slashed"
| "edge Disputed OpResolveInvalid = Some Settled"
| "edge _ _ = None"

definition authorized :: "escrow \<Rightarrow> escrow_op \<Rightarrow> Party \<Rightarrow> bool" where
  "authorized e oper caller \<longleftrightarrow> role_matches (op_role oper) caller \<and> party_identity caller \<noteq> [] \<and>
     party_identity caller = stored_party e (op_role oper)"

text \<open>How far a state is from the end of the life cycle.\<close>

fun remaining :: "EscrowState \<Rightarrow> nat" where
  "remaining Pending = 3"
| "remaining Locked = 2"
| "remaining Disputed = 1"
| "remaining Settled = 0"
| "remaining Slashed = 0"

lemma edge_remaining: "edge s oper = Some t \<Longrightarrow> remaining t < remaining s"
  by (cases "(s, oper)" rule: edge.cases) auto

lemma edge_terminal: "edge s oper = Some t \<Longrightarrow> s \<noteq> Settled \<and> s \<noteq> Slashed"
  by (cases "(s, oper)" rule: edge.cases) auto

lemma stored_party_state [simp]: "stored_party (e\<lparr>esc_state := s\<rparr>) r = stored_party e r"
  by (cases r) simp_all

lemma authorized_state [simp]: "authorized (e\<lparr>esc_state := s\<rparr>) oper p = authorized e oper p"
  by (simp add: authorized_def)

text \<open>The words over the operations that lead from a state along edges.\<close>

fun path :: "EscrowState \<Rightarrow> escrow_op list \<Rightarrow> EscrowState option" where
  "path s [] = Some s"
| "path s (oper # opers) = (case edge s oper of None \<Rightarrow> None | Some t \<Rightarrow> path t opers)"

locale escrow_machine =
  fixes call :: "escrow_op \<times> Party \<Rightarrow> ('s, 'e) handler" and base :: "'s \<Rightarrow> escrow"
  assumes call_rejects: "\<not> authorized (base s) (fst c) (snd c) \<or> edge (esc_state (base s)) (fst c) = None
      \<Longrightarrow> \<exists>e. call c s = (Err e, s)"
    and call_accepts: "authorized (base s) (fst c) (snd c) \<Longrightarrow> edge (esc_state (base s)) (fst c) = Some t
      \<Longrightarrow> \<exists>s'. call c s = (Ok t, s') \<and> base s' = (base s)\<lparr>esc_state := t\<rparr>"
begin

lemma call_cases:
  obtains e where "call c s = (Err e, s)"
  | t s' where "call c s = (Ok t, s')" "base s' = (base s)\<lparr>esc_state := t\<rparr>"
    "authorized (base s) (fst c) (snd c)" "edge (esc_state (base s)) (fst c) = Some t"
  using call_rejects [of s c] call_accepts [of s c] by (cases "edge (esc_state (base s)) (fst c)") blast+

lemma run_path:
  "\<exists>t. path (esc_state (base s)) (accepted call cs s) = Some t \<and> base (run_calls call cs s) = (base s)\<lparr>esc_state := t\<rparr>"
proof (induction cs arbitrary: s)
  case (Cons c cs)
  show ?case
  proof (rule call_cases [of c s])
    fix t s' assume "call c s = (Ok t, s')" "base s' = (base s)\<lparr>esc_state := t\<rparr>" "edge (esc_state (base s)) (fst c) = Some t"
    then show ?thesis using Cons.IH [of s'] by simp
  qed (use Cons.IH in auto)
qed simp

lemma accepted_authorized:
  "oper \<in> set (accepted call cs s) \<Longrightarrow> \<exists>p. (oper, p) \<in> set cs \<and> authorized (base s) oper p"
proof (induction cs arbitrary: s)
  case (Cons c cs)
  show ?case
  proof (rule call_cases [of c s])
    fix t s' assume a: "call c s = (Ok t, s')" "base s' = (base s)\<lparr>esc_state := t\<rparr>" "authorized (base s) (fst c) (snd c)"
    then have "oper = fst c \<or> oper \<in> set (accepted call cs s')" using Cons.prems by auto
    then show ?thesis
    proof
      assume "oper = fst c"
      then show ?thesis using a(3) by (intro exI [of _ "snd c"]) simp
    next
      assume "oper \<in> set (accepted call cs s')"
      then show ?thesis using Cons.IH [of s'] a(2) by auto
    qed
  qed (use Cons in auto)
qed simp

lemma run_rejected: "accepted call cs s = [] \<Longrightarrow> run_calls call cs s = s"
proof (induction cs arbitrary: s)
  case (Cons c cs)
  show ?case by (rule call_cases [of c s]) (use Cons in auto)
qed simp

lemma terminal_absorbing:
  assumes "is_terminal (base s)"
  shows "run_calls call cs s = s \<and> accepted call cs s = []"
proof -
  have "accepted call cs s = []"
  proof (cases "accepted call cs s")
    case (Cons oper opers)
    then show ?thesis
      using run_path [of s cs] assms edge_terminal [of "esc_state (base s)" oper]
      by (auto simp: is_terminal_def split: option.splits)
  qed simp
  then show ?thesis by (simp add: run_rejected)
qed

lemma accepted_bound: "length (accepted call cs s) \<le> remaining (esc_state (base s))"
proof -
  have "path x opers = Some t \<Longrightarrow> length opers \<le> remaining x" for x opers t
  proof (induction opers arbitrary: x)
    case (Cons oper opers)
    then obtain y where y: "edge x oper = Some y" "path y opers = Some t" by (auto split: option.splits)
    then show ?case using Cons.IH [of y] edge_remaining [OF y(1)] by simp
  qed simp
  then show ?thesis using run_path [of s cs] by blast
qed

end

lemma check_caller_val:
  "check_caller e p r = (if role_matches r p \<and> party_identity p \<noteq> [] \<and> party_identity p = stored_party e r then Ok ()
     else Err (UnauthorizedCaller (role_as_str r) (party_role p) (party_identity p)))"
  by (auto simp: check_caller_def Let_def)

lemmas escrow_methods = lock_def settle_def dispute_def resolve_valid_def resolve_invalid_def

lemma escrow_call_val:
  "escrow_call (oper, p) e =
     (if authorized e oper p then
        (case edge (esc_state e) oper of
           Some t \<Rightarrow> (Ok t, e\<lparr>esc_state := t\<rparr>)
         | None \<Rightarrow> (Err (case oper of OpLock \<Rightarrow> LockFromInvalid (esc_state e) | OpSettle \<Rightarrow> SettleFromInvalid (esc_state e)
               | OpDispute \<Rightarrow> DisputeFromInvalid (esc_state e) | _ \<Rightarrow> ResolveFromInvalid (esc_state e)), e))
      else (Err (UnauthorizedCaller (role_as_str (op_role oper)) (party_role p) (party_identity p)), e))"
  by (cases oper; cases "esc_state e") (auto simp: escrow_methods check_caller_val authorized_def)

interpretation plain_escrow: escrow_machine escrow_call "\<lambda>e. e"
proof
  fix c e
  show "\<not> authorized e (fst c) (snd c) \<or> edge (esc_state e) (fst c) = None \<Longrightarrow> \<exists>x. escrow_call c e = (Err x, e)"
    using escrow_call_val [of "fst c" "snd c" e] by auto
  show "authorized e (fst c) (snd c) \<Longrightarrow> edge (esc_state e) (fst c) = Some t \<Longrightarrow>
      \<exists>e'. escrow_call c e = (Ok t, e') \<and> e' = e\<lparr>esc_state := t\<rparr>" for t
    using escrow_call_val [of "fst c" "snd c" e] by auto
qed

lemma task_escrow_call_val:
  "task_escrow_call c t = (let (r, e) = escrow_call c (te_base t) in (map_err TaskEscrowFailed r, t\<lparr>te_base := e\<rparr>))"
  by (cases c rule: task_escrow_call.cases)
    (simp_all add: task_lock_def task_settle_def task_dispute_def task_resolve_valid_def task_resolve_invalid_def on_base_def)

interpretation wrapped_escrow: escrow_machine task_escrow_call te_base
proof
  fix c t
  show "\<not> authorized (te_base t) (fst c) (snd c) \<or> edge (esc_state (te_base t)) (fst c) = None \<Longrightarrow>
      \<exists>x. task_escrow_call c t = (Err x, t)"
    using plain_escrow.call_rejects [of "te_base t" c] by (auto simp: task_escrow_call_val)
  show "authorized (te_base t) (fst c) (snd c) \<Longrightarrow> edge (esc_state (te_base t)) (fst c) = Some u \<Longrightarrow>
      \<exists>t'. task_escrow_call c t = (Ok u, t') \<and> te_base t' = (te_base t)\<lparr>esc_state := u\<rparr>" for u
    using plain_escrow.call_accepts [of "te_base t" c] by (auto simp: task_escrow_call_val)
qed

subsection \<open>Disputes\<close>

datatype DisputeReason = ResultMismatch | ProviderTimeout | ProviderError

record evidence =
  ev_hash :: "u8 list"
  ev_description :: string

datatype DisputeError = AlreadyExists "u8 list"

record dispute_record =
  d_escrow_id :: "u8 list"
  d_raised_by :: string
  d_reason :: DisputeReason
  d_evidence :: "evidence option"

type_synonym registry = "(u8 list, dispute_record) btree"

definition has_evidence :: "dispute_record \<Rightarrow> bool" where
  "has_evidence d \<longleftrightarrow> d_evidence d \<noteq> None"

definition registry_open :: "dispute_record \<Rightarrow> registry \<Rightarrow> (dispute_record, DisputeError) outcome \<times> registry" where
  "registry_open d reg =
     (if bt_get reg (d_escrow_id d) \<noteq> None then (Err (AlreadyExists (d_escrow_id d)), reg)
      else let reg' = bt_insert (d_escrow_id d) d reg in
        (case bt_get reg' (d_escrow_id d) of Some x \<Rightarrow> Ok x | None \<Rightarrow> Panic, reg'))"

definition registry_get :: "registry \<Rightarrow> u8 list \<Rightarrow> dispute_record option" where
  "registry_get reg i = bt_get reg i"

definition registry_resolve :: "u8 list \<Rightarrow> registry \<Rightarrow> dispute_record option \<times> registry" where
  "registry_resolve i reg = (bt_get reg i, bt_remove i reg)"

definition registry_len :: "registry \<Rightarrow> nat" where
  "registry_len reg = length reg"

definition registry_ok :: "registry \<Rightarrow> bool" where
  "registry_ok reg \<longleftrightarrow> bt_ok reg \<and> (\<forall>(i, d) \<in> set reg. i = d_escrow_id d)"

lemma registry_open_val:
  assumes "registry_ok reg"
  shows "registry_open d reg =
    (if registry_get reg (d_escrow_id d) = None then (Ok d, bt_insert (d_escrow_id d) d reg)
     else (Err (AlreadyExists (d_escrow_id d)), reg))"
  using bt_insert_map [of reg "d_escrow_id d" d] assms
  by (simp add: registry_open_def registry_get_def registry_ok_def bt_get_def Let_def)

lemma registry_insert_ok:
  assumes "registry_ok reg" "registry_get reg (d_escrow_id d) = None"
  shows "registry_ok (bt_insert (d_escrow_id d) d reg)" "registry_len (bt_insert (d_escrow_id d) d reg) = registry_len reg + 1"
proof -
  have ok: "bt_ok reg" using assms(1) by (simp add: registry_ok_def)
  have "d_escrow_id d \<notin> fst ` set reg" using assms(2) by (simp add: registry_get_def bt_get_def map_of_eq_None_iff)
  then have m: "mset (bt_insert (d_escrow_id d) d reg) = add_mset (d_escrow_id d, d) (mset reg)" by (rule btree.insert_fresh [OF ok])
  then have "set (bt_insert (d_escrow_id d) d reg) = insert (d_escrow_id d, d) (set reg)"
    by (metis set_mset_add_mset_insert set_mset_mset)
  then show "registry_ok (bt_insert (d_escrow_id d) d reg)"
    using assms(1) bt_insert_ok [OF ok] by (simp add: registry_ok_def)
  show "registry_len (bt_insert (d_escrow_id d) d reg) = registry_len reg + 1"
    using arg_cong [OF m, of size] by (simp add: registry_len_def del: size_mset) (simp add: size_mset)
qed

lemma registry_remove_ok: "registry_ok reg \<Longrightarrow> registry_ok (bt_remove i reg)"
  by (auto simp: registry_ok_def bt_remove_ok) (auto simp: bt_remove_def)

subsection \<open>Properties\<close>

text \<open>C3: The escrow methods refine the life cycle: a call by the stored counterparty of the role
  the operation requires, in a state that has an edge for it, moves the escrow along that edge and
  changes nothing else; every other call is rejected with the error the code documents and leaves
  the escrow unchanged. The task escrow behaves the same on its base escrow and wraps
  the error.\<close>

theorem escrow_refines_life_cycle:
  "escrow_call (oper, p) e =
     (if authorized e oper p then
        (case edge (esc_state e) oper of
           Some t \<Rightarrow> (Ok t, e\<lparr>esc_state := t\<rparr>)
         | None \<Rightarrow> (Err (case oper of OpLock \<Rightarrow> LockFromInvalid (esc_state e) | OpSettle \<Rightarrow> SettleFromInvalid (esc_state e)
               | OpDispute \<Rightarrow> DisputeFromInvalid (esc_state e) | _ \<Rightarrow> ResolveFromInvalid (esc_state e)), e))
      else (Err (UnauthorizedCaller (role_as_str (op_role oper)) (party_role p) (party_identity p)), e))
   \<and> task_escrow_call (oper, p) t =
       (map_err TaskEscrowFailed (fst (escrow_call (oper, p) (te_base t))), t\<lparr>te_base := snd (escrow_call (oper, p) (te_base t))\<rparr>)"
  by (simp add: escrow_call_val task_escrow_call_val Let_def split_beta)

text \<open>C33: Over any sequence of calls, at most three succeed from \<open>Pending\<close>, the successful operations
  follow the edges of the life cycle and each was issued by the stored counterparty, the parties
  and the amount never change, and a settled or slashed escrow stays as it is.\<close>

theorem escrow_run_safe:
  "length (accepted escrow_call cs e) \<le> remaining (esc_state e)
   \<and> path (esc_state e) (accepted escrow_call cs e) = Some (esc_state (run_calls escrow_call cs e))
   \<and> (\<exists>s. run_calls escrow_call cs e = e\<lparr>esc_state := s\<rparr>)
   \<and> (\<forall>oper \<in> set (accepted escrow_call cs e). \<exists>p. (oper, p) \<in> set cs \<and> authorized e oper p)
   \<and> (is_terminal e \<longrightarrow> run_calls escrow_call cs e = e)"
  using plain_escrow.accepted_bound [of cs e] plain_escrow.run_path [of e cs]
    plain_escrow.accepted_authorized [of _ cs e] plain_escrow.terminal_absorbing [of e cs] by auto

theorem escrow_run_safe_witness:
  "run_calls escrow_call [(OpSettle, Seller ''s''), (OpDispute, Buyer ''b'')]
      (with_arbitrator [] ''b'' ''s'' ''a'' CANONICAL_ZERO \<lparr>esc_state := Settled\<rparr>)
    = with_arbitrator [] ''b'' ''s'' ''a'' CANONICAL_ZERO \<lparr>esc_state := Settled\<rparr>"
  using escrow_run_safe [of "[(OpSettle, Seller ''s''), (OpDispute, Buyer ''b'')]"
      "with_arbitrator [] ''b'' ''s'' ''a'' CANONICAL_ZERO \<lparr>esc_state := Settled\<rparr>"]
  by (simp add: is_terminal_def)

text \<open>An escrow made by \<open>Escrow::new\<close> has no arbitrator, so it is never slashed, and once it is
  disputed no sequence of calls changes it any more: the dispute cannot be decided.\<close>

theorem escrow_without_arbitrator:
  assumes "arbitrator e = []"
  shows "(esc_state e \<noteq> Slashed \<longrightarrow> esc_state (run_calls escrow_call cs e) \<noteq> Slashed)
    \<and> (esc_state e = Disputed \<longrightarrow> run_calls escrow_call cs e = e)"
proof -
  have no: "OpResolveValid \<notin> set (accepted escrow_call cs e)" "OpResolveInvalid \<notin> set (accepted escrow_call cs e)"
    using plain_escrow.accepted_authorized [of _ cs e] assms by (force simp: authorized_def)+
  obtain t where t: "path (esc_state e) (accepted escrow_call cs e) = Some t" "run_calls escrow_call cs e = e\<lparr>esc_state := t\<rparr>"
    using plain_escrow.run_path [of e cs] by blast
  have sl: "path x opers = Some t \<Longrightarrow> x \<noteq> Slashed \<Longrightarrow> OpResolveValid \<notin> set opers \<Longrightarrow> t \<noteq> Slashed" for x opers
  proof (induction opers arbitrary: x)
    case (Cons oper opers)
    then obtain y where y: "edge x oper = Some y" "path y opers = Some t" by (auto split: option.splits)
    then have "y \<noteq> Slashed" using Cons.prems by (cases "(x, oper)" rule: edge.cases) auto
    then show ?case using Cons y by auto
  qed auto
  have "accepted escrow_call cs e = []" if "esc_state e = Disputed"
  proof (cases "accepted escrow_call cs e")
    case (Cons oper opers)
    then show ?thesis using t(1) no that by (cases oper) auto
  qed simp
  then show ?thesis using sl [OF t(1)] no t(2) plain_escrow.run_rejected [of cs e] by auto
qed

theorem escrow_without_arbitrator_witness:
  "run_calls escrow_call [(OpResolveInvalid, Arbitrator ''a'')] (escrow_new [] ''b'' ''s'' CANONICAL_ZERO \<lparr>esc_state := Disputed\<rparr>)
    = escrow_new [] ''b'' ''s'' CANONICAL_ZERO \<lparr>esc_state := Disputed\<rparr>"
  using escrow_without_arbitrator [of "escrow_new [] ''b'' ''s'' CANONICAL_ZERO \<lparr>esc_state := Disputed\<rparr>"
      "[(OpResolveInvalid, Arbitrator ''a'')]"]
  by (simp add: escrow_new_def)

text \<open>C40: An escrow between named parties can always be finished: from every state that is not
  terminal there is a sequence of calls by the stored parties that settles it.\<close>

theorem escrow_can_finish:
  assumes "buyer e \<noteq> []" "seller e \<noteq> []" "arbitrator e \<noteq> []" "\<not> is_terminal e"
  shows "\<exists>cs. length cs \<le> 2 \<and> run_calls escrow_call cs e = e\<lparr>esc_state := Settled\<rparr>"
proof -
  let ?b = "(OpLock, Buyer (buyer e))" and ?s = "(OpSettle, Seller (seller e))"
  let ?a = "(OpResolveInvalid, Arbitrator (arbitrator e))"
  consider "esc_state e = Pending" | "esc_state e = Locked" | "esc_state e = Disputed"
    using assms(4) by (cases "esc_state e") (auto simp: is_terminal_def)
  then show ?thesis
  proof cases
    case 1
    then show ?thesis using assms
      by (intro exI [of _ "[?b, ?s]"]) (simp add: escrow_methods check_caller_val)
  next
    case 2
    then show ?thesis using assms
      by (intro exI [of _ "[?s]"]) (simp add: escrow_methods check_caller_val)
  next
    case 3
    then show ?thesis using assms
      by (intro exI [of _ "[?a]"]) (simp add: escrow_methods check_caller_val)
  qed
qed

theorem escrow_can_finish_witness:
  "\<exists>cs. length cs \<le> 2 \<and> run_calls escrow_call cs (with_arbitrator [] ''b'' ''s'' ''a'' CANONICAL_ZERO)
    = with_arbitrator [] ''b'' ''s'' ''a'' CANONICAL_ZERO \<lparr>esc_state := Settled\<rparr>"
  using escrow_can_finish [of "with_arbitrator [] ''b'' ''s'' ''a'' CANONICAL_ZERO"]
  by (simp add: with_arbitrator_def is_terminal_def)

text \<open>The dispute registry keeps at most one dispute per escrow: \<open>open\<close> files a dispute exactly when
  none is filed for its escrow and is then what \<open>get\<close> returns for that escrow and no other, a second
  \<open>open\<close> is rejected and changes nothing, \<open>resolve\<close> returns and removes the dispute, after which the
  escrow can be disputed again; \<open>open\<close> never panics, and the well-formedness is kept.\<close>

theorem dispute_registry_correct:
  assumes "registry_ok reg"
  shows "case registry_open d reg of
      (Ok x, reg') \<Rightarrow> x = d \<and> registry_get reg (d_escrow_id d) = None \<and> registry_ok reg'
        \<and> registry_len reg' = registry_len reg + 1
        \<and> (\<forall>i. registry_get reg' i = (if i = d_escrow_id d then Some d else registry_get reg i))
        \<and> (d_escrow_id d' = d_escrow_id d \<longrightarrow> registry_open d' reg' = (Err (AlreadyExists (d_escrow_id d)), reg'))
        \<and> fst (registry_resolve (d_escrow_id d) reg') = Some d
        \<and> registry_get (snd (registry_resolve (d_escrow_id d) reg')) (d_escrow_id d) = None
    | (Err x, reg') \<Rightarrow> x = AlreadyExists (d_escrow_id d) \<and> reg' = reg \<and> registry_get reg (d_escrow_id d) \<noteq> None
    | (Panic, _) \<Rightarrow> False"
proof (cases "registry_get reg (d_escrow_id d) = None")
  case True
  let ?r = "bt_insert (d_escrow_id d) d reg"
  have ok: "bt_ok reg" using assms by (simp add: registry_ok_def)
  note r = registry_insert_ok [OF assms True]
  have g: "registry_get ?r i = (if i = d_escrow_id d then Some d else registry_get reg i)" for i
    using bt_insert_map [OF ok, of "d_escrow_id d" d] by (simp add: registry_get_def bt_get_def)
  have "fst (registry_resolve (d_escrow_id d) ?r) = Some d"
    using g [of "d_escrow_id d"] by (simp add: registry_resolve_def registry_get_def)
  moreover have "registry_get (snd (registry_resolve (d_escrow_id d) ?r)) (d_escrow_id d) = None"
    by (simp add: registry_resolve_def registry_get_def bt_get_def bt_remove_map)
  ultimately show ?thesis
    using True r g registry_open_val [OF r(1), of d'] by (simp add: registry_open_val [OF assms])
qed (auto simp: registry_open_val [OF assms])

theorem dispute_registry_witness:
  "fst (registry_open \<lparr>d_escrow_id = [7], d_raised_by = ''b'', d_reason = ProviderError, d_evidence = None\<rparr> [])
    = Ok \<lparr>d_escrow_id = [7], d_raised_by = ''b'', d_reason = ProviderError, d_evidence = None\<rparr>"
  using dispute_registry_correct [of "[]" "\<lparr>d_escrow_id = [7], d_raised_by = ''b'', d_reason = ProviderError, d_evidence = None\<rparr>"]
  by (simp add: registry_ok_def registry_open_def bt_get_def)

end
