(* ===== verification/DfpArith.thy ===== *)
theory DfpArith
  imports Dfp IntSqrt
begin

unbundle bit_operations_syntax

text \<open>
  The arithmetic of \<open>determin/src/arithmetic.rs\<close> on \<open>Dfp\<close>: rounding, alignment, addition,
  subtraction, multiplication, division and square root. Each operation is proved to compute one
  abstract operation, \<open>dfp_trunc\<close>: cut the exact integer result to its 113 leading bits, bring it to
  canonical form and saturate. What integer an operation hands to it is where the operations differ
  from exact arithmetic, and the theorems state it.
\<close>

declare of_nat_unat [simp del]

subsection \<open>Operations\<close>

definition round_u256_to_canonical :: "u128 \<Rightarrow> u128 \<Rightarrow> u128 \<times> int \<times> bool" where
  "round_u256_to_canonical hi lo =
     (if hi = 0 \<and> lo = 0 then (0, 0, False)
      else let msb = if hi \<noteq> 0 then 127 - int (lz128 hi) + 128 else 127 - int (lz128 lo) in
        if msb > 112 then
          (let shift_right = nat (msb - 112);
               s = u256_shr (mk_u256 hi lo) shift_right;
               lost_low_mask = if shift_right = 0 then 0 else shl128 1 shift_right - 1;
               sticky = lo AND lost_low_mask \<noteq> 0;
               trailing = tz128 (u_lo s) in
           if u_lo s = 0 then (0, int shift_right + int trailing, sticky)
           else (shr128 (u_lo s) trailing, int shift_right + int trailing, sticky))
        else if msb < 112 then
          (let trailing = tz128 lo in (shr128 lo trailing, int trailing, False))
        else
          (let trailing = tz128 lo in (shr128 lo trailing, int trailing, False)))"

definition round_to_113 :: "int \<Rightarrow> bool \<Rightarrow> u128 \<times> int" where
  "round_to_113 mantissa pre_sticky =
     (if mantissa = 0 then (0, 0)
      else let abs_mant = word_of_int \<bar>mantissa\<bar> :: u128;
               round_bit = shr128 abs_mant 113 AND 1 \<noteq> 0;
               lost_above_round = shr128 abs_mant 114 \<noteq> 0;
               sticky_bit = pre_sticky \<or> lost_above_round;
               kept_bits = abs_mant AND (shl128 1 113 - 1);
               lsb = kept_bits AND 1;
               rounded = if round_bit \<and> (sticky_bit \<or> lsb = 1) then kept_bits + 1 else kept_bits in
        if rounded = 0 then (0, 0)
        else let trailing = tz128 rounded in (shr128 rounded trailing, int trailing))"

definition align_mantissa :: "dfp \<Rightarrow> int \<Rightarrow> dfp \<times> bool" where
  "align_mantissa d diff =
     (if diff \<le> 0 then (d, False)
      else if diff \<ge> 128 then
        (mk_dfp 0 (as_i32 (dfp_exponent d + diff)) Normal (dfp_sign d), dfp_mantissa d \<noteq> 0)
      else let lost_mask = if diff = 128 then 0 else shl128 1 (nat diff) - 1;
               lost = dfp_mantissa d AND lost_mask;
               sticky = lost \<noteq> 0 in
        (mk_dfp (shr128 (dfp_mantissa d) (nat diff)) (as_i32 (dfp_exponent d + diff)) (dfp_class d) (dfp_sign d),
         sticky))"

definition same_sign_path :: "dfp \<Rightarrow> dfp \<Rightarrow> bool \<times> u128 \<times> int" where
  "same_sign_path a b =
     (let diff = sat_i32 (dfp_exponent a - dfp_exponent b);
          (aligned_a, a_sticky, aligned_b, b_sticky) =
            (if diff \<ge> 0 then (let (b_aligned, b_stk) = align_mantissa b diff in (a, False, b_aligned, b_stk))
             else (let (a_aligned, a_stk) = align_mantissa a (sat_i32 (- diff)) in (a_aligned, a_stk, b, False)));
          sum = dfp_mantissa aligned_a + dfp_mantissa aligned_b;
          (mantissa, exp_adj) =
            (if sum \<ge> shl128 1 113 then
               (let dropped = sum AND 1 \<noteq> 0;
                    shifted = shr128 sum 1;
                    (m, e) = round_to_113 (as_i128 (uint shifted)) (a_sticky \<or> b_sticky \<or> dropped) in
                (m, e + 1))
             else round_to_113 (as_i128 (uint sum)) (a_sticky \<or> b_sticky));
          exponent = sat_i32 (dfp_exponent aligned_a + exp_adj) in
      (dfp_sign aligned_a, mantissa, exponent))"

definition difference_at :: "u128 \<Rightarrow> u128 \<Rightarrow> bool \<Rightarrow> int \<Rightarrow> int \<Rightarrow> bool \<times> u128 \<times> int" where
  "difference_at big small big_sign target_exp diff =
     (let big_u256 = u256_shl (mk_u256 0 big) (nat diff);
          small_u = mk_u256 0 small;
          (mag_hi, mag_lo, sign) =
            (if u_hi big_u256 > u_hi small_u \<or> u_hi big_u256 = u_hi small_u \<and> u_lo big_u256 \<ge> u_lo small_u
             then (let diff_u = u256_sub (mk_u256 (u_hi big_u256) (u_lo big_u256)) small_u in
                   (u_hi diff_u, u_lo diff_u, big_sign))
             else (let diff_u = u256_sub small_u (mk_u256 (u_hi big_u256) (u_lo big_u256)) in
                   (u_hi diff_u, u_lo diff_u, \<not> big_sign)));
          (mantissa, exp_shift, sticky) = round_u256_to_canonical mag_hi mag_lo;
          exponent = sat_i32 (target_exp + exp_shift) in
      (sign, mantissa, exponent))"

definition different_sign_path :: "dfp \<Rightarrow> dfp \<Rightarrow> bool \<times> u128 \<times> int" where
  "different_sign_path a b =
     (let (big, small, big_sign, target_exp, diff) =
            (if dfp_exponent a \<ge> dfp_exponent b
             then (dfp_mantissa a, dfp_mantissa b, dfp_sign a, dfp_exponent b, sat_i32 (dfp_exponent a - dfp_exponent b))
             else (dfp_mantissa b, dfp_mantissa a, dfp_sign b, dfp_exponent a, sat_i32 (dfp_exponent b - dfp_exponent a))) in
      if diff > 143 then
        (big_sign, big, if dfp_exponent a \<ge> dfp_exponent b then dfp_exponent a else dfp_exponent b)
      else difference_at big small big_sign target_exp diff)"

definition dfp_add :: "dfp \<Rightarrow> dfp \<Rightarrow> dfp" where
  "dfp_add a b =
     (if dfp_class a = NaN \<or> dfp_class b = NaN then dfp_nan
      else if dfp_class a = Infinity \<or> dfp_class b = Infinity then dfp_nan
      else if dfp_class a = Zero \<and> dfp_class b = Zero then
        (let result_sign = if dfp_sign a = dfp_sign b then dfp_sign a else False in
         if result_sign then dfp_neg_zero else dfp_zero)
      else if dfp_class a = Zero then b
      else if dfp_class b = Zero then a
      else
        (let (result_sign, mantissa, exponent) =
               (if dfp_sign a = dfp_sign b then same_sign_path a b else different_sign_path a b) in
         if mantissa = 0 then (if result_sign then dfp_neg_zero else dfp_zero)
         else let result = dfp_normalize (mk_dfp mantissa exponent Normal result_sign) in
           if dfp_exponent result > DFP_MAX_EXPONENT then (if dfp_sign result then DFP_MIN else DFP_MAX)
           else result))"

definition dfp_sub :: "dfp \<Rightarrow> dfp \<Rightarrow> dfp" where
  "dfp_sub a b = (let b_neg = b\<lparr>dfp_sign := \<not> dfp_sign b\<rparr> in dfp_add a b_neg)"

definition dfp_mul :: "dfp \<Rightarrow> dfp \<Rightarrow> dfp" where
  "dfp_mul a b =
     (if dfp_class a = NaN \<or> dfp_class b = NaN then dfp_nan
      else if dfp_class a = Infinity \<or> dfp_class b = Infinity then dfp_nan
      else if dfp_class a = Zero \<or> dfp_class b = Zero then
        (let result_sign = dfp_sign a \<noteq> dfp_sign b in if result_sign then dfp_neg_zero else dfp_zero)
      else
        (let result_sign = dfp_sign a \<noteq> dfp_sign b;
             result_exponent = sat_i32 (dfp_exponent a + dfp_exponent b);
             (hi, lo) = mul_u128_to_u256 (dfp_mantissa a) (dfp_mantissa b);
             product = mk_u256 hi lo;
             product_msb = 255 - int (u256_leading_zeros product);
             shift_right = if product_msb \<ge> 112 then nat (product_msb - 112) else 0;
             aligned = u256_shr product shift_right;
             (result_mantissa, exp_adj) = round_to_113 (as_i128 (uint (u_lo aligned))) False;
             exponent = as_i32 (as_i32 (result_exponent + exp_adj) + int shift_right) in
         if result_mantissa = 0 then (if result_sign then dfp_neg_zero else dfp_zero)
         else let result = mk_dfp result_mantissa exponent Normal result_sign in
           if dfp_exponent result > DFP_MAX_EXPONENT then (if dfp_sign result then DFP_MIN else DFP_MAX)
           else dfp_normalize result))"

function div_prescale :: "u128 \<Rightarrow> u128 \<Rightarrow> nat \<Rightarrow> u128 \<times> nat" where
  "div_prescale a_m b_m scale =
     (if b_m \<le> a_m then
        (if scale + 1 > 200 then (shl128 b_m 1, scale + 1) else div_prescale a_m (shl128 b_m 1) (scale + 1))
      else (b_m, scale))"
  by pat_completeness auto
termination
  by (relation "measure (\<lambda>(a_m, b_m, scale). 201 - scale)") auto

declare div_prescale.simps [simp del]

fun div_loop :: "nat \<Rightarrow> u128 \<Rightarrow> u128 \<Rightarrow> u128 \<Rightarrow> u128 \<Rightarrow> u128" where
  "div_loop 0 b_m dividend_hi dividend_lo quot = quot"
| "div_loop (Suc n) b_m dividend_hi dividend_lo quot =
     (let carry = shr128 dividend_lo 127;
          lo = shl128 dividend_lo 1;
          hi = shl128 dividend_hi 1 OR carry;
          q = shl128 quot 1 in
      if hi > b_m \<or> hi = b_m \<and> lo > 0 then div_loop n b_m (hi - b_m) lo (q OR 1)
      else div_loop n b_m hi lo q)"

definition dfp_div :: "dfp \<Rightarrow> dfp \<Rightarrow> dfp" where
  "dfp_div a b =
     (if dfp_class a = NaN \<or> dfp_class b = NaN then dfp_nan
      else if dfp_class a = Infinity \<or> dfp_class b = Infinity then dfp_nan
      else if dfp_class b = Zero then (if dfp_sign a \<noteq> dfp_sign b then DFP_MIN else DFP_MAX)
      else if dfp_class a = Zero then (if dfp_sign a \<noteq> dfp_sign b then dfp_neg_zero else dfp_zero)
      else
        (let result_sign = dfp_sign a \<noteq> dfp_sign b;
             (b_m, scale) = div_prescale (dfp_mantissa a) (dfp_mantissa b) 0;
             quot = div_loop 128 b_m (dfp_mantissa a) 0 0 in
         if quot = 0 then (if result_sign then dfp_neg_zero else dfp_zero)
         else let q_msb = 127 - int (lz128 quot);
                  shift_amount = if q_msb \<ge> 112 then nat (q_msb - 112) else 0;
                  aligned = shr128 quot shift_amount;
                  (result_mantissa, exp_adj) = round_to_113 (as_i128 (uint aligned)) False in
           if result_mantissa = 0 then (if result_sign then dfp_neg_zero else dfp_zero)
           else let exponent = sat_i32 (sat_i32 (sat_i32 (sat_i32 (dfp_exponent a - dfp_exponent b)
                      + (int scale - 128)) + exp_adj) + int shift_amount);
                    result = mk_dfp result_mantissa exponent Normal result_sign in
             if dfp_exponent result > DFP_MAX_EXPONENT then (if dfp_sign result then DFP_MIN else DFP_MAX)
             else dfp_normalize result))"

fun sqrt_loop :: "nat \<Rightarrow> u128 \<Rightarrow> u128 \<Rightarrow> u128 \<times> u128 \<Rightarrow> u128 \<times> u128" where
  "sqrt_loop 0 s_top s_mid r = r"
| "sqrt_loop (Suc b) s_top s_mid r =
     (let (r_hi, r_lo) = r; (c_hi, c_lo) = set_bit_u256 r_hi r_lo b in
      if u256_sq_le_u384 c_hi c_lo s_top s_mid then sqrt_loop b s_top s_mid (c_hi, c_lo)
      else sqrt_loop b s_top s_mid (r_hi, r_lo))"

definition dfp_sqrt :: "dfp \<Rightarrow> dfp" where
  "dfp_sqrt a = (case dfp_class a of
       NaN \<Rightarrow> dfp_nan
     | Zero \<Rightarrow> dfp_zero
     | Infinity \<Rightarrow> dfp_nan
     | Normal \<Rightarrow>
        if dfp_sign a then dfp_nan
        else let (adjusted_mantissa, exponent_quotient) =
                   (if odd (dfp_exponent a) then (shl128 (dfp_mantissa a) 1, dfp_exponent a div 2)
                    else (dfp_mantissa a, dfp_exponent a div 2));
                 scaled_mid = shl128 adjusted_mantissa 98;
                 scaled_top = shr128 adjusted_mantissa 30;
                 (r_hi, r_lo) = sqrt_loop 226 scaled_top scaled_mid (0, 0);
                 result_mantissa_raw = shl128 r_hi 15 OR shr128 r_lo 113 in
          if result_mantissa_raw = 0 then dfp_zero
          else dfp_normalize (mk_dfp result_mantissa_raw exponent_quotient Normal False))"

subsection \<open>The abstract operation\<close>

definition dfp_trunc :: "bool \<Rightarrow> nat \<Rightarrow> int \<Rightarrow> dfp" where
  "dfp_trunc s n e =
     (let k = bit_width n - 113; d = norm_dfp s (n div 2 ^ k) (e + int k) in
      if dfp_exponent d > DFP_MAX_EXPONENT then (if s then DFP_MIN else DFP_MAX) else d)"

lemma chop_less: "n div 2 ^ (bit_width n - 113) < 2 ^ 113"
proof (rule ccontr)
  assume "\<not> n div 2 ^ (bit_width n - 113) < 2 ^ 113"
  then have "2 ^ 113 \<le> n div 2 ^ (bit_width n - 113)" by simp
  then have "2 ^ 113 * 2 ^ (bit_width n - 113) \<le> n" by (simp add: less_eq_div_iff_mult_less_eq)
  moreover have "n < 2 ^ bit_width n" using bit_width_bounds [of n] by (cases "n = 0") simp_all
  moreover have "(2 :: nat) ^ bit_width n \<le> 2 ^ 113 * 2 ^ (bit_width n - 113)"
    unfolding power_add [symmetric] by (intro power_increasing) simp_all
  ultimately show False by linarith
qed

lemma chop_pos: "n \<noteq> 0 \<Longrightarrow> n div 2 ^ (bit_width n - 113) \<noteq> 0"
proof -
  assume n: "n \<noteq> 0"
  have "(2 :: nat) ^ (bit_width n - 113) \<le> 2 ^ (bit_width n - 1)" by (intro power_increasing) simp_all
  then have "2 ^ (bit_width n - 113) \<le> n" using bit_width_bounds [OF n] by linarith
  then show ?thesis by (simp add: div_eq_0_iff)
qed

lemma chop_id: "n < 2 ^ 113 \<Longrightarrow> bit_width n - 113 = 0"
  using bit_width_le [of n 113] by simp

lemma dfp_trunc_zero: "dfp_trunc s 0 e = (if s then dfp_neg_zero else dfp_zero)"
  by (simp add: dfp_trunc_def norm_dfp_def dfp_constants DFP_MAX_EXPONENT_def)

text \<open>How a result of \<open>dfp_trunc\<close> relates to the exact number: it is canonical, and unless it is
  saturated it is the number cut to 113 significant bits.\<close>

lemma DFP_MAX_ok: "dfp_ok DFP_MAX" "dfp_ok DFP_MIN"
  by (simp_all add: dfp_ok_def DFP_MAX_def DFP_MIN_def DFP_MAX_MANTISSA_def DFP_MAX_EXPONENT_def shl128_def)

lemma dfp_trunc_ok: "I32_MIN \<le> e \<Longrightarrow> dfp_ok (dfp_trunc s n e)"
proof -
  assume e: "I32_MIN \<le> e"
  let ?k = "bit_width n - 113"
  let ?d = "norm_dfp s (n div 2 ^ ?k) (e + int ?k)"
  have "dfp_ok ?d" if "\<not> dfp_exponent ?d > DFP_MAX_EXPONENT"
  proof (cases "n = 0")
    case True
    then show ?thesis by (simp add: norm_dfp_def dfp_ok_def dfp_constants)
  next
    case False
    then show ?thesis using that e chop_less [of n] chop_pos [of n] by (intro norm_dfp_ok) (simp_all add: norm_dfp_def)
  qed
  then show ?thesis using DFP_MAX_ok by (simp add: dfp_trunc_def Let_def)
qed

lemma dfp_real_trunc:
  assumes "dfp_exponent (norm_dfp s (n div 2 ^ (bit_width n - 113)) (e + int (bit_width n - 113))) \<le> DFP_MAX_EXPONENT"
  shows "dfp_real (dfp_trunc s n e)
    = (if s then - 1 else 1) * real (n div 2 ^ (bit_width n - 113) * 2 ^ (bit_width n - 113)) * 2 powi e"
  using assms chop_less [of n] by (simp add: dfp_trunc_def Let_def dfp_real_norm power_int_shift)

lemma chop_error:
  assumes "n \<noteq> 0"
  shows "n div 2 ^ (bit_width n - 113) * 2 ^ (bit_width n - 113) \<le> n"
    and "2 ^ 112 * (n - n div 2 ^ (bit_width n - 113) * 2 ^ (bit_width n - 113)) < n"
proof -
  let ?k = "bit_width n - 113"
  show "n div 2 ^ ?k * 2 ^ ?k \<le> n" by (simp add: div_times_less_eq_dividend)
  have r: "n - n div 2 ^ ?k * 2 ^ ?k = n mod 2 ^ ?k" by (simp add: minus_div_mult_eq_mod)
  show "2 ^ 112 * (n - n div 2 ^ ?k * 2 ^ ?k) < n"
  proof (cases "?k = 0")
    case True
    then show ?thesis using assms by (simp only: r) simp
  next
    case False
    have "n mod 2 ^ ?k < 2 ^ ?k" by simp
    then have "2 ^ 112 * (n mod 2 ^ ?k) < 2 ^ 112 * 2 ^ ?k" by (intro mult_strict_left_mono) simp_all
    also have "\<dots> = 2 ^ (bit_width n - 1)" unfolding power_add [symmetric] using False by (intro arg_cong [where f = "power 2"]) simp
    also have "\<dots> \<le> n" using bit_width_bounds [OF assms] by simp
    finally show ?thesis by (simp only: r)
  qed
qed

subsection \<open>Rounding\<close>

lemma as_i128_small: "unat w < 2 ^ 113 \<Longrightarrow> as_i128 (uint (w :: u128)) = int (unat w)"
proof -
  assume w: "unat w < 2 ^ 113"
  have "as_i128 (int n) = int n" if "n < 2 ^ 113" for n using that by (intro as_i128_id) (simp add: i128_range_def)
  from this [OF w] show ?thesis by (simp add: of_nat_unat)
qed

lemma shr128_tz: "m \<noteq> 0 \<Longrightarrow> shr128 m (tz128 m) = of_nat (unat m div 2 ^ tz_nat (unat m))"
proof -
  assume m: "m \<noteq> 0"
  then have "unat (shr128 m (tz128 m)) = unat m div 2 ^ tz_nat (unat m)"
    using tz128_less [OF m] by (simp add: unat_shr128) (simp add: tz128_def)
  then show ?thesis by (metis word_of_unat)
qed

lemma round_to_113_small:
  assumes "n < 2 ^ 113"
  shows "round_to_113 (int n) st = (of_nat (n div 2 ^ tz_nat n), int (tz_nat n))"
proof (cases "n = 0")
  case False
  define w :: u128 where "w = of_nat n"
  have w: "unat w = n" using assms by (simp add: w_def unat_of_nat)
  then have nz: "w \<noteq> 0" using False by (metis unat_0)
  have "unat (shr128 w 113) = 0" using w assms by (simp add: unat_shr128)
  then have r: "shr128 w 113 = 0" by (simp only: unat_eq_0)
  have "unat (w AND (shl128 1 113 - 1)) = unat w" using w assms by (simp add: unat_and_mask128)
  then have k: "w AND (shl128 1 113 - 1) = w" by (rule unsigned_word_eqI)
  have "word_of_int \<bar>int n\<bar> = w" by (simp add: w_def)
  then show ?thesis
    using False nz r k shr128_tz [OF nz] w by (simp add: round_to_113_def Let_def tz128_def)
qed (simp add: round_to_113_def)

lemma dfp_normalize_odd: "odd (unat m) \<Longrightarrow> dfp_normalize (mk_dfp m e Normal s) = mk_dfp m e Normal s"
proof -
  assume m: "odd (unat m)"
  then have "m \<noteq> 0" by auto
  then show ?thesis using m by (simp add: dfp_normalize_def tz128_def Let_def)
qed

text \<open>The tail of every operation: a rounded mantissa with its exponent becomes the truncated value.\<close>

lemma finish_trunc:
  assumes n: "n \<noteq> 0" and k: "k = bit_width n - 113"
    and m: "m = of_nat (n div 2 ^ k div 2 ^ tz_nat (n div 2 ^ k))" and E: "E = e + int k + int (tz_nat (n div 2 ^ k))"
  shows "m \<noteq> 0" "odd (unat m)"
    and "(if E > DFP_MAX_EXPONENT then (if s then DFP_MIN else DFP_MAX) else mk_dfp m E Normal s) = dfp_trunc s n e"
proof -
  have lt: "n div 2 ^ k < WB" using chop_less [of n] k by simp
  have "unat m = n div 2 ^ k div 2 ^ tz_nat (n div 2 ^ k)" unfolding m using lt by (rule unat_of_nat_div)
  then show "odd (unat m)" using tz_nat_split [of "n div 2 ^ k"] chop_pos [OF n] k by simp
  then show "m \<noteq> 0" by auto
  show "(if E > DFP_MAX_EXPONENT then (if s then DFP_MIN else DFP_MAX) else mk_dfp m E Normal s) = dfp_trunc s n e"
    using chop_pos [OF n] by (simp add: dfp_trunc_def norm_dfp_def Let_def m E flip: k)
qed

lemma shift_amount: "(if 112 \<le> int w - 1 then nat (int w - 1 - 112) else 0) = w - 113"
  by (simp add: nat_diff_distrib)

subsection \<open>Multiplication\<close>

lemma u256_bit_width:
  assumes "u256_val x \<noteq> 0"
  shows "255 - int (u256_leading_zeros x) = int (bit_width (u256_val x)) - 1"
proof (cases "u_hi x = 0")
  case True
  then have "u_lo x \<noteq> 0" using assms by (auto simp: u256_val_def)
  then show ?thesis
    using True bit_width_u128 [of "u_lo x"] by (simp add: u256_leading_zeros_def lz128_def u256_val_def)
next
  case False
  let ?h = "unat (u_hi x)"
  have nz: "?h \<noteq> 0" using False by (simp add: unat_eq_0)
  have "u256_val x div 2 ^ 128 = ?h" using unat_WB_less [of "u_lo x"] by (simp add: u256_val_def)
  then have "bit_width ?h = bit_width (u256_val x) - 128" by (metis bit_width_div)
  moreover have "bit_width ?h \<noteq> 0" using nz by (simp add: bit_width.simps [of ?h])
  ultimately show ?thesis
    using False bit_width_u128 [of "u_hi x"] by (simp add: u256_leading_zeros_def lz128_def)
qed

lemma u256_small: "u256_val x < WB \<Longrightarrow> u_hi x = 0 \<and> unat (u_lo x) = u256_val x"
proof -
  assume "u256_val x < WB"
  then have "unat (u_hi x) = 0" by (simp add: u256_val_def)
  then show ?thesis by (simp add: u256_val_def unat_eq_0)
qed

lemma mul_lost_carry_le: "mul_lost_carry a b \<Longrightarrow> WB \<le> a * b"
proof -
  assume c: "mul_lost_carry a b"
  define a1 a0 b1 b0 where d: "a1 = a div LB" "a0 = a mod LB" "b1 = b div LB" "b0 = b mod LB"
  have "(a1 * b0 + a0 * b1) mod LB * LB \<le> (a1 * b0 + a0 * b1) * LB" by (intro mult_right_mono) simp_all
  then have "WB \<le> (a1 * b0 + a0 * b1) * LB + a0 * b0" using c unfolding mul_lost_carry_def d [symmetric] by linarith
  also have "\<dots> \<le> (a1 * LB + a0) * (b1 * LB + b0)" by (simp add: algebra_simps)
  also have "\<dots> = a * b" by (simp only: d div_mult_mod_eq)
  finally show ?thesis .
qed

lemma mul_pair_odd: "odd a \<Longrightarrow> odd b \<Longrightarrow> odd (mul_pair a b)"
  using mul_lost_carry_le [of a b] by (auto simp: mul_pair_def)

lemma dfp_ok_Normal: "dfp_ok d \<Longrightarrow> dfp_class d = Normal \<Longrightarrow>
    odd (unat (dfp_mantissa d)) \<and> unat (dfp_mantissa d) < 2 ^ 113 \<and> i32_range (dfp_exponent d)
    \<and> dfp_exponent d \<le> DFP_MAX_EXPONENT"
  by (simp add: dfp_ok_def i32_range_def DFP_MAX_EXPONENT_def)

lemma dfp_mul_Normal:
  assumes a: "dfp_ok a" "dfp_class a = Normal" and b: "dfp_ok b" "dfp_class b = Normal"
  shows "dfp_mul a b = dfp_trunc (dfp_sign a \<noteq> dfp_sign b)
    (mul_pair (unat (dfp_mantissa a)) (unat (dfp_mantissa b))) (sat_i32 (dfp_exponent a + dfp_exponent b))"
proof -
  note fa = dfp_ok_Normal [OF a] and fb = dfp_ok_Normal [OF b]
  define n where "n = mul_pair (unat (dfp_mantissa a)) (unat (dfp_mantissa b))"
  define k where "k = bit_width n - 113"
  define E where "E = sat_i32 (dfp_exponent a + dfp_exponent b)"
  obtain hi lo where hl: "mul_u128_to_u256 (dfp_mantissa a) (dfp_mantissa b) = (hi, lo)" by fastforce
  have v: "u256_val (mk_u256 hi lo) = n" using mul_u128_to_u256_val [OF hl] by (simp add: n_def)
  have n: "n \<noteq> 0" using mul_pair_odd fa fb by (metis n_def even_zero)
  have k256: "k < 256" "k \<le> 143"
  proof -
    have "n < 2 ^ 256" unfolding v [symmetric] using unat_WB_less [of hi] unat_WB_less [of lo] by simp
    then show "k < 256" "k \<le> 143" using bit_width_le [of n 256] by (simp_all add: k_def)
  qed
  have sh: "(if 112 \<le> 255 - int (u256_leading_zeros (mk_u256 hi lo))
      then nat (255 - int (u256_leading_zeros (mk_u256 hi lo)) - 112) else 0) = k"
  proof -
    have bw: "255 - int (u256_leading_zeros (mk_u256 hi lo)) = int (bit_width n) - 1"
      using u256_bit_width n unfolding v [symmetric] by blast
    show ?thesis unfolding bw k_def by (rule shift_amount)
  qed
  have "u256_val (u256_shr (mk_u256 hi lo) k) = n div 2 ^ k" using u256_shr_val [OF k256(1)] v by simp
  moreover have lt: "n div 2 ^ k < 2 ^ 113" using chop_less [of n] by (simp add: k_def)
  ultimately have al: "unat (u_lo (u256_shr (mk_u256 hi lo) k)) = n div 2 ^ k"
    using u256_small [of "u256_shr (mk_u256 hi lo) k"] by simp
  define m :: u128 where "m = of_nat (n div 2 ^ k div 2 ^ tz_nat (n div 2 ^ k))"
  have r: "round_to_113 (as_i128 (uint (u_lo (u256_shr (mk_u256 hi lo) k)))) False = (m, int (tz_nat (n div 2 ^ k)))"
    using lt al by (simp add: as_i128_small round_to_113_small m_def)
  have tz: "tz_nat (n div 2 ^ k) < 113" using tz_nat_less [OF chop_pos [OF n]] lt by (simp add: k_def)
  have "E \<le> 2046" "I32_MIN \<le> E" using fa fb by (auto simp: E_def sat_i32_def DFP_MAX_EXPONENT_def)
  then have ex: "as_i32 (as_i32 (E + int (tz_nat (n div 2 ^ k))) + int k) = E + int k + int (tz_nat (n div 2 ^ k))"
    using tz k256 by (simp add: i32_range_def)
  note fin = finish_trunc [OF n k_def m_def refl]
  show ?thesis
    unfolding n_def [symmetric] E_def [symmetric] fin(3) [symmetric]
    unfolding dfp_mul_def Let_def hl prod.case sh r ex E_def [symmetric]
    using a b fin(1,2) by (simp add: dfp_normalize_odd)
qed

subsection \<open>Division\<close>

text \<open>The divisor is doubled until it exceeds the dividend.\<close>

lemma div_prescale_val:
  assumes "unat b0 = mb * 2 ^ s0" "0 < mb" "unat a < 2 ^ 113" "s0 \<noteq> 0 \<Longrightarrow> mb * 2 ^ (s0 - 1) \<le> unat a"
    and "unat b0 < 2 ^ 114" "div_prescale a b0 s0 = (b_m, k)"
  shows "unat b_m = mb * 2 ^ k \<and> unat a < mb * 2 ^ k \<and> mb * 2 ^ k < 2 ^ 114
    \<and> (k \<noteq> 0 \<longrightarrow> mb * 2 ^ (k - 1) \<le> unat a) \<and> k \<le> 113"
  using assms
proof (induction a b0 s0 rule: div_prescale.induct)
  case (1 a b0 s0)
  show ?case
  proof (cases "b0 \<le> a")
    case True
    then have le: "mb * 2 ^ s0 \<le> unat a" using 1(2) by (simp add: word_le_nat_alt)
    then have "2 ^ s0 \<le> unat a" using 1(3) by (metis dual_order.trans mult_le_mono1 nat_mult_1 Suc_leI One_nat_def)
    then have "(2 :: nat) ^ s0 < 2 ^ 113" using 1(4) by linarith
    then have s0: "s0 < 113" by (rule power_less_imp_less_exp [rotated]) simp
    have b1: "unat (shl128 b0 1) = mb * 2 ^ (s0 + 1)" using le 1(2,4) by (simp add: unat_shl128 mult.commute mult.left_commute)
    moreover have "mb * 2 ^ (s0 + 1) < 2 ^ 114" using le 1(4) by simp
    ultimately show ?thesis
      using 1(1) [OF True] s0 le 1(3,4,7) True by (simp add: div_prescale.simps [of a b0])
  next
    case False
    then have "unat a < unat b0" "(b_m, k) = (b0, s0)" using 1(7) by (simp_all add: div_prescale.simps [of a b0] word_le_nat_alt)
    moreover have "s0 \<le> 113"
    proof (cases "s0 = 0")
      case False
      then have "mb * 2 ^ (s0 - 1) < 2 ^ 113" using 1(4,5) by linarith
      moreover have "2 ^ (s0 - 1) \<le> mb * 2 ^ (s0 - 1)" using 1(3) by simp
      ultimately have "(2 :: nat) ^ (s0 - 1) < 2 ^ 113" by linarith
      then have "s0 - 1 < 113" by (rule power_less_imp_less_exp [rotated]) simp
      then show ?thesis by simp
    qed simp
    ultimately show ?thesis using 1 by simp
  qed
qed

text \<open>One quotient bit per round. The comparison is strict, so the loop computes the largest integer
  strictly below the quotient.\<close>

lemma div_loop_val:
  assumes "0 < unat hi" "unat hi \<le> unat b" "unat b < 2 ^ 127" "(unat q + 1) * 2 ^ n \<le> WB"
  shows "unat (div_loop n b hi 0 q) = unat q * 2 ^ n + (unat hi * 2 ^ n - 1) div unat b"
  using assms
proof (induction n arbitrary: hi q)
  case 0
  then show ?case by (simp add: div_eq_0_iff)
next
  case (Suc n)
  have z: "shr128 0 127 = 0" "shl128 0 (Suc 0) = 0" by (simp_all add: shr128_def shl128_def)
  have hi2: "unat (shl128 hi 1) = 2 * unat hi" using Suc.prems by (simp add: unat_shl128)
  have "2 * (unat q + 1) * 1 \<le> 2 * (unat q + 1) * 2 ^ n" by (intro mult_left_mono) simp_all
  then have "2 * unat q + 2 \<le> WB" using Suc.prems(4) by simp
  then have q2: "unat (shl128 q 1) = 2 * unat q" by (simp add: unat_shl128)
  have q3: "unat (shl128 q 1 OR 1) = 2 * unat q + 1"
    using unat_or_disjoint(2) [of 1 1 "shl128 q 1"] q2 by simp
  show ?case
  proof (cases "unat b < 2 * unat hi")
    case True
    let ?h = "shl128 hi 1 - b"
    have h: "unat ?h = 2 * unat hi - unat b" using True hi2 by (simp add: unat_sub_if_size)
    have "unat (div_loop (Suc n) b hi 0 q) = unat (div_loop n b ?h 0 (shl128 q 1 OR 1))"
      using True hi2 by (simp add: z word_less_nat_alt)
    also have "\<dots> = (2 * unat q + 1) * 2 ^ n + ((2 * unat hi - unat b) * 2 ^ n - 1) div unat b"
      using Suc.IH [of ?h "shl128 q 1 OR 1"] Suc.prems True h q3 by simp
    also have "\<dots> = unat q * 2 ^ Suc n + (2 ^ n + ((2 * unat hi - unat b) * 2 ^ n - 1) div unat b)" by simp
    also have "2 ^ n + ((2 * unat hi - unat b) * 2 ^ n - 1) div unat b
      = ((2 * unat hi - unat b) * 2 ^ n - 1 + unat b * 2 ^ n) div unat b"
      using Suc.prems by (subst div_mult_self2) simp_all
    also have "(2 * unat hi - unat b) * 2 ^ n - 1 + unat b * 2 ^ n = unat hi * 2 ^ Suc n - 1"
    proof -
      have "2 * unat hi = (2 * unat hi - unat b) + unat b" using True by simp
      then have "unat hi * 2 ^ Suc n = (2 * unat hi - unat b) * 2 ^ n + unat b * 2 ^ n"
        by (metis (no_types, lifting) distrib_right mult.assoc mult.commute power_Suc)
      moreover have "0 < (2 * unat hi - unat b) * 2 ^ n" using True by simp
      ultimately show ?thesis by linarith
    qed
    finally show ?thesis .
  next
    case False
    have "unat (div_loop (Suc n) b hi 0 q) = unat (div_loop n b (shl128 hi 1) 0 (shl128 q 1))"
      using False hi2 by (simp add: z word_less_nat_alt)
    also have "\<dots> = 2 * unat q * 2 ^ n + (2 * unat hi * 2 ^ n - 1) div unat b"
      using Suc.IH [of "shl128 hi 1" "shl128 q 1"] Suc.prems False hi2 q2 by simp
    finally show ?thesis by (simp add: mult.commute mult.left_commute)
  qed
qed

lemma dfp_div_Normal:
  assumes a: "dfp_ok a" "dfp_class a = Normal" and b: "dfp_ok b" "dfp_class b = Normal"
    and e: "I32_MIN + 128 \<le> dfp_exponent a - dfp_exponent b" "dfp_exponent a - dfp_exponent b \<le> 2147483000"
  defines "k \<equiv> snd (div_prescale (dfp_mantissa a) (dfp_mantissa b) 0)"
  shows "dfp_div a b = dfp_trunc (dfp_sign a \<noteq> dfp_sign b)
    ((unat (dfp_mantissa a) * 2 ^ 128 - 1) div (unat (dfp_mantissa b) * 2 ^ k))
    (dfp_exponent a - dfp_exponent b + int k - 128)"
    and "unat (dfp_mantissa a) < unat (dfp_mantissa b) * 2 ^ k"
    and "k \<noteq> 0 \<longrightarrow> unat (dfp_mantissa b) * 2 ^ (k - 1) \<le> unat (dfp_mantissa a)"
proof -
  note fa = dfp_ok_Normal [OF a] and fb = dfp_ok_Normal [OF b]
  obtain b_m where p: "div_prescale (dfp_mantissa a) (dfp_mantissa b) 0 = (b_m, k)"
    by (metis k_def prod.collapse)
  have pos: "0 < unat (dfp_mantissa a)" "0 < unat (dfp_mantissa b)" using fa fb by (auto intro: Nat.gr0I)
  have bm: "unat b_m = unat (dfp_mantissa b) * 2 ^ k" "unat (dfp_mantissa a) < unat (dfp_mantissa b) * 2 ^ k"
    "unat (dfp_mantissa b) * 2 ^ k < 2 ^ 114" "k \<le> 113"
    and kk: "k \<noteq> 0 \<longrightarrow> unat (dfp_mantissa b) * 2 ^ (k - 1) \<le> unat (dfp_mantissa a)"
    using div_prescale_val [OF _ pos(2) _ _ _ p] fa fb by auto
  show "unat (dfp_mantissa a) < unat (dfp_mantissa b) * 2 ^ k" by (rule bm)
  show "k \<noteq> 0 \<longrightarrow> unat (dfp_mantissa b) * 2 ^ (k - 1) \<le> unat (dfp_mantissa a)" by (rule kk)
  define Q where "Q = div_loop 128 b_m (dfp_mantissa a) 0 0"
  define n where "n = (unat (dfp_mantissa a) * 2 ^ 128 - 1) div (unat (dfp_mantissa b) * 2 ^ k)"
  have Q: "unat Q = n"
    unfolding Q_def n_def using div_loop_val [of "dfp_mantissa a" b_m 0 128] pos bm by simp
  have "unat (dfp_mantissa b) * 2 ^ k \<le> unat (dfp_mantissa a) * 2 ^ 128 - 1" using pos bm(3) by simp
  then have n: "n \<noteq> 0" using pos(2) by (simp add: n_def div_eq_0_iff)
  then have Q0: "Q \<noteq> 0" using Q by (metis unat_0)
  define j where "j = bit_width n - 113"
  have j: "j \<le> 15" using bit_width_u128 [of Q] by (simp add: j_def Q)
  have bw: "127 - int (lz128 Q) = int (bit_width n) - 1" using bit_width_u128 [of Q] by (simp add: lz128_def Q)
  have sh: "(if 112 \<le> int (bit_width n) - 1 then nat (int (bit_width n) - 1 - 112) else 0) = j"
    unfolding j_def by (rule shift_amount)
  have lt: "n div 2 ^ j < 2 ^ 113" using chop_less [of n] by (simp add: j_def)
  have al: "unat (shr128 Q j) = n div 2 ^ j" using j by (simp add: unat_shr128 Q)
  define m :: u128 where "m = of_nat (n div 2 ^ j div 2 ^ tz_nat (n div 2 ^ j))"
  have r: "round_to_113 (as_i128 (uint (shr128 Q j))) False = (m, int (tz_nat (n div 2 ^ j)))"
    using lt al by (simp add: as_i128_small round_to_113_small m_def)
  have tz: "tz_nat (n div 2 ^ j) < 113" using tz_nat_less [OF chop_pos [OF n]] lt by (simp add: j_def)
  have ex: "sat_i32 (sat_i32 (sat_i32 (sat_i32 (dfp_exponent a - dfp_exponent b) + (int k - 128))
      + int (tz_nat (n div 2 ^ j))) + int j)
    = dfp_exponent a - dfp_exponent b + int k - 128 + int j + int (tz_nat (n div 2 ^ j))"
    using e tz j bm(4) by (simp add: i32_range_def)
  note fin = finish_trunc [OF n j_def m_def refl]
  show "dfp_div a b = dfp_trunc (dfp_sign a \<noteq> dfp_sign b)
    ((unat (dfp_mantissa a) * 2 ^ 128 - 1) div (unat (dfp_mantissa b) * 2 ^ k))
    (dfp_exponent a - dfp_exponent b + int k - 128)"
    unfolding n_def [symmetric] fin(3) [symmetric]
    unfolding dfp_div_def Let_def p prod.case Q_def [symmetric] bw sh r ex
    using a b fin(1,2) Q0 by (simp add: dfp_normalize_odd)
qed

subsection \<open>Square root\<close>

definition pair_val :: "u128 \<times> u128 \<Rightarrow> nat" where
  "pair_val r = unat (fst r) * WB + unat (snd r)"

text \<open>The bits below 113 never reach the result.\<close>

lemma set_bit_low: "b < 113 \<Longrightarrow> set_bit_u256 hi lo b = (hi', lo') \<Longrightarrow> hi' = hi \<and> shr128 lo' 113 = shr128 lo 113"
proof -
  assume b: "b < 113" and c: "set_bit_u256 hi lo b = (hi', lo')"
  have "(2 :: nat) ^ b < 2 ^ 113" using b by (intro power_strict_increasing) simp_all
  then have "unat (shr128 (shl128 1 b) 113) = 0" using b by (simp add: unat_shr128 unat_shl128_1)
  then have "shr128 (shl128 1 b) 113 = 0" by (simp only: unat_eq_0)
  then show ?thesis using b c by (auto simp: set_bit_u256_def shr128_def drop_bit_or)
qed

lemma low_zero: "WB dvd h * WB + l \<Longrightarrow> l < WB \<Longrightarrow> l = (0 :: nat)"
  by (simp add: dvd_eq_mod_eq_0)

lemma sqrt_loop_low:
  "b \<le> 113 \<Longrightarrow> sqrt_loop b s_top s_mid (hi, lo) = (hi', lo') \<Longrightarrow> hi' = hi \<and> shr128 lo' 113 = shr128 lo 113"
proof (induction b arbitrary: hi lo)
  case (Suc b)
  obtain c_hi c_lo where c: "set_bit_u256 hi lo b = (c_hi, c_lo)" by fastforce
  have "c_hi = hi \<and> shr128 c_lo 113 = shr128 lo 113" using set_bit_low [OF _ c] Suc.prems(1) by simp
  then show ?case
    using Suc.IH [of hi lo] Suc.IH [of c_hi c_lo] Suc.prems c by (auto split: if_splits)
qed simp

lemma set_bit_high:
  assumes "113 \<le> b" "b < 226" "2 ^ Suc b dvd pair_val (hi, lo)" "set_bit_u256 hi lo b = c"
  shows "pair_val c = pair_val (hi, lo) + 2 ^ b"
proof (cases "b \<ge> 128")
  case True
  have d: "(2 :: nat) ^ Suc b = WB * 2 ^ (Suc b - 128)" "(2 :: nat) ^ b = WB * 2 ^ (b - 128)"
    using pow2_split [of 128 "Suc b"] pow2_split [of 128 b] True by simp_all
  then have "WB dvd 2 ^ Suc b" by (simp only: dvd_triv_left)
  then have "WB dvd pair_val (hi, lo)" using assms(3) by (rule dvd_trans)
  then have lo: "unat lo = 0" using unat_WB_less [of lo] by (intro low_zero) (simp_all add: pair_val_def)
  then have "2 ^ (Suc b - 128) dvd unat hi" using assms(3) d(1) by (simp add: pair_val_def mult.commute)
  then have "unat (hi OR shl128 1 (b - 128)) = unat hi + 2 ^ (b - 128)"
    using True assms(2) unat_or_disjoint(2) [of "shl128 1 (b - 128)" "Suc b - 128" hi]
    by (simp add: unat_shl128_1 Suc_diff_le)
  then show ?thesis using True assms(4) d(2) by (auto simp: set_bit_u256_def pair_val_def algebra_simps)
next
  case False
  have "2 ^ Suc b dvd unat hi * 2 ^ 128" using False by (intro dvd_mult le_imp_power_dvd) simp
  then have "2 ^ Suc b dvd unat lo" using assms(3) by (simp add: pair_val_def dvd_add_right_iff)
  then have "unat (lo OR shl128 1 b) = unat lo + 2 ^ b"
    using False unat_or_disjoint(2) [of "shl128 1 b" "Suc b" lo] by (simp add: unat_shl128_1)
  then show ?thesis using False assms(4) by (auto simp: set_bit_u256_def pair_val_def)
qed

text \<open>A candidate for one of the upper bits is compared exactly.\<close>

lemma sq_le_high:
  assumes "c = (c_hi, c_lo)" "2 ^ 113 dvd pair_val c" "pair_val c < 2 ^ 226" "pair_val c < 2 ^ 192 \<or> 2 ^ 192 dvd pair_val c"
  shows "u256_sq_le_u384 c_hi c_lo s_top s_mid \<longleftrightarrow>
    pair_val c * pair_val c \<le> unat s_top * (WB * WB) + unat s_mid * WB"
proof -
  have v: "pair_val c = unat c_hi * WB + unat c_lo" by (simp add: assms(1) pair_val_def)
  have "LB dvd 2 ^ 113" by simp
  then have "LB dvd unat c_hi * WB + unat c_lo" using assms(2) v by (metis dvd_trans)
  moreover have "LB dvd unat c_hi * WB" by (intro dvd_mult) simp
  ultimately have lo: "LB dvd unat c_lo" by (simp add: dvd_add_right_iff)
  have hi: "unat c_hi < 2 ^ 98" using assms(3) v by simp
  have "unat c_hi < LB \<or> LB dvd unat c_hi"
  proof (cases "pair_val c < 2 ^ 192")
    case True
    then show ?thesis using v by simp
  next
    case False
    then have d: "2 ^ 192 dvd unat c_hi * WB + unat c_lo" using assms(4) v by simp
    have "WB dvd 2 ^ 192" by simp
    then have "WB dvd unat c_hi * WB + unat c_lo" using d by (rule dvd_trans)
    then have "unat c_lo = 0" using unat_WB_less [of c_lo] by (rule low_zero)
    then have "LB * WB dvd unat c_hi * WB" using d by simp
    then have "LB dvd unat c_hi" by (rule dvd_times_right_cancel_iff [THEN iffD1, rotated]) simp
    then show ?thesis ..
  qed
  then have "mul_pair (unat c_hi) (unat c_hi) = unat c_hi * unat c_hi" using mul_pair_small mul_pair_aligned by blast
  moreover have "2 * (unat c_hi * unat c_lo) < WB * WB"
  proof -
    have "unat c_hi * unat c_lo \<le> 2 ^ 98 * WB" using hi unat_WB_less [of c_lo] by (intro mult_mono) simp_all
    then show ?thesis by simp
  qed
  ultimately show ?thesis
    using u256_sq_le_u384_val [of c_lo c_hi s_top s_mid] mul_pair_aligned [OF lo] v by simp
qed

lemma sqrt_loop_high:
  assumes "pair_val r * pair_val r \<le> S" "S < (pair_val r + 2 ^ (113 + n)) * (pair_val r + 2 ^ (113 + n))"
    and "2 ^ (113 + n) dvd pair_val r" "113 + n \<le> 226" "S = unat s_top * (WB * WB) + unat s_mid * WB" "S < 2 ^ 340"
  shows "\<exists>r'. sqrt_loop (113 + n) s_top s_mid r = sqrt_loop 113 s_top s_mid r' \<and> 2 ^ 113 dvd pair_val r'
    \<and> pair_val r' * pair_val r' \<le> S \<and> S < (pair_val r' + 2 ^ 113) * (pair_val r' + 2 ^ 113)"
  using assms(1-4)
proof (induction n arbitrary: r)
  case 0
  then show ?case by (intro exI [of _ r]) simp
next
  case (Suc n)
  define b where "b = 113 + n"
  obtain r_hi r_lo where r: "r = (r_hi, r_lo)" by fastforce
  obtain c_hi c_lo where c: "set_bit_u256 r_hi r_lo b = (c_hi, c_lo)" by fastforce
  have b: "113 \<le> b" "b < 226" "2 ^ Suc b dvd pair_val (r_hi, r_lo)" using Suc.prems r by (simp_all add: b_def)
  have cv: "pair_val (c_hi, c_lo) = pair_val r + 2 ^ b" using set_bit_high [OF b c] r by simp
  have R: "pair_val r < 2 ^ 170"
  proof (rule ccontr)
    assume "\<not> pair_val r < 2 ^ 170"
    then have "(2 :: nat) ^ 170 * 2 ^ 170 \<le> pair_val r * pair_val r" by (intro mult_mono) simp_all
    then show False using Suc.prems(1) assms(6) by simp
  qed
  have "2 ^ b dvd pair_val r" using b(3) r by (metis dvd_trans le_imp_power_dvd le_SucI order_refl)
  then have "2 ^ 113 dvd pair_val (c_hi, c_lo)"
    unfolding cv using b(1) by (meson dvd_add dvd_refl dvd_trans le_imp_power_dvd)
  moreover have "pair_val (c_hi, c_lo) < 2 ^ 226" "pair_val (c_hi, c_lo) < 2 ^ 192 \<or> 2 ^ 192 dvd pair_val (c_hi, c_lo)"
  proof -
    have p: "(2 :: nat) ^ b \<le> 2 ^ 225" using b by (intro power_increasing) simp_all
    then show "pair_val (c_hi, c_lo) < 2 ^ 226" using R by (simp add: cv)
    show "pair_val (c_hi, c_lo) < 2 ^ 192 \<or> 2 ^ 192 dvd pair_val (c_hi, c_lo)"
    proof (cases "b < 192")
      case True
      then have "(2 :: nat) ^ b \<le> 2 ^ 191" by (intro power_increasing) simp_all
      then show ?thesis using R by (simp add: cv)
    next
      case False
      then have d: "2 ^ 192 dvd (2 :: nat) ^ b" by (intro le_imp_power_dvd) simp
      then have "2 ^ 192 dvd pair_val r" using \<open>2 ^ b dvd pair_val r\<close> by (rule dvd_trans)
      moreover have "pair_val r < 2 ^ 192" using R by simp
      ultimately have "pair_val r = 0" using nat_dvd_not_less [of "pair_val r" "2 ^ 192"] by (cases "pair_val r = 0") simp_all
      then show ?thesis using d by (simp add: cv)
    qed
  qed
  ultimately have le: "u256_sq_le_u384 c_hi c_lo s_top s_mid \<longleftrightarrow>
    pair_val (c_hi, c_lo) * pair_val (c_hi, c_lo) \<le> S" using sq_le_high assms(5) by blast
  have step: "sqrt_loop (113 + Suc n) s_top s_mid r
    = (if pair_val (c_hi, c_lo) * pair_val (c_hi, c_lo) \<le> S then sqrt_loop (113 + n) s_top s_mid (c_hi, c_lo)
       else sqrt_loop (113 + n) s_top s_mid r)"
    using c le sqrt_loop.simps(2) [of b s_top s_mid r] by (simp add: r b_def add.commute)
  show ?case
  proof (cases "pair_val (c_hi, c_lo) * pair_val (c_hi, c_lo) \<le> S")
    case True
    have "pair_val (c_hi, c_lo) + 2 ^ b = pair_val r + 2 ^ (113 + Suc n)"
      unfolding cv b_def add_Suc_right power_Suc by simp
    then have "S < (pair_val (c_hi, c_lo) + 2 ^ b) * (pair_val (c_hi, c_lo) + 2 ^ b)"
      using Suc.prems(2) by (simp only:)
    moreover have "2 ^ b dvd pair_val (c_hi, c_lo)" using \<open>2 ^ b dvd pair_val r\<close> by (simp add: cv)
    ultimately show ?thesis using Suc.IH [of "(c_hi, c_lo)"] Suc.prems(4) True step by (simp add: b_def)
  next
    case False
    then show ?thesis
      using Suc.IH [of r] Suc.prems step \<open>2 ^ b dvd pair_val r\<close> by (simp add: b_def cv not_le)
  qed
qed

lemma sqrt_scaled_input:
  assumes "M < 2 ^ 114" "unat w = M"
  shows "unat (shr128 w 30) * (WB * WB) + unat (shl128 w 98) * WB = M * 2 ^ 226"
proof -
  have "unat (shl128 w 98) = (2 ^ 98 * M) mod (2 ^ 98 * 2 ^ 30)" by (simp add: unat_shl128 assms(2))
  also have "\<dots> = 2 ^ 98 * (M mod 2 ^ 30)" by (rule mult_mod_right [symmetric])
  finally have "unat (shl128 w 98) = 2 ^ 98 * (M mod 2 ^ 30)" .
  moreover have "unat (shr128 w 30) = M div 2 ^ 30" by (simp add: unat_shr128 assms(2))
  moreover have "x * (WB * WB) + 2 ^ 98 * y * WB = (2 ^ 30 * x + y) * 2 ^ 226" for x y :: nat by simp
  ultimately show ?thesis by (simp only: mult_div_mod_eq)
qed

lemma sqrt_loop_result:
  assumes "M < 2 ^ 114" "unat w = M" "sqrt_loop 226 (shr128 w 30) (shl128 w 98) (0, 0) = (r_hi, r_lo)"
  shows "is_isqrt (int M) (int (unat (shl128 r_hi 15 OR shr128 r_lo 113)))"
    and "unat (shl128 r_hi 15 OR shr128 r_lo 113) < 2 ^ 57"
proof -
  let ?S = "M * 2 ^ 226"
  have S: "?S = unat (shr128 w 30) * (WB * WB) + unat (shl128 w 98) * WB" using sqrt_scaled_input [OF assms(1,2)] by simp
  have "?S < 2 ^ 340" using assms(1) by simp
  then obtain r where r: "sqrt_loop (113 + 113) (shr128 w 30) (shl128 w 98) (0, 0) = sqrt_loop 113 (shr128 w 30) (shl128 w 98) r"
    "2 ^ 113 dvd pair_val r" "pair_val r * pair_val r \<le> ?S" "?S < (pair_val r + 2 ^ 113) * (pair_val r + 2 ^ 113)"
    using sqrt_loop_high [of "(0, 0)" ?S 113, OF _ _ _ _ S] by (auto simp: pair_val_def)
  obtain h l where hl: "r = (h, l)" by fastforce
  have low: "r_hi = h" "shr128 r_lo 113 = shr128 l 113"
    using sqrt_loop_low [of 113 _ _ h l r_hi r_lo] r(1) hl assms(3) by auto
  obtain j where j: "pair_val r = 2 ^ 113 * j" using r(2) by (auto elim: dvdE)
  have "2 ^ 226 * (j * j) \<le> 2 ^ 226 * M" using r(3) by (simp add: j)
  then have sq1: "j * j \<le> M" by simp
  have "2 ^ 226 * M < 2 ^ 226 * ((j + 1) * (j + 1))" using r(4) by (simp add: j algebra_simps)
  then have sq2: "M < (j + 1) * (j + 1)" by simp
  have j57: "j < 2 ^ 57"
  proof (rule ccontr)
    assume "\<not> j < 2 ^ 57"
    then have "(2 :: nat) ^ 57 * 2 ^ 57 \<le> j * j" by (intro mult_mono) simp_all
    then show False using sq1 assms(1) by simp
  qed
  have v: "unat h * WB + unat l = 2 ^ 113 * j" using j hl by (simp add: pair_val_def)
  then have h: "unat h < 2 ^ 42" using j57 by simp
  have "unat (shl128 h 15 OR shr128 l 113) = unat (shl128 h 15) + unat (shr128 l 113)"
  proof (rule unat_or_disjoint(2) [of _ 15])
    show "unat (shr128 l 113) < 2 ^ 15" using unat_WB_less [of l] by (simp add: unat_shr128 less_mult_imp_div_less)
    show "2 ^ 15 dvd unat (shl128 h 15)" using h by (simp add: unat_shl128)
  qed
  also have "\<dots> = 2 ^ 15 * unat h + unat l div 2 ^ 113" using h by (simp add: unat_shl128 unat_shr128)
  also have "\<dots> = (unat h * WB + unat l) div 2 ^ 113"
  proof -
    have "unat h * WB + unat l = 2 ^ 113 * (2 ^ 15 * unat h) + unat l" by simp
    then show ?thesis by (simp only: div_mult_self3) simp
  qed
  also have "\<dots> = j" by (simp add: v)
  finally have raw: "unat (shl128 r_hi 15 OR shr128 r_lo 113) = j" by (simp only: low)
  then show "unat (shl128 r_hi 15 OR shr128 r_lo 113) < 2 ^ 57" using j57 by simp
  have "int (j * j) \<le> int M" "int M < int ((j + 1) * (j + 1))" using sq1 sq2 by (simp_all only: of_nat_le_iff of_nat_less_iff)
  then show "is_isqrt (int M) (int (unat (shl128 r_hi 15 OR shr128 r_lo 113)))"
    unfolding raw is_isqrt_def by (simp add: algebra_simps)
qed

lemma dfp_sqrt_Normal:
  assumes a: "dfp_ok a" "dfp_class a = Normal" "\<not> dfp_sign a"
  defines "M \<equiv> (if odd (dfp_exponent a) then 2 else 1) * unat (dfp_mantissa a)"
  shows "\<exists>s. is_isqrt (int M) (int s) \<and> 0 < s \<and> s < 2 ^ 57 \<and> dfp_sqrt a = dfp_trunc False s (dfp_exponent a div 2)"
proof -
  note fa = dfp_ok_Normal [OF a(1,2)]
  define w where "w = (if odd (dfp_exponent a) then shl128 (dfp_mantissa a) 1 else dfp_mantissa a)"
  have w: "unat w = M" "M < 2 ^ 114" "0 < M" using fa by (auto simp: w_def M_def unat_shl128 intro: Nat.gr0I)
  obtain r_hi r_lo where r: "sqrt_loop 226 (shr128 w 30) (shl128 w 98) (0, 0) = (r_hi, r_lo)" by fastforce
  define m where "m = shl128 r_hi 15 OR shr128 r_lo 113"
  note m = sqrt_loop_result [OF w(2,1) r, folded m_def]
  have pos: "0 < unat m"
  proof (rule Nat.gr0I)
    assume "unat m = 0"
    then show False using m(1) w(3) by (simp add: is_isqrt_def)
  qed
  then have nz: "m \<noteq> 0" by auto
  have e: "- 1073741824 \<le> dfp_exponent a div 2" "dfp_exponent a div 2 \<le> 511"
    using fa zdiv_mono1 [of "I32_MIN" "dfp_exponent a" 2] zdiv_mono1 [of "dfp_exponent a" 1023 2]
    by (simp_all add: i32_range_def DFP_MAX_EXPONENT_def)
  have tz: "tz_nat (unat m) < 57" using tz_nat_less [of "unat m" 57] m(2) pos by simp
  have "dfp_sqrt a = dfp_normalize (mk_dfp m (dfp_exponent a div 2) Normal False)"
    using a nz r by (simp add: dfp_sqrt_def Let_def flip: m_def w_def) (auto simp: w_def m_def)
  also have "\<dots> = norm_dfp False (unat m) (dfp_exponent a div 2)"
    using e tz nz by (intro dfp_normalize_mk) (simp_all add: i32_range_def)
  also have "\<dots> = dfp_trunc False (unat m) (dfp_exponent a div 2)"
    using e tz m(2) pos chop_id [of "unat m"] by (simp add: dfp_trunc_def norm_dfp_def DFP_MAX_EXPONENT_def Let_def)
  finally show ?thesis using m pos by blast
qed

subsection \<open>Addition\<close>

lemma dfp_add_tail:
  assumes "n \<noteq> 0" "k = bit_width n - 113"
    and "m = of_nat (n div 2 ^ k div 2 ^ tz_nat (n div 2 ^ k))" "E = e + int k + int (tz_nat (n div 2 ^ k))"
  shows "(if m = 0 then z
      else let result = dfp_normalize (mk_dfp m E Normal s) in
        if dfp_exponent result > DFP_MAX_EXPONENT then (if dfp_sign result then DFP_MIN else DFP_MAX) else result)
    = dfp_trunc s n e"
  unfolding finish_trunc(3) [OF assms, of s, symmetric] using finish_trunc(1,2) [OF assms]
  by (simp add: dfp_normalize_odd Let_def)

text \<open>Addition of numbers of one sign drops the bits of the operand with the smaller exponent that lie
  below the last bit of the other operand.\<close>

definition same_sign_sum :: "dfp \<Rightarrow> dfp \<Rightarrow> nat \<times> int" where
  "same_sign_sum a b =
     (if dfp_exponent a \<ge> dfp_exponent b
      then (unat (dfp_mantissa a) + unat (dfp_mantissa b) div 2 ^ nat (dfp_exponent a - dfp_exponent b), dfp_exponent a)
      else (unat (dfp_mantissa a) div 2 ^ nat (dfp_exponent b - dfp_exponent a) + unat (dfp_mantissa b), dfp_exponent b))"

lemma dfp_align_val:
  assumes "unat (dfp_mantissa d) < 2 ^ 113" "0 \<le> diff" "i32_range (dfp_exponent d + diff)"
    and "align_mantissa d diff = (x, st)"
  shows "unat (dfp_mantissa x) = unat (dfp_mantissa d) div 2 ^ nat diff"
    and "dfp_exponent x = dfp_exponent d + diff" "dfp_sign x = dfp_sign d"
proof -
  have "unat (dfp_mantissa d) div 2 ^ nat diff = 0" if "128 \<le> diff"
  proof -
    have "(2 :: nat) ^ 128 \<le> 2 ^ nat diff" using that by (intro power_increasing) simp_all
    then show ?thesis using assms(1) by (simp add: div_eq_0_iff)
  qed
  then show "unat (dfp_mantissa x) = unat (dfp_mantissa d) div 2 ^ nat diff"
    using assms by (auto simp: align_mantissa_def Let_def unat_shr128 split: if_splits)
  show "dfp_exponent x = dfp_exponent d + diff" "dfp_sign x = dfp_sign d"
    using assms by (auto simp: align_mantissa_def Let_def split: if_splits)
qed

lemma round_sum:
  assumes n: "unat w = n" "n < 2 ^ 114" "n \<noteq> 0" and k: "k = bit_width n - 113"
  shows "(if w \<ge> shl128 1 113 then
      (let dropped = w AND 1 \<noteq> 0; shifted = shr128 w 1;
           (m, e) = round_to_113 (as_i128 (uint shifted)) (st \<or> st' \<or> dropped) in (m, e + 1))
      else round_to_113 (as_i128 (uint w)) (st \<or> st'))
    = (of_nat (n div 2 ^ k div 2 ^ tz_nat (n div 2 ^ k)), int k + int (tz_nat (n div 2 ^ k)))"
proof (cases "2 ^ 113 \<le> n")
  case True
  then have "bit_width n = 114" using bit_width_unique [of 113 n] n(2) by simp
  then have k1: "k = 1" by (simp add: k)
  have "unat (shr128 w 1) = n div 2" by (simp add: unat_shr128 n(1))
  moreover have "n div 2 < 2 ^ 113" using n(2) by simp
  moreover have "shl128 1 113 \<le> w" using True n(1) by (simp add: word_le_nat_alt unat_shl128_1)
  ultimately show ?thesis by (simp add: as_i128_small round_to_113_small k1 Let_def)
next
  case False
  then have "k = 0" using chop_id [of n] by (simp add: k)
  moreover have "\<not> shl128 1 113 \<le> w" using False n(1) by (simp add: word_le_nat_alt unat_shl128_1)
  ultimately show ?thesis using False n(1) by (simp add: as_i128_small round_to_113_small)
qed

lemma add_113: "x < 2 ^ 113 \<Longrightarrow> y < 2 ^ 113 \<Longrightarrow> x + y < (2 :: nat) ^ 114"
  by simp

lemma same_sign_path_val:
  assumes a: "dfp_ok a" "dfp_class a = Normal" and b: "dfp_ok b" "dfp_class b = Normal"
    and s: "dfp_sign a = dfp_sign b" and e: "i32_range (dfp_exponent a - dfp_exponent b)" "i32_range (dfp_exponent b - dfp_exponent a)"
    and ne: "same_sign_sum a b = (n, x)" and k: "k = bit_width n - 113"
  shows "n \<noteq> 0" and "same_sign_path a b = (dfp_sign a, of_nat (n div 2 ^ k div 2 ^ tz_nat (n div 2 ^ k)),
    x + int k + int (tz_nat (n div 2 ^ k)))"
proof -
  note fa = dfp_ok_Normal [OF a] and fb = dfp_ok_Normal [OF b]
  have pos: "0 < unat (dfp_mantissa a)" "0 < unat (dfp_mantissa b)" using fa fb by (auto intro: Nat.gr0I)
  then show n0: "n \<noteq> 0" using ne by (auto simp: same_sign_sum_def split: if_splits)
  have half: "unat (dfp_mantissa a) div 2 ^ j < 2 ^ 113" "unat (dfp_mantissa b) div 2 ^ j < 2 ^ 113" for j
    using fa fb by (meson div_le_dividend le_less_trans)+
  have n: "n < 2 ^ 114"
  proof (cases "dfp_exponent b \<le> dfp_exponent a")
    case True
    then have "n = unat (dfp_mantissa a) + unat (dfp_mantissa b) div 2 ^ nat (dfp_exponent a - dfp_exponent b)"
      using ne by (auto simp: same_sign_sum_def)
    then show ?thesis using add_113 [of "unat (dfp_mantissa a)", OF _ half(2)] fa by blast
  next
    case False
    then have "n = unat (dfp_mantissa a) div 2 ^ nat (dfp_exponent b - dfp_exponent a) + unat (dfp_mantissa b)"
      using ne by (auto simp: same_sign_sum_def)
    then show ?thesis using add_113 [OF half(1), of "unat (dfp_mantissa b)"] fb by blast
  qed
  have x: "I32_MIN \<le> x" "x \<le> 1023" using ne fa fb by (auto simp: same_sign_sum_def i32_range_def DFP_MAX_EXPONENT_def split: if_splits)
  have "bit_width n \<le> 114" using n by (rule bit_width_le)
  then have k1: "k \<le> 1" by (simp add: k)
  have tz: "tz_nat (n div 2 ^ k) < 113" using tz_nat_less [OF chop_pos [OF n0]] chop_less [of n] by (simp add: k)
  have ex: "sat_i32 (x + (int k + int (tz_nat (n div 2 ^ k)))) = x + int k + int (tz_nat (n div 2 ^ k))"
    using x k1 tz by (subst sat_i32_id) (simp_all add: i32_range_def)
  show "same_sign_path a b = (dfp_sign a, of_nat (n div 2 ^ k div 2 ^ tz_nat (n div 2 ^ k)),
    x + int k + int (tz_nat (n div 2 ^ k)))"
  proof (cases "dfp_exponent a \<ge> dfp_exponent b")
    case True
    let ?d = "dfp_exponent a - dfp_exponent b"
    obtain y st where y: "align_mantissa b ?d = (y, st)" by fastforce
    have "unat (dfp_mantissa y) = unat (dfp_mantissa b) div 2 ^ nat ?d"
      using dfp_align_val(1) [OF _ _ _ y] fa fb True by simp
    then have "unat (dfp_mantissa a + dfp_mantissa y) = n"
      using ne True n by (auto simp: same_sign_sum_def unat_u128_eq_mod)
    note r = round_sum [OF this n n0 k, of False st]
    show ?thesis
      unfolding same_sign_path_def Let_def sat_i32_id [OF e(1)] using True ne y
      by (simp only: r [unfolded Let_def] if_True prod.case diff_ge_0_iff_ge) (use True ne ex in \<open>auto simp: same_sign_sum_def\<close>)
  next
    case False
    let ?d = "dfp_exponent b - dfp_exponent a"
    obtain y st where y: "align_mantissa a ?d = (y, st)" by fastforce
    have v: "unat (dfp_mantissa y) = unat (dfp_mantissa a) div 2 ^ nat ?d" "dfp_exponent y = dfp_exponent b" "dfp_sign y = dfp_sign a"
      using dfp_align_val [OF _ _ _ y] fa fb False by simp_all
    then have "unat (dfp_mantissa y + dfp_mantissa b) = n"
      using ne False n by (auto simp: same_sign_sum_def unat_u128_eq_mod)
    note r = round_sum [OF this n n0 k, of st False]
    have d: "\<not> 0 \<le> sat_i32 (dfp_exponent a - dfp_exponent b)" "sat_i32 (- sat_i32 (dfp_exponent a - dfp_exponent b)) = ?d"
      using False e by simp_all
    show ?thesis
      unfolding same_sign_path_def Let_def using y d
      by (simp only: d y r [unfolded Let_def] if_False prod.case) (use False ne ex v in \<open>auto simp: same_sign_sum_def\<close>)
  qed
qed

lemma dfp_add_same_sign:
  assumes a: "dfp_ok a" "dfp_class a = Normal" and b: "dfp_ok b" "dfp_class b = Normal"
    and s: "dfp_sign a = dfp_sign b" and e: "i32_range (dfp_exponent a - dfp_exponent b)" "i32_range (dfp_exponent b - dfp_exponent a)"
  shows "dfp_add a b = dfp_trunc (dfp_sign a) (fst (same_sign_sum a b)) (snd (same_sign_sum a b))"
proof -
  obtain n x where ne: "same_sign_sum a b = (n, x)" by fastforce
  note p = same_sign_path_val [OF a b s e ne refl]
  show ?thesis
    unfolding dfp_add_def Let_def using a b s
    by (simp only: p(2) DfpClass.distinct if_False if_True prod.case de_Morgan_disj simp_thms)
       (use dfp_add_tail [OF p(1) refl refl refl, of _ x "dfp_sign b", unfolded Let_def] s ne in simp)
qed

text \<open>Addition of numbers of opposite signs subtracts exactly, in 256 bits, at the smaller exponent.\<close>

definition opposite_sign_diff :: "dfp \<Rightarrow> dfp \<Rightarrow> bool \<times> nat \<times> int" where
  "opposite_sign_diff a b =
     (let (big, small, s, e) =
        (if dfp_exponent a \<ge> dfp_exponent b
         then (unat (dfp_mantissa a) * 2 ^ nat (dfp_exponent a - dfp_exponent b), unat (dfp_mantissa b), dfp_sign a, dfp_exponent b)
         else (unat (dfp_mantissa b) * 2 ^ nat (dfp_exponent b - dfp_exponent a), unat (dfp_mantissa a), dfp_sign b, dfp_exponent a)) in
      if small \<le> big then (s, big - small, e) else (\<not> s, small - big, e))"

lemma round_u256_val:
  assumes n: "u256_val (mk_u256 hi lo) = n" "n \<noteq> 0" and k: "k = bit_width n - 113"
  shows "\<exists>st. round_u256_to_canonical hi lo
    = (of_nat (n div 2 ^ k div 2 ^ tz_nat (n div 2 ^ k)), int k + int (tz_nat (n div 2 ^ k)), st)"
proof -
  have nz: "\<not> (hi = 0 \<and> lo = 0)" using n by auto
  have "(if hi \<noteq> 0 then 127 - int (lz128 hi) + 128 else 127 - int (lz128 lo)) = 255 - int (u256_leading_zeros (mk_u256 hi lo))"
    using nz by (simp add: u256_leading_zeros_def)
  also have "\<dots> = int (bit_width n) - 1" using u256_bit_width [of "mk_u256 hi lo"] n unfolding n(1) by blast
  finally have msb: "(if hi \<noteq> 0 then 127 - int (lz128 hi) + 128 else 127 - int (lz128 lo)) = int (bit_width n) - 1" .
  have lt: "n div 2 ^ k < 2 ^ 113" "n div 2 ^ k \<noteq> 0" using chop_less [of n] chop_pos [OF n(2)] by (simp_all add: k)
  have "n < 2 ^ 256" unfolding n(1) [symmetric] using unat_WB_less [of hi] unat_WB_less [of lo] by simp
  then have k256: "k < 256" using bit_width_le [of n 256] by (simp add: k)
  show ?thesis
  proof (cases "bit_width n > 113")
    case True
    then have sh: "nat (int (bit_width n) - 1 - 112) = k" by (simp add: k nat_diff_distrib)
    have "u256_val (u256_shr (mk_u256 hi lo) k) = n div 2 ^ k" using u256_shr_val [OF k256, of "mk_u256 hi lo"] n(1) by simp
    then have al: "unat (u_lo (u256_shr (mk_u256 hi lo) k)) = n div 2 ^ k"
      using u256_small [of "u256_shr (mk_u256 hi lo) k"] lt by simp
    then have w: "u_lo (u256_shr (mk_u256 hi lo) k) \<noteq> 0" using lt(2) by (metis unat_0)
    have c: "112 < int (bit_width n) - 1" using True by simp
    show ?thesis
      unfolding round_u256_to_canonical_def Let_def msb sh using nz c w shr128_tz [OF w] al by (auto simp: tz128_def)
  next
    case False
    then have k0: "k = 0" by (simp add: k)
    then have "n < WB" using lt by simp
    then have lo: "unat lo = n" using u256_small [of "mk_u256 hi lo"] n(1) by simp
    then have w: "lo \<noteq> 0" using n(2) by auto
    have c: "\<not> 112 < int (bit_width n) - 1" using False by simp
    show ?thesis
      unfolding round_u256_to_canonical_def Let_def msb using nz c w shr128_tz [OF w] lo k0 by (auto simp: tz128_def)
  qed
qed

lemma pair_ge_val: "(hi > hi' \<or> hi = hi' \<and> lo \<ge> lo') \<longleftrightarrow> u256_val (mk_u256 hi' lo') \<le> u256_val (mk_u256 hi lo)"
proof -
  have lt: "unat lo < WB" "unat lo' < WB" by (rule unat_WB_less)+
  consider "unat hi < unat hi'" | "unat hi' < unat hi" | "hi = hi'"
    by (metis nat_neq_iff unsigned_word_eqI)
  then show ?thesis
  proof cases
    case 1
    then have "(unat hi + 1) * WB \<le> unat hi' * WB" by (intro mult_right_mono) simp_all
    then show ?thesis using 1 lt by (auto simp: word_less_nat_alt)
  next
    case 2
    then have "(unat hi' + 1) * WB \<le> unat hi * WB" by (intro mult_right_mono) simp_all
    then show ?thesis using 2 lt by (auto simp: word_less_nat_alt)
  next
    case 3
    then show ?thesis by (simp add: word_le_nat_alt)
  qed
qed

lemma u256_collapse: "mk_u256 (u_hi x) (u_lo x) = x"
  by (simp add: mk_u256_def)

text \<open>The subtraction step on two magnitudes, whichever is larger.\<close>

lemma magnitude_difference:
  assumes "u256_val x = big" "u256_val y = small"
    and "(mag_hi, mag_lo, sign) =
      (if u_hi x > u_hi y \<or> u_hi x = u_hi y \<and> u_lo x \<ge> u_lo y
       then (let d = u256_sub (mk_u256 (u_hi x) (u_lo x)) y in (u_hi d, u_lo d, s))
       else (let d = u256_sub y (mk_u256 (u_hi x) (u_lo x)) in (u_hi d, u_lo d, \<not> s)))"
  shows "u256_val (mk_u256 mag_hi mag_lo) = (if small \<le> big then big - small else small - big)"
    and "sign = (if small \<le> big then s else \<not> s)"
proof -
  have c: "(u_hi x > u_hi y \<or> u_hi x = u_hi y \<and> u_lo x \<ge> u_lo y) \<longleftrightarrow> small \<le> big"
    using pair_ge_val [of "u_hi y" "u_hi x" "u_lo y" "u_lo x"] assms(1,2) by (simp only: u256_collapse)
  show "u256_val (mk_u256 mag_hi mag_lo) = (if small \<le> big then big - small else small - big)"
    "sign = (if small \<le> big then s else \<not> s)"
    using assms u256_sub_val [of y x] u256_sub_val [of x y] unfolding c
    by (auto simp: u256_collapse Let_def simp del: u256_val_mk split: if_splits)
qed

lemma difference_at_val:
  assumes "unat big < 2 ^ 113" "unat small < 2 ^ 113" "0 \<le> diff" "diff \<le> 143" "diff \<noteq> 128"
    and "I32_MIN \<le> e" "e \<le> 2000"
    and P: "P = unat big * 2 ^ nat diff" and n: "n = (if unat small \<le> P then P - unat small else unat small - P)"
    and t: "t = (if unat small \<le> P then s else \<not> s)" and k: "k = bit_width n - 113"
  shows "\<exists>E. difference_at big small s e diff = (t, if n = 0 then 0 else of_nat (n div 2 ^ k div 2 ^ tz_nat (n div 2 ^ k)), E)
    \<and> (n \<noteq> 0 \<longrightarrow> E = e + int k + int (tz_nat (n div 2 ^ k)))"
proof -
  let ?x = "u256_shl (u256_new big) (nat diff)" and ?y = "mk_u256 0 small"
  have "(2 :: nat) ^ nat diff \<le> 2 ^ 143" using assms(4) by (intro power_increasing) simp_all
  then have "unat big * 2 ^ nat diff < 2 ^ 113 * 2 ^ 143"
    using assms(1) by (intro le_less_trans [OF mult_left_mono mult_strict_right_mono]) simp_all
  then have P256: "P < WB * WB" "unat big * 2 ^ nat diff < WB * WB" by (simp_all add: P)
  then have x: "u256_val ?x = P" using assms(3-5) u256_shl_val [of big "nat diff"] by (simp add: P)
  have y: "u256_val ?y = unat small" by simp
  define c where "c = (if u_hi ?x > u_hi ?y \<or> u_hi ?x = u_hi ?y \<and> u_lo ?x \<ge> u_lo ?y
       then (let d = u256_sub (mk_u256 (u_hi ?x) (u_lo ?x)) ?y in (u_hi d, u_lo d, s))
       else (let d = u256_sub ?y (mk_u256 (u_hi ?x) (u_lo ?x)) in (u_hi d, u_lo d, \<not> s)))"
  obtain mag_hi mag_lo sign where c3: "c = (mag_hi, mag_lo, sign)" by (cases c)
  note m = magnitude_difference [OF x y c3 [symmetric, unfolded c_def], folded n t]
  have def: "difference_at big small s e diff = (case round_u256_to_canonical mag_hi mag_lo of
      (mantissa, exp_shift, sticky) \<Rightarrow> (sign, mantissa, sat_i32 (e + exp_shift)))"
    unfolding difference_at_def Let_def u256_new_def [symmetric] c3 [unfolded c_def Let_def u256_new_def [symmetric]] by simp
  show ?thesis
  proof (cases "n = 0")
    case True
    then have "unat mag_hi = 0" "unat mag_lo = 0" using m(1) by simp_all
    then have "round_u256_to_canonical mag_hi mag_lo = (0, 0, False)" by (simp add: round_u256_to_canonical_def unat_eq_0)
    then show ?thesis using True m(2) by (auto simp: def t)
  next
    case False
    obtain st where r: "round_u256_to_canonical mag_hi mag_lo
      = (of_nat (n div 2 ^ k div 2 ^ tz_nat (n div 2 ^ k)), int k + int (tz_nat (n div 2 ^ k)), st)"
      using round_u256_val [OF m(1) False k] by blast
    have "n \<le> max P (unat small)" by (simp add: n)
    then have "n < WB * WB" using P256(1) assms(2) by (simp add: max_def split: if_splits)
    then have "bit_width n \<le> 256" by (intro bit_width_le) simp
    moreover have "tz_nat (n div 2 ^ k) < 113" using tz_nat_less [OF chop_pos [OF False]] chop_less [of n] by (simp add: k)
    ultimately have "sat_i32 (e + (int k + int (tz_nat (n div 2 ^ k)))) = e + int k + int (tz_nat (n div 2 ^ k))"
      using assms(6,7) by (subst sat_i32_id) (simp_all add: i32_range_def k)
    then show ?thesis using False m(2) by (simp add: def r t)
  qed
qed

lemma dfp_add_opposite_sign:
  assumes a: "dfp_ok a" "dfp_class a = Normal" and b: "dfp_ok b" "dfp_class b = Normal" and s: "dfp_sign a \<noteq> dfp_sign b"
    and e: "\<bar>dfp_exponent a - dfp_exponent b\<bar> \<le> 143" "\<bar>dfp_exponent a - dfp_exponent b\<bar> \<noteq> 128"
    and d: "opposite_sign_diff a b = (t, n, x)"
  shows "dfp_add a b = dfp_trunc t n x"
proof -
  note fa = dfp_ok_Normal [OF a] and fb = dfp_ok_Normal [OF b]
  define k where "k = bit_width n - 113"
  have "\<exists>E. different_sign_path a b = (t, if n = 0 then 0 else of_nat (n div 2 ^ k div 2 ^ tz_nat (n div 2 ^ k)), E)
    \<and> (n \<noteq> 0 \<longrightarrow> E = x + int k + int (tz_nat (n div 2 ^ k)))"
  proof (cases "dfp_exponent a \<ge> dfp_exponent b")
    case True
    let ?d = "dfp_exponent a - dfp_exponent b"
    have "sat_i32 ?d = ?d" using e True by (intro sat_i32_id) (simp add: i32_range_def)
    then have p: "different_sign_path a b = difference_at (dfp_mantissa a) (dfp_mantissa b) (dfp_sign a) (dfp_exponent b) ?d"
      using True e by (simp add: different_sign_path_def)
    let ?P = "unat (dfp_mantissa a) * 2 ^ nat ?d"
    have d': "x = dfp_exponent b" "n = (if unat (dfp_mantissa b) \<le> ?P then ?P - unat (dfp_mantissa b) else unat (dfp_mantissa b) - ?P)"
      "t = (if unat (dfp_mantissa b) \<le> ?P then dfp_sign a else \<not> dfp_sign a)"
      using d True by (auto simp: opposite_sign_diff_def split: if_splits)
    show ?thesis
      unfolding p d'(1) using fa fb True e by (intro difference_at_val [OF _ _ _ _ _ _ _ refl d'(2,3) k_def]) (auto simp: i32_range_def DFP_MAX_EXPONENT_def)
  next
    case False
    let ?d = "dfp_exponent b - dfp_exponent a"
    have "sat_i32 ?d = ?d" using e False by (intro sat_i32_id) (simp add: i32_range_def)
    then have p: "different_sign_path a b = difference_at (dfp_mantissa b) (dfp_mantissa a) (dfp_sign b) (dfp_exponent a) ?d"
      using False e by (simp add: different_sign_path_def)
    let ?P = "unat (dfp_mantissa b) * 2 ^ nat ?d"
    have d': "x = dfp_exponent a" "n = (if unat (dfp_mantissa a) \<le> ?P then ?P - unat (dfp_mantissa a) else unat (dfp_mantissa a) - ?P)"
      "t = (if unat (dfp_mantissa a) \<le> ?P then dfp_sign b else \<not> dfp_sign b)"
      using d False by (auto simp: opposite_sign_diff_def split: if_splits)
    show ?thesis
      unfolding p d'(1) using fa fb False e by (intro difference_at_val [OF _ _ _ _ _ _ _ refl d'(2,3) k_def]) (auto simp: i32_range_def DFP_MAX_EXPONENT_def)
  qed
  then obtain E where p: "different_sign_path a b = (t, if n = 0 then 0 else of_nat (n div 2 ^ k div 2 ^ tz_nat (n div 2 ^ k)), E)"
    and E: "n \<noteq> 0 \<longrightarrow> E = x + int k + int (tz_nat (n div 2 ^ k))" by blast
  show ?thesis
  proof (cases "n = 0")
    case True
    then show ?thesis using a b s p by (simp add: dfp_add_def dfp_trunc_zero)
  next
    case False
    then have p': "different_sign_path a b = (t, of_nat (n div 2 ^ k div 2 ^ tz_nat (n div 2 ^ k)), E)"
      and "E = x + int k + int (tz_nat (n div 2 ^ k))" using p E by simp_all
    note tail = dfp_add_tail [OF False k_def refl this(2), of _ t, unfolded Let_def]
    show ?thesis unfolding dfp_add_def Let_def p' using a b s by (simp add: tail)
  qed
qed

lemma dfp_add_far:
  assumes a: "dfp_ok a" "dfp_class a = Normal" and b: "dfp_ok b" "dfp_class b = Normal" and s: "dfp_sign a \<noteq> dfp_sign b"
    and e: "143 < dfp_exponent a - dfp_exponent b"
  shows "dfp_add a b = a" "dfp_add b a = a"
proof -
  note fa = dfp_ok_Normal [OF a]
  have nz: "dfp_mantissa a \<noteq> 0" using fa by auto
  have "143 < sat_i32 (dfp_exponent a - dfp_exponent b)" using e by (simp add: sat_i32_def)
  then have p: "different_sign_path a b = (dfp_sign a, dfp_mantissa a, dfp_exponent a)"
    "different_sign_path b a = (dfp_sign a, dfp_mantissa a, dfp_exponent a)"
    using e by (simp_all add: different_sign_path_def)
  have "mk_dfp (dfp_mantissa a) (dfp_exponent a) Normal (dfp_sign a) = a" using a(2) by (metis dfp_collapse)
  then show "dfp_add a b = a" "dfp_add b a = a"
    using a b s p fa nz by (simp_all add: dfp_add_def dfp_normalize_odd)
qed

end
