(* ===== verification/DfpReal.thy ===== *)
theory DfpReal
  imports DfpArith
begin

text \<open>
  What the arithmetic of \<open>Dfp\<close> computes as real numbers. The results are canonical; unless they saturate
  they approximate the exact sum, difference, product, quotient and root from below, with the errors the
  theorems state. The theorems on single inputs show where the code departs from rounding to nearest
  even: carries, ties and low bits that it drops.
\<close>

declare of_nat_unat [simp del]

subsection \<open>Canonical results\<close>

lemma odd_div_tz_less:
  assumes "n \<noteq> 0" "n \<le> 2 ^ 113" "m = (of_nat (n div 2 ^ tz_nat n) :: u128)"
  shows "odd (unat m) \<and> unat m < 2 ^ 113"
proof -
  have m: "unat m = n div 2 ^ tz_nat n" unfolding assms(3) using assms(2) by (intro unat_of_nat_div) simp
  then have o: "odd (unat m)" using tz_nat_split [OF assms(1)] by simp
  moreover have "unat m \<le> 2 ^ 113" using m assms(2) div_le_dividend [of n "2 ^ tz_nat n"] by linarith
  moreover have "unat m \<noteq> 2 ^ 113"
  proof
    assume "unat m = 2 ^ 113"
    moreover have "even ((2 :: nat) ^ 113)" by (simp only: even_power) simp
    ultimately show False using o by simp
  qed
  ultimately show ?thesis by linarith
qed

lemma round_to_113_canonical:
  assumes "round_to_113 x st = (m, e)" "m \<noteq> 0"
  shows "odd (unat m) \<and> unat m < 2 ^ 113"
proof -
  define w :: u128 where "w = word_of_int \<bar>x\<bar>"
  define kept where "kept = w AND (shl128 1 113 - 1)"
  have kept: "unat kept < 2 ^ 113" unfolding kept_def by (subst unat_and_mask128) simp_all
  then have "unat (kept + 1) = unat kept + 1" by (simp add: unat_u128_eq_mod)
  moreover define r where "r = (if shr128 w 113 AND 1 \<noteq> 0 \<and> ((st \<or> shr128 w 114 \<noteq> 0) \<or> kept AND 1 = 1) then kept + 1 else kept)"
  ultimately have "unat r \<le> 2 ^ 113" using kept by simp
  moreover have "(m, e) = (if r = 0 then (0, 0) else (shr128 r (tz128 r), int (tz128 r)))"
  proof -
    have "x \<noteq> 0" using assms by (auto simp: round_to_113_def)
    then show ?thesis
      using assms(1) unfolding round_to_113_def Let_def w_def [symmetric] kept_def [symmetric] r_def [symmetric] by simp
  qed
  ultimately have r: "unat r \<le> 2 ^ 113" "r \<noteq> 0" "m = shr128 r (tz128 r)" using assms(2) by (auto split: if_splits)
  then show ?thesis using odd_div_tz_less [of "unat r" m] shr128_tz [OF r(2)] by (simp add: unat_eq_0)
qed

lemma dfp_const_ok: "dfp_ok dfp_nan" "dfp_ok dfp_zero" "dfp_ok dfp_neg_zero"
  by (simp_all add: dfp_ok_def dfp_constants)

lemma dfp_tail_ok:
  assumes "m \<noteq> 0 \<Longrightarrow> odd (unat m) \<and> unat m < 2 ^ 113" "I32_MIN \<le> E"
  shows "dfp_ok (if m = 0 then (if s then dfp_neg_zero else dfp_zero)
    else if E > DFP_MAX_EXPONENT then (if s' then DFP_MIN else DFP_MAX) else mk_dfp m E Normal s)"
  using assms DFP_MAX_ok dfp_const_ok by (auto simp: dfp_ok_def [of "mk_dfp m E Normal s"])

lemma sat_i32_ge: "I32_MIN \<le> sat_i32 x"
  by (simp add: sat_i32_def)

lemma same_sign_path_ok:
  assumes "same_sign_path a b = (s, m, E)"
  shows "m \<noteq> 0 \<longrightarrow> odd (unat m) \<and> unat m < 2 ^ 113" "I32_MIN \<le> E"
proof -
  show "I32_MIN \<le> E" using assms sat_i32_ge by (auto simp: same_sign_path_def Let_def split: prod.splits)
  have "\<exists>x st e. round_to_113 x st = (m, e)"
    using assms by (auto simp: same_sign_path_def Let_def split: prod.splits if_splits)
  then show "m \<noteq> 0 \<longrightarrow> odd (unat m) \<and> unat m < 2 ^ 113" using round_to_113_canonical by blast
qed

lemma round_u256_canonical:
  assumes "round_u256_to_canonical hi lo = (m, e, st)" "m \<noteq> 0"
  shows "odd (unat m) \<and> unat m < 2 ^ 113"
proof -
  let ?n = "u256_val (mk_u256 hi lo)"
  have "?n \<noteq> 0"
  proof
    assume "?n = 0"
    then have "hi = 0" "lo = 0" by (simp_all add: unat_eq_0)
    then show False using assms by (simp add: round_u256_to_canonical_def)
  qed
  note n = this
  have "m = of_nat (?n div 2 ^ (bit_width ?n - 113) div 2 ^ tz_nat (?n div 2 ^ (bit_width ?n - 113)))"
    using round_u256_val [OF refl n refl] assms(1) by (metis prod.inject)
  then show ?thesis
    using odd_div_tz_less [OF chop_pos [OF n]] chop_less [of ?n] by (simp del: u256_val_mk)
qed

lemma different_sign_path_ok:
  assumes "different_sign_path a b = (s, m, E)" "dfp_ok a" "dfp_class a = Normal" "dfp_ok b" "dfp_class b = Normal"
  shows "m \<noteq> 0 \<longrightarrow> odd (unat m) \<and> unat m < 2 ^ 113" "I32_MIN \<le> E"
proof -
  have d: "(m \<noteq> 0 \<longrightarrow> odd (unat m) \<and> unat m < 2 ^ 113) \<and> I32_MIN \<le> E"
    if "difference_at big small bs te diff = (s, m, E)" for big small bs te diff
  proof -
    from that obtain hi lo e st where r: "round_u256_to_canonical hi lo = (m, e, st)" "E = sat_i32 (te + e)"
      by (auto simp: difference_at_def Let_def split: prod.splits)
    show ?thesis using round_u256_canonical [OF r(1)] sat_i32_ge r(2) by simp
  qed
  show "m \<noteq> 0 \<longrightarrow> odd (unat m) \<and> unat m < 2 ^ 113" "I32_MIN \<le> E"
    using assms(1) d dfp_ok_Normal [OF assms(2,3)] dfp_ok_Normal [OF assms(4,5)]
    by (auto simp: different_sign_path_def Let_def i32_range_def split: if_splits)
qed

lemma dfp_add_ok:
  assumes "dfp_ok a" "dfp_ok b" shows "dfp_ok (dfp_add a b)"
proof (cases "dfp_class a = Normal \<and> dfp_class b = Normal")
  case True
  obtain s m E where p: "(if dfp_sign a = dfp_sign b then same_sign_path a b else different_sign_path a b) = (s, m, E)"
    by (metis prod_cases3)
  then have f: "m \<noteq> 0 \<longrightarrow> odd (unat m) \<and> unat m < 2 ^ 113" "I32_MIN \<le> E"
    using same_sign_path_ok [of a b s m E] different_sign_path_ok [of a b s m E] assms True by (auto split: if_splits)
  have "dfp_add a b = (if m = 0 then (if s then dfp_neg_zero else dfp_zero)
    else if E > DFP_MAX_EXPONENT then (if s then DFP_MIN else DFP_MAX) else mk_dfp m E Normal s)"
    unfolding dfp_add_def Let_def p using True f by (simp add: dfp_normalize_odd)
  then show ?thesis using dfp_tail_ok [of m E] f by simp
next
  case False
  then show ?thesis using assms dfp_const_ok by (cases "dfp_class a"; cases "dfp_class b") (auto simp: dfp_add_def Let_def)
qed

lemma dfp_sub_ok:
  assumes "dfp_ok a" "dfp_ok b" shows "dfp_ok (dfp_sub a b)"
proof (cases "dfp_class b = NaN")
  case True
  then show ?thesis by (simp add: dfp_sub_def dfp_add_def dfp_const_ok)
next
  case False
  then have "dfp_ok (b\<lparr>dfp_sign := \<not> dfp_sign b\<rparr>)" using assms(2) by (cases "dfp_class b") (auto simp: dfp_ok_def)
  then show ?thesis using dfp_add_ok [OF assms(1)] by (simp add: dfp_sub_def)
qed

lemma dfp_mul_ok:
  assumes "dfp_ok a" "dfp_ok b" shows "dfp_ok (dfp_mul a b)"
proof (cases "dfp_class a = Normal \<and> dfp_class b = Normal")
  case True
  then show ?thesis using assms dfp_trunc_ok [OF sat_i32_ge] by (simp add: dfp_mul_Normal)
next
  case False
  then show ?thesis using assms dfp_const_ok
    by (cases "dfp_class a"; cases "dfp_class b") (auto simp: dfp_mul_def Let_def)
qed

lemma dfp_div_ok:
  assumes "dfp_ok a" "dfp_ok b" shows "dfp_ok (dfp_div a b)"
proof (cases "dfp_class a = Normal \<and> dfp_class b = Normal")
  case True
  obtain b_m k where p: "div_prescale (dfp_mantissa a) (dfp_mantissa b) 0 = (b_m, k)" by fastforce
  define Q where "Q = div_loop 128 b_m (dfp_mantissa a) 0 0"
  define j where "j = (if 112 \<le> 127 - int (lz128 Q) then nat (127 - int (lz128 Q) - 112) else 0)"
  obtain m e where r: "round_to_113 (as_i128 (uint (shr128 Q j))) False = (m, e)" by fastforce
  note f = round_to_113_canonical [OF r]
  define E where "E = sat_i32 (sat_i32 (sat_i32 (sat_i32 (dfp_exponent a - dfp_exponent b) + (int k - 128)) + e) + int j)"
  have E: "I32_MIN \<le> E" unfolding E_def by (rule sat_i32_ge)
  have "dfp_div a b = (if Q = 0 \<or> m = 0 then (if dfp_sign a \<noteq> dfp_sign b then dfp_neg_zero else dfp_zero)
    else if E > DFP_MAX_EXPONENT then (if dfp_sign a \<noteq> dfp_sign b then DFP_MIN else DFP_MAX)
    else mk_dfp m E Normal (dfp_sign a \<noteq> dfp_sign b))"
    unfolding dfp_div_def Let_def p prod.case Q_def [symmetric] j_def [symmetric] r E_def [symmetric]
    using True f by (simp add: dfp_normalize_odd)
  moreover have "dfp_ok (if m = 0 then (if dfp_sign a \<noteq> dfp_sign b then dfp_neg_zero else dfp_zero)
    else if E > DFP_MAX_EXPONENT then (if dfp_sign a \<noteq> dfp_sign b then DFP_MIN else DFP_MAX)
    else mk_dfp m E Normal (dfp_sign a \<noteq> dfp_sign b))"
    by (rule dfp_tail_ok [OF f E])
  ultimately show ?thesis by (cases "Q = 0") (simp_all add: dfp_const_ok)
next
  case False
  then show ?thesis using assms dfp_const_ok DFP_MAX_ok
    by (cases "dfp_class a"; cases "dfp_class b") (auto simp: dfp_div_def)
qed

lemma dfp_sqrt_ok:
  assumes "dfp_ok a" shows "dfp_ok (dfp_sqrt a)"
proof (cases "dfp_class a = Normal \<and> \<not> dfp_sign a")
  case True
  then obtain s where "dfp_sqrt a = dfp_trunc False s (dfp_exponent a div 2)" using dfp_sqrt_Normal assms by blast
  moreover have "I32_MIN div 2 \<le> dfp_exponent a div 2"
    using dfp_ok_Normal [OF assms] True by (intro zdiv_mono1) (simp_all add: i32_range_def)
  ultimately show ?thesis by (simp add: dfp_trunc_ok)
next
  case False
  then show ?thesis using dfp_const_ok by (cases "dfp_class a") (auto simp: dfp_sqrt_def)
qed

subsection \<open>Results as real numbers\<close>

definition dfp_fits :: "nat \<Rightarrow> int \<Rightarrow> bool" where
  "dfp_fits n e \<longleftrightarrow>
     (let k = bit_width n - 113 in e + int k + int (tz_nat (n div 2 ^ k)) \<le> DFP_MAX_EXPONENT)"

lemma dfp_trunc_fits:
  assumes "dfp_fits n e" "n \<noteq> 0"
  shows "dfp_real (dfp_trunc s n e)
    = (if s then - 1 else 1) * real (n div 2 ^ (bit_width n - 113) * 2 ^ (bit_width n - 113)) * 2 powi e"
  using assms chop_pos [OF assms(2)]
  by (intro dfp_real_trunc) (simp add: dfp_fits_def norm_dfp_def Let_def)

lemma dfp_trunc_exact: "dfp_fits n e \<Longrightarrow> n < 2 ^ 113 \<Longrightarrow>
    dfp_real (dfp_trunc s n e) = (if s then - 1 else 1) * real n * 2 powi e"
proof (cases "n = 0")
  case True
  then show ?thesis by (simp add: dfp_trunc_zero dfp_real_def dfp_constants)
next
  case False
  assume "dfp_fits n e" "n < 2 ^ 113"
  then show ?thesis using dfp_trunc_fits [of n e s] False chop_id [of n] by simp
qed

lemma dfp_trunc_bounds:
  assumes "dfp_fits n e" "n \<noteq> 0"
  shows "\<bar>dfp_real (dfp_trunc s n e)\<bar> \<le> real n * 2 powi e"
    and "real n * 2 powi e - \<bar>dfp_real (dfp_trunc s n e)\<bar> < real n * 2 powi e / 2 ^ 112"
    and "dfp_real (dfp_trunc s n e) = (if s then - 1 else 1) * \<bar>dfp_real (dfp_trunc s n e)\<bar>"
proof -
  define c where "c = n div 2 ^ (bit_width n - 113) * 2 ^ (bit_width n - 113)"
  have r: "dfp_real (dfp_trunc s n e) = (if s then - 1 else 1) * (real c * 2 powi e)"
    using dfp_trunc_fits [OF assms] by (simp only: c_def mult.assoc)
  have p: "(0 :: real) < 2 powi e" by simp
  have a: "\<bar>dfp_real (dfp_trunc s n e)\<bar> = real c * 2 powi e" unfolding r using p by (simp add: abs_mult)
  have c: "c \<le> n" "2 ^ 112 * (n - c) < n" using chop_error [OF assms(2)] by (simp_all only: c_def)
  show "\<bar>dfp_real (dfp_trunc s n e)\<bar> \<le> real n * 2 powi e" using c(1) p by (simp add: a)
  have "real (2 ^ 112 * (n - c)) < real n" using c(2) by (simp only: of_nat_less_iff)
  then have "2 ^ 112 * (real n - real c) < real n" using c(1) by (simp add: of_nat_diff)
  then have "(real n - real c) * 2 powi e < real n / 2 ^ 112 * 2 powi e" using p by (intro mult_strict_right_mono) simp_all
  then show "real n * 2 powi e - \<bar>dfp_real (dfp_trunc s n e)\<bar> < real n * 2 powi e / 2 ^ 112"
    by (simp only: a left_diff_distrib times_divide_eq_left)
  show "dfp_real (dfp_trunc s n e) = (if s then - 1 else 1) * \<bar>dfp_real (dfp_trunc s n e)\<bar>" unfolding a unfolding r by simp
qed

lemma dfp_real_mult:
  "dfp_real a * dfp_real b = (if dfp_sign a \<noteq> dfp_sign b then - 1 else 1)
    * (real (unat (dfp_mantissa a) * unat (dfp_mantissa b)) * 2 powi (dfp_exponent a + dfp_exponent b))"
  by (simp add: dfp_real_def power_int_add)



lemma div_quotient_bounds:
  fixes A D :: nat
  assumes "0 < A" "0 < D" and Q: "Q = (A - 1) div D"
  shows "Q * D < A" "A \<le> (Q + 1) * D"
proof -
  have "Q * D + (A - 1) mod D = A - 1" by (simp add: Q)
  moreover have "(A - 1) mod D < D" using assms(2) by simp
  ultimately have "Q * D \<le> A - 1" "A - 1 < Q * D + D" by linarith+
  then show "Q * D < A" "A \<le> (Q + 1) * D" using assms(1) by simp_all
qed

lemma scaled_error:
  fixes g r s t p :: real
  assumes "g - r + r / s < g / t" "0 < p"
  shows "g * p - r * p + r * p / s < g * p / t"
  using mult_strict_right_mono [OF assms] by (simp add: algebra_simps)

lemma long_quotient_real:
  fixes A D n :: nat
  assumes "0 < A" "0 < D" "n * D < A * 2 ^ 128" "A * 2 ^ 128 \<le> (n + 1) * D"
  defines "g \<equiv> real (A * 2 ^ 128) / real D"
  shows "real n < g" and "D \<le> 2 * A \<Longrightarrow> g - real n + real n / 2 ^ 112 < g / 2 ^ 111"
proof -
  have "real (n * D) < real (A * 2 ^ 128)" using assms(3) by (simp only: of_nat_less_iff)
  then show lo: "real n < g" using assms(2) by (simp add: g_def pos_less_divide_eq)
  assume "D \<le> 2 * A"
  then have "real D \<le> real (2 * A)" by (simp only: of_nat_le_iff)
  then have big: "2 ^ 127 \<le> g" using assms(2) by (simp add: g_def pos_le_divide_eq)
  have "real (A * 2 ^ 128) \<le> real ((n + 1) * D)" using assms(4) by (simp only: of_nat_le_iff)
  then have "g \<le> real n + 1" using assms(2) by (simp add: g_def pos_divide_le_eq distrib_right)
  then show "g - real n + real n / 2 ^ 112 < g / 2 ^ 111" using lo big by simp
qed


lemma div_prescale_one: "div_prescale 1 1 0 = (2, 1)"
  by (simp add: div_prescale.simps [of 1 1 0] div_prescale.simps [of 1 2] shl128_def word_le_nat_alt)

lemma dfp_trunc_ones: "dfp_trunc False (2 ^ 127 - 1) (- 127) = mk_dfp (2 ^ 113 - 1) (- 113) Normal False"
proof -
  have "bit_width (2 ^ 127 - 1) = 127" using bit_width_unique [of 126 "2 ^ 127 - 1"] by simp
  then show ?thesis by (simp add: dfp_trunc_def norm_dfp_def DFP_MAX_EXPONENT_def)
qed


text \<open>One divided by one is not one.\<close>

theorem dfp_div_one_by_one:
  "dfp_div (dfp_from_i64 1) (dfp_from_i64 1) = mk_dfp (2 ^ 113 - 1) (- 113) Normal False
   \<and> dfp_div (dfp_from_i64 1) (dfp_from_i64 1) \<noteq> dfp_from_i64 1"
proof -
  have one: "dfp_from_i64 1 = mk_dfp 1 0 Normal False"
    by (simp add: dfp_from_i64_norm i64_range_def norm_dfp_def)
  have "dfp_div (mk_dfp 1 0 Normal False) (mk_dfp 1 0 Normal False) = dfp_trunc False (2 ^ 127 - 1) (- 127)"
    using dfp_div_Normal(1) [of "mk_dfp 1 0 Normal False" "mk_dfp 1 0 Normal False"]
    by (simp add: dfp_ok_def DFP_MAX_EXPONENT_def div_prescale_one)
  then show ?thesis unfolding one dfp_trunc_ones by simp
qed

text \<open>C15: Square root: the mantissa of the result is the integer square root of the (for an odd exponent doubled)
  mantissa, so the result has at most 57 bits and is at most the exact root; it is exact only when that
  mantissa is a perfect square.\<close>

theorem dfp_sqrt_correct:
  assumes a: "dfp_ok a" "dfp_class a = Normal" "\<not> dfp_sign a"
  defines "M \<equiv> (if odd (dfp_exponent a) then 2 else 1) * unat (dfp_mantissa a)"
  shows "\<exists>s. is_isqrt (int M) (int s) \<and> dfp_ok (dfp_sqrt a)
    \<and> dfp_real (dfp_sqrt a) = real s * 2 powi (dfp_exponent a div 2)
    \<and> (dfp_real (dfp_sqrt a))\<^sup>2 \<le> dfp_real a
    \<and> dfp_real a < (dfp_real (dfp_sqrt a) + 2 powi (dfp_exponent a div 2))\<^sup>2"
proof -
  obtain s where s: "is_isqrt (int M) (int s)" "0 < s" "s < 2 ^ 57" "dfp_sqrt a = dfp_trunc False s (dfp_exponent a div 2)"
    using dfp_sqrt_Normal [OF a] by (auto simp: M_def)
  define h where "h = dfp_exponent a div 2"
  have h: "h \<le> 511" using dfp_ok_Normal [OF a(1,2)] zdiv_mono1 [of "dfp_exponent a" 1023 2] by (simp add: h_def DFP_MAX_EXPONENT_def)
  have "tz_nat s < 57" using tz_nat_less [of s 57] s by simp
  then have "dfp_fits s h" using chop_id [of s] s(3) h by (simp add: dfp_fits_def DFP_MAX_EXPONENT_def Let_def)
  then have v: "dfp_real (dfp_sqrt a) = real s * 2 powi h" using s dfp_trunc_exact [of s h False] by (simp add: h_def)
  have m: "dfp_real a = real M * (2 powi h)\<^sup>2"
  proof -
    have "dfp_exponent a = h + h + (if odd (dfp_exponent a) then 1 else 0)"
      unfolding h_def by presburger
    moreover have hh: "(2 :: real) powi (2 * h) = (2 powi h)\<^sup>2"
      by (subst mult.commute) (simp add: power_int_mult)
    moreover have "(2 :: real) powi (h + h + (if odd (dfp_exponent a) then 1 else 0))
      = (2 powi h)\<^sup>2 * (if odd (dfp_exponent a) then 2 else 1)"
      by (simp add: power_int_add hh)
    ultimately have "(2 :: real) powi dfp_exponent a = (2 powi h)\<^sup>2 * (if odd (dfp_exponent a) then 2 else 1)"
      by simp
    then show ?thesis using a(3) by (simp add: dfp_real_def M_def)
  qed
  have "real_of_int (int s * int s) \<le> real_of_int (int M)" "real_of_int (int M) < real_of_int ((int s + 1) * (int s + 1))"
    using s(1) unfolding is_isqrt_def by (simp_all only: of_int_le_iff of_int_less_iff)
  then have sq: "(real s)\<^sup>2 \<le> real M" "real M < (real s + 1)\<^sup>2" by (simp_all add: power2_eq_square)
  have p: "(0 :: real) < (2 powi h)\<^sup>2" by simp
  have "(dfp_real (dfp_sqrt a))\<^sup>2 \<le> dfp_real a"
    unfolding v m power_mult_distrib using sq(1) p by (intro mult_right_mono) simp_all
  moreover have "dfp_real (dfp_sqrt a) + 2 powi h = (real s + 1) * 2 powi h" by (simp add: v distrib_right)
  then have "dfp_real a < (dfp_real (dfp_sqrt a) + 2 powi h)\<^sup>2"
    unfolding m using sq(2) p by (simp only: power_mult_distrib) (rule mult_strict_right_mono)
  ultimately show ?thesis using s(1) v dfp_sqrt_ok [OF a(1)] by (intro exI [of _ s]) (simp add: h_def)
qed

theorem dfp_sqrt_correct_witness:
  "\<exists>s. is_isqrt 9 (int s) \<and> dfp_real (dfp_sqrt (mk_dfp 9 0 Normal False)) = real s"
  using dfp_sqrt_correct [of "mk_dfp 9 0 Normal False"] by (auto simp: dfp_ok_def DFP_MAX_EXPONENT_def)

text \<open>The square root of 2 is 1.\<close>

theorem dfp_sqrt_two: "dfp_sqrt (dfp_from_i64 2) = dfp_from_i64 1"
proof -
  have "dfp_from_i64 2 = mk_dfp 1 1 Normal False" and one: "dfp_from_i64 1 = mk_dfp 1 0 Normal False"
    by (simp_all add: dfp_from_i64_norm i64_range_def norm_dfp_def tz_nat.simps [of 2])
  then obtain s where s: "is_isqrt 2 (int s)" "dfp_sqrt (dfp_from_i64 2) = dfp_trunc False s 0"
    using dfp_sqrt_Normal [of "mk_dfp 1 1 Normal False"] by (auto simp: dfp_ok_def DFP_MAX_EXPONENT_def)
  moreover have "is_isqrt 2 1" by (simp add: is_isqrt_def)
  ultimately have "s = 1" using is_isqrt_unique [of 2 "int s" 1] by simp
  then show ?thesis using s(2) by (simp add: one dfp_trunc_def norm_dfp_def bit_width.simps DFP_MAX_EXPONENT_def)
qed

lemma power_int_diff_nat: "d \<le> e \<Longrightarrow> (2 :: real) powi e = 2 ^ nat (e - d) * 2 powi d"
  using power_int_shift [of d "nat (e - d)"] by (simp add: mult.commute)

lemma aligned_bounds:
  fixes m :: nat
  assumes "d \<le> e"
  defines "q \<equiv> m div 2 ^ nat (e - d)"
  shows "real q * 2 powi e \<le> real m * 2 powi d" "real m * 2 powi d < real q * 2 powi e + 2 powi e"
proof -
  let ?p = "2 ^ nat (e - d) :: nat"
  have "m = q * ?p + m mod ?p" unfolding q_def by (rule div_mult_mod_eq [symmetric])
  moreover have "m mod ?p < ?p" by simp
  ultimately have "q * ?p \<le> m" "m < q * ?p + ?p" by linarith+
  then have "real (q * ?p) \<le> real m" "real m < real (q * ?p + ?p)" by (simp_all only: of_nat_le_iff of_nat_less_iff)
  then have r: "real q * 2 ^ nat (e - d) \<le> real m" "real m < (real q + 1) * 2 ^ nat (e - d)" by (simp_all add: distrib_right)
  have p: "(0 :: real) < 2 powi d" by simp
  show "real q * 2 powi e \<le> real m * 2 powi d"
    using mult_right_mono [OF r(1), of "2 powi d"] p by (simp add: power_int_diff_nat [OF assms(1)] mult.assoc)
  have "real m * 2 powi d < (real q + 1) * 2 ^ nat (e - d) * 2 powi d" using r(2) p by (rule mult_strict_right_mono)
  then show "real m * 2 powi d < real q * 2 powi e + 2 powi e"
    by (simp add: power_int_diff_nat [OF assms(1)] algebra_simps)
qed

lemma dfp_real_abs: "\<bar>dfp_real d\<bar> = real (unat (dfp_mantissa d)) * 2 powi dfp_exponent d"
  by (simp add: dfp_real_def abs_mult)

lemma dfp_real_signed: "dfp_sign d \<Longrightarrow> dfp_real d = - \<bar>dfp_real d\<bar>" "\<not> dfp_sign d \<Longrightarrow> dfp_real d = \<bar>dfp_real d\<bar>"
  by (simp_all add: dfp_real_abs) (simp_all add: dfp_real_def)

lemma same_sign_sum_bounds:
  assumes "same_sign_sum a b = (n, x)"
  shows "x = max (dfp_exponent a) (dfp_exponent b)" "real n * 2 powi x \<le> \<bar>dfp_real a\<bar> + \<bar>dfp_real b\<bar>"
    "\<bar>dfp_real a\<bar> + \<bar>dfp_real b\<bar> < real n * 2 powi x + 2 powi x"
proof -
  show "x = max (dfp_exponent a) (dfp_exponent b)" using assms by (auto simp: same_sign_sum_def split: if_splits)
  show "real n * 2 powi x \<le> \<bar>dfp_real a\<bar> + \<bar>dfp_real b\<bar>" "\<bar>dfp_real a\<bar> + \<bar>dfp_real b\<bar> < real n * 2 powi x + 2 powi x"
    using assms aligned_bounds [of "dfp_exponent b" "dfp_exponent a" "unat (dfp_mantissa b)"]
      aligned_bounds [of "dfp_exponent a" "dfp_exponent b" "unat (dfp_mantissa a)"]
    unfolding dfp_real_abs by (auto simp: same_sign_sum_def distrib_right split: if_splits)
qed

text \<open>Addition of numbers of one sign: the result is a lower bound of the sum in magnitude. What is lost is
  less than one unit of the larger exponent and a relative error of \<open>2 ^ -112\<close>. The unit is no small quantity:
  mantissas are kept odd, so that of a power of two has one bit, and 2 + 1 is 2.\<close>

theorem dfp_add_same_sign_correct:
  assumes a: "dfp_ok a" "dfp_class a = Normal" and b: "dfp_ok b" "dfp_class b = Normal"
    and s: "dfp_sign a = dfp_sign b"
    and e: "i32_range (dfp_exponent a - dfp_exponent b)" "i32_range (dfp_exponent b - dfp_exponent a)"
  defines "n \<equiv> fst (same_sign_sum a b)" and "x \<equiv> max (dfp_exponent a) (dfp_exponent b)"
  shows "dfp_add a b = dfp_trunc (dfp_sign a) n x
    \<and> (dfp_fits n x \<longrightarrow>
        \<bar>dfp_real (dfp_add a b)\<bar> \<le> \<bar>dfp_real a + dfp_real b\<bar>
        \<and> \<bar>dfp_real a + dfp_real b\<bar> - \<bar>dfp_real (dfp_add a b)\<bar> < 2 powi x + \<bar>dfp_real a + dfp_real b\<bar> / 2 ^ 112)"
proof -
  have ne: "same_sign_sum a b = (n, x)"
    using same_sign_sum_bounds(1) [of a b "fst (same_sign_sum a b)" "snd (same_sign_sum a b)"]
    by (simp add: n_def x_def prod_eq_iff)
  then have r: "dfp_add a b = dfp_trunc (dfp_sign a) n x" using dfp_add_same_sign [OF a b s e] by simp
  have n0: "n \<noteq> 0" using same_sign_path_val(1) [OF a b s e ne refl] .
  have abs: "\<bar>dfp_real a + dfp_real b\<bar> = \<bar>dfp_real a\<bar> + \<bar>dfp_real b\<bar>"
    using s dfp_real_signed [of a] dfp_real_signed [of b] by (cases "dfp_sign a") linarith+
  note sb = same_sign_sum_bounds(2,3) [OF ne]
  have "\<bar>dfp_real (dfp_add a b)\<bar> \<le> \<bar>dfp_real a\<bar> + \<bar>dfp_real b\<bar>
    \<and> \<bar>dfp_real a\<bar> + \<bar>dfp_real b\<bar> - \<bar>dfp_real (dfp_add a b)\<bar> < 2 powi x + (\<bar>dfp_real a\<bar> + \<bar>dfp_real b\<bar>) / 2 ^ 112"
    if "dfp_fits n x"
  proof
    note t = dfp_trunc_bounds [OF that n0, of "dfp_sign a", folded r]
    show "\<bar>dfp_real (dfp_add a b)\<bar> \<le> \<bar>dfp_real a\<bar> + \<bar>dfp_real b\<bar>" using t(1) sb(1) by linarith
    have "real n * 2 powi x / 2 ^ 112 \<le> (\<bar>dfp_real a\<bar> + \<bar>dfp_real b\<bar>) / 2 ^ 112"
      using sb(1) by (intro divide_right_mono) simp_all
    then show "\<bar>dfp_real a\<bar> + \<bar>dfp_real b\<bar> - \<bar>dfp_real (dfp_add a b)\<bar> < 2 powi x + (\<bar>dfp_real a\<bar> + \<bar>dfp_real b\<bar>) / 2 ^ 112"
      using t(2) sb(2) by linarith
  qed
  then show ?thesis using r by (simp only: abs) blast
qed

theorem dfp_add_same_sign_correct_witness:
  "dfp_add (mk_dfp 5 0 Normal True) (mk_dfp 3 0 Normal True) = dfp_trunc True 8 0"
  using conjunct1 [OF dfp_add_same_sign_correct [of "mk_dfp 5 0 Normal True" "mk_dfp 3 0 Normal True"]]
  by (simp add: dfp_ok_def DFP_MAX_EXPONENT_def i32_range_def same_sign_sum_def)

text \<open>Two plus one is two.\<close>

theorem dfp_add_two_one: "dfp_add (dfp_from_i64 2) (dfp_from_i64 1) = dfp_from_i64 2"
proof -
  have "dfp_from_i64 2 = mk_dfp 1 1 Normal False" "dfp_from_i64 1 = mk_dfp 1 0 Normal False"
    by (simp_all add: dfp_from_i64_norm i64_range_def norm_dfp_def tz_nat.simps [of 2])
  then show ?thesis
    using dfp_add_same_sign [of "mk_dfp 1 1 Normal False" "mk_dfp 1 0 Normal False"]
    by (simp add: dfp_ok_def DFP_MAX_EXPONENT_def i32_range_def same_sign_sum_def dfp_trunc_def norm_dfp_def bit_width.simps)
qed

lemma opposite_sign_diff_real:
  assumes "opposite_sign_diff a b = (t, n, x)" "dfp_sign a \<noteq> dfp_sign b"
  shows "dfp_real a + dfp_real b = (if t then - 1 else 1) * (real n * 2 powi x)"
proof -
  have main: "(if s then - 1 else 1) * real m * 2 powi e + (if \<not> s then - 1 else 1) * real m' * 2 powi d
    = (if t then - 1 else 1) * (real n * 2 powi d)"
    if "d \<le> e" "(t, n) = (if m' \<le> m * 2 ^ nat (e - d) then (s, m * 2 ^ nat (e - d) - m') else (\<not> s, m' - m * 2 ^ nat (e - d)))"
    for m m' e d s t n
  proof -
    have "(2 :: real) powi e = 2 ^ nat (e - d) * 2 powi d" using that(1) by (rule power_int_diff_nat)
    then show ?thesis using that(2) by (cases s) (auto simp: of_nat_diff algebra_simps split: if_splits)
  qed
  show ?thesis
  proof (cases "dfp_exponent a \<ge> dfp_exponent b")
    case True
    then show ?thesis
      using assms main [OF True, of t n "unat (dfp_mantissa b)" "unat (dfp_mantissa a)" "dfp_sign a"]
      by (auto simp: opposite_sign_diff_def dfp_real_def split: if_splits)
  next
    case False
    then show ?thesis
      using assms main [of "dfp_exponent a" "dfp_exponent b" t n "unat (dfp_mantissa a)" "unat (dfp_mantissa b)" "dfp_sign b"]
      by (auto simp: opposite_sign_diff_def dfp_real_def add.commute split: if_splits)
  qed
qed



text \<open>At a distance of exactly 128 the larger operand is lost: \<open>2 ^ 128 - 1\<close> is computed as \<open>-1\<close>.\<close>

theorem dfp_add_distance_128:
  "dfp_sub (mk_dfp 1 128 Normal False) (mk_dfp 1 0 Normal False) = mk_dfp 1 0 Normal True"
proof -
  have z: "u256_shl (mk_u256 0 1) 128 = mk_u256 0 0" using u256_shl_128 [of 1] by (simp add: u256_new_def)
  have r: "round_u256_to_canonical 0 1 = (1, 0, False)"
    by (simp add: round_u256_to_canonical_def lz128_def bit_width.simps tz128_def shr128_def)
  have "difference_at 1 1 False 0 128 = (True, 1, 0)"
    by (simp add: difference_at_def z u256_sub_def r sat_i32_def)
  then have "different_sign_path (mk_dfp 1 128 Normal False) (mk_dfp 1 0 Normal True) = (True, 1, 0)"
    by (simp add: different_sign_path_def sat_i32_def)
  then show ?thesis by (simp add: dfp_sub_def dfp_add_def dfp_normalize_odd DFP_MAX_EXPONENT_def)
qed

text \<open>A product of two 65 bit mantissas that is a quarter too small: \<open>mul_u128_to_u256\<close> loses a carry.\<close>

theorem dfp_mul_loses_carry:
  "let x = mk_dfp 36893488147419103231 0 Normal False in
   dfp_ok x \<and> dfp_real x = 2 ^ 65 - 1 \<and> dfp_real (dfp_mul x x) < 4 / 5 * (dfp_real x * dfp_real x)"
proof -
  let ?x = "mk_dfp 36893488147419103231 0 Normal False"
  have ok: "dfp_ok ?x" by (simp add: dfp_ok_def DFP_MAX_EXPONENT_def)
  have n: "mul_pair 36893488147419103231 36893488147419103231 = 1020847100762815390316336846000466427905"
    by (simp add: mul_pair_def mul_lost_carry_def)
  have "bit_width 1020847100762815390316336846000466427905 = 130"
    using bit_width_unique [of 129 1020847100762815390316336846000466427905] by simp
  then have "dfp_fits 1020847100762815390316336846000466427905 0"
    using tz_nat_less [of "1020847100762815390316336846000466427905 div 2 ^ 17" 113]
    by (simp add: dfp_fits_def DFP_MAX_EXPONENT_def)
  then have "\<bar>dfp_real (dfp_trunc False 1020847100762815390316336846000466427905 0)\<bar> \<le> 1020847100762815390316336846000466427905"
    using dfp_trunc_bounds(1) [of 1020847100762815390316336846000466427905 0 False] by simp
  moreover have "dfp_mul ?x ?x = dfp_trunc False 1020847100762815390316336846000466427905 0"
    using dfp_mul_Normal [OF ok _ ok] n by (simp add: i32_range_def)
  moreover have "dfp_real ?x = 2 ^ 65 - 1" by (simp add: dfp_real_def)
  ultimately show ?thesis using ok by (simp add: abs_le_iff)
qed



text \<open>Special values: NaN and infinities give NaN, zeros follow the sign rules, the root of a negative number
  is NaN. A quotient by zero saturates, also for zero by zero; and a product beyond the largest exponent
  saturates although the largest value is \<open>2 ^ 112\<close> times larger: \<open>2 ^ 1023\<close> times 2 is \<open>DFP_MAX\<close>.\<close>

theorem dfp_special_values:
  "(\<not> is_finite a \<or> \<not> is_finite b \<longrightarrow>
      dfp_add a b = dfp_nan \<and> dfp_sub a b = dfp_nan \<and> dfp_mul a b = dfp_nan \<and> dfp_div a b = dfp_nan)
   \<and> (\<not> is_finite a \<or> dfp_class a = Normal \<and> dfp_sign a \<longrightarrow> dfp_sqrt a = dfp_nan)
   \<and> (is_finite a \<and> is_finite b \<and> (dfp_is_zero a \<or> dfp_is_zero b) \<longrightarrow>
      dfp_mul a b = (if dfp_sign a \<noteq> dfp_sign b then dfp_neg_zero else dfp_zero))
   \<and> (is_finite a \<and> dfp_is_zero b \<longrightarrow> dfp_div a b = (if dfp_sign a \<noteq> dfp_sign b then DFP_MIN else DFP_MAX))
   \<and> (dfp_class a = Normal \<and> dfp_is_zero b \<longrightarrow> dfp_add a b = a \<and> dfp_add b a = a)
   \<and> dfp_mul (mk_dfp 1 1023 Normal False) (mk_dfp 1 1 Normal False) = DFP_MAX"
proof -
  have "dfp_mul (mk_dfp 1 1023 Normal False) (mk_dfp 1 1 Normal False) = dfp_trunc False 1 1024"
    using dfp_mul_Normal [of "mk_dfp 1 1023 Normal False" "mk_dfp 1 1 Normal False"]
    by (simp add: dfp_ok_def DFP_MAX_EXPONENT_def mul_pair_small i32_range_def)
  then have "dfp_mul (mk_dfp 1 1023 Normal False) (mk_dfp 1 1 Normal False) = DFP_MAX"
    by (simp add: dfp_trunc_def norm_dfp_def DFP_MAX_EXPONENT_def bit_width.simps)
  then show ?thesis
    by (cases "dfp_class a"; cases "dfp_class b")
      (simp_all add: is_finite_def is_nan_def is_infinite_def dfp_is_zero_def dfp_add_def dfp_sub_def dfp_mul_def
        dfp_div_def dfp_sqrt_def)
qed

theorem dfp_special_values_witness:
  "dfp_div dfp_zero dfp_zero = DFP_MAX \<and> dfp_add dfp_infinity dfp_zero = dfp_nan"
  using dfp_special_values [of dfp_zero dfp_zero] dfp_special_values [of dfp_infinity dfp_zero]
  by (simp add: is_finite_def is_nan_def is_infinite_def dfp_is_zero_def dfp_constants(1-5))

end
