(* ===== verification/Dvec.thy ===== *)
theory Dvec
  imports DecimalBig
begin

text \<open>
  Deterministic vectors, \<open>determin/src/dvec.rs\<close>. The operations are generic in a scalar type; the trait
  \<open>DvecScalar\<close> (with \<open>MaxScale\<close>) is the record \<open>dvec_scalar\<close> of its methods, whose errors are already
  converted to \<open>DvecError\<close>, and its implementations for \<open>Dqa\<close> and \<open>Decimal\<close> are the two records
  \<open>dqa_dvec\<close> and \<open>decimal_dvec\<close>. What the vector operations rely on is the locale \<open>dvec_numbers\<close>,
  interpreted on both. Vectors are lists; indexing an empty one panics.
\<close>

subsection \<open>Data\<close>

datatype DvecError =
    DvecDqa DqaError | DvecDecimal DecimalError | DimensionMismatch | DimensionExceeded | ScaleMismatch
  | InputScaleExceeded | Overflow | Unsupported | ConsensusRestriction | CannotNormalizeZeroVector | DivisionByZero

record 't dvec_scalar =
  ds_scale :: "'t \<Rightarrow> nat"
  ds_raw_mantissa :: "'t \<Rightarrow> int"
  ds_mul :: "'t \<Rightarrow> 't \<Rightarrow> ('t, DvecError) outcome"
  ds_add :: "'t \<Rightarrow> 't \<Rightarrow> ('t, DvecError) outcome"
  ds_sub :: "'t \<Rightarrow> 't \<Rightarrow> ('t, DvecError) outcome"
  ds_div :: "'t \<Rightarrow> 't \<Rightarrow> ('t, DvecError) outcome"
  ds_sqrt :: "'t \<Rightarrow> ('t, DvecError) outcome"
  ds_is_zero :: "'t \<Rightarrow> bool"
  ds_from_parts :: "int \<Rightarrow> nat \<Rightarrow> ('t, DvecError) outcome"
  ds_max_scale :: nat

definition dqa_from_parts :: "int \<Rightarrow> nat \<Rightarrow> (dqa, DqaError) outcome" where
  "dqa_from_parts mantissa scale =
     (if mantissa > I64_MAX \<or> mantissa < I64_MIN then Err DqaError.Overflow else dqa_new (as_i64 mantissa) scale)"

definition dqa_dvec :: "dqa dvec_scalar" where
  "dqa_dvec =
     \<lparr>ds_scale = dqa_scale, ds_raw_mantissa = dqa_value,
      ds_mul = (\<lambda>x y. map_err DvecDqa (dqa_mul x y)),
      ds_add = (\<lambda>x y. map_err DvecDqa (dqa_add x y)),
      ds_sub = (\<lambda>x y. map_err DvecDqa (dqa_sub x y)),
      ds_div = (\<lambda>x y. map_err DvecDqa (dqa_div x y)),
      ds_sqrt = (\<lambda>x. map_err DvecDqa (Err DqaError.InvalidInput)),
      ds_is_zero = (\<lambda>x. dqa_value x = 0),
      ds_from_parts = (\<lambda>m s. map_err DvecDqa (dqa_from_parts m s)),
      ds_max_scale = 18\<rparr>"

definition decimal_dvec :: "'b num_ops \<Rightarrow> decimal dvec_scalar" where
  "decimal_dvec N =
     \<lparr>ds_scale = dec_scale, ds_raw_mantissa = dec_mantissa,
      ds_mul = (\<lambda>x y. map_err DvecDecimal (decimal_mul N x y)),
      ds_add = (\<lambda>x y. map_err DvecDecimal (decimal_add N x y)),
      ds_sub = (\<lambda>x y. map_err DvecDecimal (decimal_sub N x y)),
      ds_div = (\<lambda>x y. map_err DvecDecimal (decimal_div x y 0)),
      ds_sqrt = (\<lambda>x. map_err DvecDecimal (decimal_sqrt N x)),
      ds_is_zero = (\<lambda>x. dec_mantissa x = 0),
      ds_from_parts = (\<lambda>m s. map_err DvecDecimal (decimal_new m s)),
      ds_max_scale = 36\<rparr>"

subsection \<open>Validation\<close>

definition validate_len :: "nat \<Rightarrow> nat \<Rightarrow> (unit, DvecError) outcome" where
  "validate_len a_len b_len = (if a_len \<noteq> b_len then Err DimensionMismatch else Ok ())"

definition validate_max_dim :: "nat \<Rightarrow> (unit, DvecError) outcome" where
  "validate_max_dim n = (if n > 64 then Err DimensionExceeded else Ok ())"

fun scale_loop :: "'t dvec_scalar \<Rightarrow> nat \<Rightarrow> 't list \<Rightarrow> (unit, DvecError) outcome" where
  "scale_loop S common [] = Ok ()"
| "scale_loop S common (elem # xs) =
     (if ds_scale S elem \<noteq> common then Err ScaleMismatch else scale_loop S common xs)"

definition validate_uniform_scale :: "'t dvec_scalar \<Rightarrow> 't list \<Rightarrow> 't list \<Rightarrow> (nat, DvecError) outcome" where
  "validate_uniform_scale S a b =
     bind_ok (at_index a 0) (\<lambda>a0.
       let common = ds_scale S a0 in
       bind_ok (scale_loop S common (drop 1 a)) (\<lambda>_.
         bind_ok (scale_loop S common b) (\<lambda>_. Ok common)))"

subsection \<open>Dot product and distance\<close>

definition checked_i128 :: "int \<Rightarrow> (int, DvecError) outcome" where
  "checked_i128 x = (if i128_range x then Ok x else Err DvecError.Overflow)"

fun dot_loop :: "'t dvec_scalar \<Rightarrow> int \<Rightarrow> 't list \<Rightarrow> 't list \<Rightarrow> (int, DvecError) outcome" where
  "dot_loop S acc [] b = Ok acc"
| "dot_loop S acc (x # a) [] = Panic"
| "dot_loop S acc (x # a) (y # b) =
     bind_ok (checked_i128 (ds_raw_mantissa S x * ds_raw_mantissa S y)) (\<lambda>prod.
       bind_ok (checked_i128 (acc + prod)) (\<lambda>acc. dot_loop S acc a b))"

definition dot_product :: "'t dvec_scalar \<Rightarrow> 't list \<Rightarrow> 't list \<Rightarrow> ('t, DvecError) outcome" where
  "dot_product S a b =
     (let n = length a in
      bind_ok (validate_len n (length b)) (\<lambda>_.
        bind_ok (validate_max_dim n) (\<lambda>_.
          if n = 0 then Err DimensionMismatch
          else bind_ok (at_index a 0) (\<lambda>a0.
            let input_scale = ds_scale S a0;
                input_scale_max = (if ds_max_scale S = 18 then 9 else 18) in
            if input_scale > input_scale_max then Err InputScaleExceeded
            else bind_ok (validate_uniform_scale S a b) (\<lambda>_.
              bind_ok (dot_loop S 0 a b) (\<lambda>acc.
                ds_from_parts S acc (input_scale * 2 mod 256)))))))"

fun distance_loop :: "'t dvec_scalar \<Rightarrow> int \<Rightarrow> 't list \<Rightarrow> 't list \<Rightarrow> (int, DvecError) outcome" where
  "distance_loop S acc [] b = Ok acc"
| "distance_loop S acc (x # a) [] = Panic"
| "distance_loop S acc (x # a) (y # b) =
     (let diff = as_i128 (ds_raw_mantissa S x - ds_raw_mantissa S y) in
      bind_ok (checked_i128 (diff * diff)) (\<lambda>sq.
        bind_ok (checked_i128 (acc + sq)) (\<lambda>acc. distance_loop S acc a b)))"

definition squared_distance :: "'t dvec_scalar \<Rightarrow> 't list \<Rightarrow> 't list \<Rightarrow> ('t, DvecError) outcome" where
  "squared_distance S a b =
     (let n = length a in
      bind_ok (validate_len n (length b)) (\<lambda>_.
        bind_ok (validate_max_dim n) (\<lambda>_.
          if n = 0 then Err DimensionMismatch
          else bind_ok (at_index a 0) (\<lambda>a0.
            let input_scale = ds_scale S a0;
                input_scale_max = (if ds_max_scale S = 18 then 9 else 18) in
            if input_scale > input_scale_max then Err InputScaleExceeded
            else bind_ok (validate_uniform_scale S a b) (\<lambda>_.
              bind_ok (distance_loop S 0 a b) (\<lambda>acc.
                ds_from_parts S acc (input_scale * 2 mod 256)))))))"

definition norm_error :: "DvecError \<Rightarrow> DvecError" where
  "norm_error err = (case err of DvecDqa DqaError.InvalidInput \<Rightarrow> Unsupported | _ \<Rightarrow> err)"

definition dvec_norm :: "'t dvec_scalar \<Rightarrow> 't list \<Rightarrow> ('t, DvecError) outcome" where
  "dvec_norm S a =
     (let n = length a in
      if n = 0 then Err DimensionMismatch
      else bind_ok (validate_max_dim n) (\<lambda>_.
        bind_ok (at_index a 0) (\<lambda>a0.
          let input_scale = ds_scale S a0 in
          if input_scale > 9 then Err InputScaleExceeded
          else bind_ok (scale_loop S input_scale (drop 1 a)) (\<lambda>_.
            bind_ok (dot_product S a a) (\<lambda>squared_sum.
              map_err norm_error (ds_sqrt S squared_sum))))))"

definition dvec_normalize :: "'t dvec_scalar \<Rightarrow> 't list \<Rightarrow> ('t list, DvecError) outcome" where
  "dvec_normalize S a = Err ConsensusRestriction"

subsection \<open>Element-wise operations\<close>

fun collect_ok :: "('a, 'e) outcome list \<Rightarrow> ('a list, 'e) outcome" where
  "collect_ok [] = Ok []"
| "collect_ok (r # rs) = bind_ok r (\<lambda>x. bind_ok (collect_ok rs) (\<lambda>xs. Ok (x # xs)))"

definition vec_add :: "'t dvec_scalar \<Rightarrow> 't list \<Rightarrow> 't list \<Rightarrow> ('t list, DvecError) outcome" where
  "vec_add S a b =
     bind_ok (validate_len (length a) (length b)) (\<lambda>_.
       bind_ok (validate_uniform_scale S a b) (\<lambda>_. collect_ok (map2 (ds_add S) a b)))"

definition vec_sub :: "'t dvec_scalar \<Rightarrow> 't list \<Rightarrow> 't list \<Rightarrow> ('t list, DvecError) outcome" where
  "vec_sub S a b =
     bind_ok (validate_len (length a) (length b)) (\<lambda>_.
       bind_ok (validate_uniform_scale S a b) (\<lambda>_. collect_ok (map2 (ds_sub S) a b)))"

definition vec_mul :: "'t dvec_scalar \<Rightarrow> 't list \<Rightarrow> 't list \<Rightarrow> ('t list, DvecError) outcome" where
  "vec_mul S a b =
     bind_ok (validate_len (length a) (length b)) (\<lambda>_.
       bind_ok (validate_uniform_scale S a b) (\<lambda>_. collect_ok (map2 (ds_mul S) a b)))"

definition vec_scale :: "'t dvec_scalar \<Rightarrow> 't list \<Rightarrow> 't \<Rightarrow> ('t list, DvecError) outcome" where
  "vec_scale S a scalar =
     bind_ok (scale_loop S (ds_scale S scalar) a) (\<lambda>_. collect_ok (map (\<lambda>x. ds_mul S x scalar) a))"

subsection \<open>The loops\<close>

definition uniform :: "'t dvec_scalar \<Rightarrow> nat \<Rightarrow> 't list \<Rightarrow> bool" where
  "uniform S s xs \<longleftrightarrow> (\<forall>x\<in>set xs. ds_scale S x = s)"

fun sum_fits :: "int \<Rightarrow> int list \<Rightarrow> bool" where
  "sum_fits acc [] = True"
| "sum_fits acc (p # ps) = (i128_range p \<and> i128_range (acc + p) \<and> sum_fits (acc + p) ps)"

definition products :: "('t \<Rightarrow> int) \<Rightarrow> 't list \<Rightarrow> 't list \<Rightarrow> int list" where
  "products m a b = map2 (\<lambda>x y. m x * m y) a b"

definition squares :: "('t \<Rightarrow> int) \<Rightarrow> 't list \<Rightarrow> 't list \<Rightarrow> int list" where
  "squares m a b = map2 (\<lambda>x y. (m x - m y) * (m x - m y)) a b"

lemma uniform_simps [simp]:
  "uniform S s []" "uniform S s (x # xs) \<longleftrightarrow> ds_scale S x = s \<and> uniform S s xs"
  "uniform S s (xs @ ys) \<longleftrightarrow> uniform S s xs \<and> uniform S s ys"
  by (auto simp: uniform_def)

lemma scale_loop_val: "scale_loop S s xs = (if uniform S s xs then Ok () else Err ScaleMismatch)"
  by (induction xs) auto

lemma validate_uniform_val:
  "validate_uniform_scale S (x # a) b =
    (if uniform S (ds_scale S x) (a @ b) then Ok (ds_scale S x) else Err ScaleMismatch)"
  by (simp add: validate_uniform_scale_def scale_loop_val Let_def)

lemma dot_loop_val:
  assumes "length a = length b"
  shows "dot_loop S acc a b =
    (if sum_fits acc (products (ds_raw_mantissa S) a b) then Ok (acc + sum_list (products (ds_raw_mantissa S) a b))
     else Err DvecError.Overflow)"
  using assms by (induction a b arbitrary: acc rule: list_induct2) (simp_all add: products_def checked_i128_def)

lemma distance_loop_val:
  assumes "length a = length b" "\<And>x y. x \<in> set a \<Longrightarrow> y \<in> set b \<Longrightarrow> i128_range (ds_raw_mantissa S x - ds_raw_mantissa S y)"
  shows "distance_loop S acc a b =
    (if sum_fits acc (squares (ds_raw_mantissa S) a b) then Ok (acc + sum_list (squares (ds_raw_mantissa S) a b))
     else Err DvecError.Overflow)"
  using assms by (induction a b arbitrary: acc rule: list_induct2) (simp_all add: squares_def checked_i128_def Let_def)

lemma sum_fits_nonneg:
  assumes "\<And>p. p \<in> set ps \<Longrightarrow> 0 \<le> p" "0 \<le> acc" "acc \<le> I128_MAX"
  shows "sum_fits acc ps \<longleftrightarrow> acc + sum_list ps \<le> I128_MAX"
  using assms
proof (induction ps arbitrary: acc)
  case (Cons p ps)
  have p: "0 \<le> p" "0 \<le> sum_list ps" using Cons.prems(1) by (auto intro: sum_list_nonneg)
  show ?case
  proof (cases "acc + p \<le> I128_MAX")
    case True
    then have "sum_fits (acc + p) ps \<longleftrightarrow> acc + p + sum_list ps \<le> I128_MAX" using Cons p by simp
    moreover have "i128_range p" "i128_range (acc + p)" using True p Cons.prems(2) by (simp_all add: i128_range_def)
    ultimately show ?thesis by (simp add: add.assoc)
  next
    case False
    then show ?thesis using p by (simp add: i128_range_def)
  qed
qed simp

lemma sum_fits_abs:
  assumes "\<bar>acc\<bar> + sum_list (map abs ps) \<le> I128_MAX"
  shows "sum_fits acc ps"
  using assms
proof (induction ps arbitrary: acc)
  case (Cons p ps)
  have "0 \<le> sum_list (map abs ps)" by (rule sum_list_nonneg) auto
  then have "\<bar>acc\<bar> + \<bar>p\<bar> \<le> I128_MAX" "\<bar>acc + p\<bar> + sum_list (map abs ps) \<le> I128_MAX"
    using Cons.prems abs_triangle_ineq [of acc p] by simp_all
  then have "\<bar>p\<bar> \<le> I128_MAX" "\<bar>acc + p\<bar> \<le> I128_MAX" "sum_fits (acc + p) ps"
    using Cons.IH [of "acc + p"] abs_triangle_ineq [of acc p] by linarith+
  then show ?case by (auto simp: i128_range_def)
qed simp

lemma dot_product_cases:
  "dot_product S a b =
    (if length a \<noteq> length b then Err DimensionMismatch
     else if length a > 64 then Err DimensionExceeded
     else if a = [] then Err DimensionMismatch
     else if ds_scale S (hd a) > (if ds_max_scale S = 18 then 9 else 18) then Err InputScaleExceeded
     else if \<not> uniform S (ds_scale S (hd a)) (a @ b) then Err ScaleMismatch
     else if \<not> sum_fits 0 (products (ds_raw_mantissa S) a b) then Err DvecError.Overflow
     else ds_from_parts S (sum_list (products (ds_raw_mantissa S) a b)) (ds_scale S (hd a) * 2))"
  by (cases a) (auto simp: dot_product_def validate_len_def validate_max_dim_def validate_uniform_val dot_loop_val)

lemma squared_distance_cases:
  assumes "\<And>x y. x \<in> set a \<Longrightarrow> y \<in> set b \<Longrightarrow> i128_range (ds_raw_mantissa S x - ds_raw_mantissa S y)"
  shows "squared_distance S a b =
    (if length a \<noteq> length b then Err DimensionMismatch
     else if length a > 64 then Err DimensionExceeded
     else if a = [] then Err DimensionMismatch
     else if ds_scale S (hd a) > (if ds_max_scale S = 18 then 9 else 18) then Err InputScaleExceeded
     else if \<not> uniform S (ds_scale S (hd a)) (a @ b) then Err ScaleMismatch
     else if I128_MAX < sum_list (squares (ds_raw_mantissa S) a b) then Err DvecError.Overflow
     else ds_from_parts S (sum_list (squares (ds_raw_mantissa S) a b)) (ds_scale S (hd a) * 2))"
proof -
  have "0 \<le> p" if "p \<in> set (squares (ds_raw_mantissa S) a b)" for p using that by (auto simp: squares_def)
  then have "sum_fits 0 (squares (ds_raw_mantissa S) a b) \<longleftrightarrow> \<not> I128_MAX < sum_list (squares (ds_raw_mantissa S) a b)"
    using sum_fits_nonneg [of "squares (ds_raw_mantissa S) a b" 0] by auto
  then show ?thesis
    using distance_loop_val [of a b S 0, OF _ assms]
    by (cases a) (auto simp: squared_distance_def validate_len_def validate_max_dim_def validate_uniform_val)
qed

lemma collect_ok_val:
  assumes "\<And>x. x \<in> set xs \<Longrightarrow> if P x then \<exists>z. f x = Ok z \<and> Q x z else f x = Err e"
  shows "if \<forall>x\<in>set xs. P x
    then \<exists>c. collect_ok (map f xs) = Ok c \<and> length c = length xs \<and> (\<forall>i<length xs. Q (xs ! i) (c ! i))
    else collect_ok (map f xs) = Err e"
  using assms
proof (induction xs)
  case (Cons x xs)
  have IH: "if \<forall>x\<in>set xs. P x
    then \<exists>c. collect_ok (map f xs) = Ok c \<and> length c = length xs \<and> (\<forall>i<length xs. Q (xs ! i) (c ! i))
    else collect_ok (map f xs) = Err e"
    by (rule Cons.IH) (rule Cons.prems, simp)
  show ?case
  proof (cases "P x")
    case False
    then have "f x = Err e" using Cons.prems [of x] by simp
    then show ?thesis using False by simp
  next
    case True
    then obtain z where z: "f x = Ok z" "Q x z" using Cons.prems [of x] by auto
    show ?thesis
    proof (cases "\<forall>x\<in>set xs. P x")
      case all: True
      then obtain c where c: "collect_ok (map f xs) = Ok c" "length c = length xs" "\<forall>i<length xs. Q (xs ! i) (c ! i)"
        using IH by auto
      then have "\<forall>i<length (x # xs). Q ((x # xs) ! i) ((z # c) ! i)" using z(2) by (auto simp: less_Suc_eq_0_disj)
      then have "\<exists>d. collect_ok (map f (x # xs)) = Ok d \<and> length d = length (x # xs)
          \<and> (\<forall>i<length (x # xs). Q ((x # xs) ! i) (d ! i))"
        using z(1) c(1,2) by (intro exI [of _ "z # c"]) simp
      then show ?thesis using True all by simp
    next
      case False
      then have "collect_ok (map f xs) = Err e" using IH by auto
      then show ?thesis using False True z(1) by auto
    qed
  qed
qed simp

lemma collect_map2_val:
  assumes "length a = length b"
    and "\<And>x y. (x, y) \<in> set (zip a b) \<Longrightarrow> if P x y then \<exists>z. f x y = Ok z \<and> Q x y z else f x y = Err e"
  shows "if \<forall>(x, y)\<in>set (zip a b). P x y
    then \<exists>c. collect_ok (map2 f a b) = Ok c \<and> length c = length a \<and> (\<forall>i<length a. Q (a ! i) (b ! i) (c ! i))
    else collect_ok (map2 f a b) = Err e"
proof -
  have "if case_prod P q then \<exists>z. case_prod f q = Ok z \<and> case_prod Q q z else case_prod f q = Err e"
    if "q \<in> set (zip a b)" for q
    using assms(2) [of "fst q" "snd q"] that by (simp add: case_prod_unfold)
  from collect_ok_val [of "zip a b" "case_prod P" "case_prod f" "case_prod Q" e, OF this] show ?thesis
    using assms(1) by (simp split: if_splits)
qed

subsection \<open>The contract of a scalar type\<close>

definition inner :: "('t \<Rightarrow> rat) \<Rightarrow> 't list \<Rightarrow> 't list \<Rightarrow> rat" where
  "inner v a b = sum_list (map2 (\<lambda>x y. v x * v y) a b)"

definition distance2 :: "('t \<Rightarrow> rat) \<Rightarrow> 't list \<Rightarrow> 't list \<Rightarrow> rat" where
  "distance2 v a b = sum_list (map2 (\<lambda>x y. (v x - v y) * (v x - v y)) a b)"

locale dvec_numbers =
  fixes S :: "'t dvec_scalar" and valid :: "'t \<Rightarrow> bool" and val :: "'t \<Rightarrow> rat"
    and fits :: "int \<Rightarrow> nat \<Rightarrow> bool" and small :: "int \<Rightarrow> bool" and too_big :: DvecError
  assumes val_parts: "val x = fp_val (ds_raw_mantissa S x) (ds_scale S x)"
    and max_scale: "ds_max_scale S = 18 \<or> ds_max_scale S = 36"
    and diff_range: "valid x \<Longrightarrow> valid y \<Longrightarrow> i128_range (ds_raw_mantissa S x - ds_raw_mantissa S y)"
    and from_parts: "\<bar>m\<bar> \<le> I128_MAX \<Longrightarrow> s \<le> ds_max_scale S \<Longrightarrow>
      if fits m s then \<exists>z. ds_from_parts S m s = Ok z \<and> valid z \<and> val z = fp_val m s
      else ds_from_parts S m s = Err too_big"
    and add: "valid x \<Longrightarrow> valid y \<Longrightarrow> ds_scale S x = ds_scale S y \<Longrightarrow>
      if small (ds_raw_mantissa S x + ds_raw_mantissa S y)
      then \<exists>z. ds_add S x y = Ok z \<and> valid z \<and> val z = val x + val y else ds_add S x y = Err too_big"
    and sub: "valid x \<Longrightarrow> valid y \<Longrightarrow> ds_scale S x = ds_scale S y \<Longrightarrow>
      if small (ds_raw_mantissa S x - ds_raw_mantissa S y)
      then \<exists>z. ds_sub S x y = Ok z \<and> valid z \<and> val z = val x - val y else ds_sub S x y = Err too_big"
    and mul: "valid x \<Longrightarrow> valid y \<Longrightarrow> ds_scale S x + ds_scale S y \<le> ds_max_scale S \<Longrightarrow>
      if small (ds_raw_mantissa S x * ds_raw_mantissa S y)
      then \<exists>z. ds_mul S x y = Ok z \<and> valid z \<and> val z = val x * val y else ds_mul S x y = Err too_big"
begin

lemma products_val:
  assumes "uniform S s a" "uniform S s b"
  shows "fp_val (sum_list (products (ds_raw_mantissa S) a b)) (s * 2) = inner val a b"
  using assms
proof (induction a arbitrary: b)
  case (Cons x a)
  then show ?case
    by (cases b) (simp_all add: products_def inner_def fp_val_add fp_val_mult val_parts mult_2_right)
qed (simp add: products_def inner_def)

lemma squares_val:
  assumes "uniform S s a" "uniform S s b"
  shows "fp_val (sum_list (squares (ds_raw_mantissa S) a b)) (s * 2) = distance2 val a b"
  using assms
proof (induction a arbitrary: b)
  case (Cons x a)
  then show ?case
    by (cases b) (simp_all add: squares_def distance2_def fp_val_add fp_val_mult fp_val_diff val_parts mult_2_right)
qed (simp add: squares_def distance2_def)

lemma dot_product_val:
  assumes "length a = length b" "0 < length a" "length a \<le> 64" "uniform S s (a @ b)"
    and s: "s \<le> (if ds_max_scale S = 18 then 9 else 18)"
    and m: "m = sum_list (products (ds_raw_mantissa S) a b)" "\<bar>m\<bar> \<le> I128_MAX"
  shows "if \<not> sum_fits 0 (products (ds_raw_mantissa S) a b) then dot_product S a b = Err DvecError.Overflow
    else if fits m (s * 2) then \<exists>z. dot_product S a b = Ok z \<and> valid z \<and> val z = inner val a b
    else dot_product S a b = Err too_big"
proof -
  have h: "ds_scale S (hd a) = s" "a \<noteq> []" using assms(2,4) by (cases a; simp)+
  have "s * 2 \<le> ds_max_scale S" using s max_scale by (auto split: if_splits)
  from from_parts [OF m(2) this] show ?thesis
    using assms h products_val [of s a b] by (auto simp: dot_product_cases)
qed

lemma squared_distance_val:
  assumes "length a = length b" "0 < length a" "length a \<le> 64" "uniform S s (a @ b)"
    and s: "s \<le> (if ds_max_scale S = 18 then 9 else 18)" and v: "\<forall>x\<in>set (a @ b). valid x"
    and m: "m = sum_list (squares (ds_raw_mantissa S) a b)"
  shows "if I128_MAX < m then squared_distance S a b = Err DvecError.Overflow
    else if fits m (s * 2) then \<exists>z. squared_distance S a b = Ok z \<and> valid z \<and> val z = distance2 val a b
    else squared_distance S a b = Err too_big"
proof -
  have h: "ds_scale S (hd a) = s" "a \<noteq> []" using assms(2,4) by (cases a; simp)+
  have c: "squared_distance S a b =
    (if I128_MAX < m then Err DvecError.Overflow else ds_from_parts S m (s * 2))"
    using squared_distance_cases [of a b S] diff_range v assms h by auto
  have "0 \<le> m" unfolding m by (intro sum_list_nonneg) (auto simp: squares_def)
  then have "\<not> I128_MAX < m \<Longrightarrow> \<bar>m\<bar> \<le> I128_MAX" by simp
  moreover have "s * 2 \<le> ds_max_scale S" using s max_scale by (auto split: if_splits)
  ultimately show ?thesis
    using c from_parts [of m "s * 2"] squares_val [of s a b] assms(4) by (auto simp: m)
qed

lemma elementwise_val:
  assumes "length a = length b" "a \<noteq> []" "uniform S s (a @ b)" "\<forall>x\<in>set (a @ b). valid x"
    and op: "\<And>x y. valid x \<Longrightarrow> valid y \<Longrightarrow> ds_scale S x = s \<Longrightarrow> ds_scale S y = s \<Longrightarrow>
      if P x y then \<exists>z. f x y = Ok z \<and> valid z \<and> val z = g (val x) (val y) else f x y = Err e"
  shows "if \<forall>(x, y)\<in>set (zip a b). P x y
    then \<exists>c. collect_ok (map2 f a b) = Ok c \<and> (\<forall>z\<in>set c. valid z) \<and> map val c = map2 g (map val a) (map val b)
    else collect_ok (map2 f a b) = Err e"
proof -
  have "if P x y then \<exists>z. f x y = Ok z \<and> valid z \<and> val z = g (val x) (val y) else f x y = Err e"
    if "(x, y) \<in> set (zip a b)" for x y
  proof -
    have "x \<in> set (a @ b)" "y \<in> set (a @ b)" using that set_zip_leftD set_zip_rightD by fastforce+
    then show ?thesis using op assms(3,4) unfolding uniform_def by blast
  qed
  note c = collect_map2_val [OF assms(1), of P f "\<lambda>x y z. valid z \<and> val z = g (val x) (val y)" e, OF this]
  have "(\<forall>z\<in>set c. valid z) \<and> map val c = map2 g (map val a) (map val b)"
    if "length c = length a" "\<forall>i<length a. valid (c ! i) \<and> val (c ! i) = g (val (a ! i)) (val (b ! i))" for c
    using that assms(1) by (auto simp: set_conv_nth intro: nth_equalityI)
  then show ?thesis using c by (simp split: if_splits) blast
qed

end

lemma validate_uniform_ok:
  assumes "a \<noteq> []" "uniform S s (a @ b)"
  shows "validate_uniform_scale S a b = Ok s"
  using assms by (cases a) (auto simp: validate_uniform_val)

context dvec_numbers
begin

lemma vec_add_val:
  assumes "length a = length b" "a \<noteq> []" "uniform S s (a @ b)" "\<forall>x\<in>set (a @ b). valid x"
  shows "if \<forall>(x, y)\<in>set (zip a b). small (ds_raw_mantissa S x + ds_raw_mantissa S y)
    then \<exists>c. vec_add S a b = Ok c \<and> (\<forall>z\<in>set c. valid z) \<and> map val c = map2 (+) (map val a) (map val b)
    else vec_add S a b = Err too_big"
  using elementwise_val [OF assms, of "\<lambda>x y. small (ds_raw_mantissa S x + ds_raw_mantissa S y)" "ds_add S" "(+)" too_big]
    add validate_uniform_ok [OF assms(2,3)] assms(1)
  by (simp add: vec_add_def validate_len_def)

lemma vec_sub_val:
  assumes "length a = length b" "a \<noteq> []" "uniform S s (a @ b)" "\<forall>x\<in>set (a @ b). valid x"
  shows "if \<forall>(x, y)\<in>set (zip a b). small (ds_raw_mantissa S x - ds_raw_mantissa S y)
    then \<exists>c. vec_sub S a b = Ok c \<and> (\<forall>z\<in>set c. valid z) \<and> map val c = map2 (-) (map val a) (map val b)
    else vec_sub S a b = Err too_big"
  using elementwise_val [OF assms, of "\<lambda>x y. small (ds_raw_mantissa S x - ds_raw_mantissa S y)" "ds_sub S" "(-)" too_big]
    sub validate_uniform_ok [OF assms(2,3)] assms(1)
  by (simp add: vec_sub_def validate_len_def)

lemma vec_mul_val:
  assumes "length a = length b" "a \<noteq> []" "uniform S s (a @ b)" "\<forall>x\<in>set (a @ b). valid x" "2 * s \<le> ds_max_scale S"
  shows "if \<forall>(x, y)\<in>set (zip a b). small (ds_raw_mantissa S x * ds_raw_mantissa S y)
    then \<exists>c. vec_mul S a b = Ok c \<and> (\<forall>z\<in>set c. valid z) \<and> map val c = map2 (*) (map val a) (map val b)
    else vec_mul S a b = Err too_big"
  using elementwise_val [OF assms(1-4), of "\<lambda>x y. small (ds_raw_mantissa S x * ds_raw_mantissa S y)" "ds_mul S" "(*)" too_big]
    mul validate_uniform_ok [OF assms(2,3)] assms(1,5)
  by (simp add: vec_mul_def validate_len_def)

end

subsection \<open>The two scalar types\<close>

lemmas dvec_records = dqa_dvec_def decimal_dvec_def

lemma dqa_same_scale:
  assumes "dqa_wf x" "dqa_wf y" "dqa_scale x = dqa_scale y"
  shows "dqa_add x y = (if i64_range (dqa_value x + dqa_value y)
      then Ok (canonicalize (mk_dqa (dqa_value x + dqa_value y) (dqa_scale x))) else Err DqaError.Overflow)"
    and "dqa_sub x y = (if i64_range (dqa_value x - dqa_value y)
      then Ok (canonicalize (mk_dqa (dqa_value x - dqa_value y) (dqa_scale x))) else Err DqaError.Overflow)"
  using assms dqa_add_spec [OF assms(1,2)] dqa_sub_spec [OF assms(1,2)]
  by (simp_all add: common_scale_def at_scale_def aligned_fits_def dqa_wf_def Let_def)

lemma dqa_mul_exact:
  assumes "dqa_wf x" "dqa_wf y" "dqa_scale x + dqa_scale y \<le> 18"
  shows "dqa_mul x y = (if i64_range (dqa_value x * dqa_value y)
    then Ok (canonicalize (mk_dqa (dqa_value x * dqa_value y) (dqa_scale x + dqa_scale y))) else Err DqaError.Overflow)"
  using dqa_mul_spec [OF assms(1,2)] assms(3) by (auto simp: mul_scale_def is_product_def MAX_SCALE_def min_def)

lemma dqa_val_mk: "dqa_val (mk_dqa m s) = fp_val m s"
  by (simp add: dqa_val_def)

lemma canonicalized_wf: "i64_range m \<Longrightarrow> s \<le> 18 \<Longrightarrow> dqa_wf (canonicalize (mk_dqa m s))"
  by (rule canonicalize_wf) (simp add: dqa_wf_def MAX_SCALE_def)

lemma dqa_wf_bounds: "dqa_wf x \<Longrightarrow> i64_range (dqa_value x)" "dqa_wf x \<Longrightarrow> dqa_scale x \<le> 18"
  by (simp_all add: dqa_wf_def MAX_SCALE_def)

interpretation dqa_vec: dvec_numbers dqa_dvec dqa_wf dqa_val "\<lambda>m s. i64_range m" i64_range "DvecDqa DqaError.Overflow"
proof (unfold_locales, goal_cases)
  case (4 m s)
  then show ?case by (auto simp: dqa_dvec_def dqa_from_parts_def dqa_new_def dqa_wf_def dqa_val_def MAX_SCALE_def i64_range_def)
next
  case (5 x y)
  then show ?case
    by (auto simp: dqa_dvec_def dqa_same_scale canonicalized_wf dqa_val_mk dqa_wf_bounds fp_val_add dqa_val_def [of x] dqa_val_def [of y])
next
  case (6 x y)
  then show ?case
    by (auto simp: dqa_dvec_def dqa_same_scale canonicalized_wf dqa_val_mk dqa_wf_bounds fp_val_diff dqa_val_def [of x] dqa_val_def [of y])
next
  case (7 x y)
  then show ?case
    by (auto simp: dqa_dvec_def dqa_mul_exact canonicalized_wf dqa_val_mk fp_val_mult dqa_val_def [of x] dqa_val_def [of y])
qed (auto simp: dqa_dvec_def dqa_val_def dqa_wf_def i64_range_def i128_range_def)

definition dec_fits :: "int \<Rightarrow> nat \<Rightarrow> bool" where
  "dec_fits m s \<longleftrightarrow> (\<exists>d. dec_ok d \<and> dec_val d = fp_val m s)"

lemma decimal_dvec_numbers:
  assumes "num_laws N v"
  shows "dvec_numbers (decimal_dvec N) dec_ok dec_val dec_fits (\<lambda>m. \<bar>m\<bar> \<le> MAX_DECIMAL_MANTISSA)
    (DvecDecimal DecimalError.Overflow)"
proof (unfold_locales, goal_cases)
  case (4 m s)
  then show ?case using decimal_new_iff [of m s] by (auto simp: decimal_dvec_def dec_fits_def)
next
  case (5 x y)
  then show ?case
    using decimal_add_val [OF assms, of x y] checked_decimal_ok [of "dec_mantissa x + dec_mantissa y" "dec_scale x"]
    by (auto simp: decimal_dvec_def aligned_def dec_ok_def dec_val_def fp_val_add checked_decimal_def)
next
  case (6 x y)
  then show ?case
    using decimal_sub_val [OF assms, of x y] checked_decimal_ok [of "dec_mantissa x - dec_mantissa y" "dec_scale x"]
    by (auto simp: decimal_dvec_def aligned_def dec_ok_def dec_val_def fp_val_diff checked_decimal_def)
next
  case (7 x y)
  then show ?case
    using decimal_mul_exact [OF assms, of x y] checked_decimal_ok [of "dec_mantissa x * dec_mantissa y" "dec_scale x + dec_scale y"]
    by (auto simp: decimal_dvec_def dec_ok_def dec_val_def fp_val_mult checked_decimal_def)
next
  case (3 x y)
  then show ?case by (auto simp: decimal_dvec_def dec_ok_def MAX_DECIMAL_MANTISSA_def i128_range_def)
qed (auto simp: decimal_dvec_def dec_val_def)

interpretation dec_vec: dvec_numbers "decimal_dvec int_ops" dec_ok dec_val dec_fits "\<lambda>m. \<bar>m\<bar> \<le> MAX_DECIMAL_MANTISSA"
  "DvecDecimal DecimalError.Overflow"
  by (rule decimal_dvec_numbers [OF int_ops_laws])

subsection \<open>Properties\<close>

lemma dvec_selectors:
  "ds_scale dqa_dvec = dqa_scale" "ds_raw_mantissa dqa_dvec = dqa_value" "ds_max_scale dqa_dvec = 18"
  "ds_from_parts dqa_dvec m s = map_err DvecDqa (dqa_from_parts m s)"
  "ds_scale (decimal_dvec N) = dec_scale" "ds_raw_mantissa (decimal_dvec N) = dec_mantissa" "ds_max_scale (decimal_dvec N) = 36"
  "ds_from_parts (decimal_dvec N) m s = map_err DvecDecimal (decimal_new m s)"
  by (simp_all add: dvec_records)

lemma not_uniform:
  "\<not> uniform dqa_dvec s xs \<longleftrightarrow> (\<exists>x\<in>set xs. dqa_scale x \<noteq> s)"
  "\<not> uniform (decimal_dvec N) s ys \<longleftrightarrow> (\<exists>x\<in>set ys. dec_scale x \<noteq> s)"
  by (simp_all add: uniform_def dvec_selectors)

lemma sum_fits_range: "sum_fits acc ps \<Longrightarrow> i128_range acc \<Longrightarrow> i128_range (acc + sum_list ps)"
  by (induction ps arbitrary: acc) (simp_all flip: add.assoc)

lemma decimal_new_min: "s \<le> 36 \<Longrightarrow> decimal_new I128_MIN s = Ok (mk_decimal I128_MIN s)"
  by (simp add: decimal_new_def MAX_DECIMAL_SCALE_def dec_canonicalize_def dec_canonicalize_loop.simps [of I128_MIN s] rust_rem_0_iff_dvd
      i128_abs_def as_i128_def MAX_DECIMAL_MANTISSA_def)

lemma decimal_from_sum:
  assumes "i128_range n" "s \<le> 36" "n \<noteq> I128_MIN"
  shows "if dec_fits n s then \<exists>z. decimal_new n s = Ok z \<and> dec_ok z \<and> dec_val z = fp_val n s
    else decimal_new n s = Err DecimalError.Overflow"
proof -
  have "\<bar>n\<bar> \<le> I128_MAX" using assms(1,3) by (auto simp: i128_range_def)
  then show ?thesis using decimal_new_iff [of n s] assms(2) by (auto simp: dec_fits_def)
qed

text \<open>C27: The dot product of two vectors of \<open>Dqa\<close> values and of two vectors of decimals, on all inputs. Vectors of
  different lengths, empty or longer than 64, a scale above 9 (18 for decimals) and mixed scales are rejected with
  the errors of these checks, in this order. When a product or a partial sum leaves \<open>i128\<close> the error is \<open>Overflow\<close>, even if
  the total would fit. Otherwise the result is the exact sum of the products when it fits the type, and the
  \<open>Overflow\<close> of the scalar type when it does not. A decimal sum of exactly \<open>-2 ^ 127\<close> is returned although it is outside
  the range of decimals.\<close>

theorem dvec_dot_product_correct:
  "(let s = dqa_scale (hd a); m = sum_list (products dqa_value a b); r = dot_product dqa_dvec a b in
      if length a \<noteq> length b \<or> a = [] then r = Err DimensionMismatch
      else if 64 < length a then r = Err DimensionExceeded
      else if 9 < s then r = Err InputScaleExceeded
      else if \<exists>x\<in>set (a @ b). dqa_scale x \<noteq> s then r = Err ScaleMismatch
      else if \<not> sum_fits 0 (products dqa_value a b) then r = Err DvecError.Overflow
      else if i64_range m then \<exists>z. r = Ok z \<and> dqa_wf z \<and> dqa_val z = inner dqa_val a b
      else r = Err (DvecDqa DqaError.Overflow))
   \<and> (let t = dec_scale (hd c); n = sum_list (products dec_mantissa c d); r = dot_product (decimal_dvec N) c d in
      if length c \<noteq> length d \<or> c = [] then r = Err DimensionMismatch
      else if 64 < length c then r = Err DimensionExceeded
      else if 18 < t then r = Err InputScaleExceeded
      else if \<exists>x\<in>set (c @ d). dec_scale x \<noteq> t then r = Err ScaleMismatch
      else if \<not> sum_fits 0 (products dec_mantissa c d) then r = Err DvecError.Overflow
      else if n = I128_MIN then r = Ok (mk_decimal I128_MIN (t * 2))
      else if dec_fits n (t * 2) then \<exists>z. r = Ok z \<and> dec_ok z \<and> dec_val z = inner dec_val c d
      else r = Err (DvecDecimal DecimalError.Overflow))"
proof -
  have dqa: "fp_val (sum_list (products dqa_value a b)) (dqa_scale (hd a) * 2) = inner dqa_val a b"
    if "\<not> (\<exists>x\<in>set (a @ b). dqa_scale x \<noteq> dqa_scale (hd a))"
    using dqa_vec.products_val [of "dqa_scale (hd a)" a b, unfolded dvec_selectors] that not_uniform(1) by (metis UnCI set_append)
  have dec: "fp_val (sum_list (products dec_mantissa c d)) (dec_scale (hd c) * 2) = inner dec_val c d"
    if "\<not> (\<exists>x\<in>set (c @ d). dec_scale x \<noteq> dec_scale (hd c))"
    using dec_vec.products_val [of "dec_scale (hd c)" c d, unfolded dvec_selectors] that not_uniform(2) by (metis UnCI set_append)
  have range: "i128_range (sum_list ps)" if "sum_fits 0 ps" for ps using sum_fits_range [OF that] by (simp add: i128_range_def)
  have dqa_eq: "dot_product dqa_dvec a b =
      (if length a \<noteq> length b then Err DimensionMismatch
       else if length a > 64 then Err DimensionExceeded
       else if a = [] then Err DimensionMismatch
       else if dqa_scale (hd a) > 9 then Err InputScaleExceeded
       else if \<exists>x\<in>set (a @ b). dqa_scale x \<noteq> dqa_scale (hd a) then Err ScaleMismatch
       else if \<not> sum_fits 0 (products dqa_value a b) then Err DvecError.Overflow
       else map_err DvecDqa (dqa_from_parts (sum_list (products dqa_value a b)) (dqa_scale (hd a) * 2)))"
    unfolding dot_product_cases dvec_selectors not_uniform by (simp only: refl if_True)
  have dec_eq: "dot_product (decimal_dvec N) c d =
      (if length c \<noteq> length d then Err DimensionMismatch
       else if length c > 64 then Err DimensionExceeded
       else if c = [] then Err DimensionMismatch
       else if dec_scale (hd c) > 18 then Err InputScaleExceeded
       else if \<exists>x\<in>set (c @ d). dec_scale x \<noteq> dec_scale (hd c) then Err ScaleMismatch
       else if \<not> sum_fits 0 (products dec_mantissa c d) then Err DvecError.Overflow
       else map_err DvecDecimal (decimal_new (sum_list (products dec_mantissa c d)) (dec_scale (hd c) * 2)))"
    unfolding dot_product_cases dvec_selectors not_uniform by (simp only: refl if_True if_False numeral_eq_iff semiring_norm)
  have "if i64_range m then \<exists>z. dqa_from_parts m (s * 2) = Ok z \<and> dqa_wf z \<and> dqa_val z = fp_val m (s * 2)
      else dqa_from_parts m (s * 2) = Err DqaError.Overflow" if "s \<le> 9" for m s
    using that by (auto simp: dqa_from_parts_def dqa_new_def dqa_wf_def dqa_val_def MAX_SCALE_def i64_range_def)
  note dqa_parts = this [of "dqa_scale (hd a)" "sum_list (products dqa_value a b)"]
  have dec_parts: "if n = I128_MIN then decimal_new n (t * 2) = Ok (mk_decimal I128_MIN (t * 2))
      else if dec_fits n (t * 2) then \<exists>z. decimal_new n (t * 2) = Ok z \<and> dec_ok z \<and> dec_val z = fp_val n (t * 2)
      else decimal_new n (t * 2) = Err DecimalError.Overflow" if "t \<le> 18" "i128_range n" for n t
    using decimal_new_min [of "t * 2"] decimal_from_sum [of n "t * 2"] that by simp
  note dec_parts = this [of "dec_scale (hd c)" "sum_list (products dec_mantissa c d)"]
  define p q where "p \<longleftrightarrow> (\<exists>x\<in>set (a @ b). dqa_scale x \<noteq> dqa_scale (hd a))" and "q \<longleftrightarrow> (\<exists>x\<in>set (c @ d). dec_scale x \<noteq> dec_scale (hd c))"
  note dqa = dqa [folded p_def] and dec = dec [folded q_def]
  show ?thesis unfolding Let_def dqa_eq dec_eq p_def [symmetric] q_def [symmetric]
  proof (intro conjI, goal_cases)
    case 1
    then show ?case using dqa dqa_parts by (auto simp: not_less)
  next
    case 2
    then show ?case using dec dec_parts range [of "products dec_mantissa c d"] by (auto simp: not_less)
  qed
qed

theorem dvec_dot_product_witness:
  "(\<exists>z. dot_product dqa_dvec [mk_dqa 15 1, mk_dqa 20 1] [mk_dqa 4 1, mk_dqa (- 3) 1] = Ok z \<and> dqa_val z = 0)
   \<and> dot_product dqa_dvec (replicate 3 (mk_dqa I64_MAX 0)) (replicate 3 (mk_dqa I64_MAX 0)) = Err DvecError.Overflow"
  using dvec_dot_product_correct [of "[mk_dqa 15 1, mk_dqa 20 1]" "[mk_dqa 4 1, mk_dqa (- 3) 1]" "[]" "[]" int_ops]
    dvec_dot_product_correct [of "replicate 3 (mk_dqa I64_MAX 0)" "replicate 3 (mk_dqa I64_MAX 0)" "[]" "[]" int_ops]
  by (simp add: i64_range_def i128_range_def products_def inner_def dqa_val_def [of "mk_dqa _ _"] fp_val_def numeral_3_eq_3)
    blast

text \<open>The squared distance and the element-wise sum, difference and product of two vectors of one scale are
  the exact values of their elements, or \<open>Overflow\<close>.\<close>

theorem dvec_elementwise_correct:
  assumes "length a = length b" "0 < length a" "length a \<le> 64"
    and "\<forall>x\<in>set (a @ b). dqa_scale x = s" "s \<le> 9" "\<forall>x\<in>set (a @ b). dqa_wf x"
  defines "m \<equiv> sum_list (squares dqa_value a b)"
  shows "(if I128_MAX < m then squared_distance dqa_dvec a b = Err DvecError.Overflow
      else if i64_range m then \<exists>z. squared_distance dqa_dvec a b = Ok z \<and> dqa_wf z \<and> dqa_val z = distance2 dqa_val a b
      else squared_distance dqa_dvec a b = Err (DvecDqa DqaError.Overflow))
    \<and> (if \<forall>(x, y)\<in>set (zip a b). i64_range (dqa_value x + dqa_value y)
      then \<exists>c. vec_add dqa_dvec a b = Ok c \<and> (\<forall>z\<in>set c. dqa_wf z) \<and> map dqa_val c = map2 (+) (map dqa_val a) (map dqa_val b)
      else vec_add dqa_dvec a b = Err (DvecDqa DqaError.Overflow))
    \<and> (if \<forall>(x, y)\<in>set (zip a b). i64_range (dqa_value x - dqa_value y)
      then \<exists>c. vec_sub dqa_dvec a b = Ok c \<and> (\<forall>z\<in>set c. dqa_wf z) \<and> map dqa_val c = map2 (-) (map dqa_val a) (map dqa_val b)
      else vec_sub dqa_dvec a b = Err (DvecDqa DqaError.Overflow))
    \<and> (if \<forall>(x, y)\<in>set (zip a b). i64_range (dqa_value x * dqa_value y)
      then \<exists>c. vec_mul dqa_dvec a b = Ok c \<and> (\<forall>z\<in>set c. dqa_wf z) \<and> map dqa_val c = map2 (*) (map dqa_val a) (map dqa_val b)
      else vec_mul dqa_dvec a b = Err (DvecDqa DqaError.Overflow))"
proof -
  have u: "uniform dqa_dvec s (a @ b)" using assms(4) by (simp add: uniform_def dqa_dvec_def)
  have ne: "a \<noteq> []" using assms(2) by auto
  have r: "ds_raw_mantissa dqa_dvec = dqa_value" "ds_max_scale dqa_dvec = 18" by (simp_all add: dqa_dvec_def)
  show ?thesis
    using dqa_vec.squared_distance_val [OF assms(1-3) u _ assms(6), of m] dqa_vec.vec_add_val [OF assms(1) ne u assms(6)]
      dqa_vec.vec_sub_val [OF assms(1) ne u assms(6)] dqa_vec.vec_mul_val [OF assms(1) ne u assms(6)] assms(5)
    by (simp add: r m_def)
qed

theorem dvec_elementwise_witness:
  "\<exists>c. vec_sub dqa_dvec [mk_dqa 15 1, mk_dqa 20 1] [mk_dqa 4 1, mk_dqa (- 3) 1] = Ok c
    \<and> map dqa_val c = [11 / 10, 23 / 10]"
  using dvec_elementwise_correct [of "[mk_dqa 15 1, mk_dqa 20 1]" "[mk_dqa 4 1, mk_dqa (- 3) 1]" 1]
  by (simp add: dqa_wf_def MAX_SCALE_def i64_range_def i128_range_def squares_def dqa_val_def [of "mk_dqa _ _"] fp_val_def)
    (elim conjE exE, auto)

lemma norm_radicand_small:
  assumes "dec_ok q" "dec_scale q \<le> 18" "is_isqrt (sqrt_radicand q) x"
  shows "\<bar>x\<bar> \<le> MAX_DECIMAL_MANTISSA"
proof -
  have p: "sqrt_scale q = dec_scale q + 6" using assms(2) by (simp add: sqrt_scale_def)
  have "dec_mantissa q < 10 ^ 36" using assms(1) by (auto simp: dec_ok_def MAX_DECIMAL_MANTISSA_def)
  then have "sqrt_radicand q < 10 ^ 36 * 10 ^ (2 * sqrt_scale q - dec_scale q)"
    unfolding sqrt_radicand_def by (intro mult_strict_right_mono) simp_all
  also have "\<dots> \<le> 10 ^ 36 * 10 ^ 30" using assms(2) p by (intro mult_left_mono power_increasing) simp_all
  also have "\<dots> = 10 ^ 33 * 10 ^ 33" by simp
  finally have "x * x < 10 ^ 33 * 10 ^ 33" using assms(3) by (simp add: is_isqrt_def)
  moreover have "0 \<le> x" using assms(3) by (simp add: is_isqrt_def)
  ultimately have "x < 10 ^ 33" using mult_mono [of "10 ^ 33" x "10 ^ 33" x] by (cases "x < 10 ^ 33") simp_all
  then show ?thesis using \<open>0 \<le> x\<close> by (simp add: MAX_DECIMAL_MANTISSA_def)
qed

lemma norm_cases:
  assumes "a \<noteq> []" "length a \<le> 64" "uniform S s a" "s \<le> 9"
  shows "dvec_norm S a = bind_ok (dot_product S a a) (\<lambda>q. map_err norm_error (ds_sqrt S q))"
  using assms by (cases a) (auto simp: dvec_norm_def validate_max_dim_def scale_loop_val)

lemma fp_val_neg_iff: "fp_val m s < 0 \<longleftrightarrow> m < 0" "fp_val m s = 0 \<longleftrightarrow> m = 0"
  by (simp_all add: fp_val_def divide_less_0_iff)

lemma dec_scale_le:
  assumes "dec_ok q" "dec_val q = fp_val m s"
  shows "dec_scale q \<le> s"
proof (rule ccontr)
  assume "\<not> dec_scale q \<le> s"
  then show False
    using fp_canonical_aux [of "dec_mantissa q" "dec_scale q" m s] assms
    by (simp add: dec_ok_def dec_val_def fp_val_eq_iff)
qed

lemma norm_sqrt:
  assumes N: "num_laws N v" and q: "dec_ok q" "dec_val q = fp_val m s" "0 \<le> m" "s \<le> 18"
  shows "\<exists>z x p. decimal_sqrt N q = Ok z \<and> dec_ok z \<and> dec_val z = fp_val x p
    \<and> fp_val x p * fp_val x p \<le> dec_val q \<and> dec_val q < fp_val (x + 1) p * fp_val (x + 1) p"
proof (cases "m = 0")
  case True
  then have "dec_mantissa q = 0" using q(2) by (simp add: dec_val_def fp_val_neg_iff)
  moreover obtain z where "decimal_new 0 0 = Ok z" "dec_ok z" "dec_val z = fp_val 0 0"
    using decimal_new_ok [of 0 0] by (auto simp: MAX_DECIMAL_MANTISSA_def)
  ultimately show ?thesis
    by (intro exI [of _ z] exI [of _ 0] exI [of _ 0]) (simp add: decimal_sqrt_def dec_val_def [of q])
next
  case False
  then have "\<not> fp_val (dec_mantissa q) (dec_scale q) \<le> 0"
    using q(2,3) fp_val_neg_iff [of m s] by (simp add: dec_val_def)
  then have "0 < dec_mantissa q" using fp_val_neg_iff [of "dec_mantissa q" "dec_scale q"] by linarith
  then obtain x where x: "is_isqrt (sqrt_radicand q) x" "decimal_sqrt N q = checked_decimal x (sqrt_scale q)"
    using decimal_sqrt_val [OF N q(1)] by blast
  have "dec_scale q \<le> 18" using dec_scale_le [OF q(1,2)] q(4) by simp
  then show ?thesis
    using checked_decimal_ok [OF norm_radicand_small [OF q(1) _ x(1)] sqrt_scale_bounds(1) [OF q(1)]]
      sqrt_val_bounds [OF q(1) x(1)] x(2) by fastforce
qed

text \<open>The norm of a vector of canonical decimals of one scale up to 9 is the square root of the sum of the
  squares, rounded down at the scale the square root works with, whenever that sum fits an \<open>i128\<close> and a decimal;
  otherwise the error is \<open>Overflow\<close>. The norm of a \<open>Dqa\<close> vector is never returned.\<close>

theorem dvec_norm_correct:
  assumes "num_laws N v" "0 < length a" "length a \<le> 64"
    and "\<forall>x\<in>set a. dec_scale x = s" "s \<le> 9" "\<forall>x\<in>set a. dec_ok x"
  defines "m \<equiv> sum_list (products dec_mantissa a a)"
  shows "(if m \<le> I128_MAX \<and> dec_fits m (s * 2)
      then \<exists>z x p. dvec_norm (decimal_dvec N) a = Ok z \<and> dec_ok z \<and> dec_val z = fp_val x p
        \<and> fp_val x p * fp_val x p \<le> inner dec_val a a \<and> inner dec_val a a < fp_val (x + 1) p * fp_val (x + 1) p
      else dvec_norm (decimal_dvec N) a = Err DvecError.Overflow
        \<or> dvec_norm (decimal_dvec N) a = Err (DvecDecimal DecimalError.Overflow))
    \<and> dvec_norm dqa_dvec d \<noteq> Ok y"
proof -
  let ?S = "decimal_dvec N"
  have u: "uniform ?S s a" using assms(4) by (simp add: uniform_def decimal_dvec_def)
  have r: "ds_raw_mantissa ?S = dec_mantissa" "ds_max_scale ?S = 36" by (simp_all add: decimal_dvec_def)
  have ne: "a \<noteq> []" using assms(2) by auto
  have h: "ds_scale ?S (hd a) = s" using u ne by (cases a) simp_all
  have pos: "\<And>p. p \<in> set (products dec_mantissa a a) \<Longrightarrow> 0 \<le> p" by (auto simp: products_def set_zip)
  then have f: "sum_fits 0 (products dec_mantissa a a) \<longleftrightarrow> m \<le> I128_MAX"
    using sum_fits_nonneg [of "products dec_mantissa a a" 0] by (simp add: m_def)
  have m0: "0 \<le> m" unfolding m_def using pos by (rule sum_list_nonneg)
  note n = norm_cases [OF ne assms(3) u assms(5)]
  note d = dvec_numbers.dot_product_val [OF decimal_dvec_numbers [OF assms(1)] refl assms(2,3), of s m, unfolded r]
  have dqa: "dvec_norm dqa_dvec d \<noteq> Ok y"
    by (auto simp: dvec_norm_def Let_def dqa_dvec_def split: if_splits)
  show ?thesis
  proof (cases "m \<le> I128_MAX")
    case False
    then show ?thesis using n f u h ne assms(3,5) dqa by (simp add: dot_product_cases r)
  next
    case True
    then have d: "if dec_fits m (s * 2) then \<exists>q. dot_product ?S a a = Ok q \<and> dec_ok q \<and> dec_val q = inner dec_val a a
        else dot_product ?S a a = Err (DvecDecimal DecimalError.Overflow)"
      using d f u m0 assms(5) by (simp add: m_def)
    have i: "inner dec_val a a = fp_val m (s * 2)"
      using dvec_numbers.products_val [OF decimal_dvec_numbers [OF assms(1)] u u] by (simp add: r m_def)
    have "\<exists>z x p. dvec_norm ?S a = Ok z \<and> dec_ok z \<and> dec_val z = fp_val x p
        \<and> fp_val x p * fp_val x p \<le> inner dec_val a a \<and> inner dec_val a a < fp_val (x + 1) p * fp_val (x + 1) p"
      if "dot_product ?S a a = Ok q" "dec_ok q" "dec_val q = inner dec_val a a" for q
      using norm_sqrt [OF assms(1), of q m "s * 2"] that m0 assms(5) n i by (auto simp: decimal_dvec_def) 
    then show ?thesis using d True n dqa by (auto simp: norm_error_def)
  qed
qed

theorem dvec_norm_witness:
  "\<exists>z x p. dvec_norm (decimal_dvec int_ops) [mk_decimal 3 0, mk_decimal 4 0] = Ok z \<and> dec_val z = fp_val x p
    \<and> fp_val x p * fp_val x p \<le> 25 \<and> 25 < fp_val (x + 1) p * fp_val (x + 1) p"
proof -
  have "dec_fits 25 0" unfolding dec_fits_def
    by (rule exI [of _ "mk_decimal 25 0"]) (simp add: dec_ok_def dec_val_def MAX_DECIMAL_MANTISSA_def fp_canonical_def)
  then show ?thesis
    using dvec_norm_correct [OF int_ops_laws, of "[mk_decimal 3 0, mk_decimal 4 0]" 0 "[]" "mk_dqa 0 0"]
    by (simp add: dec_ok_def MAX_DECIMAL_MANTISSA_def fp_canonical_def products_def inner_def dec_val_def [of "mk_decimal _ _"])
      (elim conjE exE, auto)
qed

text \<open>Which error comes first: dimensions before scales before the arithmetic; the element-wise
  operations on two empty vectors panic (they read the scale of the first element).\<close>

theorem dvec_errors:
  "(length a \<noteq> length b \<longrightarrow> dot_product S a b = Err DimensionMismatch \<and> squared_distance S a b = Err DimensionMismatch
      \<and> vec_add S a b = Err DimensionMismatch \<and> vec_sub S a b = Err DimensionMismatch \<and> vec_mul S a b = Err DimensionMismatch)
   \<and> (length a = length b \<and> 64 < length a \<longrightarrow>
      dot_product S a b = Err DimensionExceeded \<and> squared_distance S a b = Err DimensionExceeded \<and> dvec_norm S a = Err DimensionExceeded)
   \<and> (length a = length b \<and> a \<noteq> [] \<and> \<not> uniform S (ds_scale S (hd a)) (a @ b) \<longrightarrow>
      vec_add S a b = Err ScaleMismatch \<and> vec_sub S a b = Err ScaleMismatch \<and> vec_mul S a b = Err ScaleMismatch)
   \<and> dot_product S [] [] = Err DimensionMismatch \<and> dvec_norm S [] = Err DimensionMismatch
   \<and> vec_add S [] [] = Panic \<and> vec_sub S [] [] = Panic \<and> vec_mul S [] [] = Panic \<and> vec_scale S [] x = Ok []"
  by (cases a)
    (auto simp: dot_product_def squared_distance_def dvec_norm_def vec_add_def vec_sub_def vec_mul_def vec_scale_def
      validate_len_def validate_max_dim_def validate_uniform_val validate_uniform_scale_def [of S "[]"] at_index_def)

theorem dvec_errors_witness:
  "vec_add dqa_dvec [mk_dqa 1 0] [mk_dqa 1 1] = Err ScaleMismatch \<and> vec_add dqa_dvec [] [] = Panic"
  using dvec_errors [of "[mk_dqa 1 0]" "[mk_dqa 1 1]" dqa_dvec "mk_dqa 0 0"] by (simp add: dqa_dvec_def)

text \<open>\<open>Decimal::new\<close> takes the absolute value of the sum in \<open>i128\<close>, where that of \<open>-2 ^ 127\<close> wraps: the dot
  product of two vectors of canonical decimals is a decimal out of range.\<close>

theorem dvec_dot_product_out_of_range:
  "let x = mk_decimal 9223372036854775808 0; y = mk_decimal (- 9223372036854775808) 0 in
   dec_ok x \<and> dec_ok y \<and> dot_product (decimal_dvec N) [x, x] [y, y] = Ok (mk_decimal I128_MIN 0) \<and> \<not> dec_ok (mk_decimal I128_MIN 0)"
  by (simp add: Let_def dec_ok_def MAX_DECIMAL_MANTISSA_def fp_canonical_def dot_product_cases decimal_dvec_def products_def
      i128_range_def decimal_new_def dec_canonicalize_def dec_canonicalize_loop.simps i128_abs_def as_i128_def MAX_DECIMAL_SCALE_def)

end
