(* ===== verification/Dmat.thy ===== *)
theory Dmat
  imports Dvec
begin

text \<open>
  Deterministic matrices, \<open>determin/src/dmat.rs\<close>: row-major matrices of at most 8 by 8 elements over a scalar
  type. The trait \<open>NumericScalar\<close> is the record \<open>numeric_scalar\<close> of its methods, implemented by \<open>dqa_num\<close> and
  \<open>decimal_num\<close>; the locale \<open>dmat_numbers\<close> is what the matrix operations rely on. Indices are \<open>usize\<close> values that
  wrap at \<open>2 ^ 64\<close>, indexing outside of the data panics. The accumulator of the products is a number of the
  crate \<open>num-bigint\<close>, the parameter \<open>num_ops\<close>.
\<close>

subsection \<open>Data\<close>

datatype DmatError =
    DmatDqa DqaError | DmatDecimal DecimalError | DimensionMismatch | DimensionError | ScaleMismatch | InvalidScale
  | Overflow | TrapInput

record 't numeric_scalar =
  ns_max_mantissa :: int
  ns_max_scale :: nat
  ns_new :: "int \<Rightarrow> nat \<Rightarrow> ('t, DmatError) outcome"
  ns_is_trap :: "'t \<Rightarrow> bool"
  ns_scale :: "'t \<Rightarrow> nat"
  ns_raw_mantissa :: "'t \<Rightarrow> int"
  ns_add :: "'t \<Rightarrow> 't \<Rightarrow> ('t, DmatError) outcome"
  ns_sub :: "'t \<Rightarrow> 't \<Rightarrow> ('t, DmatError) outcome"
  ns_mul :: "'t \<Rightarrow> 't \<Rightarrow> ('t, DmatError) outcome"

definition dqa_num :: "dqa numeric_scalar" where
  "dqa_num =
     \<lparr>ns_max_mantissa = I64_MAX, ns_max_scale = 18,
      ns_new = (\<lambda>mantissa scale.
        if mantissa > I64_MAX \<or> mantissa < I64_MIN then Err (DmatDqa DqaError.Overflow)
        else map_err DmatDqa (dqa_new (as_i64 mantissa) scale)),
      ns_is_trap = (\<lambda>x. dqa_value x = I64_MIN \<and> dqa_scale x = 255),
      ns_scale = dqa_scale, ns_raw_mantissa = dqa_value,
      ns_add = (\<lambda>x y. map_err DmatDqa (dqa_add x y)),
      ns_sub = (\<lambda>x y. map_err DmatDqa (dqa_sub x y)),
      ns_mul = (\<lambda>x y. map_err DmatDqa (dqa_mul x y))\<rparr>"

definition decimal_num :: "'b num_ops \<Rightarrow> decimal numeric_scalar" where
  "decimal_num N =
     \<lparr>ns_max_mantissa = MAX_DECIMAL_MANTISSA, ns_max_scale = 36,
      ns_new = (\<lambda>mantissa scale. map_err DmatDecimal (decimal_new mantissa scale)),
      ns_is_trap = (\<lambda>x. dec_mantissa x = I64_MIN \<and> dec_scale x = 255),
      ns_scale = dec_scale, ns_raw_mantissa = dec_mantissa,
      ns_add = (\<lambda>x y. map_err DmatDecimal (decimal_add N x y)),
      ns_sub = (\<lambda>x y. map_err DmatDecimal (decimal_sub N x y)),
      ns_mul = (\<lambda>x y. map_err DmatDecimal (decimal_mul N x y))\<rparr>"

record 't dmat =
  mat_rows :: nat
  mat_cols :: nat
  mat_data :: "'t list"

definition mk_dmat :: "nat \<Rightarrow> nat \<Rightarrow> 't list \<Rightarrow> 't dmat" where
  "mk_dmat r c d = \<lparr>mat_rows = r, mat_cols = c, mat_data = d\<rparr>"

definition usize :: "nat \<Rightarrow> nat" where
  "usize x = x mod 18446744073709551616"

definition dmat_new :: "nat \<Rightarrow> nat \<Rightarrow> 't list \<Rightarrow> ('t dmat, DmatError) outcome" where
  "dmat_new r c d = (if usize (r * c) \<noteq> length d then Err DimensionError else Ok (mk_dmat r c d))"

definition dmat_len :: "'t dmat \<Rightarrow> nat" where
  "dmat_len m = usize (mat_rows m * mat_cols m)"

definition dmat_is_empty :: "'t dmat \<Rightarrow> bool" where
  "dmat_is_empty m \<longleftrightarrow> mat_rows m = 0 \<or> mat_cols m = 0"

definition mat_index :: "nat \<Rightarrow> nat \<Rightarrow> nat \<Rightarrow> nat" where
  "mat_index c i j = usize (usize (i * c) + j)"

definition dmat_get :: "'t dmat \<Rightarrow> nat \<Rightarrow> nat \<Rightarrow> 't option" where
  "dmat_get m i j =
     (if i \<ge> mat_rows m \<or> j \<ge> mat_cols m then None
      else let k = mat_index (mat_cols m) i j in if k < length (mat_data m) then Some (mat_data m ! k) else None)"

definition dmat_at :: "'t dmat \<Rightarrow> nat \<Rightarrow> nat \<Rightarrow> ('t, DmatError) outcome" where
  "dmat_at m i j = at_index (mat_data m) (mat_index (mat_cols m) i j)"

definition validate_dims :: "'t dmat \<Rightarrow> (unit, DmatError) outcome" where
  "validate_dims m =
     (if mat_rows m = 0 \<or> mat_cols m = 0 then Err DimensionError
      else if usize (mat_rows m * mat_cols m) > 64 then Err DimensionError
      else if mat_rows m > 8 \<or> mat_cols m > 8 then Err DimensionError
      else Ok ())"

subsection \<open>Loops over the cells\<close>

definition cells :: "nat \<Rightarrow> nat \<Rightarrow> (nat \<times> nat) list" where
  "cells r c = List.product [0..<r] [0..<c]"

fun scan_cells :: "('t \<Rightarrow> bool) \<Rightarrow> DmatError \<Rightarrow> 't dmat \<Rightarrow> (nat \<times> nat) list \<Rightarrow> (unit, DmatError) outcome" where
  "scan_cells p e m [] = Ok ()"
| "scan_cells p e m ((i, j) # cs) = bind_ok (dmat_at m i j) (\<lambda>x. if p x then Err e else scan_cells p e m cs)"

definition trap_scan :: "'t numeric_scalar \<Rightarrow> 't dmat \<Rightarrow> (unit, DmatError) outcome" where
  "trap_scan S m = scan_cells (ns_is_trap S) TrapInput m (cells (mat_rows m) (mat_cols m))"

definition scale_scan :: "'t numeric_scalar \<Rightarrow> nat \<Rightarrow> 't dmat \<Rightarrow> (unit, DmatError) outcome" where
  "scale_scan S s m = scan_cells (\<lambda>x. ns_scale S x \<noteq> s) ScaleMismatch m (cells (mat_rows m) (mat_cols m))"

subsection \<open>Addition and subtraction\<close>

definition validate_additive_op ::
    "'t numeric_scalar \<Rightarrow> 't dmat \<Rightarrow> 't dmat \<Rightarrow> (nat \<times> nat \<times> nat, DmatError) outcome" where
  "validate_additive_op S a b =
     bind_ok (trap_scan S a) (\<lambda>_. bind_ok (trap_scan S b) (\<lambda>_.
       if mat_rows a \<noteq> mat_rows b \<or> mat_cols a \<noteq> mat_cols b then Err DimensionMismatch
       else if usize (mat_rows a * mat_cols a) > 64 then Err DimensionError
       else if mat_rows a > 8 \<or> mat_cols a > 8 then Err DimensionError
       else if mat_rows a < 1 \<or> mat_cols a < 1 then Err DimensionError
       else bind_ok (at_index (mat_data a) 0) (\<lambda>a0.
         let common = ns_scale S a0 in
         bind_ok (scale_scan S common a) (\<lambda>_. bind_ok (scale_scan S common b) (\<lambda>_.
           bind_ok (at_index (mat_data b) 0) (\<lambda>b0.
             if ns_scale S b0 \<noteq> common then Err ScaleMismatch
             else Ok (mat_rows a, mat_cols a, common)))))))"

definition cellwise ::
    "('t \<Rightarrow> 't \<Rightarrow> ('t, DmatError) outcome) \<Rightarrow> 't dmat \<Rightarrow> 't dmat \<Rightarrow> nat \<Rightarrow> nat \<Rightarrow> ('t list, DmatError) outcome" where
  "cellwise f a b r c =
     collect_ok (map (\<lambda>(i, j).
       bind_ok (at_index (mat_data a) (mat_index c i j)) (\<lambda>x.
         bind_ok (at_index (mat_data b) (mat_index c i j)) (\<lambda>y. f x y))) (cells r c))"

definition mat_add :: "'t numeric_scalar \<Rightarrow> 't dmat \<Rightarrow> 't dmat \<Rightarrow> ('t dmat, DmatError) outcome" where
  "mat_add S a b =
     bind_ok (validate_additive_op S a b) (\<lambda>(r, c, _).
       bind_ok (cellwise (ns_add S) a b r c) (\<lambda>result_data.
         map_err (\<lambda>_. DimensionError) (dmat_new r c result_data)))"

definition mat_sub :: "'t numeric_scalar \<Rightarrow> 't dmat \<Rightarrow> 't dmat \<Rightarrow> ('t dmat, DmatError) outcome" where
  "mat_sub S a b =
     bind_ok (validate_additive_op S a b) (\<lambda>(r, c, _).
       bind_ok (cellwise (ns_sub S) a b r c) (\<lambda>result_data.
         map_err (\<lambda>_. DimensionError) (dmat_new r c result_data)))"

subsection \<open>Products\<close>

definition checked_scale :: "'t numeric_scalar \<Rightarrow> nat \<Rightarrow> nat \<Rightarrow> (nat, DmatError) outcome" where
  "checked_scale S s t =
     (if s + t > 255 then Err InvalidScale
      else if s + t > ns_max_scale S then Err InvalidScale
      else Ok (s + t))"

fun accumulate ::
    "'b num_ops \<Rightarrow> 't numeric_scalar \<Rightarrow> 't list \<Rightarrow> 't list \<Rightarrow> 'b \<Rightarrow> (nat \<times> nat) list \<Rightarrow> ('b, DmatError) outcome" where
  "accumulate N S da db acc [] = Ok acc"
| "accumulate N S da db acc ((p, q) # ps) =
     bind_ok (at_index da p) (\<lambda>a_val. bind_ok (at_index db q) (\<lambda>b_val.
       bind_ok (ns_mul S a_val b_val) (\<lambda>product.
         accumulate N S da db (nb_add N acc (nb_from N (ns_raw_mantissa S product))) ps)))"

definition finish_cell :: "'b num_ops \<Rightarrow> 't numeric_scalar \<Rightarrow> nat \<Rightarrow> 'b \<Rightarrow> ('t, DmatError) outcome" where
  "finish_cell N S result_scale acc =
     (let abs_acc = nb_abs N acc; max_mantissa = nb_from N (ns_max_mantissa S) in
      if nb_lt N max_mantissa abs_acc then Err DmatError.Overflow
      else bind_ok (ok_or (nb_to_i128 N acc) DmatError.Overflow) (\<lambda>result_mantissa.
        map_err (\<lambda>_. DmatError.Overflow) (ns_new S result_mantissa result_scale)))"

definition mat_mul :: "'b num_ops \<Rightarrow> 't numeric_scalar \<Rightarrow> 't dmat \<Rightarrow> 't dmat \<Rightarrow> ('t dmat, DmatError) outcome" where
  "mat_mul N S a b =
     bind_ok (trap_scan S a) (\<lambda>_. bind_ok (trap_scan S b) (\<lambda>_.
       if mat_cols a \<noteq> mat_rows b then Err DimensionMismatch
       else let m = mat_rows a; k = mat_cols a; n = mat_cols b in
         if m = 0 \<or> n = 0 then Err DimensionError
         else if usize (m * n) > 64 then Err DimensionError
         else if m > 8 \<or> n > 8 then Err DimensionError
         else bind_ok (at_index (mat_data a) 0) (\<lambda>a0.
           let scale_a = ns_scale S a0 in
           bind_ok (scale_scan S scale_a a) (\<lambda>_. bind_ok (at_index (mat_data b) 0) (\<lambda>b0.
             let scale_b = ns_scale S b0 in
             bind_ok (scale_scan S scale_b b) (\<lambda>_. bind_ok (checked_scale S scale_a scale_b) (\<lambda>result_scale.
               bind_ok
                 (collect_ok (map (\<lambda>(i, j).
                    bind_ok (accumulate N S (mat_data a) (mat_data b) (nb_from N 0)
                        (map (\<lambda>x. (mat_index k i x, mat_index n x j)) [0..<k]))
                      (finish_cell N S result_scale)) (cells m n)))
                 (\<lambda>result_data. map_err (\<lambda>_. DimensionError) (dmat_new m n result_data))))))))) "

definition gas_mat_mul :: "nat \<Rightarrow> nat \<Rightarrow> nat \<Rightarrow> nat \<Rightarrow> nat \<Rightarrow> nat" where
  "gas_mat_mul m n k scale_a scale_b = usize (m * n * k * (30 + 3 * scale_a * scale_b))"

fun scan_list :: "('t \<Rightarrow> bool) \<Rightarrow> DmatError \<Rightarrow> 't list \<Rightarrow> (unit, DmatError) outcome" where
  "scan_list p e [] = Ok ()"
| "scan_list p e (x # xs) = (if p x then Err e else scan_list p e xs)"

definition mat_vec_mul :: "'b num_ops \<Rightarrow> 't numeric_scalar \<Rightarrow> 't dmat \<Rightarrow> 't list \<Rightarrow> ('t list, DmatError) outcome" where
  "mat_vec_mul N S a v =
     bind_ok (trap_scan S a) (\<lambda>_. bind_ok (scan_list (ns_is_trap S) TrapInput v) (\<lambda>_.
       if mat_cols a \<noteq> length v then Err DimensionMismatch
       else let r = mat_rows a; c = mat_cols a in
         if r = 0 \<or> c = 0 then Err DimensionError
         else if usize (r * c) > 64 then Err DimensionError
         else if r > 8 \<or> c > 8 then Err DimensionError
         else bind_ok (at_index (mat_data a) 0) (\<lambda>a0.
           let scale_a = ns_scale S a0 in
           bind_ok (scale_scan S scale_a a) (\<lambda>_. bind_ok (at_index v 0) (\<lambda>v0.
             let scale_v = ns_scale S v0 in
             bind_ok (scan_list (\<lambda>x. ns_scale S x \<noteq> scale_v) ScaleMismatch v) (\<lambda>_.
               bind_ok (checked_scale S scale_a scale_v) (\<lambda>result_scale.
                 collect_ok (map (\<lambda>i.
                   bind_ok (accumulate N S (mat_data a) v (nb_from N 0) (map (\<lambda>j. (mat_index c i j, j)) [0..<length v]))
                     (finish_cell N S result_scale)) [0..<r]))))))))"

definition gas_mat_vec_mul :: "nat \<Rightarrow> nat \<Rightarrow> nat \<Rightarrow> nat \<Rightarrow> nat" where
  "gas_mat_vec_mul r c scale_a scale_v = usize (r * c * (30 + 3 * scale_a * scale_v))"

subsection \<open>Transposition and scaling\<close>

definition mat_transpose :: "'t numeric_scalar \<Rightarrow> 't dmat \<Rightarrow> ('t dmat, DmatError) outcome" where
  "mat_transpose S a =
     bind_ok (trap_scan S a) (\<lambda>_.
       let r = mat_rows a; c = mat_cols a in
       if r = 0 \<or> c = 0 then Err DimensionError
       else if usize (r * c) > 64 then Err DimensionError
       else if r > 8 \<or> c > 8 then Err DimensionError
       else bind_ok (at_index (mat_data a) 0) (\<lambda>a0.
         let common = ns_scale S a0 in
         bind_ok (scale_scan S common a) (\<lambda>_.
           bind_ok (collect_ok (map (\<lambda>(i, j). at_index (mat_data a) (mat_index c j i)) (cells c r))) (\<lambda>result_data.
             map_err (\<lambda>_. DimensionError) (dmat_new c r result_data)))))"

definition gas_mat_transpose :: "nat \<Rightarrow> nat \<Rightarrow> nat" where
  "gas_mat_transpose r c = usize (2 * usize (r * c))"

definition mat_scale :: "'t numeric_scalar \<Rightarrow> 't dmat \<Rightarrow> 't \<Rightarrow> ('t dmat, DmatError) outcome" where
  "mat_scale S a scalar =
     (if ns_is_trap S scalar then Err TrapInput
      else bind_ok (trap_scan S a) (\<lambda>_.
        let r = mat_rows a; c = mat_cols a in
        if r = 0 \<or> c = 0 then Err DimensionError
        else if usize (r * c) > 64 then Err DimensionError
        else if r > 8 \<or> c > 8 then Err DimensionError
        else bind_ok (at_index (mat_data a) 0) (\<lambda>a0.
          let scale_a = ns_scale S a0 in
          bind_ok (scale_scan S scale_a a) (\<lambda>_.
            bind_ok (checked_scale S scale_a (ns_scale S scalar)) (\<lambda>_.
              bind_ok (collect_ok (map (\<lambda>(i, j). bind_ok (at_index (mat_data a) (mat_index c i j)) (\<lambda>x. ns_mul S x scalar)) (cells r c)))
                (\<lambda>result_data. map_err (\<lambda>_. DimensionError) (dmat_new r c result_data)))))))"

definition gas_mat_scale :: "nat \<Rightarrow> nat \<Rightarrow> nat \<Rightarrow> nat \<Rightarrow> nat" where
  "gas_mat_scale r c scale_a scale_scalar = usize (r * c * (20 + 3 * scale_a * scale_scalar))"

subsection \<open>Cells of a well-formed matrix\<close>

definition mat_wf :: "'t dmat \<Rightarrow> bool" where
  "mat_wf m \<longleftrightarrow> length (mat_data m) = mat_rows m * mat_cols m \<and>
     0 < mat_rows m \<and> mat_rows m \<le> 8 \<and> 0 < mat_cols m \<and> mat_cols m \<le> 8"

text \<open>What the product needs of its arguments, whose inner dimension is not bounded: data of the right length,
  that fits in memory, and no empty dimension.\<close>

definition mat_shaped :: "'t dmat \<Rightarrow> bool" where
  "mat_shaped m \<longleftrightarrow> length (mat_data m) = mat_rows m * mat_cols m \<and> 0 < mat_rows m \<and> 0 < mat_cols m \<and> length (mat_data m) < 2 ^ 64"

definition cell :: "'t dmat \<Rightarrow> nat \<Rightarrow> nat \<Rightarrow> 't" where
  "cell m i j = mat_data m ! (i * mat_cols m + j)"

lemma mk_dmat_sel [simp]: "mat_rows (mk_dmat r c d) = r" "mat_cols (mk_dmat r c d) = c" "mat_data (mk_dmat r c d) = d"
  by (simp_all add: mk_dmat_def)

lemma cells_set: "(i, j) \<in> set (cells r c) \<longleftrightarrow> i < r \<and> j < c"
  by (auto simp: cells_def)

lemma length_cells [simp]: "length (cells r c) = r * c"
  by (simp add: cells_def)

lemma cell_pos: "i < r \<Longrightarrow> j < c \<Longrightarrow> i * c + j < r * (c :: nat)"
proof -
  assume "i < r" "j < c"
  then have "i * c + j < Suc i * c" by simp
  also have "\<dots> \<le> r * c" using \<open>i < r\<close> by (intro mult_le_mono1) simp
  finally show ?thesis .
qed

lemma cells_nth: "i < r \<Longrightarrow> j < c \<Longrightarrow> cells r c ! (i * c + j) = (i, j)"
  using cell_pos [of i r j c] by (simp add: cells_def product_nth)

lemma cells_index: "map (\<lambda>(i, j). i * c + j) (cells r c) = [0..<r * c]"
proof (rule nth_equalityI)
  fix k assume "k < length (map (\<lambda>(i, j). i * c + j) (cells r c))"
  then have k: "k < r * c" by simp
  then have "0 < c" by (cases c) simp_all
  then have "cells r c ! k = (k div c, k mod c)"
    using k by (simp add: cells_def product_nth less_mult_imp_div_less)
  then show "map (\<lambda>(i, j). i * c + j) (cells r c) ! k = [0..<r * c] ! k" using k by simp
qed simp

lemma small_square: "r \<le> 8 \<Longrightarrow> c \<le> 8 \<Longrightarrow> r * c \<le> (64 :: nat)"
  using mult_le_mono [of r 8 c 8] by simp

lemma usize_small: "x \<le> 64 \<Longrightarrow> usize x = x"
  by (simp add: usize_def)

lemma mat_index_small:
  assumes "i < r" "j < c" "r \<le> 8" "c \<le> 8"
  shows "mat_index c i j = i * c + j"
proof -
  have "i * c + j < 64" using cell_pos [OF assms(1,2)] small_square [OF assms(3,4)] by simp
  then show ?thesis by (simp add: mat_index_def usize_small)
qed

lemma mat_wf_shaped: "mat_wf m \<Longrightarrow> mat_shaped m"
  using small_square [of "mat_rows m" "mat_cols m"] by (simp add: mat_wf_def mat_shaped_def)

lemma mat_index_shaped:
  assumes "mat_shaped m" "i < mat_rows m" "j < mat_cols m"
  shows "mat_index (mat_cols m) i j = i * mat_cols m + j"
proof -
  have "i * mat_cols m + j < 2 ^ 64" using cell_pos [OF assms(2,3)] assms(1) by (simp add: mat_shaped_def)
  then show ?thesis by (simp add: mat_index_def usize_def)
qed

lemma dmat_at_shaped:
  assumes "mat_shaped m" "i < mat_rows m" "j < mat_cols m"
  shows "dmat_at m i j = Ok (cell m i j)"
  using assms cell_pos [OF assms(2,3)] mat_index_shaped [OF assms] by (simp add: dmat_at_def mat_shaped_def cell_def)

lemma cell_in_shaped:
  assumes "mat_shaped m" "i < mat_rows m" "j < mat_cols m"
  shows "i * mat_cols m + j < length (mat_data m)" "cell m i j \<in> set (mat_data m)"
  using assms cell_pos [OF assms(2,3)] by (simp_all add: mat_shaped_def cell_def)

lemma cells_data_shaped:
  assumes "mat_shaped m"
  shows "map (\<lambda>(i, j). cell m i j) (cells (mat_rows m) (mat_cols m)) = mat_data m"
proof -
  have "map (\<lambda>(i, j). cell m i j) (cells (mat_rows m) (mat_cols m))
    = map ((!) (mat_data m)) (map (\<lambda>(i, j). i * mat_cols m + j) (cells (mat_rows m) (mat_cols m)))"
    by (simp add: cell_def case_prod_unfold comp_def)
  also have "\<dots> = map ((!) (mat_data m)) [0..<length (mat_data m)]"
    using assms by (simp only: cells_index mat_shaped_def)
  finally show ?thesis by (simp add: map_nth)
qed

lemma scan_cells_shaped:
  assumes "mat_shaped m"
  shows "scan_cells p e m (cells (mat_rows m) (mat_cols m)) = (if \<exists>x\<in>set (mat_data m). p x then Err e else Ok ())"
proof -
  have s: "scan_cells p e m cs = (if \<exists>x\<in>set (map (\<lambda>(i, j). cell m i j) cs). p x then Err e else Ok ())"
    if "\<forall>(i, j)\<in>set cs. i < mat_rows m \<and> j < mat_cols m" for cs
    using that by (induction cs) (auto simp: dmat_at_shaped [OF assms])
  have "\<forall>(i, j)\<in>set (cells (mat_rows m) (mat_cols m)). i < mat_rows m \<and> j < mat_cols m"
    using cells_set by blast
  from s [OF this] show ?thesis by (simp only: cells_data_shaped [OF assms])
qed

lemmas dmat_at_wf = dmat_at_shaped [OF mat_wf_shaped]
lemmas cell_in = cell_in_shaped [OF mat_wf_shaped]
lemmas cells_data = cells_data_shaped [OF mat_wf_shaped]
lemmas scan_cells_val = scan_cells_shaped [OF mat_wf_shaped]

lemma scan_list_val: "scan_list p e xs = (if \<exists>x\<in>set xs. p x then Err e else Ok ())"
  by (induction xs) auto

lemma dmat_new_small: "length d = r * c \<Longrightarrow> r * c \<le> 64 \<Longrightarrow> dmat_new r c d = Ok (mk_dmat r c d)"
  by (simp add: dmat_new_def usize_small)

lemma collect_cells:
  assumes d: "0 < m" "0 < n" "m \<le> 8" "n \<le> 8"
    and f: "\<And>i j. i < m \<Longrightarrow> j < n \<Longrightarrow> if P i j then \<exists>z. f (i, j) = Ok z \<and> Q i j z else f (i, j) = Err e"
  shows "if \<forall>i<m. \<forall>j<n. P i j
    then \<exists>c. bind_ok (collect_ok (map f (cells m n))) (\<lambda>d. map_err (\<lambda>_. DimensionError) (dmat_new m n d)) = Ok c
      \<and> mat_wf c \<and> mat_rows c = m \<and> mat_cols c = n \<and> (\<forall>i<m. \<forall>j<n. Q i j (cell c i j))
    else bind_ok (collect_ok (map f (cells m n))) (\<lambda>d. map_err (\<lambda>_. DimensionError) (dmat_new m n d)) = Err e"
proof -
  have "if case_prod P q then \<exists>z. f q = Ok z \<and> case_prod Q q z else f q = Err e" if "q \<in> set (cells m n)" for q
    using f [of "fst q" "snd q"] that cells_set [of "fst q" "snd q" m n] by (simp add: case_prod_unfold split: if_splits)
  note c = collect_ok_val [of "cells m n" "case_prod P" f "case_prod Q" e, OF this]
  have all: "(\<forall>q\<in>set (cells m n). case_prod P q) \<longleftrightarrow> (\<forall>i<m. \<forall>j<n. P i j)" using cells_set by fastforce
  show ?thesis
  proof (cases "\<forall>i<m. \<forall>j<n. P i j")
    case True
    then obtain c where c: "collect_ok (map f (cells m n)) = Ok c" "length c = m * n"
      "\<forall>k<m * n. case_prod Q (cells m n ! k) (c ! k)" using c all by auto
    have "Q i j (cell (mk_dmat m n c) i j)" if "i < m" "j < n" for i j
      using c(3) cells_nth [OF that] cell_pos [OF that] by (fastforce simp: cell_def)
    moreover have "dmat_new m n c = Ok (mk_dmat m n c)" "mat_wf (mk_dmat m n c)"
      using c(2) d small_square [OF d(3,4)] by (simp_all add: dmat_new_small mat_wf_def)
    ultimately have "\<exists>c. bind_ok (collect_ok (map f (cells m n))) (\<lambda>d. map_err (\<lambda>_. DimensionError) (dmat_new m n d)) = Ok c
      \<and> mat_wf c \<and> mat_rows c = m \<and> mat_cols c = n \<and> (\<forall>i<m. \<forall>j<n. Q i j (cell c i j))"
      using c(1) by (intro exI [of _ "mk_dmat m n c"]) simp
    then show ?thesis using True by simp
  next
    case False
    then have "collect_ok (map f (cells m n)) = Err e" using c all by auto
    then show ?thesis using False by simp
  qed
qed

text \<open>Collecting the cells when each has an error of its own: the first bad cell in row-major order decides.\<close>

lemma collect_ok_first:
  assumes "\<And>x. x \<in> set xs \<Longrightarrow> if P x then \<exists>z. f x = Ok z \<and> Q x z else f x = Err (e x)" "\<exists>x\<in>set xs. \<not> P x"
  shows "\<exists>k<length xs. \<not> P (xs ! k) \<and> (\<forall>l<k. P (xs ! l)) \<and> collect_ok (map f xs) = Err (e (xs ! k))"
  using assms
proof (induction xs)
  case (Cons x xs)
  show ?case
  proof (cases "P x")
    case False
    then show ?thesis using Cons.prems(1) [of x] by (intro exI [of _ 0]) simp
  next
    case True
    then obtain z where "f x = Ok z" using Cons.prems(1) [of x] by auto
    moreover obtain k where "k < length xs" "\<not> P (xs ! k)" "\<forall>l<k. P (xs ! l)" "collect_ok (map f xs) = Err (e (xs ! k))"
      using Cons.IH Cons.prems True by (metis list.set_intros(2) set_ConsD)
    ultimately show ?thesis using True by (intro exI [of _ "Suc k"]) (auto simp: less_Suc_eq_0_disj)
  qed
qed simp

lemma collect_cells_first:
  assumes n: "0 < n"
    and f: "\<And>i j. i < m \<Longrightarrow> j < n \<Longrightarrow> if P i j then \<exists>z. f (i, j) = Ok z \<and> Q i j z else f (i, j) = Err (e i j)"
    and bad: "\<not> (\<forall>i<m. \<forall>j<n. P i j)"
  shows "\<exists>i<m. \<exists>j<n. \<not> P i j \<and> (\<forall>i'<m. \<forall>j'<n. i' * n + j' < i * n + j \<longrightarrow> P i' j') \<and> collect_ok (map f (cells m n)) = Err (e i j)"
proof -
  define P' where "P' q \<longleftrightarrow> P (fst q) (snd q)" for q
  define e' where "e' q = e (fst q) (snd q)" for q
  have "if P' q then \<exists>z. f q = Ok z \<and> Q (fst q) (snd q) z else f q = Err (e' q)" if "q \<in> set (cells m n)" for q
    using f [of "fst q" "snd q"] that cells_set [of "fst q" "snd q" m n] by (simp add: P'_def e'_def split: if_splits)
  moreover have "\<exists>q\<in>set (cells m n). \<not> P' q" using bad cells_set by (fastforce simp: P'_def)
  ultimately have "\<exists>k<length (cells m n). \<not> P' (cells m n ! k) \<and> (\<forall>l<k. P' (cells m n ! l)) \<and> collect_ok (map f (cells m n)) = Err (e' (cells m n ! k))"
    by (rule collect_ok_first)
  then obtain k where k: "k < length (cells m n)" "\<not> P' (cells m n ! k)" "\<forall>l<k. P' (cells m n ! l)"
      "collect_ok (map f (cells m n)) = Err (e' (cells m n ! k))" by blast
  define i j where "i = k div n" and "j = k mod n"
  have ij: "i < m" "j < n" "i * n + j = k" using k(1) n by (simp_all add: i_def j_def less_mult_imp_div_less)
  then have c: "cells m n ! k = (i, j)" using cells_nth by blast
  have "P i' j'" if "i' < m" "j' < n" "i' * n + j' < k" for i' j' using k(3) cells_nth [OF that(1,2)] that(3) by (fastforce simp: P'_def)
  then show ?thesis using ij k(2,4) c by (auto simp: P'_def e'_def)
qed

lemma mat_first_shaped:
  assumes "mat_shaped m"
  shows "at_index (mat_data m) 0 = Ok (cell m 0 0)" "cell m 0 0 \<in> set (mat_data m)"
  using assms by (auto simp: mat_shaped_def cell_def)

lemmas mat_wf_first = mat_first_shaped [OF mat_wf_shaped]

subsection \<open>The contract of a scalar type\<close>

definition mat_uniform :: "'t numeric_scalar \<Rightarrow> nat \<Rightarrow> 't dmat \<Rightarrow> bool" where
  "mat_uniform S s m \<longleftrightarrow> (\<forall>x\<in>set (mat_data m). ns_scale S x = s)"

definition unstripped :: "int \<Rightarrow> nat \<Rightarrow> bool" where
  "unstripped p s \<longleftrightarrow> p = 0 \<or> s = 0 \<or> \<not> 10 dvd p"

locale dmat_numbers =
  fixes S :: "'t numeric_scalar" and valid :: "'t \<Rightarrow> bool" and val :: "'t \<Rightarrow> rat" and small :: "int \<Rightarrow> bool"
    and too_big :: DmatError
  assumes val_parts: "val x = fp_val (ns_raw_mantissa S x) (ns_scale S x)"
    and no_trap: "valid x \<Longrightarrow> \<not> ns_is_trap S x"
    and max_scale: "ns_max_scale S \<le> 255"
    and max_mantissa: "ns_max_mantissa S \<le> I128_MAX"
    and new_ok: "\<bar>m\<bar> \<le> ns_max_mantissa S \<Longrightarrow> s \<le> ns_max_scale S \<Longrightarrow>
      \<exists>z. ns_new S m s = Ok z \<and> valid z \<and> val z = fp_val m s"
    and add: "valid x \<Longrightarrow> valid y \<Longrightarrow> ns_scale S x = ns_scale S y \<Longrightarrow>
      if small (ns_raw_mantissa S x + ns_raw_mantissa S y)
      then \<exists>z. ns_add S x y = Ok z \<and> valid z \<and> val z = val x + val y else ns_add S x y = Err too_big"
    and sub: "valid x \<Longrightarrow> valid y \<Longrightarrow> ns_scale S x = ns_scale S y \<Longrightarrow>
      if small (ns_raw_mantissa S x - ns_raw_mantissa S y)
      then \<exists>z. ns_sub S x y = Ok z \<and> valid z \<and> val z = val x - val y else ns_sub S x y = Err too_big"
    and mul: "valid x \<Longrightarrow> valid y \<Longrightarrow> ns_scale S x + ns_scale S y \<le> ns_max_scale S \<Longrightarrow>
      if small (ns_raw_mantissa S x * ns_raw_mantissa S y)
      then \<exists>z. ns_mul S x y = Ok z \<and> valid z \<and> val z = val x * val y else ns_mul S x y = Err too_big"
    and canonical: "ns_mul S x y = Ok z \<Longrightarrow> valid x \<Longrightarrow> valid y \<Longrightarrow> fp_canonical (ns_raw_mantissa S z) (ns_scale S z)"
begin

lemma trap_scan_shaped: "mat_shaped m \<Longrightarrow> \<forall>x\<in>set (mat_data m). valid x \<Longrightarrow> trap_scan S m = Ok ()"
  using no_trap by (auto simp: trap_scan_def scan_cells_shaped)

lemma scale_scan_shaped: "mat_shaped m \<Longrightarrow> mat_uniform S s m \<Longrightarrow> scale_scan S s m = Ok ()"
  by (simp add: scale_scan_def scan_cells_shaped mat_uniform_def)

lemma first_scale_shaped: "mat_shaped m \<Longrightarrow> mat_uniform S s m \<Longrightarrow> ns_scale S (cell m 0 0) = s"
  using mat_first_shaped by (auto simp: mat_uniform_def)

lemmas trap_scan_valid = trap_scan_shaped [OF mat_wf_shaped]
lemmas scale_scan_uniform = scale_scan_shaped [OF mat_wf_shaped]
lemmas first_scale = first_scale_shaped [OF mat_wf_shaped]

lemma mul_unstripped:
  assumes "valid x" "valid y" "ns_scale S x + ns_scale S y \<le> ns_max_scale S"
    and "small (ns_raw_mantissa S x * ns_raw_mantissa S y)"
    and "unstripped (ns_raw_mantissa S x * ns_raw_mantissa S y) (ns_scale S x + ns_scale S y)"
  obtains z where "ns_mul S x y = Ok z" "ns_raw_mantissa S z = ns_raw_mantissa S x * ns_raw_mantissa S y"
proof -
  let ?p = "ns_raw_mantissa S x * ns_raw_mantissa S y" and ?s = "ns_scale S x + ns_scale S y"
  obtain z where z: "ns_mul S x y = Ok z" "fp_val (ns_raw_mantissa S z) (ns_scale S z) = fp_val ?p ?s"
    using mul [OF assms(1-3)] assms(4) by (auto simp: val_parts fp_val_mult)
  note c = canonical [OF z(1) assms(1,2)]
  have "ns_raw_mantissa S z = ?p"
  proof (cases "?p = 0")
    case True
    then show ?thesis using z(2) unfolding True by (simp add: fp_val_def)
  next
    case False
    then have "fp_canonical ?p ?s" using assms(5) by (auto simp: fp_canonical_def unstripped_def)
    then show ?thesis using fp_canonical_unique [OF c _ z(2)] by simp
  qed
  then show ?thesis using that z(1) by blast
qed

end

lemma accumulate_val:
  assumes "num_laws N v"
    and "\<forall>(p, q)\<in>set ps. p < length da \<and> q < length db \<and>
      (if small (ns_raw_mantissa S (da ! p) * ns_raw_mantissa S (db ! q))
       then \<exists>z. ns_mul S (da ! p) (db ! q) = Ok z \<and> ns_raw_mantissa S z = ns_raw_mantissa S (da ! p) * ns_raw_mantissa S (db ! q)
       else ns_mul S (da ! p) (db ! q) = Err e)"
  shows "if \<forall>(p, q)\<in>set ps. small (ns_raw_mantissa S (da ! p) * ns_raw_mantissa S (db ! q))
    then \<exists>r. accumulate N S da db acc ps = Ok r
      \<and> v r = v acc + (\<Sum>(p, q)\<leftarrow>ps. ns_raw_mantissa S (da ! p) * ns_raw_mantissa S (db ! q))
    else accumulate N S da db acc ps = Err e"
  using assms(2)
proof (induction ps arbitrary: acc)
  case (Cons pq ps)
  obtain p q where pq: "pq = (p, q)" by force
  then have pq': "p < length da" "q < length db" using Cons.prems by auto
  show ?case
  proof (cases "small (ns_raw_mantissa S (da ! p) * ns_raw_mantissa S (db ! q))")
    case True
    then obtain z where z: "ns_mul S (da ! p) (db ! q) = Ok z"
      "ns_raw_mantissa S z = ns_raw_mantissa S (da ! p) * ns_raw_mantissa S (db ! q)"
      using Cons.prems pq by auto
    then show ?thesis
      using Cons.IH [of "nb_add N acc (nb_from N (ns_raw_mantissa S z))"] Cons.prems True pq'
      by (auto simp: pq num_lawsD [OF assms(1)] add.assoc split: if_splits)
  next
    case False
    then show ?thesis using Cons.prems pq pq' by simp
  qed
qed simp

lemma finish_cell_val:
  assumes "num_laws N v" "ns_max_mantissa S \<le> I128_MAX"
  shows "finish_cell N S s acc = (if \<bar>v acc\<bar> \<le> ns_max_mantissa S
    then map_err (\<lambda>_. DmatError.Overflow) (ns_new S (v acc) s) else Err DmatError.Overflow)"
proof (cases "\<bar>v acc\<bar> \<le> ns_max_mantissa S")
  case True
  then have "i128_range (v acc)" using assms(2) by (intro i128_range_small) linarith
  then show ?thesis using True by (simp add: finish_cell_def num_lawsD [OF assms(1)] not_less)
next
  case False
  then show ?thesis by (simp add: finish_cell_def num_lawsD [OF assms(1)] not_le)
qed

definition row_by_column :: "('t \<Rightarrow> 'n :: comm_ring_1) \<Rightarrow> 't dmat \<Rightarrow> 't dmat \<Rightarrow> nat \<Rightarrow> nat \<Rightarrow> 'n" where
  "row_by_column f a b i j = (\<Sum>x\<leftarrow>[0..<mat_cols a]. f (cell a i x) * f (cell b x j))"

definition products_fit :: "(int \<Rightarrow> bool) \<Rightarrow> ('t \<Rightarrow> int) \<Rightarrow> 't dmat \<Rightarrow> 't dmat \<Rightarrow> nat \<Rightarrow> nat \<Rightarrow> bool" where
  "products_fit small f a b i j \<longleftrightarrow> (\<forall>x<mat_cols a. small (f (cell a i x) * f (cell b x j)))"

abbreviation cell_product :: "'b num_ops \<Rightarrow> 't numeric_scalar \<Rightarrow> 't dmat \<Rightarrow> 't dmat \<Rightarrow> nat \<Rightarrow> nat \<times> nat \<Rightarrow> ('t, DmatError) outcome" where
  "cell_product N S a b r \<equiv> (\<lambda>(i, j). bind_ok (accumulate N S (mat_data a) (mat_data b) (nb_from N 0)
    (map (\<lambda>x. (mat_index (mat_cols a) i x, mat_index (mat_cols b) x j)) [0..<mat_cols a])) (finish_cell N S r))"

context dmat_numbers
begin

lemma row_by_column_val:
  assumes wf: "mat_shaped a" "mat_shaped b" "mat_cols a = mat_rows b" and ij: "i < mat_rows a" "j < mat_cols b"
    and u: "mat_uniform S s a" "mat_uniform S t b"
  shows "fp_val (row_by_column (ns_raw_mantissa S) a b i j) (s + t) = row_by_column val a b i j"
proof -
  have "fp_val (\<Sum>x\<leftarrow>xs. ns_raw_mantissa S (cell a i x) * ns_raw_mantissa S (cell b x j)) (s + t)
    = (\<Sum>x\<leftarrow>xs. val (cell a i x) * val (cell b x j))" if "set xs \<subseteq> {..<mat_cols a}" for xs
    using that
  proof (induction xs)
    case (Cons x xs)
    then have "ns_scale S (cell a i x) = s" "ns_scale S (cell b x j) = t"
      using u wf(3) cell_in_shaped(2) [OF wf(1) ij(1), of x] cell_in_shaped(2) [OF wf(2) _ ij(2), of x] by (auto simp: mat_uniform_def)
    then show ?case using Cons by (simp add: fp_val_add fp_val_mult val_parts)
  qed simp
  from this [of "[0..<mat_cols a]"] show ?thesis by (simp add: row_by_column_def atLeast0LessThan)
qed

lemma mul_cell:
  assumes N: "num_laws N v" and wf: "mat_shaped a" "mat_shaped b" "mat_cols a = mat_rows b" and ij: "i < mat_rows a" "j < mat_cols b"
    and val: "\<forall>x\<in>set (mat_data a) \<union> set (mat_data b). valid x"
    and u: "mat_uniform S s a" "mat_uniform S t b" "s + t \<le> ns_max_scale S"
    and p: "\<forall>x<mat_cols a. unstripped (ns_raw_mantissa S (cell a i x) * ns_raw_mantissa S (cell b x j)) (s + t)"
  shows "if products_fit small (ns_raw_mantissa S) a b i j \<and> \<bar>row_by_column (ns_raw_mantissa S) a b i j\<bar> \<le> ns_max_mantissa S
    then \<exists>z. cell_product N S a b (s + t) (i, j) = Ok z \<and> valid z \<and> val z = row_by_column val a b i j
    else cell_product N S a b (s + t) (i, j)
      = Err (if products_fit small (ns_raw_mantissa S) a b i j then DmatError.Overflow else too_big)"
proof -
  define ps where "ps = map (\<lambda>x. (i * mat_cols a + x, x * mat_cols b + j)) [0..<mat_cols a]"
  have ps: "map (\<lambda>x. (mat_index (mat_cols a) i x, mat_index (mat_cols b) x j)) [0..<mat_cols a] = ps"
    using wf(3) ij mat_index_shaped [OF wf(1) ij(1)] mat_index_shaped [OF wf(2) _ ij(2)] by (simp add: ps_def)
  note in_a = cell_in_shaped [OF wf(1) ij(1)] and in_b = cell_in_shaped [OF wf(2) _ ij(2), folded wf(3)]
  have "\<forall>(p, q)\<in>set ps. p < length (mat_data a) \<and> q < length (mat_data b) \<and>
      (if small (ns_raw_mantissa S (mat_data a ! p) * ns_raw_mantissa S (mat_data b ! q))
       then \<exists>z. ns_mul S (mat_data a ! p) (mat_data b ! q) = Ok z
         \<and> ns_raw_mantissa S z = ns_raw_mantissa S (mat_data a ! p) * ns_raw_mantissa S (mat_data b ! q)
       else ns_mul S (mat_data a ! p) (mat_data b ! q) = Err too_big)"
  proof (clarsimp simp only: ps_def set_map set_upt in_a(1) in_b(1) ball_simps prod.case, intro ballI conjI)
    fix x assume "x \<in> {0..<mat_cols a}"
    then have x: "x < mat_cols a" by simp
    show "i * mat_cols a + x < length (mat_data a)" "x * mat_cols b + j < length (mat_data b)" using in_a(1) in_b(1) x by auto
    have c: "ns_scale S (cell a i x) = s" "ns_scale S (cell b x j) = t" "valid (cell a i x)" "valid (cell b x j)"
      using u(1,2) val in_a(2) [OF x] in_b(2) [OF x] by (auto simp: mat_uniform_def)
    have "if small (ns_raw_mantissa S (cell a i x) * ns_raw_mantissa S (cell b x j))
       then \<exists>z. ns_mul S (cell a i x) (cell b x j) = Ok z
         \<and> ns_raw_mantissa S z = ns_raw_mantissa S (cell a i x) * ns_raw_mantissa S (cell b x j)
       else ns_mul S (cell a i x) (cell b x j) = Err too_big"
      using mul_unstripped [OF c(3,4)] mul [OF c(3,4)] c(1,2) u(3) p x by (metis (no_types, lifting))
    then show "if small (ns_raw_mantissa S (mat_data a ! (i * mat_cols a + x)) * ns_raw_mantissa S (mat_data b ! (x * mat_cols b + j)))
       then \<exists>z. ns_mul S (mat_data a ! (i * mat_cols a + x)) (mat_data b ! (x * mat_cols b + j)) = Ok z
         \<and> ns_raw_mantissa S z = ns_raw_mantissa S (mat_data a ! (i * mat_cols a + x)) * ns_raw_mantissa S (mat_data b ! (x * mat_cols b + j))
       else ns_mul S (mat_data a ! (i * mat_cols a + x)) (mat_data b ! (x * mat_cols b + j)) = Err too_big"
      unfolding cell_def .
  qed
  note acc = accumulate_val [OF N this, of "nb_from N 0"]
  have fit: "(\<forall>(p, q)\<in>set ps. small (ns_raw_mantissa S (mat_data a ! p) * ns_raw_mantissa S (mat_data b ! q)))
      \<longleftrightarrow> products_fit small (ns_raw_mantissa S) a b i j"
    by (auto simp: ps_def products_fit_def cell_def)
  have sum: "(\<Sum>(p, q)\<leftarrow>ps. ns_raw_mantissa S (mat_data a ! p) * ns_raw_mantissa S (mat_data b ! q)) = row_by_column (ns_raw_mantissa S) a b i j"
    by (simp add: ps_def row_by_column_def cell_def comp_def)
  have val: "fp_val (row_by_column (ns_raw_mantissa S) a b i j) (s + t) = row_by_column val a b i j"
    by (rule row_by_column_val [OF wf ij u(1,2)])
  show ?thesis
  proof (cases "products_fit small (ns_raw_mantissa S) a b i j")
    case True
    then obtain r where r: "accumulate N S (mat_data a) (mat_data b) (nb_from N 0) ps = Ok r"
        "v r = row_by_column (ns_raw_mantissa S) a b i j"
      using acc num_lawsD(1) [OF N] unfolding fit sum by auto
    then show ?thesis
      using True new_ok [OF _ u(3), of "row_by_column (ns_raw_mantissa S) a b i j"] val
      unfolding prod.case ps r(1) by (auto simp: finish_cell_val [OF N max_mantissa])
  next
    case False
    then show ?thesis using acc unfolding prod.case ps fit by simp
  qed
qed

lemma mat_mul_checked:
  assumes wf: "mat_shaped a" "mat_shaped b" and val: "\<forall>x\<in>set (mat_data a) \<union> set (mat_data b). valid x"
    and u: "mat_uniform S s a" "mat_uniform S t b"
  shows "mat_mul N S a b =
    (if mat_cols a \<noteq> mat_rows b then Err DimensionMismatch
     else if mat_rows a > 8 \<or> mat_cols b > 8 then Err DimensionError
     else if s + t > ns_max_scale S then Err InvalidScale
     else bind_ok (collect_ok (map (cell_product N S a b (s + t)) (cells (mat_rows a) (mat_cols b))))
       (\<lambda>d. map_err (\<lambda>_. DimensionError) (dmat_new (mat_rows a) (mat_cols b) d)))"
proof -
  have d: "0 < mat_rows a" "0 < mat_cols b" using wf by (simp_all add: mat_shaped_def)
  have scans: "trap_scan S a = Ok ()" "trap_scan S b = Ok ()" "scale_scan S s a = Ok ()" "scale_scan S t b = Ok ()"
      "ns_scale S (cell a 0 0) = s" "ns_scale S (cell b 0 0) = t"
    using wf val u trap_scan_shaped scale_scan_shaped first_scale_shaped by auto
  have small: "usize (mat_rows a * mat_cols b) \<le> 64" if "\<not> (mat_rows a > 8 \<or> mat_cols b > 8)"
    using small_square [of "mat_rows a" "mat_cols b"] that by (simp add: usize_small not_less)
  show ?thesis
    using d small max_scale
    by (auto simp: mat_mul_def checked_scale_def Let_def not_less scans mat_first_shaped(1) [OF wf(1)] mat_first_shaped(1) [OF wf(2)])
qed

lemma mat_mul_val:
  assumes N: "num_laws N v" and wf: "mat_shaped a" "mat_shaped b"
    and val: "\<forall>x\<in>set (mat_data a) \<union> set (mat_data b). valid x"
    and u: "mat_uniform S s a" "mat_uniform S t b"
    and p: "\<forall>i<mat_rows a. \<forall>j<mat_cols b. \<forall>x<mat_cols a.
      unstripped (ns_raw_mantissa S (cell a i x) * ns_raw_mantissa S (cell b x j)) (s + t)"
    and fits: "\<And>i j. cell_ok i j \<longleftrightarrow> products_fit small (ns_raw_mantissa S) a b i j \<and> \<bar>row_by_column (ns_raw_mantissa S) a b i j\<bar> \<le> ns_max_mantissa S"
  shows "if mat_cols a \<noteq> mat_rows b then mat_mul N S a b = Err DimensionMismatch
    else if mat_rows a > 8 \<or> mat_cols b > 8 then mat_mul N S a b = Err DimensionError
    else if s + t > ns_max_scale S then mat_mul N S a b = Err InvalidScale
    else if \<forall>i<mat_rows a. \<forall>j<mat_cols b. cell_ok i j
    then \<exists>c. mat_mul N S a b = Ok c \<and> mat_wf c \<and> mat_rows c = mat_rows a \<and> mat_cols c = mat_cols b
      \<and> (\<forall>i<mat_rows a. \<forall>j<mat_cols b. valid (cell c i j) \<and> val (cell c i j) = row_by_column val a b i j)
    else \<exists>i<mat_rows a. \<exists>j<mat_cols b. \<not> cell_ok i j
      \<and> (\<forall>i'<mat_rows a. \<forall>j'<mat_cols b. i' * mat_cols b + j' < i * mat_cols b + j \<longrightarrow> cell_ok i' j')
      \<and> mat_mul N S a b = Err (if products_fit small (ns_raw_mantissa S) a b i j then DmatError.Overflow else too_big)"
proof (cases "mat_cols a \<noteq> mat_rows b \<or> mat_rows a > 8 \<or> mat_cols b > 8 \<or> s + t > ns_max_scale S")
  case True
  then consider "mat_cols a \<noteq> mat_rows b" | "mat_cols a = mat_rows b" "mat_rows a > 8 \<or> mat_cols b > 8"
    | "mat_cols a = mat_rows b" "\<not> (mat_rows a > 8 \<or> mat_cols b > 8)" "s + t > ns_max_scale S" by blast
  then show ?thesis by cases (simp_all add: mat_mul_checked [OF wf val u])
next
  case False
  then have d: "mat_cols a = mat_rows b" "mat_rows a \<le> 8" "mat_cols b \<le> 8" "s + t \<le> ns_max_scale S" by auto
  have pos: "0 < mat_rows a" "0 < mat_cols b" using wf by (simp_all add: mat_shaped_def)
  let ?f = "cell_product N S a b (s + t)"
  have f: "if cell_ok i j then \<exists>z. ?f (i, j) = Ok z \<and> valid z \<and> val z = row_by_column val a b i j
      else ?f (i, j) = Err (if products_fit small (ns_raw_mantissa S) a b i j then DmatError.Overflow else too_big)"
    if "i < mat_rows a" "j < mat_cols b" for i j
    unfolding fits by (rule mul_cell [OF N wf d(1) that val u d(4)]) (use p that in blast)
  have eq: "mat_mul N S a b = bind_ok (collect_ok (map ?f (cells (mat_rows a) (mat_cols b))))
      (\<lambda>d. map_err (\<lambda>_. DimensionError) (dmat_new (mat_rows a) (mat_cols b) d))"
    using False by (simp add: mat_mul_checked [OF wf val u])
  show ?thesis
  proof (cases "\<forall>i<mat_rows a. \<forall>j<mat_cols b. cell_ok i j")
    case True
    have "if \<forall>i<mat_rows a. \<forall>j<mat_cols b. True
      then \<exists>c. mat_mul N S a b = Ok c \<and> mat_wf c \<and> mat_rows c = mat_rows a \<and> mat_cols c = mat_cols b
        \<and> (\<forall>i<mat_rows a. \<forall>j<mat_cols b. valid (cell c i j) \<and> val (cell c i j) = row_by_column val a b i j)
      else mat_mul N S a b = Err DimensionError"
      unfolding eq by (rule collect_cells [OF pos d(2,3)]) (use f True in simp)
    then show ?thesis using False True by simp
  next
    case bad: False
    obtain i j where ij: "i < mat_rows a" "j < mat_cols b" "\<not> cell_ok i j"
        "\<forall>i'<mat_rows a. \<forall>j'<mat_cols b. i' * mat_cols b + j' < i * mat_cols b + j \<longrightarrow> cell_ok i' j'"
        "collect_ok (map ?f (cells (mat_rows a) (mat_cols b)))
          = Err (if products_fit small (ns_raw_mantissa S) a b i j then DmatError.Overflow else too_big)"
      using collect_cells_first [OF pos(2) f bad] by blast
    have "mat_mul N S a b = Err (if products_fit small (ns_raw_mantissa S) a b i j then DmatError.Overflow else too_big)"
      unfolding eq ij(5) by simp
    moreover have "\<not> mat_cols a \<noteq> mat_rows b" "\<not> (mat_rows a > 8 \<or> mat_cols b > 8)" "\<not> s + t > ns_max_scale S" using False by auto
    ultimately show ?thesis using bad ij(1-4) by (simp only: if_False) blast
  qed
qed

lemma additive_valid:
  assumes wf: "mat_wf a" "mat_wf b" "mat_rows b = mat_rows a" "mat_cols b = mat_cols a"
    and val: "\<forall>x\<in>set (mat_data a) \<union> set (mat_data b). valid x" and u: "mat_uniform S s a" "mat_uniform S s b"
  shows "validate_additive_op S a b = Ok (mat_rows a, mat_cols a, s)"
proof -
  have d: "mat_rows a * mat_cols a \<le> 64" "0 < mat_rows a" "0 < mat_cols a" "mat_rows a \<le> 8" "mat_cols a \<le> 8"
    using wf by (auto simp: mat_wf_def small_square)
  then show ?thesis
    using wf val u trap_scan_valid [OF wf(1)] trap_scan_valid [OF wf(2)] scale_scan_uniform [OF wf(1) u(1)]
      scale_scan_uniform [OF wf(2) u(2)]
      first_scale [OF wf(1) u(1)] first_scale [OF wf(2) u(2)]
    by (simp add: validate_additive_op_def Let_def usize_small mat_wf_first(1) del: bind_ok_eq_Ok)
qed

end

lemma cellwise_at:
  assumes wf: "mat_wf a" "mat_wf b" "mat_rows b = mat_rows a" "mat_cols b = mat_cols a" and ij: "i < mat_rows a" "j < mat_cols a"
  shows "bind_ok (at_index (mat_data a) (mat_index (mat_cols a) i j)) (\<lambda>x.
      bind_ok (at_index (mat_data b) (mat_index (mat_cols a) i j)) (f x)) = (f (cell a i j) (cell b i j) :: ('c, DmatError) outcome)"
  using dmat_at_wf [OF wf(1)] dmat_at_wf [OF wf(2)] wf(3,4) ij by (simp add: dmat_at_def)

context dmat_numbers
begin

lemma cellwise_numbers:
  assumes wf: "mat_wf a" "mat_wf b" "mat_rows b = mat_rows a" "mat_cols b = mat_cols a"
    and op: "\<And>x y. x \<in> set (mat_data a) \<Longrightarrow> y \<in> set (mat_data b) \<Longrightarrow>
      if P x y then \<exists>z. f x y = Ok z \<and> Q x y z else f x y = Err too_big"
  shows "if \<forall>i<mat_rows a. \<forall>j<mat_cols a. P (cell a i j) (cell b i j)
    then \<exists>c. bind_ok (cellwise f a b (mat_rows a) (mat_cols a)) (\<lambda>d. map_err (\<lambda>_. DimensionError) (dmat_new (mat_rows a) (mat_cols a) d))
      = Ok c \<and> mat_wf c \<and> mat_rows c = mat_rows a \<and> mat_cols c = mat_cols a
      \<and> (\<forall>i<mat_rows a. \<forall>j<mat_cols a. Q (cell a i j) (cell b i j) (cell c i j))
    else bind_ok (cellwise f a b (mat_rows a) (mat_cols a)) (\<lambda>d. map_err (\<lambda>_. DimensionError) (dmat_new (mat_rows a) (mat_cols a) d))
      = Err too_big"
  unfolding cellwise_def
proof (rule collect_cells)
  fix i j assume ij: "i < mat_rows a" "j < mat_cols a"
  then show "if P (cell a i j) (cell b i j)
    then \<exists>z. (\<lambda>(i, j). bind_ok (at_index (mat_data a) (mat_index (mat_cols a) i j)) (\<lambda>x.
        bind_ok (at_index (mat_data b) (mat_index (mat_cols a) i j)) (f x))) (i, j) = Ok z \<and> Q (cell a i j) (cell b i j) z
    else (\<lambda>(i, j). bind_ok (at_index (mat_data a) (mat_index (mat_cols a) i j)) (\<lambda>x.
        bind_ok (at_index (mat_data b) (mat_index (mat_cols a) i j)) (f x))) (i, j) = Err too_big"
    unfolding prod.case cellwise_at [OF wf ij] using op cell_in(2) [OF wf(1)] cell_in(2) [OF wf(2)] wf(3,4) by simp
qed (use wf in \<open>simp_all add: mat_wf_def\<close>)

lemma mat_add_val:
  assumes wf: "mat_wf a" "mat_wf b" "mat_rows b = mat_rows a" "mat_cols b = mat_cols a"
    and v: "\<forall>x\<in>set (mat_data a) \<union> set (mat_data b). valid x" and u: "mat_uniform S s a" "mat_uniform S s b"
  shows "if \<forall>i<mat_rows a. \<forall>j<mat_cols a. small (ns_raw_mantissa S (cell a i j) + ns_raw_mantissa S (cell b i j))
    then \<exists>c. mat_add S a b = Ok c \<and> mat_wf c \<and> mat_rows c = mat_rows a \<and> mat_cols c = mat_cols a
      \<and> (\<forall>i<mat_rows a. \<forall>j<mat_cols a. valid (cell c i j) \<and> val (cell c i j) = val (cell a i j) + val (cell b i j))
    else mat_add S a b = Err too_big"
proof -
  have r: "mat_add S a b = bind_ok (cellwise (ns_add S) a b (mat_rows a) (mat_cols a))
      (\<lambda>d. map_err (\<lambda>_. DimensionError) (dmat_new (mat_rows a) (mat_cols a) d))"
    by (simp add: mat_add_def additive_valid [OF wf v u])
  show ?thesis unfolding r
    by (rule cellwise_numbers [OF wf]) (use add v u in \<open>simp add: mat_uniform_def\<close>)
qed

lemma mat_sub_val:
  assumes wf: "mat_wf a" "mat_wf b" "mat_rows b = mat_rows a" "mat_cols b = mat_cols a"
    and v: "\<forall>x\<in>set (mat_data a) \<union> set (mat_data b). valid x" and u: "mat_uniform S s a" "mat_uniform S s b"
  shows "if \<forall>i<mat_rows a. \<forall>j<mat_cols a. small (ns_raw_mantissa S (cell a i j) - ns_raw_mantissa S (cell b i j))
    then \<exists>c. mat_sub S a b = Ok c \<and> mat_wf c \<and> mat_rows c = mat_rows a \<and> mat_cols c = mat_cols a
      \<and> (\<forall>i<mat_rows a. \<forall>j<mat_cols a. valid (cell c i j) \<and> val (cell c i j) = val (cell a i j) - val (cell b i j))
    else mat_sub S a b = Err too_big"
proof -
  have r: "mat_sub S a b = bind_ok (cellwise (ns_sub S) a b (mat_rows a) (mat_cols a))
      (\<lambda>d. map_err (\<lambda>_. DimensionError) (dmat_new (mat_rows a) (mat_cols a) d))"
    by (simp add: mat_sub_def additive_valid [OF wf v u])
  show ?thesis unfolding r
    by (rule cellwise_numbers [OF wf]) (use sub v u in \<open>simp add: mat_uniform_def\<close>)
qed

lemma mat_scale_val:
  assumes wf: "mat_wf a" and v: "\<forall>x\<in>set (mat_data a). valid x" "valid k" and u: "mat_uniform S s a"
    and s: "s + ns_scale S k \<le> ns_max_scale S"
  shows "if \<forall>i<mat_rows a. \<forall>j<mat_cols a. small (ns_raw_mantissa S (cell a i j) * ns_raw_mantissa S k)
    then \<exists>c. mat_scale S a k = Ok c \<and> mat_wf c \<and> mat_rows c = mat_rows a \<and> mat_cols c = mat_cols a
      \<and> (\<forall>i<mat_rows a. \<forall>j<mat_cols a. valid (cell c i j) \<and> val (cell c i j) = val (cell a i j) * val k)
    else mat_scale S a k = Err too_big"
proof -
  have d: "mat_rows a * mat_cols a \<le> 64" "0 < mat_rows a" "0 < mat_cols a" "mat_rows a \<le> 8" "mat_cols a \<le> 8"
    using wf by (auto simp: mat_wf_def small_square)
  define f where "f = (\<lambda>(i, j). bind_ok (at_index (mat_data a) (mat_index (mat_cols a) i j)) (\<lambda>x. ns_mul S x k))"
  have r: "mat_scale S a k = bind_ok (collect_ok (map f (cells (mat_rows a) (mat_cols a))))
      (\<lambda>d. map_err (\<lambda>_. DimensionError) (dmat_new (mat_rows a) (mat_cols a) d))"
    using d s max_scale no_trap [OF v(2)] trap_scan_valid [OF wf v(1)] scale_scan_uniform [OF wf u] first_scale [OF wf u]
    by (simp add: mat_scale_def Let_def usize_small mat_wf_first(1) [OF wf] checked_scale_def f_def)
  show ?thesis unfolding r
  proof (rule collect_cells [OF d(2-5)])
    fix i j assume ij: "i < mat_rows a" "j < mat_cols a"
    have x: "valid (cell a i j)" "ns_scale S (cell a i j) + ns_scale S k \<le> ns_max_scale S"
      using v(1) u s cell_in(2) [OF wf ij] by (auto simp: mat_uniform_def)
    show "if small (ns_raw_mantissa S (cell a i j) * ns_raw_mantissa S k)
      then \<exists>z. f (i, j) = Ok z \<and> valid z \<and> val z = val (cell a i j) * val k else f (i, j) = Err too_big"
      using mul [OF x(1) v(2) x(2)] dmat_at_wf [OF wf ij] by (simp add: f_def dmat_at_def)
  qed
qed

end

subsection \<open>Transposition and the matrix-vector product\<close>

lemma mat_eqI:
  fixes m m' :: "'t dmat"
  assumes wf: "mat_wf m" "mat_wf m'" "mat_rows m = mat_rows m'" "mat_cols m = mat_cols m'"
    and eq: "\<And>i j. i < mat_rows m \<Longrightarrow> j < mat_cols m \<Longrightarrow> cell m i j = cell m' i j"
  shows "m = m'"
proof -
  have "map (\<lambda>(i, j). cell m i j) (cells (mat_rows m) (mat_cols m)) = map (\<lambda>(i, j). cell m' i j) (cells (mat_rows m') (mat_cols m'))"
    unfolding wf(3,4) [symmetric] by (intro map_cong) (auto simp: cells_set eq)
  then have "mat_data m = mat_data m'" unfolding cells_data [OF wf(1)] cells_data [OF wf(2)] .
  then show ?thesis using wf(3,4) by (intro dmat.equality) simp_all
qed

lemma cell_cases:
  assumes "mat_wf m" "x \<in> set (mat_data m)"
  obtains i j where "i < mat_rows m" "j < mat_cols m" "x = cell m i j"
proof -
  have "x \<in> set (map (\<lambda>(i, j). cell m i j) (cells (mat_rows m) (mat_cols m)))" using assms by (simp add: cells_data)
  then show ?thesis using that by (auto simp: cells_set)
qed

lemma mat_transpose_val:
  assumes wf: "mat_wf a" and x: "\<forall>x\<in>set (mat_data a). \<not> ns_is_trap S x \<and> ns_scale S x = s"
  shows "\<exists>t. mat_transpose S a = Ok t \<and> mat_wf t \<and> mat_rows t = mat_cols a \<and> mat_cols t = mat_rows a
    \<and> (\<forall>i<mat_cols a. \<forall>j<mat_rows a. cell t i j = cell a j i)"
proof -
  have d: "mat_rows a * mat_cols a \<le> 64" "0 < mat_cols a" "0 < mat_rows a" "mat_cols a \<le> 8" "mat_rows a \<le> 8"
    using wf by (auto simp: mat_wf_def small_square)
  have "ns_scale S (cell a 0 0) = s" using x mat_wf_first(2) [OF wf] by blast
  then have r: "mat_transpose S a = bind_ok
      (collect_ok (map (\<lambda>(i, j). at_index (mat_data a) (mat_index (mat_cols a) j i)) (cells (mat_cols a) (mat_rows a))))
      (\<lambda>d. map_err (\<lambda>_. DimensionError) (dmat_new (mat_cols a) (mat_rows a) d))"
    using x d by (simp add: mat_transpose_def trap_scan_def scale_scan_def scan_cells_val [OF wf] Let_def usize_small mat_wf_first(1) [OF wf])
  show ?thesis
    unfolding r using collect_cells [OF d(2-5), of "\<lambda>_ _. True"
      "\<lambda>(i, j). at_index (mat_data a) (mat_index (mat_cols a) j i)" "\<lambda>i j z. z = cell a j i" DimensionError]
      dmat_at_wf [OF wf] by (simp add: dmat_at_def)
qed

lemma collect_ok_length: "collect_ok rs = Ok c \<Longrightarrow> length c = length rs"
  by (induction rs arbitrary: c) auto

lemma bind_ok_assoc: "bind_ok (bind_ok x f) g = bind_ok x (\<lambda>y. bind_ok (f y) g)"
  by (cases x) simp_all

lemma column_wf: "0 < length v \<Longrightarrow> length v \<le> 8 \<Longrightarrow> mat_wf (mk_dmat (length v) 1 v)"
  by (simp add: mat_wf_def)

lemma cells_column: "cells m 1 = map (\<lambda>i. (i, 0)) [0..<m]"
  by (simp add: cells_def product_concat_map concat_map_singleton)

lemma collect_column:
  assumes "m \<le> 8"
  shows "bind_ok (bind_ok (collect_ok (map f (cells m 1))) (\<lambda>d. map_err (\<lambda>_. DimensionError) (dmat_new m 1 d)))
    (\<lambda>c. Ok (mat_data c)) = collect_ok (map (\<lambda>i. f (i, 0)) [0..<m])"
proof -
  have e: "map f (cells m 1) = map (\<lambda>i. f (i, 0)) [0..<m]" unfolding cells_column by simp
  show ?thesis unfolding e
    using collect_ok_length [of "map (\<lambda>i. f (i, 0)) [0..<m]"] assms
    by (cases "collect_ok (map (\<lambda>i. f (i, 0)) [0..<m])") (simp_all add: dmat_new_small del: collect_ok.simps)
qed

subsection \<open>The two scalar types\<close>

lemma dqa_mul_canonical: "dqa_wf x \<Longrightarrow> dqa_wf y \<Longrightarrow> dqa_mul x y = Ok z \<Longrightarrow> fp_canonical (dqa_value z) (dqa_scale z)"
  using dqa_mul_spec [of x y] canonicalize_canonical by (auto simp: dqa_canonical_def split: if_splits)

interpretation dqa_mat: dmat_numbers dqa_num dqa_wf dqa_val i64_range "DmatDqa DqaError.Overflow"
proof (unfold_locales, goal_cases)
  case (5 m s)
  then show ?case by (auto simp: dqa_num_def dqa_new_def dqa_wf_def dqa_val_def MAX_SCALE_def i64_range_def)
next
  case (6 x y)
  then show ?case
    by (auto simp: dqa_num_def dqa_same_scale canonicalized_wf dqa_val_mk dqa_wf_bounds fp_val_add dqa_val_def [of x] dqa_val_def [of y])
next
  case (7 x y)
  then show ?case
    by (auto simp: dqa_num_def dqa_same_scale canonicalized_wf dqa_val_mk dqa_wf_bounds fp_val_diff dqa_val_def [of x] dqa_val_def [of y])
next
  case (8 x y)
  then show ?case
    by (auto simp: dqa_num_def dqa_mul_exact canonicalized_wf dqa_val_mk fp_val_mult dqa_val_def [of x] dqa_val_def [of y])
qed (auto simp: dqa_num_def dqa_val_def dqa_wf_def MAX_SCALE_def dqa_mul_canonical)

lemma decimal_mul_canonical:
  assumes "num_laws N v" "dec_ok x" "dec_ok y" "decimal_mul N x y = Ok z"
  shows "fp_canonical (dec_mantissa z) (dec_scale z)"
proof -
  have "dec_ok z" if "checked_decimal m s = Ok z" "s \<le> 36" for m s
    using that checked_decimal_ok [of m s] by (auto simp: checked_decimal_def split: if_splits)
  then show ?thesis
    using assms(4) decimal_mul_exact [OF assms(1-3)] decimal_mul_rounded [OF assms(1-3)]
    by (cases "dec_scale x + dec_scale y \<le> 36") (auto simp: dec_ok_def)
qed

lemma decimal_dmat_numbers:
  assumes "num_laws N v"
  shows "dmat_numbers (decimal_num N) dec_ok dec_val (\<lambda>m. \<bar>m\<bar> \<le> MAX_DECIMAL_MANTISSA) (DmatDecimal DecimalError.Overflow)"
proof (unfold_locales, goal_cases)
  case (5 m s)
  then show ?case using decimal_new_ok [of m s] by (auto simp: decimal_num_def)
next
  case (6 x y)
  then show ?case
    using decimal_add_val [OF assms, of x y] checked_decimal_ok [of "dec_mantissa x + dec_mantissa y" "dec_scale x"]
    by (auto simp: decimal_num_def aligned_def dec_ok_def dec_val_def fp_val_add checked_decimal_def)
next
  case (7 x y)
  then show ?case
    using decimal_sub_val [OF assms, of x y] checked_decimal_ok [of "dec_mantissa x - dec_mantissa y" "dec_scale x"]
    by (auto simp: decimal_num_def aligned_def dec_ok_def dec_val_def fp_val_diff checked_decimal_def)
next
  case (8 x y)
  then show ?case
    using decimal_mul_exact [OF assms, of x y] checked_decimal_ok [of "dec_mantissa x * dec_mantissa y" "dec_scale x + dec_scale y"]
    by (auto simp: decimal_num_def dec_ok_def dec_val_def fp_val_mult checked_decimal_def)
next
  case (9 x y z)
  then show ?case using decimal_mul_canonical [OF assms, of x y z] by (simp add: decimal_num_def)
qed (auto simp: decimal_num_def dec_val_def dec_ok_def MAX_DECIMAL_MANTISSA_def)

interpretation dec_mat: dmat_numbers "decimal_num int_ops" dec_ok dec_val "\<lambda>m. \<bar>m\<bar> \<le> MAX_DECIMAL_MANTISSA"
  "DmatDecimal DecimalError.Overflow"
  by (rule decimal_dmat_numbers [OF int_ops_laws])

subsection \<open>Properties\<close>



text \<open>With a product that ends in a zero the result is wrong: \<open>0.2 * 0.5\<close> as one by one matrices is \<open>0.01\<close>.\<close>

theorem dmat_mul_strips_zeros:
  "mat_mul int_ops dqa_num (mk_dmat 1 1 [mk_dqa 2 1]) (mk_dmat 1 1 [mk_dqa 5 1]) = Ok (mk_dmat 1 1 [mk_dqa 1 2])"
proof -
  have "dqa_mul (mk_dqa 2 1) (mk_dqa 5 1) = Ok (mk_dqa 1 1)"
    by (simp add: dqa_mul_def MAX_SCALE_def canonicalize_def canonicalize_loop.simps as_i128_def as_i64_def rust_rem_def rust_div_def)
  then show ?thesis
    by (simp add: mat_mul_def trap_scan_def scale_scan_def cells_def dmat_at_def mat_index_def usize_def dqa_num_def
        checked_scale_def finish_cell_def int_ops_def ok_or_def i128_range_def dqa_new_def MAX_SCALE_def as_i64_def dmat_new_def)
qed

text \<open>Sum, difference and scalar multiple of matrices of well-formed \<open>Dqa\<close> values are exact in every cell, or the
  error is the \<open>Overflow\<close> of the scalar type.\<close>

theorem dmat_elementwise_correct:
  assumes "mat_wf a" "mat_wf b" "mat_rows b = mat_rows a" "mat_cols b = mat_cols a"
    and x: "\<forall>x\<in>set (mat_data a). dqa_wf x \<and> dqa_scale x = s" "\<forall>x\<in>set (mat_data b). dqa_wf x \<and> dqa_scale x = s"
    and k: "dqa_wf k" "s + dqa_scale k \<le> 18"
  shows "(if \<forall>i<mat_rows a. \<forall>j<mat_cols a. i64_range (dqa_value (cell a i j) + dqa_value (cell b i j))
      then \<exists>c. mat_add dqa_num a b = Ok c \<and> mat_wf c \<and> mat_rows c = mat_rows a \<and> mat_cols c = mat_cols a
        \<and> (\<forall>i<mat_rows a. \<forall>j<mat_cols a. dqa_wf (cell c i j) \<and> dqa_val (cell c i j) = dqa_val (cell a i j) + dqa_val (cell b i j))
      else mat_add dqa_num a b = Err (DmatDqa DqaError.Overflow))
    \<and> (if \<forall>i<mat_rows a. \<forall>j<mat_cols a. i64_range (dqa_value (cell a i j) - dqa_value (cell b i j))
      then \<exists>c. mat_sub dqa_num a b = Ok c \<and> mat_wf c \<and> mat_rows c = mat_rows a \<and> mat_cols c = mat_cols a
        \<and> (\<forall>i<mat_rows a. \<forall>j<mat_cols a. dqa_wf (cell c i j) \<and> dqa_val (cell c i j) = dqa_val (cell a i j) - dqa_val (cell b i j))
      else mat_sub dqa_num a b = Err (DmatDqa DqaError.Overflow))
    \<and> (if \<forall>i<mat_rows a. \<forall>j<mat_cols a. i64_range (dqa_value (cell a i j) * dqa_value k)
      then \<exists>c. mat_scale dqa_num a k = Ok c \<and> mat_wf c \<and> mat_rows c = mat_rows a \<and> mat_cols c = mat_cols a
        \<and> (\<forall>i<mat_rows a. \<forall>j<mat_cols a. dqa_wf (cell c i j) \<and> dqa_val (cell c i j) = dqa_val (cell a i j) * dqa_val k)
      else mat_scale dqa_num a k = Err (DmatDqa DqaError.Overflow))"
proof -
  have sel: "ns_raw_mantissa dqa_num = dqa_value" "ns_max_scale dqa_num = 18" "ns_scale dqa_num = dqa_scale"
    by (simp_all add: dqa_num_def)
  have u: "mat_uniform dqa_num s a" "mat_uniform dqa_num s b" using x by (simp_all add: mat_uniform_def sel)
  have v: "\<forall>x\<in>set (mat_data a) \<union> set (mat_data b). dqa_wf x" "\<forall>x\<in>set (mat_data a). dqa_wf x" using x by auto
  show ?thesis
    using dqa_mat.mat_add_val [OF assms(1-4) v(1) u, unfolded sel] dqa_mat.mat_sub_val [OF assms(1-4) v(1) u, unfolded sel]
      dqa_mat.mat_scale_val [OF assms(1) v(2) k(1) u(1), unfolded sel, OF k(2)] by (intro conjI)
qed

theorem dmat_elementwise_witness:
  "\<exists>c. mat_sub dqa_num (mk_dmat 1 1 [mk_dqa 5 1]) (mk_dmat 1 1 [mk_dqa 2 1]) = Ok c \<and> dqa_val (cell c 0 0) = 3 / 10"
  using dmat_elementwise_correct [of "mk_dmat 1 1 [mk_dqa 5 1]" "mk_dmat 1 1 [mk_dqa 2 1]" 1 "mk_dqa 1 0"]
  by (simp add: mat_wf_def dqa_wf_def MAX_SCALE_def i64_range_def cell_def [of "mk_dmat _ _ _"] dqa_val_def [of "mk_dqa _ _"] fp_val_def)
    (elim exE conjE, auto)

text \<open>Transposing a well-formed matrix without trap values and with a uniform scale exchanges rows and columns,
  and transposing twice gives the matrix back.\<close>

theorem dmat_transpose_correct:
  assumes "mat_wf (a :: 't dmat)" "\<forall>x\<in>set (mat_data a). \<not> ns_is_trap S x \<and> ns_scale S x = s"
  shows "\<exists>t. mat_transpose S a = Ok t \<and> mat_wf t \<and> mat_rows t = mat_cols a \<and> mat_cols t = mat_rows a
    \<and> (\<forall>i<mat_cols a. \<forall>j<mat_rows a. cell t i j = cell a j i) \<and> mat_transpose S t = Ok a"
proof -
  obtain t where t: "mat_transpose S a = Ok t" "mat_wf t" "mat_rows t = mat_cols a" "mat_cols t = mat_rows a"
    "\<forall>i<mat_cols a. \<forall>j<mat_rows a. cell t i j = cell a j i" using mat_transpose_val [OF assms] by blast
  have "\<not> ns_is_trap S x \<and> ns_scale S x = s" if "x \<in> set (mat_data t)" for x
    using that by (rule cell_cases [OF t(2)]) (use assms cell_in(2) [OF assms(1)] t(3-5) in auto)
  then obtain u where u: "mat_transpose S t = Ok u" "mat_wf u" "mat_rows u = mat_cols t" "mat_cols u = mat_rows t"
    "\<forall>i<mat_cols t. \<forall>j<mat_rows t. cell u i j = cell t j i" using mat_transpose_val [OF t(2)] by blast
  have "u = a" by (rule mat_eqI [OF u(2) assms(1)]) (use t u in auto)
  then show ?thesis using t u(1) by blast
qed

theorem dmat_transpose_witness:
  "\<exists>t. mat_transpose dqa_num (mk_dmat 1 2 [mk_dqa 1 0, mk_dqa 2 0]) = Ok t
    \<and> mat_transpose dqa_num t = Ok (mk_dmat 1 2 [mk_dqa 1 0, mk_dqa 2 0])"
  using dmat_transpose_correct [of "mk_dmat 1 2 [mk_dqa 1 0, mk_dqa 2 0]" dqa_num 0]
  by (simp add: mat_wf_def dqa_num_def) blast

text \<open>The matrix-vector product is the matrix product with the vector as a single column, for every scalar
  type and also for all its errors.\<close>

theorem dmat_vec_mul_equivalent:
  assumes "mat_wf a" "mat_cols a = length v"
  shows "mat_vec_mul N S a v = bind_ok (mat_mul N S a (mk_dmat (length v) 1 v)) (\<lambda>c. Ok (mat_data c))"
proof -
  let ?b = "mk_dmat (length v) 1 v" and ?m = "mat_rows a"
  have d: "?m * length v \<le> 64" "0 < ?m" "?m \<le> 8" "0 < length v" "length v \<le> 8"
    using assms by (auto simp: mat_wf_def small_square)
  have scans: "trap_scan S ?b = scan_list (ns_is_trap S) TrapInput v"
    "scale_scan S s ?b = scan_list (\<lambda>x. ns_scale S x \<noteq> s) ScaleMismatch v" for s
    using scan_cells_val [OF column_wf [OF d(4,5)]] by (simp_all add: trap_scan_def scale_scan_def scan_list_val)
  have index: "map (\<lambda>j. (mat_index (length v) i j, j)) [0..<length v]
    = map (\<lambda>x. (mat_index (length v) i x, mat_index 1 x 0)) [0..<length v]" for i
    using d(5) by (simp add: mat_index_def usize_small)
  define body where "body r = (\<lambda>(i, j). bind_ok (accumulate N S (mat_data a) v (nb_from N 0)
    (map (\<lambda>x. (mat_index (length v) i x, mat_index 1 x j)) [0..<length v])) (finish_cell N S r))" for r
  have vec: "mat_vec_mul N S a v = bind_ok (trap_scan S a) (\<lambda>_. bind_ok (scan_list (ns_is_trap S) TrapInput v) (\<lambda>_.
      bind_ok (at_index (mat_data a) 0) (\<lambda>a0. bind_ok (scale_scan S (ns_scale S a0) a) (\<lambda>_. bind_ok (at_index v 0) (\<lambda>v0.
        bind_ok (scan_list (\<lambda>x. ns_scale S x \<noteq> ns_scale S v0) ScaleMismatch v) (\<lambda>_.
          bind_ok (checked_scale S (ns_scale S a0) (ns_scale S v0)) (\<lambda>r. collect_ok (map (\<lambda>i. body r (i, 0)) [0..<?m]))))))))"
    using d assms(2) by (simp add: mat_vec_mul_def Let_def usize_small index body_def del: bind_ok_eq_Ok One_nat_def)
  have mat: "mat_mul N S a ?b = bind_ok (trap_scan S a) (\<lambda>_. bind_ok (scan_list (ns_is_trap S) TrapInput v) (\<lambda>_.
      bind_ok (at_index (mat_data a) 0) (\<lambda>a0. bind_ok (scale_scan S (ns_scale S a0) a) (\<lambda>_. bind_ok (at_index v 0) (\<lambda>v0.
        bind_ok (scan_list (\<lambda>x. ns_scale S x \<noteq> ns_scale S v0) ScaleMismatch v) (\<lambda>_.
          bind_ok (checked_scale S (ns_scale S a0) (ns_scale S v0)) (\<lambda>r.
            bind_ok (collect_ok (map (body r) (cells ?m 1))) (\<lambda>d. map_err (\<lambda>_. DimensionError) (dmat_new ?m 1 d)))))))))"
    using d assms(2) by (simp add: mat_mul_def Let_def usize_small scans body_def del: bind_ok_eq_Ok One_nat_def)
  show ?thesis unfolding vec mat bind_ok_assoc collect_column [OF d(3), unfolded bind_ok_assoc] ..
qed

theorem dmat_vec_mul_witness:
  "mat_vec_mul int_ops dqa_num (mk_dmat 1 1 [mk_dqa 2 1]) [mk_dqa 5 1] =
    bind_ok (mat_mul int_ops dqa_num (mk_dmat 1 1 [mk_dqa 2 1]) (mk_dmat 1 1 [mk_dqa 5 1])) (\<lambda>c. Ok (mat_data c))"
  using dmat_vec_mul_equivalent [of "mk_dmat 1 1 [mk_dqa 2 1]" "[mk_dqa 5 1]" int_ops dqa_num] by (simp add: mat_wf_def)

text \<open>A trap value is reported before every other error; then come the dimensions. Two matrices that meet in a
  dimension of size zero pass the checks of the product, which panics when it reads the first element.\<close>

theorem dmat_errors:
  assumes "mat_wf a" "mat_wf b"
  shows "((\<exists>x\<in>set (mat_data a) \<union> set (mat_data b). ns_is_trap S x) \<longrightarrow>
      mat_add S a b = Err TrapInput \<and> mat_sub S a b = Err TrapInput \<and> mat_mul N S a b = Err TrapInput)
    \<and> (\<not> (\<exists>x\<in>set (mat_data a) \<union> set (mat_data b). ns_is_trap S x) \<longrightarrow>
      (mat_cols a \<noteq> mat_rows b \<longrightarrow> mat_mul N S a b = Err DimensionMismatch) \<and>
      (mat_rows a \<noteq> mat_rows b \<or> mat_cols a \<noteq> mat_cols b \<longrightarrow> mat_add S a b = Err DimensionMismatch \<and> mat_sub S a b = Err DimensionMismatch))
    \<and> mat_mul N S (mk_dmat 1 0 []) (mk_dmat 0 1 []) = Panic"
proof -
  have t: "trap_scan S m = (if \<exists>x\<in>set (mat_data m). ns_is_trap S x then Err TrapInput else Ok ())" if "mat_wf m" for m
    using scan_cells_val [OF that] by (simp add: trap_scan_def)
  have "mat_mul N S (mk_dmat 1 0 []) (mk_dmat 0 1 []) = Panic"
    by (simp add: mat_mul_def trap_scan_def cells_def at_index_def usize_def)
  then show ?thesis
    using t [OF assms(1)] t [OF assms(2)] by (auto simp: mat_add_def mat_sub_def mat_mul_def validate_additive_op_def)
qed

theorem dmat_errors_witness:
  "mat_add dqa_num (mk_dmat 1 1 [mk_dqa I64_MIN 255]) (mk_dmat 1 2 [mk_dqa 0 0, mk_dqa 0 0]) = Err TrapInput"
  using dmat_errors [of "mk_dmat 1 1 [mk_dqa I64_MIN 255]" "mk_dmat 1 2 [mk_dqa 0 0, mk_dqa 0 0]" dqa_num int_ops]
  by (simp add: mat_wf_def dqa_num_def)

end
