(* ===== verification/Dact.thy ===== *)
theory Dact
  imports Dvec
begin

text \<open>
  Deterministic activation functions, \<open>determin/src/dact.rs\<close> and the tables of \<open>determin/src/dact_lut.rs\<close>: ReLU,
  ReLU6 and leaky ReLU on \<open>Dqa\<close> values, and the sigmoid and the hyperbolic tangent, which round the argument
  down to two decimals, look it up in a table of 801 entries in units of 1/256 and convert the entry to four
  decimals. Arithmetic on \<open>i64\<close> wraps.
\<close>

subsection \<open>Definitions\<close>

datatype DactError = TrapInput | InvalidScale | Overflow

definition dact_unwrap :: "('a, 'e) outcome \<Rightarrow> ('a, DactError) outcome" where
  "dact_unwrap m = (case m of Ok x \<Rightarrow> Ok x | _ \<Rightarrow> Panic)"

definition dact_is_trap :: "dqa \<Rightarrow> bool" where
  "dact_is_trap d \<longleftrightarrow> dqa_value d = I64_MIN \<and> dqa_scale d = 255"

definition validate_scale :: "nat \<Rightarrow> (unit, DactError) outcome" where
  "validate_scale scale = (if scale > 18 then Err DactError.InvalidScale else Ok ())"

definition relu :: "dqa \<Rightarrow> (dqa, DactError) outcome" where
  "relu x =
     (if dact_is_trap x then Err TrapInput
      else bind_ok (validate_scale (dqa_scale x)) (\<lambda>_.
        if dqa_value x < 0 then dact_unwrap (dqa_new 0 (dqa_scale x)) else Ok x))"

definition i64_pow10 :: "nat \<Rightarrow> int" where
  "i64_pow10 n = as_i64 (10 ^ n)"

definition relu6 :: "dqa \<Rightarrow> (dqa, DactError) outcome" where
  "relu6 x =
     (if dact_is_trap x then Err TrapInput
      else bind_ok (validate_scale (dqa_scale x)) (\<lambda>_.
        bind_ok (dact_unwrap (dqa_new (as_i64 (6 * i64_pow10 (dqa_scale x))) (dqa_scale x))) (\<lambda>max_val.
          if dqa_value x < 0 then dact_unwrap (dqa_new 0 (dqa_scale x))
          else if dqa_value x > dqa_value max_val then Ok max_val
          else Ok x)))"

definition leaky_relu :: "dqa \<Rightarrow> (dqa, DactError) outcome" where
  "leaky_relu x =
     (if dact_is_trap x then Err TrapInput
      else bind_ok (validate_scale (dqa_scale x)) (\<lambda>_.
        if dqa_value x < 0 then
          bind_ok (dact_unwrap (dqa_new 1 2)) (\<lambda>alpha. map_err (\<lambda>_. DactError.Overflow) (dqa_mul x alpha))
        else Ok x))"

definition q88_to_dqa :: "int \<Rightarrow> nat \<Rightarrow> int \<times> nat" where
  "q88_to_dqa q target_scale =
     (let numerator = as_i128 (q * 10 ^ target_scale);
          result = (if numerator \<ge> 0 then as_i64 (rust_div numerator 256)
                    else as_i64 (- as_i64 (rust_div (as_i128 (- numerator + 255)) 256))) in
      (result, target_scale))"

definition normalize_to_scale :: "dqa \<Rightarrow> nat \<Rightarrow> (dqa, DactError) outcome" where
  "normalize_to_scale x target_scale =
     (if dqa_scale x = target_scale then Ok x
      else let delta = int target_scale - int (dqa_scale x) in
        if delta > 0 then dact_unwrap (dqa_new (as_i64 (dqa_value x * i64_pow10 (nat delta))) target_scale)
        else let factor = i64_pow10 (nat (- delta));
                 result = (if dqa_value x \<ge> 0 then rust_div (dqa_value x) factor
                           else as_i64 (- rust_div (as_i64 (as_i64 (as_i64 (- dqa_value x) + factor) - 1)) factor)) in
          dact_unwrap (dqa_new result target_scale))"

fun dact_canonicalize_loop :: "int \<Rightarrow> nat \<Rightarrow> int \<times> nat" where
  "dact_canonicalize_loop value scale =
     (if rust_rem value 10 = 0 \<and> scale > 0 then dact_canonicalize_loop (rust_div value 10) (scale - 1) else (value, scale))"

declare dact_canonicalize_loop.simps [simp del]

definition dact_canonicalize :: "dqa \<Rightarrow> dqa" where
  "dact_canonicalize d =
     (if dqa_value d = 0 then mk_dqa 0 0
      else case dact_canonicalize_loop (dqa_value d) (dqa_scale d) of (v, s) \<Rightarrow> mk_dqa v s)"

definition SIGMOID_LUT :: "int list" where
  "SIGMOID_LUT =
    [5, 5, 5, 5, 5, 5, 5, 5, 5, 5, 5, 5, 5, 5, 5, 5, 5, 5, 5, 6, 6, 6, 6, 6, 6, 6, 6, 6, 6, 6, 6, 6, 6, 6, 6, 6, 7,
     7, 7, 7, 7, 7, 7, 7, 7, 7, 7, 7, 7, 7, 8, 8, 8, 8, 8, 8, 8, 8, 8, 8, 8, 8, 8, 9, 9, 9, 9, 9, 9, 9, 9, 9, 9, 9,
     9, 10, 10, 10, 10, 10, 10, 10, 10, 10, 10, 11, 11, 11, 11, 11, 11, 11, 11, 11, 11, 12, 12, 12, 12, 12, 12, 12,
     12, 12, 13, 13, 13, 13, 13, 13, 13, 13, 14, 14, 14, 14, 14, 14, 14, 15, 15, 15, 15, 15, 15, 15, 16, 16, 16, 16,
     16, 16, 16, 17, 17, 17, 17, 17, 17, 18, 18, 18, 18, 18, 18, 19, 19, 19, 19, 19, 19, 20, 20, 20, 20, 20, 21, 21,
     21, 21, 21, 21, 22, 22, 22, 22, 22, 23, 23, 23, 23, 24, 24, 24, 24, 24, 25, 25, 25, 25, 26, 26, 26, 26, 26, 27,
     27, 27, 27, 28, 28, 28, 28, 29, 29, 29, 29, 30, 30, 30, 31, 31, 31, 31, 32, 32, 32, 32, 33, 33, 33, 34, 34, 34,
     34, 35, 35, 35, 36, 36, 36, 37, 37, 37, 38, 38, 38, 39, 39, 39, 40, 40, 40, 41, 41, 41, 42, 42, 42, 43, 43, 43,
     44, 44, 44, 45, 45, 46, 46, 46, 47, 47, 47, 48, 48, 49, 49, 49, 50, 50, 51, 51, 51, 52, 52, 53, 53, 54, 54, 54,
     55, 55, 56, 56, 57, 57, 57, 58, 58, 59, 59, 60, 60, 61, 61, 62, 62, 63, 63, 63, 64, 64, 65, 65, 66, 66, 67, 67,
     68, 68, 69, 69, 70, 70, 71, 71, 72, 72, 73, 73, 74, 75, 75, 76, 76, 77, 77, 78, 78, 79, 79, 80, 80, 81, 82, 82,
     83, 83, 84, 84, 85, 86, 86, 87, 87, 88, 88, 89, 90, 90, 91, 91, 92, 92, 93, 94, 94, 95, 95, 96, 97, 97, 98, 98,
     99, 100, 100, 101, 102, 102, 103, 103, 104, 105, 105, 106, 106, 107, 108, 108, 109, 110, 110, 111, 111, 112,
     113, 113, 114, 115, 115, 116, 117, 117, 118, 118, 119, 120, 120, 121, 122, 122, 123, 124, 124, 125, 125, 126,
     127, 127, 128, 129, 129, 130, 131, 131, 132, 132, 133, 134, 134, 135, 136, 136, 137, 138, 138, 139, 139, 140,
     141, 141, 142, 143, 143, 144, 145, 145, 146, 146, 147, 148, 148, 149, 150, 150, 151, 151, 152, 153, 153, 154,
     154, 155, 156, 156, 157, 158, 158, 159, 159, 160, 161, 161, 162, 162, 163, 164, 164, 165, 165, 166, 166, 167,
     168, 168, 169, 169, 170, 170, 171, 172, 172, 173, 173, 174, 174, 175, 176, 176, 177, 177, 178, 178, 179, 179,
     180, 180, 181, 181, 182, 183, 183, 184, 184, 185, 185, 186, 186, 187, 187, 188, 188, 189, 189, 190, 190, 191,
     191, 192, 192, 193, 193, 193, 194, 194, 195, 195, 196, 196, 197, 197, 198, 198, 199, 199, 199, 200, 200, 201,
     201, 202, 202, 202, 203, 203, 204, 204, 205, 205, 205, 206, 206, 207, 207, 207, 208, 208, 209, 209, 209, 210,
     210, 210, 211, 211, 212, 212, 212, 213, 213, 213, 214, 214, 214, 215, 215, 215, 216, 216, 216, 217, 217, 217,
     218, 218, 218, 219, 219, 219, 220, 220, 220, 221, 221, 221, 222, 222, 222, 222, 223, 223, 223, 224, 224, 224,
     224, 225, 225, 225, 225, 226, 226, 226, 227, 227, 227, 227, 228, 228, 228, 228, 229, 229, 229, 229, 230, 230,
     230, 230, 230, 231, 231, 231, 231, 232, 232, 232, 232, 232, 233, 233, 233, 233, 234, 234, 234, 234, 234, 235,
     235, 235, 235, 235, 235, 236, 236, 236, 236, 236, 237, 237, 237, 237, 237, 237, 238, 238, 238, 238, 238, 238,
     239, 239, 239, 239, 239, 239, 240, 240, 240, 240, 240, 240, 240, 241, 241, 241, 241, 241, 241, 241, 242, 242,
     242, 242, 242, 242, 242, 243, 243, 243, 243, 243, 243, 243, 243, 244, 244, 244, 244, 244, 244, 244, 244, 244,
     245, 245, 245, 245, 245, 245, 245, 245, 245, 245, 246, 246, 246, 246, 246, 246, 246, 246, 246, 246, 247, 247,
     247, 247, 247, 247, 247, 247, 247, 247, 247, 247, 248, 248, 248, 248, 248, 248, 248, 248, 248, 248, 248, 248,
     248, 249, 249, 249, 249, 249, 249, 249, 249, 249, 249, 249, 249, 249, 249, 250, 250, 250, 250, 250, 250, 250,
     250, 250, 250, 250, 250, 250, 250, 250, 250, 250, 251, 251, 251, 251, 251, 251, 251, 251, 251, 251, 251, 251,
     251, 251, 251, 251, 251, 251, 251]"

definition TANH_LUT :: "int list" where
  "TANH_LUT =
    [- 256, - 256, - 256, - 256, - 256, - 256, - 256, - 256, - 256, - 256, - 256, - 256, - 256, - 256, - 256, - 256,
     - 256, - 256, - 256, - 256, - 256, - 256, - 256, - 256, - 256, - 256, - 256, - 256, - 256, - 256, - 256, - 256,
     - 256, - 256, - 256, - 256, - 256, - 256, - 256, - 256, - 256, - 256, - 256, - 256, - 256, - 256, - 256, - 256,
     - 256, - 256, - 256, - 256, - 256, - 256, - 255, - 255, - 255, - 255, - 255, - 255, - 255, - 255, - 255, - 255,
     - 255, - 255, - 255, - 255, - 255, - 255, - 255, - 255, - 255, - 255, - 255, - 255, - 255, - 255, - 255, - 255,
     - 255, - 255, - 255, - 255, - 255, - 255, - 255, - 255, - 255, - 255, - 255, - 255, - 255, - 255, - 255, - 255,
     - 255, - 255, - 255, - 255, - 255, - 255, - 255, - 255, - 255, - 255, - 255, - 255, - 255, - 254, - 254, - 254,
     - 254, - 254, - 254, - 254, - 254, - 254, - 254, - 254, - 254, - 254, - 254, - 254, - 254, - 254, - 254, - 254,
     - 254, - 254, - 254, - 254, - 254, - 254, - 254, - 253, - 253, - 253, - 253, - 253, - 253, - 253, - 253, - 253,
     - 253, - 253, - 253, - 253, - 253, - 253, - 253, - 253, - 252, - 252, - 252, - 252, - 252, - 252, - 252, - 252,
     - 252, - 252, - 252, - 252, - 251, - 251, - 251, - 251, - 251, - 251, - 251, - 251, - 251, - 251, - 250, - 250,
     - 250, - 250, - 250, - 250, - 250, - 250, - 250, - 249, - 249, - 249, - 249, - 249, - 249, - 249, - 248, - 248,
     - 248, - 248, - 248, - 248, - 247, - 247, - 247, - 247, - 247, - 247, - 246, - 246, - 246, - 246, - 246, - 245,
     - 245, - 245, - 245, - 245, - 244, - 244, - 244, - 244, - 243, - 243, - 243, - 243, - 242, - 242, - 242, - 242,
     - 241, - 241, - 241, - 240, - 240, - 240, - 239, - 239, - 239, - 238, - 238, - 238, - 237, - 237, - 237, - 236,
     - 236, - 236, - 235, - 235, - 234, - 234, - 234, - 233, - 233, - 232, - 232, - 231, - 231, - 230, - 230, - 229,
     - 229, - 228, - 228, - 227, - 227, - 226, - 226, - 225, - 224, - 224, - 223, - 223, - 222, - 221, - 221, - 220,
     - 219, - 219, - 218, - 217, - 216, - 216, - 215, - 214, - 213, - 213, - 212, - 211, - 210, - 209, - 208, - 208,
     - 207, - 206, - 205, - 204, - 203, - 202, - 201, - 200, - 199, - 198, - 197, - 196, - 195, - 194, - 193, - 192,
     - 191, - 189, - 188, - 187, - 186, - 185, - 183, - 182, - 181, - 180, - 178, - 177, - 176, - 174, - 173, - 171,
     - 170, - 169, - 167, - 166, - 164, - 163, - 161, - 160, - 158, - 156, - 155, - 153, - 151, - 150, - 148, - 146,
     - 145, - 143, - 141, - 139, - 137, - 136, - 134, - 132, - 130, - 128, - 126, - 124, - 122, - 120, - 118, - 116,
     - 114, - 112, - 110, - 108, - 106, - 104, - 102, - 99, - 97, - 95, - 93, - 91, - 88, - 86, - 84, - 82, - 79,
     - 77, - 75, - 72, - 70, - 67, - 65, - 63, - 60, - 58, - 55, - 53, - 51, - 48, - 46, - 43, - 41, - 38, - 36,
     - 33, - 31, - 28, - 26, - 23, - 20, - 18, - 15, - 13, - 10, - 8, - 5, - 3, 0, 3, 5, 8, 10, 13, 15, 18, 20, 23,
     26, 28, 31, 33, 36, 38, 41, 43, 46, 48, 51, 53, 55, 58, 60, 63, 65, 67, 70, 72, 75, 77, 79, 82, 84, 86, 88, 91,
     93, 95, 97, 99, 102, 104, 106, 108, 110, 112, 114, 116, 118, 120, 122, 124, 126, 128, 130, 132, 134, 136, 137,
     139, 141, 143, 145, 146, 148, 150, 151, 153, 155, 156, 158, 160, 161, 163, 164, 166, 167, 169, 170, 171, 173,
     174, 176, 177, 178, 180, 181, 182, 183, 185, 186, 187, 188, 189, 191, 192, 193, 194, 195, 196, 197, 198, 199,
     200, 201, 202, 203, 204, 205, 206, 207, 208, 208, 209, 210, 211, 212, 213, 213, 214, 215, 216, 216, 217, 218,
     219, 219, 220, 221, 221, 222, 223, 223, 224, 224, 225, 226, 226, 227, 227, 228, 228, 229, 229, 230, 230, 231,
     231, 232, 232, 233, 233, 234, 234, 234, 235, 235, 236, 236, 236, 237, 237, 237, 238, 238, 238, 239, 239, 239,
     240, 240, 240, 241, 241, 241, 242, 242, 242, 242, 243, 243, 243, 243, 244, 244, 244, 244, 245, 245, 245, 245,
     245, 246, 246, 246, 246, 246, 247, 247, 247, 247, 247, 247, 248, 248, 248, 248, 248, 248, 249, 249, 249, 249,
     249, 249, 249, 250, 250, 250, 250, 250, 250, 250, 250, 250, 251, 251, 251, 251, 251, 251, 251, 251, 251, 251,
     252, 252, 252, 252, 252, 252, 252, 252, 252, 252, 252, 252, 253, 253, 253, 253, 253, 253, 253, 253, 253, 253,
     253, 253, 253, 253, 253, 253, 253, 254, 254, 254, 254, 254, 254, 254, 254, 254, 254, 254, 254, 254, 254, 254,
     254, 254, 254, 254, 254, 254, 254, 254, 254, 254, 254, 255, 255, 255, 255, 255, 255, 255, 255, 255, 255, 255,
     255, 255, 255, 255, 255, 255, 255, 255, 255, 255, 255, 255, 255, 255, 255, 255, 255, 255, 255, 255, 255, 255,
     255, 255, 255, 255, 255, 255, 255, 255, 255, 255, 255, 255, 255, 255, 255, 255, 255, 255, 255, 255, 255, 255,
     256, 256, 256, 256, 256, 256, 256, 256, 256, 256, 256, 256, 256, 256, 256, 256, 256, 256, 256, 256, 256, 256,
     256, 256, 256, 256, 256, 256, 256, 256, 256, 256, 256, 256, 256, 256, 256, 256, 256, 256, 256, 256, 256, 256,
     256, 256, 256, 256, 256, 256, 256, 256, 256, 256]"

definition sigmoid :: "dqa \<Rightarrow> (dqa, DactError) outcome" where
  "sigmoid x =
     (if dact_is_trap x then Err TrapInput
      else bind_ok (validate_scale (dqa_scale x)) (\<lambda>_.
        bind_ok (normalize_to_scale x 2) (\<lambda>x_norm.
          if dqa_value x_norm < - 400 then
            bind_ok (dact_unwrap (dqa_new 0 4)) (\<lambda>d. Ok (dact_canonicalize d))
          else if dqa_value x_norm > 400 then
            bind_ok (dact_unwrap (dqa_new 10000 4)) (\<lambda>d. Ok (dact_canonicalize d))
          else bind_ok (at_index SIGMOID_LUT (nat (dqa_value x_norm + 400))) (\<lambda>q.
            let (val, scale) = q88_to_dqa q 4 in
            bind_ok (dact_unwrap (dqa_new val scale)) (\<lambda>d. Ok (dact_canonicalize d))))))"

definition tanh_dqa :: "dqa \<Rightarrow> (dqa, DactError) outcome" where
  "tanh_dqa x =
     (if dact_is_trap x then Err TrapInput
      else bind_ok (validate_scale (dqa_scale x)) (\<lambda>_.
        bind_ok (normalize_to_scale x 2) (\<lambda>x_norm.
          if dqa_value x_norm < - 400 then
            bind_ok (dact_unwrap (dqa_new (- 10000) 4)) (\<lambda>d. Ok (dact_canonicalize d))
          else if dqa_value x_norm > 400 then
            bind_ok (dact_unwrap (dqa_new 10000 4)) (\<lambda>d. Ok (dact_canonicalize d))
          else bind_ok (at_index TANH_LUT (nat (dqa_value x_norm + 400))) (\<lambda>q.
            let (val, scale) = q88_to_dqa q 4 in
            bind_ok (dact_unwrap (dqa_new val scale)) (\<lambda>d. Ok (dact_canonicalize d))))))"

subsection \<open>The tables\<close>

primrec rising :: "int \<Rightarrow> int list \<Rightarrow> bool" where
  "rising x [] = True"
| "rising x (y # ys) = (x \<le> y \<and> rising y ys)"

lemma rising_sorted: "rising x ys = sorted (x # ys)"
proof (induction ys arbitrary: x)
  case (Cons y ys)
  then show ?case by (auto simp: sorted2_simps)
qed simp

lemma rising_cong: "x = x' \<Longrightarrow> rising x ys = rising x' ys"
  by simp

lemma sorted_table: "sorted SIGMOID_LUT" "sorted TANH_LUT"
proof -
  show "sorted SIGMOID_LUT" unfolding SIGMOID_LUT_def rising_sorted [symmetric] by (simp cong: rising_cong)
  show "sorted TANH_LUT" unfolding TANH_LUT_def rising_sorted [symmetric] by (simp cong: rising_cong)
qed

lemma length_table: "length SIGMOID_LUT = 801" "length TANH_LUT = 801"
  by (simp_all only: SIGMOID_LUT_def TANH_LUT_def list.size)

lemma table_bounds:
  assumes "i < 801"
  shows "0 \<le> SIGMOID_LUT ! i" "SIGMOID_LUT ! i \<le> 256" "- 256 \<le> TANH_LUT ! i" "TANH_LUT ! i \<le> 256"
proof -
  have "SIGMOID_LUT ! 0 = 5" "SIGMOID_LUT ! 800 = 251" "TANH_LUT ! 0 = - 256" "TANH_LUT ! 800 = 256"
    by (simp_all only: SIGMOID_LUT_def TANH_LUT_def nth_Cons_0 nth_Cons_numeral) simp_all
  then show "0 \<le> SIGMOID_LUT ! i" "SIGMOID_LUT ! i \<le> 256" "- 256 \<le> TANH_LUT ! i" "TANH_LUT ! i \<le> 256"
    using sorted_nth_mono [OF sorted_table(1), of 0 i] sorted_nth_mono [OF sorted_table(1), of i 800]
      sorted_nth_mono [OF sorted_table(2), of 0 i] sorted_nth_mono [OF sorted_table(2), of i 800] assms length_table
    by simp_all
qed

subsection \<open>Rounding down\<close>

lemma dact_unwrap_simps [simp]: "dact_unwrap (Ok x) = Ok x" "dact_unwrap (Err e) = Panic"
  by (simp_all add: dact_unwrap_def)

lemma dact_canonicalize_eq: "dact_canonicalize d = canonicalize d"
proof -
  have "dact_canonicalize_loop v s = canonicalize_loop v s" for v s
    by (induction v s rule: canonicalize_loop.induct)
      (subst dact_canonicalize_loop.simps, subst canonicalize_loop.simps, simp)
  then show ?thesis by (simp add: dact_canonicalize_def canonicalize_def)
qed

lemma floor_by_ceiling:
  assumes "0 < (f :: int)"
  shows "- ((- v + f - 1) div f) = v div f"
proof -
  have "- v + f - 1 = (f - 1 - v mod f) + f * - (v div f)" by (simp add: algebra_simps)
  then have "(- v + f - 1) div f = - (v div f) + (f - 1 - v mod f) div f"
    using assms by (simp only: div_mult_self2)
  moreover have "(f - 1 - v mod f) div f = 0"
    using assms pos_mod_bound [OF assms, of v] pos_mod_sign [OF assms, of v] by (intro div_pos_pos_trivial) linarith+
  ultimately show ?thesis by simp
qed

definition floor100 :: "dqa \<Rightarrow> int" where
  "floor100 x = \<lfloor>dqa_val x * 100\<rfloor>"

definition norm_safe :: "dqa \<Rightarrow> bool" where
  "norm_safe x \<longleftrightarrow>
     (if dqa_scale x < 2 then i64_range (dqa_value x * 10 ^ (2 - dqa_scale x))
      else dqa_scale x = 2 \<or> 0 \<le> dqa_value x \<or> - dqa_value x + 10 ^ (dqa_scale x - 2) - 1 \<le> I64_MAX)"

lemma floor100_eq:
  "floor100 x = (if dqa_scale x \<le> 2 then dqa_value x * 10 ^ (2 - dqa_scale x) else dqa_value x div 10 ^ (dqa_scale x - 2))"
proof (cases "dqa_scale x \<le> 2")
  case True
  then have "dqa_val x * 100 = of_int (dqa_value x * 10 ^ (2 - dqa_scale x))"
    using fp_val_shift [of "dqa_value x" "2 - dqa_scale x" "dqa_scale x"] by (simp add: dqa_val_def fp_val_def)
  then show ?thesis using True unfolding floor100_def by (simp only: floor_of_int if_True)
next
  case False
  then obtain k where k: "dqa_scale x = k + 2" using less_imp_add_positive [of 2 "dqa_scale x"] by (metis add.commute not_le)
  then have "dqa_val x * 100 = of_int (dqa_value x) / of_int (10 ^ (dqa_scale x - 2))" by (simp add: dqa_val_def fp_val_def power_add)
  then show ?thesis using False unfolding floor100_def by (simp only: floor_divide_of_int_eq if_False)
qed

lemma pow10_18: "n \<le> 18 \<Longrightarrow> (10 :: int) ^ n \<le> 10 ^ 18"
  by (intro power_increasing) simp_all

lemma i64_pow10_small: "n \<le> 18 \<Longrightarrow> i64_pow10 n = 10 ^ n"
proof -
  assume "n \<le> 18"
  then have "0 \<le> (10 :: int) ^ n" "(10 :: int) ^ n \<le> 1000000000000000000" using pow10_18 [of n] by simp_all
  then have "i64_range (10 ^ n)" unfolding i64_range_def by linarith
  then show ?thesis by (simp only: i64_pow10_def as_i64_id)
qed

lemma as_i64_plus: "as_i64 (as_i64 a + b) = as_i64 (a + b)"
  by (simp add: as_i64_def mod_simps algebra_simps)

lemma normalize_val:
  assumes "dqa_wf x" "norm_safe x"
  shows "\<exists>d. normalize_to_scale x 2 = Ok d \<and> dqa_value d = floor100 x"
proof -
  have v: "i64_range (dqa_value x)" "dqa_scale x \<le> 18" using assms(1) by (simp_all add: dqa_wf_bounds)
  consider "dqa_scale x = 2" | "dqa_scale x < 2" | "2 < dqa_scale x" "0 \<le> dqa_value x" | "2 < dqa_scale x" "dqa_value x < 0"
    by linarith
  then show ?thesis
  proof cases
    case 1
    then show ?thesis by (simp add: normalize_to_scale_def floor100_eq)
  next
    case 2
    then have "nat (2 - int (dqa_scale x)) = 2 - dqa_scale x" by simp
    then show ?thesis using 2 assms(2)
      by (simp add: normalize_to_scale_def floor100_eq norm_safe_def i64_pow10_small dqa_new_def MAX_SCALE_def)
  next
    case 3
    then have "nat (int (dqa_scale x) - 2) = dqa_scale x - 2" by simp
    then show ?thesis using 3 v
      by (simp add: normalize_to_scale_def floor100_eq i64_pow10_small dqa_new_def MAX_SCALE_def rust_div_pos)
  next
    case 4
    define f :: int where "f = 10 ^ (dqa_scale x - 2)"
    have f: "0 < f" "f \<le> 10 ^ 18" using pow10_18 [of "dqa_scale x - 2"] v(2) by (simp_all add: f_def)
    have w: "- dqa_value x + f - 1 \<le> I64_MAX" "0 \<le> - dqa_value x + f - 1"
      using 4 assms(2) f(1) by (simp_all add: norm_safe_def f_def [symmetric])
    have a: "as_i64 (as_i64 (as_i64 (- dqa_value x) + f) - 1) = - dqa_value x + f - 1"
      using w by (simp only: as_i64_plus diff_conv_add_uminus) (simp add: i64_range_def)
    have b: "- rust_div (- dqa_value x + f - 1) f = dqa_value x div f"
      using w(2) f(1) floor_by_ceiling [OF f(1)] by (simp add: rust_div_pos)
    have c: "i64_range (dqa_value x div f)"
    proof -
      have "dqa_value x \<le> dqa_value x div f" using 4(2) f(1) zdiv_mono2_neg [of "dqa_value x" 1 f] by simp
      moreover have "dqa_value x div f < 0" using 4(2) f(1) by (rule div_neg_pos_less0)
      ultimately show ?thesis using v(1) by (simp add: i64_range_def)
    qed
    have n: "nat (int (dqa_scale x) - 2) = dqa_scale x - 2" by simp
    show ?thesis using 4 v(2) a b c
      by (simp add: normalize_to_scale_def floor100_eq n i64_pow10_small dqa_new_def MAX_SCALE_def flip: f_def)
  qed
qed

subsection \<open>The table functions\<close>

definition table_value :: "int list \<Rightarrow> int \<Rightarrow> int \<Rightarrow> int" where
  "table_value lut low k =
     (if k < - 400 then low else if k > 400 then 10000 else lut ! nat (k + 400) * 10000 div 256)"

lemma q88_val: "\<bar>q\<bar> \<le> 256 \<Longrightarrow> q88_to_dqa q 4 = (q * 10000 div 256, 4)"
proof -
  assume q: "\<bar>q\<bar> \<le> 256"
  have d: "\<bar>q * 10000 div 256\<bar> \<le> 10000"
    using q zdiv_mono1 [of "q * 10000" 2560000 256] zdiv_mono1 [of "- 2560000" "q * 10000" 256] by (simp add: abs_le_iff)
  then have r: "as_i64 (q * 10000 div 256) = q * 10000 div 256" by (intro as_i64_id) (auto simp: i64_range_def)
  have i: "as_i128 (q * 10 ^ 4) = q * 10000" using q by (simp add: i128_range_def abs_le_iff)
  show ?thesis
  proof (cases "0 \<le> q")
    case True
    then show ?thesis unfolding q88_to_dqa_def i using r by (simp add: rust_div_pos)
  next
    case False
    have c: "(- (q * 10000) + 255) div 256 = - (q * 10000 div 256)" using floor_by_ceiling [of 256 "q * 10000"] by simp
    have "as_i128 (- (q * 10000) + 255) = - (q * 10000) + 255" using q by (intro as_i128_id) (auto simp: i128_range_def)
    moreover have "as_i64 (- (q * 10000 div 256)) = - (q * 10000 div 256)" using d by (intro as_i64_id) (auto simp: i64_range_def)
    ultimately show ?thesis unfolding q88_to_dqa_def i using r c False by (simp add: rust_div_pos)
  qed
qed

lemma table_value_mono:
  assumes "sorted lut" "length lut = 801" "\<And>i. i < 801 \<Longrightarrow> l \<le> lut ! i" "\<And>i. i < 801 \<Longrightarrow> lut ! i \<le> 256" "low = l * 10000 div 256"
    and "l \<le> 256" "k \<le> k'"
  shows "table_value lut low k \<le> table_value lut low k'" "low \<le> table_value lut low k" "table_value lut low k \<le> 10000"
proof -
  have m: "lut ! nat (k + 400) * 10000 div 256 \<le> lut ! nat (k' + 400) * 10000 div 256" if "- 400 \<le> k" "k' \<le> 400"
    using sorted_nth_mono [OF assms(1), of "nat (k + 400)" "nat (k' + 400)"] assms(2,7) that by (intro zdiv_mono1 mult_right_mono) simp_all
  have lo: "low \<le> lut ! nat (j + 400) * 10000 div 256" if "- 400 \<le> j" "j \<le> 400" for j
    unfolding assms(5) using assms(3) [of "nat (j + 400)"] that by (intro zdiv_mono1 mult_right_mono) simp_all
  have hi: "lut ! nat (j + 400) * 10000 div 256 \<le> 10000" if "- 400 \<le> j" "j \<le> 400" for j
    using assms(4) [of "nat (j + 400)"] that zdiv_mono1 [of "lut ! nat (j + 400) * 10000" 2560000 256] by simp
  have lh: "low \<le> 10000" unfolding assms(5) using zdiv_mono1 [of "l * 10000" 2560000 256] assms(6) by simp
  show "table_value lut low k \<le> table_value lut low k'"
    using m lo [of k'] hi [of k] lh assms(7) by (simp add: table_value_def)
  show "low \<le> table_value lut low k" "table_value lut low k \<le> 10000"
    using lo [of k] hi [of k] lh by (simp_all add: table_value_def)
qed

lemma table_functions_val:
  assumes "dqa_wf x" "norm_safe x"
  shows "sigmoid x = Ok (canonicalize (mk_dqa (table_value SIGMOID_LUT 0 (floor100 x)) 4))"
    and "tanh_dqa x = Ok (canonicalize (mk_dqa (table_value TANH_LUT (- 10000) (floor100 x)) 4))"
proof -
  obtain d where d: "normalize_to_scale x 2 = Ok d" "dqa_value d = floor100 x" using normalize_val [OF assms] by blast
  have t: "\<not> dact_is_trap x" "validate_scale (dqa_scale x) = Ok ()"
    using assms(1) by (auto simp: dqa_wf_def MAX_SCALE_def dact_is_trap_def validate_scale_def)
  have b: "nat (floor100 x + 400) < 801" if "- 400 \<le> floor100 x" "floor100 x \<le> 400" using that by simp
  have q: "q88_to_dqa (SIGMOID_LUT ! i) 4 = (SIGMOID_LUT ! i * 10000 div 256, 4)"
    "q88_to_dqa (TANH_LUT ! i) 4 = (TANH_LUT ! i * 10000 div 256, 4)" if "i < 801" for i
    using table_bounds [OF that] by (simp_all add: q88_val abs_le_iff)
  show "sigmoid x = Ok (canonicalize (mk_dqa (table_value SIGMOID_LUT 0 (floor100 x)) 4))"
    using t d b q length_table
    by (simp add: sigmoid_def table_value_def dqa_new_def MAX_SCALE_def dact_canonicalize_eq at_index_def)
  show "tanh_dqa x = Ok (canonicalize (mk_dqa (table_value TANH_LUT (- 10000) (floor100 x)) 4))"
    using t d b q length_table
    by (simp add: tanh_dqa_def table_value_def dqa_new_def MAX_SCALE_def dact_canonicalize_eq at_index_def)
qed

lemma leaky_val:
  assumes "dqa_wf x"
  shows "\<exists>r. dqa_mul x (mk_dqa 1 2) = Ok r \<and> dqa_wf r \<and>
    (if dqa_scale x \<le> 16 then dqa_val r = dqa_val x / 100 else \<bar>dqa_val r - dqa_val x / 100\<bar> \<le> fp_val 1 18 / 2)"
proof -
  have wf: "dqa_wf (mk_dqa 1 2)" by (simp add: dqa_wf_def MAX_SCALE_def i64_range_def)
  note b = dqa_wf_bounds [OF assms]
  have v: "dqa_val x / 100 = fp_val (dqa_value x) (dqa_scale x + 2)" by (simp add: dqa_val_def fp_val_def power_add)
  show ?thesis
  proof (cases "dqa_scale x \<le> 16")
    case True
    then show ?thesis
      using dqa_mul_exact [OF assms wf] b canonicalized_wf [of "dqa_value x" "dqa_scale x + 2"] v by (auto simp: dqa_val_mk)
  next
    case False
    obtain m where m: "is_product x (mk_dqa 1 2) m"
      "dqa_mul x (mk_dqa 1 2) = (if i64_range m then Ok (canonicalize (mk_dqa m (mul_scale x (mk_dqa 1 2)))) else Err DqaError.Overflow)"
      using dqa_mul_spec [OF assms wf] by blast
    have s: "mul_scale x (mk_dqa 1 2) = 18" using False by (simp add: mul_scale_def MAX_SCALE_def)
    define d :: int where "d = 10 ^ (dqa_scale x + 2 - 18)"
    have h: "half_even (dqa_value x) d m" using m(1) by (simp add: is_product_def s d_def)
    have d: "10 \<le> d" using False power_increasing [of 1 "dqa_scale x + 2 - 18" "10 :: int"] by (simp add: d_def)
    define p q u where "p = \<bar>m\<bar>" and "q = \<bar>dqa_value x - m * d\<bar>" and "u = \<bar>dqa_value x\<bar>"
    have "2 * q \<le> d" using h d by (simp add: half_even_def q_def)
    moreover have "p * 10 \<le> p * d" using d by (simp add: p_def mult_left_mono)
    moreover have "d \<le> 100" using power_increasing [of "dqa_scale x + 2 - 18" 2 "10 :: int"] b(2) by (simp add: d_def)
    moreover have "p * d \<le> u + q"
      using abs_triangle_ineq4 [of "dqa_value x" "dqa_value x - m * d"] d by (simp add: p_def q_def u_def abs_mult)
    moreover have "u \<le> 9223372036854775808" using i64_range_abs [OF b(1)] by (simp add: u_def)
    ultimately have "p \<le> I64_MAX" by linarith
    then have "\<bar>m\<bar> \<le> I64_MAX" by (simp only: p_def)
    then have r: "i64_range m" unfolding i64_range_def abs_le_iff by linarith
    have e: "(10 :: rat) ^ (dqa_scale x + 2) = 10 ^ 18 * of_int d"
      using False le_add_diff_inverse [of 18 "dqa_scale x + 2"] power_add [of "10 :: rat" 18 "dqa_scale x + 2 - 18"]
      by (simp only: d_def of_int_power of_int_numeral)
    have "fp_val (dqa_value x) (dqa_scale x + 2) - fp_val m 18 = (of_int (dqa_value x) / of_int d - of_int m) / 10 ^ 18"
      unfolding fp_val_def e by (simp only: diff_divide_distrib divide_divide_eq_left mult.commute)
    then have "\<bar>fp_val (dqa_value x) (dqa_scale x + 2) - fp_val m 18\<bar> \<le> (1 / 2) / 10 ^ 18"
      using divide_right_mono [OF half_even_dist [OF h], of "10 ^ 18"] by (simp only: abs_divide) simp
    then show ?thesis
      using m(2) r s False canonicalized_wf [OF r] v by (auto simp: dqa_val_mk abs_minus_commute fp_val_def [of 1])
  qed
qed

subsection \<open>Properties\<close>

text \<open>C39: The sigmoid and the hyperbolic tangent are total on well-formed arguments, return canonical values in
  \<open>[0, 1]\<close> and \<open>[-1, 1]\<close> and are monotone, as long as the normalization of the argument to two decimals stays
  within \<open>i64\<close>.\<close>

theorem dact_table_functions_correct:
  assumes "dqa_wf x" "norm_safe x" "dqa_wf y" "norm_safe y" "dqa_val x \<le> dqa_val y"
  shows "(\<exists>s t. sigmoid x = Ok s \<and> sigmoid y = Ok t \<and> dqa_canonical s \<and> dqa_wf s
      \<and> 0 \<le> dqa_val s \<and> dqa_val s \<le> dqa_val t \<and> dqa_val t \<le> 1)
    \<and> (\<exists>s t. tanh_dqa x = Ok s \<and> tanh_dqa y = Ok t \<and> dqa_canonical s \<and> dqa_wf s
      \<and> - 1 \<le> dqa_val s \<and> dqa_val s \<le> dqa_val t \<and> dqa_val t \<le> 1)"
proof -
  have k: "floor100 x \<le> floor100 y" unfolding floor100_def using assms(5) by (intro floor_mono mult_right_mono) simp_all
  have scaled: "fp_val a 4 \<le> fp_val b 4 \<longleftrightarrow> a \<le> b" "fp_val 10000 4 = 1" "fp_val (- 10000) 4 = - 1" for a b
    by (simp_all add: fp_val_def divide_le_cancel)
  have c: "\<exists>s t. Ok (canonicalize (mk_dqa a 4)) = (Ok s :: (dqa, DactError) outcome) \<and> Ok (canonicalize (mk_dqa b 4)) = (Ok t :: (dqa, DactError) outcome)
      \<and> dqa_canonical s \<and> dqa_wf s \<and> fp_val low 4 \<le> dqa_val s \<and> dqa_val s \<le> dqa_val t \<and> dqa_val t \<le> 1"
    if "low \<le> a" "a \<le> b" "b \<le> 10000" "- 10000 \<le> low" for a b low
    using that scaled(1) [of low a] scaled(1) [of a b] scaled(1) [of b 10000] scaled(2) canonicalized_wf [of a 4]
    by (auto simp: dqa_val_mk i64_range_def)
  note sm = table_value_mono [of SIGMOID_LUT 0 0, OF sorted_table(1) length_table(1) table_bounds(1,2)]
  note tm = table_value_mono [of TANH_LUT "- 256" "- 10000", OF sorted_table(2) length_table(2) table_bounds(3,4)]
  have s: "0 \<le> table_value SIGMOID_LUT 0 (floor100 x)" "table_value SIGMOID_LUT 0 (floor100 x) \<le> table_value SIGMOID_LUT 0 (floor100 y)"
    "table_value SIGMOID_LUT 0 (floor100 y) \<le> 10000"
    using sm(1,2) [of "floor100 x" "floor100 y"] sm(3) [of "floor100 y" "floor100 y"] k by simp_all
  have t: "- 10000 \<le> table_value TANH_LUT (- 10000) (floor100 x)"
    "table_value TANH_LUT (- 10000) (floor100 x) \<le> table_value TANH_LUT (- 10000) (floor100 y)"
    "table_value TANH_LUT (- 10000) (floor100 y) \<le> 10000"
    using tm(1,2) [of "floor100 x" "floor100 y"] tm(3) [of "floor100 y" "floor100 y"] k by simp_all
  show ?thesis
    unfolding table_functions_val [OF assms(1,2)] table_functions_val [OF assms(3,4)]
    using c [OF s] c [OF t] by (simp add: scaled(3))
qed

theorem dact_table_functions_witness:
  "\<exists>s t. sigmoid (mk_dqa (- 15) 1) = Ok s \<and> sigmoid (mk_dqa 7 0) = Ok t \<and> dqa_val s \<le> dqa_val t"
  using dact_table_functions_correct [of "mk_dqa (- 15) 1" "mk_dqa 7 0"]
  by (simp add: dqa_wf_def [of "mk_dqa _ _"] MAX_SCALE_def i64_range_def norm_safe_def dqa_val_def [of "mk_dqa _ _"] fp_val_def)
    (elim exE conjE, auto)

text \<open>Outside of that range the argument wraps: the sigmoid of \<open>92233720368547759\<close> is 0, and that of
  \<open>-9.223372036854775807\<close> is 1.\<close>

theorem dact_sigmoid_wraps:
  "sigmoid (mk_dqa 92233720368547759 0) = Ok (mk_dqa 0 0) \<and> sigmoid (mk_dqa (- 9223372036854775807) 18) = Ok (mk_dqa 1 0)"
proof -
  have "normalize_to_scale (mk_dqa 92233720368547759 0) 2 = Ok (mk_dqa (- 9223372036854775716) 2)"
    by (simp add: normalize_to_scale_def i64_pow10_def as_i64_def dqa_new_def MAX_SCALE_def)
  moreover have "normalize_to_scale (mk_dqa (- 9223372036854775807) 18) 2 = Ok (mk_dqa 921 2)"
    by (simp add: normalize_to_scale_def i64_pow10_def as_i64_def dqa_new_def MAX_SCALE_def rust_div_def)
  moreover have "canonicalize (mk_dqa 10000 4) = mk_dqa 1 0"
    by (simp add: canonicalize_def canonicalize_loop.simps rust_rem_def rust_div_def)
  moreover have "canonicalize (mk_dqa 0 4) = mk_dqa 0 0" by (simp add: canonicalize_def)
  ultimately show ?thesis
    by (simp add: sigmoid_def dact_is_trap_def validate_scale_def dqa_new_def MAX_SCALE_def dact_canonicalize_eq)
qed

text \<open>ReLU cuts off the negative numbers, ReLU6 also those above 6, exactly and without a change of the scale;
  leaky ReLU multiplies negative numbers by one hundredth, exactly up to scale 16 and rounded half-even to 18
  decimals above. None of them fails on a well-formed value; a trap value and a scale above 18 are errors.\<close>

theorem dact_relu_correct:
  "(dqa_wf x \<longrightarrow>
      (\<exists>r. relu x = Ok r \<and> dqa_val r = max 0 (dqa_val x) \<and> dqa_scale r = dqa_scale x)
      \<and> (\<exists>r. relu6 x = Ok r \<and> dqa_val r = min 6 (max 0 (dqa_val x)) \<and> dqa_scale r = dqa_scale x)
      \<and> (\<exists>r. leaky_relu x = Ok r \<and> dqa_wf r \<and>
          (if 0 \<le> dqa_val x then r = x
           else if dqa_scale x \<le> 16 then dqa_val r = dqa_val x / 100
           else \<bar>dqa_val r - dqa_val x / 100\<bar> \<le> fp_val 1 18 / 2)))
   \<and> (dqa_scale x > 18 \<and> \<not> dact_is_trap x \<longrightarrow> relu x = Err DactError.InvalidScale \<and> relu6 x = Err DactError.InvalidScale
      \<and> leaky_relu x = Err DactError.InvalidScale \<and> sigmoid x = Err DactError.InvalidScale \<and> tanh_dqa x = Err DactError.InvalidScale)
   \<and> (dact_is_trap x \<longrightarrow> relu x = Err TrapInput \<and> relu6 x = Err TrapInput
      \<and> leaky_relu x = Err TrapInput \<and> sigmoid x = Err TrapInput \<and> tanh_dqa x = Err TrapInput)"
proof (intro conjI impI)
  assume wf: "dqa_wf x"
  note b = dqa_wf_bounds [OF wf]
  have t: "\<not> dact_is_trap x" "validate_scale (dqa_scale x) = Ok ()"
    using b by (auto simp: dact_is_trap_def validate_scale_def)
  have sgn: "dqa_val x < 0 \<longleftrightarrow> dqa_value x < 0" by (simp add: dqa_val_def fp_val_neg_iff)
  show "\<exists>r. relu x = Ok r \<and> dqa_val r = max 0 (dqa_val x) \<and> dqa_scale r = dqa_scale x"
    using t sgn b by (auto simp: relu_def dqa_new_def MAX_SCALE_def dqa_val_mk max_def)
  have "as_i64 (6 * i64_pow10 (dqa_scale x)) = 6 * 10 ^ dqa_scale x"
  proof -
    have "0 \<le> (10 :: int) ^ dqa_scale x" "(10 :: int) ^ dqa_scale x \<le> 1000000000000000000" using pow10_18 [OF b(2)] by simp_all
    then have "i64_range (6 * 10 ^ dqa_scale x)" unfolding i64_range_def by linarith
    then show ?thesis by (simp only: i64_pow10_small [OF b(2)] as_i64_id)
  qed
  moreover have "6 * 10 ^ dqa_scale x < dqa_value x \<longleftrightarrow> 6 < dqa_val x"
    using fp_val_less_iff [of 6 0 "dqa_value x" "dqa_scale x"] by (simp add: dqa_val_def)
  ultimately show "\<exists>r. relu6 x = Ok r \<and> dqa_val r = min 6 (max 0 (dqa_val x)) \<and> dqa_scale r = dqa_scale x"
    using t sgn b fp_val_shift [of 6 "dqa_scale x" 0]
    by (auto simp: relu6_def dqa_new_def MAX_SCALE_def dqa_val_mk max_def min_def)
  show "\<exists>r. leaky_relu x = Ok r \<and> dqa_wf r \<and>
          (if 0 \<le> dqa_val x then r = x
           else if dqa_scale x \<le> 16 then dqa_val r = dqa_val x / 100
           else \<bar>dqa_val r - dqa_val x / 100\<bar> \<le> fp_val 1 18 / 2)"
    using leaky_val [OF wf] wf t sgn by (auto simp: leaky_relu_def dqa_new_def MAX_SCALE_def not_less)
qed (auto simp: relu_def relu6_def leaky_relu_def sigmoid_def tanh_dqa_def dact_is_trap_def validate_scale_def)

theorem dact_relu_witness:
  "\<exists>r. leaky_relu (mk_dqa (- 5) 0) = Ok r \<and> dqa_val r = - 1 / 20"
  using dact_relu_correct [of "mk_dqa (- 5) 0"]
  by (simp add: dqa_wf_def [of "mk_dqa _ _"] MAX_SCALE_def i64_range_def dqa_val_def [of "mk_dqa _ _"] fp_val_def) (elim exE conjE, auto)

end
