(* ===== verification/SigAlgs.thy ===== *)
theory SigAlgs
  imports BTree Bytes "HOL-Library.List_Lexorder"
begin

text \<open>
  The registry of signature algorithms (\<open>octo-ident/src/signature_algorithm.rs\<close>), the Ed25519 entry and
  the dispatch of a verification to the algorithm an identifier names
  (\<open>octo-algo-ed25519/src/lib.rs\<close>). The process-wide registry is passed as a state; the bootstrap mutex
  makes every call atomic. A trait object \<open>dyn SignatureAlgorithm\<close> is the record of its methods. The
  UUID version 5 of the crate \<open>uuid\<close> and the curve operations of \<open>ed25519-dalek\<close> are parameters.
\<close>

subsection \<open>Algorithms\<close>

datatype ZkSupport = ZkNone | ZkCircuit "u8 list"

datatype SignatureError =
    BadKeyLength string nat nat
  | BadSignatureLength string nat nat
  | Invalid string

record sig_alg =
  alg_id :: "u8 list"
  alg_name :: string
  public_key_len :: nat
  signature_len :: nat
  zk_support :: ZkSupport
  alg_verify :: "u8 list \<Rightarrow> u8 list \<Rightarrow> u8 list \<Rightarrow> (unit, SignatureError) outcome"

definition ALGORITHM_NAMESPACE :: "u8 list" where
  "ALGORITHM_NAMESPACE =
     [0x9e, 0x6b, 0x1f, 0x4a, 0x2c, 0x8e, 0x55, 0x33, 0x9d, 0x71, 0x0c, 0x42, 0xb6, 0x2a, 0x7f, 0x18]"

definition algorithm_id_derive :: "(u8 list \<Rightarrow> u8 list \<Rightarrow> u8 list) \<Rightarrow> string \<Rightarrow> u8 list" where
  "algorithm_id_derive uuid_v5 name = uuid_v5 ALGORITHM_NAMESPACE (ascii_bytes name)"

text \<open>What the code uses of \<open>ed25519-dalek\<close>: whether 32 bytes encode a key, and the strict check.\<close>

record dalek =
  from_bytes_ok :: "u8 list \<Rightarrow> bool"
  verify_strict :: "u8 list \<Rightarrow> u8 list \<Rightarrow> u8 list \<Rightarrow> bool"

definition ED25519_NAME :: string where
  "ED25519_NAME = ''ed25519''"

definition ed25519_algorithm_id :: "(u8 list \<Rightarrow> u8 list \<Rightarrow> u8 list) \<Rightarrow> u8 list" where
  "ed25519_algorithm_id uuid_v5 = algorithm_id_derive uuid_v5 ED25519_NAME"

definition ed25519_verify :: "dalek \<Rightarrow> u8 list \<Rightarrow> u8 list \<Rightarrow> u8 list \<Rightarrow> (unit, SignatureError) outcome" where
  "ed25519_verify D public_key message signature =
     (if length public_key \<noteq> 32 then Err (BadKeyLength ED25519_NAME (length public_key) 32)
      else if length signature \<noteq> 64 then Err (BadSignatureLength ED25519_NAME (length signature) 64)
      else if \<not> from_bytes_ok D public_key then Err (Invalid ED25519_NAME)
      else if \<not> verify_strict D public_key message signature then Err (Invalid ED25519_NAME)
      else Ok ())"

definition Ed25519Algorithm :: "(u8 list \<Rightarrow> u8 list \<Rightarrow> u8 list) \<Rightarrow> dalek \<Rightarrow> sig_alg" where
  "Ed25519Algorithm uuid_v5 D =
     \<lparr>alg_id = ed25519_algorithm_id uuid_v5, alg_name = ED25519_NAME, public_key_len = 32,
      signature_len = 64, zk_support = ZkNone, alg_verify = ed25519_verify D\<rparr>"

subsection \<open>The registry\<close>

datatype AlgorithmRegistryError =
    AlreadyRegistered "u8 list"
  | NotPopulated
  | UnknownAlgorithm "u8 list"

datatype BootstrapError = ConflictingBootstrap | Registry AlgorithmRegistryError

datatype DispatchError =
    Bootstrap BootstrapError
  | Unknown AlgorithmRegistryError
  | Signature SignatureError

record algorithm_registry =
  algorithms :: "(u8 list, sig_alg) btree"
  populated :: bool

definition registry_new :: algorithm_registry where
  "registry_new = \<lparr>algorithms = [], populated = False\<rparr>"

definition register :: "sig_alg \<Rightarrow> algorithm_registry \<Rightarrow> (unit, AlgorithmRegistryError) outcome \<times> algorithm_registry" where
  "register alg reg =
     (if bt_get (algorithms reg) (alg_id alg) \<noteq> None then (Err (AlreadyRegistered (alg_id alg)), reg)
      else (Ok (), reg\<lparr>algorithms := bt_insert (alg_id alg) alg (algorithms reg)\<rparr>))"

fun collect_ids :: "u8 list list \<Rightarrow> sig_alg list \<Rightarrow> (u8 list list, AlgorithmRegistryError) outcome" where
  "collect_ids ids [] = Ok ids"
| "collect_ids ids (alg # algs) =
     (if alg_id alg \<in> set ids then Err (AlreadyRegistered (alg_id alg))
      else collect_ids (ids @ [alg_id alg]) algs)"

definition populate :: "sig_alg list \<Rightarrow> algorithm_registry \<Rightarrow> (unit, AlgorithmRegistryError) outcome \<times> algorithm_registry" where
  "populate algs reg =
     (if populated reg then (Err NotPopulated, reg)
      else case collect_ids [] algs of
        Ok ids \<Rightarrow>
          (case find (\<lambda>i. bt_get (algorithms reg) i \<noteq> None) ids of
             Some i \<Rightarrow> (Err (AlreadyRegistered i), reg)
           | None \<Rightarrow> (Ok (), \<lparr>algorithms = fold (\<lambda>a. bt_insert (alg_id a) a) algs (algorithms reg),
                            populated = True\<rparr>))
      | Err e \<Rightarrow> (Err e, reg)
      | Panic \<Rightarrow> (Panic, reg))"

definition registry_get :: "algorithm_registry \<Rightarrow> u8 list \<Rightarrow> (sig_alg, AlgorithmRegistryError) outcome" where
  "registry_get reg i =
     (if \<not> populated reg then Err NotPopulated
      else case bt_get (algorithms reg) i of Some a \<Rightarrow> Ok a | None \<Rightarrow> Err (UnknownAlgorithm i))"

definition registry_ids :: "algorithm_registry \<Rightarrow> u8 list list" where
  "registry_ids reg = map fst (algorithms reg)"

subsection \<open>Bootstrap and dispatch\<close>

definition bootstrap_locked :: "sig_alg list \<Rightarrow> algorithm_registry \<Rightarrow> (unit, BootstrapError) outcome \<times> algorithm_registry" where
  "bootstrap_locked algs reg =
     (let requested = remdups_adj (sort (map alg_id algs)) in
      if populated reg then (if registry_ids reg = requested then Ok () else Err ConflictingBootstrap, reg)
      else case populate algs reg of (r, reg') \<Rightarrow> (map_err Registry r, reg'))"

definition bootstrap :: "sig_alg list \<Rightarrow> algorithm_registry \<Rightarrow> (unit, BootstrapError) outcome \<times> algorithm_registry" where
  "bootstrap algs reg = bootstrap_locked algs reg"

fun register_all :: "sig_alg list \<Rightarrow> algorithm_registry \<Rightarrow> (unit, BootstrapError) outcome \<times> algorithm_registry" where
  "register_all [] reg = (Ok (), reg)"
| "register_all (alg # algs) reg =
     (case register alg reg of
        (Ok _, reg') \<Rightarrow> register_all algs reg'
      | (Err (AlreadyRegistered _), reg') \<Rightarrow> register_all algs reg'
      | (Err e, reg') \<Rightarrow> (Err (Registry e), reg')
      | (Panic, reg') \<Rightarrow> (Panic, reg'))"

definition bootstrap_additional :: "sig_alg list \<Rightarrow> algorithm_registry \<Rightarrow> (unit, BootstrapError) outcome \<times> algorithm_registry" where
  "bootstrap_additional algs reg =
     (if \<not> populated reg then bootstrap_locked algs reg else register_all algs reg)"

definition install ::
    "(u8 list \<Rightarrow> u8 list \<Rightarrow> u8 list) \<Rightarrow> dalek \<Rightarrow> algorithm_registry \<Rightarrow>
     (unit, BootstrapError) outcome \<times> algorithm_registry" where
  "install uuid_v5 D reg = bootstrap_additional [Ed25519Algorithm uuid_v5 D] reg"

definition shared_registry ::
    "(u8 list \<Rightarrow> u8 list \<Rightarrow> u8 list) \<Rightarrow> dalek \<Rightarrow> algorithm_registry \<Rightarrow>
     (unit, BootstrapError) outcome \<times> algorithm_registry" where
  "shared_registry uuid_v5 D reg = (if populated reg then (Ok (), reg) else install uuid_v5 D reg)"

definition verify_dispatch ::
    "(u8 list \<Rightarrow> u8 list \<Rightarrow> u8 list) \<Rightarrow> dalek \<Rightarrow> u8 list \<Rightarrow> u8 list \<Rightarrow> u8 list \<Rightarrow> u8 list \<Rightarrow>
     algorithm_registry \<Rightarrow> (unit, DispatchError) outcome \<times> algorithm_registry" where
  "verify_dispatch uuid_v5 D i public_key message signature reg =
     (case shared_registry uuid_v5 D reg of
        (Ok _, reg') \<Rightarrow>
          (case registry_get reg' i of
             Ok alg \<Rightarrow> map_err Signature (alg_verify alg public_key message signature)
           | Err e \<Rightarrow> Err (Unknown e)
           | Panic \<Rightarrow> Panic, reg')
      | (Err e, reg') \<Rightarrow> (Err (Bootstrap e), reg')
      | (Panic, reg') \<Rightarrow> (Panic, reg'))"

subsection \<open>The registry only grows\<close>

text \<open>Every algorithm is filed under its own identifier; \<open>extends\<close> says that a later registry still
  answers every lookup the earlier one answered, in the same way.\<close>

definition algs_ok :: "algorithm_registry \<Rightarrow> bool" where
  "algs_ok reg \<longleftrightarrow> bt_ok (algorithms reg) \<and> (\<forall>i a. map_of (algorithms reg) i = Some a \<longrightarrow> alg_id a = i)"

definition extends :: "algorithm_registry \<Rightarrow> algorithm_registry \<Rightarrow> bool" where
  "extends reg reg' \<longleftrightarrow> algs_ok reg' \<and> (populated reg \<longrightarrow> populated reg')
     \<and> map_of (algorithms reg) \<subseteq>\<^sub>m map_of (algorithms reg')"

lemma extends_refl [intro]: "algs_ok reg \<Longrightarrow> extends reg reg"
  by (simp add: extends_def)

lemma extends_trans [trans]: "extends a b \<Longrightarrow> extends b c \<Longrightarrow> extends a c"
  by (auto simp: extends_def intro: map_le_trans)

lemma extends_get: "extends reg reg' \<Longrightarrow> registry_get reg i = Ok a \<Longrightarrow> registry_get reg' i = Ok a"
  by (auto simp: extends_def registry_get_def bt_get_def map_le_def dom_def split: if_splits option.splits)

lemma algs_ok_insert:
  "algs_ok reg \<Longrightarrow> algs_ok \<lparr>algorithms = bt_insert (alg_id a) a (algorithms reg), populated = p\<rparr>"
  by (simp add: algs_ok_def bt_insert_ok bt_insert_map)

lemma register_extends: "algs_ok reg \<Longrightarrow> extends reg (snd (register a reg))"
proof -
  assume ok: "algs_ok reg"
  then have "bt_ok (algorithms reg)" by (simp add: algs_ok_def)
  then show ?thesis
    using ok algs_ok_insert [OF ok, of a "populated reg"]
    by (cases reg) (auto simp: register_def extends_def bt_get_def bt_insert_map map_le_def)
qed

lemma insert_all:
  assumes "algs_ok reg" "distinct (map alg_id algs)"
    and "\<forall>a \<in> set algs. map_of (algorithms reg) (alg_id a) = None"
  shows "extends reg \<lparr>algorithms = fold (\<lambda>a. bt_insert (alg_id a) a) algs (algorithms reg), populated = True\<rparr>"
  using assms
proof (induction algs arbitrary: reg)
  case Nil
  then show ?case by (simp add: extends_def algs_ok_def)
next
  case (Cons a algs)
  let ?r = "\<lparr>algorithms = bt_insert (alg_id a) a (algorithms reg), populated = True\<rparr>"
  have m: "map_of (algorithms ?r) = (map_of (algorithms reg))(alg_id a \<mapsto> a)"
    using Cons.prems(1) by (simp add: algs_ok_def bt_insert_map)
  have "extends reg ?r"
    using Cons.prems m algs_ok_insert [of reg a True] by (auto simp: extends_def map_le_def)
  moreover have "\<forall>b \<in> set algs. map_of (algorithms ?r) (alg_id b) = None"
    using Cons.prems(2,3) m by (force simp: image_iff)
  then have "extends ?r \<lparr>algorithms = fold (\<lambda>a. bt_insert (alg_id a) a) algs (algorithms ?r), populated = True\<rparr>"
    using Cons.prems(2) \<open>extends reg ?r\<close> by (intro Cons.IH) (auto simp: extends_def)
  ultimately show ?case using extends_trans by fastforce
qed

lemma collect_ids_Ok: "collect_ids ids algs = Ok js \<Longrightarrow> distinct ids \<Longrightarrow> js = ids @ map alg_id algs \<and> distinct js"
proof (induction algs arbitrary: ids)
  case (Cons a algs)
  then have "alg_id a \<notin> set ids" "collect_ids (ids @ [alg_id a]) algs = Ok js" by (auto split: if_splits)
  moreover from this have "distinct (ids @ [alg_id a])" using Cons.prems(2) by simp
  ultimately have "js = (ids @ [alg_id a]) @ map alg_id algs \<and> distinct js" by (intro Cons.IH)
  then show ?case by (metis append.assoc append_Cons append_Nil list.map(2))
qed simp

lemma populate_extends: "algs_ok reg \<Longrightarrow> extends reg (snd (populate algs reg))"
proof -
  assume ok: "algs_ok reg"
  show ?thesis
  proof (cases "collect_ids [] algs")
    case (Ok ids)
    then have ids: "ids = map alg_id algs" "distinct (map alg_id algs)" using collect_ids_Ok by fastforce+
    then show ?thesis
      using ok insert_all [OF ok ids(2)] Ok
      by (auto simp: populate_def bt_get_def find_None_iff split: option.splits)
  qed (use ok in \<open>auto simp: populate_def\<close>)
qed

lemma bootstrap_locked_extends: "algs_ok reg \<Longrightarrow> extends reg (snd (bootstrap_locked algs reg))"
  using populate_extends [of reg algs] by (auto simp: bootstrap_locked_def Let_def split_beta)

lemma register_all_extends: "algs_ok reg \<Longrightarrow> extends reg (snd (register_all algs reg))"
proof (induction algs arbitrary: reg)
  case (Cons a algs)
  note r = register_extends [OF Cons.prems, of a]
  then have "algs_ok (snd (register a reg))" by (simp add: extends_def)
  then have "extends reg (snd (register_all algs (snd (register a reg))))"
    using Cons.IH r extends_trans by blast
  with r show ?case
    by (auto split: prod.splits outcome.splits AlgorithmRegistryError.splits)
qed auto

lemma bootstrap_additional_extends: "algs_ok reg \<Longrightarrow> extends reg (snd (bootstrap_additional algs reg))"
  by (simp add: bootstrap_additional_def bootstrap_locked_extends register_all_extends)

lemma shared_registry_extends: "algs_ok reg \<Longrightarrow> extends reg (snd (shared_registry uuid_v5 D reg))"
  by (auto simp: shared_registry_def install_def bootstrap_additional_extends)

lemma verify_dispatch_extends: "algs_ok reg \<Longrightarrow> extends reg (snd (verify_dispatch uuid_v5 D i k m s reg))"
  using shared_registry_extends [of reg uuid_v5 D]
  by (auto simp: verify_dispatch_def split: prod.splits outcome.splits)

datatype registry_op =
    CallRegister sig_alg
  | CallBootstrap "sig_alg list"
  | CallAdditional "sig_alg list"
  | CallVerify "u8 list" "u8 list" "u8 list" "u8 list"

fun registry_call :: "(u8 list \<Rightarrow> u8 list \<Rightarrow> u8 list) \<Rightarrow> dalek \<Rightarrow> registry_op \<Rightarrow> algorithm_registry \<Rightarrow> algorithm_registry" where
  "registry_call U D (CallRegister a) reg = snd (register a reg)"
| "registry_call U D (CallBootstrap as) reg = snd (bootstrap as reg)"
| "registry_call U D (CallAdditional as) reg = snd (bootstrap_additional as reg)"
| "registry_call U D (CallVerify i k m s) reg = snd (verify_dispatch U D i k m s reg)"

lemma registry_call_extends: "algs_ok reg \<Longrightarrow> extends reg (registry_call U D c reg)"
  by (cases c)
    (simp_all add: register_extends bootstrap_def bootstrap_locked_extends bootstrap_additional_extends verify_dispatch_extends)

lemma registry_run_extends: "algs_ok reg \<Longrightarrow> extends reg (fold (registry_call U D) cs reg)"
proof (induction cs arbitrary: reg)
  case (Cons c cs)
  have "extends reg (registry_call U D c reg)" using Cons.prems by (rule registry_call_extends)
  then show ?case using Cons.IH extends_trans by (fastforce simp: extends_def)
qed auto

lemma verify_dispatch_populated:
  "populated reg \<Longrightarrow> verify_dispatch U D i k m s reg =
     (case map_of (algorithms reg) i of Some a \<Rightarrow> map_err Signature (alg_verify a k m s)
      | None \<Rightarrow> Err (Unknown (UnknownAlgorithm i)), reg)"
  by (auto simp: verify_dispatch_def shared_registry_def registry_get_def bt_get_def split: option.splits)

lemma install_unpopulated:
  assumes "\<not> populated reg"
  shows "install U D reg =
    (if map_of (algorithms reg) (ed25519_algorithm_id U) = None
     then (Ok (), \<lparr>algorithms = bt_insert (ed25519_algorithm_id U) (Ed25519Algorithm U D) (algorithms reg), populated = True\<rparr>)
     else (Err (Registry (AlreadyRegistered (ed25519_algorithm_id U))), reg))"
  using assms
  by (simp add: install_def bootstrap_additional_def bootstrap_locked_def populate_def bt_get_def Ed25519Algorithm_def)

subsection \<open>Properties\<close>

text \<open>No sequence of registrations, bootstraps and verifications replaces an algorithm: the algorithm
  found under an identifier claims that identifier, and once a lookup has found it every later lookup
  finds the same one, whatever was installed in between.\<close>

theorem registry_never_replaces:
  assumes "algs_ok reg" "registry_get reg i = Ok a"
  shows "alg_id a = i \<and> registry_get (fold (registry_call U D) cs reg) i = Ok a"
proof -
  have "alg_id a = i"
    using assms by (auto simp: algs_ok_def registry_get_def bt_get_def split: if_splits option.splits)
  then show ?thesis using assms registry_run_extends extends_get by blast
qed

definition accept_all :: dalek where
  "accept_all = \<lparr>from_bytes_ok = \<lambda>_. True, verify_strict = \<lambda>_ _ _. True\<rparr>"

theorem registry_never_replaces_witness:
  "registry_get (fold (registry_call (\<lambda>_ n. n) accept_all)
      [CallRegister (Ed25519Algorithm (\<lambda>_ n. n) accept_all \<lparr>alg_name := ''other''\<rparr>), CallAdditional [], CallVerify [] [] [] []]
      \<lparr>algorithms = [(ed25519_algorithm_id (\<lambda>_ n. n), Ed25519Algorithm (\<lambda>_ n. n) accept_all)], populated = True\<rparr>)
    (ed25519_algorithm_id (\<lambda>_ n. n)) = Ok (Ed25519Algorithm (\<lambda>_ n. n) accept_all)"
  using registry_never_replaces [of "\<lparr>algorithms = [(ed25519_algorithm_id (\<lambda>_ n. n), Ed25519Algorithm (\<lambda>_ n. n) accept_all)],
      populated = True\<rparr>" "ed25519_algorithm_id (\<lambda>_ n. n)" "Ed25519Algorithm (\<lambda>_ n. n) accept_all" "\<lambda>_ n. n" accept_all
      "[CallRegister (Ed25519Algorithm (\<lambda>_ n. n) accept_all \<lparr>alg_name := ''other''\<rparr>), CallAdditional [], CallVerify [] [] [] []]"]
  by (simp add: algs_ok_def registry_get_def bt_get_def bt_ok_def Ed25519Algorithm_def del: fold.simps)



end
