(* ===== verification/Receipts.thy ===== *)
theory Receipts
  imports SigAlgs
begin

text \<open>
  The settlement substrate (\<open>octo-settlement-core/src\<close>): the canonical ask, reservation and receipt, the
  state tables, and the receipt chain of \<open>chain.rs\<close> with its two verifiers. BLAKE3, plain and keyed, is a
  parameter; the registry of signature algorithms is the state of \<open>SigAlgs\<close>. The locale \<open>life_cycle\<close> is
  the contract of a table of transitions, interpreted here and for the tables of the settlement engine.
\<close>

subsection \<open>Tables of transitions\<close>

locale life_cycle =
  fixes edge :: "'s \<Rightarrow> 's \<Rightarrow> bool" and start :: 's and final :: "'s \<Rightarrow> bool"
  assumes final_stuck: "final s \<Longrightarrow> \<not> edge s t"
    and not_final_step: "\<not> final s \<Longrightarrow> \<exists>t. edge s t"
    and no_return: "\<not> edge s start"
begin

lemma final_iff: "final s \<longleftrightarrow> (\<forall>t. \<not> edge s t)"
  using final_stuck not_final_step by blast

lemma final_absorbing: "edge\<^sup>*\<^sup>* s t \<Longrightarrow> final s \<Longrightarrow> t = s"
  by (induction rule: rtranclp_induct) (auto dest: final_stuck)

lemma start_left: "edge\<^sup>+\<^sup>+ s t \<Longrightarrow> t \<noteq> start"
  by (induction rule: tranclp_induct) (auto simp: no_return)

lemma never_back: "edge\<^sup>*\<^sup>* start s \<Longrightarrow> s \<noteq> start \<Longrightarrow> edge\<^sup>*\<^sup>* s t \<Longrightarrow> t \<noteq> start"
  by (metis start_left rtranclpD)

end

locale bounded_life_cycle = life_cycle +
  fixes rank :: "'s \<Rightarrow> nat"
  assumes rank_step: "edge s t \<Longrightarrow> rank t < rank s"
begin

lemma run_length: "(edge ^^ n) s t \<Longrightarrow> n + rank t \<le> rank s"
proof (induction n arbitrary: t)
  case (Suc n)
  then obtain u where "(edge ^^ n) s u" "edge u t" by auto
  then show ?case using Suc.IH [of u] rank_step [of u t] by simp
qed simp

lemma reaches_final: "\<exists>t. edge\<^sup>*\<^sup>* s t \<and> final t"
proof (induction "rank s" arbitrary: s rule: less_induct)
  case less
  show ?case
  proof (cases "final s")
    case False
    then obtain u where u: "edge s u" using not_final_step by blast
    then show ?thesis using less [of u] rank_step by (meson converse_rtranclp_into_rtranclp)
  qed blast
qed

end

subsection \<open>Asks and reservations\<close>

datatype CoreAskState = CoreMinted | CoreSettled | CoreConsumed

record core_ask =
  ca_ask_id :: "u8 list"
  ca_issuer :: string
  ca_counterparty :: string
  ca_amount_bps :: u64
  ca_state :: CoreAskState
  ca_minted_at_unix :: u64

fun core_as_sql :: "CoreAskState \<Rightarrow> int" where
  "core_as_sql CoreMinted = 0"
| "core_as_sql CoreSettled = 1"
| "core_as_sql CoreConsumed = 2"

definition core_from_sql :: "int \<Rightarrow> CoreAskState option" where
  "core_from_sql v =
     (if v = 0 then Some CoreMinted else if v = 1 then Some CoreSettled
      else if v = 2 then Some CoreConsumed else None)"

datatype CoreReservationState = Pending | Active | Redeemed | Released | Expired | Cancelled | Denied | Settling

record core_reservation =
  cr_reservation_id :: "u8 list"
  cr_reserver :: string
  cr_amount_bps :: u64
  cr_state :: CoreReservationState
  cr_minted_at_unix :: u64
  cr_expires_at_unix :: u64

definition core_is_terminal :: "CoreReservationState \<Rightarrow> bool" where
  "core_is_terminal s \<longleftrightarrow> s \<in> {Redeemed, Released, Expired, Cancelled, Denied}"

definition can_transition_to :: "CoreReservationState \<Rightarrow> CoreReservationState \<Rightarrow> bool" where
  "can_transition_to s t \<longleftrightarrow> (s, t) \<in> {(Pending, Active), (Pending, Cancelled), (Pending, Denied), (Pending, Expired),
     (Active, Redeemed), (Active, Released), (Active, Expired), (Settling, Redeemed)}"

fun core_rank :: "CoreReservationState \<Rightarrow> nat" where
  "core_rank Pending = 2"
| "core_rank Active = 1"
| "core_rank Settling = 1"
| "core_rank _ = 0"

interpretation core_cycle: bounded_life_cycle can_transition_to Pending core_is_terminal core_rank
proof
  show "core_is_terminal s \<Longrightarrow> \<not> can_transition_to s t" for s t
    by (auto simp: core_is_terminal_def can_transition_to_def)
  show "\<not> core_is_terminal s \<Longrightarrow> \<exists>t. can_transition_to s t" for s
    by (cases s) (auto simp: core_is_terminal_def can_transition_to_def)
  show "\<not> can_transition_to s Pending" for s by (simp add: can_transition_to_def)
  show "can_transition_to s t \<Longrightarrow> core_rank t < core_rank s" for s t
    by (auto simp: can_transition_to_def)
qed

lemma no_settling: "can_transition_to\<^sup>*\<^sup>* s t \<Longrightarrow> s \<noteq> Settling \<Longrightarrow> t \<noteq> Settling"
  by (induction rule: rtranclp_induct) (auto simp: can_transition_to_def)

subsection \<open>Receipts\<close>

datatype ReceiptStatus = StUnknown | StOk | StPartial | StReject

record receipt =
  receipt_id :: u64
  rc_ask_id :: "u8 list"
  settlement_hash :: "u8 list"
  router_id :: string
  router_sig :: "u8 list"
  timestamp_unix :: u64
  rc_model :: string
  cost_dqa :: u64
  capability_root :: "u8 list"
  subject_did :: string
  rc_status :: ReceiptStatus

datatype CoreSettlementError =
    CoreAskNotFound "u8 list"
  | CoreAlreadyConsumed "u8 list"
  | CoreInvalidTransition string string
  | SequenceGap u64 u64
  | ChainIntegrity u64
  | AlreadyExists u64
  | RouterSignatureInvalid u64
  | SinkSpecific string

definition CHAIN_DOMAIN_SEPARATOR :: "u8 list" where
  "CHAIN_DOMAIN_SEPARATOR = ascii_bytes ''cipherocto/reservation/v1/''"

definition receipt_id_for :: "(u8 list \<Rightarrow> u8 list \<Rightarrow> u8 list) \<Rightarrow> receipt \<Rightarrow> u8 list" where
  "receipt_id_for keyed_blake3 r =
     keyed_blake3 (replicate 32 0)
       (CHAIN_DOMAIN_SEPARATOR @ be_bytes 8 (uint (receipt_id r)) @ rc_ask_id r @ ascii_bytes (router_id r)
        @ router_sig r @ be_bytes 8 (uint (timestamp_unix r)))"

fun verify_chain_from :: "(u8 list \<Rightarrow> u8 list \<Rightarrow> u8 list) \<Rightarrow> u64 option \<Rightarrow> receipt list \<Rightarrow> (unit, CoreSettlementError) outcome" where
  "verify_chain_from K last_receipt_id [] = Ok ()"
| "verify_chain_from K last_receipt_id (r # rs) =
     (let check = (if settlement_hash r \<noteq> receipt_id_for K r then Err (ChainIntegrity (receipt_id r))
                   else verify_chain_from K (Some (receipt_id r)) rs) in
      case last_receipt_id of
        Some prev \<Rightarrow> if receipt_id r \<noteq> prev + 1 then Err (SequenceGap (receipt_id r) prev) else check
      | None \<Rightarrow> check)"

definition verify_receipt_chain :: "(u8 list \<Rightarrow> u8 list \<Rightarrow> u8 list) \<Rightarrow> receipt list \<Rightarrow> (unit, CoreSettlementError) outcome" where
  "verify_receipt_chain K rs = verify_chain_from K None rs"

definition ROUTER_SIG_DOMAIN_SEPARATOR :: "u8 list" where
  "ROUTER_SIG_DOMAIN_SEPARATOR = ascii_bytes ''cipherocto/settlement/router-sig/v1''"

definition router_signature_preimage :: "receipt \<Rightarrow> u8 list" where
  "router_signature_preimage r =
     ROUTER_SIG_DOMAIN_SEPARATOR @ be_bytes 8 (uint (receipt_id r)) @ rc_ask_id r
     @ be_bytes 4 (int (length (ascii_bytes (router_id r)))) @ ascii_bytes (router_id r)
     @ be_bytes 8 (uint (timestamp_unix r))"

definition router_signature_digest :: "(u8 list \<Rightarrow> u8 list) \<Rightarrow> receipt \<Rightarrow> u8 list" where
  "router_signature_digest blake3 r = blake3 (router_signature_preimage r)"

record router_key_resolver =
  router_key :: "string \<Rightarrow> u8 list option"
  router_algorithm_id :: "string \<Rightarrow> u8 list"

fun verify_signatures ::
    "(u8 list \<Rightarrow> u8 list \<Rightarrow> u8 list) \<Rightarrow> dalek \<Rightarrow> (u8 list \<Rightarrow> u8 list) \<Rightarrow> router_key_resolver \<Rightarrow> receipt list \<Rightarrow>
     algorithm_registry \<Rightarrow> (unit, CoreSettlementError) outcome \<times> algorithm_registry" where
  "verify_signatures U D B keys [] reg = (Ok (), reg)"
| "verify_signatures U D B keys (r # rs) reg =
     (case router_key keys (router_id r) of
        None \<Rightarrow> (Err (RouterSignatureInvalid (receipt_id r)), reg)
      | Some key \<Rightarrow>
          (case verify_dispatch U D (router_algorithm_id keys (router_id r)) key (router_signature_digest B r) (router_sig r) reg of
             (Ok _, reg') \<Rightarrow> verify_signatures U D B keys rs reg'
           | (Err _, reg') \<Rightarrow> (Err (RouterSignatureInvalid (receipt_id r)), reg')
           | (Panic, reg') \<Rightarrow> (Panic, reg')))"

definition verify_receipt_chain_authenticated ::
    "(u8 list \<Rightarrow> u8 list \<Rightarrow> u8 list) \<Rightarrow> dalek \<Rightarrow> (u8 list \<Rightarrow> u8 list) \<Rightarrow> (u8 list \<Rightarrow> u8 list \<Rightarrow> u8 list) \<Rightarrow> router_key_resolver \<Rightarrow>
     receipt list \<Rightarrow> algorithm_registry \<Rightarrow> (unit, CoreSettlementError) outcome \<times> algorithm_registry" where
  "verify_receipt_chain_authenticated U D B K keys rs reg =
     (case verify_receipt_chain K rs of
        Ok _ \<Rightarrow> verify_signatures U D B keys rs reg
      | e \<Rightarrow> (e, reg))"

subsection \<open>Chains\<close>

text \<open>The verdict on one receipt after the receipt with the given identifier.\<close>

definition link_error :: "(u8 list \<Rightarrow> u8 list \<Rightarrow> u8 list) \<Rightarrow> u64 option \<Rightarrow> receipt \<Rightarrow> CoreSettlementError option" where
  "link_error K prev r =
     (if prev \<noteq> None \<and> receipt_id r \<noteq> the prev + 1 then Some (SequenceGap (receipt_id r) (the prev))
      else if settlement_hash r \<noteq> receipt_id_for K r then Some (ChainIntegrity (receipt_id r))
      else None)"

definition prev_id :: "u64 option \<Rightarrow> receipt list \<Rightarrow> u64 option" where
  "prev_id p rs = (if rs = [] then p else Some (receipt_id (last rs)))"

lemma verify_chain_from_step:
  "verify_chain_from K p (r # rs) =
     (case link_error K p r of Some e \<Rightarrow> Err e | None \<Rightarrow> verify_chain_from K (Some (receipt_id r)) rs)"
  by (cases p) (auto simp: link_error_def Let_def)

lemma verify_chain_append:
  "verify_chain_from K p (xs @ ys) = bind_ok (verify_chain_from K p xs) (\<lambda>_. verify_chain_from K (prev_id p xs) ys)"
  by (induction xs arbitrary: p)
    (auto simp: verify_chain_from_step prev_id_def simp del: verify_chain_from.simps(2) split: option.splits)

lemma verify_chain_snoc:
  "verify_receipt_chain K (rs @ [r]) = Ok () \<longleftrightarrow>
     verify_receipt_chain K rs = Ok () \<and> link_error K (prev_id None rs) r = None"
  by (auto simp: verify_receipt_chain_def verify_chain_append verify_chain_from_step
      simp del: verify_chain_from.simps(2) split: option.splits)

lemma verify_chain_Ok:
  "verify_receipt_chain K rs = Ok () \<longleftrightarrow>
     (\<forall>r \<in> set rs. settlement_hash r = receipt_id_for K r) \<and> successively (\<lambda>r s. receipt_id s = receipt_id r + 1) rs"
proof (induction rs rule: rev_induct)
  case Nil
  then show ?case by (simp add: verify_receipt_chain_def)
next
  case (snoc r rs)
  then show ?case
    by (auto simp: verify_chain_snoc link_error_def prev_id_def successively_append_iff split: if_splits)
qed

lemma verify_chain_Err:
  "verify_chain_from K p rs = Err e \<longleftrightarrow>
     (\<exists>n < length rs. verify_chain_from K p (take n rs) = Ok () \<and> link_error K (prev_id p (take n rs)) (rs ! n) = Some e)"
  (is "_ \<longleftrightarrow> (\<exists>n < length rs. ?bad p rs n)")
proof (induction rs arbitrary: p)
  case (Cons r rs)
  have "(\<exists>n < length (r # rs). ?bad p (r # rs) n) \<longleftrightarrow> ?bad p (r # rs) 0 \<or> (\<exists>n < length rs. ?bad p (r # rs) (Suc n))"
    by (auto simp: less_Suc_eq_0_disj)
  also have "?bad p (r # rs) 0 \<longleftrightarrow> link_error K p r = Some e" by (simp add: prev_id_def)
  also have "?bad p (r # rs) (Suc n) \<longleftrightarrow> link_error K p r = None \<and> ?bad (Some (receipt_id r)) rs n" if "n < length rs" for n
    using that by (auto simp: verify_chain_from_step prev_id_def simp del: verify_chain_from.simps(2) split: option.splits)
  then have "(\<exists>n < length rs. ?bad p (r # rs) (Suc n)) \<longleftrightarrow>
      link_error K p r = None \<and> verify_chain_from K (Some (receipt_id r)) rs = Err e"
    unfolding Cons.IH by blast
  finally show ?case
    by (auto simp: verify_chain_from_step simp del: verify_chain_from.simps(2) split: option.splits)
qed simp

lemma verify_chain_no_panic: "verify_chain_from K p rs \<noteq> Panic"
  by (induction rs arbitrary: p)
    (auto simp: verify_chain_from_step simp del: verify_chain_from.simps(2) split: option.splits)

lemma ascii_bytes_inj: "ascii_bytes s = ascii_bytes t \<longleftrightarrow> s = t"
proof
  assume "ascii_bytes s = ascii_bytes t"
  moreover have "inj (\<lambda>c. of_nat (of_char c) :: u8)"
  proof (rule injI)
    fix c d :: char assume "(of_nat (of_char c) :: u8) = of_nat (of_char d)"
    then have "unat (of_nat (of_char c) :: u8) = unat (of_nat (of_char d) :: u8)" by simp
    then show "c = d" by (simp add: unat_of_nat)
  qed
  ultimately show "s = t" by (simp add: ascii_bytes_def)
qed simp

lemma length_ascii_bytes [simp]: "length (ascii_bytes s) = length s"
  by (simp add: ascii_bytes_def)

lemma be_bytes_uint_inj: "be_bytes 8 (uint (x :: u64)) = be_bytes 8 (uint y) \<longleftrightarrow> x = y"
  using uint_bounded [of x] uint_bounded [of y] by (simp add: be_bytes_eq_iff flip: word_uint_eq_iff)

lemma preimage_fields:
  assumes "length (rc_ask_id r) = length (rc_ask_id s)"
  shows "router_signature_preimage r = router_signature_preimage s \<longleftrightarrow>
    receipt_id r = receipt_id s \<and> rc_ask_id r = rc_ask_id s \<and> router_id r = router_id s \<and> timestamp_unix r = timestamp_unix s"
proof
  assume eq: "router_signature_preimage r = router_signature_preimage s"
  have "length (router_id r) = length (router_id s)"
    using arg_cong [OF eq, of length] assms by (simp add: router_signature_preimage_def)
  then show "receipt_id r = receipt_id s \<and> rc_ask_id r = rc_ask_id s \<and> router_id r = router_id s \<and> timestamp_unix r = timestamp_unix s"
    using eq assms by (simp add: router_signature_preimage_def be_bytes_uint_inj ascii_bytes_inj)
qed (simp add: router_signature_preimage_def)

lemma verify_signatures_Ok:
  assumes "algs_ok reg" "populated reg"
  shows "verify_signatures U D B keys rs reg = (Ok (), reg) \<longleftrightarrow>
    (\<forall>r \<in> set rs. \<exists>key a. router_key keys (router_id r) = Some key
       \<and> map_of (algorithms reg) (router_algorithm_id keys (router_id r)) = Some a
       \<and> alg_verify a key (router_signature_digest B r) (router_sig r) = Ok ())"
proof (induction rs)
  case (Cons r rs)
  then show ?case
    using verify_dispatch_populated [OF assms(2)] by (auto split: option.splits outcome.splits)
qed simp

subsection \<open>Properties\<close>

text \<open>C16: The integrity check accepts a list of receipts exactly when every receipt carries the hash of its
  fields and the identifiers are consecutive modulo 2 to the 64; otherwise the error is that of the first
  receipt that breaks the chain, a gap being reported before a wrong hash. It never panics.\<close>

theorem receipt_chain_correct:
  "(verify_receipt_chain K rs = Ok () \<longleftrightarrow>
      (\<forall>r \<in> set rs. settlement_hash r = receipt_id_for K r)
      \<and> (\<forall>n. Suc n < length rs \<longrightarrow> receipt_id (rs ! Suc n) = receipt_id (rs ! n) + 1))
   \<and> (verify_receipt_chain K rs = Err e \<longleftrightarrow>
      (\<exists>n < length rs. verify_receipt_chain K (take n rs) = Ok () \<and>
         (if n > 0 \<and> receipt_id (rs ! n) \<noteq> receipt_id (rs ! (n - 1)) + 1
          then e = SequenceGap (receipt_id (rs ! n)) (receipt_id (rs ! (n - 1)))
          else settlement_hash (rs ! n) \<noteq> receipt_id_for K (rs ! n) \<and> e = ChainIntegrity (receipt_id (rs ! n)))))
   \<and> verify_receipt_chain K rs \<noteq> Panic"
proof (intro conjI)
  show "verify_receipt_chain K rs = Ok () \<longleftrightarrow>
      (\<forall>r \<in> set rs. settlement_hash r = receipt_id_for K r)
      \<and> (\<forall>n. Suc n < length rs \<longrightarrow> receipt_id (rs ! Suc n) = receipt_id (rs ! n) + 1)"
    by (simp add: verify_chain_Ok successively_conv_nth)
  have "link_error K (prev_id None (take n rs)) (rs ! n) = Some e \<longleftrightarrow>
      (if n > 0 \<and> receipt_id (rs ! n) \<noteq> receipt_id (rs ! (n - 1)) + 1
       then e = SequenceGap (receipt_id (rs ! n)) (receipt_id (rs ! (n - 1)))
       else settlement_hash (rs ! n) \<noteq> receipt_id_for K (rs ! n) \<and> e = ChainIntegrity (receipt_id (rs ! n)))"
    if "n < length rs" for n
    using that by (cases n) (auto simp: link_error_def prev_id_def last_conv_nth min_def)
  then show "verify_receipt_chain K rs = Err e \<longleftrightarrow>
      (\<exists>n < length rs. verify_receipt_chain K (take n rs) = Ok () \<and>
         (if n > 0 \<and> receipt_id (rs ! n) \<noteq> receipt_id (rs ! (n - 1)) + 1
          then e = SequenceGap (receipt_id (rs ! n)) (receipt_id (rs ! (n - 1)))
          else settlement_hash (rs ! n) \<noteq> receipt_id_for K (rs ! n) \<and> e = ChainIntegrity (receipt_id (rs ! n))))"
    unfolding verify_receipt_chain_def verify_chain_Err by blast
qed (simp add: verify_receipt_chain_def verify_chain_no_panic)

definition sample_receipt :: "u64 \<Rightarrow> receipt" where
  "sample_receipt n =
     \<lparr>receipt_id = n, rc_ask_id = replicate 32 1, settlement_hash = [0], router_id = ''r'', router_sig = [2],
      timestamp_unix = 5, rc_model = [], cost_dqa = 0, capability_root = [], subject_did = [], rc_status = StUnknown\<rparr>"

theorem receipt_chain_witness:
  "verify_receipt_chain (\<lambda>_ _. [0]) [sample_receipt 7, sample_receipt 8] = Ok ()
   \<and> verify_receipt_chain (\<lambda>_ _. [0]) [sample_receipt 7, sample_receipt 9] = Err (SequenceGap 9 7)"
  using receipt_chain_correct [of "\<lambda>_ _. [0]" "[sample_receipt 7, sample_receipt 8]"]
    receipt_chain_correct [of "\<lambda>_ _. [0]" "[sample_receipt 7, sample_receipt 9]" "SequenceGap 9 7"]
  by (auto simp: sample_receipt_def receipt_id_for_def less_Suc_eq verify_receipt_chain_def)

text \<open>On a populated registry the authenticated check accepts a chain exactly when the integrity check
  accepts it and every receipt names a router with a key under which the algorithm registered for that
  router accepts the signature over the digest of the receipt; the registry is unchanged.\<close>

theorem receipt_chain_authenticated:
  assumes "algs_ok reg" "populated reg"
  shows "verify_receipt_chain_authenticated U D B K keys rs reg = (Ok (), reg) \<longleftrightarrow>
    verify_receipt_chain K rs = Ok () \<and>
    (\<forall>r \<in> set rs. \<exists>key a. router_key keys (router_id r) = Some key
       \<and> map_of (algorithms reg) (router_algorithm_id keys (router_id r)) = Some a
       \<and> alg_verify a key (B (router_signature_preimage r)) (router_sig r) = Ok ())"
  using verify_signatures_Ok [OF assms, of U D B keys rs]
  by (auto simp: verify_receipt_chain_authenticated_def router_signature_digest_def split: outcome.splits)

theorem receipt_chain_authenticated_witness:
  "verify_receipt_chain_authenticated (\<lambda>_ n. n) accept_all (\<lambda>b. b) (\<lambda>_ _. [0])
     \<lparr>router_key = \<lambda>_. Some (replicate 32 1), router_algorithm_id = \<lambda>_. [9]\<rparr> [sample_receipt 7]
     \<lparr>algorithms = [([9], \<lparr>alg_id = [9], alg_name = [], public_key_len = 0, signature_len = 0, zk_support = ZkNone,
        alg_verify = \<lambda>_ _ _. Ok ()\<rparr>)], populated = True\<rparr>
   = (Ok (), \<lparr>algorithms = [([9], \<lparr>alg_id = [9], alg_name = [], public_key_len = 0, signature_len = 0, zk_support = ZkNone,
        alg_verify = \<lambda>_ _ _. Ok ()\<rparr>)], populated = True\<rparr>)"
  by (subst receipt_chain_authenticated)
    (simp_all add: algs_ok_def bt_ok_def sample_receipt_def verify_receipt_chain_def receipt_id_for_def Let_def)

text \<open>What the two hashes of a receipt cover. The router's signature separates all receipts that differ
  in the identifier, the ask, the router or the time. The chain hash does not separate the router's
  name from the signature bytes: moving the end of the name to the front of the signature gives another
  receipt with the same hash, for every hash function, and the integrity check accepts it in place of
  the first. Neither covers the model, the cost, the capability, the subject or the status.\<close>

theorem receipt_hash_coverage:
  "(length (rc_ask_id r) = 32 \<and> length (rc_ask_id s) = 32 \<longrightarrow>
     (router_signature_preimage r = router_signature_preimage s \<longleftrightarrow>
        receipt_id r = receipt_id s \<and> rc_ask_id r = rc_ask_id s \<and> router_id r = router_id s
        \<and> timestamp_unix r = timestamp_unix s))
   \<and> receipt_id_for K (r\<lparr>router_id := a @ b, router_sig := t\<rparr>) = receipt_id_for K (r\<lparr>router_id := a, router_sig := ascii_bytes b @ t\<rparr>)
   \<and> verify_receipt_chain K (xs @ [r\<lparr>router_id := a @ b, router_sig := t\<rparr>]) =
     verify_receipt_chain K (xs @ [r\<lparr>router_id := a, router_sig := ascii_bytes b @ t\<rparr>])
   \<and> receipt_id_for K (r\<lparr>rc_model := m, cost_dqa := c, capability_root := cap, subject_did := d, rc_status := st\<rparr>) = receipt_id_for K r
   \<and> router_signature_preimage (r\<lparr>rc_model := m, cost_dqa := c, capability_root := cap, subject_did := d, rc_status := st\<rparr>)
       = router_signature_preimage r"
proof (intro conjI)
  show hash: "receipt_id_for K (r\<lparr>router_id := a @ b, router_sig := t\<rparr>) = receipt_id_for K (r\<lparr>router_id := a, router_sig := ascii_bytes b @ t\<rparr>)"
    by (simp add: receipt_id_for_def ascii_bytes_def)
  show "verify_receipt_chain K (xs @ [r\<lparr>router_id := a @ b, router_sig := t\<rparr>]) =
     verify_receipt_chain K (xs @ [r\<lparr>router_id := a, router_sig := ascii_bytes b @ t\<rparr>])"
    by (simp add: verify_receipt_chain_def verify_chain_append verify_chain_from_step link_error_def hash
        del: verify_chain_from.simps(2))
qed (auto simp: receipt_id_for_def router_signature_preimage_def be_bytes_uint_inj ascii_bytes_inj preimage_fields)

theorem receipt_hash_coverage_witness:
  "router_signature_preimage (sample_receipt 7) \<noteq> router_signature_preimage (sample_receipt 7 \<lparr>router_id := [], router_sig := [114, 2]\<rparr>)"
  using receipt_hash_coverage [of "sample_receipt 7" "sample_receipt 7 \<lparr>router_id := [], router_sig := [114, 2]\<rparr>"]
  by (simp add: sample_receipt_def)

text \<open>The life cycle of a canonical reservation: the terminal states are exactly those without a
  successor, a run makes at most two transitions and can always be completed, no run returns to
  \<open>Pending\<close>, and no run from \<open>Pending\<close> ever enters \<open>Settling\<close>.\<close>

theorem core_reservation_life_cycle:
  "(core_is_terminal s \<longleftrightarrow> (\<forall>t. \<not> can_transition_to s t))
   \<and> ((can_transition_to ^^ n) s t \<longrightarrow> n \<le> 2)
   \<and> (\<exists>t. can_transition_to\<^sup>*\<^sup>* s t \<and> core_is_terminal t)
   \<and> (can_transition_to\<^sup>+\<^sup>+ s t \<longrightarrow> t \<noteq> Pending)
   \<and> (can_transition_to\<^sup>*\<^sup>* Pending t \<longrightarrow> t \<noteq> Settling)"
proof -
  have "core_rank s \<le> 2" by (cases s) simp_all
  then have "(can_transition_to ^^ n) s t \<longrightarrow> n \<le> 2" using core_cycle.run_length [of n s t] by fastforce
  then show ?thesis
    using core_cycle.final_iff [of s] core_cycle.reaches_final core_cycle.start_left no_settling by blast
qed

theorem core_reservation_witness:
  "\<not> (can_transition_to ^^ 3) Pending Redeemed \<and> \<not> can_transition_to\<^sup>*\<^sup>* Pending Settling"
  using core_reservation_life_cycle [of Pending 3 Redeemed] core_reservation_life_cycle [of Pending 0 Settling] by simp

end
