(* ===== verification/SettleStore.thy ===== *)
theory SettleStore
  imports Receipts Numerals "HOL-Library.Multiset"
begin

text \<open>
  The settlement engine of the quota router (\<open>quota-router-sm-engine/src\<close>: \<open>lib.rs\<close>, \<open>state_machine.rs\<close>,
  \<open>store.rs\<close>) with the error scrubber it uses (\<open>octo-settlement/src/scrub.rs\<close>). The embedded SQL engine,
  \<open>serde_json\<close>, the regular expressions of the scrubber, BLAKE3 and the clock are parameters. A statement the code issues is a
  value of \<open>stmt\<close>; \<open>engine_laws\<close> states what the code relies on: a statement that succeeds has the effect
  SQL gives it (\<open>run_stmt\<close>, with the constraints of the migrations), and a query returns the rows it
  selects, in any order. A method on \<open>&self\<close> behind the mutex takes and returns the database. The method
  \<open>settle\<close> locks twice, so it is the composition of \<open>settle_prepare\<close> and \<open>settle_commit\<close>, between which other
  calls may run.
\<close>

subsection \<open>The error scrubber\<close>

fun replace_str :: "string \<Rightarrow> string \<Rightarrow> string \<Rightarrow> string" where
  "replace_str pat to [] = []"
| "replace_str pat to (c # cs) =
     (if pat \<noteq> [] \<and> take (length pat) (c # cs) = pat
      then to @ replace_str pat to (drop (length pat - 1) cs)
      else c # replace_str pat to cs)"

record regexes =
  re_hex :: "string \<Rightarrow> string"
  re_path :: "string \<Rightarrow> string"
  re_table :: "string \<Rightarrow> string"
  re_sqlstate :: "string \<Rightarrow> string"
  re_io :: "string \<Rightarrow> string"
  re_url_creds :: "string \<Rightarrow> string"
  re_ansi :: "string \<Rightarrow> string"
  re_ipv4 :: "string \<Rightarrow> string"
  re_uuid :: "string \<Rightarrow> string"

definition REDACTED_TOO_LONG :: string where
  "REDACTED_TOO_LONG = ''<redacted-too-long>''"

definition is_char_boundary :: "string \<Rightarrow> nat \<Rightarrow> bool" where
  "is_char_boundary s i \<longleftrightarrow> i = 0 \<or> i = length s
     \<or> i < length s \<and> \<not> (128 \<le> (of_char (s ! i) :: nat) \<and> (of_char (s ! i) :: nat) < 192)"

fun boundary_before :: "string \<Rightarrow> nat \<Rightarrow> nat" where
  "boundary_before s 0 = 0"
| "boundary_before s (Suc n) = (if is_char_boundary s (Suc n) then Suc n else boundary_before s n)"

definition scrub_adapter_error_with :: "regexes \<Rightarrow> string \<Rightarrow> string list \<Rightarrow> (string, 'e) outcome" where
  "scrub_adapter_error_with R s adapter_types =
     (if adapter_types = [] \<and> s \<noteq> [] then Panic
      else if length s > 4096 then Ok REDACTED_TOO_LONG
      else let out = foldl (\<lambda>out ty. if ty = [] then out else replace_str ty ''<redacted-adapter>'' out) s adapter_types;
               out = re_sqlstate R (re_table R (re_path R (re_hex R out)));
               out = re_uuid R (re_ipv4 R (re_ansi R (re_url_creds R (re_io R out)))) in
        Ok (if length out > 4096 then take (boundary_before out 4096) out @ REDACTED_TOO_LONG else out))"

definition scrub_adapter_error :: "regexes \<Rightarrow> string \<Rightarrow> (string, 'e) outcome" where
  "scrub_adapter_error R s = scrub_adapter_error_with R s []"

definition ADAPTER_TYPES :: "string list" where
  "ADAPTER_TYPES = [''StoolapStore'', ''StoolapReceiptSink'']"

definition scrub :: "regexes \<Rightarrow> string \<Rightarrow> (string, 'e) outcome" where
  "scrub R e = scrub_adapter_error_with R e ADAPTER_TYPES"

subsection \<open>States, records and errors\<close>

datatype AskState = Minted | Settled | Consumed

fun as_sql :: "AskState \<Rightarrow> string" where
  "as_sql Minted = ''Minted''"
| "as_sql Settled = ''Settled''"
| "as_sql Consumed = ''Consumed''"

definition from_sql :: "string \<Rightarrow> AskState option" where
  "from_sql s =
     (if s = ''Minted'' then Some Minted else if s = ''Settled'' then Some Settled
      else if s = ''Consumed'' then Some Consumed else None)"

record ask =
  ask_id :: "u8 list"
  holder_did :: string
  axes_consumed :: "(string \<times> u64) list"
  cap_root_hash :: "u8 list"
  invocation_hash :: "u8 list"
  current_unix_time :: u64
  output_hash :: "u8 list option"

record settle_receipt =
  sr_receipt_id :: "u8 list"
  sr_ask_id :: "u8 list"
  sr_settlement_hash :: "u8 list"
  sr_router_id :: string
  sr_router_sig :: "u8 list"
  sr_timestamp_unix :: u64

datatype ReservationState = RReserved | RExecuting | RSettled | RAuditable | RReleased | RExpired | RCancelled | RFrozen

fun reservation_as_sql :: "ReservationState \<Rightarrow> string" where
  "reservation_as_sql RReserved = ''Reserved''"
| "reservation_as_sql RExecuting = ''Executing''"
| "reservation_as_sql RSettled = ''Settled''"
| "reservation_as_sql RAuditable = ''Auditable''"
| "reservation_as_sql RReleased = ''Released''"
| "reservation_as_sql RExpired = ''Expired''"
| "reservation_as_sql RCancelled = ''Cancelled''"
| "reservation_as_sql RFrozen = ''Frozen''"

record reservation =
  reservation_id :: "u8 list"
  vault_id :: "u8 list"
  capability_id :: "u8 list"
  rv_ask_id :: "u8 list"
  resource_axis :: string
  amount_micro :: u128
  expires_at_unix :: u64
  audit_window_secs :: u64
  rv_state :: ReservationState
  settlement_ref :: "u8 list option"
  created_at_unix :: u64

definition reservation_mint ::
    "(u8 list \<Rightarrow> u8 list) \<Rightarrow> u8 list \<Rightarrow> u8 list \<Rightarrow> u8 list \<Rightarrow> string \<Rightarrow> u128 \<Rightarrow> u64 \<Rightarrow> u64 \<Rightarrow> u64 \<Rightarrow> reservation" where
  "reservation_mint blake3 vault cap aid axis amount expires audit created =
     \<lparr>reservation_id = blake3 (ascii_bytes ''cipherocto/reservation/v1/'' @ vault @ cap @ aid @ ascii_bytes axis
        @ le_bytes 16 (uint amount) @ le_bytes 8 (uint expires) @ le_bytes 8 (uint audit) @ le_bytes 8 (uint created)),
      vault_id = vault, capability_id = cap, rv_ask_id = aid, resource_axis = axis, amount_micro = amount,
      expires_at_unix = expires, audit_window_secs = audit, rv_state = RReserved, settlement_ref = None,
      created_at_unix = created\<rparr>"

datatype StorageError = Stoolap string | Migration string | Decode string

datatype SettlementError =
    AskNotFound "u8 list"
  | AlreadyConsumed "u8 list"
  | InvalidTransition AskState AskState
  | ReservationNotFound string
  | ReservationExpired string
  | InvalidReservationTransition ReservationState ReservationState
  | SettlementHashMismatch "u8 list" "u8 list"
  | Storage StorageError

datatype StateTransitionError = InvalidAsk AskState AskState

datatype ReservationTransitionError = InvalidReservation ReservationState ReservationState

definition transition :: "AskState \<Rightarrow> AskState \<Rightarrow> (unit, StateTransitionError) outcome" where
  "transition from to =
     (if (from, to) \<in> {(Minted, Settled), (Settled, Consumed)} then Ok () else Err (InvalidAsk from to))"

definition transition_reservation :: "ReservationState \<Rightarrow> ReservationState \<Rightarrow> (unit, ReservationTransitionError) outcome" where
  "transition_reservation from to =
     (if (from, to) \<in> {(RReserved, RExecuting), (RReserved, RCancelled), (RReserved, RExpired),
          (RExecuting, RSettled), (RSettled, RAuditable), (RSettled, RFrozen), (RAuditable, RReleased),
          (RAuditable, RFrozen), (RFrozen, RReleased), (RFrozen, RSettled)}
      then Ok () else Err (InvalidReservation from to))"

subsection \<open>The database\<close>

record ask_row =
  ar_ask_id :: "u8 list"
  ar_holder_did :: string
  ar_axes_consumed :: "u8 list"
  ar_cap_root_hash :: "u8 list"
  ar_invocation_hash :: "u8 list"
  ar_current_unix_time :: int
  ar_output_hash :: "u8 list option"
  ar_settlement_hash :: "u8 list"
  ar_state :: string
  ar_created_at :: int
  ar_settled_at :: "int option"
  ar_consumed_at :: "int option"

record consumed_row =
  co_receipt_id :: "u8 list"
  co_ask_id :: "u8 list"
  co_consumed_at :: int

record receipt_row =
  rr_receipt_id :: int
  rr_ask_id :: "u8 list"
  rr_settlement_hash :: "u8 list"
  rr_router_id :: string
  rr_router_sig :: "u8 list"
  rr_timestamp_unix :: int

record tables =
  asks :: "ask_row list"
  consumed_receipt_index :: "consumed_row list"
  canonical_receipts :: "receipt_row list"

datatype stmt =
    InsertAsk ask_row
  | UpdateSettled "u8 list" int "u8 list"
  | InsertConsumed consumed_row
  | UpdateConsumed int "u8 list"
  | InsertReceipt receipt_row

datatype 'r fetched = Row 'r | RowFailed string | ColumnFailed string

record 'd engine =
  execute :: "stmt \<Rightarrow> 'd \<Rightarrow> ('d, string) outcome"
  select_consumed :: "u8 list \<Rightarrow> 'd \<Rightarrow> (u8 list fetched list, string) outcome"
  select_by_settlement :: "u8 list \<Rightarrow> 'd \<Rightarrow> (u8 list fetched list, string) outcome"
  select_ask :: "u8 list \<Rightarrow> 'd \<Rightarrow> (ask_row fetched list, string) outcome"
  select_max :: "'d \<Rightarrow> (int option fetched list, string) outcome"

record json =
  axes_to_vec :: "(string \<times> u64) list \<Rightarrow> (u8 list, string) outcome"
  axes_from_slice :: "u8 list \<Rightarrow> ((string \<times> u64) list, string) outcome"
  ask_to_vec :: "ask \<Rightarrow> (u8 list, string) outcome"
  receipt_to_vec :: "settle_receipt \<Rightarrow> (u8 list, string) outcome"

text \<open>What SQL gives the statements, with the UNIQUE and CHECK constraints of the migrations.\<close>

definition settle_row :: "u8 list \<Rightarrow> int \<Rightarrow> u8 list \<Rightarrow> ask_row \<Rightarrow> ask_row" where
  "settle_row h t i r =
     (if ar_ask_id r = i then r\<lparr>ar_state := ''Settled'', ar_settlement_hash := h, ar_settled_at := Some t\<rparr> else r)"

definition consume_row :: "int \<Rightarrow> u8 list \<Rightarrow> ask_row \<Rightarrow> ask_row" where
  "consume_row t i r =
     (if ar_ask_id r = i \<and> ar_state r = ''Settled'' then r\<lparr>ar_state := ''Consumed'', ar_consumed_at := Some t\<rparr> else r)"

fun run_stmt :: "stmt \<Rightarrow> tables \<Rightarrow> tables option" where
  "run_stmt (InsertAsk r) t =
     (if ar_ask_id r \<in> ar_ask_id ` set (asks t) \<or> from_sql (ar_state r) = None then None
      else Some (t\<lparr>asks := asks t @ [r]\<rparr>))"
| "run_stmt (UpdateSettled h ts i) t = Some (t\<lparr>asks := map (settle_row h ts i) (asks t)\<rparr>)"
| "run_stmt (InsertConsumed c) t =
     (if co_receipt_id c \<in> co_receipt_id ` set (consumed_receipt_index t) then None
      else Some (t\<lparr>consumed_receipt_index := consumed_receipt_index t @ [c]\<rparr>))"
| "run_stmt (UpdateConsumed ts i) t = Some (t\<lparr>asks := map (consume_row ts i) (asks t)\<rparr>)"
| "run_stmt (InsertReceipt r) t =
     (if rr_receipt_id r \<in> rr_receipt_id ` set (canonical_receipts t) then None
      else Some (t\<lparr>canonical_receipts := canonical_receipts t @ [r]\<rparr>))"

definition max_receipt :: "tables \<Rightarrow> int option" where
  "max_receipt t = (if canonical_receipts t = [] then None else Some (Max (rr_receipt_id ` set (canonical_receipts t))))"

definition selects :: "('r fetched list, string) outcome \<Rightarrow> 'r list \<Rightarrow> bool" where
  "selects q rs \<longleftrightarrow> (case q of Ok fs \<Rightarrow> mset fs = mset (map Row rs) | Err _ \<Rightarrow> True | Panic \<Rightarrow> False)"

definition engine_laws :: "'d engine \<Rightarrow> ('d \<Rightarrow> tables) \<Rightarrow> bool" where
  "engine_laws E tabs \<longleftrightarrow>
     (\<forall>s d. case execute E s d of Ok d' \<Rightarrow> run_stmt s (tabs d) = Some (tabs d') | Err _ \<Rightarrow> True | Panic \<Rightarrow> False)
     \<and> (\<forall>i d. selects (select_consumed E i d) (map co_ask_id (filter (\<lambda>c. co_receipt_id c = i) (consumed_receipt_index (tabs d)))))
     \<and> (\<forall>h d. selects (select_by_settlement E h d) (map ar_ask_id (filter (\<lambda>r. ar_settlement_hash r = h) (asks (tabs d)))))
     \<and> (\<forall>i d. selects (select_ask E i d) (filter (\<lambda>r. ar_ask_id r = i) (asks (tabs d))))
     \<and> (\<forall>d. selects (select_max E d) [max_receipt (tabs d)])"

text \<open>An engine without faults of its own: only a violated constraint makes a statement fail.\<close>

definition fault_free :: "'d engine \<Rightarrow> ('d \<Rightarrow> tables) \<Rightarrow> bool" where
  "fault_free E tabs \<longleftrightarrow>
     (\<forall>s d. run_stmt s (tabs d) \<noteq> None \<longrightarrow> (\<exists>d'. execute E s d = Ok d'))
     \<and> (\<forall>i d. \<exists>fs. select_consumed E i d = Ok fs) \<and> (\<forall>i d. \<exists>fs. select_by_settlement E i d = Ok fs)
     \<and> (\<forall>i d. \<exists>fs. select_ask E i d = Ok fs) \<and> (\<forall>d. \<exists>fs. select_max E d = Ok fs)"

text \<open>Serialization of the values at hand succeeds, and the axes come back from their bytes.\<close>

definition json_laws :: "json \<Rightarrow> ask \<Rightarrow> settle_receipt \<Rightarrow> bool" where
  "json_laws J a r \<longleftrightarrow> (\<exists>bs. axes_to_vec J (axes_consumed a) = Ok bs \<and> axes_from_slice J bs = Ok (axes_consumed a))
     \<and> (\<exists>bs. ask_to_vec J a = Ok bs) \<and> (\<exists>bs. receipt_to_vec J r = Ok bs)"

subsection \<open>The store\<close>

definition stoolap_error :: "regexes \<Rightarrow> string \<Rightarrow> ('a, SettlementError) outcome" where
  "stoolap_error R e = bind_ok (scrub R e) (\<lambda>m. Err (Storage (Stoolap m)))"

definition decode_error :: "regexes \<Rightarrow> string \<Rightarrow> ('a, SettlementError) outcome" where
  "decode_error R e = bind_ok (scrub R e) (\<lambda>m. Err (Storage (Decode m)))"

definition malformed :: "regexes \<Rightarrow> string \<Rightarrow> ('a, SettlementError) outcome" where
  "malformed R e = bind_ok (scrub_adapter_error R e) (\<lambda>m. Err (Storage (Decode m)))"

definition dec_string :: "nat \<Rightarrow> string" where
  "dec_string n = num_string 10 0 n"

definition or_else :: "('e \<Rightarrow> ('a, 'f) outcome) \<Rightarrow> ('a, 'e) outcome \<Rightarrow> ('a, 'f) outcome" where
  "or_else f m = (case m of Ok x \<Rightarrow> Ok x | Err e \<Rightarrow> f e | Panic \<Rightarrow> Panic)"

definition run_execute :: "'d engine \<Rightarrow> regexes \<Rightarrow> stmt \<Rightarrow> 'a \<Rightarrow> 'd \<Rightarrow> ('a, SettlementError) outcome \<times> 'd" where
  "run_execute E R s x d =
     (case execute E s d of Ok d' \<Rightarrow> (Ok x, d') | Err e \<Rightarrow> (stoolap_error R e, d) | Panic \<Rightarrow> (Panic, d))"

definition mint :: "'d engine \<Rightarrow> regexes \<Rightarrow> json \<Rightarrow> ask \<Rightarrow> 'd \<Rightarrow> (unit, SettlementError) outcome \<times> 'd" where
  "mint E R J a d =
     (case or_else (decode_error R) (axes_to_vec J (axes_consumed a)) of
        Ok axes_bytes \<Rightarrow>
          run_execute E R (InsertAsk
            \<lparr>ar_ask_id = ask_id a, ar_holder_did = holder_did a, ar_axes_consumed = axes_bytes,
             ar_cap_root_hash = cap_root_hash a, ar_invocation_hash = invocation_hash a,
             ar_current_unix_time = sint (current_unix_time a), ar_output_hash = output_hash a,
             ar_settlement_hash = replicate 32 0, ar_state = ''Minted'', ar_created_at = sint (current_unix_time a),
             ar_settled_at = None, ar_consumed_at = None\<rparr>) () d
      | Err e \<Rightarrow> (Err e, d)
      | Panic \<Rightarrow> (Panic, d))"

definition first_row :: "regexes \<Rightarrow> SettlementError \<Rightarrow> ('r fetched list, string) outcome \<Rightarrow> ('r, SettlementError) outcome" where
  "first_row R missing q =
     bind_ok (or_else (stoolap_error R) q) (\<lambda>fs. case fs of
        [] \<Rightarrow> Err missing
      | Row r # _ \<Rightarrow> Ok r
      | RowFailed e # _ \<Rightarrow> stoolap_error R e
      | ColumnFailed e # _ \<Rightarrow> decode_error R e)"

definition get :: "'d engine \<Rightarrow> regexes \<Rightarrow> json \<Rightarrow> u8 list \<Rightarrow> 'd \<Rightarrow> (ask \<times> AskState, SettlementError) outcome" where
  "get E R J i d =
     bind_ok (first_row R (AskNotFound i) (select_ask E i d)) (\<lambda>row.
     bind_ok (or_else (decode_error R) (axes_from_slice J (ar_axes_consumed row))) (\<lambda>axes.
       if length (ar_cap_root_hash row) \<noteq> 32 \<or> length (ar_invocation_hash row) \<noteq> 32
       then malformed R (''hash field wrong length: cap='' @ dec_string (length (ar_cap_root_hash row))
         @ '', inv='' @ dec_string (length (ar_invocation_hash row)))
       else if ar_output_hash row \<noteq> None \<and> length (the (ar_output_hash row)) \<noteq> 32
       then malformed R ''output_hash wrong length''
       else case from_sql (ar_state row) of
         None \<Rightarrow> malformed R (''unknown ask state: '' @ ar_state row)
       | Some st \<Rightarrow>
           Ok (\<lparr>ask_id = i, holder_did = ar_holder_did row, axes_consumed = axes, cap_root_hash = ar_cap_root_hash row,
                invocation_hash = ar_invocation_hash row, current_unix_time = word_of_int (ar_current_unix_time row),
                output_hash = ar_output_hash row\<rparr>, st)))"

definition settle_prepare ::
    "'d engine \<Rightarrow> regexes \<Rightarrow> json \<Rightarrow> (u8 list \<Rightarrow> u8 list) \<Rightarrow> u8 list \<Rightarrow> settle_receipt \<Rightarrow> 'd \<Rightarrow> (u8 list, SettlementError) outcome" where
  "settle_prepare E R J blake3 i r d =
     bind_ok (get E R J i d) (\<lambda>(a, st).
     bind_ok (or_else (decode_error R) (ask_to_vec J a)) (\<lambda>ask_bytes.
     bind_ok (or_else (decode_error R) (receipt_to_vec J r)) (\<lambda>receipt_bytes.
       if sr_ask_id r \<noteq> i then Err (SettlementHashMismatch i (sr_ask_id r))
       else if st \<noteq> Minted then Err (InvalidTransition st Settled)
       else Ok (blake3 (ask_bytes @ receipt_bytes)))))"

definition settle_commit ::
    "'d engine \<Rightarrow> regexes \<Rightarrow> u8 list \<Rightarrow> settle_receipt \<Rightarrow> u8 list \<Rightarrow> 'd \<Rightarrow> (u8 list, SettlementError) outcome \<times> 'd" where
  "settle_commit E R i r h d = run_execute E R (UpdateSettled h (sint (sr_timestamp_unix r)) i) h d"

definition settle ::
    "'d engine \<Rightarrow> regexes \<Rightarrow> json \<Rightarrow> (u8 list \<Rightarrow> u8 list) \<Rightarrow> u8 list \<Rightarrow> settle_receipt \<Rightarrow> 'd \<Rightarrow> (u8 list, SettlementError) outcome \<times> 'd" where
  "settle E R J blake3 i r d =
     (case settle_prepare E R J blake3 i r d of
        Ok h \<Rightarrow> settle_commit E R i r h d | Err e \<Rightarrow> (Err e, d) | Panic \<Rightarrow> (Panic, d))"

text \<open>Only ASCII letters are lowered, where \<open>to_lowercase\<close> works on Unicode. The searches below cannot tell the
  difference: their patterns are ASCII, and of the other characters only the Kelvin sign and the dotted
  capital I have lower-case forms with an ASCII letter, \<open>k\<close>, which no pattern contains, and \<open>i\<close> followed by a
  combining dot, which follows \<open>i\<close> in no pattern.\<close>

fun to_lower :: "char \<Rightarrow> char" where
  "to_lower c = (let n = of_char c :: nat in if 65 \<le> n \<and> n \<le> 90 then char_of (n + 32) else c)"

fun contains_str :: "string \<Rightarrow> string \<Rightarrow> bool" where
  "contains_str pat [] \<longleftrightarrow> pat = []"
| "contains_str pat (c # cs) \<longleftrightarrow> take (length pat) (c # cs) = pat \<or> contains_str pat cs"

definition consume_lookup :: "'d engine \<Rightarrow> regexes \<Rightarrow> u8 list \<Rightarrow> 'd \<Rightarrow> (u8 list, SettlementError) outcome" where
  "consume_lookup E R rid d =
     bind_ok (or_else (stoolap_error R) (select_consumed E rid d)) (\<lambda>dup_rows.
       if length dup_rows > 0 then Err (AlreadyConsumed rid)
       else bind_ok (first_row R (AskNotFound rid) (select_by_settlement E rid d)) (\<lambda>aid.
         if length aid \<noteq> 32 then malformed R (''ask_id wrong length: '' @ dec_string (length aid)) else Ok aid))"

definition consume :: "'d engine \<Rightarrow> regexes \<Rightarrow> u64 \<Rightarrow> u8 list \<Rightarrow> 'd \<Rightarrow> (unit, SettlementError) outcome \<times> 'd" where
  "consume E R now rid d =
     (case consume_lookup E R rid d of
        Ok aid \<Rightarrow>
          (case execute E (InsertConsumed \<lparr>co_receipt_id = rid, co_ask_id = aid, co_consumed_at = sint now\<rparr>) d of
             Ok d' \<Rightarrow> run_execute E R (UpdateConsumed (sint now) aid) () d'
           | Err e \<Rightarrow>
               (bind_ok (scrub R e) (\<lambda>m. let msg = map to_lower m in
                  if contains_str ''unique'' msg \<or> contains_str ''constraint'' msg
                    \<or> contains_str ''duplicate'' msg \<or> contains_str ''primary'' msg
                  then Err (AlreadyConsumed rid) else Err (Storage (Stoolap m))), d)
           | Panic \<Rightarrow> (Panic, d))
      | Err e \<Rightarrow> (Err e, d)
      | Panic \<Rightarrow> (Panic, d))"

definition settle_ask ::
    "'d engine \<Rightarrow> regexes \<Rightarrow> json \<Rightarrow> (u8 list \<Rightarrow> u8 list) \<Rightarrow> u8 list \<Rightarrow> settle_receipt \<Rightarrow> 'd \<Rightarrow> (u8 list, SettlementError) outcome \<times> 'd" where
  "settle_ask E R J blake3 i r d =
     (case bind_ok (get E R J i d) (\<lambda>(_, st). map_err (\<lambda>_. InvalidTransition st Settled) (transition st Settled)) of
        Ok _ \<Rightarrow> settle E R J blake3 i r d | Err e \<Rightarrow> (Err e, d) | Panic \<Rightarrow> (Panic, d))"

definition consume_receipt :: "'d engine \<Rightarrow> regexes \<Rightarrow> u64 \<Rightarrow> u8 list \<Rightarrow> 'd \<Rightarrow> (unit, SettlementError) outcome \<times> 'd" where
  "consume_receipt E R now rid d = consume E R now rid d"

subsection \<open>The receipt sink\<close>

definition sink_error :: "regexes \<Rightarrow> string \<Rightarrow> ('a, CoreSettlementError) outcome" where
  "sink_error R e = bind_ok (scrub R e) (\<lambda>m. Err (SinkSpecific m))"

definition read_max :: "'d engine \<Rightarrow> regexes \<Rightarrow> 'd \<Rightarrow> (int option, CoreSettlementError) outcome" where
  "read_max E R d =
     bind_ok (or_else (sink_error R) (select_max E d)) (\<lambda>fs. case fs of
        [] \<Rightarrow> Ok None
      | Row m # _ \<Rightarrow> Ok m
      | RowFailed e # _ \<Rightarrow> sink_error R e
      | ColumnFailed e # _ \<Rightarrow> sink_error R e)"

definition append_receipt ::
    "'d engine \<Rightarrow> regexes \<Rightarrow> (u8 list \<Rightarrow> u8 list \<Rightarrow> u8 list) \<Rightarrow> receipt \<Rightarrow> 'd \<Rightarrow> (unit, CoreSettlementError) outcome \<times> 'd" where
  "append_receipt E R K r d =
     (case bind_ok (read_max E R d) (\<lambda>last_id.
        let check_hash = (if settlement_hash r \<noteq> receipt_id_for K r then Err (ChainIntegrity (receipt_id r)) else Ok ()) in
        case last_id of
          Some prev \<Rightarrow>
            let prev_u64 = word_of_int (max prev 0) in
            if receipt_id r = prev_u64 then Err (AlreadyExists (receipt_id r))
            else if receipt_id r \<noteq> prev_u64 + 1 then Err (SequenceGap (receipt_id r) prev_u64)
            else check_hash
        | None \<Rightarrow> check_hash) of
        Ok _ \<Rightarrow>
          (case execute E (InsertReceipt
              \<lparr>rr_receipt_id = sint (receipt_id r), rr_ask_id = rc_ask_id r, rr_settlement_hash = settlement_hash r,
               rr_router_id = router_id r, rr_router_sig = router_sig r, rr_timestamp_unix = sint (timestamp_unix r)\<rparr>) d of
             Ok d' \<Rightarrow> (Ok (), d')
           | Err e \<Rightarrow>
               (bind_ok (scrub R e) (\<lambda>m. let msg = map to_lower m in
                  if contains_str ''unique'' msg \<or> contains_str ''duplicate'' msg \<or> contains_str ''primary'' msg
                  then Err (AlreadyExists (receipt_id r)) else Err (SinkSpecific m)), d)
           | Panic \<Rightarrow> (Panic, d))
      | Err e \<Rightarrow> (Err e, d)
      | Panic \<Rightarrow> (Panic, d))"

definition last_receipt_id :: "'d engine \<Rightarrow> regexes \<Rightarrow> 'd \<Rightarrow> (u64 option, CoreSettlementError) outcome" where
  "last_receipt_id E R d = bind_ok (read_max E R d) (\<lambda>m. Ok (map_option word_of_int m))"

subsection \<open>Facts about scrubbing and the engine\<close>

lemma boundary_before_le: "boundary_before s n \<le> n"
  by (induction n) (auto intro: le_SucI)

lemma scrub_bound: "scrub_adapter_error_with R s ts = Ok out \<Longrightarrow> length out \<le> 4096 + 19"
  using boundary_before_le [of _ 4096]
  by (auto simp: scrub_adapter_error_with_def REDACTED_TOO_LONG_def Let_def min_le_iff_disj split: if_splits)

definition scrubbed :: "regexes \<Rightarrow> string \<Rightarrow> string" where
  "scrubbed R e = (case (scrub R e :: (string, unit) outcome) of Ok m \<Rightarrow> m | _ \<Rightarrow> [])"

lemma scrub_eq [simp]: "scrub R e = Ok (scrubbed R e)"
  by (simp add: scrubbed_def scrub_def scrub_adapter_error_with_def ADAPTER_TYPES_def Let_def)

lemma error_values [simp]:
  "stoolap_error R e = Err (Storage (Stoolap (scrubbed R e)))"
  "decode_error R e = Err (Storage (Decode (scrubbed R e)))"
  "sink_error R e = Err (SinkSpecific (scrubbed R e))"
  by (simp_all add: stoolap_error_def decode_error_def sink_error_def)

lemma malformed_not_Ok [simp]: "malformed R e \<noteq> Ok x"
  by (auto simp: malformed_def)

lemma malformed_Panic: "e \<noteq> [] \<Longrightarrow> malformed R e = Panic"
  by (simp add: malformed_def scrub_adapter_error_def scrub_adapter_error_with_def)

lemma or_else_Ok [simp]: "(\<And>e. f e \<noteq> Ok x) \<Longrightarrow> or_else f m = Ok x \<longleftrightarrow> m = Ok x"
  by (simp add: or_else_def split: outcome.splits)

lemma execute_sound:
  "engine_laws E tabs \<Longrightarrow> execute E s d = Ok d' \<Longrightarrow> run_stmt s (tabs d) = Some (tabs d')"
  unfolding engine_laws_def by (drule conjunct1, elim allE [of _ s], elim allE [of _ d]) simp

lemma engine_selects:
  assumes "engine_laws E tabs"
  shows "selects (select_consumed E i d) (map co_ask_id (filter (\<lambda>c. co_receipt_id c = i) (consumed_receipt_index (tabs d))))"
    and "selects (select_by_settlement E i d) (map ar_ask_id (filter (\<lambda>r. ar_settlement_hash r = i) (asks (tabs d))))"
    and "selects (select_ask E i d) (filter (\<lambda>r. ar_ask_id r = i) (asks (tabs d)))"
    and "selects (select_max E d) [max_receipt (tabs d)]"
  using assms by (simp_all add: engine_laws_def)

lemma selects_Ok: "selects q rs \<Longrightarrow> q = Ok fs \<Longrightarrow> mset fs = mset (map Row rs)"
  by (simp add: selects_def)

lemma first_row_Ok:
  assumes "selects q rs" "first_row R m q = Ok r"
  shows "r \<in> set rs"
proof -
  obtain fs where fs: "q = Ok fs"
    using assms(2) by (auto simp: first_row_def)
  then have m: "mset fs = mset (map Row rs)" using assms(1) by (rule selects_Ok [rotated])
  obtain gs where "fs = Row r # gs"
    using assms(2) fs by (auto simp: first_row_def or_else_def split: list.splits fetched.splits)
  then have "Row r \<in> set (map Row rs)" using m by (metis list.set_intros(1) mset_eq_setD)
  then show ?thesis by auto
qed

lemma first_row_Row:
  assumes "selects q rs" "q = Ok fs" "rs \<noteq> []"
  shows "\<exists>r \<in> set rs. first_row R m q = Ok r"
proof -
  have m: "mset fs = mset (map Row rs)" using assms(1,2) by (rule selects_Ok)
  then obtain g gs where fs: "fs = g # gs" using assms(3) by (cases fs) auto
  then have "g \<in> set (map Row rs)" using m by (metis list.set_intros(1) mset_eq_setD)
  then obtain r where "r \<in> set rs" "g = Row r" by auto
  then show ?thesis using fs assms(2) by (auto simp: first_row_def or_else_def)
qed

lemma execute_val:
  assumes "engine_laws E tabs" "fault_free E tabs" "run_stmt s (tabs d) = Some t"
  obtains d' where "execute E s d = Ok d'" "tabs d' = t"
  using assms execute_sound [OF assms(1)] unfolding fault_free_def by (metis option.distinct(1) option.inject)

lemma run_execute_val:
  assumes "engine_laws E tabs" "fault_free E tabs" "run_stmt s (tabs d) = Some t"
  shows "\<exists>d'. run_execute E R s x d = (Ok x, d') \<and> tabs d' = t"
  by (rule execute_val [OF assms]) (simp add: run_execute_def)

subsection \<open>A database of lists\<close>

definition table_engine :: "tables engine" where
  "table_engine =
     \<lparr>execute = \<lambda>s t. case run_stmt s t of Some t' \<Rightarrow> Ok t' | None \<Rightarrow> Err ''UNIQUE constraint failed'',
      select_consumed = \<lambda>i t. Ok (map (Row \<circ> co_ask_id) (filter (\<lambda>c. co_receipt_id c = i) (consumed_receipt_index t))),
      select_by_settlement = \<lambda>h t. Ok (map (Row \<circ> ar_ask_id) (filter (\<lambda>r. ar_settlement_hash r = h) (asks t))),
      select_ask = \<lambda>i t. Ok (map Row (filter (\<lambda>r. ar_ask_id r = i) (asks t))),
      select_max = \<lambda>t. Ok [Row (max_receipt t)]\<rparr>"

lemma table_engine_laws: "engine_laws table_engine (\<lambda>t. t)" "fault_free table_engine (\<lambda>t. t)"
  by (auto simp: engine_laws_def fault_free_def table_engine_def selects_def split: option.splits)

definition no_redaction :: regexes where
  "no_redaction = \<lparr>re_hex = \<lambda>s. s, re_path = \<lambda>s. s, re_table = \<lambda>s. s, re_sqlstate = \<lambda>s. s, re_io = \<lambda>s. s,
     re_url_creds = \<lambda>s. s, re_ansi = \<lambda>s. s, re_ipv4 = \<lambda>s. s, re_uuid = \<lambda>s. s\<rparr>"

definition empty_tables :: tables where
  "empty_tables = \<lparr>asks = [], consumed_receipt_index = [], canonical_receipts = []\<rparr>"

subsection \<open>Life cycles and errors\<close>


definition reservation_final :: "ReservationState \<Rightarrow> bool" where
  "reservation_final s \<longleftrightarrow> s \<in> {RReleased, RExpired, RCancelled}"

abbreviation reservation_edge :: "ReservationState \<Rightarrow> ReservationState \<Rightarrow> bool" where
  "reservation_edge s t \<equiv> transition_reservation s t = Ok ()"

interpretation reservation_cycle: life_cycle reservation_edge RReserved reservation_final
proof
  show "reservation_final s \<Longrightarrow> \<not> reservation_edge s t" for s t
    by (auto simp: reservation_final_def transition_reservation_def)
  show "\<not> reservation_final s \<Longrightarrow> \<exists>t. reservation_edge s t" for s
    by (cases s) (auto simp: reservation_final_def transition_reservation_def)
  show "\<not> reservation_edge s RReserved" for s by (simp add: transition_reservation_def)
qed

abbreviation ask_edge :: "AskState \<Rightarrow> AskState \<Rightarrow> bool" where
  "ask_edge s s' \<equiv> transition s s' = Ok ()"

definition ask_rank :: "AskState \<Rightarrow> nat" where
  "ask_rank s = (case s of Minted \<Rightarrow> 2 | Settled \<Rightarrow> 1 | Consumed \<Rightarrow> 0)"

interpretation ask_cycle: bounded_life_cycle ask_edge Minted "\<lambda>s. s = Consumed" ask_rank
proof
  show "s = Consumed \<Longrightarrow> \<not> ask_edge s t" for s t by (simp add: transition_def)
  show "s \<noteq> Consumed \<Longrightarrow> \<exists>t. ask_edge s t" for s by (cases s) (auto simp: transition_def)
  show "\<not> ask_edge s Minted" for s by (simp add: transition_def)
  show "ask_edge s t \<Longrightarrow> ask_rank t < ask_rank s" for s t
    by (auto simp: transition_def ask_rank_def split: if_splits)
qed

lemma unsettled_closed:
  "(\<lambda>s t. reservation_edge s t \<and> t \<noteq> RSettled)\<^sup>*\<^sup>* RReserved s \<Longrightarrow> s \<in> {RReserved, RExecuting, RCancelled, RExpired}"
  by (induction rule: rtranclp_induct) (auto simp: transition_reservation_def split: if_splits)

lemma reaches_released: "s \<in> {RExecuting, RSettled, RAuditable, RFrozen} \<Longrightarrow> reservation_edge\<^sup>*\<^sup>* s RReleased"
proof -
  have "reservation_edge RExecuting RSettled" "reservation_edge RSettled RAuditable" "reservation_edge RAuditable RReleased"
      "reservation_edge RFrozen RReleased" by (simp_all add: transition_reservation_def)
  then have "reservation_edge\<^sup>*\<^sup>* RSettled RReleased" "reservation_edge\<^sup>*\<^sup>* RExecuting RReleased"
      "reservation_edge\<^sup>*\<^sup>* RAuditable RReleased" "reservation_edge\<^sup>*\<^sup>* RFrozen RReleased"
    by (meson converse_rtranclp_into_rtranclp r_into_rtranclp)+
  then show "s \<in> {RExecuting, RSettled, RAuditable, RFrozen} \<Longrightarrow> reservation_edge\<^sup>*\<^sup>* s RReleased" by auto
qed

text \<open>The life cycle of a reservation: the final states are exactly those without a transition and are
  kept for ever, no run returns to \<open>Reserved\<close>, a run that avoids \<open>Settled\<close> never releases, freezes or
  audits the reservation, and every state that is neither final nor \<open>Reserved\<close> can still reach
  \<open>Released\<close>.\<close>

theorem reservation_life_cycle:
  "(reservation_final s \<longleftrightarrow> (\<forall>t. \<not> reservation_edge s t))
   \<and> (reservation_edge\<^sup>*\<^sup>* s t \<and> reservation_final s \<longrightarrow> t = s)
   \<and> (reservation_edge\<^sup>+\<^sup>+ s t \<longrightarrow> t \<noteq> RReserved)
   \<and> ((\<lambda>s t. reservation_edge s t \<and> t \<noteq> RSettled)\<^sup>*\<^sup>* RReserved s \<longrightarrow> s \<in> {RReserved, RExecuting, RCancelled, RExpired})
   \<and> (\<not> reservation_final s \<and> s \<noteq> RReserved \<longrightarrow> reservation_edge\<^sup>*\<^sup>* s RReleased)"
proof -
  have "\<not> reservation_final s \<and> s \<noteq> RReserved \<longrightarrow> s \<in> {RExecuting, RSettled, RAuditable, RFrozen}"
    by (cases s) (auto simp: reservation_final_def)
  then show ?thesis
    using reservation_cycle.final_iff [of s] reservation_cycle.final_absorbing [of s t] reservation_cycle.start_left [of s t]
      unsettled_closed [of s] reaches_released [of s] by blast
qed

theorem reservation_life_cycle_witness:
  "reservation_edge\<^sup>*\<^sup>* RFrozen RReleased \<and> \<not> (\<lambda>s t. reservation_edge s t \<and> t \<noteq> RSettled)\<^sup>*\<^sup>* RReserved RReleased"
  using reservation_life_cycle [of RFrozen RReleased] reservation_life_cycle [of RReleased RReleased]
  by (auto simp: reservation_final_def)

text \<open>Scrubbing an adapter error with a registry of adapter names always returns a text of at most 4096
  bytes and the 19 bytes of the mark for truncation. Without a registry it panics on every text but the
  empty one, and \<open>scrub_adapter_error\<close> always passes an empty registry.\<close>

theorem scrub_adapter_error_correct:
  "(ts \<noteq> [] \<longrightarrow> (\<exists>out. scrub_adapter_error_with R s ts = (Ok out :: (string, 'e) outcome) \<and> length out \<le> 4115))
   \<and> (s \<noteq> [] \<longrightarrow> (scrub_adapter_error R s :: (string, 'e) outcome) = Panic)
   \<and> (length s > 4096 \<and> ts \<noteq> [] \<longrightarrow> scrub_adapter_error_with R s ts = (Ok ''<redacted-too-long>'' :: (string, 'e) outcome))"
proof -
  have "\<exists>out. scrub_adapter_error_with R s ts = (Ok out :: (string, 'e) outcome) \<and> length out \<le> 4115" if "ts \<noteq> []"
  proof -
    obtain out where out: "scrub_adapter_error_with R s ts = (Ok out :: (string, 'e) outcome)"
      by (cases "scrub_adapter_error_with R s ts :: (string, 'e) outcome")
        (use \<open>ts \<noteq> []\<close> in \<open>auto simp: scrub_adapter_error_with_def Let_def split: if_splits\<close>)
    then show ?thesis using scrub_bound [OF out] by simp
  qed
  then show ?thesis
    by (auto simp: scrub_adapter_error_def scrub_adapter_error_with_def REDACTED_TOO_LONG_def)
qed

theorem scrub_adapter_error_witness:
  "(scrub_adapter_error no_redaction ''unknown ask state: X'' :: (string, unit) outcome) = Panic"
  using scrub_adapter_error_correct [of "[]" no_redaction "''unknown ask state: X''", where 'e = unit] by simp

end
