(* ===== verification/SettleRuns.thy ===== *)
theory SettleRuns
  imports SettleStore
begin

text \<open>
  Sequences of calls of the settlement store. Every call is a step of the relation \<open>table_step\<close> on the
  tables, for which the well-formedness of the store is an invariant; the results of the calls on an
  engine without faults give the intended path from \<open>Minted\<close> to \<open>Consumed\<close> and the two ways around the
  state machine.
\<close>

subsection \<open>What the store does to the tables\<close>

abbreviation zero_hash :: "u8 list" where
  "zero_hash \<equiv> replicate 32 0"

inductive table_step :: "tables \<Rightarrow> tables \<Rightarrow> bool" where
  skip: "table_step t t"
| mint: "ar_ask_id r \<notin> ar_ask_id ` set (asks t) \<Longrightarrow> ar_state r = ''Minted'' \<Longrightarrow> ar_settlement_hash r = zero_hash \<Longrightarrow>
    table_step t (t\<lparr>asks := asks t @ [r]\<rparr>)"
| settle: "r \<in> set (asks t) \<Longrightarrow> ar_state r = ''Minted'' \<Longrightarrow>
    table_step t (t\<lparr>asks := map (settle_row h ts (ar_ask_id r)) (asks t)\<rparr>)"
| index: "r \<in> set (asks t) \<Longrightarrow> ar_settlement_hash r = co_receipt_id c \<Longrightarrow> co_ask_id c = ar_ask_id r \<Longrightarrow>
    co_receipt_id c \<notin> co_receipt_id ` set (consumed_receipt_index t) \<Longrightarrow>
    table_step t (t\<lparr>consumed_receipt_index := consumed_receipt_index t @ [c]\<rparr>)"
| consume: "r \<in> set (asks t) \<Longrightarrow> ar_settlement_hash r = co_receipt_id c \<Longrightarrow> co_ask_id c = ar_ask_id r \<Longrightarrow>
    co_receipt_id c \<notin> co_receipt_id ` set (consumed_receipt_index t) \<Longrightarrow>
    table_step t (t\<lparr>consumed_receipt_index := consumed_receipt_index t @ [c], asks := map (consume_row ts (ar_ask_id r)) (asks t)\<rparr>)"
| append: "rr_receipt_id q \<notin> rr_receipt_id ` set (canonical_receipts t) \<Longrightarrow>
    table_step t (t\<lparr>canonical_receipts := canonical_receipts t @ [q]\<rparr>)"

lemma run_execute_tabs:
  assumes "engine_laws E tabs" "table_step (tabs d) t" "run_stmt s (tabs d) = Some t \<or> run_stmt s (tabs d) = None"
  shows "table_step (tabs d) (tabs (snd (run_execute E R s x d)))"
  using assms(2,3) execute_sound [OF assms(1), of s d]
  by (auto simp: run_execute_def intro: table_step.skip split: outcome.splits)

lemma mint_step: "engine_laws E tabs \<Longrightarrow> table_step (tabs d) (tabs (snd (mint E R J a d)))"
proof (cases "axes_to_vec J (axes_consumed a)")
  case (Ok bs)
  assume laws: "engine_laws E tabs"
  let ?r = "\<lparr>ar_ask_id = ask_id a, ar_holder_did = holder_did a, ar_axes_consumed = bs,
      ar_cap_root_hash = cap_root_hash a, ar_invocation_hash = invocation_hash a,
      ar_current_unix_time = sint (current_unix_time a), ar_output_hash = output_hash a,
      ar_settlement_hash = zero_hash, ar_state = ''Minted'', ar_created_at = sint (current_unix_time a),
      ar_settled_at = None, ar_consumed_at = None\<rparr>"
  have "table_step (tabs d) (if ask_id a \<in> ar_ask_id ` set (asks (tabs d)) then tabs d else (tabs d)\<lparr>asks := asks (tabs d) @ [?r]\<rparr>)"
    using table_step.mint [of ?r "tabs d"] table_step.skip by simp
  then show ?thesis
    using Ok run_execute_tabs [OF laws, of d _ "InsertAsk ?r" R "()"] by (auto simp: mint_def or_else_def from_sql_def split: if_splits)
qed (auto simp: mint_def or_else_def intro: table_step.skip)

lemma get_row:
  assumes "engine_laws E tabs" "get E R J i d = Ok (a, st)"
  shows "\<exists>r \<in> set (asks (tabs d)). ar_ask_id r = i \<and> from_sql (ar_state r) = Some st"
proof -
  have sel: "selects (select_ask E i d) (filter (\<lambda>r. ar_ask_id r = i) (asks (tabs d)))"
    using assms(1) by (simp add: engine_laws_def)
  obtain r where r: "first_row R (AskNotFound i) (select_ask E i d) = Ok r" "from_sql (ar_state r) = Some st"
    using assms(2) by (auto simp: get_def split: if_splits option.splits)
  then show ?thesis using first_row_Ok [OF sel r(1)] by auto
qed

lemma from_sql_Some: "from_sql s = Some st \<longleftrightarrow> s = as_sql st"
  by (cases st) (auto simp: from_sql_def)

lemma settle_prepare_row:
  assumes "engine_laws E tabs" "settle_prepare E R J B i r d = Ok h"
  shows "\<exists>row \<in> set (asks (tabs d)). ar_ask_id row = i \<and> ar_state row = ''Minted''" and "sr_ask_id r = i"
proof -
  obtain a where "get E R J i d = Ok (a, Minted)"
    using assms(2) by (auto simp: settle_prepare_def split: if_splits)
  then show "\<exists>row \<in> set (asks (tabs d)). ar_ask_id row = i \<and> ar_state row = ''Minted''"
    using get_row [OF assms(1)] by (fastforce simp: from_sql_Some)
  show "sr_ask_id r = i" using assms(2) by (auto simp: settle_prepare_def split: if_splits)
qed

lemma settle_step: "engine_laws E tabs \<Longrightarrow> table_step (tabs d) (tabs (snd (settle E R J B i r d)))"
proof (cases "settle_prepare E R J B i r d")
  case (Ok h)
  assume laws: "engine_laws E tabs"
  obtain row where row: "row \<in> set (asks (tabs d))" "ar_ask_id row = i" "ar_state row = ''Minted''"
    using settle_prepare_row [OF laws Ok] by blast
  show ?thesis
    using Ok run_execute_tabs [OF laws table_step.settle [OF row(1,3), of h "sint (sr_timestamp_unix r)"],
        of "UpdateSettled h (sint (sr_timestamp_unix r)) i" R h] row(2)
    by (simp add: settle_def settle_commit_def)
qed (auto simp: settle_def intro: table_step.skip)

lemma settle_ask_step: "engine_laws E tabs \<Longrightarrow> table_step (tabs d) (tabs (snd (settle_ask E R J B i r d)))"
  by (auto simp: settle_ask_def settle_step intro: table_step.skip split: outcome.splits)

lemma consume_lookup_row:
  assumes "engine_laws E tabs" "consume_lookup E R rid d = Ok aid"
  shows "\<exists>r \<in> set (asks (tabs d)). ar_ask_id r = aid \<and> ar_settlement_hash r = rid"
proof -
  have sel: "selects (select_by_settlement E rid d) (map ar_ask_id (filter (\<lambda>r. ar_settlement_hash r = rid) (asks (tabs d))))"
    using assms(1) by (simp add: engine_laws_def)
  have "first_row R (AskNotFound rid) (select_by_settlement E rid d) = Ok aid"
    using assms(2) by (auto simp: consume_lookup_def split: if_splits)
  then show ?thesis using first_row_Ok [OF sel] by fastforce
qed

lemma consume_step:
  assumes laws: "engine_laws E tabs"
  shows "table_step (tabs d) (tabs (snd (consume E R now rid d)))
    \<and> (fst (consume E R now rid d) = Ok () \<longrightarrow>
        rid \<in> co_receipt_id ` set (consumed_receipt_index (tabs (snd (consume E R now rid d)))))"
proof (cases "consume_lookup E R rid d")
  case (Ok aid)
  let ?c = "\<lparr>co_receipt_id = rid, co_ask_id = aid, co_consumed_at = sint now\<rparr>"
  obtain r where r: "r \<in> set (asks (tabs d))" "ar_ask_id r = aid" "ar_settlement_hash r = rid"
    using consume_lookup_row [OF laws Ok] by blast
  show ?thesis
  proof (cases "execute E (InsertConsumed ?c) d")
    case (Ok d')
    have t: "rid \<notin> co_receipt_id ` set (consumed_receipt_index (tabs d))"
        "tabs d' = (tabs d)\<lparr>consumed_receipt_index := consumed_receipt_index (tabs d) @ [?c]\<rparr>"
      using execute_sound [OF laws Ok] by (auto split: if_splits)
    have idx: "table_step (tabs d) (tabs d')" using table_step.index [OF r(1), of ?c] r t by simp
    have con: "table_step (tabs d) ((tabs d')\<lparr>asks := map (consume_row (sint now) aid) (asks (tabs d'))\<rparr>)"
      using table_step.consume [OF r(1), of ?c "sint now"] r t by simp
    have "tabs (snd (run_execute E R (UpdateConsumed (sint now) aid) () d')) \<in>
        {tabs d', (tabs d')\<lparr>asks := map (consume_row (sint now) aid) (asks (tabs d'))\<rparr>}"
      using execute_sound [OF laws, of "UpdateConsumed (sint now) aid" d'] by (auto simp: run_execute_def split: outcome.splits)
    then show ?thesis using idx con t(2) \<open>consume_lookup E R rid d = Ok aid\<close> Ok by (auto simp: consume_def)
  qed (use \<open>consume_lookup E R rid d = Ok aid\<close> in \<open>auto simp: consume_def Let_def intro: table_step.skip\<close>)
qed (auto simp: consume_def intro: table_step.skip)

lemma append_step:
  assumes laws: "engine_laws E tabs"
  shows "table_step (tabs d) (tabs (snd (append_receipt E R K r d)))"
proof -
  let ?q = "\<lparr>rr_receipt_id = sint (receipt_id r), rr_ask_id = rc_ask_id r, rr_settlement_hash = settlement_hash r,
      rr_router_id = router_id r, rr_router_sig = router_sig r, rr_timestamp_unix = sint (timestamp_unix r)\<rparr>"
  have "table_step (tabs d) (tabs d')" if "execute E (InsertReceipt ?q) d = Ok d'" for d'
    using execute_sound [OF laws that] table_step.append [of ?q "tabs d"] by (auto split: if_splits)
  then show ?thesis
    by (auto simp: append_receipt_def intro: table_step.skip split: outcome.splits)
qed

subsection \<open>The invariant of the tables\<close>

definition row_ok :: "consumed_row set \<Rightarrow> ask_row \<Rightarrow> bool" where
  "row_ok C r \<longleftrightarrow> from_sql (ar_state r) \<noteq> None
     \<and> (ar_state r = ''Minted'' \<longrightarrow> ar_settlement_hash r = zero_hash)
     \<and> (ar_state r = ''Consumed'' \<longrightarrow> (\<exists>c \<in> C. co_receipt_id c = ar_settlement_hash r \<and> co_ask_id c = ar_ask_id r))"

definition indexed_ok :: "ask_row set \<Rightarrow> consumed_row \<Rightarrow> bool" where
  "indexed_ok A c \<longleftrightarrow> (\<exists>r \<in> A. ar_ask_id r = co_ask_id c
     \<and> (co_receipt_id c = zero_hash \<or> ar_settlement_hash r = co_receipt_id c \<and> ar_state r \<noteq> ''Minted''))"

definition store_ok :: "tables \<Rightarrow> bool" where
  "store_ok t \<longleftrightarrow> distinct (map ar_ask_id (asks t)) \<and> distinct (map co_receipt_id (consumed_receipt_index t))
     \<and> (\<forall>r \<in> set (asks t). row_ok (set (consumed_receipt_index t)) r)
     \<and> (\<forall>c \<in> set (consumed_receipt_index t). indexed_ok (set (asks t)) c)"

lemma store_ok_ids: "store_ok t \<Longrightarrow> distinct (map ar_ask_id (asks t))"
  by (simp add: store_ok_def)

lemma row_ok_insert: "row_ok C r \<Longrightarrow> row_ok (insert c C) r"
  by (auto simp: row_ok_def)

lemma indexed_ok_insert: "indexed_ok A c \<Longrightarrow> indexed_ok (insert r A) c"
  by (auto simp: indexed_ok_def)

definition ask_state :: "tables \<Rightarrow> u8 list \<Rightarrow> AskState option" where
  "ask_state t i = (case find (\<lambda>r. ar_ask_id r = i) (asks t) of Some r \<Rightarrow> from_sql (ar_state r) | None \<Rightarrow> None)"

lemma row_ids [simp]: "ar_ask_id (settle_row h ts i r) = ar_ask_id r" "ar_ask_id (consume_row ts i r) = ar_ask_id r"
  by (simp_all add: settle_row_def consume_row_def)

lemma row_hashes:
  "ar_settlement_hash (settle_row h ts i r) = (if ar_ask_id r = i then h else ar_settlement_hash r)"
  "ar_settlement_hash (consume_row ts i r) = ar_settlement_hash r"
  by (simp_all add: settle_row_def consume_row_def)

lemma map_row_ids [simp]:
  "map (ar_ask_id \<circ> settle_row h ts i) rs = map ar_ask_id rs" "map (ar_ask_id \<circ> consume_row ts i) rs = map ar_ask_id rs"
  by simp_all

lemma row_unique:
  "distinct (map ar_ask_id rs) \<Longrightarrow> r \<in> set rs \<Longrightarrow> r' \<in> set rs \<Longrightarrow> ar_ask_id r = ar_ask_id r' \<Longrightarrow> r = r'"
  by (meson distinct_map inj_onD)

lemma find_map_row:
  "(\<And>r. ar_ask_id (f r) = ar_ask_id r) \<Longrightarrow>
     find (\<lambda>r. ar_ask_id r = i) (map f rs) = map_option f (find (\<lambda>r. ar_ask_id r = i) rs)"
  by (induction rs) auto

lemma find_row_unique:
  "distinct (map ar_ask_id rs) \<Longrightarrow> r \<in> set rs \<Longrightarrow> find (\<lambda>x. ar_ask_id x = ar_ask_id r) rs = Some r"
  by (induction rs) auto

lemma find_append: "find P (xs @ ys) = (case find P xs of None \<Rightarrow> find P ys | Some x \<Rightarrow> Some x)"
  by (induction xs) auto

lemma from_sql_strings [simp]:
  "from_sql ''Minted'' = Some Minted" "from_sql ''Settled'' = Some Settled" "from_sql ''Consumed'' = Some Consumed"
  by (simp_all add: from_sql_def)

lemma settle_ok:
  assumes ok: "store_ok t" and r: "r \<in> set (asks t)" "ar_state r = ''Minted''"
  shows "store_ok (t\<lparr>asks := map (settle_row h ts (ar_ask_id r)) (asks t)\<rparr>)"
proof -
  let ?f = "settle_row h ts (ar_ask_id r)"
  have same: "?f r' = r'" if "r' \<in> set (asks t)" "r' \<noteq> r" for r'
    using ok r(1) that row_unique [of "asks t" r' r] by (auto simp: store_ok_def settle_row_def)
  have new: "?f r = r\<lparr>ar_state := ''Settled'', ar_settlement_hash := h, ar_settled_at := Some ts\<rparr>"
    by (simp add: settle_row_def)
  have a: "indexed_ok (?f ` set (asks t)) c" if "c \<in> set (consumed_receipt_index t)" for c
  proof -
    obtain r' where r': "r' \<in> set (asks t)" "ar_ask_id r' = co_ask_id c"
        "co_receipt_id c = zero_hash \<or> ar_settlement_hash r' = co_receipt_id c \<and> ar_state r' \<noteq> ''Minted''"
      using ok \<open>c \<in> _\<close> by (auto simp: store_ok_def indexed_ok_def)
    then show ?thesis
      using r(2) same [of r'] unfolding indexed_ok_def by (intro bexI [OF _ imageI [OF r'(1)]]) (cases "r' = r", auto)
  qed
  have b: "row_ok (set (consumed_receipt_index t)) (?f r')" if "r' \<in> set (asks t)" for r'
    using ok that same [OF that] by (cases "r' = r") (auto simp: store_ok_def new row_ok_def)
  show ?thesis using ok a b by (simp add: store_ok_def)
qed

lemma index_ok:
  assumes ok: "store_ok t" and r: "r \<in> set (asks t)" "ar_settlement_hash r = co_receipt_id c" "co_ask_id c = ar_ask_id r"
    and new: "co_receipt_id c \<notin> co_receipt_id ` set (consumed_receipt_index t)"
  shows "store_ok (t\<lparr>consumed_receipt_index := consumed_receipt_index t @ [c]\<rparr>)"
proof -
  have "indexed_ok (set (asks t)) c"
    using ok r by (auto simp: store_ok_def indexed_ok_def row_ok_def intro!: bexI [OF _ r(1)])
  then show ?thesis using ok new by (simp add: store_ok_def row_ok_insert)
qed

lemma consume_ok:
  assumes ok: "store_ok t" and c: "c \<in> set (consumed_receipt_index t)"
    and r: "r \<in> set (asks t)" "ar_settlement_hash r = co_receipt_id c" "co_ask_id c = ar_ask_id r"
  shows "store_ok (t\<lparr>asks := map (consume_row ts (ar_ask_id r)) (asks t)\<rparr>)"
proof -
  let ?f = "consume_row ts (ar_ask_id r)"
  have u: "r' = r" if "r' \<in> set (asks t)" "ar_ask_id r' = ar_ask_id r" for r'
    using ok r(1) that row_unique by (auto simp: store_ok_def)
  have b: "row_ok (set (consumed_receipt_index t)) (?f r')" if "r' \<in> set (asks t)" for r'
    using ok c r that u [OF that] by (auto simp: store_ok_def consume_row_def row_ok_def intro!: bexI [OF _ c])
  have a: "indexed_ok (?f ` set (asks t)) c'" if "c' \<in> set (consumed_receipt_index t)" for c'
  proof -
    obtain r' where r': "r' \<in> set (asks t)" "ar_ask_id r' = co_ask_id c'"
        "co_receipt_id c' = zero_hash \<or> ar_settlement_hash r' = co_receipt_id c' \<and> ar_state r' \<noteq> ''Minted''"
      using ok \<open>c' \<in> _\<close> by (auto simp: store_ok_def indexed_ok_def)
    then show ?thesis unfolding indexed_ok_def
      by (intro bexI [OF _ imageI [OF r'(1)]]) (auto simp: consume_row_def)
  qed
  show ?thesis using ok a b by (simp add: store_ok_def)
qed

lemma table_step_ok: "table_step t t' \<Longrightarrow> store_ok t \<Longrightarrow> store_ok t'"
proof (induction rule: table_step.induct)
  case (mint r t)
  then show ?case
    by (simp add: store_ok_def indexed_ok_insert row_ok_def [of _ r])
next
  case (consume r t c ts)
  then show ?case
    using consume_ok [OF index_ok [OF consume.prems consume.hyps], of c r ts] by simp
next
  case (append q t)
  then show ?case by (simp add: store_ok_def)
qed (simp_all add: settle_ok index_ok)

lemma table_step_progress:
  assumes "table_step t t'" "store_ok t" "ask_state t i = Some s"
  shows "\<exists>s'. ask_state t' i = Some s' \<and> (s' = s \<or> ask_edge s s')"
  using assms
proof (induction rule: table_step.induct)
  case (mint r t)
  then show ?case by (auto simp: ask_state_def find_append split: option.splits)
next
  case (settle r t h ts)
  then obtain r' where r': "find (\<lambda>r. ar_ask_id r = i) (asks t) = Some r'" "from_sql (ar_state r') = Some s"
    by (auto simp: ask_state_def split: option.splits)
  then have "r' \<in> set (asks t)" "ar_ask_id r' = i" by (auto simp: find_Some_iff)
  then have "ar_ask_id r' = ar_ask_id r \<Longrightarrow> r' = r" using settle row_unique by (auto simp: store_ok_def)
  then show ?case
    using r' settle.hyps by (auto simp: ask_state_def find_map_row settle_row_def transition_def)
next
  case (consume r t c ts)
  then obtain r' where r': "find (\<lambda>r. ar_ask_id r = i) (asks t) = Some r'" "from_sql (ar_state r') = Some s"
    by (auto simp: ask_state_def split: option.splits)
  then show ?case by (auto simp: ask_state_def find_map_row consume_row_def transition_def)
qed (auto simp: ask_state_def)

lemma table_step_receipts:
  "table_step t t' \<Longrightarrow> \<exists>qs. canonical_receipts t' = canonical_receipts t @ qs
     \<and> (distinct (map rr_receipt_id (canonical_receipts t)) \<longrightarrow> distinct (map rr_receipt_id (canonical_receipts t')))"
  by (induction rule: table_step.induct) auto

lemma table_step_index: "table_step t t' \<Longrightarrow> set (consumed_receipt_index t) \<subseteq> set (consumed_receipt_index t')"
  by (induction rule: table_step.induct) auto

subsection \<open>Sequences of calls\<close>

text \<open>The calls that can change the store: \<open>mint\<close>, \<open>settle\<close>, \<open>consume\<close> and \<open>append\<close> of \<open>StoolapStore\<close>, and the
  functions \<open>settle_ask\<close> and \<open>consume_receipt\<close> over them.\<close>

datatype store_op = OpMint ask | OpSettle "u8 list" settle_receipt | OpConsume u64 "u8 list"
  | OpSettleAsk "u8 list" settle_receipt | OpConsumeReceipt u64 "u8 list" | OpAppend receipt

fun store_call ::
    "'d engine \<Rightarrow> regexes \<Rightarrow> json \<Rightarrow> (u8 list \<Rightarrow> u8 list) \<Rightarrow> (u8 list \<Rightarrow> u8 list \<Rightarrow> u8 list) \<Rightarrow> store_op \<Rightarrow> 'd \<Rightarrow> 'd" where
  "store_call E R J B K (OpMint a) d = snd (mint E R J a d)"
| "store_call E R J B K (OpSettle i r) d = snd (settle E R J B i r d)"
| "store_call E R J B K (OpConsume now rid) d = snd (consume E R now rid d)"
| "store_call E R J B K (OpSettleAsk i r) d = snd (settle_ask E R J B i r d)"
| "store_call E R J B K (OpConsumeReceipt now rid) d = snd (consume_receipt E R now rid d)"
| "store_call E R J B K (OpAppend r) d = snd (append_receipt E R K r d)"

lemma store_call_step: "engine_laws E tabs \<Longrightarrow> table_step (tabs d) (tabs (store_call E R J B K c d))"
  by (cases c) (simp_all add: mint_step settle_step settle_ask_step consume_receipt_def consume_step append_step)

lemma store_run:
  assumes "engine_laws E tabs" "store_ok (tabs d)"
  shows "store_ok (tabs (fold (store_call E R J B K) cs d))
    \<and> (\<forall>i s. ask_state (tabs d) i = Some s \<longrightarrow>
         (\<exists>s'. ask_state (tabs (fold (store_call E R J B K) cs d)) i = Some s' \<and> ask_edge\<^sup>*\<^sup>* s s'))
    \<and> set (consumed_receipt_index (tabs d)) \<subseteq> set (consumed_receipt_index (tabs (fold (store_call E R J B K) cs d)))
    \<and> (\<exists>qs. canonical_receipts (tabs (fold (store_call E R J B K) cs d)) = canonical_receipts (tabs d) @ qs)
    \<and> (distinct (map rr_receipt_id (canonical_receipts (tabs d))) \<longrightarrow>
         distinct (map rr_receipt_id (canonical_receipts (tabs (fold (store_call E R J B K) cs d)))))"
  using assms(2)
proof (induction cs arbitrary: d)
  case (Cons c cs)
  let ?d = "store_call E R J B K c d"
  have st: "table_step (tabs d) (tabs ?d)" using assms(1) by (rule store_call_step)
  note IH = Cons.IH [OF table_step_ok [OF st Cons.prems]]
  have "\<exists>s'. ask_state (tabs (fold (store_call E R J B K) cs ?d)) i = Some s' \<and> ask_edge\<^sup>*\<^sup>* s s'"
    if s: "ask_state (tabs d) i = Some s" for i s
  proof -
    obtain s1 where "ask_state (tabs ?d) i = Some s1" "s1 = s \<or> ask_edge s s1"
      using table_step_progress [OF st Cons.prems s] by blast
    then show ?thesis using IH by (meson converse_rtranclp_into_rtranclp)
  qed
  then show ?case using IH table_step_index [OF st] table_step_receipts [OF st] by auto
qed auto

lemma consume_indexed:
  assumes "engine_laws E tabs" "rid \<in> co_receipt_id ` set (consumed_receipt_index (tabs d))"
  shows "\<exists>e. consume E R now rid d = (Err e, d) \<and> (select_consumed E rid d = Ok fs \<longrightarrow> e = AlreadyConsumed rid)"
proof -
  have sel: "selects (select_consumed E rid d) (map co_ask_id (filter (\<lambda>c. co_receipt_id c = rid) (consumed_receipt_index (tabs d))))"
    using assms(1) by (simp add: engine_laws_def)
  show ?thesis
  proof (cases "select_consumed E rid d")
    case (Ok fs)
    have "fs \<noteq> []" using selects_Ok [OF sel Ok] assms(2) by (auto simp: filter_empty_conv)
    then show ?thesis using Ok by (auto simp: consume_def consume_lookup_def or_else_def)
  qed (use sel in \<open>auto simp: consume_def consume_lookup_def or_else_def selects_def\<close>)
qed

subsection \<open>Results of the calls on an engine without faults\<close>

definition minted_row :: "ask \<Rightarrow> u8 list \<Rightarrow> ask_row" where
  "minted_row a bs =
     \<lparr>ar_ask_id = ask_id a, ar_holder_did = holder_did a, ar_axes_consumed = bs,
      ar_cap_root_hash = cap_root_hash a, ar_invocation_hash = invocation_hash a,
      ar_current_unix_time = sint (current_unix_time a), ar_output_hash = output_hash a,
      ar_settlement_hash = zero_hash, ar_state = ''Minted'', ar_created_at = sint (current_unix_time a),
      ar_settled_at = None, ar_consumed_at = None\<rparr>"

lemma mint_val:
  assumes "engine_laws E tabs" "fault_free E tabs" "axes_to_vec J (axes_consumed a) = Ok bs"
    and "ask_id a \<notin> ar_ask_id ` set (asks (tabs d))"
  shows "\<exists>d'. mint E R J a d = (Ok (), d') \<and> tabs d' = (tabs d)\<lparr>asks := asks (tabs d) @ [minted_row a bs]\<rparr>"
proof -
  have "run_stmt (InsertAsk (minted_row a bs)) (tabs d) = Some ((tabs d)\<lparr>asks := asks (tabs d) @ [minted_row a bs]\<rparr>)"
    using assms(4) by (simp add: minted_row_def)
  from run_execute_val [OF assms(1,2) this, of R "()"] show ?thesis
    using assms(3) by (simp add: mint_def minted_row_def or_else_def)
qed

text \<open>The columns that \<open>mint\<close> writes and no later statement changes.\<close>

definition holds_ask :: "json \<Rightarrow> ask \<Rightarrow> ask_row \<Rightarrow> bool" where
  "holds_ask J a r \<longleftrightarrow> ar_ask_id r = ask_id a \<and> ar_holder_did r = holder_did a
     \<and> axes_from_slice J (ar_axes_consumed r) = Ok (axes_consumed a) \<and> ar_cap_root_hash r = cap_root_hash a
     \<and> ar_invocation_hash r = invocation_hash a \<and> ar_current_unix_time r = sint (current_unix_time a)
     \<and> ar_output_hash r = output_hash a"

definition ask_wf :: "ask \<Rightarrow> bool" where
  "ask_wf a \<longleftrightarrow> length (ask_id a) = 32 \<and> length (cap_root_hash a) = 32 \<and> length (invocation_hash a) = 32
     \<and> (case output_hash a of Some h \<Rightarrow> length h = 32 | None \<Rightarrow> True)"

lemma holds_ask_rows:
  "holds_ask J a (settle_row h ts i r) = holds_ask J a r" "holds_ask J a (consume_row ts i r) = holds_ask J a r"
  by (simp_all add: holds_ask_def settle_row_def consume_row_def)

lemma filter_unique_row:
  "distinct (map ar_ask_id rs) \<Longrightarrow> r \<in> set rs \<Longrightarrow> filter (\<lambda>x. ar_ask_id x = ar_ask_id r) rs = [r]"
proof (induction rs)
  case (Cons x rs)
  then show ?case
    by (cases "x = r") (auto simp: filter_empty_conv image_iff)
qed simp

lemma get_val:
  assumes "engine_laws E tabs" "fault_free E tabs" "distinct (map ar_ask_id (asks (tabs d)))"
    and "r \<in> set (asks (tabs d))" "holds_ask J a r" "ask_wf a" "from_sql (ar_state r) = Some st"
  shows "get E R J (ask_id a) d = Ok (a, st)"
proof -
  have i: "ask_id a = ar_ask_id r" using assms(5) by (simp add: holds_ask_def)
  have sel: "selects (select_ask E (ask_id a) d) [r]"
    using engine_selects(3) [OF assms(1), of "ask_id a" d] filter_unique_row [OF assms(3,4)] i by simp
  obtain fs where "select_ask E (ask_id a) d = Ok fs" using assms(2) unfolding fault_free_def by blast
  then have "first_row R (AskNotFound (ask_id a)) (select_ask E (ask_id a) d) = Ok r"
    using first_row_Row [OF sel] by simp
  then show ?thesis
    using assms(5,6,7) by (cases a) (auto simp: get_def or_else_def holds_ask_def ask_wf_def split: option.splits)
qed

lemma settle_val:
  assumes "engine_laws E tabs" "fault_free E tabs" "get E R J i d = Ok (a, Minted)"
    and "ask_to_vec J a = Ok bs" "receipt_to_vec J r = Ok cs" "sr_ask_id r = i"
  shows "settle_prepare E R J B i r d = Ok (B (bs @ cs))"
    and "\<exists>d'. settle_commit E R i r h d0 = (Ok h, d')
           \<and> tabs d' = (tabs d0)\<lparr>asks := map (settle_row h (sint (sr_timestamp_unix r)) i) (asks (tabs d0))\<rparr>"
    and "\<exists>d'. settle_ask E R J B i r d = (Ok (B (bs @ cs)), d')
           \<and> tabs d' = (tabs d)\<lparr>asks := map (settle_row (B (bs @ cs)) (sint (sr_timestamp_unix r)) i) (asks (tabs d))\<rparr>"
proof -
  show p: "settle_prepare E R J B i r d = Ok (B (bs @ cs))"
    using assms by (simp add: settle_prepare_def or_else_def)
  have c: "\<exists>d'. settle_commit E R i r h d0 = (Ok h, d')
      \<and> tabs d' = (tabs d0)\<lparr>asks := map (settle_row h (sint (sr_timestamp_unix r)) i) (asks (tabs d0))\<rparr>" for h d0
    unfolding settle_commit_def by (rule run_execute_val [OF assms(1,2)]) simp
  then show "\<exists>d'. settle_commit E R i r h d0 = (Ok h, d')
      \<and> tabs d' = (tabs d0)\<lparr>asks := map (settle_row h (sint (sr_timestamp_unix r)) i) (asks (tabs d0))\<rparr>" .
  show "\<exists>d'. settle_ask E R J B i r d = (Ok (B (bs @ cs)), d')
      \<and> tabs d' = (tabs d)\<lparr>asks := map (settle_row (B (bs @ cs)) (sint (sr_timestamp_unix r)) i) (asks (tabs d))\<rparr>"
    using c [of "B (bs @ cs)" d] p assms(3) by (simp add: settle_ask_def settle_def transition_def)
qed

lemma consume_val:
  assumes laws: "engine_laws E tabs" "fault_free E tabs"
    and new: "rid \<notin> co_receipt_id ` set (consumed_receipt_index (tabs d))"
    and rows: "\<exists>r \<in> set (asks (tabs d)). ar_settlement_hash r = rid" "\<forall>r \<in> set (asks (tabs d)). length (ar_ask_id r) = 32"
  shows "\<exists>d' r. consume E R now rid d = (Ok (), d') \<and> r \<in> set (asks (tabs d)) \<and> ar_settlement_hash r = rid
    \<and> tabs d' = (tabs d)\<lparr>consumed_receipt_index := consumed_receipt_index (tabs d)
          @ [\<lparr>co_receipt_id = rid, co_ask_id = ar_ask_id r, co_consumed_at = sint now\<rparr>],
        asks := map (consume_row (sint now) (ar_ask_id r)) (asks (tabs d))\<rparr>"
proof -
  let ?ids = "map ar_ask_id (filter (\<lambda>r. ar_settlement_hash r = rid) (asks (tabs d)))"
  obtain fs gs where q: "select_consumed E rid d = Ok fs" "select_by_settlement E rid d = Ok gs"
    using laws(2) unfolding fault_free_def by blast
  have "selects (select_consumed E rid d) []"
  proof -
    have "filter (\<lambda>c. co_receipt_id c = rid) (consumed_receipt_index (tabs d)) = []"
      using new by (auto simp: filter_empty_conv)
    then show ?thesis using engine_selects(1) [OF laws(1), of rid d] by simp
  qed
  then have "fs = []" using selects_Ok q(1) by fastforce
  have sel: "selects (select_by_settlement E rid d) ?ids" using laws(1) by (simp add: engine_laws_def)
  have "?ids \<noteq> []" using rows(1) by (auto simp: filter_empty_conv)
  from first_row_Row [OF sel q(2) this] obtain aid where aid: "aid \<in> set ?ids"
    "first_row R (AskNotFound rid) (select_by_settlement E rid d) = Ok aid" by blast
  then obtain r where r: "r \<in> set (asks (tabs d))" "ar_settlement_hash r = rid" "ar_ask_id r = aid" by auto
  have lookup: "consume_lookup E R rid d = Ok aid"
    using q(1) \<open>fs = []\<close> aid(2) r rows(2) by (auto simp: consume_lookup_def or_else_def)
  let ?c = "\<lparr>co_receipt_id = rid, co_ask_id = aid, co_consumed_at = sint now\<rparr>"
  obtain d1 where d1: "execute E (InsertConsumed ?c) d = Ok d1"
      "tabs d1 = (tabs d)\<lparr>consumed_receipt_index := consumed_receipt_index (tabs d) @ [?c]\<rparr>"
    by (rule execute_val [OF laws, of "InsertConsumed ?c" d]) (use new in simp_all)
  obtain d2 where "run_execute E R (UpdateConsumed (sint now) aid) () d1 = (Ok (), d2)"
      "tabs d2 = (tabs d1)\<lparr>asks := map (consume_row (sint now) aid) (asks (tabs d1))\<rparr>"
    using run_execute_val [OF laws, of "UpdateConsumed (sint now) aid" d1
        "(tabs d1)\<lparr>asks := map (consume_row (sint now) aid) (asks (tabs d1))\<rparr>" R "()"] by auto
  then show ?thesis using r lookup d1 by (intro exI [of _ d2] exI [of _ r]) (simp add: consume_def)
qed

lemma ask_state_row: "distinct (map ar_ask_id (asks t)) \<Longrightarrow> r \<in> set (asks t) \<Longrightarrow> ask_state t (ar_ask_id r) = from_sql (ar_state r)"
  by (simp add: ask_state_def find_row_unique)

text \<open>Settling the only ask with an identifier under a hash no other ask has, and consuming it.\<close>

lemma settle_then_consume:
  assumes laws: "engine_laws E tabs" "fault_free E tabs"
    and ids: "distinct (map ar_ask_id (asks (tabs d)))" "\<forall>r \<in> set (asks (tabs d)). length (ar_ask_id r) = 32"
    and row: "row \<in> set (asks (tabs d))"
    and fresh: "h \<notin> co_receipt_id ` set (consumed_receipt_index (tabs d))" "\<forall>r \<in> set (asks (tabs d)). r \<noteq> row \<longrightarrow> ar_settlement_hash r \<noteq> h"
    and d1: "tabs d1 = (tabs d)\<lparr>asks := map (settle_row h ts (ar_ask_id row)) (asks (tabs d))\<rparr>"
  shows "\<exists>d2. consume E R now h d1 = (Ok (), d2)
    \<and> asks (tabs d2) = map (consume_row (sint now) (ar_ask_id row) \<circ> settle_row h ts (ar_ask_id row)) (asks (tabs d))
    \<and> set (consumed_receipt_index (tabs d2)) =
        insert \<lparr>co_receipt_id = h, co_ask_id = ar_ask_id row, co_consumed_at = sint now\<rparr> (set (consumed_receipt_index (tabs d)))
    \<and> ask_state (tabs d2) (ar_ask_id row) = Some Consumed"
proof -
  let ?f = "settle_row h ts (ar_ask_id row)"
  have same: "?f r = r" if "r \<in> set (asks (tabs d))" "r \<noteq> row" for r
    using row_unique [OF ids(1) that(1) row] that(2) by (auto simp: settle_row_def)
  have hash: "ar_settlement_hash (?f row) = h" by (simp add: settle_row_def)
  have only: "r = ?f row" if "r \<in> set (asks (tabs d1))" "ar_settlement_hash r = h" for r
    using that d1 same fresh(2) by (auto; metis)
  obtain d2 r where d2: "consume E R now h d1 = (Ok (), d2)" "r \<in> set (asks (tabs d1))" "ar_settlement_hash r = h"
      "tabs d2 = (tabs d1)\<lparr>consumed_receipt_index := consumed_receipt_index (tabs d1)
          @ [\<lparr>co_receipt_id = h, co_ask_id = ar_ask_id r, co_consumed_at = sint now\<rparr>],
        asks := map (consume_row (sint now) (ar_ask_id r)) (asks (tabs d1))\<rparr>"
  proof -
    have "\<exists>r \<in> set (asks (tabs d1)). ar_settlement_hash r = h" using d1 row hash by auto
    moreover have "\<forall>r \<in> set (asks (tabs d1)). length (ar_ask_id r) = 32"
        "h \<notin> co_receipt_id ` set (consumed_receipt_index (tabs d1))"
      using d1 ids(2) fresh(1) by auto
    ultimately show ?thesis using consume_val [OF laws, of h d1 R now] that by blast
  qed
  then have r: "r = ?f row" using only by blast
  have a2: "asks (tabs d2) = map (consume_row (sint now) (ar_ask_id row) \<circ> ?f) (asks (tabs d))"
    using d2(4) d1 r by simp
  have "ask_state (tabs d2) (ar_ask_id (consume_row (sint now) (ar_ask_id row) (?f row)))
      = from_sql (ar_state (consume_row (sint now) (ar_ask_id row) (?f row)))"
    by (rule ask_state_row) (use ids(1) row in \<open>simp_all add: a2 comp_def\<close>)
  then show ?thesis
    using d2(1,4) d1 r a2 by (simp add: consume_row_def settle_row_def)
qed

text \<open>A serializer for witnesses that knows one list of axes and one receipt field.\<close>

definition sample_json :: json where
  "sample_json = \<lparr>axes_to_vec = \<lambda>x. Ok (concat (map (\<lambda>(n, q). be_bytes 8 (int (length n)) @ ascii_bytes n @ be_bytes 8 (uint q)) x)),
     axes_from_slice = \<lambda>bs. if bs = [] then Ok [] else Err ''trailing characters'',
     ask_to_vec = \<lambda>a. Ok (ask_id a), receipt_to_vec = \<lambda>r. Ok (sr_router_sig r)\<rparr>"

definition sample_ask :: ask where
  "sample_ask = \<lparr>ask_id = replicate 32 1, holder_did = ''did'', axes_consumed = [], cap_root_hash = replicate 32 2,
     invocation_hash = replicate 32 3, current_unix_time = 7, output_hash = None\<rparr>"

definition sample_settle :: "u8 \<Rightarrow> settle_receipt" where
  "sample_settle n = \<lparr>sr_receipt_id = [], sr_ask_id = replicate 32 1, sr_settlement_hash = [], sr_router_id = ''r'',
     sr_router_sig = [n], sr_timestamp_unix = 8\<rparr>"

lemma empty_ok: "store_ok empty_tables"
  by (simp add: store_ok_def empty_tables_def)

subsection \<open>Properties\<close>

text \<open>C4: Every sequence of calls of the settlement store, one after the other and whatever they return,
  keeps it well-formed: identifiers are unique, an ask has a settlement hash only after it was settled, a
  consumed ask is in the index under its hash, and every index entry belongs to an ask. Over the sequence no
  ask disappears and each moves only along the transitions the state machine allows, no index entry is
  ever removed, and the receipts of the sink are only appended to and keep distinct identifiers. The calls
  are \<open>mint\<close>, \<open>settle\<close>, \<open>consume\<close> and \<open>append\<close> and the functions \<open>settle_ask\<close> and \<open>consume_receipt\<close>.\<close>

theorem settlement_store_invariant:
  assumes "engine_laws E tabs" "store_ok (tabs d)" "d' = fold (store_call E R J B K) cs d"
  shows "store_ok (tabs d')
    \<and> (\<forall>i s. ask_state (tabs d) i = Some s \<longrightarrow> (\<exists>s'. ask_state (tabs d') i = Some s' \<and> ask_edge\<^sup>*\<^sup>* s s'))
    \<and> set (consumed_receipt_index (tabs d)) \<subseteq> set (consumed_receipt_index (tabs d'))
    \<and> (\<exists>qs. canonical_receipts (tabs d') = canonical_receipts (tabs d) @ qs)
    \<and> (distinct (map rr_receipt_id (canonical_receipts (tabs d))) \<longrightarrow> distinct (map rr_receipt_id (canonical_receipts (tabs d'))))"
  unfolding assms(3) by (rule store_run [OF assms(1,2)])

theorem settlement_store_invariant_witness:
  "\<exists>t. t = fold (store_call table_engine no_redaction sample_json (\<lambda>_. replicate 32 9) (\<lambda>_ _. [0]))
        [OpSettle (replicate 32 1) (sample_settle 4), OpConsume 5 (replicate 32 9), OpSettle (replicate 32 1) (sample_settle 6),
         OpAppend (sample_receipt 7)] (empty_tables\<lparr>asks := [minted_row sample_ask []]\<rparr>)
     \<and> store_ok t \<and> ask_state t (replicate 32 1) \<noteq> None \<and> distinct (map rr_receipt_id (canonical_receipts t))"
proof -
  let ?t = "empty_tables\<lparr>asks := [minted_row sample_ask []]\<rparr>"
  have "store_ok ?t" "ask_state ?t (replicate 32 1) = Some Minted" "canonical_receipts ?t = []"
    by (simp_all add: store_ok_def empty_tables_def row_ok_def minted_row_def ask_state_def sample_ask_def)
  then show ?thesis using settlement_store_invariant [OF table_engine_laws(1) _ refl, of ?t] by fastforce
qed

text \<open>C5: A receipt is consumed at most once: after a successful \<open>consume\<close>, and any further calls, consuming
  the same receipt fails and changes nothing; unless the engine itself fails the error is
  \<open>AlreadyConsumed\<close>.\<close>

theorem settlement_consume_once:
  assumes "engine_laws E tabs" "store_ok (tabs d)" "consume_receipt E R now rid d = (Ok (), d')"
    and "d'' = fold (store_call E R J B K) cs d'"
  shows "\<exists>e. consume_receipt E R later rid d'' = (Err e, d'') \<and> (fault_free E tabs \<longrightarrow> e = AlreadyConsumed rid)"
proof -
  have st: "table_step (tabs d) (tabs d')" and idx: "rid \<in> co_receipt_id ` set (consumed_receipt_index (tabs d'))"
    using consume_step [OF assms(1), of d R now rid] assms(3) by (simp_all add: consume_receipt_def)
  then have "rid \<in> co_receipt_id ` set (consumed_receipt_index (tabs d''))"
    using store_run [OF assms(1) table_step_ok [OF st assms(2)], of R J B K cs] assms(4) by blast
  then obtain e where "consume E R later rid d'' = (Err e, d'')" "\<forall>fs. select_consumed E rid d'' = Ok fs \<longrightarrow> e = AlreadyConsumed rid"
    using consume_indexed [OF assms(1), of rid d'' R later] by (metis prod.inject outcome.inject(2))
  then show ?thesis unfolding consume_receipt_def fault_free_def by blast
qed

theorem settlement_consume_once_witness:
  "\<exists>e. consume_receipt table_engine no_redaction 6 (replicate 32 0)
      (snd (consume_receipt table_engine no_redaction 5 (replicate 32 0) (empty_tables\<lparr>asks := [minted_row sample_ask []]\<rparr>)))
    = (Err e, snd (consume_receipt table_engine no_redaction 5 (replicate 32 0) (empty_tables\<lparr>asks := [minted_row sample_ask []]\<rparr>)))"
proof -
  have "consume_receipt table_engine no_redaction 5 (replicate 32 0) (empty_tables\<lparr>asks := [minted_row sample_ask []]\<rparr>)
      = (Ok (), snd (consume_receipt table_engine no_redaction 5 (replicate 32 0) (empty_tables\<lparr>asks := [minted_row sample_ask []]\<rparr>)))"
    by (simp add: consume_receipt_def consume_def consume_lookup_def table_engine_def or_else_def first_row_def
        run_execute_def minted_row_def empty_tables_def sample_ask_def)
  moreover have "store_ok (empty_tables\<lparr>asks := [minted_row sample_ask []]\<rparr>)"
    by (simp add: store_ok_def empty_tables_def row_ok_def minted_row_def)
  ultimately show ?thesis
    using settlement_consume_once [OF table_engine_laws(1), where J = sample_json and B = "\<lambda>_. []" and K = "\<lambda>_ _. []" and cs = "[]"] by fastforce
qed

text \<open>C20: The intended path: minting a new ask, settling it with a receipt that names it and consuming the
  settlement hash all succeed, and \<open>get\<close> returns the ask unchanged in the states \<open>Minted\<close>, \<open>Settled\<close> and
  \<open>Consumed\<close>; the hash must be new to the store for the last step.\<close>

theorem settlement_completes:
  assumes laws: "engine_laws E tabs" "fault_free E tabs" "json_laws J a r"
    and ok: "store_ok (tabs d)" "\<forall>r \<in> set (asks (tabs d)). length (ar_ask_id r) = 32"
    and a: "ask_wf a" "ask_id a \<notin> ar_ask_id ` set (asks (tabs d))" "sr_ask_id r = ask_id a"
  shows "\<exists>d1 h d2. mint E R J a d = (Ok (), d1) \<and> get E R J (ask_id a) d1 = Ok (a, Minted)
    \<and> settle_ask E R J B (ask_id a) r d1 = (Ok h, d2) \<and> get E R J (ask_id a) d2 = Ok (a, Settled)
    \<and> (h \<notin> co_receipt_id ` set (consumed_receipt_index (tabs d)) \<and> h \<notin> ar_settlement_hash ` set (asks (tabs d)) \<longrightarrow>
       (\<exists>d3. consume_receipt E R now h d2 = (Ok (), d3) \<and> get E R J (ask_id a) d3 = Ok (a, Consumed)))"
proof -
  obtain bs where bs: "axes_to_vec J (axes_consumed a) = Ok bs" "axes_from_slice J bs = Ok (axes_consumed a)"
    using laws(3) unfolding json_laws_def by blast
  obtain ab rb where js: "ask_to_vec J a = Ok ab" "receipt_to_vec J r = Ok rb" using laws(3) unfolding json_laws_def by blast
  let ?row = "minted_row a bs" and ?h = "B (ab @ rb)" and ?ts = "sint (sr_timestamp_unix r)"
  obtain d1 where d1: "mint E R J a d = (Ok (), d1)" "tabs d1 = (tabs d)\<lparr>asks := asks (tabs d) @ [?row]\<rparr>"
    using mint_val [OF laws(1,2) bs(1) a(2)] by blast
  have i: "ar_ask_id ?row = ask_id a" by (simp add: minted_row_def)
  have dist: "distinct (map ar_ask_id (asks (tabs d1)))" using ok(1) a(2) i by (simp add: d1(2) store_ok_def)
  have holds: "holds_ask J a ?row" by (simp add: holds_ask_def minted_row_def bs)
  have g1: "get E R J (ask_id a) d1 = Ok (a, Minted)"
    by (rule get_val [OF laws(1,2) dist _ holds a(1)]) (simp_all add: d1(2), simp add: minted_row_def)
  obtain d2 where d2: "settle_ask E R J B (ask_id a) r d1 = (Ok ?h, d2)"
      "tabs d2 = (tabs d1)\<lparr>asks := map (settle_row ?h ?ts (ask_id a)) (asks (tabs d1))\<rparr>"
    using settle_val(3) [OF laws(1,2) g1 js a(3)] by blast
  have mem: "?row \<in> set (asks (tabs d1))" by (simp add: d1(2))
  have g2: "get E R J (ask_id a) d2 = Ok (a, Settled)"
    by (rule get_val [OF laws(1,2) _ _ _ a(1), where r = "settle_row ?h ?ts (ask_id a) ?row"])
      (use dist mem holds i in \<open>simp_all add: d2(2) comp_def holds_ask_rows\<close>, simp add: settle_row_def)
  have "\<exists>d3. consume_receipt E R now ?h d2 = (Ok (), d3) \<and> get E R J (ask_id a) d3 = Ok (a, Consumed)"
    if new: "?h \<notin> co_receipt_id ` set (consumed_receipt_index (tabs d))" "?h \<notin> ar_settlement_hash ` set (asks (tabs d))"
  proof -
    have "\<forall>r \<in> set (asks (tabs d1)). r \<noteq> ?row \<longrightarrow> ar_settlement_hash r \<noteq> ?h" using new(2) by (force simp: d1(2))
    then obtain d3 where d3: "consume E R now ?h d2 = (Ok (), d3)"
        "asks (tabs d3) = map (consume_row (sint now) (ask_id a) \<circ> settle_row ?h ?ts (ask_id a)) (asks (tabs d1))"
      using settle_then_consume [OF laws(1,2) dist _ mem, of ?h d2 ?ts R now] new(1) ok(2) a(1) d2(2) i
      by (auto simp: d1(2) ask_wf_def)
    have "get E R J (ask_id a) d3 = Ok (a, Consumed)"
      by (rule get_val [OF laws(1,2) _ _ _ a(1), where r = "consume_row (sint now) (ask_id a) (settle_row ?h ?ts (ask_id a) ?row)"])
        (use dist mem holds i in \<open>simp_all add: d3(2) comp_def holds_ask_rows\<close>, simp add: settle_row_def consume_row_def)
    then show ?thesis using d3(1) by (simp add: consume_receipt_def)
  qed
  then show ?thesis using d1(1) g1 d2(1) g2 by blast
qed

lemma sample_json_laws: "json_laws sample_json sample_ask (sample_settle n)"
  by (simp add: json_laws_def sample_json_def sample_ask_def)

theorem settlement_completes_witness:
  "\<exists>d1 h d2. mint table_engine no_redaction sample_json sample_ask empty_tables = (Ok (), d1)
    \<and> settle_ask table_engine no_redaction sample_json (\<lambda>b. b) (ask_id sample_ask) (sample_settle 4) d1 = (Ok h, d2)
    \<and> (\<exists>d3. consume_receipt table_engine no_redaction 9 h d2 = (Ok (), d3)
       \<and> get table_engine no_redaction sample_json (ask_id sample_ask) d3 = Ok (sample_ask, Consumed))"
proof -
  have e: "asks empty_tables = []" "consumed_receipt_index empty_tables = []" by (simp_all add: empty_tables_def)
  have w: "ask_wf sample_ask" "sr_ask_id (sample_settle 4) = ask_id sample_ask"
    by (simp_all add: sample_ask_def ask_wf_def sample_settle_def)
  show ?thesis
    using settlement_completes [OF table_engine_laws sample_json_laws [of 4] empty_ok _ w(1) _ w(2),
        of no_redaction "\<lambda>b. b" 9] unfolding e by fastforce
qed

text \<open>C22: A hash of zeros stands in the table for asks that have not been settled, and \<open>consume\<close> looks an ask
  up by its hash without checking its state: consuming the receipt of zeros succeeds once on every store
  with a minted ask, files a minted ask in the index as consumed, and leaves all asks as they were.\<close>

theorem settlement_consume_unsettled:
  assumes laws: "engine_laws E tabs" "fault_free E tabs"
    and ok: "store_ok (tabs d)" "\<forall>r \<in> set (asks (tabs d)). length (ar_ask_id r) = 32"
    and minted: "r \<in> set (asks (tabs d))" "ar_state r = ''Minted''"
    and zero: "\<forall>r \<in> set (asks (tabs d)). ar_settlement_hash r = zero_hash \<longrightarrow> ar_state r = ''Minted''"
      "zero_hash \<notin> co_receipt_id ` set (consumed_receipt_index (tabs d))"
  shows "\<exists>d' r'. consume_receipt E R now zero_hash d = (Ok (), d') \<and> asks (tabs d') = asks (tabs d)
    \<and> r' \<in> set (asks (tabs d)) \<and> ar_state r' = ''Minted''
    \<and> \<lparr>co_receipt_id = zero_hash, co_ask_id = ar_ask_id r', co_consumed_at = sint now\<rparr> \<in> set (consumed_receipt_index (tabs d'))"
proof -
  have "\<exists>r \<in> set (asks (tabs d)). ar_settlement_hash r = zero_hash"
    using ok(1) minted by (auto simp: store_ok_def row_ok_def)
  from consume_val [OF laws zero(2) this ok(2), of R now]
  obtain d' r' where d': "consume E R now zero_hash d = (Ok (), d')" "r' \<in> set (asks (tabs d))" "ar_settlement_hash r' = zero_hash"
      "tabs d' = (tabs d)\<lparr>consumed_receipt_index := consumed_receipt_index (tabs d)
          @ [\<lparr>co_receipt_id = zero_hash, co_ask_id = ar_ask_id r', co_consumed_at = sint now\<rparr>],
        asks := map (consume_row (sint now) (ar_ask_id r')) (asks (tabs d))\<rparr>"
    by blast
  have st: "ar_state r' = ''Minted''" using zero(1) d'(2,3) by blast
  have "consume_row (sint now) (ar_ask_id r') x = x" if "x \<in> set (asks (tabs d))" for x
  proof -
    have "ar_ask_id x = ar_ask_id r' \<Longrightarrow> x = r'" using row_unique [OF store_ok_ids [OF ok(1)] that d'(2)] .
    then show ?thesis using st by (auto simp: consume_row_def)
  qed
  then have "asks (tabs d') = asks (tabs d)" using d'(4) by (simp add: map_idI)
  then show ?thesis using d' st by (intro exI [of _ d'] exI [of _ r']) (simp add: consume_receipt_def)
qed

theorem settlement_consume_unsettled_witness:
  "fst (consume_receipt table_engine no_redaction 5 zero_hash (empty_tables\<lparr>asks := [minted_row sample_ask []]\<rparr>)) = Ok ()"
proof -
  have "store_ok (empty_tables\<lparr>asks := [minted_row sample_ask []]\<rparr>)"
    by (simp add: store_ok_def empty_tables_def row_ok_def minted_row_def)
  from settlement_consume_unsettled [OF table_engine_laws this, of "minted_row sample_ask []" no_redaction 5] show ?thesis
    by (auto simp: empty_tables_def minted_row_def sample_ask_def)
qed

text \<open>C21: \<open>settle\<close> reads the state of the ask in one critical section and writes in another, without the
  state in the condition of its update. When another settlement of the same ask and the consumption of
  its receipt run in between, the ask goes back from \<open>Consumed\<close> to \<open>Settled\<close>, and the second receipt
  is consumed as well: one ask is settled and consumed twice.\<close>

theorem settlement_settle_race:
  assumes laws: "engine_laws E tabs" "fault_free E tabs"
    and ok: "store_ok (tabs d)" "\<forall>r \<in> set (asks (tabs d)). length (ar_ask_id r) = 32"
    and prep: "settle_prepare E R J B i r1 d = Ok h1" "settle_prepare E R J B i r2 d = Ok h2" "h1 \<noteq> h2"
    and fresh: "\<forall>h \<in> {h1, h2}. h \<notin> co_receipt_id ` set (consumed_receipt_index (tabs d)) \<and> h \<notin> ar_settlement_hash ` set (asks (tabs d))"
  shows "\<exists>d2 d3 d4 d5. settle E R J B i r2 d = (Ok h2, d2)
    \<and> consume_receipt E R now h2 d2 = (Ok (), d3) \<and> ask_state (tabs d3) i = Some Consumed
    \<and> settle_commit E R i r1 h1 d3 = (Ok h1, d4) \<and> ask_state (tabs d4) i = Some Settled
    \<and> consume_receipt E R now h1 d4 = (Ok (), d5) \<and> ask_state (tabs d5) i = Some Consumed"
proof -
  let ?t1 = "sint (sr_timestamp_unix r1)" and ?t2 = "sint (sr_timestamp_unix r2)"
  have dist: "distinct (map ar_ask_id (asks (tabs d)))" using ok(1) by (simp add: store_ok_def)
  obtain row where row: "row \<in> set (asks (tabs d))" "ar_ask_id row = i" "ar_state row = ''Minted''"
    using settle_prepare_row [OF laws(1) prep(1)] by blast
  have commit: "\<exists>d'. settle_commit E R i r h d0 = (Ok h, d')
      \<and> tabs d' = (tabs d0)\<lparr>asks := map (settle_row h (sint (sr_timestamp_unix r)) i) (asks (tabs d0))\<rparr>" for r h d0
    unfolding settle_commit_def by (rule run_execute_val [OF laws]) simp
  obtain d2 where d2: "settle E R J B i r2 d = (Ok h2, d2)"
      "tabs d2 = (tabs d)\<lparr>asks := map (settle_row h2 ?t2 (ar_ask_id row)) (asks (tabs d))\<rparr>"
    using commit [of r2 h2 d] prep(2) row(2) by (auto simp: settle_def)
  have "\<forall>r \<in> set (asks (tabs d)). r \<noteq> row \<longrightarrow> ar_settlement_hash r \<noteq> h2" using fresh by auto
  then obtain d3 where d3: "consume E R now h2 d2 = (Ok (), d3)" "ask_state (tabs d3) i = Some Consumed"
      "asks (tabs d3) = map (consume_row (sint now) i \<circ> settle_row h2 ?t2 i) (asks (tabs d))"
      "set (consumed_receipt_index (tabs d3)) =
        insert \<lparr>co_receipt_id = h2, co_ask_id = i, co_consumed_at = sint now\<rparr> (set (consumed_receipt_index (tabs d)))"
    using settle_then_consume [OF laws dist ok(2) row(1) _ _ d2(2), of R now] fresh row(2) by auto
  let ?row = "consume_row (sint now) i (settle_row h2 ?t2 i row)"
  have row3: "?row \<in> set (asks (tabs d3))" "ar_ask_id ?row = i" using row d3(3) by auto
  have dist3: "distinct (map ar_ask_id (asks (tabs d3)))" using dist d3(3) by (simp add: comp_def)
  obtain d4 where d4: "settle_commit E R i r1 h1 d3 = (Ok h1, d4)"
      "tabs d4 = (tabs d3)\<lparr>asks := map (settle_row h1 ?t1 (ar_ask_id ?row)) (asks (tabs d3))\<rparr>"
    using commit [of r1 h1 d3] row3(2) by auto
  have "settle_row h1 ?t1 i ?row \<in> set (asks (tabs d4))" "distinct (map ar_ask_id (asks (tabs d4)))"
    using row3 dist3 by (simp_all add: d4(2) comp_def)
  then have s4: "ask_state (tabs d4) i = Some Settled"
    using ask_state_row [of "tabs d4" "settle_row h1 ?t1 i ?row"] row3(2) by (simp add: settle_row_def)
  have hash: "ar_settlement_hash x \<noteq> h1" if "x \<in> set (asks (tabs d3))" for x
    using that fresh prep(3) by (auto simp: d3(3) row_hashes split: if_splits)
  have "\<forall>r \<in> set (asks (tabs d3)). length (ar_ask_id r) = 32" "h1 \<notin> co_receipt_id ` set (consumed_receipt_index (tabs d3))"
    using ok(2) d3(3,4) fresh prep(3) by auto
  then obtain d5 where "consume E R now h1 d4 = (Ok (), d5)" "ask_state (tabs d5) i = Some Consumed"
    using settle_then_consume [OF laws dist3 _ row3(1) _ _ d4(2), of R now] hash row3(2) by auto
  then show ?thesis using d2(1) d3(1,2) d4(1) s4 by (auto simp: consume_receipt_def)
qed

theorem settlement_settle_race_witness:
  "\<exists>d2 d3 d4 d5. settle table_engine no_redaction sample_json (\<lambda>b. b) (replicate 32 1) (sample_settle 4) (empty_tables\<lparr>asks := [minted_row sample_ask []]\<rparr>)
        = (Ok (replicate 32 1 @ [4]), d2)
    \<and> consume_receipt table_engine no_redaction 5 (replicate 32 1 @ [4]) d2 = (Ok (), d3)
    \<and> settle_commit table_engine no_redaction (replicate 32 1) (sample_settle 6) (replicate 32 1 @ [6]) d3 = (Ok (replicate 32 1 @ [6]), d4)
    \<and> consume_receipt table_engine no_redaction 5 (replicate 32 1 @ [6]) d4 = (Ok (), d5)"
proof -
  let ?d = "empty_tables\<lparr>asks := [minted_row sample_ask []]\<rparr>"
  have ok: "store_ok ?d" by (simp add: store_ok_def empty_tables_def row_ok_def minted_row_def)
  have "get table_engine no_redaction sample_json (ask_id sample_ask) ?d = Ok (sample_ask, Minted)"
    by (rule get_val [OF table_engine_laws, where r = "minted_row sample_ask []"])
      (simp_all add: empty_tables_def holds_ask_def minted_row_def sample_ask_def sample_json_def ask_wf_def)
  then have p: "settle_prepare table_engine no_redaction sample_json (\<lambda>b. b) (replicate 32 1) (sample_settle n) ?d = Ok (replicate 32 1 @ [n])" for n
    by (simp add: settle_prepare_def or_else_def sample_json_def sample_ask_def sample_settle_def)
  have "length (replicate 32 1 @ [n]) \<noteq> length zero_hash" for n :: u8 by simp
  then have "replicate 32 1 @ [n] \<noteq> zero_hash" for n :: u8 by metis
  then have "\<forall>h \<in> {replicate 32 1 @ [6], replicate 32 1 @ [4]}. h \<notin> co_receipt_id ` set (consumed_receipt_index ?d)
      \<and> h \<notin> ar_settlement_hash ` set (asks ?d)"
    by (simp add: empty_tables_def minted_row_def)
  moreover have "\<forall>r \<in> set (asks ?d). length (ar_ask_id r) = 32" "replicate 32 (1 :: u8) @ [6] \<noteq> replicate 32 1 @ [4]"
    by (simp_all add: minted_row_def sample_ask_def)
  ultimately show ?thesis
    using settlement_settle_race [OF table_engine_laws ok _ p [of 6] p [of 4], where now = 5] by blast
qed

end
