(* ===== verification/ReceiptSink.thy ===== *)
theory ReceiptSink
  imports SettleStore
begin

text \<open>
  The append-only receipt sink of the settlement store against the receipt chain it persists.
\<close>

text \<open>The rows the sink writes for a list of receipts.\<close>

definition sink_row :: "receipt \<Rightarrow> receipt_row" where
  "sink_row r = \<lparr>rr_receipt_id = sint (receipt_id r), rr_ask_id = rc_ask_id r, rr_settlement_hash = settlement_hash r,
     rr_router_id = router_id r, rr_router_sig = router_sig r, rr_timestamp_unix = sint (timestamp_unix r)\<rparr>"

lemma sint_small: "uint (x :: u64) < 2 ^ 63 \<Longrightarrow> sint x = uint x"
  by (simp add: sint_uint) (rule signed_take_bit_int_eq_self, simp_all add: order_trans [OF _ uint_ge_0])

lemma uint_succ: "uint (x :: u64) < 2 ^ 63 \<Longrightarrow> uint (x + 1) = uint x + 1"
  by (simp add: uint_plus_if')

lemma chain_ids_sorted:
  assumes "successively (\<lambda>r s. receipt_id s = receipt_id r + 1) rs" "\<forall>r \<in> set rs. uint (receipt_id r) < 2 ^ 63" "r \<in> set rs"
  shows "uint (receipt_id r) \<le> uint (receipt_id (last rs))"
  using assms
proof (induction rs rule: rev_induct)
  case (snoc x rs)
  show ?case
  proof (cases "r = x \<or> rs = []")
    case False
    then have "uint (receipt_id r) \<le> uint (receipt_id (last rs))" using snoc by (simp add: successively_append_iff)
    also have "\<dots> < uint (receipt_id x)"
      using False snoc.prems uint_succ [of "receipt_id (last rs)"] by (simp add: successively_append_iff)
    finally show ?thesis by simp
  qed (use snoc.prems in auto)
qed simp

text \<open>The sink holds the chain \<open>rs\<close>, all of whose identifiers are positive as signed integers.\<close>

definition sink_holds :: "(u8 list \<Rightarrow> u8 list \<Rightarrow> u8 list) \<Rightarrow> receipt list \<Rightarrow> tables \<Rightarrow> bool" where
  "sink_holds K rs t \<longleftrightarrow> canonical_receipts t = map sink_row rs \<and> verify_receipt_chain K rs = Ok ()
     \<and> (\<forall>r \<in> set rs. uint (receipt_id r) < 2 ^ 63)"

lemma sink_max:
  assumes "sink_holds K rs t"
  shows "max_receipt t = (if rs = [] then None else Some (uint (receipt_id (last rs))))"
proof (cases "rs = []")
  case False
  have c: "successively (\<lambda>r s. receipt_id s = receipt_id r + 1) rs" "\<forall>r \<in> set rs. uint (receipt_id r) < 2 ^ 63"
    using assms by (simp_all add: sink_holds_def verify_chain_Ok)
  have "rr_receipt_id ` set (canonical_receipts t) = (\<lambda>r. uint (receipt_id r)) ` set rs"
    using assms c(2) by (auto simp: sink_holds_def sink_row_def sint_small image_iff)
  moreover have "Max ((\<lambda>r. uint (receipt_id r)) ` set rs) = uint (receipt_id (last rs))"
    by (rule Max_eqI) (use False chain_ids_sorted [OF c] in auto)
  moreover have "canonical_receipts t \<noteq> []" using assms False by (simp add: sink_holds_def)
  ultimately show ?thesis using False by (simp add: max_receipt_def)
qed (use assms in \<open>simp add: sink_holds_def max_receipt_def\<close>)

lemma read_max_val: "engine_laws E tabs \<Longrightarrow> fault_free E tabs \<Longrightarrow> read_max E R d = Ok (max_receipt (tabs d))"
proof -
  assume "engine_laws E tabs" "fault_free E tabs"
  moreover obtain fs where "select_max E d = Ok fs" using \<open>fault_free E tabs\<close> unfolding fault_free_def by blast
  ultimately have "select_max E d = Ok [Row (max_receipt (tabs d))]"
    using selects_Ok [OF engine_selects(4)] by fastforce
  then show ?thesis by (simp add: read_max_def or_else_def)
qed

text \<open>C6: The receipt sink refines the receipt chain. While the identifiers fit in 63 bits, the sink holding
  a chain accepts a receipt exactly when the chain extended by it passes the integrity check, and then
  holds the longer chain; otherwise nothing changes and the error is that of the check, except that a
  repetition of the last identifier is reported as such. The last identifier is that of the last receipt.\<close>

theorem receipt_sink_refines_chain:
  assumes laws: "engine_laws E tabs" "fault_free E tabs" and holds: "sink_holds K rs (tabs d)"
  shows "last_receipt_id E R d = Ok (if rs = [] then None else Some (receipt_id (last rs)))
    \<and> (case verify_receipt_chain K (rs @ [r]) of
        Ok _ \<Rightarrow> \<exists>d'. append_receipt E R K r d = (Ok (), d')
                   \<and> tabs d' = (tabs d)\<lparr>canonical_receipts := map sink_row (rs @ [r])\<rparr>
      | Err e \<Rightarrow> append_receipt E R K r d =
          (Err (if rs \<noteq> [] \<and> receipt_id r = receipt_id (last rs) then AlreadyExists (receipt_id r) else e), d)
      | Panic \<Rightarrow> False)"
proof -
  note m = read_max_val [OF laws, of R d] sink_max [OF holds]
  have ids: "\<forall>r \<in> set rs. uint (receipt_id r) < 2 ^ 63" "canonical_receipts (tabs d) = map sink_row rs"
    using holds by (simp_all add: sink_holds_def)
  have step: "verify_receipt_chain K (rs @ [r]) = (case link_error K (prev_id None rs) r of Some e \<Rightarrow> Err e | None \<Rightarrow> Ok ())"
    using holds by (simp add: sink_holds_def verify_receipt_chain_def verify_chain_append verify_chain_from_step
        del: verify_chain_from.simps(2) split: option.splits)
  show ?thesis
  proof (cases "link_error K (prev_id None rs) r")
    case None
    have "sint (receipt_id r) \<notin> rr_receipt_id ` set (canonical_receipts (tabs d))"
    proof
      assume "sint (receipt_id r) \<in> rr_receipt_id ` set (canonical_receipts (tabs d))"
      then obtain x where x: "x \<in> set rs" "sint (receipt_id x) = sint (receipt_id r)" using ids(2) by (auto simp: sink_row_def)
      then have "receipt_id r = receipt_id x" by (metis signed_word_eqI)
      moreover have "uint (receipt_id x) \<le> uint (receipt_id (last rs))"
        using chain_ids_sorted [OF _ ids(1) x(1)] holds by (simp add: sink_holds_def verify_chain_Ok)
      moreover have "receipt_id r = receipt_id (last rs) + 1" "uint (receipt_id (last rs)) < 2 ^ 63"
        using None x(1) ids(1) by (auto simp: link_error_def prev_id_def split: if_splits)
      ultimately show False using uint_succ [of "receipt_id (last rs)"] by simp
    qed
    then obtain d' where d': "execute E (InsertReceipt (sink_row r)) d = Ok d'"
        "tabs d' = (tabs d)\<lparr>canonical_receipts := canonical_receipts (tabs d) @ [sink_row r]\<rparr>"
      using execute_val [OF laws, of "InsertReceipt (sink_row r)" d] by (auto simp: sink_row_def)
    then have "append_receipt E R K r d = (Ok (), d')"
      using None m by (auto simp: append_receipt_def sink_row_def link_error_def prev_id_def Let_def split: if_splits)
    then show ?thesis using None step d'(2) ids(2) m by (simp add: last_receipt_id_def)
  next
    case (Some e)
    then have "append_receipt E R K r d =
        (Err (if rs \<noteq> [] \<and> receipt_id r = receipt_id (last rs) then AlreadyExists (receipt_id r) else e), d)"
      using m by (auto simp: append_receipt_def link_error_def prev_id_def Let_def split: if_splits)
    then show ?thesis using Some step m by (simp add: last_receipt_id_def)
  qed
qed

theorem receipt_sink_refines_chain_witness:
  "\<exists>d'. append_receipt table_engine no_redaction (\<lambda>_ _. [0]) (sample_receipt 8) (empty_tables\<lparr>canonical_receipts := [sink_row (sample_receipt 7)]\<rparr>)
     = (Ok (), d')"
proof -
  have "sink_holds (\<lambda>_ _. [0]) [sample_receipt 7] (empty_tables\<lparr>canonical_receipts := [sink_row (sample_receipt 7)]\<rparr>)"
    by (simp add: sink_holds_def sample_receipt_def verify_receipt_chain_def receipt_id_for_def Let_def)
  from receipt_sink_refines_chain [OF table_engine_laws this, of no_redaction "sample_receipt 8"] show ?thesis
    by (auto simp: sample_receipt_def verify_receipt_chain_def receipt_id_for_def Let_def)
qed

text \<open>Beyond 63 bits the sink and the chain part. Identifiers are stored as signed integers and the
  largest is read back with negative values taken for zero, so after a first receipt with identifier
  2 to the 63 the sink refuses its successor as a gap after zero and accepts a receipt with identifier
  one, with which the stored chain no longer passes the integrity check.\<close>

theorem receipt_sink_wraps:
  assumes laws: "engine_laws E tabs" "fault_free E tabs"
    and first: "canonical_receipts (tabs d) = [sink_row r]" "receipt_id r = 2 ^ 63" "settlement_hash r = receipt_id_for K r"
    and more: "receipt_id s = 2 ^ 63 + 1" "receipt_id u = 1" "settlement_hash u = receipt_id_for K u"
  shows "append_receipt E R K s d = (Err (SequenceGap (2 ^ 63 + 1) 0), d)
    \<and> (\<exists>d'. append_receipt E R K u d = (Ok (), d') \<and> canonical_receipts (tabs d') = [sink_row r, sink_row u])
    \<and> verify_receipt_chain K [r, u] = Err (SequenceGap 1 (2 ^ 63))"
proof -
  have m: "read_max E R d = Ok (Some (- (2 ^ 63)))"
    using read_max_val [OF laws, of R d] first(1,2) by (simp add: max_receipt_def sink_row_def)
  have "run_stmt (InsertReceipt (sink_row u)) (tabs d) = Some ((tabs d)\<lparr>canonical_receipts := [sink_row r, sink_row u]\<rparr>)"
    using first(1,2) more(2) by (simp add: sink_row_def)
  then obtain d' where "execute E (InsertReceipt (sink_row u)) d = Ok d'" "tabs d' = (tabs d)\<lparr>canonical_receipts := [sink_row r, sink_row u]\<rparr>"
    using execute_val [OF laws] by blast
  then have "append_receipt E R K u d = (Ok (), d')" "canonical_receipts (tabs d') = [sink_row r, sink_row u]"
    using m more(2,3) by (simp_all add: append_receipt_def sink_row_def Let_def)
  moreover have "append_receipt E R K s d = (Err (SequenceGap (2 ^ 63 + 1) 0), d)"
    using m more(1) by (simp add: append_receipt_def Let_def)
  moreover have "verify_receipt_chain K [r, u] = Err (SequenceGap 1 (2 ^ 63))"
    using first(2,3) more(2) by (simp add: verify_receipt_chain_def Let_def)
  ultimately show ?thesis by blast
qed

theorem receipt_sink_wraps_witness:
  "verify_receipt_chain (\<lambda>_ _. [0]) [sample_receipt (2 ^ 63), sample_receipt 1] = Err (SequenceGap 1 (2 ^ 63))"
  using receipt_sink_wraps [OF table_engine_laws, of "empty_tables\<lparr>canonical_receipts := [sink_row (sample_receipt (2 ^ 63))]\<rparr>"
      "sample_receipt (2 ^ 63)" "\<lambda>_ _. [0]" "sample_receipt (2 ^ 63 + 1)" "sample_receipt 1" no_redaction]
  by (simp add: sample_receipt_def receipt_id_for_def)

end
