(* ===== verification/Envelope.thy ===== *)
theory Envelope
  imports Receipts
begin

text \<open>
  Execution envelopes and shards of the settlement engine (\<open>quota-router-sm-engine/src/envelope.rs\<close> and
  \<open>shard.rs\<close>): the canonical bytes an envelope is signed and identified by, the size caps, the binding to
  the write-ahead log, replay protection, nested envelopes and the routing to shards. The rendering of
  a list of statements by \<open>serde_json\<close>, BLAKE3 and the rounding of \<open>f64\<close> are parameters. The traits
  \<open>ReplayIndex\<close> and \<open>ReplayIndexMut\<close> are the locale \<open>replay_index\<close>, interpreted on the index of the module.
\<close>

subsection \<open>Envelopes\<close>

definition MAX_STATEMENTS :: nat where "MAX_STATEMENTS = 1000"

definition MAX_ENVELOPE_BYTES :: nat where "MAX_ENVELOPE_BYTES = 1048576"

definition MAX_NESTING_DEPTH :: nat where "MAX_NESTING_DEPTH = 4"

definition VERSION_TAG :: u8 where "VERSION_TAG = 2"

definition SQL_STATEMENTS_HASH_PREFIX :: u8 where "SQL_STATEMENTS_HASH_PREFIX = 0xA3"

datatype EnvelopeMode = Deterministic | OffChain | AuditOnly

fun mode_byte :: "EnvelopeMode \<Rightarrow> u8" where
  "mode_byte Deterministic = 0"
| "mode_byte OffChain = 1"
| "mode_byte AuditOnly = 2"

record proc_invocation =
  proc_name :: string
  proc_args :: "string list"

datatype DdlOperation =
    CreateTable string "string list"
  | DropTable string
  | AlterTable string string

record execution_envelope =
  version :: u8
  session_id :: "u8 list"
  capability :: "u8 list"
  capability_holder :: string
  sql_statements :: "string list"
  stored_procs :: "proc_invocation list"
  ddl_changes :: "DdlOperation list"
  wal_segment_hash :: "u8 list"
  block_height :: u64
  nonce :: "u8 list"
  mode :: EnvelopeMode
  env_timestamp :: u64
  env_signature :: "u8 list"

datatype EnvelopeError =
    TooManyStatements nat
  | TooLarge nat
  | NestingDepthExceeded nat
  | SignatureInvalid
  | ReplayDetected "u8 list"
  | FutureBlock u64
  | EnvStorage string
  | WalHashMismatch "u8 list" "u8 list"
  | WalSegmentMissing "u8 list"
  | WalOutOfOrder u64 u64

definition unsigned_canonical_ser :: "(string list \<Rightarrow> string) \<Rightarrow> execution_envelope \<Rightarrow> u8 list" where
  "unsigned_canonical_ser json e =
     (let holder_bytes = ascii_bytes (capability_holder e); stmts_json = json (sql_statements e) in
      [version e] @ session_id e @ capability e @ be_bytes 4 (int (length holder_bytes)) @ holder_bytes
      @ be_bytes 4 (int (length stmts_json)) @ ascii_bytes stmts_json @ wal_segment_hash e
      @ be_bytes 8 (uint (block_height e)) @ nonce e @ [mode_byte (mode e)] @ be_bytes 8 (uint (env_timestamp e)))"

definition serialize_envelope :: "(string list \<Rightarrow> string) \<Rightarrow> execution_envelope \<Rightarrow> (u8 list, EnvelopeError) outcome" where
  "serialize_envelope json e = Ok (unsigned_canonical_ser json e @ env_signature e)"

definition build_envelope ::
    "(string list \<Rightarrow> string) \<Rightarrow> u8 list \<Rightarrow> u8 list \<Rightarrow> string \<Rightarrow> string list \<Rightarrow> proc_invocation list \<Rightarrow> DdlOperation list \<Rightarrow>
     u8 list \<Rightarrow> u64 \<Rightarrow> u8 list \<Rightarrow> EnvelopeMode \<Rightarrow> u64 \<Rightarrow> u8 list \<Rightarrow> (execution_envelope, EnvelopeError) outcome" where
  "build_envelope json sid cap holder stmts procs ddl wal height nnc md ts sig =
     (if length stmts > MAX_STATEMENTS then Err (TooManyStatements (length stmts))
      else let e = \<lparr>version = VERSION_TAG, session_id = sid, capability = cap, capability_holder = holder,
                    sql_statements = stmts, stored_procs = procs, ddl_changes = ddl, wal_segment_hash = wal,
                    block_height = height, nonce = nnc, mode = md, env_timestamp = ts, env_signature = sig\<rparr> in
        bind_ok (serialize_envelope json e) (\<lambda>bytes.
          if length bytes > MAX_ENVELOPE_BYTES then Err (TooLarge (length bytes)) else Ok e))"

definition sql_statements_hash :: "(u8 list \<Rightarrow> u8 list) \<Rightarrow> (string list \<Rightarrow> string) \<Rightarrow> string list \<Rightarrow> u8 list" where
  "sql_statements_hash blake3 json stmts = blake3 (SQL_STATEMENTS_HASH_PREFIX # ascii_bytes (json stmts))"

definition tentative_envelope_id :: "(u8 list \<Rightarrow> u8 list) \<Rightarrow> (string list \<Rightarrow> string) \<Rightarrow> execution_envelope \<Rightarrow> u8 list" where
  "tentative_envelope_id blake3 json e = blake3 (SQL_STATEMENTS_HASH_PREFIX # unsigned_canonical_ser json e)"

definition finalize_envelope_id :: "(u8 list \<Rightarrow> u8 list) \<Rightarrow> (string list \<Rightarrow> string) \<Rightarrow> execution_envelope \<Rightarrow> u8 list" where
  "finalize_envelope_id blake3 json e = tentative_envelope_id blake3 json e"

definition envelope_id :: "(u8 list \<Rightarrow> u8 list) \<Rightarrow> (string list \<Rightarrow> string) \<Rightarrow> execution_envelope \<Rightarrow> u8 list" where
  "envelope_id blake3 json e = tentative_envelope_id blake3 json e"

definition finalize_wal_hash :: "(u8 list \<Rightarrow> u8 list) \<Rightarrow> u8 list \<Rightarrow> u8 list \<Rightarrow> u8 list" where
  "finalize_wal_hash blake3 prev_segment_id segment_body = blake3 (prev_segment_id @ segment_body)"

definition verify_wal_hash_binding ::
    "execution_envelope \<Rightarrow> u8 list \<Rightarrow> u8 list \<Rightarrow> bool \<Rightarrow> u64 \<Rightarrow> u64 \<Rightarrow> (unit, EnvelopeError) outcome" where
  "verify_wal_hash_binding e tentative_id final_id segment_present segment_height local_chain_height =
     (if tentative_id \<noteq> final_id then Err (WalHashMismatch tentative_id final_id)
      else if \<not> segment_present then Err (WalSegmentMissing (wal_segment_hash e))
      else if segment_height > local_chain_height then Err (WalOutOfOrder segment_height local_chain_height)
      else Ok ())"

definition verify_envelope_signature ::
    "(u8 list \<Rightarrow> u8 list \<Rightarrow> u8 list) \<Rightarrow> dalek \<Rightarrow> (string list \<Rightarrow> string) \<Rightarrow> u8 list \<Rightarrow> execution_envelope \<Rightarrow> u8 list \<Rightarrow>
     algorithm_registry \<Rightarrow> (unit, EnvelopeError) outcome \<times> algorithm_registry" where
  "verify_envelope_signature U D json alg e holder_pub reg =
     (case verify_dispatch U D alg holder_pub (unsigned_canonical_ser json e) (env_signature e) reg of
        (r, reg') \<Rightarrow> (map_err (\<lambda>_. SignatureInvalid) r, reg'))"

subsection \<open>Replay protection\<close>

locale replay_index =
  fixes contains_for :: "'i \<Rightarrow> u8 list \<Rightarrow> u8 list \<Rightarrow> bool"
    and mark_for :: "u8 list \<Rightarrow> u8 list \<Rightarrow> 'i \<Rightarrow> 'i"
  assumes contains_mark: "contains_for (mark_for s n i) s' n' \<longleftrightarrow> s' = s \<and> n' = n \<or> contains_for i s' n'"
begin

lemma mark_again: "contains_for (mark_for s n i) s n"
  by (simp add: contains_mark)

lemma marks_kept: "contains_for i s n \<Longrightarrow> contains_for (fold (\<lambda>(t, m). mark_for t m) ms i) s n"
  by (induction ms arbitrary: i) (auto simp: contains_mark)

end

definition check_replay :: "('i \<Rightarrow> u8 list \<Rightarrow> u8 list \<Rightarrow> bool) \<Rightarrow> execution_envelope \<Rightarrow> 'i \<Rightarrow> (unit, EnvelopeError) outcome" where
  "check_replay contains_for e i =
     (if contains_for i (ascii_bytes (capability_holder e)) (nonce e) then Err (ReplayDetected (nonce e)) else Ok ())"

definition mark_consumed ::
    "('i \<Rightarrow> u8 list \<Rightarrow> u8 list \<Rightarrow> bool) \<Rightarrow> (u8 list \<Rightarrow> u8 list \<Rightarrow> 'i \<Rightarrow> 'i) \<Rightarrow> execution_envelope \<Rightarrow> 'i \<Rightarrow> (unit, EnvelopeError) outcome \<times> 'i" where
  "mark_consumed contains_for mark_for e i =
     (let signer_did = ascii_bytes (capability_holder e) in
      if contains_for i signer_did (nonce e) then (Err (ReplayDetected (nonce e)), i)
      else (Ok (), mark_for signer_did (nonce e) i))"

type_synonym in_memory_index = "(u8 list \<times> u8 list) list"

definition seen_contains :: "in_memory_index \<Rightarrow> u8 list \<Rightarrow> u8 list \<Rightarrow> bool" where
  "seen_contains seen signer_did n \<longleftrightarrow> list_ex (\<lambda>(d, m). d = signer_did \<and> m = n) seen"

definition seen_push :: "u8 list \<Rightarrow> u8 list \<Rightarrow> in_memory_index \<Rightarrow> in_memory_index" where
  "seen_push signer_did n seen = seen @ [(signer_did, n)]"

interpretation seen: replay_index seen_contains seen_push
  by unfold_locales (auto simp: seen_contains_def seen_push_def)

subsection \<open>Nested envelopes\<close>

datatype CompletionRule = AllRequired | Quorum | AnyOne

datatype FallbackAction = RollbackAll | CommitPartial | Abort

datatype multi_envelope = MultiEnvelope
  (sub_envelopes: "execution_envelope list")
  (completion_rule: CompletionRule)
  (completion_quorum_n: "nat option")
  (parent_sessions: "u8 list list")
  (timeout_unix_ms: u64)
  (fallback_action: FallbackAction)
  (nested: "multi_envelope option")

fun check_nesting_depth :: "multi_envelope \<Rightarrow> nat \<Rightarrow> (unit, EnvelopeError) outcome" where
  "check_nesting_depth (MultiEnvelope es cr q ps t f n) current_depth =
     (if current_depth \<ge> MAX_NESTING_DEPTH then Err (NestingDepthExceeded current_depth)
      else case n of
        Some m \<Rightarrow> check_nesting_depth m ((current_depth + 1) mod 256)
      | None \<Rightarrow> Ok ())"

definition validate :: "multi_envelope \<Rightarrow> (unit, EnvelopeError) outcome" where
  "validate m = check_nesting_depth m 0"

definition MULTI_ENVELOPE_ID_DOMAIN :: "u8 list" where
  "MULTI_ENVELOPE_ID_DOMAIN = ascii_bytes ''cipherocto/envelope/v1/multi_envelope_id''"

definition multi_envelope_id :: "(u8 list \<Rightarrow> u8 list) \<Rightarrow> (string list \<Rightarrow> string) \<Rightarrow> multi_envelope \<Rightarrow> u8 list" where
  "multi_envelope_id blake3 json m =
     blake3 (MULTI_ENVELOPE_ID_DOMAIN @ concat (sort (map (envelope_id blake3 json) (sub_envelopes m))))"

definition from_wire :: "(u8 list \<Rightarrow> (multi_envelope, string) outcome) \<Rightarrow> u8 list \<Rightarrow> (multi_envelope, EnvelopeError) outcome" where
  "from_wire from_slice bytes =
     bind_ok (map_err (\<lambda>e. EnvStorage (''MultiEnvelope wire decode failed: '' @ e)) (from_slice bytes)) (\<lambda>m.
       bind_ok (validate m) (\<lambda>_. Ok m))"

definition build_multi_envelope :: "execution_envelope list \<Rightarrow> CompletionRule \<Rightarrow> nat option \<Rightarrow> u8 list list \<Rightarrow> multi_envelope" where
  "build_multi_envelope es cr q ps = MultiEnvelope es cr q ps 5000 Abort None"

definition build_multi_envelope_with ::
    "execution_envelope list \<Rightarrow> CompletionRule \<Rightarrow> nat option \<Rightarrow> u8 list list \<Rightarrow> u64 \<Rightarrow> FallbackAction \<Rightarrow> (multi_envelope, EnvelopeError) outcome" where
  "build_multi_envelope_with es cr q ps t f =
     (let m = MultiEnvelope es cr q ps t f None in bind_ok (validate m) (\<lambda>_. Ok m))"

subsection \<open>Shards\<close>

datatype ShardError = ZeroShards

definition MIN_SHARDS :: nat where "MIN_SHARDS = 4"

definition MAX_SHARDS :: nat where "MAX_SHARDS = 256"

text \<open>\<open>fl\<close> rounds a real number to the nearest \<open>f64\<close>.\<close>

definition num_shards_for :: "(real \<Rightarrow> real) \<Rightarrow> nat \<Rightarrow> nat" where
  "num_shards_for fl n =
     (let sqrt_n = min (nat \<lceil>fl (sqrt (fl (real n)))\<rceil>) (2 ^ 32 - 1) in
      if sqrt_n < MIN_SHARDS then MIN_SHARDS else if sqrt_n > MAX_SHARDS then MAX_SHARDS else sqrt_n)"

definition shard_for_segment :: "(u8 list \<Rightarrow> u8 list) \<Rightarrow> u8 list \<Rightarrow> nat \<Rightarrow> (nat, ShardError) outcome" where
  "shard_for_segment blake3 wal_segment_id num_shards =
     (if num_shards = 0 then Err ZeroShards
      else if length (blake3 wal_segment_id) < 4 then Panic
      else Ok (nat (of_be_bytes (take 4 (blake3 wal_segment_id))) mod num_shards))"

record shard_map =
  num_shards :: nat
  sm_created_at_unix :: u64

definition for_cluster :: "(real \<Rightarrow> real) \<Rightarrow> nat \<Rightarrow> u64 \<Rightarrow> shard_map" where
  "for_cluster fl n created = \<lparr>num_shards = num_shards_for fl n, sm_created_at_unix = created\<rparr>"

definition route :: "(u8 list \<Rightarrow> u8 list) \<Rightarrow> shard_map \<Rightarrow> u8 list \<Rightarrow> (nat, ShardError) outcome" where
  "route blake3 sm wal_segment_id = shard_for_segment blake3 wal_segment_id (num_shards sm)"

subsection \<open>Properties of envelopes\<close>

definition envelope_wf :: "execution_envelope \<Rightarrow> bool" where
  "envelope_wf e \<longleftrightarrow> length (session_id e) = 32 \<and> length (capability e) = 32 \<and> length (wal_segment_hash e) = 32
     \<and> length (nonce e) = 32 \<and> length (capability_holder e) < 2 ^ 32"

lemma mode_byte_inj: "mode_byte m = mode_byte m' \<longleftrightarrow> m = m'"
  by (cases m; cases m') simp_all

lemma be_bytes_4_inj: "m < 2 ^ 32 \<Longrightarrow> n < 2 ^ 32 \<Longrightarrow> be_bytes 4 (int m) = be_bytes 4 (int n) \<longleftrightarrow> m = n"
  by (simp add: be_bytes_eq_iff)

text \<open>C17: The bytes an envelope is signed over determine every field but the stored procedures, the
  schema changes and the signature: for two envelopes they are the same exactly when those fields
  are. Procedures and schema changes are not covered at all: replacing them changes neither the
  envelope identifier nor the verdict on the signature nor the size that is checked.\<close>

theorem envelope_signature_coverage:
  assumes "envelope_wf e" "envelope_wf e'" "inj json"
  shows "(unsigned_canonical_ser json e = unsigned_canonical_ser json e' \<longleftrightarrow>
      (\<exists>procs ddl sig. e' = e\<lparr>stored_procs := procs, ddl_changes := ddl, env_signature := sig\<rparr>))
    \<and> envelope_id blake3 json (e\<lparr>stored_procs := procs, ddl_changes := ddl\<rparr>) = envelope_id blake3 json e
    \<and> verify_envelope_signature U D json alg (e\<lparr>stored_procs := procs, ddl_changes := ddl\<rparr>) key reg
        = verify_envelope_signature U D json alg e key reg
    \<and> serialize_envelope json (e\<lparr>stored_procs := procs, ddl_changes := ddl\<rparr>) = serialize_envelope json e"
proof -
  have ser: "unsigned_canonical_ser json (e\<lparr>stored_procs := procs, ddl_changes := ddl, env_signature := sig\<rparr>)
      = unsigned_canonical_ser json e" for procs ddl sig
    by (simp add: unsigned_canonical_ser_def)
  have "\<exists>procs ddl sig. e' = e\<lparr>stored_procs := procs, ddl_changes := ddl, env_signature := sig\<rparr>"
    if eq: "unsigned_canonical_ser json e = unsigned_canonical_ser json e'"
  proof -
    have h: "capability_holder e = capability_holder e'" and pre: "version e = version e'" "session_id e = session_id e'" "capability e = capability e'"
      and rest: "be_bytes 4 (int (length (json (sql_statements e)))) @ ascii_bytes (json (sql_statements e)) @ wal_segment_hash e
          @ be_bytes 8 (uint (block_height e)) @ nonce e @ [mode_byte (mode e)] @ be_bytes 8 (uint (env_timestamp e))
        = be_bytes 4 (int (length (json (sql_statements e')))) @ ascii_bytes (json (sql_statements e')) @ wal_segment_hash e'
          @ be_bytes 8 (uint (block_height e')) @ nonce e' @ [mode_byte (mode e')] @ be_bytes 8 (uint (env_timestamp e'))"
      using eq assms(1,2)
      by (auto simp: unsigned_canonical_ser_def Let_def envelope_wf_def be_bytes_4_inj ascii_bytes_inj)
    have "length (json (sql_statements e)) = length (json (sql_statements e'))"
      using arg_cong [OF rest, of length] assms(1,2) by (simp add: envelope_wf_def)
    with rest have "sql_statements e = sql_statements e'" "wal_segment_hash e = wal_segment_hash e'" "block_height e = block_height e'"
        "nonce e = nonce e'" "mode e = mode e'" "env_timestamp e = env_timestamp e'"
      using assms by (auto simp: envelope_wf_def ascii_bytes_inj inj_eq be_bytes_uint_inj mode_byte_inj)
    with h pre show ?thesis by (cases e; cases e') auto
  qed
  then show ?thesis
    using ser by (auto simp: envelope_id_def tentative_envelope_id_def verify_envelope_signature_def serialize_envelope_def unsigned_canonical_ser_def)
qed

definition sample_envelope :: "DdlOperation list \<Rightarrow> execution_envelope" where
  "sample_envelope ddl = \<lparr>version = 2, session_id = replicate 32 1, capability = replicate 32 2, capability_holder = ''did'',
     sql_statements = [], stored_procs = [], ddl_changes = ddl, wal_segment_hash = replicate 32 3, block_height = 9,
     nonce = replicate 32 4, mode = Deterministic, env_timestamp = 5, env_signature = [6]\<rparr>"

fun unary_json :: "string list \<Rightarrow> string" where
  "unary_json [] = []"
| "unary_json (s # ss) = concat (map (\<lambda>c. [CHR ''1'', c]) s) @ CHR ''0'' # unary_json ss"

lemma unary_json_inj: "inj unary_json"
proof -
  have step: "unary_json (s # ss) = unary_json (t # ts) \<longleftrightarrow> s = t \<and> unary_json ss = unary_json ts" for s t ss ts
  proof (induction s arbitrary: t)
    case Nil
    then show ?case by (cases t) auto
  next
    case (Cons c s)
    then show ?case by (cases t) auto
  qed
  have "unary_json ss = unary_json ts \<Longrightarrow> ss = ts" for ss ts
  proof (induction ss arbitrary: ts)
    case Nil
    then show ?case by (cases ts) auto
  next
    case (Cons s ss)
    then show ?case using step by (cases ts) (simp, metis)
  qed
  then show ?thesis by (rule injI)
qed

theorem envelope_signature_coverage_witness:
  "envelope_id (\<lambda>b. b) unary_json (sample_envelope []) = envelope_id (\<lambda>b. b) unary_json (sample_envelope [DropTable ''asks''])"
  using envelope_signature_coverage [of "sample_envelope []" "sample_envelope []" unary_json,
      where ?blake3.0 = "\<lambda>b. b" and procs = "[]" and ddl = "[DropTable ''asks'']"]
  by (simp add: sample_envelope_def envelope_wf_def unary_json_inj)

text \<open>An envelope is built exactly within the caps: at most 1000 statements and at most 1048576 bytes, the
  size being that of the holder, of the rendered statements and of the signature plus 154. The envelope
  has version 2 and the given fields, and each error tells the number that was too large.\<close>

theorem build_envelope_correct:
  assumes "length sid = 32" "length cap = 32" "length wal = 32" "length nnc = 32"
  shows "build_envelope json sid cap holder stmts procs ddl wal height nnc md ts sig =
    (if length stmts > 1000 then Err (TooManyStatements (length stmts))
     else let size = 154 + length holder + length (json stmts) + length sig in
       if size > 1048576 then Err (TooLarge size)
       else Ok \<lparr>version = 2, session_id = sid, capability = cap, capability_holder = holder, sql_statements = stmts,
         stored_procs = procs, ddl_changes = ddl, wal_segment_hash = wal, block_height = height, nonce = nnc,
         mode = md, env_timestamp = ts, env_signature = sig\<rparr>)"
proof -
  have "154 + length holder + length (json stmts) + length sig = length (unsigned_canonical_ser json
      \<lparr>version = 2, session_id = sid, capability = cap, capability_holder = holder, sql_statements = stmts,
         stored_procs = procs, ddl_changes = ddl, wal_segment_hash = wal, block_height = height, nonce = nnc,
         mode = md, env_timestamp = ts, env_signature = sig\<rparr>) + length sig"
    using assms by (simp add: unsigned_canonical_ser_def Let_def)
  then show ?thesis
    by (simp add: build_envelope_def serialize_envelope_def MAX_STATEMENTS_def MAX_ENVELOPE_BYTES_def VERSION_TAG_def Let_def)
qed

theorem build_envelope_witness:
  "build_envelope (\<lambda>_. replicate 1048576 CHR ''x'') (replicate 32 1) (replicate 32 2) [] [] [] [] (replicate 32 3) 0 (replicate 32 4) OffChain 0 []
    = Err (TooLarge 1048730)"
  by (subst build_envelope_correct) simp_all

text \<open>After an envelope has been marked as consumed, and whatever was marked later, an envelope of the
  same holder with the same nonce is a replay for both checks; an envelope of another holder or with
  another nonce is not affected.\<close>

theorem envelope_replay_protection:
  assumes "mark_consumed seen_contains seen_push e i = (Ok (), i')"
  shows "check_replay seen_contains e i = Ok ()
    \<and> (capability_holder e' = capability_holder e \<and> nonce e' = nonce e \<longrightarrow>
        check_replay seen_contains e' (fold (\<lambda>(d, n). seen_push d n) ms i') = Err (ReplayDetected (nonce e))
        \<and> mark_consumed seen_contains seen_push e' (fold (\<lambda>(d, n). seen_push d n) ms i')
            = (Err (ReplayDetected (nonce e)), fold (\<lambda>(d, n). seen_push d n) ms i'))
    \<and> (capability_holder e' \<noteq> capability_holder e \<or> nonce e' \<noteq> nonce e \<longrightarrow>
        check_replay seen_contains e' i' = check_replay seen_contains e' i)"
proof -
  have i': "i' = seen_push (ascii_bytes (capability_holder e)) (nonce e) i" "\<not> seen_contains i (ascii_bytes (capability_holder e)) (nonce e)"
    using assms by (auto simp: mark_consumed_def Let_def split: if_splits)
  then have "seen_contains (fold (\<lambda>(d, n). seen_push d n) ms i') (ascii_bytes (capability_holder e)) (nonce e)"
    using seen.marks_kept seen.mark_again by blast
  then show ?thesis
    using i' seen.contains_mark by (auto simp: check_replay_def mark_consumed_def Let_def ascii_bytes_inj)
qed

theorem envelope_replay_witness:
  "check_replay seen_contains (sample_envelope [DropTable ''asks''])
     (snd (mark_consumed seen_contains seen_push (sample_envelope []) [])) = Err (ReplayDetected (replicate 32 4))"
  using envelope_replay_protection [of "sample_envelope []" "[]" "snd (mark_consumed seen_contains seen_push (sample_envelope []) [])"
      "sample_envelope [DropTable ''asks'']" "[]"]
  by (simp add: mark_consumed_def seen_contains_def sample_envelope_def)

fun nesting :: "multi_envelope \<Rightarrow> nat" where
  "nesting (MultiEnvelope es cr q ps t f n) = (case n of Some m \<Rightarrow> Suc (nesting m) | None \<Rightarrow> 1)"

lemma nesting_pos: "nesting m \<ge> 1"
  by (cases m) (auto split: option.splits)

lemma check_nesting: "d \<le> 4 \<Longrightarrow> check_nesting_depth m d = (if d + nesting m \<le> 4 then Ok () else Err (NestingDepthExceeded 4))"
proof (induction m d rule: check_nesting_depth.induct)
  case (1 es cr q ps t f n d)
  show ?case
  proof (cases "d = 4")
    case False
    then show ?thesis
      using 1 by (cases n) (auto simp: MAX_NESTING_DEPTH_def)
  qed (use nesting_pos [of "MultiEnvelope es cr q ps t f n"] in \<open>auto simp: MAX_NESTING_DEPTH_def\<close>)
qed

text \<open>A nested envelope passes validation exactly when at most four envelopes are nested; otherwise the
  error reports depth four. Decoding from the wire rejects every other envelope, the two builders
  always pass. The identifier of a nested envelope does not depend on the order of its parts.\<close>

theorem multi_envelope_correct:
  "(validate m = (if nesting m \<le> 4 then Ok () else Err (NestingDepthExceeded 4)))
   \<and> (from_wire from_slice bytes = Ok m \<longleftrightarrow> from_slice bytes = Ok m \<and> nesting m \<le> 4)
   \<and> validate (build_multi_envelope es cr q ps) = Ok ()
   \<and> build_multi_envelope_with es cr q ps t f = Ok (MultiEnvelope es cr q ps t f None)
   \<and> (mset es = mset es' \<longrightarrow>
       multi_envelope_id blake3 json (MultiEnvelope es cr q ps t f n) = multi_envelope_id blake3 json (MultiEnvelope es' cr' q' ps' t' f' n'))"
proof -
  have v: "validate m = (if nesting m \<le> 4 then Ok () else Err (NestingDepthExceeded 4))" for m
    using check_nesting [of 0 m] by (simp add: validate_def)
  have "from_wire from_slice bytes = Ok m \<longleftrightarrow> from_slice bytes = Ok m \<and> nesting m \<le> 4"
    by (auto simp: from_wire_def v split: if_splits)
  moreover have "sort (map g es) = sort (map g es')" if "mset es = mset es'" for g :: "execution_envelope \<Rightarrow> u8 list"
    using that by (intro properties_for_sort) (simp_all)
  ultimately show ?thesis
    by (auto simp: v build_multi_envelope_def build_multi_envelope_with_def multi_envelope_id_def)
qed

theorem multi_envelope_witness:
  "multi_envelope_id (\<lambda>b. b) unary_json (MultiEnvelope [sample_envelope [], sample_envelope [DropTable ''x'']] Quorum None [] 0 Abort None)
   = multi_envelope_id (\<lambda>b. b) unary_json (MultiEnvelope [sample_envelope [DropTable ''x''], sample_envelope []] Quorum None [] 0 Abort None)"
  using multi_envelope_correct [of "MultiEnvelope [] Quorum None [] 0 Abort None" "\<lambda>_. Panic" "[]"
      "[sample_envelope [], sample_envelope [DropTable ''x'']]" Quorum None "[]" 0 Abort "[sample_envelope [DropTable ''x''], sample_envelope []]"
      "\<lambda>b. b" unary_json None Quorum None "[]" 0 Abort None] by simp

subsection \<open>Properties of shards\<close>

text \<open>What is used of the rounding to \<open>f64\<close>: between 0 and 2 to the 64 it is monotone, it is exact on integers up
  to 2 to the 53, and its relative error is at most 2 to the -53 for numbers from one.\<close>

definition f64_rounding :: "(real \<Rightarrow> real) \<Rightarrow> bool" where
  "f64_rounding fl \<longleftrightarrow> mono_on {0 .. 2 ^ 64} fl \<and> (\<forall>k :: nat. k \<le> 2 ^ 53 \<longrightarrow> fl (real k) = real k) \<and> (\<forall>x. 1 \<le> x \<and> x \<le> 2 ^ 64 \<longrightarrow> \<bar>fl x - x\<bar> \<le> x / 2 ^ 53)"

lemma rounded_root:
  assumes fl: "f64_rounding fl" and n: "n \<le> 65536"
  shows "nat \<lceil>fl (sqrt (real n))\<rceil> = nat \<lceil>sqrt (real n)\<rceil>"
proof -
  define k where "k = nat \<lceil>sqrt (real n)\<rceil>"
  have "sqrt (real n) \<le> 256" using real_sqrt_le_mono [of "real n" 65536] n by (simp add: real_sqrt_eq_iff [of 65536 "256 ^ 2", simplified])
  then have k: "k \<le> 256" "real k \<ge> sqrt (real n)" "n > 0 \<Longrightarrow> real k - 1 < sqrt (real n)"
    unfolding k_def by (linarith | simp add: of_nat_ceiling)+
  have up: "fl (sqrt (real n)) \<le> real k"
    using mono_onD [OF conjunct1 [OF fl [unfolded f64_rounding_def]], of "sqrt (real n)" "real k"] fl k(1,2) n
    by (simp add: f64_rounding_def)
  show ?thesis
  proof (cases "n = 0")
    case False
    then have k0: "k > 0" "real k - 1 < sqrt (real n)" using k(2,3) by (auto intro: gr0I)
    have "real ((k - 1) ^ 2) < real n"
    proof -
      have "(real k - 1)\<^sup>2 < (sqrt (real n))\<^sup>2" using k0 by (intro power_strict_mono) simp_all
      then show ?thesis using k0(1) by simp
    qed
    then have "(real k - 1)\<^sup>2 + 1 \<le> real n" using k0(1)
      by (metis Suc_leI of_nat_1 of_nat_Suc of_nat_diff of_nat_le_iff of_nat_less_iff of_nat_power Suc_le_eq One_nat_def add.commute)
    moreover have "(real k - 1 + 1 / 1024)\<^sup>2 < (real k - 1)\<^sup>2 + 1"
      using k(1) k0(1) by (simp add: power2_eq_square algebra_simps)
    ultimately have "real k - 1 + 1 / 1024 < sqrt (real n)"
      by (intro real_less_rsqrt) linarith
    moreover have "\<bar>fl (sqrt (real n)) - sqrt (real n)\<bar> \<le> sqrt (real n) / 2 ^ 53"
      using fl False \<open>sqrt (real n) \<le> 256\<close> by (simp add: f64_rounding_def)
    moreover have "sqrt (real n) / 2 ^ 53 < 1 / 1024" using \<open>sqrt (real n) \<le> 256\<close> by simp
    ultimately have "real k - 1 < fl (sqrt (real n))" by linarith
    then have "\<lceil>fl (sqrt (real n))\<rceil> = int k" using up by (intro ceiling_unique) simp_all
    then have "nat \<lceil>fl (sqrt (real n))\<rceil> = k" by simp
    then show ?thesis unfolding k_def .
  qed (use fl in \<open>auto simp: f64_rounding_def dest: spec [of _ 0]\<close>)
qed

lemma num_shards_clamp: "num_shards_for fl n = max 4 (min 256 (nat \<lceil>fl (sqrt (fl (real n)))\<rceil>))"
proof -
  have "(let s = min k (2 ^ 32 - 1) in if s < MIN_SHARDS then MIN_SHARDS else if s > MAX_SHARDS then MAX_SHARDS else s)
      = max 4 (min 256 k)" for k :: nat
    by (simp add: MIN_SHARDS_def MAX_SHARDS_def Let_def)
  then show ?thesis by (simp only: num_shards_for_def)
qed

text \<open>A cluster of \<open>n\<close> nodes gets the square root of \<open>n\<close> rounded up as its number of shards, but at least
  4 and at most 256: the detour through \<open>f64\<close> never changes the result. A segment is always routed to one
  of these shards, the same for the same hash.\<close>

theorem shard_map_correct:
  assumes "f64_rounding fl" "\<And>b. length (blake3 b) = 32" "n < 2 ^ 64"
  shows "num_shards (for_cluster fl n c) = max 4 (min 256 (nat \<lceil>sqrt (real n)\<rceil>))
    \<and> (\<exists>i. route blake3 (for_cluster fl n c) seg = Ok i \<and> i < num_shards (for_cluster fl n c)
        \<and> i = nat (of_be_bytes (take 4 (blake3 seg))) mod num_shards (for_cluster fl n c))"
proof -
  have "num_shards_for fl n = max 4 (min 256 (nat \<lceil>sqrt (real n)\<rceil>))"
  proof (cases "n \<le> 65536")
    case True
    then have "fl (real n) = real n" using assms(1) by (simp add: f64_rounding_def)
    then show ?thesis using rounded_root [OF assms(1) True] by (simp only: num_shards_clamp)
  next
    case False
    have big: "256 \<le> sqrt x" if "65536 \<le> x" for x :: real using that by (intro real_le_rsqrt) simp
    have f: "mono_on {0 .. 2 ^ 64} fl" "fl 65536 = 65536" "fl 256 = 256"
      using assms(1) unfolding f64_rounding_def by (auto dest: spec [of _ 65536] spec [of _ 256])
    have n: "real n \<le> 2 ^ 64" "1 \<le> real n" using assms(3) False by (simp_all flip: of_nat_power)
    then have "fl 65536 \<le> fl (real n)" using False by (intro mono_onD [OF f(1)]) simp_all
    moreover have "fl (real n) \<le> 2 ^ 128"
    proof -
      have "\<bar>fl (real n) - real n\<bar> \<le> real n / 2 ^ 53" using assms(1) n by (simp add: f64_rounding_def)
      then have "fl (real n) \<le> real n + real n / 2 ^ 53" by linarith
      also have "\<dots> \<le> 2 ^ 64 + 2 ^ 64 / 2 ^ 53" using n(1) by (intro add_mono divide_right_mono) simp_all
      finally show ?thesis by simp
    qed
    then have "sqrt (fl (real n)) \<le> 2 ^ 64" by (intro real_le_lsqrt) simp_all
    ultimately have "fl 256 \<le> fl (sqrt (fl (real n)))"
      using f(2) big [of "fl (real n)"] by (intro mono_onD [OF f(1)]) simp_all
    then have "256 \<le> nat \<lceil>fl (sqrt (fl (real n)))\<rceil>" using f(3) by linarith
    moreover have "256 \<le> nat \<lceil>sqrt (real n)\<rceil>" using big [of "real n"] False by linarith
    ultimately show ?thesis by (simp only: num_shards_clamp min_absorb1)
  qed
  then show ?thesis
    using assms(2) by (simp add: for_cluster_def route_def shard_for_segment_def)
qed

theorem shard_map_witness:
  "num_shards (for_cluster (\<lambda>x. x) 0 0) = 4"
  using shard_map_correct [of "\<lambda>x. x" "\<lambda>_. replicate 32 0" 0 0 "[]"] by (simp add: f64_rounding_def mono_on_def)

end
