(* ===== verification/Coordinator.thy ===== *)
theory Coordinator
  imports Receipts
begin

text \<open>
  The coordinator substrate (\<open>octo-coordinator-types/src\<close>): the slash reason codes of \<open>lib.rs\<close>, the life
  cycle and the record of a coordinator (\<open>state.rs\<close>), the liveness rule (\<open>liveness.rs\<close>), slash proofs,
  their application and the cool-down list (\<open>slashing.rs\<close>). A method on \<open>&mut\<close> values returns its result
  and the new values, also when it fails half-way. BLAKE3 is a parameter; the registry of signature
  algorithms is the state of \<open>SigAlgs\<close>.
\<close>

type_synonym u16 = "16 word"
type_synonym u32 = "32 word"
type_synonym CoordinatorId = "u8 list"

subsection \<open>Slash reasons\<close>

record slash_tally_update =
  slash_reason_code :: u16
  slashed_peer_id :: CoordinatorId
  witness_count :: u16
  tally_epoch :: u64

datatype SlashReasonCode =
    DoubleSign | LivenessFailure | FounderSquat | Censorship | CoordinatorMisbehavior | KeyCompromise
  | BanningLegitimateMember | VoteBuying | GenesisCompromise | PlatformMigration | IsReconnectLie
  | CreateGroupFailed | CgGroupSpam | FalseWitness | SelfKicked | CrossPlatformWitnessCollusion
  | FalseAttestation | QuorumTimeout | TallyTamper | LateDelivery
  | Extension u16

fun reason_id :: "SlashReasonCode \<Rightarrow> u16" where
  "reason_id DoubleSign = 0x01"
| "reason_id LivenessFailure = 0x02"
| "reason_id FounderSquat = 0x03"
| "reason_id Censorship = 0x04"
| "reason_id CoordinatorMisbehavior = 0x05"
| "reason_id KeyCompromise = 0x06"
| "reason_id BanningLegitimateMember = 0x07"
| "reason_id VoteBuying = 0x08"
| "reason_id GenesisCompromise = 0x09"
| "reason_id PlatformMigration = 0x0A"
| "reason_id IsReconnectLie = 0x0B"
| "reason_id CreateGroupFailed = 0x0E"
| "reason_id CgGroupSpam = 0x0F"
| "reason_id FalseWitness = 0x10"
| "reason_id SelfKicked = 0x11"
| "reason_id CrossPlatformWitnessCollusion = 0x12"
| "reason_id FalseAttestation = 0x13"
| "reason_id QuorumTimeout = 0x14"
| "reason_id TallyTamper = 0x15"
| "reason_id LateDelivery = 0x16"
| "reason_id (Extension i) = i"

definition from_reason_id :: "u16 \<Rightarrow> SlashReasonCode" where
  "from_reason_id i =
     (if i = 0x01 then DoubleSign
      else if i = 0x02 then LivenessFailure
      else if i = 0x03 then FounderSquat
      else if i = 0x04 then Censorship
      else if i = 0x05 then CoordinatorMisbehavior
      else if i = 0x06 then KeyCompromise
      else if i = 0x07 then BanningLegitimateMember
      else if i = 0x08 then VoteBuying
      else if i = 0x09 then GenesisCompromise
      else if i = 0x0A then PlatformMigration
      else if i = 0x0B then IsReconnectLie
      else if i = 0x0E then CreateGroupFailed
      else if i = 0x0F then CgGroupSpam
      else if i = 0x10 then FalseWitness
      else if i = 0x11 then SelfKicked
      else if i = 0x12 then CrossPlatformWitnessCollusion
      else if i = 0x13 then FalseAttestation
      else if i = 0x14 then QuorumTimeout
      else if i = 0x15 then TallyTamper
      else if i = 0x16 then LateDelivery
      else Extension i)"

definition try_from_reason_id :: "u16 \<Rightarrow> (SlashReasonCode, u16) outcome" where
  "try_from_reason_id i =
     (if 0x0C \<le> i \<and> i \<le> 0x0D \<or> 0x17 \<le> i \<and> i \<le> 0xFF then Err i else Ok (from_reason_id i))"

subsection \<open>The life cycle and the record\<close>

datatype CoordinatorSource = GenesisDesignation | Election | Handover | Emergency

datatype CoordinatorLifecycle = Designated | Elected | Active | Suspect | Handover | Demoting | Resigned | Inactive

fun lifecycle_discriminant :: "CoordinatorLifecycle \<Rightarrow> u8" where
  "lifecycle_discriminant Designated = 0"
| "lifecycle_discriminant Elected = 1"
| "lifecycle_discriminant CoordinatorLifecycle.Active = 2"
| "lifecycle_discriminant Suspect = 3"
| "lifecycle_discriminant CoordinatorLifecycle.Handover = 4"
| "lifecycle_discriminant Demoting = 5"
| "lifecycle_discriminant Resigned = 6"
| "lifecycle_discriminant Inactive = 7"

fun source_discriminant :: "CoordinatorSource \<Rightarrow> u8" where
  "source_discriminant GenesisDesignation = 0"
| "source_discriminant Election = 1"
| "source_discriminant CoordinatorSource.Handover = 2"
| "source_discriminant Emergency = 3"

record coordinator_record =
  coordinator_peer_id :: CoordinatorId
  rec_state :: CoordinatorLifecycle
  term_start_epoch :: u64
  term_end_epoch :: u64
  rec_source :: CoordinatorSource
  coordinator_term_id :: "u8 list"
  slash_count :: u32
  octo_o_stake_locked :: u64
  last_heartbeat_epoch :: u64
  heartbeat_interval :: u64

record slash_proof =
  slash_id :: "u8 list"
  proof_coordinator :: CoordinatorId
  proof_term_id :: "u8 list"
  offense :: u16
  evidence :: "u8 list"
  penalty :: u64
  adjudicator :: CoordinatorId
  adjudicator_signature :: "u8 list"

datatype CoordinatorError =
    InvalidTransition CoordinatorLifecycle CoordinatorLifecycle
  | InvalidProvenance string
  | TermEndEpochExceedsMax u64 u64
  | HeartbeatOutOfRange u64
  | SlashCountOverflow u32
  | StakeUnderflow u64 u64
  | ElectionTimeout u64
  | NoCandidates
  | GovernanceModelNotImplemented u16
  | UnknownOffenseCode u16
  | InvalidAdjudicatorSignature
  | TermIdMismatch "u8 list" "u8 list"

definition COORDINATOR_DOMAIN :: "u8 list" where
  "COORDINATOR_DOMAIN = ascii_bytes ''cipherocto/coordinator/state/v1''"

text \<open>The derived Borsh encoding: fields in order, integers little endian, enums as their discriminant.\<close>

definition record_borsh :: "coordinator_record \<Rightarrow> u8 list" where
  "record_borsh r =
     coordinator_peer_id r @ [lifecycle_discriminant (rec_state r)] @ le_bytes 8 (uint (term_start_epoch r))
     @ le_bytes 8 (uint (term_end_epoch r)) @ [source_discriminant (rec_source r)] @ coordinator_term_id r
     @ le_bytes 4 (uint (slash_count r)) @ le_bytes 8 (uint (octo_o_stake_locked r))
     @ le_bytes 8 (uint (last_heartbeat_epoch r)) @ le_bytes 8 (uint (heartbeat_interval r))"

definition blake3_hash_with_domain :: "(u8 list \<Rightarrow> u8 list) \<Rightarrow> u8 list \<Rightarrow> u8 list \<Rightarrow> u8 list" where
  "blake3_hash_with_domain blake3 domain message = blake3 (domain @ message)"

definition canonical_bytes :: "(u8 list \<Rightarrow> u8 list) \<Rightarrow> coordinator_record \<Rightarrow> u8 list" where
  "canonical_bytes blake3 r = blake3_hash_with_domain blake3 COORDINATOR_DOMAIN (record_borsh r)"

definition transition_valid :: "CoordinatorLifecycle \<Rightarrow> CoordinatorLifecycle \<Rightarrow> bool" where
  "transition_valid from to \<longleftrightarrow>
     (from, to) \<in> {(Designated, Elected), (Elected, Active), (Active, Active), (Active, Suspect), (Suspect, Active),
        (Suspect, Handover), (Active, Handover), (Active, Demoting), (Active, Resigned), (Handover, Inactive),
        (Demoting, Inactive), (Resigned, Inactive)}"

definition validate_transition :: "coordinator_record \<Rightarrow> CoordinatorLifecycle \<Rightarrow> (unit, CoordinatorError) outcome" where
  "validate_transition r next =
     (if rec_state r \<noteq> next \<and> \<not> transition_valid (rec_state r) next then Err (InvalidTransition (rec_state r) next)
      else if \<not> transition_valid (rec_state r) next then Err (InvalidTransition (rec_state r) next)
      else if term_end_epoch r \<le> term_start_epoch r then Err (TermEndEpochExceedsMax (term_start_epoch r) (term_end_epoch r))
      else Ok ())"

datatype GenesisState = GenesisDesignated | GenesisSelfAttest | GenesisActive

definition genesis_transition_valid :: "GenesisState \<Rightarrow> GenesisState \<Rightarrow> bool" where
  "genesis_transition_valid from to \<longleftrightarrow>
     (from, to) \<in> {(GenesisDesignated, GenesisSelfAttest), (GenesisSelfAttest, GenesisActive), (GenesisActive, GenesisActive),
        (GenesisActive, GenesisDesignated), (GenesisActive, GenesisSelfAttest)}"

fun genesis_fold_lifecycle :: "GenesisState \<Rightarrow> CoordinatorLifecycle" where
  "genesis_fold_lifecycle GenesisDesignated = Designated"
| "genesis_fold_lifecycle GenesisSelfAttest = Designated"
| "genesis_fold_lifecycle GenesisActive = Active"

subsection \<open>Liveness\<close>

definition HEARTBEAT_GRACE_MULTIPLIER :: u64 where "HEARTBEAT_GRACE_MULTIPLIER = 3"

definition ACTIVE_SUSPECT_MULTIPLIER :: u64 where "ACTIVE_SUSPECT_MULTIPLIER = 2"

record coordinator_heartbeat =
  hb_peer_id :: CoordinatorId
  hb_term_id :: "u8 list"
  hb_current_epoch :: u64
  hb_interval :: u64
  last_event_digest :: "u8 list"
  hb_signature :: "u8 list"

definition heartbeat_canonical_bytes :: "(u8 list \<Rightarrow> u8 list) \<Rightarrow> coordinator_heartbeat \<Rightarrow> u8 list" where
  "heartbeat_canonical_bytes blake3 h =
     blake3 (ascii_bytes ''cipherocto/coordinator/heartbeat/v1'' @ hb_peer_id h @ hb_term_id h
       @ le_bytes 8 (uint (hb_current_epoch h)) @ le_bytes 8 (uint (hb_interval h)) @ last_event_digest h @ hb_signature h)"

record liveness_tracker =
  tracked_coordinator :: CoordinatorId
  tr_last_heartbeat_epoch :: u64
  tr_heartbeat_interval :: u64
  grace_period :: u64

definition tracker_new :: "CoordinatorId \<Rightarrow> u64 \<Rightarrow> u64 \<Rightarrow> liveness_tracker" where
  "tracker_new c start_epoch interval =
     \<lparr>tracked_coordinator = c, tr_last_heartbeat_epoch = start_epoch, tr_heartbeat_interval = interval,
      grace_period = HEARTBEAT_GRACE_MULTIPLIER * interval\<rparr>"

definition on_heartbeat :: "u64 \<Rightarrow> liveness_tracker \<Rightarrow> liveness_tracker" where
  "on_heartbeat current_epoch t = t\<lparr>tr_last_heartbeat_epoch := current_epoch\<rparr>"

definition saturating_sub :: "u64 \<Rightarrow> u64 \<Rightarrow> u64" where
  "saturating_sub a b = (if a < b then 0 else a - b)"

definition evaluate_liveness :: "coordinator_record \<Rightarrow> u64 \<Rightarrow> bool \<Rightarrow> (CoordinatorLifecycle, CoordinatorError) outcome" where
  "evaluate_liveness r current_epoch has_heartbeat =
     (let interval = max (heartbeat_interval r) 1;
          elapsed = saturating_sub current_epoch (last_heartbeat_epoch r);
          grace = HEARTBEAT_GRACE_MULTIPLIER * interval;
          suspect_threshold = ACTIVE_SUSPECT_MULTIPLIER * interval in
      case rec_state r of
        Active \<Rightarrow> (if has_heartbeat then Ok Active else if elapsed > suspect_threshold then Ok Suspect else Ok Active)
      | Suspect \<Rightarrow> (if has_heartbeat then Ok Active else if elapsed > grace then Ok Handover else Ok Suspect)
      | s \<Rightarrow> Ok s)"

subsection \<open>Slashing\<close>

type_synonym cool_down_tracker = "(CoordinatorId \<times> u64) list"

definition cool_down_register :: "CoordinatorId \<Rightarrow> u64 \<Rightarrow> cool_down_tracker \<Rightarrow> cool_down_tracker" where
  "cool_down_register c cool_down_end_epoch cd = cd @ [(c, cool_down_end_epoch)]"

definition cool_down_is_eligible :: "cool_down_tracker \<Rightarrow> CoordinatorId \<Rightarrow> u64 \<Rightarrow> bool" where
  "cool_down_is_eligible cd c current_epoch =
     (case find (\<lambda>(d, _). d = c) cd of None \<Rightarrow> True | Some (_, end_epoch) \<Rightarrow> current_epoch \<ge> end_epoch)"

definition cool_down_clear :: "CoordinatorId \<Rightarrow> cool_down_tracker \<Rightarrow> cool_down_tracker" where
  "cool_down_clear c cd = filter (\<lambda>(d, _). d \<noteq> c) cd"

definition slash_proof_payload :: "slash_proof \<Rightarrow> u8 list" where
  "slash_proof_payload p =
     slash_id p @ proof_coordinator p @ proof_term_id p @ le_bytes 2 (uint (offense p))
     @ le_bytes 4 (int (length (evidence p))) @ evidence p @ le_bytes 8 (uint (penalty p)) @ adjudicator p"

type_synonym governance_keys = "(CoordinatorId \<times> u8 list \<times> u8 list) list"

definition ed25519_governance_keys :: "(u8 list \<Rightarrow> u8 list \<Rightarrow> u8 list) \<Rightarrow> (CoordinatorId \<times> u8 list) list \<Rightarrow> governance_keys" where
  "ed25519_governance_keys uuid_v5 keys = map (\<lambda>(i, vk). (i, ed25519_algorithm_id uuid_v5, vk)) keys"

fun any_signature ::
    "(u8 list \<Rightarrow> u8 list \<Rightarrow> u8 list) \<Rightarrow> dalek \<Rightarrow> slash_proof \<Rightarrow> governance_keys \<Rightarrow> algorithm_registry \<Rightarrow>
     (bool, CoordinatorError) outcome \<times> algorithm_registry" where
  "any_signature U D p [] reg = (Ok False, reg)"
| "any_signature U D p ((i, alg, vk) # keys) reg =
     (if i \<noteq> adjudicator p then any_signature U D p keys reg
      else case verify_dispatch U D alg vk (slash_proof_payload p) (adjudicator_signature p) reg of
        (Ok _, reg') \<Rightarrow> (Ok True, reg')
      | (Err _, reg') \<Rightarrow> any_signature U D p keys reg'
      | (Panic, reg') \<Rightarrow> (Panic, reg'))"

definition verify_slash_proof ::
    "(u8 list \<Rightarrow> u8 list \<Rightarrow> u8 list) \<Rightarrow> dalek \<Rightarrow> slash_proof \<Rightarrow> coordinator_record \<Rightarrow> governance_keys \<Rightarrow> algorithm_registry \<Rightarrow>
     (unit, CoordinatorError) outcome \<times> algorithm_registry" where
  "verify_slash_proof U D p r governance_set reg =
     (case try_from_reason_id (offense p) of
        Ok _ \<Rightarrow>
          if proof_term_id p \<noteq> coordinator_term_id r then (Err (TermIdMismatch (proof_term_id p) (coordinator_term_id r)), reg)
          else if penalty p > octo_o_stake_locked r then (Err (StakeUnderflow (octo_o_stake_locked r) (penalty p)), reg)
          else (case any_signature U D p governance_set reg of
              (Ok verified, reg') \<Rightarrow> (if verified then Ok () else Err InvalidAdjudicatorSignature, reg')
            | (Err e, reg') \<Rightarrow> (Err e, reg')
            | (Panic, reg') \<Rightarrow> (Panic, reg'))
      | Err _ \<Rightarrow> (Err (UnknownOffenseCode (offense p)), reg)
      | Panic \<Rightarrow> (Panic, reg))"

definition checked_sub :: "'a::len word \<Rightarrow> 'a word \<Rightarrow> 'a word option" where
  "checked_sub a b = (if a < b then None else Some (a - b))"

definition checked_add :: "'a::len word \<Rightarrow> 'a word \<Rightarrow> 'a word option" where
  "checked_add a b = (if uint a + uint b < 2 ^ LENGTH('a) then Some (a + b) else None)"

definition checked_shl :: "'a::len word \<Rightarrow> nat \<Rightarrow> 'a word option" where
  "checked_shl a n = (if n < LENGTH('a) then Some (push_bit n a) else None)"

definition apply_slash ::
    "slash_proof \<Rightarrow> u64 \<Rightarrow> coordinator_record \<times> cool_down_tracker \<Rightarrow>
     (slash_tally_update, CoordinatorError) outcome \<times> coordinator_record \<times> cool_down_tracker" where
  "apply_slash p current_epoch = (\<lambda>(r, cd).
     if rec_state r \<noteq> Active then (Err (InvalidTransition (rec_state r) Demoting), r, cd)
     else case validate_transition r Demoting of
       Err e \<Rightarrow> (Err e, r, cd)
     | Panic \<Rightarrow> (Panic, r, cd)
     | Ok _ \<Rightarrow> let r = r\<lparr>rec_state := Demoting\<rparr> in
     case checked_sub (octo_o_stake_locked r) (penalty p) of
       None \<Rightarrow> (Err (StakeUnderflow (octo_o_stake_locked r) (penalty p)), r, cd)
     | Some stake \<Rightarrow> let r = r\<lparr>octo_o_stake_locked := stake\<rparr> in
     case checked_add (slash_count r) 1 of
       None \<Rightarrow> (Err (SlashCountOverflow (slash_count r)), r, cd)
     | Some n \<Rightarrow> let r = r\<lparr>slash_count := n\<rparr> in
     case validate_transition r Inactive of
       Err e \<Rightarrow> (Err e, r, cd)
     | Panic \<Rightarrow> (Panic, r, cd)
     | Ok _ \<Rightarrow>
     case checked_shl (1 :: u64) (unat (slash_count r)) of
       None \<Rightarrow> (Err (SlashCountOverflow (slash_count r)), r, cd)
     | Some cool_down_shift \<Rightarrow>
     case checked_add current_epoch cool_down_shift of
       None \<Rightarrow> (Err (SlashCountOverflow (slash_count r)), r, cd)
     | Some cool_down_end \<Rightarrow>
       let cd = cool_down_register (coordinator_peer_id r) cool_down_end cd;
           r = r\<lparr>rec_state := Inactive\<rparr>;
           reason = (case try_from_reason_id (offense p) of Ok c \<Rightarrow> c | _ \<Rightarrow> Extension (offense p)) in
       (if uint (slash_count r) < 2 ^ 16
        then Ok \<lparr>slash_reason_code = reason_id reason, slashed_peer_id = proof_coordinator p,
                witness_count = ucast (slash_count r), tally_epoch = term_end_epoch r\<rparr>
        else Panic, r, cd))"

subsection \<open>Lemmas\<close>

lemma le_bytes_uint_inj [simp]:
  "le_bytes 8 (uint (x :: u64)) = le_bytes 8 (uint y) \<longleftrightarrow> x = y"
  "le_bytes 4 (uint (a :: u32)) = le_bytes 4 (uint b) \<longleftrightarrow> a = b"
  "le_bytes 2 (uint (c :: u16)) = le_bytes 2 (uint d) \<longleftrightarrow> c = d"
  using uint_bounded [of x] uint_bounded [of y] uint_bounded [of a] uint_bounded [of b]
    uint_bounded [of c] uint_bounded [of d]
  by (simp_all add: le_bytes_eq_iff flip: word_uint_eq_iff)

lemma le_bytes_4_inj: "m < 2 ^ 32 \<Longrightarrow> n < 2 ^ 32 \<Longrightarrow> le_bytes 4 (int m) = le_bytes 4 (int n) \<longleftrightarrow> m = n"
  by (simp add: le_bytes_eq_iff)

lemma discriminants_inj [simp]:
  "lifecycle_discriminant s = lifecycle_discriminant t \<longleftrightarrow> s = t"
  "source_discriminant x = source_discriminant y \<longleftrightarrow> x = y"
  by (cases s; cases t; simp) (cases x; cases y; simp)

interpretation coordinator_cycle: life_cycle transition_valid Designated "\<lambda>s. s = Inactive"
proof
  show "\<not> transition_valid s t" if "s = Inactive" for s t using that by (simp add: transition_valid_def)
  show "\<exists>t. transition_valid s t" if "s \<noteq> Inactive" for s
    using that by (cases s) (auto simp: transition_valid_def)
  show "\<not> transition_valid s Designated" for s by (simp add: transition_valid_def)
qed

lemma reaches_inactive: "transition_valid\<^sup>*\<^sup>* s Inactive"
proof -
  have "transition_valid\<^sup>*\<^sup>* Designated Inactive \<and> transition_valid\<^sup>*\<^sup>* s Inactive"
  proof -
    have r: "transition_valid\<^sup>*\<^sup>* a c" if "transition_valid a b" "transition_valid\<^sup>*\<^sup>* b c" for a b c
      using that by (rule converse_rtranclp_into_rtranclp)
    have "transition_valid\<^sup>*\<^sup>* Demoting Inactive" "transition_valid\<^sup>*\<^sup>* Handover Inactive" "transition_valid\<^sup>*\<^sup>* Resigned Inactive"
      by (rule r_into_rtranclp, simp add: transition_valid_def)+
    moreover from this have "transition_valid\<^sup>*\<^sup>* Active Inactive" "transition_valid\<^sup>*\<^sup>* Suspect Inactive"
      by (auto intro: r [of _ Demoting] r [of _ Handover] simp: transition_valid_def)
    moreover from this have "transition_valid\<^sup>*\<^sup>* Elected Inactive"
      by (auto intro: r [of _ Active] simp: transition_valid_def)
    moreover from this have "transition_valid\<^sup>*\<^sup>* Designated Inactive"
      by (auto intro: r [of _ Elected] simp: transition_valid_def)
    ultimately show ?thesis by (cases s) auto
  qed
  then show ?thesis ..
qed

lemma leaving_steps: "transition_valid s t \<Longrightarrow> s \<in> {Handover, Demoting, Resigned} \<Longrightarrow> t = Inactive"
  by (auto simp: transition_valid_def)

lemma leaving_runs: "transition_valid\<^sup>*\<^sup>* s t \<Longrightarrow> s \<in> {Handover, Demoting, Resigned} \<Longrightarrow> t = s \<or> t = Inactive"
  by (induction rule: rtranclp_induct) (auto simp: transition_valid_def)

lemma entered_active: "transition_valid\<^sup>*\<^sup>* s t \<Longrightarrow> s \<in> {Designated, Elected} \<Longrightarrow> t \<notin> {Designated, Elected} \<Longrightarrow>
  transition_valid\<^sup>*\<^sup>* Active t"
proof (induction rule: rtranclp_induct)
  case (step u t)
  show ?case
  proof (cases "u \<in> {Designated, Elected}")
    case True
    with step have "t = Active" by (auto simp: transition_valid_def)
    then show ?thesis by simp
  next
    case False
    with step show ?thesis by (meson rtranclp.rtrancl_into_rtrancl)
  qed
qed auto

lemma checked_add_nat: "checked_add a b = (if unat a + unat b < 2 ^ LENGTH('a) then Some (of_nat (unat a + unat b)) else None)"
  for a b :: "'a::len word"
proof -
  have "uint a + uint b < 2 ^ LENGTH('a) \<longleftrightarrow> int (unat a + unat b) < int (2 ^ LENGTH('a))" by simp
  also have "\<dots> \<longleftrightarrow> unat a + unat b < 2 ^ LENGTH('a)" by (simp only: of_nat_less_iff)
  finally have "uint a + uint b < 2 ^ LENGTH('a) \<longleftrightarrow> unat a + unat b < 2 ^ LENGTH('a)" .
  then show ?thesis by (simp add: checked_add_def)
qed

lemma checked_shl_one: "checked_shl (1 :: u64) n = (if n < 64 then Some (2 ^ n) else None)"
  by (simp add: checked_shl_def push_bit_eq_mult)

lemma unat_2_power: "n < 64 \<Longrightarrow> unat ((2 :: u64) ^ n) = 2 ^ n"
proof -
  assume "n < 64"
  then have "(2 :: nat) ^ n < 2 ^ 64" by (rule power_strict_increasing) simp
  moreover have "(2 :: u64) ^ n = of_nat (2 ^ n)" by simp
  ultimately show ?thesis by (simp only: unat_of_nat) simp
qed

lemma slash_reason_id: "reason_id (case try_from_reason_id i of Ok c \<Rightarrow> c | _ \<Rightarrow> Extension i) = i"
  by (simp add: try_from_reason_id_def from_reason_id_def)

lemma validate_steps:
  "validate_transition r Demoting = (if rec_state r \<noteq> Active then Err (InvalidTransition (rec_state r) Demoting)
     else if term_end_epoch r \<le> term_start_epoch r then Err (TermEndEpochExceedsMax (term_start_epoch r) (term_end_epoch r)) else Ok ())"
  "rec_state r = Demoting \<Longrightarrow> validate_transition r Inactive =
     (if term_end_epoch r \<le> term_start_epoch r then Err (TermEndEpochExceedsMax (term_start_epoch r) (term_end_epoch r)) else Ok ())"
  by (simp_all add: validate_transition_def transition_valid_def)

definition key_accepts :: "algorithm_registry \<Rightarrow> slash_proof \<Rightarrow> CoordinatorId \<times> u8 list \<times> u8 list \<Rightarrow> bool" where
  "key_accepts reg p = (\<lambda>(i, alg, vk). i = adjudicator p \<and>
     (case map_of (algorithms reg) alg of
        Some a \<Rightarrow> alg_verify a vk (slash_proof_payload p) (adjudicator_signature p) = Ok () | None \<Rightarrow> False))"

lemma any_signature_populated:
  assumes "populated reg" "\<forall>i a k m s. map_of (algorithms reg) i = Some a \<longrightarrow> alg_verify a k m s \<noteq> Panic"
  shows "any_signature U D p keys reg = (Ok (\<exists>key \<in> set keys. key_accepts reg p key), reg)"
proof (induction keys)
  case (Cons key keys)
  obtain i alg vk where key: "key = (i, alg, vk)" by (cases key)
  have "any_signature U D p (key # keys) reg = (if key_accepts reg p key then (Ok True, reg) else any_signature U D p keys reg)"
  proof (cases "map_of (algorithms reg) alg")
    case None
    then show ?thesis by (simp add: key key_accepts_def verify_dispatch_populated [OF assms(1)])
  next
    case (Some a)
    then show ?thesis
      using assms(2) by (cases "alg_verify a vk (slash_proof_payload p) (adjudicator_signature p)")
        (simp_all add: key key_accepts_def verify_dispatch_populated [OF assms(1)])
  qed
  then show ?case using Cons.IH by simp
qed simp

lemma find_entry: "find (\<lambda>(d, _). d = c) (xs @ ys) = (case find (\<lambda>(d, _). d = c) xs of None \<Rightarrow> find (\<lambda>(d, _). d = c) ys | e \<Rightarrow> e)"
  by (induction xs) auto

lemma find_entry_None: "find (\<lambda>(d, _). d = c) xs = None \<longleftrightarrow> c \<notin> fst ` set xs"
  by (induction xs) auto

lemma apply_slash_outcome:
  "apply_slash p now (r, cd) =
    (if rec_state r \<noteq> Active then (Err (InvalidTransition (rec_state r) Demoting), r, cd)
     else if term_end_epoch r \<le> term_start_epoch r
       then (Err (TermEndEpochExceedsMax (term_start_epoch r) (term_end_epoch r)), r, cd)
     else if octo_o_stake_locked r < penalty p
       then (Err (StakeUnderflow (octo_o_stake_locked r) (penalty p)), r\<lparr>rec_state := Demoting\<rparr>, cd)
     else let stake = octo_o_stake_locked r - penalty p; n = unat (slash_count r) + 1;
              taken = r\<lparr>rec_state := Demoting, octo_o_stake_locked := stake\<rparr> in
       if n = 2 ^ 32 then (Err (SlashCountOverflow (slash_count r)), taken, cd)
       else if n < 64 \<and> unat now + 2 ^ n < 2 ^ 64
       then (Ok \<lparr>slash_reason_code = offense p, slashed_peer_id = proof_coordinator p, witness_count = of_nat n,
                 tally_epoch = term_end_epoch r\<rparr>,
             r\<lparr>rec_state := Inactive, octo_o_stake_locked := stake, slash_count := of_nat n\<rparr>,
             cd @ [(coordinator_peer_id r, of_nat (unat now + 2 ^ n))])
       else (Err (SlashCountOverflow (of_nat n)), taken\<lparr>slash_count := of_nat n\<rparr>, cd))"
proof -
  consider (early) "rec_state r \<noteq> Active \<or> term_end_epoch r \<le> term_start_epoch r \<or> octo_o_stake_locked r < penalty p"
    | (full) "rec_state r = Active" "\<not> term_end_epoch r \<le> term_start_epoch r" "\<not> octo_o_stake_locked r < penalty p"
        "unat (slash_count r) + 1 = 2 ^ 32"
    | (late) n where "rec_state r = Active" "\<not> term_end_epoch r \<le> term_start_epoch r" "\<not> octo_o_stake_locked r < penalty p"
        "Suc (unat (slash_count r)) = n" "n < 2 ^ 32"
  proof (cases "unat (slash_count r) + 1 = 2 ^ 32")
    case True
    then show ?thesis using full early by blast
  next
    case False
    moreover have "unat (slash_count r) < 2 ^ 32" by (rule order_less_le_trans [OF unsigned_less]) simp
    ultimately have "unat (slash_count r) + 1 < 2 ^ 32" by simp
    then show ?thesis using late early by auto
  qed
  then show ?thesis
  proof cases
    case early
    then show ?thesis by (auto simp: apply_slash_def validate_steps checked_sub_def Let_def)
  next
    case full
    then have "checked_add (slash_count r) 1 = None" by (simp add: checked_add_nat)
    with full show ?thesis by (simp add: apply_slash_def validate_steps checked_sub_def Let_def)
  next
    case late
    have n: "unat (of_nat n :: u32) = n" using late(5) by (simp add: unat_of_nat)
    have c: "checked_add (slash_count r) 1 = Some (of_nat n)" using late(4,5) by (auto simp: checked_add_nat)
    from n have u: "ucast (of_nat n :: u32) = (of_nat n :: u16)" "uint (of_nat n :: u32) = int n"
      by (metis of_nat_unat)+
    show ?thesis
    proof (cases "n < 64")
      case True
      with late n c u show ?thesis
        by (simp add: apply_slash_def validate_steps checked_sub_def checked_shl_one checked_add_nat unat_2_power
            cool_down_register_def slash_reason_id Let_def)
    next
      case False
      with late n c show ?thesis
        by (simp add: apply_slash_def validate_steps checked_sub_def checked_shl_one Let_def)
    qed
  qed
qed

lemma apply_slash_Ok:
  assumes "apply_slash p now (r, cd) = (Ok u, r', cd')"
  obtains n where "n < 64" "unat now + 2 ^ n < 2 ^ 64" "slash_count r' = of_nat n"
    "cd' = cd @ [(coordinator_peer_id r, of_nat (unat now + 2 ^ n))]"
proof -
  note eq = assms [unfolded apply_slash_outcome Let_def]
  have ok: "rec_state r = Active" "\<not> term_end_epoch r \<le> term_start_epoch r" "\<not> octo_o_stake_locked r < penalty p"
      "unat (slash_count r) + 1 \<noteq> 2 ^ 32" "unat (slash_count r) + 1 < 64 \<and> unat now + 2 ^ (unat (slash_count r) + 1) < 2 ^ 64"
    using eq by (metis Pair_inject outcome.distinct(1))+
  then have "r' = r\<lparr>rec_state := Inactive, octo_o_stake_locked := octo_o_stake_locked r - penalty p,
        slash_count := of_nat (unat (slash_count r) + 1)\<rparr>"
      "cd' = cd @ [(coordinator_peer_id r, of_nat (unat now + 2 ^ (unat (slash_count r) + 1)))]"
    using eq by (simp_all only: if_False if_True simp_thms prod.inject)
  then show thesis using ok(5) that [of "unat (slash_count r) + 1"] by simp
qed

lemma try_from_reserved:
  "try_from_reason_id i = (if i \<in> {0x0C, 0x0D} \<union> {0x17..0xFF} then Err i else Ok (from_reason_id i))"
  unfolding try_from_reason_id_def
  by (rule if_cong) (simp_all add: word_le_nat_alt word_unat_eq_iff, linarith)

definition proof_wf :: "slash_proof \<Rightarrow> bool" where
  "proof_wf p \<longleftrightarrow> length (slash_id p) = 32 \<and> length (proof_coordinator p) = 32 \<and> length (proof_term_id p) = 32
     \<and> length (evidence p) < 2 ^ 32 \<and> length (adjudicator p) = 32"

definition record_wf :: "coordinator_record \<Rightarrow> bool" where
  "record_wf r \<longleftrightarrow> length (coordinator_peer_id r) = 32 \<and> length (coordinator_term_id r) = 32"

definition sample_record :: coordinator_record where
  "sample_record = \<lparr>coordinator_peer_id = replicate 32 1, rec_state = Active, term_start_epoch = 0, term_end_epoch = 100,
     rec_source = Election, coordinator_term_id = replicate 32 2, slash_count = 0, octo_o_stake_locked = 50,
     last_heartbeat_epoch = 10, heartbeat_interval = 20\<rparr>"

definition sample_proof :: slash_proof where
  "sample_proof = \<lparr>slash_id = replicate 32 4, proof_coordinator = replicate 32 7, proof_term_id = replicate 32 2, offense = 4,
     evidence = [], penalty = 5, adjudicator = replicate 32 3, adjudicator_signature = []\<rparr>"

definition sample_registry :: algorithm_registry where
  "sample_registry = \<lparr>algorithms = [([9], \<lparr>alg_id = [9], alg_name = [], public_key_len = 0, signature_len = 0,
     zk_support = ZkNone, alg_verify = \<lambda>_ _ _. Ok ()\<rparr>)], populated = True\<rparr>"

section \<open>Properties\<close>

text \<open>Reason codes on the wire: reading a code and writing it again gives the code, writing a reason and
  reading it again gives the reason unless it is an extension under a code that has a name, and the
  strict reader refuses exactly the reserved codes. It accepts the code 0, which is neither a named
  offense nor in the extension range.\<close>

theorem slash_reason_round_trip:
  "reason_id (from_reason_id i) = i
   \<and> (from_reason_id (reason_id c) = c \<longleftrightarrow> c \<notin> Extension ` reason_id ` (- range Extension))
   \<and> try_from_reason_id i = (if i \<in> {0x0C, 0x0D} \<union> {0x17..0xFF} then Err i else Ok (from_reason_id i))
   \<and> try_from_reason_id 0 = Ok (Extension 0)"
proof (intro conjI)
  have wr: "reason_id (from_reason_id i) = i" for i by (simp add: from_reason_id_def)
  then show "reason_id (from_reason_id i) = i" .
  have named: "from_reason_id (reason_id d) = d" if "d \<notin> range Extension" for d
    using that by (cases d) (simp_all add: from_reason_id_def)
  show "from_reason_id (reason_id c) = c \<longleftrightarrow> c \<notin> Extension ` reason_id ` (- range Extension)"
  proof (cases "c \<in> range Extension")
    case True
    then obtain j where c: "c = Extension j" by blast
    have "from_reason_id j = Extension j \<longleftrightarrow> (\<forall>d. d \<notin> range Extension \<longrightarrow> reason_id d \<noteq> j)"
    proof
      show "\<forall>d. d \<notin> range Extension \<longrightarrow> reason_id d \<noteq> j" if "from_reason_id j = Extension j"
        using that named by (metis rangeI)
      show "from_reason_id j = Extension j" if "\<forall>d. d \<notin> range Extension \<longrightarrow> reason_id d \<noteq> j"
        using that wr [of j] by (metis rangeE reason_id.simps(21))
    qed
    then show ?thesis by (auto simp: c)
  qed (use named in auto)
  show "try_from_reason_id i = (if i \<in> {0x0C, 0x0D} \<union> {0x17..0xFF} then Err i else Ok (from_reason_id i))"
    by (rule try_from_reserved)
qed (simp add: try_from_reason_id_def from_reason_id_def)

text \<open>The life cycle of a coordinator: \<open>Inactive\<close> is the only state without a successor and can be reached
  from every state; no run returns to \<open>Designated\<close>; a coordinator enters every later state through
  \<open>Active\<close>; a handover, a demotion or a resignation only ends in \<open>Inactive\<close>. A checked transition
  follows the table and belongs to a term that ends after it starts; in particular a suspect cannot
  stay a suspect through a checked transition.\<close>

theorem coordinator_life_cycle:
  "(s = Inactive \<longleftrightarrow> (\<forall>t. \<not> transition_valid s t))
   \<and> transition_valid\<^sup>*\<^sup>* s Inactive
   \<and> (transition_valid\<^sup>+\<^sup>+ s t \<longrightarrow> t \<noteq> Designated)
   \<and> (transition_valid\<^sup>*\<^sup>* Designated t \<and> t \<notin> {Designated, Elected} \<longrightarrow> transition_valid\<^sup>*\<^sup>* Active t)
   \<and> (s \<in> {Handover, Demoting, Resigned} \<and> transition_valid\<^sup>*\<^sup>* s t \<longrightarrow> t = s \<or> t = Inactive)
   \<and> (validate_transition r t = Ok () \<longleftrightarrow> transition_valid (rec_state r) t \<and> term_start_epoch r < term_end_epoch r)
   \<and> validate_transition (r\<lparr>rec_state := Suspect\<rparr>) Suspect = Err (InvalidTransition Suspect Suspect)"
proof (intro conjI)
  show "s = Inactive \<longleftrightarrow> (\<forall>t. \<not> transition_valid s t)" by (rule coordinator_cycle.final_iff)
  show "transition_valid\<^sup>*\<^sup>* s Inactive" by (rule reaches_inactive)
  show "transition_valid\<^sup>+\<^sup>+ s t \<longrightarrow> t \<noteq> Designated" using coordinator_cycle.start_left by blast
  show "transition_valid\<^sup>*\<^sup>* Designated t \<and> t \<notin> {Designated, Elected} \<longrightarrow> transition_valid\<^sup>*\<^sup>* Active t"
    using entered_active [of Designated t] by simp
  show "s \<in> {Handover, Demoting, Resigned} \<and> transition_valid\<^sup>*\<^sup>* s t \<longrightarrow> t = s \<or> t = Inactive"
    using leaving_runs by blast
qed (auto simp: validate_transition_def transition_valid_def)

theorem coordinator_life_cycle_witness:
  "transition_valid\<^sup>*\<^sup>* Active Suspect"
proof -
  have "transition_valid\<^sup>*\<^sup>* Designated Suspect"
    by (rule converse_rtranclp_into_rtranclp [of _ _ Elected], simp add: transition_valid_def)
      (rule converse_rtranclp_into_rtranclp [of _ _ Active], simp add: transition_valid_def, simp add: transition_valid_def r_into_rtranclp)
  then show ?thesis using coordinator_life_cycle [of Designated Suspect] by simp
qed

text \<open>The liveness rule for intervals that do not overflow. A heartbeat keeps or makes the coordinator
  active. Without one an active coordinator becomes a suspect exactly when more than two intervals have
  passed since the last heartbeat, and a suspect is handed over exactly when more than three have
  passed; every other state stays. The result is a valid transition or no change.\<close>

theorem liveness_correct:
  assumes "heartbeat_interval r < 2 ^ 62"
  shows "let silent = (\<lambda>k. k * max (unat (heartbeat_interval r)) 1 < unat now - unat (last_heartbeat_epoch r));
      s = (if rec_state r \<in> {Active, Suspect} \<and> hb then Active
           else if rec_state r = Active \<and> silent 2 then Suspect
           else if rec_state r = Suspect \<and> silent 3 then Handover
           else rec_state r)
    in evaluate_liveness r now hb = Ok s \<and> (s = rec_state r \<or> transition_valid (rec_state r) s)"
proof -
  have "unat (heartbeat_interval r) < 2 ^ 62" using assms by (simp add: word_less_nat_alt)
  then have iv: "unat (max (heartbeat_interval r) 1) = max (unat (heartbeat_interval r)) 1"
      "unat (2 * max (heartbeat_interval r) 1) = 2 * max (unat (heartbeat_interval r)) 1"
      "unat (3 * max (heartbeat_interval r) 1) = 3 * max (unat (heartbeat_interval r)) 1"
    by (auto simp: max_def word_le_nat_alt unat_word_ariths)
  have el: "unat (saturating_sub now (last_heartbeat_epoch r)) = unat now - unat (last_heartbeat_epoch r)"
    by (auto simp: saturating_sub_def unat_sub word_le_nat_alt not_less word_less_nat_alt)
  show ?thesis
    by (cases "rec_state r")
      (simp_all add: evaluate_liveness_def Let_def HEARTBEAT_GRACE_MULTIPLIER_def ACTIVE_SUSPECT_MULTIPLIER_def
        word_less_nat_alt iv el transition_valid_def)
qed

theorem liveness_witness:
  "evaluate_liveness sample_record 50 False = Ok Active \<and> evaluate_liveness sample_record 51 False = Ok Suspect"
  using liveness_correct [of sample_record 50 False] liveness_correct [of sample_record 51 False]
  by (simp add: sample_record_def)

text \<open>C8: What applying a slash does on every branch. It succeeds exactly for an active coordinator in a proper
  term whose locked stake covers the penalty, with fewer than 63 earlier slashes and a cool-down end
  that fits 64 bits: the coordinator becomes inactive, the penalty leaves the stake, the count grows by
  one and a cool-down of \<open>2 ^ count\<close> epochs is registered. It never panics. The three failures after the
  first transition leave the record changed: too little stake leaves the coordinator in \<open>Demoting\<close>, an overflow
  of the count also takes the penalty, and an overflow of the cool-down also raises the count. The update
  that a success emits carries the new count as the number of witnesses and the end of the term as the
  epoch, although its fields are documented as the number of witness signatures and the epoch of the
  slash.\<close>

theorem apply_slash_correct:
  "apply_slash p now (r, cd) =
    (if rec_state r \<noteq> Active then (Err (InvalidTransition (rec_state r) Demoting), r, cd)
     else if term_end_epoch r \<le> term_start_epoch r
       then (Err (TermEndEpochExceedsMax (term_start_epoch r) (term_end_epoch r)), r, cd)
     else if octo_o_stake_locked r < penalty p
       then (Err (StakeUnderflow (octo_o_stake_locked r) (penalty p)), r\<lparr>rec_state := Demoting\<rparr>, cd)
     else let stake = octo_o_stake_locked r - penalty p; n = unat (slash_count r) + 1;
              taken = r\<lparr>rec_state := Demoting, octo_o_stake_locked := stake\<rparr> in
       if n = 2 ^ 32 then (Err (SlashCountOverflow (slash_count r)), taken, cd)
       else if n < 64 \<and> unat now + 2 ^ n < 2 ^ 64
       then (Ok \<lparr>slash_reason_code = offense p, slashed_peer_id = proof_coordinator p, witness_count = of_nat n,
                 tally_epoch = term_end_epoch r\<rparr>,
             r\<lparr>rec_state := Inactive, octo_o_stake_locked := stake, slash_count := of_nat n\<rparr>,
             cd @ [(coordinator_peer_id r, of_nat (unat now + 2 ^ n))])
       else (Err (SlashCountOverflow (of_nat n)), taken\<lparr>slash_count := of_nat n\<rparr>, cd))"
  by (rule apply_slash_outcome)

text \<open>Which coordinators a slash keeps out of elections, and for how long. The first slash of a coordinator
  keeps it out until \<open>2 ^ count\<close> epochs have passed. A later one has no effect at all: its entry is
  filed behind the first, and the lookup reads the first. Other coordinators are not affected, and
  clearing a coordinator makes it eligible at once.\<close>

theorem cool_down_first_entry:
  assumes "apply_slash p now (r, cd) = (Ok u, r', cd')"
  shows "(if coordinator_peer_id r \<in> fst ` set cd
          then cool_down_is_eligible cd' (coordinator_peer_id r) t = cool_down_is_eligible cd (coordinator_peer_id r) t
          else cool_down_is_eligible cd' (coordinator_peer_id r) t \<longleftrightarrow> unat now + 2 ^ unat (slash_count r') \<le> unat t)
    \<and> (c \<noteq> coordinator_peer_id r \<longrightarrow> cool_down_is_eligible cd' c t = cool_down_is_eligible cd c t)
    \<and> cool_down_is_eligible (cool_down_clear c cd') c t"
proof -
  obtain n where n: "n < 64" "unat now + 2 ^ n < 2 ^ 64" "slash_count r' = of_nat n"
      "cd' = cd @ [(coordinator_peer_id r, of_nat (unat now + 2 ^ n))]"
    using assms by (rule apply_slash_Ok)
  moreover from n have "unat (slash_count r') = n" by (simp add: unat_of_nat)
  moreover from n have "unat (of_nat (unat now + 2 ^ n) :: u64) = unat now + 2 ^ n" by (simp only: unat_of_nat) simp
  moreover have "find (\<lambda>(d, _). d = c) (cool_down_clear c cd') = None" by (auto simp: find_entry_None cool_down_clear_def)
  ultimately show ?thesis
    using find_entry_None [of "coordinator_peer_id r" cd]
    by (auto simp: cool_down_is_eligible_def find_entry word_le_nat_alt simp del: of_nat_add of_nat_Suc of_nat_power split: option.splits)
qed

theorem cool_down_witness:
  "\<exists>u r' cd'. apply_slash sample_proof 40 (sample_record\<lparr>slash_count := 1\<rparr>, [(replicate 32 1, 30)]) = (Ok u, r', cd')
     \<and> cool_down_is_eligible cd' (replicate 32 1) 40"
proof -
  obtain u r' cd' where *: "apply_slash sample_proof 40 (sample_record\<lparr>slash_count := 1\<rparr>, [(replicate 32 1, 30)]) = (Ok u, r', cd')"
    by (simp add: apply_slash_outcome sample_record_def sample_proof_def)
  show ?thesis
    using * cool_down_first_entry [OF *, of 40]
    by (auto simp: sample_record_def cool_down_is_eligible_def)
qed

text \<open>On a populated registry whose algorithms do not panic, a proof is accepted exactly when its offense is
  not reserved, it names the term of the record, the locked stake covers the penalty and a key of the
  governance set filed under the adjudicator accepts the signature over the payload. The payload
  determines every field but the signature. Whether the proof and the record name the same coordinator
  is not checked.\<close>

theorem verify_slash_proof_correct:
  assumes "populated reg" "\<forall>i a k m s. map_of (algorithms reg) i = Some a \<longrightarrow> alg_verify a k m s \<noteq> Panic"
  shows "(verify_slash_proof U D p r keys reg = (Ok (), reg) \<longleftrightarrow>
      offense p \<notin> {0x0C, 0x0D} \<union> {0x17..0xFF} \<and> proof_term_id p = coordinator_term_id r
      \<and> penalty p \<le> octo_o_stake_locked r \<and> (\<exists>key \<in> set keys. key_accepts reg p key))
    \<and> verify_slash_proof U D p (r\<lparr>coordinator_peer_id := c\<rparr>) keys reg = verify_slash_proof U D p r keys reg"
  by (auto simp: verify_slash_proof_def any_signature_populated [OF assms] try_from_reserved)

theorem verify_slash_proof_witness:
  "proof_coordinator sample_proof \<noteq> coordinator_peer_id sample_record
   \<and> verify_slash_proof (\<lambda>_ n. n) accept_all sample_proof sample_record [(replicate 32 3, [9], [])] sample_registry
       = (Ok (), sample_registry)"
proof -
  have "populated sample_registry"
    "\<forall>i a k m s. map_of (algorithms sample_registry) i = Some a \<longrightarrow> alg_verify a k m s \<noteq> Panic"
    by (auto simp: sample_registry_def split: if_splits)
  then show ?thesis
    using verify_slash_proof_correct [of sample_registry "\<lambda>_ n. n" accept_all sample_proof sample_record "[(replicate 32 3, [9], [])]" "[]"]
    by (simp add: sample_proof_def sample_record_def key_accepts_def sample_registry_def)
qed

text \<open>The bytes a slash proof is signed over determine every field of the proof but the signature, and the
  bytes a record is hashed over determine the record; so with an injective hash the canonical bytes
  of two records are the same only for the same record.\<close>

theorem coordinator_bytes_injective:
  assumes "proof_wf p" "proof_wf q" "record_wf r" "record_wf s"
  shows "(slash_proof_payload p = slash_proof_payload q \<longleftrightarrow> p = q\<lparr>adjudicator_signature := adjudicator_signature p\<rparr>)
    \<and> (record_borsh r = record_borsh s \<longleftrightarrow> r = s)
    \<and> (inj blake3 \<longrightarrow> (canonical_bytes blake3 r = canonical_bytes blake3 s \<longleftrightarrow> r = s))"
proof (intro conjI)
  show "slash_proof_payload p = slash_proof_payload q \<longleftrightarrow> p = q\<lparr>adjudicator_signature := adjudicator_signature p\<rparr>"
    using assms(1,2) by (cases p; cases q) (auto simp: slash_proof_payload_def proof_wf_def le_bytes_4_inj)
  show rec: "record_borsh r = record_borsh s \<longleftrightarrow> r = s"
    using assms(3,4) by (cases r; cases s) (auto simp: record_borsh_def record_wf_def)
  show "inj blake3 \<longrightarrow> (canonical_bytes blake3 r = canonical_bytes blake3 s \<longleftrightarrow> r = s)"
    using rec by (auto simp: canonical_bytes_def blake3_hash_with_domain_def inj_eq)
qed

theorem coordinator_bytes_witness:
  "record_borsh sample_record \<noteq> record_borsh (sample_record\<lparr>slash_count := 1\<rparr>)"
  using coordinator_bytes_injective [of sample_proof sample_proof sample_record "sample_record\<lparr>slash_count := 1\<rparr>"]
  by (simp add: proof_wf_def record_wf_def sample_record_def sample_proof_def)

end
