(* ===== verification/Election.thy ===== *)
theory Election
  imports Coordinator "HOL-Library.Product_Lexorder" "HOL-Library.Multiset"
begin

text \<open>
  The election of a coordinator (\<open>octo-coordinator-types/src/election.rs\<close>): eligibility, the counting of
  ballots, the three implemented governance models with their tie-break, and the writer election that
  collects ballots, stakes and voters. Identifiers are compared as byte strings. Rust's \<open>sort_by\<close> is
  stable, as \<open>sort_key\<close> is; a descending count is the key \<open>- uint count\<close>.
\<close>

subsection \<open>Data\<close>

definition ELECTION_TIMEOUT :: u64 where "ELECTION_TIMEOUT = 1000"

definition MAX_SLASHES_BEFORE_BAN :: u32 where "MAX_SLASHES_BEFORE_BAN = 5"

definition TRUST_SCORE_THRESHOLD :: u32 where "TRUST_SCORE_THRESHOLD = 500"

datatype GovernanceModel = Centralized | Federated | Dao | AiAssisted | Autonomous

fun model_discriminant :: "GovernanceModel \<Rightarrow> u16" where
  "model_discriminant Centralized = 1"
| "model_discriminant Federated = 2"
| "model_discriminant Dao = 3"
| "model_discriminant AiAssisted = 4"
| "model_discriminant Autonomous = 5"

record election_ballot =
  voter_peer_id :: CoordinatorId
  candidate_peer_id :: CoordinatorId
  ballot_epoch :: u64
  ballot_signature :: "u8 list"

record stake_entry =
  staked_coordinator :: CoordinatorId
  stake :: u64

record voter_eligibility =
  voter :: CoordinatorId
  trust_score :: u32
  voter_slash_count :: u32
  is_mission_participant :: bool

record election_tally =
  election_id :: "u8 list"
  election_epoch :: u64
  closed_epoch :: u64
  governance_model :: u16
  ballots :: "election_ballot list"
  winner :: CoordinatorId
  votes_received :: u64
  votes_total :: u64

definition is_eligible :: "voter_eligibility \<Rightarrow> bool" where
  "is_eligible v \<longleftrightarrow> is_mission_participant v \<and> trust_score v \<ge> TRUST_SCORE_THRESHOLD
     \<and> voter_slash_count v < MAX_SLASHES_BEFORE_BAN"

subsection \<open>Counting\<close>

definition saturating_add :: "u64 \<Rightarrow> u64 \<Rightarrow> u64" where
  "saturating_add a b = (if uint a + uint b < 2 ^ 64 then a + b else - 1)"

fun count_vote :: "CoordinatorId \<Rightarrow> (CoordinatorId \<times> u64) list \<Rightarrow> (CoordinatorId \<times> u64) list" where
  "count_vote c [] = [(c, 1)]"
| "count_vote c ((i, n) # entries) = (if i = c then (i, saturating_add n 1) # entries else (i, n) # count_vote c entries)"

fun count_loop :: "(CoordinatorId \<times> u64) list \<Rightarrow> u64 \<Rightarrow> election_ballot list \<Rightarrow> (CoordinatorId \<times> u64) list \<times> u64" where
  "count_loop by_candidate total_ballots [] = (by_candidate, total_ballots)"
| "count_loop by_candidate total_ballots (b # bs) =
     count_loop (count_vote (candidate_peer_id b) by_candidate) (saturating_add total_ballots 1) bs"

definition count_ballots :: "election_ballot list \<Rightarrow> (CoordinatorId \<times> u64) list \<times> u64" where
  "count_ballots bs =
     (case count_loop [] 0 bs of (by_candidate, total_ballots) \<Rightarrow> (sort_key (\<lambda>(i, n). (- uint n, i)) by_candidate, total_ballots))"

definition tie_break :: "CoordinatorId list \<Rightarrow> (CoordinatorId, 'e) outcome" where
  "tie_break candidates =
     (case candidates of [] \<Rightarrow> Panic
      | first # rest \<Rightarrow> Ok (foldl (\<lambda>acc next. if next < acc then next else acc) first rest))"

definition compute_election_id :: "(u8 list \<Rightarrow> u8 list) \<Rightarrow> u8 list \<Rightarrow> u64 \<Rightarrow> u8 \<Rightarrow> u8 list" where
  "compute_election_id blake3 mission_id epoch nonce = blake3 (mission_id @ be_bytes 8 (uint epoch) @ [nonce])"

definition ballots_to_vec :: "election_ballot list \<Rightarrow> election_ballot list" where
  "ballots_to_vec bs = sort_key (\<lambda>b. (voter_peer_id b, ballot_epoch b)) bs"

definition votes_for :: "(CoordinatorId \<times> u64) list \<Rightarrow> CoordinatorId \<Rightarrow> u64" where
  "votes_for by_candidate c = (case find (\<lambda>(i, _). i = c) by_candidate of Some (_, n) \<Rightarrow> n | None \<Rightarrow> 0)"

definition div_ceil :: "u64 \<Rightarrow> u64 \<Rightarrow> u64" where
  "div_ceil a b = (if a mod b > 0 then a div b + 1 else a div b)"

subsection \<open>The governance models\<close>

definition elect_centralized ::
    "(u8 list \<Rightarrow> u8 list) \<Rightarrow> u8 list \<Rightarrow> u64 \<Rightarrow> election_ballot list \<Rightarrow> CoordinatorId option \<Rightarrow> (election_tally, CoordinatorError) outcome" where
  "elect_centralized blake3 mission_id epoch eligible_ballots designator =
     (if eligible_ballots = [] then
        (case designator of
           None \<Rightarrow> Err NoCandidates
         | Some d \<Rightarrow> Ok \<lparr>election_id = compute_election_id blake3 mission_id epoch 0, election_epoch = epoch, closed_epoch = epoch,
             governance_model = model_discriminant Centralized, ballots = [], winner = d, votes_received = 0, votes_total = 0\<rparr>)
      else case count_ballots eligible_ballots of (by_candidate, total_ballots) \<Rightarrow>
        if total_ballots = 0 then Err NoCandidates
        else let needed = div_ceil (total_ballots * 2) 3;
                 winners = map fst (filter (\<lambda>(_, n). n \<ge> needed) by_candidate) in
          if winners = [] then Err (ElectionTimeout (epoch + ELECTION_TIMEOUT))
          else bind_ok (tie_break winners) (\<lambda>w.
            Ok \<lparr>election_id = compute_election_id blake3 mission_id epoch 0, election_epoch = epoch, closed_epoch = epoch,
              governance_model = model_discriminant Centralized, ballots = ballots_to_vec eligible_ballots, winner = w,
              votes_received = votes_for by_candidate w, votes_total = total_ballots\<rparr>))"

definition elect_federated ::
    "(u8 list \<Rightarrow> u8 list) \<Rightarrow> u8 list \<Rightarrow> u64 \<Rightarrow> election_ballot list \<Rightarrow> (election_tally, CoordinatorError) outcome" where
  "elect_federated blake3 mission_id epoch eligible_ballots =
     (if eligible_ballots = [] then Err NoCandidates
      else case count_ballots eligible_ballots of (by_candidate, total_ballots) \<Rightarrow>
        let quorum = total_ballots div 2 + 1;
            winners = map fst (filter (\<lambda>(_, n). n \<ge> quorum) by_candidate) in
        if winners = [] then Err (ElectionTimeout (epoch + ELECTION_TIMEOUT))
        else bind_ok (tie_break winners) (\<lambda>w.
          Ok \<lparr>election_id = compute_election_id blake3 mission_id epoch 0, election_epoch = epoch, closed_epoch = epoch,
            governance_model = model_discriminant Federated, ballots = ballots_to_vec eligible_ballots, winner = w,
            votes_received = votes_for by_candidate w, votes_total = total_ballots\<rparr>))"

fun max_stake :: "stake_entry \<Rightarrow> stake_entry list \<Rightarrow> stake_entry" where
  "max_stake best [] = best"
| "max_stake best (s # ss) = max_stake (if stake s \<ge> stake best then s else best) ss"

definition elect_dao ::
    "(u8 list \<Rightarrow> u8 list) \<Rightarrow> u8 list \<Rightarrow> u64 \<Rightarrow> election_ballot list \<Rightarrow> stake_entry list \<Rightarrow> (election_tally, CoordinatorError) outcome" where
  "elect_dao blake3 mission_id epoch eligible_ballots stakes =
     (let total_stake = sum_list (map stake stakes) in
      if stakes = [] then Err NoCandidates
      else if total_stake = 0 then Err NoCandidates
      else case count_ballots eligible_ballots of (by_candidate, total_ballots) \<Rightarrow>
        let weighted = sort_key (\<lambda>(i, n). (- uint n, i))
              (map (\<lambda>s. (staked_coordinator s, votes_for by_candidate (staked_coordinator s))) stakes);
            absolute_majority = total_stake div 2 + 1;
            tally = (\<lambda>w n. \<lparr>election_id = compute_election_id blake3 mission_id epoch 0, election_epoch = epoch, closed_epoch = epoch,
              governance_model = model_discriminant Dao, ballots = ballots_to_vec eligible_ballots, winner = w,
              votes_received = n, votes_total = total_ballots\<rparr>) in
        if weighted \<noteq> [] \<and> snd (hd weighted) \<ge> absolute_majority then Ok (tally (fst (hd weighted)) (snd (hd weighted)))
        else let top_stake = max_stake (hd stakes) (tl stakes);
                 top_stake_winners = map staked_coordinator (filter (\<lambda>s. stake s = stake top_stake) stakes) in
          if top_stake_winners = [] then Err NoCandidates
          else bind_ok (tie_break top_stake_winners) (\<lambda>w. Ok (tally w (votes_for by_candidate w))))"

definition ballot_eligible :: "voter_eligibility list \<Rightarrow> election_ballot \<Rightarrow> bool" where
  "ballot_eligible voters b = (case find (\<lambda>v. voter v = voter_peer_id b) voters of Some v \<Rightarrow> is_eligible v | None \<Rightarrow> False)"

definition elect_coordinator ::
    "(u8 list \<Rightarrow> u8 list) \<Rightarrow> GovernanceModel \<Rightarrow> u8 list \<Rightarrow> u64 \<Rightarrow> election_ballot list \<Rightarrow> stake_entry list \<Rightarrow> voter_eligibility list \<Rightarrow>
     CoordinatorId option \<Rightarrow> (election_tally, CoordinatorError) outcome" where
  "elect_coordinator blake3 model mission_id epoch bs stakes voters designator =
     (let ballots_sorted = sort_key (\<lambda>b. (voter_peer_id b, ballot_epoch b)) bs;
          eligible_ballots = filter (ballot_eligible voters) ballots_sorted in
      case model of
        Centralized \<Rightarrow> elect_centralized blake3 mission_id epoch eligible_ballots designator
      | Federated \<Rightarrow> elect_federated blake3 mission_id epoch eligible_ballots
      | Dao \<Rightarrow> elect_dao blake3 mission_id epoch eligible_ballots stakes
      | AiAssisted \<Rightarrow> Err (GovernanceModelNotImplemented (model_discriminant AiAssisted))
      | Autonomous \<Rightarrow> Err (GovernanceModelNotImplemented (model_discriminant Autonomous)))"

subsection \<open>The writer election\<close>

record writer_election =
  we_ballots :: "election_ballot list"
  we_stakes :: "stake_entry list"
  we_voters :: "voter_eligibility list"
  we_governance_model :: GovernanceModel

definition with_governance_model :: "GovernanceModel \<Rightarrow> writer_election" where
  "with_governance_model m = \<lparr>we_ballots = [], we_stakes = [], we_voters = [], we_governance_model = m\<rparr>"

definition writer_election_new :: writer_election where
  "writer_election_new = with_governance_model Centralized"

definition cast_ballot :: "election_ballot \<Rightarrow> writer_election \<Rightarrow> writer_election" where
  "cast_ballot b w = w\<lparr>we_ballots := we_ballots w @ [b]\<rparr>"

definition add_stake :: "stake_entry \<Rightarrow> writer_election \<Rightarrow> writer_election" where
  "add_stake s w = w\<lparr>we_stakes := we_stakes w @ [s]\<rparr>"

definition add_voter :: "voter_eligibility \<Rightarrow> writer_election \<Rightarrow> writer_election" where
  "add_voter v w = w\<lparr>we_voters := we_voters w @ [v]\<rparr>"

definition set_governance_model :: "GovernanceModel \<Rightarrow> writer_election \<Rightarrow> writer_election" where
  "set_governance_model m w = w\<lparr>we_governance_model := m\<rparr>"

definition writer_elect_coordinator ::
    "(u8 list \<Rightarrow> u8 list) \<Rightarrow> writer_election \<Rightarrow> u8 list \<Rightarrow> u64 \<Rightarrow> CoordinatorId option \<Rightarrow> (election_tally, CoordinatorError) outcome" where
  "writer_elect_coordinator blake3 w mission_id epoch designator =
     elect_coordinator blake3 (we_governance_model w) mission_id epoch (we_ballots w) (we_stakes w) (we_voters w) designator"

subsection \<open>What is counted\<close>

definition votes :: "election_ballot list \<Rightarrow> CoordinatorId \<Rightarrow> nat" where
  "votes bs c = length (filter (\<lambda>b. candidate_peer_id b = c) bs)"

lemma saturating_add_one: "unat n + 1 < 2 ^ 64 \<Longrightarrow> unat (saturating_add n 1) = unat n + 1"
  using checked_add_nat [of n 1] by (auto simp: saturating_add_def checked_add_def unat_word_ariths split: if_splits)

lemma count_vote_map: "map_of (count_vote c es) i = (if i = c then Some (case map_of es c of Some n \<Rightarrow> saturating_add n 1 | None \<Rightarrow> 1) else map_of es i)"
  by (induction c es rule: count_vote.induct) auto

lemma count_vote_fst: "fst ` set (count_vote c es) = insert c (fst ` set es)"
  by (induction c es rule: count_vote.induct) (auto simp: image_iff)

lemma count_vote_distinct: "distinct (map fst es) \<Longrightarrow> distinct (map fst (count_vote c es))"
  by (induction c es rule: count_vote.induct) (auto simp: count_vote_fst)

definition cnt :: "(CoordinatorId \<times> u64) list \<Rightarrow> CoordinatorId \<Rightarrow> nat" where
  "cnt es c = (case map_of es c of Some n \<Rightarrow> unat n | None \<Rightarrow> 0)"

lemma cnt_count_vote: "cnt es c + 1 < 2 ^ 64 \<Longrightarrow> cnt (count_vote c es) i = cnt es i + (if i = c then 1 else 0)"
  by (auto simp: cnt_def count_vote_map saturating_add_one split: option.splits)

lemma votes_Cons: "votes (b # bs) c = (if candidate_peer_id b = c then 1 else 0) + votes bs c"
  by (simp add: votes_def)

lemma count_loop_counts:
  assumes "count_loop es t bs = (es', t')" "distinct (map fst es)" "unat t + length bs < 2 ^ 64"
    "\<forall>c. cnt es c + length bs < 2 ^ 64"
  shows "distinct (map fst es') \<and> fst ` set es' = fst ` set es \<union> candidate_peer_id ` set bs
    \<and> unat t' = unat t + length bs \<and> (\<forall>c. cnt es' c = cnt es c + votes bs c)"
  using assms
proof (induction es t bs arbitrary: es' t' rule: count_loop.induct)
  case (1 es t)
  then show ?case by (simp add: votes_def)
next
  case (2 es t b bs)
  have c: "cnt es c + length bs + 1 < 2 ^ 64" for c using 2(5) by (metis add.assoc add.commute length_Cons plus_1_eq_Suc)
  then have step: "cnt (count_vote (candidate_peer_id b) es) i = cnt es i + (if i = candidate_peer_id b then 1 else 0)" for i
    by (intro cnt_count_vote) (metis add.assoc add.commute add_lessD1)
  have t: "unat (saturating_add t 1) = unat t + 1" using 2(4) by (intro saturating_add_one) simp
  have "\<forall>i. cnt (count_vote (candidate_peer_id b) es) i + length bs < 2 ^ 64" using c step by (auto simp: add.commute add.left_commute intro: less_trans)
  then show ?case
    using 2(1) [of es' t'] 2(2-4) t step count_vote_distinct [of es] by (auto simp: count_vote_fst votes_Cons)
qed

lemma votes_pos: "0 < votes bs c \<longleftrightarrow> c \<in> candidate_peer_id ` set bs"
  by (auto simp: votes_def filter_empty_conv)

lemma count_ballots_counts:
  assumes "count_ballots bs = (es, t)" "length bs < 2 ^ 64"
  shows "distinct (map fst es)" "unat t = length bs"
    "set es = (\<lambda>c. (c, of_nat (votes bs c))) ` candidate_peer_id ` set bs" "votes_for es c = of_nat (votes bs c)"
proof -
  obtain es' where es': "count_loop [] 0 bs = (es', t)" "es = sort_key (\<lambda>(i, n). (- uint n, i)) es'"
    using assms(1) by (auto simp: count_ballots_def split: prod.splits)
  have *: "distinct (map fst es')" "fst ` set es' = candidate_peer_id ` set bs" "unat t = length bs" "\<forall>c. cnt es' c = votes bs c"
    using count_loop_counts [OF es'(1)] assms(2) by (auto simp: cnt_def)
  then show t: "unat t = length bs" and d: "distinct (map fst es)"
    by (simp_all add: es' distinct_map)
  have mem: "(c, n) \<in> set es' \<longleftrightarrow> c \<in> candidate_peer_id ` set bs \<and> n = of_nat (votes bs c)" for c n
  proof -
    have "(c, n) \<in> set es' \<longleftrightarrow> map_of es' c = Some n" using *(1) by simp
    moreover have "map_of es' c = None \<longleftrightarrow> c \<notin> candidate_peer_id ` set bs" using *(2) by (simp add: map_of_eq_None_iff)
    moreover have "n = of_nat (votes bs c)" if "map_of es' c = Some n" for n
    proof -
      have "unat n = votes bs c" using that *(4) [rule_format, of c] by (simp add: cnt_def)
      moreover have "n = of_nat (unat n)" by simp
      ultimately show ?thesis by simp
    qed
    ultimately show ?thesis by (metis not_None_eq)
  qed
  then show s: "set es = (\<lambda>c. (c, of_nat (votes bs c))) ` candidate_peer_id ` set bs"
    by (auto simp: es')
  show "votes_for es c = of_nat (votes bs c)"
  proof (cases "find (\<lambda>(i, _). i = c) es")
    case None
    then have "c \<notin> candidate_peer_id ` set bs" by (simp add: find_entry_None s image_image)
    then have "votes bs c = 0" using votes_pos [of bs c] by simp
    with None show ?thesis by (simp add: votes_for_def)
  next
    case (Some e)
    then have "e \<in> set es" "fst e = c" by (auto simp: find_Some_iff dest: nth_mem)
    with Some s show ?thesis by (auto simp: votes_for_def)
  qed
qed

lemma votes_le: "votes bs c \<le> length bs"
  by (simp add: votes_def)

lemma votes_two: "c \<noteq> d \<Longrightarrow> votes bs c + votes bs d \<le> length bs"
  by (induction bs) (auto simp: votes_def)

lemma unat_votes: "length bs < 2 ^ 64 \<Longrightarrow> unat (of_nat (votes bs c) :: u64) = votes bs c"
  using votes_le [of bs c] by (simp add: unat_of_nat)

lemma filter_singleton:
  assumes "distinct xs" "\<And>y. y \<in> set xs \<and> P y \<longleftrightarrow> y = x"
  shows "filter P xs = [x]"
proof -
  have "set (filter P xs) = {x}" using assms(2) by auto
  moreover have "distinct (filter P xs)" using assms(1) by simp
  ultimately show ?thesis by (metis card_1_singleton_iff distinct_card length_Suc_conv length_0_conv list.set(2) list.size(3) One_nat_def set_empty2 singletonD list.set_intros(1))
qed

text \<open>A quorum of more than half of the ballots is met by at most one candidate.\<close>

lemma quorum_winners:
  assumes "count_ballots bs = (es, t)" "length bs < 2 ^ 64" "length bs < 2 * unat q" "0 < unat q"
  shows "unat q \<le> votes bs c \<Longrightarrow> filter (\<lambda>(_, n). n \<ge> q) es = [(c, of_nat (votes bs c))]"
    "(\<forall>c. votes bs c < unat q) \<Longrightarrow> filter (\<lambda>(_, n). n \<ge> q) es = []"
proof -
  note c = count_ballots_counts [OF assms(1,2)]
  have e: "e \<in> set es \<and> (case e of (_, n) \<Rightarrow> n \<ge> q) \<longleftrightarrow> snd e = of_nat (votes bs (fst e)) \<and> unat q \<le> votes bs (fst e)" for e
    using votes_pos [of bs "fst e"] assms(4) unat_votes [OF assms(2)] by (cases e) (auto simp: c(3) word_le_nat_alt image_image)
  show "filter (\<lambda>(_, n). n \<ge> q) es = [(c, of_nat (votes bs c))]" if q: "unat q \<le> votes bs c"
  proof (rule filter_singleton)
    show "distinct es" using c(1) by (simp add: distinct_map)
    have "unat q \<le> votes bs d \<longleftrightarrow> d = c" for d using q votes_two [of d c bs] assms(3) by fastforce
    then show "y \<in> set es \<and> (case y of (_, n) \<Rightarrow> n \<ge> q) \<longleftrightarrow> y = (c, of_nat (votes bs c))" for y
      unfolding e by (cases y) auto
  qed
  show "filter (\<lambda>(_, n). n \<ge> q) es = []" if "\<forall>c. votes bs c < unat q"
    using that e by (auto simp: filter_empty_conv not_le[symmetric])
qed

lemma div_ceil_two_thirds: "unat t < 2 ^ 62 \<Longrightarrow> 0 < unat t \<Longrightarrow>
  unat (div_ceil (t * 2) 3) \<le> v \<longleftrightarrow> 2 * unat t \<le> 3 * v"
proof -
  assume t: "unat t < 2 ^ 62" "0 < unat t"
  then have m: "unat (t * 2) = 2 * unat t" by (simp add: unat_word_ariths)
  have "unat (t * 2 div 3) = 2 * unat t div 3" "unat (t * 2 mod 3) = 2 * unat t mod 3"
    by (simp_all add: unat_div_distrib unat_mod_distrib m)
  moreover from this have "unat (t * 2 div 3 + 1) = 2 * unat t div 3 + 1" using t by (simp add: unat_word_ariths)
  moreover have "(0 < k mod 3 \<longrightarrow> Suc (k div 3) \<le> v \<longleftrightarrow> k \<le> 3 * v) \<and> (k mod 3 = 0 \<longrightarrow> k div 3 \<le> v \<longleftrightarrow> k \<le> 3 * v)" for k :: nat
    by presburger
  ultimately show ?thesis by (simp add: div_ceil_def word_less_nat_alt)
qed

subsection \<open>Ties and stakes\<close>

lemma tie_break_Min: "cs \<noteq> [] \<Longrightarrow> tie_break cs = Ok (Min (set cs))"
proof -
  have "foldl (\<lambda>acc next. if next < acc then next else acc) c cs = Min (insert c (set cs))" for c and cs :: "CoordinatorId list"
  proof (induction cs arbitrary: c)
    case (Cons d cs)
    have "(if d < c then d else c) = min c d" by (auto simp: min_def)
    then show ?case using Cons.IH [of "min c d"] by (cases "cs = []") (simp_all add: min.assoc)
  qed simp
  then show "cs \<noteq> [] \<Longrightarrow> tie_break cs = Ok (Min (set cs))" by (cases cs) (simp_all add: tie_break_def)
qed

lemma max_stake_Max: "stake (max_stake best ss) = Max (stake ` insert best (set ss)) \<and> max_stake best ss \<in> insert best (set ss)"
proof (induction best ss rule: max_stake.induct)
  case (2 best s ss)
  have "stake ` insert best (set (s # ss)) = insert (stake best) (insert (stake s) (stake ` set ss))" by auto
  with 2 show ?case by (cases "ss = []") (auto simp: max_def)
qed simp

subsection \<open>Outcomes of the models\<close>

definition tally_of :: "(u8 list \<Rightarrow> u8 list) \<Rightarrow> u8 list \<Rightarrow> u64 \<Rightarrow> u16 \<Rightarrow> election_ballot list \<Rightarrow> CoordinatorId \<Rightarrow> election_tally" where
  "tally_of blake3 mission_id epoch m bs w =
     \<lparr>election_id = blake3 (mission_id @ be_bytes 8 (uint epoch) @ [0]), election_epoch = epoch, closed_epoch = epoch,
      governance_model = m, ballots = sort_key (\<lambda>b. (voter_peer_id b, ballot_epoch b)) bs, winner = w,
      votes_received = of_nat (votes bs w), votes_total = of_nat (length bs)\<rparr>"

lemma sort_key_twice [simp]: "sort_key f (sort_key f xs) = sort_key f xs"
  by (rule sort_key_id_if_sorted) simp

lemma sort_key_empty [simp]: "sort_key f xs = [] \<longleftrightarrow> xs = []"
  by (metis length_sort length_0_conv)

lemma votes_mset: "mset bs = mset cs \<Longrightarrow> votes bs = votes cs"
  by (rule ext) (metis votes_def mset_filter size_mset)

lemma eligible_sorted:
  "filter P (sort_key f bs) = sort_key f (filter P bs)"
  "votes (sort_key f bs) = votes bs"
  by (simp add: filter_sort) (rule votes_mset, simp)

lemma of_nat_total: "unat t = k \<Longrightarrow> t = of_nat k"
  by auto

abbreviation by_voter :: "election_ballot list \<Rightarrow> election_ballot list" where
  "by_voter \<equiv> sort_key (\<lambda>b. (voter_peer_id b, ballot_epoch b))"

lemma elect_federated_outcome:
  assumes "length bs < 2 ^ 62"
  shows "length bs < 2 * votes bs c \<Longrightarrow> elect_federated B mid ep (by_voter bs) = Ok (tally_of B mid ep 2 bs c)"
    "bs \<noteq> [] \<Longrightarrow> \<forall>c. 2 * votes bs c \<le> length bs \<Longrightarrow> elect_federated B mid ep (by_voter bs) = Err (ElectionTimeout (ep + 1000))"
proof -
  obtain es t where et: "count_ballots (by_voter bs) = (es, t)" by (cases "count_ballots (by_voter bs)")
  have len: "length (by_voter bs) < 2 ^ 64" using assms by simp
  note cb = count_ballots_counts [OF et len]
  have q: "unat (t div 2 + 1) = length bs div 2 + 1"
    using cb(2) assms by (simp add: unat_div_distrib unat_word_ariths)
  note w = quorum_winners [OF et len, of "t div 2 + 1", unfolded q eligible_sorted]
  show "elect_federated B mid ep (by_voter bs) = Ok (tally_of B mid ep 2 bs c)" if c: "length bs < 2 * votes bs c"
  proof -
    have "bs \<noteq> []" using c by (auto simp: votes_def)
    moreover have "filter (\<lambda>(_, n). t div 2 + 1 \<le> n) es = [(c, of_nat (votes bs c))]" using c by (intro w(1)) auto
    ultimately show ?thesis
      using of_nat_total [OF cb(2), symmetric]
      by (simp add: elect_federated_def et Let_def tie_break_def ballots_to_vec_def tally_of_def compute_election_id_def cb(4) eligible_sorted)
  qed
  show "elect_federated B mid ep (by_voter bs) = Err (ElectionTimeout (ep + 1000))"
    if "bs \<noteq> []" and c: "\<forall>c. 2 * votes bs c \<le> length bs"
  proof -
    have "votes bs c < length bs div 2 + 1" for c using c [rule_format, of c] by linarith
    then have "filter (\<lambda>(_, n). t div 2 + 1 \<le> n) es = []" by (intro w(2)) auto
    then show ?thesis using \<open>bs \<noteq> []\<close> by (simp add: elect_federated_def et ELECTION_TIMEOUT_def Let_def)
  qed
qed

lemma elect_centralized_outcome:
  assumes "length bs < 2 ^ 62" "bs \<noteq> []"
  shows "2 * length bs \<le> 3 * votes bs c \<Longrightarrow> elect_centralized B mid ep (by_voter bs) des = Ok (tally_of B mid ep 1 bs c)"
    "\<forall>c. 3 * votes bs c < 2 * length bs \<Longrightarrow> elect_centralized B mid ep (by_voter bs) des = Err (ElectionTimeout (ep + 1000))"
proof -
  obtain es t where et: "count_ballots (by_voter bs) = (es, t)" by (cases "count_ballots (by_voter bs)")
  have len: "length (by_voter bs) < 2 ^ 64" using assms by simp
  note cb = count_ballots_counts [OF et len]
  have t: "unat t = length bs" "t \<noteq> 0" using cb(2) assms(2) by auto
  define needed where "needed = div_ceil (t * 2) 3"
  have q: "unat needed \<le> v \<longleftrightarrow> 2 * length bs \<le> 3 * v" for v
    unfolding needed_def using div_ceil_two_thirds [of t v] t assms by simp
  have pos: "length bs < 2 * unat needed" "0 < unat needed"
    using q [of "unat needed"] q [of 0] assms(2) by auto
  note w = quorum_winners [OF et len, of needed, unfolded eligible_sorted]
  show "elect_centralized B mid ep (by_voter bs) des = Ok (tally_of B mid ep 1 bs c)" if c: "2 * length bs \<le> 3 * votes bs c"
  proof -
    have "filter (\<lambda>(_, n). needed \<le> n) es = [(c, of_nat (votes bs c))]" using c q pos by (intro w(1)) auto
    then show ?thesis
      using of_nat_total [OF t(1), symmetric] t(2) assms(2)
      by (simp add: elect_centralized_def et Let_def tie_break_def ballots_to_vec_def tally_of_def compute_election_id_def cb(4) eligible_sorted
          flip: needed_def)
  qed
  show "elect_centralized B mid ep (by_voter bs) des = Err (ElectionTimeout (ep + 1000))" if c: "\<forall>c. 3 * votes bs c < 2 * length bs"
  proof -
    have "filter (\<lambda>(_, n). needed \<le> n) es = []" using c q pos by (intro w(2)) (auto simp: not_le[symmetric])
    then show ?thesis using assms(2) t(2) by (simp add: elect_centralized_def et ELECTION_TIMEOUT_def Let_def flip: needed_def)
  qed
qed

lemma hd_sort_key:
  assumes "xs \<noteq> []"
  shows "hd (sort_key f xs) \<in> set xs" "x \<in> set xs \<Longrightarrow> f (hd (sort_key f xs)) \<le> f x"
proof -
  obtain y ys where y: "sort_key f xs = y # ys" using assms by (cases "sort_key f xs") auto
  have "set xs = insert y (set ys)" by (metis y list.simps(15) set_sort)
  moreover have "sorted (f y # map f ys)" using sorted_sort_key [of f xs] by (simp add: y)
  ultimately show "hd (sort_key f xs) \<in> set xs" "x \<in> set xs \<Longrightarrow> f (hd (sort_key f xs)) \<le> f x"
    by (auto simp: y)
qed

definition top_staked :: "stake_entry list \<Rightarrow> CoordinatorId" where
  "top_staked ss = Min (staked_coordinator ` {s \<in> set ss. stake s = Max (stake ` set ss)})"

lemma elect_dao_outcome:
  assumes "length bs < 2 ^ 62" "total_stake = sum_list (map stake ss)" "total_stake \<noteq> 0"
  shows "\<forall>s \<in> set ss. votes bs (staked_coordinator s) \<le> unat total_stake div 2 \<Longrightarrow>
      elect_dao B mid ep (by_voter bs) ss = Ok (tally_of B mid ep 3 bs (top_staked ss))"
    "\<exists>s \<in> set ss. unat total_stake div 2 < votes bs (staked_coordinator s) \<Longrightarrow>
      \<exists>w \<in> staked_coordinator ` set ss. elect_dao B mid ep (by_voter bs) ss = Ok (tally_of B mid ep 3 bs w)
        \<and> (\<forall>c \<in> staked_coordinator ` set ss. votes bs c < votes bs w \<or> votes bs c = votes bs w \<and> w \<le> c)"
proof -
  obtain es t where et: "count_ballots (by_voter bs) = (es, t)" by (cases "count_ballots (by_voter bs)")
  have len: "length (by_voter bs) < 2 ^ 64" "length bs < 2 ^ 64" using assms by simp_all
  note cb = count_ballots_counts [OF et len(1), unfolded eligible_sorted]
  have ss: "ss \<noteq> []" using assms(2,3) by auto
  define key where "key = (\<lambda>(i :: CoordinatorId, n :: u64). (- uint n, i))"
  define weighted where "weighted = sort_key key (map (\<lambda>s. (staked_coordinator s, of_nat (votes bs (staked_coordinator s)))) ss)"
  define w where "w = fst (hd weighted)"
  have hd: "hd weighted \<in> (\<lambda>c. (c, of_nat (votes bs c))) ` staked_coordinator ` set ss" "weighted \<noteq> []"
    using hd_sort_key(1) [of "map (\<lambda>s. (staked_coordinator s, of_nat (votes bs (staked_coordinator s)))) ss" key] ss
    by (auto simp: weighted_def)
  then have w: "w \<in> staked_coordinator ` set ss" "hd weighted = (w, of_nat (votes bs w))" by (auto simp: w_def)
  have vu: "uint (of_nat (votes bs c) :: u64) = int (votes bs c)" for c by (metis unat_votes [OF len(2)] of_nat_unat)
  have best: "votes bs c < votes bs w \<or> votes bs c = votes bs w \<and> w \<le> c" if "c \<in> staked_coordinator ` set ss" for c
  proof -
    have "key (hd weighted) \<le> key (c, of_nat (votes bs c))"
      unfolding weighted_def using that ss by (intro hd_sort_key(2)) auto
    then show ?thesis by (auto simp: w(2) key_def vu)
  qed
  have "unat total_stake div 2 + 1 < 2 ^ 64" using unsigned_less [of total_stake, where 'a = nat] by simp
  then have maj: "total_stake div 2 + 1 \<le> of_nat (votes bs w) \<longleftrightarrow> unat total_stake div 2 < votes bs w"
    by (simp add: word_le_nat_alt unat_votes [OF len(2)] unat_word_ariths unat_div_distrib Suc_le_eq)
  have dao: "elect_dao B mid ep (by_voter bs) ss =
      (if unat total_stake div 2 < votes bs w then Ok (tally_of B mid ep 3 bs w)
       else Ok (tally_of B mid ep 3 bs (top_staked ss)))"
  proof -
    have wd: "sort_key (\<lambda>(i, n). (- uint n, i)) (map (\<lambda>s. (staked_coordinator s, of_nat (votes bs (staked_coordinator s)))) ss) = weighted"
      by (simp add: weighted_def key_def)
    have "insert (hd ss) (set (tl ss)) = set ss" using ss by (cases ss) auto
    then have top: "stake (max_stake (hd ss) (tl ss)) = Max (stake ` set ss)" "max_stake (hd ss) (tl ss) \<in> set ss"
      using max_stake_Max [of "hd ss" "tl ss"] by simp_all
    have tops: "filter (\<lambda>s. stake s = Max (stake ` set ss)) ss \<noteq> []" using top by (auto simp: filter_empty_conv)
    then have tb: "tie_break (map staked_coordinator (filter (\<lambda>s. stake s = Max (stake ` set ss)) ss)) = Ok (top_staked ss)"
      by (simp add: tie_break_Min top_staked_def)
    show ?thesis
      using ss assms(2,3) tops hd(2) of_nat_total [OF cb(2), symmetric]
      by (simp add: elect_dao_def et wd top(1) tb w(2) maj cb(4) ballots_to_vec_def tally_of_def compute_election_id_def Let_def
          flip: assms(2))
  qed
  show "elect_dao B mid ep (by_voter bs) ss = Ok (tally_of B mid ep 3 bs (top_staked ss))"
    if "\<forall>s \<in> set ss. votes bs (staked_coordinator s) \<le> unat total_stake div 2"
    using that w(1) by (auto simp: dao)
  show "\<exists>w \<in> staked_coordinator ` set ss. elect_dao B mid ep (by_voter bs) ss = Ok (tally_of B mid ep 3 bs w)
        \<and> (\<forall>c \<in> staked_coordinator ` set ss. votes bs c < votes bs w \<or> votes bs c = votes bs w \<and> w \<le> c)"
    if "\<exists>s \<in> set ss. unat total_stake div 2 < votes bs (staked_coordinator s)"
    using that best w(1) by (intro bexI [of _ w]) (fastforce simp: dao)+
qed

definition sample_voter :: "u8 \<Rightarrow> voter_eligibility" where
  "sample_voter i = \<lparr>voter = replicate 32 i, trust_score = 600, voter_slash_count = 0, is_mission_participant = True\<rparr>"

definition sample_ballot :: "u8 \<Rightarrow> u8 \<Rightarrow> u64 \<Rightarrow> election_ballot" where
  "sample_ballot v c e = \<lparr>voter_peer_id = replicate 32 v, candidate_peer_id = replicate 32 c, ballot_epoch = e, ballot_signature = []\<rparr>"

lemmas sample_defs = sample_voter_def sample_ballot_def ballot_eligible_def is_eligible_def TRUST_SCORE_THRESHOLD_def
  MAX_SLASHES_BEFORE_BAN_def votes_def

section \<open>Properties\<close>





text \<open>C24: The outcome of an election does not depend on the order in which the ballots arrive, provided no voter
  casts two ballots in one epoch.\<close>

theorem election_deterministic:
  assumes "mset bs = mset bs'" "distinct (map (\<lambda>b. (voter_peer_id b, ballot_epoch b)) bs)"
  shows "elect_coordinator B m mid ep bs stakes voters des = elect_coordinator B m mid ep bs' stakes voters des"
proof -
  have "inj_on (\<lambda>b. (voter_peer_id b, ballot_epoch b)) (set bs)" using assms(2) by (simp add: distinct_map)
  then have "by_voter bs = by_voter bs'" using assms(1) by (intro sort_key_inj_key_eq) simp_all
  then show ?thesis by (simp add: elect_coordinator_def)
qed

theorem election_deterministic_witness:
  "elect_coordinator (\<lambda>b. b) Centralized [] 7 [sample_ballot 1 9 0, sample_ballot 2 8 0] [] [sample_voter 1, sample_voter 2] None
   = elect_coordinator (\<lambda>b. b) Centralized [] 7 [sample_ballot 2 8 0, sample_ballot 1 9 0] [] [sample_voter 1, sample_voter 2] None"
  by (rule election_deterministic) (simp_all add: sample_ballot_def)

text \<open>A voter is not held to one ballot: an eligible voter who casts more ballots than there are other
  eligible ballots decides a federated election alone, and with more than twice as many a centralized
  one.\<close>

theorem election_repeated_votes:
  assumes "\<forall>b \<in> set mine. voter_peer_id b = v \<and> candidate_peer_id b = c" "find (\<lambda>e. voter e = v) voters = Some e" "is_eligible e"
    "length mine + length others < 2 ^ 62"
  shows "(length others < length mine \<longrightarrow>
      (\<exists>t. elect_coordinator B Federated mid ep (others @ mine) stakes voters des = Ok t \<and> winner t = c))
    \<and> (2 * length others < length mine \<longrightarrow>
      (\<exists>t. elect_coordinator B Centralized mid ep (others @ mine) stakes voters des = Ok t \<and> winner t = c))"
proof -
  define bs where "bs = filter (ballot_eligible voters) (others @ mine)"
  have "filter (ballot_eligible voters) mine = mine" "filter (\<lambda>b. candidate_peer_id b = c) mine = mine"
    using assms(1-3) by (auto simp: filter_id_conv ballot_eligible_def)
  then have len: "length bs = length (filter (ballot_eligible voters) others) + length mine" "length mine \<le> votes bs c"
    by (simp_all add: bs_def votes_def)
  have le: "length (filter (ballot_eligible voters) others) \<le> length others" by simp
  have small: "length bs < 2 ^ 62" using len le assms(4) by linarith
  have eq: "elect_coordinator B Federated mid ep (others @ mine) stakes voters des = elect_federated B mid ep (by_voter bs)"
      "elect_coordinator B Centralized mid ep (others @ mine) stakes voters des = elect_centralized B mid ep (by_voter bs) des"
    by (simp_all only: elect_coordinator_def eligible_sorted bs_def Let_def GovernanceModel.case)
  show ?thesis
  proof (intro conjI impI)
    assume "length others < length mine"
    then have "length bs < 2 * votes bs c" using len le by linarith
    then show "\<exists>t. elect_coordinator B Federated mid ep (others @ mine) stakes voters des = Ok t \<and> winner t = c"
      unfolding eq using elect_federated_outcome(1) [OF small, of c] by (simp add: tally_of_def)
  next
    assume two: "2 * length others < length mine"
    then have "2 * length bs \<le> 3 * votes bs c" "bs \<noteq> []" using len le by (linarith, auto)
    then show "\<exists>t. elect_coordinator B Centralized mid ep (others @ mine) stakes voters des = Ok t \<and> winner t = c"
      unfolding eq using elect_centralized_outcome(1) [OF small, of c] by (simp add: tally_of_def)
  qed
qed

theorem election_repeated_votes_witness:
  "\<exists>t. elect_coordinator (\<lambda>b. b) Federated [] 7 ([sample_ballot 2 8 0, sample_ballot 3 8 0] @ [sample_ballot 1 9 0, sample_ballot 1 9 1, sample_ballot 1 9 2])
     [] [sample_voter 1, sample_voter 2, sample_voter 3] None = Ok t \<and> winner t = replicate 32 9"
  using election_repeated_votes [of "[sample_ballot 1 9 0, sample_ballot 1 9 1, sample_ballot 1 9 2]" "replicate 32 1" "replicate 32 9"
      "[sample_voter 1, sample_voter 2, sample_voter 3]" "sample_voter 1" "[sample_ballot 2 8 0, sample_ballot 3 8 0]"
      "\<lambda>b. b" "[]" 7 "[]" None]
  by (simp add: sample_defs)

end
