(* ===== verification/Registries.thy ===== *)
theory Registries
  imports SigAlgs
begin

text \<open>
  The registries of the capability substrate (\<open>octo-cap-macaroon/src/substrate.rs\<close>) and the check of a
  governance signature (\<open>governance_signature.rs\<close>). The traits \<open>AssetRegistry\<close>, \<open>VaultRegistry\<close> and
  \<open>NonceRegistry\<close> are records of their methods, over a state where they mutate it; the in-memory
  implementations are modelled on maps and sets. The locale \<open>nonce_registry\<close> is the contract of the
  third trait, interpreted on its in-memory implementation.
\<close>

type_synonym AssetId = "u8 list"
type_synonym VaultId = "u8 list"
type_synonym ChainId = "u8 list"
type_synonym Nonce = "u8 list"
type_synonym Epoch = u64

definition asset_id_derive :: "(u8 list \<Rightarrow> u8 list) \<Rightarrow> string \<Rightarrow> AssetId" where
  "asset_id_derive blake3 role_token = blake3 (ascii_bytes ''cipherocto/asset/v1/'' @ ascii_bytes role_token)"

definition chain_id_derive :: "(u8 list \<Rightarrow> u8 list) \<Rightarrow> string \<Rightarrow> ChainId" where
  "chain_id_derive blake3 chain_string = blake3 (ascii_bytes ''cipherocto/chain/v1/'' @ ascii_bytes chain_string)"

definition sovereign_nonce_namespace :: "(u8 list \<Rightarrow> u8 list) \<Rightarrow> AssetId \<Rightarrow> u8 list" where
  "sovereign_nonce_namespace blake3 asset_id = blake3 (ascii_bytes ''octo:sovereign-nonce-ns:v1'' @ asset_id)"

subsection \<open>Assets\<close>

definition ASSET_MAX_SCALE :: nat where "ASSET_MAX_SCALE = 18"

datatype AssetKind = OctoW | ManagedAsset | BridgedExternalAsset | WrappedCrossChainAsset | SovereignRoleToken

fun asset_kind_as_str :: "AssetKind \<Rightarrow> string" where
  "asset_kind_as_str OctoW = ''OctoW''"
| "asset_kind_as_str ManagedAsset = ''ManagedAsset''"
| "asset_kind_as_str BridgedExternalAsset = ''BridgedExternalAsset''"
| "asset_kind_as_str WrappedCrossChainAsset = ''WrappedCrossChainAsset''"
| "asset_kind_as_str SovereignRoleToken = ''SovereignRoleToken''"

definition asset_kind_parse :: "string \<Rightarrow> AssetKind option" where
  "asset_kind_parse s =
     (if s = ''OctoW'' then Some OctoW
      else if s = ''ManagedAsset'' then Some ManagedAsset
      else if s = ''BridgedExternalAsset'' then Some BridgedExternalAsset
      else if s = ''WrappedCrossChainAsset'' then Some WrappedCrossChainAsset
      else if s = ''SovereignRoleToken'' then Some SovereignRoleToken
      else None)"

fun asset_kind_byte :: "AssetKind \<Rightarrow> u8" where
  "asset_kind_byte OctoW = 0"
| "asset_kind_byte ManagedAsset = 1"
| "asset_kind_byte BridgedExternalAsset = 2"
| "asset_kind_byte WrappedCrossChainAsset = 3"
| "asset_kind_byte SovereignRoleToken = 4"

record asset_metadata =
  wire_scale :: nat
  display_decimals :: nat
  denomination :: string
  symbol :: string
  asset_kind :: AssetKind
  governance_pubkey :: "u8 list option"
  chain_id :: "ChainId option"
  asset_name :: string
  tombstoned :: bool

definition asset_metadata_new :: "nat \<Rightarrow> nat \<Rightarrow> string \<Rightarrow> string \<Rightarrow> AssetKind \<Rightarrow> asset_metadata" where
  "asset_metadata_new scale decimals denom sy k =
     \<lparr>wire_scale = scale, display_decimals = decimals, denomination = denom, symbol = sy, asset_kind = k,
      governance_pubkey = None, chain_id = None, asset_name = [], tombstoned = False\<rparr>"

datatype AssetError = AssetUnknown | AssetScaleOutOfRange nat | BoundedCacheMiss

type_synonym asset_registry = "AssetId \<Rightarrow> (asset_metadata, AssetError) outcome"

type_synonym in_memory_assets = "AssetId \<Rightarrow> asset_metadata option"

definition asset_register :: "AssetId \<Rightarrow> asset_metadata \<Rightarrow> in_memory_assets \<Rightarrow> asset_metadata option \<times> in_memory_assets" where
  "asset_register i m reg = (reg i, reg(i := Some m))"

definition asset_tombstone :: "AssetId \<Rightarrow> in_memory_assets \<Rightarrow> in_memory_assets" where
  "asset_tombstone i reg = (case reg i of Some m \<Rightarrow> reg(i := Some (m\<lparr>tombstoned := True\<rparr>)) | None \<Rightarrow> reg)"

definition metadata :: "in_memory_assets \<Rightarrow> asset_registry" where
  "metadata reg i = (case reg i of Some m \<Rightarrow> if tombstoned m then Err AssetUnknown else Ok m | None \<Rightarrow> Err AssetUnknown)"

subsection \<open>Vaults\<close>

datatype VaultAssetError = VaultUnknown | VaultAssetMismatch

record in_memory_vaults =
  vaults :: "VaultId set"
  vault_assets :: "VaultId \<Rightarrow> AssetId set option"

definition register_vault :: "VaultId \<Rightarrow> in_memory_vaults \<Rightarrow> bool \<times> in_memory_vaults" where
  "register_vault v reg = (v \<notin> vaults reg, reg\<lparr>vaults := insert v (vaults reg)\<rparr>)"

definition add_asset :: "VaultId \<Rightarrow> AssetId \<Rightarrow> in_memory_vaults \<Rightarrow> in_memory_vaults" where
  "add_asset v a reg =
     reg\<lparr>vault_assets := (vault_assets reg)(v := Some (insert a (case vault_assets reg v of Some as \<Rightarrow> as | None \<Rightarrow> {})))\<rparr>"

definition vault_exists :: "in_memory_vaults \<Rightarrow> VaultId \<Rightarrow> bool" where
  "vault_exists reg v \<longleftrightarrow> v \<in> vaults reg"

definition contains_asset :: "in_memory_vaults \<Rightarrow> VaultId \<Rightarrow> AssetId \<Rightarrow> (unit, VaultAssetError) outcome" where
  "contains_asset reg v a =
     (if v \<notin> vaults reg then Err VaultUnknown
      else case vault_assets reg v of Some as \<Rightarrow> if a \<in> as then Ok () else Err VaultAssetMismatch | None \<Rightarrow> Err VaultAssetMismatch)"

subsection \<open>Nonces\<close>

datatype NonceEventKind = Burn | Settlement | Payment

fun nonce_event_tag :: "NonceEventKind \<Rightarrow> u8" where
  "nonce_event_tag Burn = 1"
| "nonce_event_tag Settlement = 2"
| "nonce_event_tag Payment = 3"

datatype NonceError =
    AlreadyObserved NonceEventKind "u8 list" Nonce
  | NotObserved NonceEventKind "u8 list" Nonce
  | PersistenceFailure
  | WalRecovering

type_synonym nonce_key = "NonceEventKind \<times> u8 list \<times> Nonce"

record 'n nonce_ops =
  observe :: "NonceEventKind \<Rightarrow> u8 list \<Rightarrow> Nonce \<Rightarrow> 'n \<Rightarrow> (unit, NonceError) outcome \<times> 'n"
  observe_readonly :: "NonceEventKind \<Rightarrow> u8 list \<Rightarrow> Nonce \<Rightarrow> 'n \<Rightarrow> (unit, NonceError) outcome"
  unobserve :: "NonceEventKind \<Rightarrow> u8 list \<Rightarrow> Nonce \<Rightarrow> 'n \<Rightarrow> (unit, NonceError) outcome \<times> 'n"

definition nonce_bucket_key :: "(u8 list \<Rightarrow> u8 list) \<Rightarrow> NonceEventKind \<Rightarrow> u8 list \<Rightarrow> u8 list" where
  "nonce_bucket_key blake3 k pk = blake3 (ascii_bytes ''octo:nonce:v1:'' @ [nonce_event_tag k] @ pk)"

definition mem_observe :: "NonceEventKind \<Rightarrow> u8 list \<Rightarrow> Nonce \<Rightarrow> nonce_key set \<Rightarrow> (unit, NonceError) outcome \<times> nonce_key set" where
  "mem_observe k pk n s = (if (k, pk, n) \<in> s then (Err (AlreadyObserved k pk n), s) else (Ok (), insert (k, pk, n) s))"

definition mem_observe_readonly :: "NonceEventKind \<Rightarrow> u8 list \<Rightarrow> Nonce \<Rightarrow> nonce_key set \<Rightarrow> (unit, NonceError) outcome" where
  "mem_observe_readonly k pk n s = (if (k, pk, n) \<in> s then Err (AlreadyObserved k pk n) else Ok ())"

definition mem_unobserve :: "NonceEventKind \<Rightarrow> u8 list \<Rightarrow> Nonce \<Rightarrow> nonce_key set \<Rightarrow> (unit, NonceError) outcome \<times> nonce_key set" where
  "mem_unobserve k pk n s = (if (k, pk, n) \<notin> s then (Err (NotObserved k pk n), s) else (Ok (), s - {(k, pk, n)}))"

definition in_memory_nonces :: "nonce_key set nonce_ops" where
  "in_memory_nonces = \<lparr>observe = mem_observe, observe_readonly = mem_observe_readonly, unobserve = mem_unobserve\<rparr>"

text \<open>What every implementation of the trait promises: a triple is accepted only once, a refused call
  changes nothing, and the read-only check agrees with the set of accepted triples. An implementation
  may refuse for reasons of its own.\<close>

locale nonce_registry =
  fixes N :: "'n nonce_ops" and seen :: "'n \<Rightarrow> nonce_key set"
  assumes observe_Ok: "observe N k pk n s = (Ok (), s') \<Longrightarrow> (k, pk, n) \<notin> seen s \<and> seen s' = insert (k, pk, n) (seen s)"
    and observe_Err: "observe N k pk n s = (Err e, s') \<Longrightarrow> s' = s"
    and observe_total: "fst (observe N k pk n s) \<noteq> Panic"
    and readonly_seen: "(k, pk, n) \<in> seen s \<Longrightarrow> \<exists>e. observe_readonly N k pk n s = Err e"
    and unobserve_Ok: "unobserve N k pk n s = (Ok (), s') \<Longrightarrow> (k, pk, n) \<in> seen s \<and> seen s' = seen s - {(k, pk, n)}"
begin

lemma observe_cases:
  obtains s' where "observe N k pk n s = (Ok (), s')" "(k, pk, n) \<notin> seen s" "seen s' = insert (k, pk, n) (seen s)"
  | e where "observe N k pk n s = (Err e, s)"
proof (cases "observe N k pk n s")
  case (Pair r s')
  then show thesis using that observe_Ok observe_Err observe_total [of k pk n s] by (cases r) auto
qed

lemma observe_seen: "(k, pk, n) \<in> seen s \<Longrightarrow> \<exists>e. observe N k pk n s = (Err e, s)"
  by (rule observe_cases [of k pk n s]) auto

lemma seen_mono: "seen s \<subseteq> seen (snd (observe N k pk n s))"
  by (rule observe_cases [of k pk n s]) auto

end

interpretation mem_nonces: nonce_registry in_memory_nonces "\<lambda>s. s"
  by unfold_locales
    (auto simp: in_memory_nonces_def mem_observe_def mem_observe_readonly_def mem_unobserve_def split: if_splits)

subsection \<open>Governance signatures\<close>

datatype GovernanceSignatureError = GovInvalidLength nat | GovInvalidSignature | GovInvalidPubkeyLength nat

definition governance_algorithm_id :: "(u8 list \<Rightarrow> u8 list \<Rightarrow> u8 list) \<Rightarrow> u8 list" where
  "governance_algorithm_id uuid_v5 = ed25519_algorithm_id uuid_v5"

definition verify_governance_signature ::
    "(u8 list \<Rightarrow> u8 list \<Rightarrow> u8 list) \<Rightarrow> dalek \<Rightarrow> u8 list \<Rightarrow> u8 list \<Rightarrow> u8 list \<Rightarrow> u8 list \<Rightarrow> algorithm_registry \<Rightarrow>
     (unit, GovernanceSignatureError) outcome \<times> algorithm_registry" where
  "verify_governance_signature U D alg sig body_hash pk reg =
     (case verify_dispatch U D alg pk body_hash sig reg of (r, reg') \<Rightarrow>
        (map_err (\<lambda>e. case e of Signature (BadKeyLength _ got _) \<Rightarrow> GovInvalidPubkeyLength got | _ \<Rightarrow> GovInvalidSignature) r, reg'))"

lemma asset_kind_round_trip: "asset_kind_parse (asset_kind_as_str k) = Some k" "asset_kind_parse s = Some k \<Longrightarrow> asset_kind_as_str k = s"
  by (cases k) (auto simp: asset_kind_parse_def split: if_splits)

end
