(* ===== verification/Payments.thy ===== *)
theory Payments
  imports Registries Dqa
begin

text \<open>
  Payment caveats (\<open>octo-cap-macaroon/src/caveat/payment.rs\<close>), the decision on a paid query
  (\<open>octo-paid-query/src/lib.rs\<close>) and the ledger it is drained from (\<open>ledger.rs\<close>). Amounts are the
  \<open>Dqa\<close> values of the theory of that name, with the panic of every \<open>expect\<close>. The in-memory ledger is a
  map behind a mutex: a call is atomic, and a panic inside a call poisons the mutex, after which every
  call reports a storage error.
\<close>

subsection \<open>Caveats\<close>

definition PAID_QUERY_CAVEAT_NAME :: string where
  "PAID_QUERY_CAVEAT_NAME = ''paid-query/v1''"

record payment_caveat =
  caveat_name :: string
  pc_asset_id :: AssetId
  budget :: dqa
  pc_model :: string
  expires_at_unix_ms :: u64
  registry_snapshot_epoch :: Epoch
  pc_nonce :: Nonce

definition payment_caveat_new :: "AssetId \<Rightarrow> dqa \<Rightarrow> string \<Rightarrow> u64 \<Rightarrow> Epoch \<Rightarrow> Nonce \<Rightarrow> payment_caveat" where
  "payment_caveat_new a b m ex ep n =
     \<lparr>caveat_name = PAID_QUERY_CAVEAT_NAME, pc_asset_id = a, budget = b, pc_model = m, expires_at_unix_ms = ex,
      registry_snapshot_epoch = ep, pc_nonce = n\<rparr>"

definition is_expired :: "payment_caveat \<Rightarrow> u64 \<Rightarrow> bool" where
  "is_expired c now_unix_ms \<longleftrightarrow> expires_at_unix_ms c \<noteq> - 1 \<and> now_unix_ms > expires_at_unix_ms c"

definition matches_model :: "payment_caveat \<Rightarrow> string \<Rightarrow> bool" where
  "matches_model c query_model \<longleftrightarrow> pc_model c = [] \<or> pc_model c = query_model"

datatype AttenuationError =
    BudgetWidened dqa dqa
  | ExpiryWidened u64 u64
  | AssetMismatch AssetId AssetId
  | ScaleMismatch nat nat
  | AttAssetUnknown AssetId

definition attenuate_legacy_2arg :: "payment_caveat \<Rightarrow> dqa \<Rightarrow> u64 \<Rightarrow> (payment_caveat, AttenuationError) outcome" where
  "attenuate_legacy_2arg c new_budget new_expires =
     (case dqa_cmp new_budget (budget c) of
        Ok r \<Rightarrow>
          if r > 0 then Err (BudgetWidened (budget c) new_budget)
          else if \<not> (expires_at_unix_ms c = - 1 \<and> new_expires = - 1) \<and> new_expires > expires_at_unix_ms c
          then Err (ExpiryWidened (expires_at_unix_ms c) new_expires)
          else Ok (c\<lparr>caveat_name := PAID_QUERY_CAVEAT_NAME, budget := new_budget, expires_at_unix_ms := new_expires\<rparr>)
      | _ \<Rightarrow> Panic)"

definition attenuate :: "asset_registry \<Rightarrow> payment_caveat \<Rightarrow> dqa \<Rightarrow> u64 \<Rightarrow> AssetId \<Rightarrow> (payment_caveat, AttenuationError) outcome" where
  "attenuate registry c new_budget new_expires new_asset_id =
     (case registry (pc_asset_id c) of
        Ok meta \<Rightarrow>
          if new_asset_id \<noteq> pc_asset_id c then Err (AssetMismatch (pc_asset_id c) new_asset_id)
          else if dqa_scale new_budget \<noteq> dqa_scale (budget c) \<or> dqa_scale new_budget \<noteq> wire_scale meta
          then Err (ScaleMismatch (dqa_scale (budget c)) (dqa_scale new_budget))
          else attenuate_legacy_2arg c new_budget new_expires
      | Err _ \<Rightarrow> Err (AttAssetUnknown (pc_asset_id c))
      | Panic \<Rightarrow> Panic)"

datatype PaymentRejectionReason =
    BudgetExhausted
  | Expired
  | ModelMismatch
  | CostExceedsBudget
  | RejScaleMismatch nat nat
  | RejAssetUnknown
  | StaleSnapshot u64 u64
  | Replay
  | LegacyFormOnNonOctoWContext AssetId

datatype PaymentDecision = Proceed dqa | Partial dqa | Reject PaymentRejectionReason

definition expect :: "('a, 'e) outcome \<Rightarrow> ('a, 'f) outcome" where
  "expect r = (case r of Ok x \<Rightarrow> Ok x | _ \<Rightarrow> Panic)"

definition nonce_namespace :: "(u8 list \<Rightarrow> u8 list) \<Rightarrow> asset_metadata \<Rightarrow> AssetId \<Rightarrow> u8 list" where
  "nonce_namespace blake3 meta a = (case governance_pubkey meta of Some pk \<Rightarrow> pk | None \<Rightarrow> sovereign_nonce_namespace blake3 a)"

definition verify_budget :: "payment_caveat \<Rightarrow> dqa \<Rightarrow> string \<Rightarrow> u64 \<Rightarrow> (PaymentDecision, unit) outcome" where
  "verify_budget c query_cost query_model now_unix_ms =
     (if is_expired c now_unix_ms then Ok (Reject Expired)
      else if \<not> matches_model c query_model then Ok (Reject ModelMismatch)
      else if dqa_value (budget c) = 0 then Ok (Reject BudgetExhausted)
      else bind_ok (expect (dqa_cmp query_cost (budget c))) (\<lambda>r.
        if r > 0 then Ok (Reject CostExceedsBudget)
        else bind_ok (expect (dqa_sub (budget c) query_cost)) (\<lambda>rest. Ok (Proceed rest))))"

definition payment_verify ::
    "(u8 list \<Rightarrow> u8 list) \<Rightarrow> asset_registry \<Rightarrow> 'n nonce_ops \<Rightarrow> payment_caveat \<Rightarrow> dqa \<Rightarrow> string \<Rightarrow> u64 \<Rightarrow> Epoch \<Rightarrow> 'n \<Rightarrow>
     (PaymentDecision, unit) outcome \<times> 'n" where
  "payment_verify blake3 registry N c query_cost query_model now_unix_ms current_epoch s =
     (case registry (pc_asset_id c) of
        Ok meta \<Rightarrow>
          if dqa_scale query_cost \<noteq> dqa_scale (budget c) \<or> dqa_scale query_cost \<noteq> wire_scale meta
          then (Ok (Reject (RejScaleMismatch (dqa_scale (budget c)) (dqa_scale query_cost))), s)
          else if current_epoch < registry_snapshot_epoch c
          then (Ok (Reject (StaleSnapshot (registry_snapshot_epoch c) current_epoch)), s)
          else (case observe N Payment (nonce_namespace blake3 meta (pc_asset_id c)) (pc_nonce c) s of
              (Ok _, s') \<Rightarrow> (verify_budget c query_cost query_model now_unix_ms, s')
            | (Err _, s') \<Rightarrow> (Ok (Reject Replay), s')
            | (Panic, s') \<Rightarrow> (Panic, s'))
      | Err _ \<Rightarrow> (Ok (Reject RejAssetUnknown), s)
      | Panic \<Rightarrow> (Panic, s))"

definition payment_validate ::
    "(u8 list \<Rightarrow> u8 list) \<Rightarrow> asset_registry \<Rightarrow> 'n nonce_ops \<Rightarrow> payment_caveat \<Rightarrow> Epoch \<Rightarrow> 'n \<Rightarrow> (unit, PaymentRejectionReason) outcome" where
  "payment_validate blake3 registry N c current_epoch s =
     (case registry (pc_asset_id c) of
        Ok meta \<Rightarrow>
          if dqa_scale (budget c) \<noteq> wire_scale meta then Err (RejScaleMismatch (dqa_scale (budget c)) (wire_scale meta))
          else if current_epoch < registry_snapshot_epoch c then Err (StaleSnapshot (registry_snapshot_epoch c) current_epoch)
          else (case observe_readonly N Payment (nonce_namespace blake3 meta (pc_asset_id c)) (pc_nonce c) s of
              Ok _ \<Rightarrow> Ok () | Err _ \<Rightarrow> Err Replay | Panic \<Rightarrow> Panic)
      | Err _ \<Rightarrow> Err RejAssetUnknown
      | Panic \<Rightarrow> Panic)"

subsection \<open>Paid queries\<close>

datatype PaidQueryRejectionReason = PqBudgetExhausted | PqExpired | PqModelMismatch | PqCostExceedsBudget

datatype PaidQueryDecision = PqProceed dqa | PqPartial dqa | PqReject PaidQueryRejectionReason

definition verify_paid_query :: "u8 list \<Rightarrow> payment_caveat \<Rightarrow> dqa \<Rightarrow> string \<Rightarrow> u64 \<Rightarrow> (PaidQueryDecision, unit) outcome" where
  "verify_paid_query macaroon_id c query_cost query_model now_unix_ms =
     (if \<forall>b \<in> set macaroon_id. b = 0 then Ok (PqReject PqBudgetExhausted)
      else if is_expired c now_unix_ms then Ok (PqReject PqExpired)
      else if \<not> matches_model c query_model then Ok (PqReject PqModelMismatch)
      else if dqa_value (budget c) = 0 then Ok (PqReject PqBudgetExhausted)
      else bind_ok (expect (dqa_cmp query_cost (budget c))) (\<lambda>r.
        if r > 0 then Ok (PqPartial (budget c))
        else bind_ok (expect (dqa_sub (budget c) query_cost)) (\<lambda>rest. Ok (PqProceed rest))))"

record payment_receipt =
  drained_amount :: dqa
  remaining_budget :: dqa

definition no_drain :: "dqa \<Rightarrow> payment_receipt" where
  "no_drain rest = \<lparr>drained_amount = mk_dqa 0 0, remaining_budget = rest\<rparr>"

subsection \<open>The spend ledger\<close>

datatype SpendLedgerError = LedgerUnknownHolder | LedgerInsufficientBalance dqa dqa | LedgerStorage string

datatype PaidQueryError = UnknownHolder | InsufficientBalance dqa dqa

fun to_paid_query_error :: "SpendLedgerError \<Rightarrow> PaidQueryError" where
  "to_paid_query_error LedgerUnknownHolder = UnknownHolder"
| "to_paid_query_error (LedgerInsufficientBalance b c) = InsufficientBalance b c"
| "to_paid_query_error (LedgerStorage _) = UnknownHolder"

type_synonym holder_key = "string \<times> u8 list"

record ledger =
  per_holder :: "holder_key \<Rightarrow> dqa option"
  poisoned :: bool

definition ledger_new :: ledger where
  "ledger_new = \<lparr>per_holder = Map.empty, poisoned = False\<rparr>"

definition POISONED :: SpendLedgerError where
  "POISONED = LedgerStorage ''ledger mutex poisoned''"

definition ledger_seed :: "holder_key \<Rightarrow> dqa \<Rightarrow> ledger \<Rightarrow> (unit, SpendLedgerError) outcome \<times> ledger" where
  "ledger_seed k b l =
     (if poisoned l then (Err POISONED, l) else (Ok (), l\<lparr>per_holder := (per_holder l)(k := Some b)\<rparr>))"

definition ledger_try_deduct :: "holder_key \<Rightarrow> dqa \<Rightarrow> ledger \<Rightarrow> (dqa, SpendLedgerError) outcome \<times> ledger" where
  "ledger_try_deduct k cost l =
     (if poisoned l then (Err POISONED, l)
      else case per_holder l k of
        None \<Rightarrow> (Err LedgerUnknownHolder, l)
      | Some balance \<Rightarrow>
          (case bind_ok (expect (dqa_cmp balance cost)) (\<lambda>r.
               if r < 0 then Err (LedgerInsufficientBalance balance cost) else expect (dqa_sub balance cost)) of
             Ok rest \<Rightarrow> (Ok rest, l\<lparr>per_holder := (per_holder l)(k := Some rest)\<rparr>)
           | Err e \<Rightarrow> (Err e, l)
           | Panic \<Rightarrow> (Panic, l\<lparr>poisoned := True\<rparr>)))"

definition ledger_balance :: "holder_key \<Rightarrow> ledger \<Rightarrow> (dqa option, SpendLedgerError) outcome" where
  "ledger_balance k l = (if poisoned l then Err POISONED else Ok (per_holder l k))"

definition budget_seed :: "holder_key \<Rightarrow> dqa \<Rightarrow> ledger \<Rightarrow> (unit, PaidQueryError) outcome \<times> ledger" where
  "budget_seed k b l = (case ledger_seed k b l of (r, l') \<Rightarrow> (map_err to_paid_query_error r, l'))"

definition try_deduct :: "holder_key \<Rightarrow> dqa \<Rightarrow> ledger \<Rightarrow> (dqa, PaidQueryError) outcome \<times> ledger" where
  "try_deduct k cost l = (case ledger_try_deduct k cost l of (r, l') \<Rightarrow> (map_err to_paid_query_error r, l'))"

definition budget_balance :: "holder_key \<Rightarrow> ledger \<Rightarrow> (dqa option, PaidQueryError) outcome" where
  "budget_balance k l = map_err to_paid_query_error (ledger_balance k l)"

subsection \<open>Lemmas\<close>

lemma expect_Ok [simp]: "expect r = Ok x \<longleftrightarrow> r = Ok x" "expect r \<noteq> Err e" "expect (Ok x) = Ok x"
  by (cases r; simp add: expect_def)+

lemma expect_cmp: "dqa_wf a \<Longrightarrow> dqa_wf b \<Longrightarrow> expect (dqa_cmp a b) = Ok (compare_rat (dqa_val a) (dqa_val b))"
  by (simp add: dqa_cmp_correct)

definition difference_fits :: "dqa \<Rightarrow> dqa \<Rightarrow> bool" where
  "difference_fits a b \<longleftrightarrow> aligned_fits a b \<and> i64_range (at_scale a (common_scale a b) - at_scale b (common_scale a b))"

lemma expect_sub:
  assumes "dqa_wf a" "dqa_wf b"
  shows "difference_fits a b \<Longrightarrow> \<exists>c. dqa_sub a b = Ok c \<and> dqa_wf c \<and> dqa_canonical c \<and> dqa_val c = dqa_val a - dqa_val b"
    "\<not> difference_fits a b \<Longrightarrow> expect (dqa_sub a b) = (Panic :: (dqa, 'e) outcome)"
proof -
  note sub = dqa_sub_correct [OF assms]
  show "\<exists>c. dqa_sub a b = Ok c \<and> dqa_wf c \<and> dqa_canonical c \<and> dqa_val c = dqa_val a - dqa_val b" if "difference_fits a b"
    using that sub by (cases "dqa_sub a b") (auto simp: difference_fits_def)
  show "expect (dqa_sub a b) = (Panic :: (dqa, 'e) outcome)" if "\<not> difference_fits a b"
    using that sub by (cases "dqa_sub a b") (auto simp: difference_fits_def expect_def)
qed

lemma dqa_sub_cases:
  assumes "dqa_wf a" "dqa_wf b"
  obtains rest where "dqa_canonical rest" "dqa_val rest = dqa_val a - dqa_val b"
    "dqa_sub a b = (if difference_fits a b then Ok rest else Err DqaError.Overflow)"
proof -
  let ?s = "common_scale a b"
  let ?rest = "canonicalize (mk_dqa (at_scale a ?s - at_scale b ?s) ?s)"
  have "dqa_val ?rest = dqa_val a - dqa_val b"
    by (simp add: dqa_val_def [of "mk_dqa _ _"] aligned_sum_val(2))
  moreover have "dqa_sub a b = (if difference_fits a b then Ok ?rest else Err DqaError.Overflow)"
    by (simp add: dqa_sub_spec [OF assms] difference_fits_def Let_def)
  ultimately show thesis using that [of ?rest] by simp
qed

lemma same_scale_fits:
  assumes "dqa_wf a" "dqa_wf b" "dqa_scale a = dqa_scale b" "0 \<le> dqa_value b" "dqa_value b \<le> dqa_value a"
  shows "difference_fits a b"
  using assms by (simp add: difference_fits_def aligned_fits_def common_scale_def at_scale_def dqa_wf_def i64_range_def)

lemma deduct_step:
  assumes "\<not> poisoned l" "per_holder l k = Some b" "dqa_wf b" "dqa_wf c"
  shows "dqa_val b < dqa_val c \<Longrightarrow> ledger_try_deduct k c l = (Err (LedgerInsufficientBalance b c), l)"
    "dqa_val c \<le> dqa_val b \<Longrightarrow> difference_fits b c \<Longrightarrow>
      \<exists>r. ledger_try_deduct k c l = (Ok r, l\<lparr>per_holder := (per_holder l)(k := Some r)\<rparr>) \<and> dqa_wf r \<and> dqa_val r = dqa_val b - dqa_val c"
    "dqa_val c \<le> dqa_val b \<Longrightarrow> \<not> difference_fits b c \<Longrightarrow> ledger_try_deduct k c l = (Panic, l\<lparr>poisoned := True\<rparr>)"
  using assms expect_sub(1) [OF assms(3,4)]
  by (auto simp: ledger_try_deduct_def expect_cmp compare_rat_def expect_sub(2) [OF assms(3,4)])

fun drain :: "holder_key \<Rightarrow> dqa list \<Rightarrow> ledger \<Rightarrow> (dqa, SpendLedgerError) outcome list \<times> ledger" where
  "drain k [] l = ([], l)"
| "drain k (c # cs) l =
     (case ledger_try_deduct k c l of (r, l1) \<Rightarrow> case drain k cs l1 of (rs, l2) \<Rightarrow> (r # rs, l2))"

definition spent :: "dqa list \<Rightarrow> (dqa, SpendLedgerError) outcome list \<Rightarrow> rat" where
  "spent cs rs = sum_list (map2 (\<lambda>c r. case r of Ok _ \<Rightarrow> dqa_val c | _ \<Rightarrow> 0) cs rs)"

lemma deduct_keeps:
  assumes "per_holder l k = Some b" "dqa_wf b" "dqa_wf c" "ledger_try_deduct k c l = (r, l')"
  obtains b' where "per_holder l' k = Some b'" "dqa_wf b'" "\<forall>j. j \<noteq> k \<longrightarrow> per_holder l' j = per_holder l j"
    "dqa_val b = dqa_val b' + (case r of Ok _ \<Rightarrow> dqa_val c | _ \<Rightarrow> 0)" "0 \<le> dqa_val b \<Longrightarrow> 0 \<le> dqa_val b'"
proof (cases "poisoned l")
  case True
  then have "r = Err POISONED" "l' = l" using assms(4) by (simp_all add: ledger_try_deduct_def)
  then show thesis using that [of b] assms by simp
next
  case False
  consider "dqa_val b < dqa_val c" | "dqa_val c \<le> dqa_val b" "difference_fits b c" | "dqa_val c \<le> dqa_val b" "\<not> difference_fits b c"
    by linarith
  then show thesis
  proof cases
    case 1
    then show thesis using that [of b] deduct_step(1) [OF False assms(1-3)] assms by simp
  next
    case 2
    then obtain x where x: "ledger_try_deduct k c l = (Ok x, l\<lparr>per_holder := (per_holder l)(k := Some x)\<rparr>)" "dqa_wf x" "dqa_val x = dqa_val b - dqa_val c"
      using deduct_step(2) [OF False assms(1-3)] by blast
    then have "r = Ok x" "l' = l\<lparr>per_holder := (per_holder l)(k := Some x)\<rparr>" using assms(4) by simp_all
    then show thesis using that [of x] x 2 by simp
  next
    case 3
    then show thesis using that [of b] deduct_step(3) [OF False assms(1-3)] assms by simp
  qed
qed

lemma drain_keeps:
  assumes "per_holder l k = Some b" "dqa_wf b" "\<forall>c \<in> set cs. dqa_wf c" "drain k cs l = (rs, l')"
  shows "\<exists>b'. per_holder l' k = Some b' \<and> dqa_wf b' \<and> (\<forall>j. j \<noteq> k \<longrightarrow> per_holder l' j = per_holder l j)
    \<and> dqa_val b = dqa_val b' + spent cs rs \<and> (0 \<le> dqa_val b \<longrightarrow> 0 \<le> dqa_val b')"
  using assms
proof (induction cs arbitrary: l b rs)
  case Nil
  then show ?case by (simp add: spent_def)
next
  case (Cons c cs)
  obtain r l1 rs' where step: "ledger_try_deduct k c l = (r, l1)" "drain k cs l1 = (rs', l')" "rs = r # rs'"
    using Cons.prems(4) by (auto split: prod.splits)
  obtain b1 where b1: "per_holder l1 k = Some b1" "dqa_wf b1" "\<forall>j. j \<noteq> k \<longrightarrow> per_holder l1 j = per_holder l j"
      "dqa_val b = dqa_val b1 + (case r of Ok _ \<Rightarrow> dqa_val c | _ \<Rightarrow> 0)" "0 \<le> dqa_val b \<Longrightarrow> 0 \<le> dqa_val b1"
    using deduct_keeps [OF Cons.prems(1,2) _ step(1)] Cons.prems(3) by (metis list.set_intros(1))
  then show ?case
    using Cons.IH [OF b1(1,2) _ step(2)] Cons.prems(3) step(3) by (auto simp: spent_def)
qed

text \<open>Runs of verifications: caveat, cost, model, time and epoch of each call.\<close>

type_synonym pay_query = "payment_caveat \<times> dqa \<times> string \<times> u64 \<times> Epoch"

abbreviation query_caveat :: "pay_query \<Rightarrow> payment_caveat" where
  "query_caveat q \<equiv> fst q"

fun verify_run ::
    "(u8 list \<Rightarrow> u8 list) \<Rightarrow> asset_registry \<Rightarrow> 'n nonce_ops \<Rightarrow> pay_query list \<Rightarrow> 'n \<Rightarrow> (PaymentDecision, unit) outcome list \<times> 'n" where
  "verify_run blake3 registry N [] s = ([], s)"
| "verify_run blake3 registry N ((c, cost, m, t, ep) # qs) s =
     (case payment_verify blake3 registry N c cost m t ep s of (r, s1) \<Rightarrow>
      case verify_run blake3 registry N qs s1 of (rs, s2) \<Rightarrow> (r # rs, s2))"

fun before_nonce :: "(PaymentDecision, unit) outcome \<Rightarrow> bool" where
  "before_nonce (Ok (Reject RejAssetUnknown)) \<longleftrightarrow> True"
| "before_nonce (Ok (Reject (RejScaleMismatch _ _))) \<longleftrightarrow> True"
| "before_nonce (Ok (Reject (StaleSnapshot _ _))) \<longleftrightarrow> True"
| "before_nonce _ \<longleftrightarrow> False"

definition payment_keys :: "(u8 list \<Rightarrow> u8 list) \<Rightarrow> asset_registry \<Rightarrow> payment_caveat \<Rightarrow> nonce_key set" where
  "payment_keys blake3 registry c =
     (case registry (pc_asset_id c) of Ok meta \<Rightarrow> {(Payment, nonce_namespace blake3 meta (pc_asset_id c), pc_nonce c)} | _ \<Rightarrow> {})"

lemma payment_keys_cong:
  "pc_asset_id c = pc_asset_id d \<Longrightarrow> pc_nonce c = pc_nonce d \<Longrightarrow> payment_keys blake3 registry c = payment_keys blake3 registry d"
  by (simp add: payment_keys_def cong: outcome.case_cong)

lemma metadata_total: "metadata assets a \<noteq> Panic"
  by (simp add: metadata_def split: option.split)

context nonce_registry
begin

lemma verify_step:
  assumes "payment_verify blake3 registry N c cost m t ep s = (r, s')" "registry (pc_asset_id c) \<noteq> Panic"
  shows "seen s \<subseteq> seen s'"
    and "\<not> before_nonce r \<Longrightarrow> r \<noteq> Ok (Reject Replay) \<Longrightarrow> payment_keys blake3 registry c \<subseteq> seen s'"
    and "payment_keys blake3 registry c \<subseteq> seen s \<Longrightarrow> before_nonce r \<or> r = Ok (Reject Replay)"
proof -
  have "seen s \<subseteq> seen s' \<and> (\<not> before_nonce r \<longrightarrow> r \<noteq> Ok (Reject Replay) \<longrightarrow> payment_keys blake3 registry c \<subseteq> seen s')
    \<and> (payment_keys blake3 registry c \<subseteq> seen s \<longrightarrow> before_nonce r \<or> r = Ok (Reject Replay))"
  proof (cases "registry (pc_asset_id c)")
    case (Ok meta)
    show ?thesis
      by (rule observe_cases [of Payment "nonce_namespace blake3 meta (pc_asset_id c)" "pc_nonce c" s])
        (use assms(1) Ok in \<open>auto simp: payment_verify_def payment_keys_def split: if_splits\<close>)
  qed (use assms in \<open>auto simp: payment_verify_def payment_keys_def\<close>)
  then show "seen s \<subseteq> seen s'"
    "\<not> before_nonce r \<Longrightarrow> r \<noteq> Ok (Reject Replay) \<Longrightarrow> payment_keys blake3 registry c \<subseteq> seen s'"
    "payment_keys blake3 registry c \<subseteq> seen s \<Longrightarrow> before_nonce r \<or> r = Ok (Reject Replay)" by blast+
qed

lemma run_length: "verify_run blake3 registry N qs s = (rs, s') \<Longrightarrow> length rs = length qs"
  by (induction qs arbitrary: s rs) (auto split: prod.splits)

lemma run_used:
  assumes "verify_run blake3 registry N qs s = (rs, s')" "\<forall>a. registry a \<noteq> Panic" "j < length qs"
    "payment_keys blake3 registry (query_caveat (qs ! j)) \<subseteq> seen s"
  shows "before_nonce (rs ! j) \<or> rs ! j = Ok (Reject Replay)"
  using assms
proof (induction qs arbitrary: s rs j)
  case (Cons q qs)
  obtain c cost m t ep where q: "q = (c, cost, m, t, ep)" by (cases q)
  obtain r s1 rs1 where step: "payment_verify blake3 registry N c cost m t ep s = (r, s1)"
      "verify_run blake3 registry N qs s1 = (rs1, s')" "rs = r # rs1"
    using Cons.prems(1) by (auto simp: q split: prod.splits)
  note v = verify_step [OF step(1) Cons.prems(2) [rule_format]]
  show ?case
  proof (cases j)
    case 0
    then show ?thesis using v(3) Cons.prems(4) q step(3) by simp
  next
    case (Suc k)
    then show ?thesis using Cons.IH [OF step(2) Cons.prems(2), of k] v(1) Cons.prems(3,4) step(3) by auto
  qed
qed simp

lemma run_single_use:
  assumes "verify_run blake3 registry N qs s = (rs, s')" "\<forall>a. registry a \<noteq> Panic" "i < j" "j < length qs"
    "pc_asset_id (query_caveat (qs ! i)) = pc_asset_id (query_caveat (qs ! j))"
    "pc_nonce (query_caveat (qs ! i)) = pc_nonce (query_caveat (qs ! j))"
    "\<not> before_nonce (rs ! i)" "rs ! i \<noteq> Ok (Reject Replay)"
  shows "before_nonce (rs ! j) \<or> rs ! j = Ok (Reject Replay)"
  using assms
proof (induction qs arbitrary: s rs i j)
  case (Cons q qs)
  obtain c cost m t ep where q: "q = (c, cost, m, t, ep)" by (cases q)
  obtain r s1 rs1 where step: "payment_verify blake3 registry N c cost m t ep s = (r, s1)"
      "verify_run blake3 registry N qs s1 = (rs1, s')" "rs = r # rs1"
    using Cons.prems(1) by (auto simp: q split: prod.splits)
  obtain k where k: "j = Suc k" using Cons.prems(3) by (cases j) auto
  show ?case
  proof (cases i)
    case 0
    then have "payment_keys blake3 registry c \<subseteq> seen s1"
      using verify_step(2) [OF step(1)] Cons.prems(2,7,8) step(3) by simp
    then have "payment_keys blake3 registry (query_caveat (qs ! k)) \<subseteq> seen s1"
      using payment_keys_cong [of c "query_caveat (qs ! k)"] Cons.prems(5,6) 0 k q by simp
    then show ?thesis using run_used [OF step(2) Cons.prems(2)] Cons.prems(4) k step(3) by simp
  next
    case (Suc l)
    then show ?thesis using Cons.IH [OF step(2) Cons.prems(2), of l k] Cons.prems k step(3) by simp
  qed
qed simp

end

section \<open>Properties\<close>

text \<open>C10: The ledger conserves budgets. Whatever sequence of costs is charged to a holder, the balance before
  is the balance after plus the sum of the costs whose charge succeeded; no other holder is touched;
  a balance that is not negative never becomes negative, so with costs that are not negative a holder
  never spends more than the budget.\<close>

theorem spend_ledger_conserves:
  assumes "per_holder l k = Some b" "dqa_wf b" "\<forall>c \<in> set cs. dqa_wf c" "drain k cs l = (rs, l')"
  shows "\<exists>b'. per_holder l' k = Some b' \<and> dqa_val b = dqa_val b' + spent cs rs
    \<and> (\<forall>j. j \<noteq> k \<longrightarrow> per_holder l' j = per_holder l j)
    \<and> (0 \<le> dqa_val b \<longrightarrow> 0 \<le> dqa_val b' \<and> spent cs rs \<le> dqa_val b)"
  using drain_keeps [OF assms] by fastforce

theorem spend_ledger_conserves_witness:
  "\<exists>rs l' b'. drain (''did'', [1]) [mk_dqa 30 0, mk_dqa 80 0] (snd (ledger_seed (''did'', [1]) (mk_dqa 100 0) ledger_new)) = (rs, l')
     \<and> per_holder l' (''did'', [1]) = Some b' \<and> dqa_val (mk_dqa 100 0) = dqa_val b' + spent [mk_dqa 30 0, mk_dqa 80 0] rs"
proof -
  let ?l = "snd (ledger_seed (''did'', [1]) (mk_dqa 100 0) ledger_new)"
  obtain rs l' where d: "drain (''did'', [1]) [mk_dqa 30 0, mk_dqa 80 0] ?l = (rs, l')" by fastforce
  have "per_holder ?l (''did'', [1]) = Some (mk_dqa 100 0)" by (simp add: ledger_seed_def ledger_new_def)
  moreover have "dqa_wf (mk_dqa 100 0)" "\<forall>c \<in> set [mk_dqa 30 0, mk_dqa 80 0]. dqa_wf c"
    by (simp_all add: dqa_wf_def i64_range_def MAX_SCALE_def)
  ultimately show ?thesis using spend_ledger_conserves [OF _ _ _ d] d by blast
qed

text \<open>Two faults of the ledger. A charge with a negative cost succeeds and raises the balance. A charge that
  the balance covers, but whose operands do not fit \<open>i64\<close> at their common scale, panics with the mutex
  held: from then on every call for every holder fails. Canonical amounts suffice for the second,
  for instance a balance of 10 and a cost of \<open>10 ^ -18\<close>.\<close>

theorem spend_ledger_faults:
  assumes "\<not> poisoned l" "per_holder l k = Some b" "dqa_wf b" "dqa_wf c" "dqa_val c \<le> dqa_val b"
  shows "(difference_fits b c \<and> dqa_val c < 0 \<longrightarrow> (\<exists>r l'. try_deduct k c l = (Ok r, l') \<and> dqa_val b < dqa_val r))
    \<and> (\<not> difference_fits b c \<longrightarrow> (\<exists>l'. try_deduct k c l = (Panic, l')
        \<and> (\<forall>j d. try_deduct j d l' = (Err UnknownHolder, l') \<and> budget_seed j d l' = (Err UnknownHolder, l')
            \<and> budget_balance j l' = Err UnknownHolder)))"
  using deduct_step(2,3) [OF assms(1-4)] assms(5)
  by (auto simp: try_deduct_def budget_seed_def budget_balance_def ledger_try_deduct_def [of _ _ "l\<lparr>poisoned := True\<rparr>"]
      ledger_seed_def ledger_balance_def POISONED_def)

theorem spend_ledger_faults_witness:
  "(\<exists>r l'. try_deduct (''did'', [1]) (mk_dqa (- 5) 0) \<lparr>per_holder = [(''did'', [1]) \<mapsto> mk_dqa 10 0], poisoned = False\<rparr> = (Ok r, l')
      \<and> dqa_val (mk_dqa 10 0) < dqa_val r)
   \<and> fst (try_deduct (''did'', [1]) (mk_dqa 1 18) \<lparr>per_holder = [(''did'', [1]) \<mapsto> mk_dqa 10 0], poisoned = False\<rparr>) = Panic"
proof -
  let ?l = "\<lparr>per_holder = [(''did'', [1]) \<mapsto> mk_dqa 10 0], poisoned = False\<rparr>"
  have wf: "dqa_wf (mk_dqa 10 0)" "dqa_wf (mk_dqa 1 18)" "dqa_wf (mk_dqa (- 5) 0)"
    by (simp_all add: dqa_wf_def i64_range_def MAX_SCALE_def)
  have "\<not> difference_fits (mk_dqa 10 0) (mk_dqa 1 18)" "dqa_val (mk_dqa 1 18) \<le> dqa_val (mk_dqa 10 0)"
      "difference_fits (mk_dqa 10 0) (mk_dqa (- 5) 0)" "dqa_val (mk_dqa (- 5) 0) \<le> dqa_val (mk_dqa 10 0)" "dqa_val (mk_dqa (- 5) 0) < 0"
    by (simp_all add: difference_fits_def aligned_fits_def common_scale_def at_scale_def i64_range_def dqa_val_def fp_val_def)
  then show ?thesis
    using spend_ledger_faults [of ?l "(''did'', [1])" "mk_dqa 10 0" "mk_dqa 1 18"]
      spend_ledger_faults [of ?l "(''did'', [1])" "mk_dqa 10 0" "mk_dqa (- 5) 0"] wf by auto
qed

text \<open>The decision on a paid query for well-formed amounts: the first failing gate, in the order identifier,
  expiry, model, empty budget, decides the rejection; a cost above the budget is answered with the
  budget as the highest cost; otherwise the query proceeds with the exact difference, or panics when
  the amounts do not fit \<open>i64\<close> at their common scale. A negative cost proceeds with more than the
  budget.\<close>

theorem verify_paid_query_correct:
  assumes "dqa_wf (budget c)" "dqa_wf cost"
  shows "\<exists>rest. dqa_canonical rest \<and> dqa_val rest = dqa_val (budget c) - dqa_val cost \<and>
    verify_paid_query mid c cost qm now =
    (if set mid \<subseteq> {0} then Ok (PqReject PqBudgetExhausted)
     else if expires_at_unix_ms c \<noteq> - 1 \<and> expires_at_unix_ms c < now then Ok (PqReject PqExpired)
     else if pc_model c \<notin> {[], qm} then Ok (PqReject PqModelMismatch)
     else if dqa_val (budget c) = 0 then Ok (PqReject PqBudgetExhausted)
     else if dqa_val (budget c) < dqa_val cost then Ok (PqPartial (budget c))
     else if difference_fits (budget c) cost then Ok (PqProceed rest)
     else Panic)"
proof -
  obtain rest where rest: "dqa_canonical rest" "dqa_val rest = dqa_val (budget c) - dqa_val cost"
      "dqa_sub (budget c) cost = (if difference_fits (budget c) cost then Ok rest else Err DqaError.Overflow)"
    by (rule dqa_sub_cases [OF assms])
  have "dqa_value (budget c) = 0 \<longleftrightarrow> dqa_val (budget c) = 0" by (simp add: dqa_val_def fp_val_def)
  moreover have "set mid \<subseteq> {0} \<longleftrightarrow> (\<forall>b \<in> set mid. b = 0)" by auto
  ultimately show ?thesis using rest
    by (intro exI [of _ rest])
      (simp add: verify_paid_query_def is_expired_def matches_model_def dqa_cmp_correct assms compare_rat_def expect_def)
qed

theorem verify_paid_query_witness:
  "verify_paid_query [1] (payment_caveat_new [] (mk_dqa 100 0) ''m'' (- 1) 0 []) (mk_dqa 120 0) ''m'' 5 = Ok (PqPartial (mk_dqa 100 0))"
proof -
  let ?c = "payment_caveat_new [] (mk_dqa 100 0) ''m'' (- 1) 0 []"
  have "dqa_wf (budget ?c)" "dqa_wf (mk_dqa 120 0)" "dqa_val (budget ?c) \<noteq> 0" "dqa_val (budget ?c) < dqa_val (mk_dqa 120 0)"
    by (simp_all add: payment_caveat_new_def dqa_wf_def i64_range_def MAX_SCALE_def dqa_val_def fp_val_def)
  then show ?thesis
    using verify_paid_query_correct [of ?c "mk_dqa 120 0" "[1]" "''m''" 5] by (auto simp: payment_caveat_new_def)
qed

text \<open>Attenuation only narrows: it succeeds exactly for a registered asset that stays the same, an amount at
  the scale of the budget and of the asset that is at most the budget, and an expiry that is not later.
  The result differs from the caveat in budget, expiry and name only; the asset, the
  model, the snapshot epoch and the nonce stay.\<close>

theorem attenuation_narrows:
  assumes "dqa_wf (budget c)" "dqa_wf b" "registry (pc_asset_id c) \<noteq> Panic"
  shows "attenuate registry c b e a = Ok c' \<longleftrightarrow>
    (\<exists>meta. registry (pc_asset_id c) = Ok meta \<and> dqa_scale b = wire_scale meta) \<and> a = pc_asset_id c \<and> dqa_scale b = dqa_scale (budget c)
    \<and> dqa_val b \<le> dqa_val (budget c) \<and> e \<le> expires_at_unix_ms c
    \<and> c' = c\<lparr>caveat_name := PAID_QUERY_CAVEAT_NAME, budget := b, expires_at_unix_ms := e\<rparr>"
  using assms(3)
  by (cases "registry (pc_asset_id c)")
    (auto simp: attenuate_def attenuate_legacy_2arg_def dqa_cmp_correct assms compare_rat_def not_less split: if_splits)

theorem attenuation_narrows_witness:
  "\<exists>c'. attenuate (metadata [[7] \<mapsto> asset_metadata_new 2 2 ''cent'' ''C'' ManagedAsset])
      (payment_caveat_new [7] (mk_dqa 100 2) ''m'' 50 0 [9]) (mk_dqa 60 2) 40 [7] = Ok c' \<and> budget c' = mk_dqa 60 2 \<and> pc_nonce c' = [9]"
proof -
  let ?c = "payment_caveat_new [7] (mk_dqa 100 2) ''m'' 50 0 [9]"
  let ?r = "metadata [[7] \<mapsto> asset_metadata_new 2 2 ''cent'' ''C'' ManagedAsset]"
  let ?c' = "?c\<lparr>caveat_name := PAID_QUERY_CAVEAT_NAME, budget := mk_dqa 60 2, expires_at_unix_ms := 40\<rparr>"
  have "dqa_wf (budget ?c)" "dqa_wf (mk_dqa 60 2)" "?r (pc_asset_id ?c) = Ok (asset_metadata_new 2 2 ''cent'' ''C'' ManagedAsset)"
      "dqa_val (mk_dqa 60 2) \<le> dqa_val (budget ?c)"
    by (simp_all add: payment_caveat_new_def dqa_wf_def i64_range_def MAX_SCALE_def dqa_val_def fp_val_def metadata_def asset_metadata_new_def)
  then show ?thesis
    using attenuation_narrows [of ?c "mk_dqa 60 2" ?r 40 "[7]" ?c'] by (auto simp: payment_caveat_new_def asset_metadata_new_def)
qed

text \<open>C11: A caveat pays at most once. Take any run of verifications over the in-memory nonce registry and two
  calls in it whose caveats have the same asset and nonce, as a caveat and its attenuations have. When
  the first call got past the registry, scale and epoch gates, whatever it then answered, the second is
  rejected: by one of those gates or as a replay. In particular a call that is rejected because it is
  expired, asks for another model or costs too much still uses the caveat up, and a budget is never
  spent across several queries.\<close>

theorem payment_single_use:
  assumes "verify_run blake3 (metadata assets) in_memory_nonces qs s = (rs, s')" "i < j" "j < length qs"
    "query_caveat (qs ! i) = ci" "query_caveat (qs ! j) = cj" "pc_asset_id ci = pc_asset_id cj" "pc_nonce ci = pc_nonce cj"
    "\<not> before_nonce (rs ! i)" "rs ! i \<noteq> Ok (Reject Replay)"
  shows "before_nonce (rs ! j) \<or> rs ! j = Ok (Reject Replay)"
  using mem_nonces.run_single_use [OF assms(1) _ assms(2,3) _ _ assms(8,9)] assms(4-7) by (simp add: metadata_total)

theorem payment_single_use_witness:
  "fst (verify_run (\<lambda>x. x) (metadata [[7] \<mapsto> asset_metadata_new 0 0 ''u'' ''U'' ManagedAsset]) in_memory_nonces
      [(payment_caveat_new [7] (mk_dqa 100 0) ''m'' (- 1) 0 [9], mk_dqa 500 0, ''m'', 5, 0),
       (payment_caveat_new [7] (mk_dqa 100 0) ''m'' (- 1) 0 [9], mk_dqa 1 0, ''m'', 6, 0)] {})
   = [Ok (Reject CostExceedsBudget), Ok (Reject Replay)]"
proof -
  let ?c = "payment_caveat_new [7] (mk_dqa 100 0) ''m'' (- 1) 0 [9]"
  let ?m = "asset_metadata_new 0 0 ''u'' ''U'' ManagedAsset"
  let ?qs = "[(?c, mk_dqa 500 0, ''m'', 5, 0), (?c, mk_dqa 1 0, ''m'', 6, 0)] :: pay_query list"
  obtain rs s' where run: "verify_run (\<lambda>x. x) (metadata [[7] \<mapsto> ?m]) in_memory_nonces ?qs {} = (rs, s')" by fastforce
  have wf: "dqa_wf (mk_dqa 500 0)" "dqa_wf (mk_dqa 100 0)" "dqa_val (mk_dqa 500 0) > dqa_val (mk_dqa 100 0)"
    by (simp_all add: dqa_wf_def i64_range_def MAX_SCALE_def dqa_val_def fp_val_def)
  have first: "rs ! 0 = Ok (Reject CostExceedsBudget)" "length rs = 2"
    using run wf by (auto simp: payment_verify_def payment_caveat_new_def asset_metadata_new_def metadata_def in_memory_nonces_def
        mem_observe_def verify_budget_def is_expired_def matches_model_def expect_cmp compare_rat_def split: prod.splits)
  have gates: "\<not> before_nonce (rs ! 1)"
    using run by (auto simp: payment_verify_def payment_caveat_new_def asset_metadata_new_def metadata_def in_memory_nonces_def
        mem_observe_def split: prod.splits if_splits)
  have "before_nonce (rs ! 1) \<or> rs ! 1 = Ok (Reject Replay)"
    using payment_single_use [OF run, of 0 1 ?c ?c] first by simp
  then show ?thesis using run first gates by (auto simp: list_eq_iff_nth_eq less_2_cases_iff)
qed

end
