(* ===== verification/SettleEvents.thy ===== *)
theory SettleEvents
  imports Payments
begin

text \<open>
  Settlement events (\<open>quota-router-sm-engine/src/settlement_event.rs\<close>): their body hash, the constructor
  with its gates, the check after deserialization and the comparison with a payment caveat. The
  registries of assets, vaults and nonces are those of the capability substrate; the process-wide
  registry of signature algorithms is passed as a state.
\<close>

datatype SettlementDecision = SdConsumed | SdAlreadyConsumed | SdInsufficientEvidence | SdBudgetExhausted

fun settlement_decision_byte :: "SettlementDecision \<Rightarrow> u8" where
  "settlement_decision_byte SdConsumed = 1"
| "settlement_decision_byte SdAlreadyConsumed = 2"
| "settlement_decision_byte SdInsufficientEvidence = 3"
| "settlement_decision_byte SdBudgetExhausted = 4"

record settlement_event =
  settlement_id :: "u8 list"
  se_ask_id :: "u8 list"
  cost_vault_id :: VaultId
  cost_asset_id :: AssetId
  se_asset_kind :: AssetKind
  cost :: dqa
  evidence_ref :: "u8 list"
  ledger_height :: u64
  created_at_unix_ms :: u64
  settlement_decision :: SettlementDecision
  governance_signature :: "u8 list"
  se_snapshot_epoch :: Epoch
  se_nonce :: Nonce

datatype SettlementEventError =
    SeAssetUnknown
  | SeScaleMismatch nat nat
  | SeScaleOutOfRange nat
  | SeInvalidSignature
  | SeReplay
  | SeStaleSnapshot u64 u64
  | SeVaultAssetMismatch VaultId AssetId
  | SeVaultUnknown VaultId
  | SeLegacyFormOnNonOctoWContext AssetId

datatype AuditInvariantViolation = AuditAssetMismatch AssetId AssetId

definition encode_settlement_decision :: "SettlementDecision \<Rightarrow> u8 list" where
  "encode_settlement_decision d = [1, settlement_decision_byte d]"

definition BODY_HASH_DOMAIN :: "u8 list" where
  "BODY_HASH_DOMAIN = ascii_bytes ''cipherocto/settlement/v1/''"

definition settlement_body :: "settlement_event \<Rightarrow> u8 list" where
  "settlement_body e =
     BODY_HASH_DOMAIN @ settlement_id e @ se_ask_id e @ cost_vault_id e @ cost_asset_id e
     @ [asset_kind_byte (se_asset_kind e)] @ [of_nat (dqa_scale (cost e))] @ le_bytes 8 (dqa_value (cost e))
     @ le_bytes 8 (uint (ledger_height e)) @ evidence_ref e @ take 32 (governance_signature e) @ se_nonce e"

definition compute_settlement_body_hash :: "(u8 list \<Rightarrow> u8 list) \<Rightarrow> settlement_event \<Rightarrow> u8 list" where
  "compute_settlement_body_hash blake3 e = blake3 (settlement_body e)"

text \<open>The gates that the constructor and the later check share: the signature of an asset that has a
  governance key, and the vault.\<close>

definition signature_gate ::
    "(u8 list \<Rightarrow> u8 list) \<Rightarrow> (u8 list \<Rightarrow> u8 list \<Rightarrow> u8 list) \<Rightarrow> dalek \<Rightarrow> asset_metadata \<Rightarrow> settlement_event \<Rightarrow> algorithm_registry \<Rightarrow>
     (unit, SettlementEventError) outcome \<times> algorithm_registry" where
  "signature_gate blake3 U D meta e reg =
     (case governance_pubkey meta of
        None \<Rightarrow> (Ok (), reg)
      | Some pk \<Rightarrow>
          (case verify_governance_signature U D (governance_algorithm_id U) (governance_signature e)
                  (compute_settlement_body_hash blake3 e) pk reg of
             (r, reg') \<Rightarrow> (map_err (\<lambda>_. SeInvalidSignature) r, reg')))"

definition vault_gate ::
    "(VaultId \<Rightarrow> AssetId \<Rightarrow> (unit, VaultAssetError) outcome) \<Rightarrow> settlement_event \<Rightarrow> (unit, SettlementEventError) outcome" where
  "vault_gate contains e =
     map_err (\<lambda>x. case x of VaultUnknown \<Rightarrow> SeVaultUnknown (cost_vault_id e)
                | VaultAssetMismatch \<Rightarrow> SeVaultAssetMismatch (cost_vault_id e) (cost_asset_id e))
       (contains (cost_vault_id e) (cost_asset_id e))"

definition build_event ::
    "u8 list \<Rightarrow> u8 list \<Rightarrow> VaultId \<Rightarrow> AssetId \<Rightarrow> dqa \<Rightarrow> u8 list \<Rightarrow> u64 \<Rightarrow> u64 \<Rightarrow> SettlementDecision \<Rightarrow> u8 list \<Rightarrow> Nonce \<Rightarrow> Epoch \<Rightarrow>
     asset_metadata \<Rightarrow> settlement_event" where
  "build_event sid aid v a c ev h t d sig n epoch meta =
     \<lparr>settlement_id = sid, se_ask_id = aid, cost_vault_id = v, cost_asset_id = a, se_asset_kind = asset_kind meta,
      cost = c, evidence_ref = ev, ledger_height = h, created_at_unix_ms = t, settlement_decision = d,
      governance_signature = sig, se_snapshot_epoch = epoch, se_nonce = n\<rparr>"

definition settlement_event_new ::
    "(u8 list \<Rightarrow> u8 list) \<Rightarrow> (u8 list \<Rightarrow> u8 list \<Rightarrow> u8 list) \<Rightarrow> dalek \<Rightarrow> asset_registry \<Rightarrow>
     (VaultId \<Rightarrow> AssetId \<Rightarrow> (unit, VaultAssetError) outcome) \<Rightarrow> 'n nonce_ops \<Rightarrow>
     u8 list \<Rightarrow> u8 list \<Rightarrow> VaultId \<Rightarrow> AssetId \<Rightarrow> dqa \<Rightarrow> u8 list \<Rightarrow> u64 \<Rightarrow> u64 \<Rightarrow> SettlementDecision \<Rightarrow> u8 list \<Rightarrow> Nonce \<Rightarrow> Epoch \<Rightarrow>
     algorithm_registry \<Rightarrow> 'n \<Rightarrow> (settlement_event, SettlementEventError) outcome \<times> algorithm_registry \<times> 'n" where
  "settlement_event_new blake3 U D registry contains N sid aid v a c ev h t d sig n epoch reg s =
     (case registry a of
        Ok meta \<Rightarrow>
          if dqa_scale c > ASSET_MAX_SCALE then (Err (SeScaleOutOfRange (dqa_scale c)), reg, s)
          else if dqa_scale c \<noteq> wire_scale meta then (Err (SeScaleMismatch (dqa_scale c) (wire_scale meta)), reg, s)
          else
            let e = build_event sid aid v a c ev h t d sig n epoch meta
            in (case signature_gate blake3 U D meta e reg of
                (Ok _, reg') \<Rightarrow>
                  (case vault_gate contains e of
                     Ok _ \<Rightarrow>
                       (case observe N Settlement (nonce_namespace blake3 meta a) n s of
                          (Ok _, s') \<Rightarrow> (Ok e, reg', s')
                        | (Err (AlreadyObserved _ _ _), s') \<Rightarrow> (Err SeReplay, reg', s')
                        | (Err _, s') \<Rightarrow> (Err SeInvalidSignature, reg', s')
                        | (Panic, s') \<Rightarrow> (Panic, reg', s'))
                   | Err x \<Rightarrow> (Err x, reg', s)
                   | Panic \<Rightarrow> (Panic, reg', s))
              | (Err x, reg') \<Rightarrow> (Err x, reg', s)
              | (Panic, reg') \<Rightarrow> (Panic, reg', s))
      | Err _ \<Rightarrow> (Err SeAssetUnknown, reg, s)
      | Panic \<Rightarrow> (Panic, reg, s))"

definition settlement_event_validate ::
    "(u8 list \<Rightarrow> u8 list) \<Rightarrow> (u8 list \<Rightarrow> u8 list \<Rightarrow> u8 list) \<Rightarrow> dalek \<Rightarrow> asset_registry \<Rightarrow>
     (VaultId \<Rightarrow> AssetId \<Rightarrow> (unit, VaultAssetError) outcome) \<Rightarrow> 'n nonce_ops \<Rightarrow> settlement_event \<Rightarrow> Epoch \<Rightarrow>
     algorithm_registry \<Rightarrow> 'n \<Rightarrow> (unit, SettlementEventError) outcome \<times> algorithm_registry" where
  "settlement_event_validate blake3 U D registry contains N e epoch reg s =
     (case registry (cost_asset_id e) of
        Ok meta \<Rightarrow>
          if dqa_scale (cost e) \<noteq> wire_scale meta then (Err (SeScaleMismatch (dqa_scale (cost e)) (wire_scale meta)), reg)
          else (case vault_gate contains e of
              Ok _ \<Rightarrow>
                (case signature_gate blake3 U D meta e reg of
                   (Ok _, reg') \<Rightarrow>
                     (if epoch < se_snapshot_epoch e then Err (SeStaleSnapshot (se_snapshot_epoch e) epoch)
                      else case observe_readonly N Settlement (nonce_namespace blake3 meta (cost_asset_id e)) (se_nonce e) s of
                          Ok _ \<Rightarrow> Ok () | Err _ \<Rightarrow> Err SeReplay | Panic \<Rightarrow> Panic, reg')
                 | (Err x, reg') \<Rightarrow> (Err x, reg')
                 | (Panic, reg') \<Rightarrow> (Panic, reg'))
            | Err x \<Rightarrow> (Err x, reg)
            | Panic \<Rightarrow> (Panic, reg))
      | Err _ \<Rightarrow> (Err SeAssetUnknown, reg)
      | Panic \<Rightarrow> (Panic, reg))"

definition verify_settlement_against_payment_caveat ::
    "settlement_event \<Rightarrow> payment_caveat \<Rightarrow> (unit, AuditInvariantViolation) outcome" where
  "verify_settlement_against_payment_caveat e c =
     (if cost_asset_id e \<noteq> pc_asset_id c then Err (AuditAssetMismatch (cost_asset_id e) (pc_asset_id c)) else Ok ())"

definition map_asset_error :: "AssetError \<Rightarrow> SettlementEventError" where
  "map_asset_error e = SeAssetUnknown"

subsection \<open>Lemmas\<close>

definition event_wf :: "settlement_event \<Rightarrow> bool" where
  "event_wf e \<longleftrightarrow> length (settlement_id e) = 32 \<and> length (se_ask_id e) = 32 \<and> length (cost_vault_id e) = 32
     \<and> length (cost_asset_id e) = 32 \<and> length (evidence_ref e) = 32 \<and> length (governance_signature e) = 64
     \<and> dqa_wf (cost e)"

lemma asset_kind_byte_inj: "asset_kind_byte k = asset_kind_byte l \<longleftrightarrow> k = l"
  by (cases k; cases l) simp_all

lemma scale_byte_inj: "dqa_wf a \<Longrightarrow> dqa_wf b \<Longrightarrow> (of_nat (dqa_scale a) :: u8) = of_nat (dqa_scale b) \<longleftrightarrow> dqa_scale a = dqa_scale b"
  by (auto simp: dqa_wf_def MAX_SCALE_def word_unat_eq_iff unat_of_nat)

lemma numeral_256_power: "(256 :: int) ^ 8 = 18446744073709551616"
  by simp

lemma i64_le_inj: "i64_range x \<Longrightarrow> i64_range y \<Longrightarrow> le_bytes 8 x = le_bytes 8 y \<longleftrightarrow> x = y"
  unfolding le_bytes_eq_iff by (metis as_i64_id as_i64_mod numeral_256_power)

lemma u64_le_inj: "le_bytes 8 (uint (x :: u64)) = le_bytes 8 (uint y) \<longleftrightarrow> x = y"
  using uint_bounded [of x] uint_bounded [of y] by (simp add: le_bytes_eq_iff word_uint_eq_iff)

context nonce_registry
begin

lemma event_new_records:
  assumes "settlement_event_new blake3 U D registry contains N sid aid v a c ev h t d sig n epoch reg s = (Ok e, reg', s')"
  obtains meta where "registry a = Ok meta" "cost_asset_id e = a" "se_nonce e = n"
    "(Settlement, nonce_namespace blake3 meta a, n) \<notin> seen s"
    "seen s' = insert (Settlement, nonce_namespace blake3 meta a, n) (seen s)"
proof -
  obtain meta where meta: "registry a = Ok meta"
    using assms by (auto simp: settlement_event_new_def split: outcome.splits)
  show thesis
    by (rule observe_cases [of Settlement "nonce_namespace blake3 meta a" n s])
      (use assms that [OF meta] in \<open>auto simp: settlement_event_new_def meta Let_def build_event_def
        split: if_splits outcome.splits prod.splits NonceError.splits\<close>)
qed

lemma event_validate_seen:
  assumes "registry (cost_asset_id e) = Ok meta" "(Settlement, nonce_namespace blake3 meta (cost_asset_id e), se_nonce e) \<in> seen s"
  shows "fst (settlement_event_validate blake3 U D registry contains N e epoch reg s) \<noteq> Ok ()"
  using readonly_seen [OF assms(2)] assms(1)
  by (auto simp: settlement_event_validate_def split: outcome.splits prod.splits)

end

text \<open>Concrete registries for the witnesses: an asset without a governance key in a registered vault.\<close>

definition sample_assets :: in_memory_assets where
  "sample_assets = [[7] \<mapsto> asset_metadata_new 0 6 ''OCTO-A'' ''OCTO-A'' SovereignRoleToken]"

definition sample_vaults :: in_memory_vaults where
  "sample_vaults = \<lparr>vaults = {[8]}, vault_assets = [[8] \<mapsto> {[7]}]\<rparr>"

abbreviation sample_new :: "nonce_key set \<Rightarrow> (settlement_event, SettlementEventError) outcome \<times> algorithm_registry \<times> nonce_key set" where
  "sample_new \<equiv> settlement_event_new (\<lambda>x. x) (\<lambda>x y. y) \<lparr>from_bytes_ok = (\<lambda>_. True), verify_strict = (\<lambda>_ _ _. True)\<rparr>
     (metadata sample_assets) (contains_asset sample_vaults) in_memory_nonces [1] [2] [8] [7] (mk_dqa 5 0) [3] 10 20 SdConsumed [] [9] 0 registry_new"

section \<open>Properties\<close>

text \<open>The constructor accepts a settlement exactly when the asset is registered and not tombstoned, the cost
  has the scale of the asset, the governance key of the asset, if there is one, verifies the signature
  over the body hash, the vault is registered and holds the asset, and the nonce is new in the
  namespace of the asset. It then records the nonce; whenever it rejects, the nonces stay as they
  are.\<close>

theorem settlement_event_new_correct:
  assumes run: "settlement_event_new blake3 U D (metadata assets) (contains_asset vr) in_memory_nonces sid aid v a c ev h t d sg n ep reg s
    = (r, reg', s')"
  shows "(r = Ok e \<longleftrightarrow>
      (\<exists>meta. assets a = Some meta \<and> \<not> tombstoned meta \<and> dqa_scale c = wire_scale meta \<and> dqa_scale c \<le> 18 \<and> e = build_event sid aid v a c ev h t d sg n ep meta
        \<and> (\<forall>pk. governance_pubkey meta = Some pk \<longrightarrow>
             fst (verify_governance_signature U D (ed25519_algorithm_id U) sg (compute_settlement_body_hash blake3 e) pk reg) = Ok ())
        \<and> v \<in> vaults vr \<and> (\<exists>as. vault_assets vr v = Some as \<and> a \<in> as) \<and> (Settlement, nonce_namespace blake3 meta a, n) \<notin> s))
    \<and> (r = Ok e \<longrightarrow> (\<exists>meta. assets a = Some meta \<and> s' = insert (Settlement, nonce_namespace blake3 meta a, n) s)) \<and> ((\<nexists>e. r = Ok e) \<longrightarrow> s' = s)"
proof (cases "\<exists>meta. assets a = Some meta \<and> \<not> tombstoned meta \<and> dqa_scale c = wire_scale meta \<and> dqa_scale c \<le> 18")
  case False
  then show ?thesis
    using run by (auto simp: settlement_event_new_def metadata_def ASSET_MAX_SCALE_def split: option.splits if_splits)
next
  case True
  then obtain meta where meta: "assets a = Some meta" "metadata assets a = Ok meta" "\<not> tombstoned meta"
      "dqa_scale c = wire_scale meta" "wire_scale meta \<le> 18"
    by (auto simp: metadata_def)
  let ?e = "build_event sid aid v a c ev h t d sg n ep meta"
  let ?key = "(Settlement, nonce_namespace blake3 meta a, n)"
  have new: "(r, reg', s') = (case signature_gate blake3 U D meta ?e reg of
      (Ok _, g) \<Rightarrow> (case vault_gate (contains_asset vr) ?e of
          Ok _ \<Rightarrow> if ?key \<in> s then (Err SeReplay, g, s) else (Ok ?e, g, insert ?key s)
        | Err x \<Rightarrow> (Err x, g, s) | Panic \<Rightarrow> (Panic, g, s))
    | (Err x, g) \<Rightarrow> (Err x, g, s) | (Panic, g) \<Rightarrow> (Panic, g, s))"
    unfolding run [symmetric] settlement_event_new_def Let_def
    using meta by (simp add: ASSET_MAX_SCALE_def in_memory_nonces_def mem_observe_def split: outcome.splits prod.splits)
  have vault: "vault_gate (contains_asset vr) ?e = Ok () \<longleftrightarrow> v \<in> vaults vr \<and> (\<exists>as. vault_assets vr v = Some as \<and> a \<in> as)"
    by (auto simp: vault_gate_def contains_asset_def build_event_def split: option.splits if_splits)
  have gate: "fst (signature_gate blake3 U D meta ?e reg) = Ok () \<longleftrightarrow> (\<forall>pk. governance_pubkey meta = Some pk \<longrightarrow>
      fst (verify_governance_signature U D (ed25519_algorithm_id U) sg (compute_settlement_body_hash blake3 ?e) pk reg) = Ok ())"
    by (simp add: signature_gate_def governance_algorithm_id_def build_event_def split: option.splits prod.splits)
  have ok: "r = Ok e \<longleftrightarrow> e = ?e \<and> fst (signature_gate blake3 U D meta ?e reg) = Ok ()
      \<and> vault_gate (contains_asset vr) ?e = Ok () \<and> ?key \<notin> s" for e
    using new by (auto split: outcome.splits prod.splits if_splits)
  have "(\<exists>e. r = Ok e) \<longrightarrow> s' = insert ?key s" "(\<nexists>e. r = Ok e) \<longrightarrow> s' = s"
    using new by (auto split: outcome.splits prod.splits if_splits)
  then show ?thesis using meta ok [of e] vault gate by auto
qed

theorem settlement_event_new_witness:
  "fst (sample_new {}) = Ok (build_event [1] [2] [8] [7] (mk_dqa 5 0) [3] 10 20 SdConsumed [] [9] 0 (the (sample_assets [7])))
   \<and> snd (snd (sample_new {})) \<noteq> {}"
proof -
  let ?e = "build_event [1] [2] [8] [7] (mk_dqa 5 0) [3] 10 20 SdConsumed [] [9] 0 (the (sample_assets [7]))"
  obtain r reg' s' where run: "sample_new {} = (r, reg', s')" by (metis prod.collapse)
  have "sample_assets [7] = Some (the (sample_assets [7]))" "\<not> tombstoned (the (sample_assets [7]))"
      "dqa_scale (mk_dqa 5 0) = wire_scale (the (sample_assets [7]))" "governance_pubkey (the (sample_assets [7])) = None"
    by (simp_all add: sample_assets_def asset_metadata_new_def)
  moreover have "[8] \<in> vaults sample_vaults" "vault_assets sample_vaults [8] = Some {[7]}" by (simp_all add: sample_vaults_def)
  ultimately have "r = Ok ?e" "s' \<noteq> {}"
    using settlement_event_new_correct [OF run, of ?e] by auto
  then show ?thesis using run by simp
qed

text \<open>C18: A settlement is accepted once. After the constructor has accepted an event, on that and on every later
  set of nonces no constructor call for the same asset and nonce succeeds, whatever its other
  arguments, and the check after deserialization does not accept the event either: it only passes
  against a registry in which the event was never recorded.\<close>

theorem settlement_event_once:
  assumes "settlement_event_new blake3 U D (metadata assets) ct in_memory_nonces sid aid v a c ev h t d sg n ep reg s = (Ok e, reg1, s1)"
    and "s1 \<subseteq> s2"
  shows "fst (settlement_event_new blake3 U D (metadata assets) ct in_memory_nonces sid' aid' v' a c' ev' h' t' d' sg' n ep' reg2 s2) \<noteq> Ok e'
    \<and> fst (settlement_event_validate blake3 U D (metadata assets) ct in_memory_nonces e ep' reg2 s2) \<noteq> Ok ()"
proof -
  obtain meta where m: "metadata assets a = Ok meta" "cost_asset_id e = a" "se_nonce e = n"
      "s1 = insert (Settlement, nonce_namespace blake3 meta a, n) s"
    by (rule mem_nonces.event_new_records [OF assms(1)])
  then have used: "(Settlement, nonce_namespace blake3 meta a, n) \<in> s2" using assms(2) by auto
  have "fst (settlement_event_new blake3 U D (metadata assets) ct in_memory_nonces sid' aid' v' a c' ev' h' t' d' sg' n ep' reg2 s2) \<noteq> Ok e'"
  proof
    assume "fst (settlement_event_new blake3 U D (metadata assets) ct in_memory_nonces sid' aid' v' a c' ev' h' t' d' sg' n ep' reg2 s2) = Ok e'"
    then obtain g s3 where "settlement_event_new blake3 U D (metadata assets) ct in_memory_nonces sid' aid' v' a c' ev' h' t' d' sg' n ep' reg2 s2
        = (Ok e', g, s3)" by (metis prod.collapse)
    then show False using used m(1) by (auto elim: mem_nonces.event_new_records)
  qed
  moreover have "fst (settlement_event_validate blake3 U D (metadata assets) ct in_memory_nonces e ep' reg2 s2) \<noteq> Ok ()"
    using mem_nonces.event_validate_seen [of "metadata assets" e meta blake3 s2] m used by simp
  ultimately show ?thesis by blast
qed

theorem settlement_event_once_witness:
  "\<exists>e reg1 s1. sample_new {} = (Ok e, reg1, s1) \<and> (\<nexists>e'. fst (sample_new s1) = Ok e')"
proof -
  obtain e reg1 s1 where run: "sample_new {} = (Ok e, reg1, s1)"
    by (simp add: settlement_event_new_def sample_assets_def sample_vaults_def asset_metadata_new_def metadata_def ASSET_MAX_SCALE_def
        Let_def signature_gate_def vault_gate_def contains_asset_def build_event_def in_memory_nonces_def mem_observe_def)
  then show ?thesis using settlement_event_once [OF run subset_refl] by blast
qed

text \<open>What a governance signature covers, for a hash without collisions: two events have the same body hash
  exactly when they agree on the identifiers, vault, asset, kind, cost, ledger height, evidence, nonce
  and the first half of the signature itself. The governance key is not covered, and the decision, the
  creation time, the snapshot epoch and the second half of the signature can be replaced without
  changing the verified hash.\<close>

theorem settlement_body_coverage:
  assumes "inj blake3" "event_wf e" "event_wf f"
  shows "compute_settlement_body_hash blake3 e = compute_settlement_body_hash blake3 f \<longleftrightarrow>
    settlement_id e = settlement_id f \<and> se_ask_id e = se_ask_id f \<and> cost_vault_id e = cost_vault_id f \<and> cost_asset_id e = cost_asset_id f
    \<and> se_asset_kind e = se_asset_kind f \<and> cost e = cost f \<and> ledger_height e = ledger_height f \<and> evidence_ref e = evidence_ref f
    \<and> take 32 (governance_signature e) = take 32 (governance_signature f) \<and> se_nonce e = se_nonce f"
proof -
  have "compute_settlement_body_hash blake3 e = compute_settlement_body_hash blake3 f \<longleftrightarrow> settlement_body e = settlement_body f"
    using assms(1) by (simp add: compute_settlement_body_hash_def inj_eq)
  moreover have "cost e = cost f \<longleftrightarrow> dqa_scale (cost e) = dqa_scale (cost f) \<and> dqa_value (cost e) = dqa_value (cost f)"
    by (cases "cost e"; cases "cost f") auto
  ultimately show ?thesis
    using assms(2,3)
    by (auto simp: settlement_body_def event_wf_def asset_kind_byte_inj scale_byte_inj dqa_wf_def i64_le_inj u64_le_inj)
qed

theorem settlement_body_coverage_witness:
  "let e = build_event (replicate 32 1) (replicate 32 2) (replicate 32 8) (replicate 32 7) (mk_dqa 5 0) (replicate 32 3) 10 20
         SdConsumed (replicate 64 4) [9] 0 (asset_metadata_new 0 6 ''A'' ''A'' OctoW) in
   compute_settlement_body_hash (\<lambda>x. x) e
     = compute_settlement_body_hash (\<lambda>x. x) (e\<lparr>settlement_decision := SdBudgetExhausted, created_at_unix_ms := 0, se_snapshot_epoch := 5\<rparr>)"
proof -
  let ?e = "build_event (replicate 32 1) (replicate 32 2) (replicate 32 8) (replicate 32 7) (mk_dqa 5 0) (replicate 32 3) 10 20
      SdConsumed (replicate 64 4) [9] 0 (asset_metadata_new 0 6 ''A'' ''A'' OctoW)"
  let ?f = "?e\<lparr>settlement_decision := SdBudgetExhausted, created_at_unix_ms := 0, se_snapshot_epoch := 5\<rparr>"
  have "event_wf ?e" "event_wf ?f"
    by (simp_all add: event_wf_def build_event_def dqa_wf_def i64_range_def MAX_SCALE_def)
  then show ?thesis
    using settlement_body_coverage [of "\<lambda>x. x" ?e ?f] by (simp add: Let_def)
qed

end
