(* ===== verification/Spec2Isabelle.thy ===== *)
theory Spec2Isabelle
  imports DecimalInternal Dcs OrderBook Escrow DfpReal Dmat Dact SettleRuns ReceiptSink Envelope
    Election SettleEvents
begin

text \<open>
  \<^bold>\<open>A verification of the numeric substrate, the market core, the settlement engine and the mission
  coordinator of CipherOcto.\<close>

  CipherOcto is a workspace of Rust crates for a market of model quotas and inference tasks. Five layers
  of it carry its own logic and are modelled here. The crate \<open>determin\<close> holds the deterministic number
  types in which all amounts are computed and hashed. The crate \<open>quota-router-core\<close> holds the market: an
  order book matches bids against asks, an escrow holds the amount of a trade until it is settled or a
  dispute is decided. The settlement crates turn a trade into receipts: asks are minted, settled and
  consumed in a database, receipts form a hash chain, signed envelopes carry statements between shards.
  The crate \<open>octo-coordinator-types\<close> elects, watches and slashes the coordinator of a mission. The
  capability and paid-query crates decide which query a payment caveat covers and charge it to a ledger.
  The layers meet in the amounts (\<open>Dqa\<close>), in the registry of signature algorithms and in the registries
  of assets, vaults and nonces. The other crates are adapters, services and tools around them.

  \<^bold>\<open>Theories and sources.\<close>

  \<^item> \<open>Prelude\<close>: the outcome of a Rust call (\<open>Ok\<close>, \<open>Err\<close>, \<open>Panic\<close>), machine integers with their wrap,
    truncating division, checked indexing. The arithmetic is that of the release profile.
  \<^item> \<open>Bytes\<close>: byte orders and the locale \<open>wire_codec\<close>. \<open>Numerals\<close>: printing and parsing of numbers.
    \<open>FixedPoint\<close>: the value of a scaled integer, canonical form, half-even rounding, and the locale
    \<open>zero_stripper\<close> of the loops that remove trailing zeros. \<open>IntSqrt\<close>: convergence of Newton's
    iteration. \<open>BTree\<close>: Rust's \<open>BTreeMap\<close> and the locale \<open>ordered_map\<close>. \<open>Wide\<close>: words of 128 bits and
    pairs of them.
  \<^item> \<open>Dqa\<close> models \<open>determin/src/dqa.rs\<close>: decimal quantities of an \<open>i64\<close> and a scale up to 18, their
    arithmetic, comparison, column assignment and wire encoding.
  \<^item> \<open>Limbs\<close>, \<open>LimbShift\<close>, \<open>KnuthD\<close>, \<open>BigIntDet\<close> and \<open>BigIntCodec\<close> model \<open>determin/src/bigint.rs\<close>:
    addition, subtraction and multiplication of limb vectors, shifts, Knuth's Algorithm D and the
    single-limb division behind the locale \<open>magnitude_divider\<close>, the signed operations with their 4096
    bit bound, the machine integer conversions, the wire encoding and the strings.
  \<^item> \<open>DecimalDet\<close> and \<open>DecimalBig\<close> model \<open>determin/src/decimal.rs\<close>: decimals of an \<open>i128\<close> and a scale up
    to 36. The operations that use the crate \<open>num-bigint\<close> take its operations as a parameter
    (\<open>num_ops\<close>) with its documented behaviour as hypothesis (\<open>num_laws\<close>); \<open>int_ops\<close> satisfies it.
    \<open>DecimalInternal\<close> models \<open>determin/src/decimal_internal.rs\<close>, the same operations on \<open>BigInt\<close>.
  \<^item> \<open>Dfp\<close>, \<open>DfpArith\<close> and \<open>DfpReal\<close> model \<open>lib.rs\<close>, \<open>arithmetic.rs\<close>, \<open>dfp_compare.rs\<close> and \<open>dcmp.rs\<close> of
    \<open>determin/src\<close>: floating point numbers with odd mantissas of at most 113 bits, their conversions,
    encoding, order and arithmetic; \<open>DfpReal\<close> gives the operations their real values.
  \<^item> \<open>Dvec\<close> and \<open>Dmat\<close> model \<open>dvec.rs\<close> and \<open>dmat.rs\<close>: vectors and matrices over a record of scalar
    operations, instantiated with \<open>Dqa\<close> and \<open>Decimal\<close>. \<open>Dact\<close> models \<open>dact.rs\<close> and \<open>dact_lut.rs\<close>, the
    activation functions with their tables.
  \<^item> \<open>Dcs\<close> models \<open>determin/src/dcs.rs\<close>: the canonical serialization. The trait \<open>DcsSerializable\<close> is the
    locale \<open>dcs_serializable\<close> (and \<open>dcs_fixed\<close> for the types of fixed width), interpreted for every
    modelled type.
  \<^item> \<open>OrderBook\<close> models \<open>marketplace/orderbook.rs\<close> and \<open>task_market/orders.rs\<close> of
    \<open>crates/quota-router-core/src\<close>: a book is two ordered maps and a sequence counter, a call returns
    the result and the new book. The hash BLAKE3 is a parameter. Calls of the task market are atomic
    (its mutex is held during a call), so a run is a sequence of steps (\<open>market_run\<close>).
  \<^item> \<open>Escrow\<close> models \<open>marketplace/escrow.rs\<close>, \<open>task_market/escrow.rs\<close> and \<open>task_market/dispute.rs\<close>: a
    method on \<open>&mut self\<close> returns its result and the new state; the locale \<open>escrow_machine\<close> is the
    contract of the life cycle, interpreted on the escrow and on the task escrow.
  \<^item> \<open>SigAlgs\<close> models \<open>octo-ident/src/signature_algorithm.rs\<close> and \<open>octo-algo-ed25519/src/lib.rs\<close>: the
    registry of signature algorithms and the dispatch of a verification. The process-wide registry is a
    state; the curve and the UUID hash are parameters.
  \<^item> \<open>Receipts\<close> models \<open>octo-settlement-core/src\<close>: asks, reservations, receipts and their hash chain, with
    and without router signatures, and the locale \<open>life_cycle\<close> of a finite state machine.
  \<^item> \<open>SettleStore\<close> models \<open>lib.rs\<close>, \<open>state_machine.rs\<close> and \<open>store.rs\<close> of \<open>quota-router-sm-engine/src\<close> and
    \<open>octo-settlement/src/scrub.rs\<close>: the SQL engine is a record of operations whose effect on the tables
    is the hypothesis \<open>engine_laws\<close> (and \<open>fault_free\<close> where it must not fail). \<open>SettleRuns\<close> has the
    statements over sequences and interleavings of calls, \<open>ReceiptSink\<close> those of the receipt table.
    \<open>Envelope\<close> models \<open>envelope.rs\<close> and \<open>shard.rs\<close> with the locale \<open>replay_index\<close>.
  \<^item> \<open>Coordinator\<close> and \<open>Election\<close> model \<open>lib.rs\<close>, \<open>state.rs\<close>, \<open>liveness.rs\<close>, \<open>slashing.rs\<close> and
    \<open>election.rs\<close> of \<open>octo-coordinator-types/src\<close>.
  \<^item> \<open>Registries\<close> models \<open>substrate.rs\<close> and \<open>governance_signature.rs\<close> of \<open>octo-cap-macaroon/src\<close>, with the
    locale \<open>nonce_registry\<close> for the trait of that name. \<open>Payments\<close> models \<open>caveat/payment.rs\<close> and \<open>lib.rs\<close>
    and \<open>ledger.rs\<close> of \<open>octo-paid-query/src\<close>. \<open>SettleEvents\<close> models \<open>settlement_event.rs\<close> of the
    settlement engine over both.

  \<^bold>\<open>What the theorems show.\<close>

  \<^item> \<^emph>\<open>Arithmetic\<close>: on canonical operands each operation of \<open>Dqa\<close>, \<open>BigInt\<close> and \<open>Decimal\<close> returns the
    canonical representation of the exact or correctly rounded result, or the error the code
    documents; the theorems state the exceptions where the code deviates (ties with odd divisors,
    the lost sign of tiny products, ties of the internal multiplication, subtraction of zero).
  \<^item> \<^emph>\<open>Floating point\<close>: canonical results for canonical arguments; the results are the exact ones cut
    towards zero, with error bounds; the order is a total preorder consistent with its operators.
  \<^item> \<^emph>\<open>Vectors, matrices, activation functions\<close>: sums of products are exact or \<open>Overflow\<close>, where no product
    loses a trailing zero; sigmoid and tanh are bounded and monotone.
  \<^item> \<^emph>\<open>Equivalence\<close>: the two implementations of the decimal operations agree where stated.
  \<^item> \<^emph>\<open>Codecs\<close>: round trips and injectivity of the wire formats and strings, and the inputs for which
    they fail.
  \<^item> \<^emph>\<open>Market\<close>: price-time priority, conservation of quantities, termination of matching,
    well-formedness of every reachable book.
  \<^item> \<^emph>\<open>Escrow\<close>: refinement of the life cycle, safety of all call sequences, absence of an exit from a
    dispute without an arbitrator, and that an escrow with named parties can be finished.
  \<^item> \<^emph>\<open>Settlement\<close>: the invariant of the store over all call sequences, single consumption of receipts,
    completion of the intended path, the race between the two halves of \<open>settle\<close>, the consumption of an
    unsettled ask, refinement of the receipt chain by the sink, what signatures over envelopes,
    receipts and settlement events cover, and that settlement events are accepted once.
  \<^item> \<^emph>\<open>Coordinator\<close>: the life cycle and liveness decisions, the effect of a slash on every branch, the
    winner of an election under each governance model and its independence of the order of ballots.
  \<^item> \<^emph>\<open>Payments\<close>: conservation of budgets over all sequences of charges, the faults of the ledger, exact
    decisions, attenuation that only narrows, and that a caveat is used up by its first verification.

  \<^bold>\<open>Bounds and fuel.\<close> No definition needs fuel that can run out: \<open>hex_parse_loop\<close> counts down the length
  of its string, \<open>newton_loop\<close> and \<open>newton_internal\<close> the forty rounds of the code, which \<open>newton_sqrt\<close>
  shows to be enough (eight suffice below \<open>2 ^ 508\<close>, and the radicands are below \<open>10 ^ 108\<close>). The loops of
  the floating point division and square root run the fixed 128 and 226 rounds of the code, the
  prescaling of a division at most 200. The sequence counter of the order book wraps at \<open>2 ^ 64\<close>; the
  statements about runs assume fewer than \<open>2 ^ 62\<close> calls. Elections assume fewer than \<open>2 ^ 62\<close> ballots, and
  the sink refines the chain while identifiers are below \<open>2 ^ 63\<close>.

  \<^bold>\<open>Not modelled.\<close> Printing of \<open>Dfp\<close> values, serde and Borsh wrappers of requests, helpers nothing calls;
  the consensus commitments; slashing and scoring of \<open>quota-router-core\<close> and conversions between \<open>Dqa\<close> and
  \<open>f64\<close>, which compute in \<open>f64\<close>; snapshots that only copy fields; event producers and migrations of the
  settlement engine. The network, adapter, command line, storage, synchronization, identity, policy,
  governance and zero-knowledge crates are services over I/O and third-party code.
\<close>

end
